(* ===== verification/Prelude.thy ===== *)
theory Prelude
  imports Main "HOL-Library.Word" "HOL-Library.Multiset"
begin

text \<open>
  What every component shares: the C scalar types by their names in the sources, the status
  codes of \<^verbatim>\<open>h/utl/types.h\<close>, the theorem collections of the development, and generic lemmas
  on lists, ring indices and words.

  C's unsigned integers are words of their width (arithmetic wraps). C's signed integers are
  \<open>int\<close> where the code only counts and compares (signed overflow is undefined in C, so the model
  speaks about the executions that have none) and words read by \<open>sint\<close> where the code relies on
  wrap-around.
\<close>

unbundle bit_operations_syntax

type_synonym UCHAR = "8 word"
type_synonym USHORT = "16 word"
type_synonym UINT = "32 word"
type_synonym UINT64 = "64 word"

named_theorems inv_defs \<open>definitions of the components' invariants\<close>
named_theorems op_defs \<open>definitions of non-recursive operations\<close>

section \<open>Status codes\<close>

datatype bs_status =
    BS_OK | BS_ERR | BS_NO_SUCH | BS_ALREADY_EXIST | BS_BAD_PTR | BS_CAN_NOT_OPEN
  | BS_WRONG_FILE | BS_NOT_SUPPORT | BS_OUT_OF_RANGE | BS_TIME_OUT | BS_NO_MEMORY
  | BS_NULL_PARA | BS_NO_RESOURCE | BS_BAD_PARA | BS_NO_PERMIT | BS_FULL | BS_EMPTY
  | BS_PAUSE | BS_STOP | BS_CONTINUE | BS_NOT_FOUND | BS_NOT_COMPLETE
  | BS_CAN_NOT_CONNECT | BS_CONFLICT | BS_TOO_LONG | BS_TOO_SMALL | BS_BAD_REQUEST
  | BS_AGAIN | BS_CAN_NOT_WRITE | BS_NOT_READY | BS_PROCESSED | BS_PEER_CLOSED
  | BS_NOT_MATCHED | BS_VERIFY_FAILED | BS_NOT_INIT | BS_REF_NOT_ZERO | BS_BUSY
  | BS_PARSE_FAILED | BS_REACH_MAX | BS_STOLEN

section \<open>The allocator\<close>

text \<open>A script of the outcomes of the next allocations; they succeed when the script is over.\<close>

fun mem_ask :: "bool list \<Rightarrow> bool \<times> bool list" where
  "mem_ask [] = (True, [])"
| "mem_ask (b # al) = (b, al)"

section \<open>Words\<close>

lemma unat_Suc_word:
  "unat (w :: 'a :: len word) < 2 ^ LENGTH('a) - 1 \<Longrightarrow> unat (w + 1) = Suc (unat w)"
  by (simp add: unat_word_ariths(1))

lemma unat_dec_word:
  "(w :: 'a :: len word) \<noteq> 0 \<Longrightarrow> unat (w - 1) = unat w - 1"
  by (metis One_nat_def unat_minus_one)

lemma unat_eq_0_word [simp]: "unat (w :: 'a :: len word) = 0 \<longleftrightarrow> w = 0"
  by (simp add: unat_eq_zero)

lemma sint_eq_0_word [simp]: "sint (w :: 'a :: len word) = 0 \<longleftrightarrow> w = 0"
  by (simp add: signed_eq_0_iff)

lemma unat_lt2p: "unat (w :: 'a :: len word) < 2 ^ LENGTH('a)"
  by (rule unsigned_less)

lemma unat_add_word:
  "unat (a :: 'a :: len word) + unat b < 2 ^ LENGTH('a) \<Longrightarrow> unat (a + b) = unat a + unat b"
  by (simp add: unat_word_ariths(1))

lemma unat_of_nat_small: "n < 2 ^ LENGTH('a) \<Longrightarrow> unat (of_nat n :: 'a :: len word) = n"
  by (simp add: unat_of_nat)

section \<open>The first hit of a scan\<close>

fun del_first :: "('a \<Rightarrow> bool) \<Rightarrow> 'a list \<Rightarrow> 'a list" where
  "del_first P [] = []"
| "del_first P (x # xs) = (if P x then xs else x # del_first P xs)"

lemma del_first_none: "find P xs = None \<Longrightarrow> del_first P xs = xs"
  by (induction xs) (auto split: if_splits)

lemma set_del_first: "set (del_first P xs) \<subseteq> set xs"
  by (induction xs) auto

lemma sorted_wrt_del_first: "sorted_wrt P xs \<Longrightarrow> sorted_wrt P (del_first Q xs)"
  using set_del_first [of Q] by (induction xs) auto

lemma del_first_unique:
  "distinct (map f xs) \<Longrightarrow> del_first (\<lambda>x. f x = k) xs = filter (\<lambda>x. f x \<noteq> k) xs"
proof (induction xs)
  case (Cons x xs)
  have "filter (\<lambda>y. f y \<noteq> f x) xs = xs"
    by (rule filter_True) (use Cons.prems in \<open>auto simp: image_iff\<close>)
  then show ?case using Cons by auto
qed simp

lemma distinct_del_first: "distinct (map f xs) \<Longrightarrow> distinct (map f (del_first P xs))"
  using set_del_first [of P] by (induction xs) fastforce+

lemma mset_del_first:
  assumes "x \<in> set xs" "P x" "\<And>y. y \<in> set xs \<Longrightarrow> P y \<Longrightarrow> y = x"
  shows "mset (del_first P xs) = mset xs - {#x#}"
  using assms
proof (induction xs)
  case (Cons y ys)
  show ?case
  proof (cases "P y")
    case True
    then have "y = x" by (simp add: Cons.prems(3))
    then show ?thesis using True by simp
  next
    case False
    then have "x \<in> set ys" "y \<noteq> x" using Cons.prems(1,2) by auto
    have "mset (del_first P ys) = mset ys - {#x#}"
      by (rule Cons.IH [OF \<open>x \<in> set ys\<close> Cons.prems(2)]) (rule Cons.prems(3), simp_all)
    then show ?thesis using False \<open>x \<in> set ys\<close> \<open>y \<noteq> x\<close> by simp
  qed
qed simp

lemma split_unique: "P @ n # S = P' @ n # S' \<Longrightarrow> distinct (P @ n # S) \<Longrightarrow> P = P' \<and> S = S'"
proof (induction P arbitrary: P')
  case Nil
  then show ?case by (cases P') auto
next
  case (Cons x P)
  then show ?case by (cases P') auto
qed

section \<open>Fields of tables\<close>

lemma field_update_other: "f x = f (xs ! i) \<Longrightarrow> f (xs[i := x] ! j) = f (xs ! j)"
  by (metis linorder_not_le list_update_beyond nth_list_update_eq nth_list_update_neq)

section \<open>Lists of buckets\<close>

lemma mset_concat_update:
  "i < length bs \<Longrightarrow> mset (concat (bs[i := b])) + mset (bs ! i) = mset (concat bs) + mset b"
proof (induction bs arbitrary: i)
  case (Cons c bs)
  then show ?case by (cases i) (simp_all add: ac_simps)
qed simp

lemma set_concat_update_subset: "set (concat (bs[i := b])) \<subseteq> set (concat bs) \<union> set b"
  using set_update_subset_insert [of bs i b] by auto

end
