(* ===== verification/Interfaces.thy ===== *)
theory Interfaces
  imports Prelude
begin

text \<open>
  The contracts between the components: what a client of a queue, of a stack, of a keyed table or
  of an indexed pool may rely on. Each contract is a locale over the provider's own
  operations; the lemmas of a client are proved once inside it. The providers interpret the
  locales on the definitions that model their code.
\<close>

section \<open>First in, first out\<close>

text \<open>
  \<open>inv\<close> is the provider's invariant, \<open>abs\<close> the list a state stands for, and \<open>room s a\<close> says that
  the provider accepts \<open>a\<close>. An insertion outside \<open>room\<close> is not constrained.
\<close>

locale fifo =
  fixes inv :: "'s \<Rightarrow> bool"
    and abs :: "'s \<Rightarrow> 'a list"
    and room :: "'s \<Rightarrow> 'a \<Rightarrow> bool"
    and enq :: "'a \<Rightarrow> 's \<Rightarrow> 's"
    and deq :: "'s \<Rightarrow> 'a option \<times> 's"
  assumes enq_inv: "inv s \<Longrightarrow> room s a \<Longrightarrow> inv (enq a s)"
    and enq_abs: "inv s \<Longrightarrow> room s a \<Longrightarrow> abs (enq a s) = abs s @ [a]"
    and deq_inv: "inv s \<Longrightarrow> inv (snd (deq s))"
    and deq_abs: "inv s \<Longrightarrow> abs (snd (deq s)) = tl (abs s)"
    and deq_res: "inv s \<Longrightarrow> fst (deq s) = (case abs s of [] \<Rightarrow> None | a # _ \<Rightarrow> Some a)"
begin

text \<open>A client that takes up to \<open>n\<close> elements.\<close>

primrec drain :: "nat \<Rightarrow> 's \<Rightarrow> 'a list \<times> 's" where
  "drain 0 s = ([], s)"
| "drain (Suc n) s =
     (case deq s of (None, s') \<Rightarrow> ([], s')
      | (Some a, s') \<Rightarrow> (let (as, s'') = drain n s' in (a # as, s'')))"

lemma drain_take:
  "inv s \<Longrightarrow> fst (drain n s) = take n (abs s) \<and> abs (snd (drain n s)) = drop n (abs s) \<and> inv (snd (drain n s))"
proof (induction n arbitrary: s)
  case (Suc n)
  obtain r s' where d: "deq s = (r, s')" by (cases "deq s") auto
  have s': "inv s'" "abs s' = tl (abs s)" "r = (case abs s of [] \<Rightarrow> None | a # _ \<Rightarrow> Some a)"
    using deq_inv [OF Suc.prems] deq_abs [OF Suc.prems] deq_res [OF Suc.prems] by (simp_all add: d)
  show ?case
    using Suc.IH [OF s'(1)] s' by (cases "abs s") (auto simp: d split: prod.split)
qed simp

lemma enq_all:
  assumes "inv s" "\<forall>ys a zs. as = ys @ a # zs \<longrightarrow> (\<forall>t. inv t \<and> abs t = abs s @ ys \<longrightarrow> room t a)"
  shows "inv (fold enq as s) \<and> abs (fold enq as s) = abs s @ as"
  using assms
proof (induction as arbitrary: s)
  case (Cons a as)
  have r: "room s a" using Cons.prems by fastforce
  have "inv (enq a s)" "abs (enq a s) = abs s @ [a]"
    using Cons.prems(1) r by (simp_all add: enq_inv enq_abs)
  moreover have "\<forall>ys b zs. as = ys @ b # zs \<longrightarrow>
      (\<forall>t. inv t \<and> abs t = abs (enq a s) @ ys \<longrightarrow> room t b)"
  proof (intro allI impI)
    fix ys b zs t
    assume "as = ys @ b # zs" "inv t \<and> abs t = abs (enq a s) @ ys"
    then show "room t b"
      using Cons.prems(2) [THEN spec, of "a # ys"] calculation(2) by simp
  qed
  ultimately show ?case using Cons.IH [of "enq a s"] by simp
qed simp

end

section \<open>Last in, first out\<close>

locale lifo =
  fixes inv :: "'s \<Rightarrow> bool"
    and abs :: "'s \<Rightarrow> 'a list"
    and room :: "'s \<Rightarrow> 'a \<Rightarrow> bool"
    and push :: "'a \<Rightarrow> 's \<Rightarrow> 's"
    and pop :: "'s \<Rightarrow> 'a option \<times> 's"
  assumes push_inv: "inv s \<Longrightarrow> room s a \<Longrightarrow> inv (push a s)"
    and push_abs: "inv s \<Longrightarrow> room s a \<Longrightarrow> abs (push a s) = a # abs s"
    and pop_inv: "inv s \<Longrightarrow> inv (snd (pop s))"
    and pop_abs: "inv s \<Longrightarrow> abs (snd (pop s)) = tl (abs s)"
    and pop_res: "inv s \<Longrightarrow> fst (pop s) = (case abs s of [] \<Rightarrow> None | a # _ \<Rightarrow> Some a)"
begin

lemma pop_push:
  "inv s \<Longrightarrow> room s a \<Longrightarrow> fst (pop (push a s)) = Some a \<and> abs (snd (pop (push a s))) = abs s"
  by (simp add: pop_abs pop_res push_abs push_inv)

end

section \<open>Keyed tables\<close>

locale table =
  fixes inv :: "'s \<Rightarrow> bool"
    and look :: "'s \<Rightarrow> 'k \<Rightarrow> 'v option"
    and put :: "'k \<Rightarrow> 'v \<Rightarrow> 's \<Rightarrow> 's"
  assumes put_inv: "inv s \<Longrightarrow> inv (put k v s)"
    and look_put: "inv s \<Longrightarrow> look (put k v s) = (look s)(k \<mapsto> v)"
begin

lemma look_put_same: "inv s \<Longrightarrow> look (put k v s) k = Some v"
  by (simp add: look_put)

lemma look_put_other: "inv s \<Longrightarrow> k' \<noteq> k \<Longrightarrow> look (put k v s) k' = look s k'"
  by (simp add: look_put)

text \<open>A client that loads a table from a list of bindings; the last binding of a key wins.\<close>

lemma look_load:
  "inv s \<Longrightarrow> look (fold (\<lambda>(k, v). put k v) kvs s) = look s ++ map_of (rev kvs)"
proof (induction kvs arbitrary: s)
  case (Cons kv kvs)
  obtain k v where "kv = (k, v)" by (cases kv)
  then show ?case
    using Cons.IH [of "put k v s"] Cons.prems put_inv look_put
    by (auto simp: map_add_def fun_eq_iff split: option.split)
qed simp

end

locale table_del = table inv look put
  for inv :: "'s \<Rightarrow> bool" and look :: "'s \<Rightarrow> 'k \<Rightarrow> 'v option" and put :: "'k \<Rightarrow> 'v \<Rightarrow> 's \<Rightarrow> 's" +
  fixes remove :: "'k \<Rightarrow> 's \<Rightarrow> 's"
  assumes remove_inv: "inv s \<Longrightarrow> inv (remove k s)"
    and look_remove: "inv s \<Longrightarrow> look (remove k s) = (look s)(k := None)"
begin

lemma remove_put: "inv s \<Longrightarrow> look s k = None \<Longrightarrow> look (remove k (put k v s)) = look s"
  by (auto simp: look_remove put_inv look_put fun_eq_iff)

end

section \<open>Priority queues\<close>

text \<open>\<open>take\<close> may not return (\<open>None\<close>) outside the invariant; inside it returns a least element, or
  nothing when the queue is empty.\<close>

locale pqueue =
  fixes inv :: "'s \<Rightarrow> bool"
    and abs :: "'s \<Rightarrow> 'a multiset"
    and le :: "'a \<Rightarrow> 'a \<Rightarrow> bool"
    and room :: "'s \<Rightarrow> bool"
    and ins :: "'a \<Rightarrow> 's \<Rightarrow> 's"
    and take_min :: "'s \<Rightarrow> ('a option \<times> 's) option"
  assumes ins_inv: "inv s \<Longrightarrow> room s \<Longrightarrow> inv (ins a s)"
    and ins_abs: "inv s \<Longrightarrow> room s \<Longrightarrow> abs (ins a s) = add_mset a (abs s)"
    and take_empty: "inv s \<Longrightarrow> abs s = {#} \<Longrightarrow> take_min s = Some (None, s)"
    and take_least: "inv s \<Longrightarrow> abs s \<noteq> {#} \<Longrightarrow>
      \<exists>a s'. take_min s = Some (Some a, s') \<and> inv s' \<and> abs s = add_mset a (abs s') \<and> (\<forall>b\<in>#abs s. le a b)"
begin

text \<open>A client that empties the queue.\<close>

primrec take_all :: "nat \<Rightarrow> 's \<Rightarrow> 'a list option" where
  "take_all 0 s = Some []"
| "take_all (Suc n) s =
     (case take_min s of
        None \<Rightarrow> None
      | Some (None, s') \<Rightarrow> Some []
      | Some (Some a, s') \<Rightarrow> map_option ((#) a) (take_all n s'))"

lemma take_all_sorted:
  "inv s \<Longrightarrow> size (abs s) \<le> n \<Longrightarrow> \<exists>as. take_all n s = Some as \<and> mset as = abs s \<and> sorted_wrt le as"
proof (induction n arbitrary: s)
  case (Suc n)
  show ?case
  proof (cases "abs s = {#}")
    case False
    from take_least [OF Suc.prems(1) False] obtain a s' where a: "take_min s = Some (Some a, s')" "inv s'"
      "abs s = add_mset a (abs s')" "\<forall>b\<in>#abs s. le a b" by blast
    moreover obtain as where "take_all n s' = Some as" "mset as = abs s'" "sorted_wrt le as"
      using Suc.IH [OF a(2)] Suc.prems(2) a(3) by auto
    ultimately show ?thesis by (auto simp flip: set_mset_mset)
  qed (use take_empty [OF Suc.prems(1)] in simp)
qed simp

end

section \<open>Searchable bags\<close>

text \<open>A collection that finds an element by example: \<open>eq a q\<close> says that \<open>a\<close> is what the example \<open>q\<close> asks for.
  \<open>ok a\<close> is what the collection requires of an element.\<close>

locale bag =
  fixes inv :: "'s \<Rightarrow> bool"
    and elems :: "'s \<Rightarrow> 'a multiset"
    and ok :: "'s \<Rightarrow> 'a \<Rightarrow> bool"
    and ins :: "'a \<Rightarrow> 's \<Rightarrow> 's"
    and del :: "'a \<Rightarrow> 's \<Rightarrow> 's"
    and search :: "'s \<Rightarrow> 'a \<Rightarrow> 'a option"
    and eq :: "'a \<Rightarrow> 'a \<Rightarrow> bool"
  assumes ins_inv: "inv s \<Longrightarrow> ok s a \<Longrightarrow> inv (ins a s)"
    and ins_elems: "inv s \<Longrightarrow> ok s a \<Longrightarrow> elems (ins a s) = add_mset a (elems s)"
    and del_inv: "inv s \<Longrightarrow> a \<in># elems s \<Longrightarrow> inv (del a s)"
    and del_elems: "inv s \<Longrightarrow> a \<in># elems s \<Longrightarrow> elems (del a s) = elems s - {#a#}"
    and search_some: "inv s \<Longrightarrow> search s q = Some a \<Longrightarrow> a \<in># elems s \<and> eq a q"
    and search_none: "inv s \<Longrightarrow> search s q = None \<Longrightarrow> a \<in># elems s \<Longrightarrow> \<not> eq a q"
begin

text \<open>No two elements answer the same example.\<close>

definition unique :: "'s \<Rightarrow> bool" where
  "unique s \<longleftrightarrow> (\<forall>a\<in>#elems s. \<forall>b\<in>#elems s. \<forall>q. eq a q \<longrightarrow> eq b q \<longrightarrow> a = b) \<and> (\<forall>a. count (elems s) a \<le> 1)"

lemma search_unique:
  "inv s \<Longrightarrow> unique s \<Longrightarrow> a \<in># elems s \<Longrightarrow> eq a q \<Longrightarrow> search s q = Some a"
  using search_some [of s q] search_none [of s q a] unfolding unique_def by (cases "search s q") auto

lemma search_iff:
  "inv s \<Longrightarrow> unique s \<Longrightarrow> search s q = Some a \<longleftrightarrow> a \<in># elems s \<and> eq a q"
  using search_unique search_some by blast

lemma unique_ins:
  assumes "inv s" "ok s a" "unique s" "\<And>b q. b \<in># elems s \<Longrightarrow> eq b q \<Longrightarrow> \<not> eq a q" "eq a a"
  shows "unique (ins a s)"
proof -
  have "a \<notin># elems s" using assms(4,5) by blast
  then show ?thesis
    using assms ins_elems [OF assms(1,2)] unfolding unique_def by (auto simp: not_in_iff)
qed

lemma search_ins:
  assumes "inv s" "ok s a" "unique s" "\<And>b q. b \<in># elems s \<Longrightarrow> eq b q \<Longrightarrow> \<not> eq a q" "eq a a"
  shows "search (ins a s) q = (if eq a q then Some a else search s q)"
proof -
  note i = ins_inv [OF assms(1,2)] unique_ins [OF assms]
  have "search (ins a s) q = Some b \<longleftrightarrow> (if eq a q then Some a else search s q) = Some b" for b
    using search_iff [OF i, where q = q and a = b] search_iff [OF assms(1,3), where q = q and a = b] ins_elems [OF assms(1,2)] assms(4)
    by auto
  then show ?thesis by (metis option.exhaust)
qed

lemma unique_del:
  assumes "inv s" "unique s" "a \<in># elems s"
  shows "unique (del a s)"
  unfolding unique_def del_elems [OF assms(1,3)]
proof (intro conjI ballI allI impI)
  fix b c q
  assume "b \<in># elems s - {#a#}" "c \<in># elems s - {#a#}" "eq b q" "eq c q"
  then show "b = c" using assms(2) unfolding unique_def by (blast dest: in_diffD)
next
  fix b show "count (elems s - {#a#}) b \<le> 1"
    using assms(2) unfolding unique_def by (metis count_diff diff_le_self le_trans)
qed

lemma search_del:
  assumes "inv s" "unique s" "a \<in># elems s"
  shows "search (del a s) q = (if eq a q then None else search s q)"
proof -
  have "count (elems s) a = 1" using assms(2,3) unfolding unique_def by (metis le_antisym count_greater_eq_one_iff)
  then have m: "b \<in># elems (del a s) \<longleftrightarrow> b \<in># elems s \<and> b \<noteq> a" for b
    by (cases "b = a") (simp_all add: del_elems [OF assms(1,3)] in_diff_count)
  note i = del_inv [OF assms(1,3)] unique_del [OF assms]
  have "search (del a s) q = Some b \<longleftrightarrow> (if eq a q then None else search s q) = Some b" for b
    using search_iff [OF i, where q = q and a = b] search_iff [OF assms(1,2), where q = q and a = b] m assms(2,3) unfolding unique_def by auto
  then show ?thesis by (metis option.exhaust)
qed

end

end
