(* ===== verification/Dll.thy ===== *)
theory Dll
  imports Prelude
begin

text \<open>
  The intrusive doubly linked list of \<^verbatim>\<open>h/utl/dll_utl.h\<close> and \<^verbatim>\<open>dll_utl.c\<close>, on which the
  number list, the rule list, the identifier table, the range FIB, the timer wheel and the TCP
  reassembler are built.

  The first half is the code as it is: a heap of nodes with \<open>prev\<close>, \<open>next\<close> and \<open>pstHead\<close>
  fields (a list head is a node whose \<open>prev\<close> and \<open>next\<close> are the first two fields of
  \<^verbatim>\<open>DLL_HEAD_S\<close>, so heads and nodes share one address space), and each macro or inline function
  as the sequence of its assignments. The second half is what a client sees: operations on the
  list of the nodes. The refinement lemmas say that an operation on the heap does to the
  represented list what its list counterpart does.
\<close>

section \<open>The heap of nodes\<close>

record 'p dll_heap =
  dprev :: "'p \<Rightarrow> 'p"
  dnext :: "'p \<Rightarrow> 'p"
  dhead :: "'p \<Rightarrow> 'p option"
  dcount :: "'p \<Rightarrow> UINT"

definition DLL_INIT :: "'p \<Rightarrow> 'p dll_heap \<Rightarrow> 'p dll_heap" where
  "DLL_INIT hp h =
     h\<lparr>dprev := (dprev h)(hp := hp), dnext := (dnext h)(hp := hp), dcount := (dcount h)(hp := 0)\<rparr>"

definition DLL_COUNT :: "'p dll_heap \<Rightarrow> 'p \<Rightarrow> UINT" where
  "DLL_COUNT h hp = dcount h hp"

definition DLL_FIRST :: "'p dll_heap \<Rightarrow> 'p \<Rightarrow> 'p option" where
  "DLL_FIRST h hp = (if DLL_COUNT h hp = 0 then None else Some (dnext h hp))"

definition DLL_LAST :: "'p dll_heap \<Rightarrow> 'p \<Rightarrow> 'p option" where
  "DLL_LAST h hp = (if DLL_COUNT h hp = 0 then None else Some (dprev h hp))"

definition DLL_NEXT :: "'p dll_heap \<Rightarrow> 'p \<Rightarrow> 'p option \<Rightarrow> 'p option" where
  "DLL_NEXT h hp n =
     (case n of None \<Rightarrow> DLL_FIRST h hp
      | Some p \<Rightarrow> if dnext h p = hp then None else Some (dnext h p))"

definition DLL_PREV :: "'p dll_heap \<Rightarrow> 'p \<Rightarrow> 'p option \<Rightarrow> 'p option" where
  "DLL_PREV h hp n =
     (case n of None \<Rightarrow> None
      | Some p \<Rightarrow> if dprev h p = hp then None else Some (dprev h p))"

definition set_dhead :: "'p \<Rightarrow> 'p option \<Rightarrow> 'p dll_heap \<Rightarrow> 'p dll_heap" where
  [op_defs]: "set_dhead p v h = h\<lparr>dhead := (dhead h)(p := v)\<rparr>"

definition set_dnext :: "'p \<Rightarrow> 'p \<Rightarrow> 'p dll_heap \<Rightarrow> 'p dll_heap" where
  [op_defs]: "set_dnext p v h = h\<lparr>dnext := (dnext h)(p := v)\<rparr>"

definition set_dprev :: "'p \<Rightarrow> 'p \<Rightarrow> 'p dll_heap \<Rightarrow> 'p dll_heap" where
  [op_defs]: "set_dprev p v h = h\<lparr>dprev := (dprev h)(p := v)\<rparr>"

definition set_dcount :: "'p \<Rightarrow> UINT \<Rightarrow> 'p dll_heap \<Rightarrow> 'p dll_heap" where
  [op_defs]: "set_dcount p v h = h\<lparr>dcount := (dcount h)(p := v)\<rparr>"

definition DLL_ADD :: "'p \<Rightarrow> 'p \<Rightarrow> 'p dll_heap \<Rightarrow> 'p dll_heap" where
  "DLL_ADD hp n h0 =
     (let h1 = set_dhead n (Some hp) h0;
          h2 = set_dnext n hp h1;
          h3 = set_dprev n (dprev h2 hp) h2;
          h4 = set_dnext (dprev h3 hp) n h3;
          h5 = set_dprev hp n h4
      in set_dcount hp (dcount h5 hp + 1) h5)"

definition DLL_ADD_TO_HEAD :: "'p \<Rightarrow> 'p \<Rightarrow> 'p dll_heap \<Rightarrow> 'p dll_heap" where
  "DLL_ADD_TO_HEAD hp n h0 =
     (let h1 = set_dhead n (Some hp) h0;
          h2 = set_dnext n (dnext h1 hp) h1;
          h3 = set_dprev n hp h2;
          h4 = set_dprev (dnext h3 hp) n h3;
          h5 = set_dnext hp n h4
      in set_dcount hp (dcount h5 hp + 1) h5)"

definition DLL_INSERT_BEFORE :: "'p \<Rightarrow> 'p \<Rightarrow> 'p option \<Rightarrow> 'p dll_heap \<Rightarrow> 'p dll_heap" where
  "DLL_INSERT_BEFORE hp n pos h0 =
     (case pos of None \<Rightarrow> DLL_ADD hp n h0
      | Some p \<Rightarrow>
        (let h1 = set_dhead n (Some hp) h0;
             h2 = set_dnext n p h1;
             h3 = set_dprev n (dprev h2 p) h2;
             h4 = set_dnext (dprev h3 p) n h3;
             h5 = set_dprev p n h4
         in set_dcount hp (dcount h5 hp + 1) h5))"

definition DLL_DEL :: "'p \<Rightarrow> 'p \<Rightarrow> 'p dll_heap \<Rightarrow> 'p dll_heap" where
  "DLL_DEL hp n h0 =
     (let h1 = set_dnext (dprev h0 n) (dnext h0 n) h0;
          h2 = set_dprev (dnext h1 n) (dprev h1 n) h1;
          h3 = set_dhead n None h2
      in set_dcount hp (dcount h3 hp - 1) h3)"

definition DLL_Get :: "'p \<Rightarrow> 'p dll_heap \<Rightarrow> 'p option \<times> 'p dll_heap" where
  "DLL_Get hp h =
     (case DLL_FIRST h hp of None \<Rightarrow> (None, h) | Some n \<Rightarrow> (Some n, DLL_DEL hp n h))"

definition DLL_DelIfInList :: "'p \<Rightarrow> 'p dll_heap \<Rightarrow> 'p dll_heap" where
  "DLL_DelIfInList n h = (case dhead h n of None \<Rightarrow> h | Some hp \<Rightarrow> DLL_DEL hp n h)"

text \<open>
  \<^verbatim>\<open>DLL_SCAN\<close> walks from \<^verbatim>\<open>DLL_FIRST\<close> along \<^verbatim>\<open>DLL_NEXT\<close>. The loops of \<^verbatim>\<open>dll_utl.c\<close> leave it at
  the first node a test accepts. The fuel is the head's count, which bounds the walk on every
  well-formed ring (\<open>dll_scan_ring\<close>).
\<close>

fun dll_scan_find :: "nat \<Rightarrow> 'p dll_heap \<Rightarrow> 'p \<Rightarrow> 'p option \<Rightarrow> ('p \<Rightarrow> bool) \<Rightarrow> 'p option" where
  "dll_scan_find 0 h hp cur P = None"
| "dll_scan_find (Suc k) h hp cur P =
     (case cur of None \<Rightarrow> None
      | Some p \<Rightarrow> if P p then Some p else dll_scan_find k h hp (DLL_NEXT h hp (Some p)) P)"

definition dll_search :: "'p dll_heap \<Rightarrow> 'p \<Rightarrow> ('p \<Rightarrow> bool) \<Rightarrow> 'p option" where
  "dll_search h hp P = dll_scan_find (unat (DLL_COUNT h hp)) h hp (DLL_FIRST h hp) P"

definition DLL_Find :: "('p \<Rightarrow> 'p \<Rightarrow> int) \<Rightarrow> 'p \<Rightarrow> 'p \<Rightarrow> 'p dll_heap \<Rightarrow> 'p option" where
  "DLL_Find cmp hp to_find h = dll_search h hp (\<lambda>n. cmp n to_find = 0)"

definition DLL_SortAdd :: "('p \<Rightarrow> 'p \<Rightarrow> int) \<Rightarrow> 'p \<Rightarrow> 'p \<Rightarrow> 'p dll_heap \<Rightarrow> 'p dll_heap" where
  "DLL_SortAdd cmp hp n h =
     (case dll_search h hp (\<lambda>q. cmp n q \<le> 0) of
        Some q \<Rightarrow> DLL_INSERT_BEFORE hp n (Some q) h
      | None \<Rightarrow> DLL_ADD hp n h)"

definition DLL_UniqueSortAdd ::
  "('p \<Rightarrow> 'p \<Rightarrow> int) \<Rightarrow> 'p \<Rightarrow> 'p \<Rightarrow> 'p dll_heap \<Rightarrow> int \<times> 'p dll_heap" where
  "DLL_UniqueSortAdd cmp hp n h =
     (case dll_search h hp (\<lambda>q. cmp n q = 0 \<or> cmp n q < 0) of
        Some q \<Rightarrow> (if cmp n q = 0 then (-1, h) else (0, DLL_INSERT_BEFORE hp n (Some q) h))
      | None \<Rightarrow> (0, DLL_ADD hp n h))"

fun dll_set_heads :: "nat \<Rightarrow> 'p \<Rightarrow> 'p \<Rightarrow> 'p option \<Rightarrow> 'p dll_heap \<Rightarrow> 'p dll_heap" where
  "dll_set_heads 0 dst src cur h = h"
| "dll_set_heads (Suc k) dst src cur h =
     (case cur of None \<Rightarrow> h
      | Some p \<Rightarrow> (let h' = set_dhead p (Some dst) h
                   in dll_set_heads k dst src (DLL_NEXT h' src (Some p)) h'))"

definition DLL_Cat :: "'p \<Rightarrow> 'p \<Rightarrow> 'p dll_heap \<Rightarrow> 'p dll_heap" where
  "DLL_Cat dst src h =
     (if DLL_COUNT h src = 0 then h
      else (let h0 = dll_set_heads (unat (DLL_COUNT h src)) dst src (DLL_FIRST h src) h;
                firstn = the (DLL_FIRST h0 src);
                lastn = the (DLL_LAST h0 src);
                h1 = set_dnext (dprev h0 dst) firstn h0;
                h2 = set_dprev firstn (dprev h1 dst) h1;
                h3 = set_dprev dst lastn h2;
                h4 = set_dnext lastn dst h3;
                h5 = set_dcount dst (dcount h4 dst + DLL_COUNT h4 src) h4
            in DLL_INIT src h5))"

fun dll_sort_loop :: "nat \<Rightarrow> ('p \<Rightarrow> 'p \<Rightarrow> int) \<Rightarrow> 'p \<Rightarrow> 'p \<Rightarrow> 'p dll_heap \<Rightarrow> 'p dll_heap" where
  "dll_sort_loop 0 cmp hp tmp h = h"
| "dll_sort_loop (Suc k) cmp hp tmp h =
     (case DLL_Get tmp h of
        (None, h') \<Rightarrow> h'
      | (Some n1, h') \<Rightarrow>
          dll_sort_loop k cmp hp tmp
            (case dll_search h' hp (\<lambda>n2. cmp n1 n2 < 0) of
               Some n2 \<Rightarrow> DLL_INSERT_BEFORE hp n1 (Some n2) h'
             | None \<Rightarrow> DLL_ADD hp n1 h'))"

text \<open>
  \<^verbatim>\<open>DLL_Sort\<close> moves the nodes to the head \<^verbatim>\<open>stHead\<close> on its stack frame (the address \<open>tmp\<close>) and
  inserts them back one by one; the loop runs once per node and once more to see the empty list.
\<close>

definition DLL_Sort :: "('p \<Rightarrow> 'p \<Rightarrow> int) \<Rightarrow> 'p \<Rightarrow> 'p \<Rightarrow> 'p dll_heap \<Rightarrow> 'p dll_heap" where
  "DLL_Sort cmp hp tmp h =
     (let h1 = DLL_Cat tmp hp (DLL_INIT tmp h)
      in dll_sort_loop (Suc (unat (DLL_COUNT h1 tmp))) cmp hp tmp h1)"

section \<open>The list a head represents\<close>

text \<open>\<open>links\<close>: consecutive addresses point at each other.\<close>

fun links :: "'p dll_heap \<Rightarrow> 'p list \<Rightarrow> bool" where
  "links h (a # b # xs) \<longleftrightarrow> dnext h a = b \<and> dprev h b = a \<and> links h (b # xs)"
| "links h xs \<longleftrightarrow> True"

definition dll_ring :: "'p dll_heap \<Rightarrow> 'p \<Rightarrow> 'p list \<Rightarrow> bool" where
  "dll_ring h hp xs \<longleftrightarrow>
     distinct (hp # xs) \<and> links h (hp # xs @ [hp]) \<and> unat (dcount h hp) = length xs \<and>
     (\<forall>n\<in>set xs. dhead h n = Some hp)"

lemma links_append: "links h (xs @ a # ys) \<longleftrightarrow> links h (xs @ [a]) \<and> links h (a # ys)"
proof (induction xs)
  case Nil
  then show ?case by simp
next
  case (Cons b xs)
  then show ?case by (cases xs) auto
qed

lemma links_cong:
  assumes "\<And>x. x \<in> set (butlast xs) \<Longrightarrow> dnext h' x = dnext h x"
    and "\<And>x. x \<in> set (tl xs) \<Longrightarrow> dprev h' x = dprev h x"
  shows "links h' xs = links h xs"
  using assms by (induction h xs rule: links.induct) auto

text \<open>Where a ring is cut in two, the nodes at the cut are neighbours.\<close>

lemma ring_links_cut:
  assumes "dll_ring h hp (ys @ zs)"
  shows "links h (hp # ys)" "links h (zs @ [hp])"
    "dnext h (last (hp # ys)) = hd (zs @ [hp])" "dprev h (hd (zs @ [hp])) = last (hp # ys)"
proof -
  obtain P a where P: "hp # ys = P @ [a]" by (metis append_butlast_last_id list.discI)
  obtain b S where S: "zs @ [hp] = b # S" by (cases zs) auto
  have "links h ((hp # ys) @ zs @ [hp])" using assms by (simp add: dll_ring_def)
  then have "links h (P @ a # b # S)" by (simp add: P S)
  then have *: "links h (P @ [a])" "links h (a # b # S)" using links_append by fast+
  show "links h (hp # ys)" using *(1) P by simp
  show "links h (zs @ [hp])" using *(2) S by simp
  show "dnext h (last (hp # ys)) = hd (zs @ [hp])" "dprev h (hd (zs @ [hp])) = last (hp # ys)"
    using *(2) by (simp_all only: P S) simp_all
qed

lemma links_join:
  assumes "links h xs" "links h ys" "xs \<noteq> []" "ys \<noteq> []"
    and "dnext h (last xs) = hd ys" "dprev h (hd ys) = last xs"
  shows "links h (xs @ ys)"
proof -
  obtain P a where P: "xs = P @ [a]" using assms(3) by (metis append_butlast_last_id)
  obtain b S where S: "ys = b # S" using assms(4) by (cases ys) auto
  have "links h (P @ [a])" "links h (a # b # S)" using assms P S by simp_all
  then have "links h (P @ a # b # S)" using links_append [of h P a "b # S"] by blast
  then show ?thesis by (simp add: P S)
qed

text \<open>A ring depends on the fields of its own head and nodes only.\<close>

lemma dll_ring_cong:
  assumes "\<And>x. x \<in> insert hp (set xs) \<Longrightarrow> dnext h' x = dnext h x \<and> dprev h' x = dprev h x"
    and "\<And>x. x \<in> set xs \<Longrightarrow> dhead h' x = dhead h x" and "dcount h' hp = dcount h hp"
  shows "dll_ring h' hp xs = dll_ring h hp xs"
proof -
  have "links h' (hp # xs @ [hp]) = links h (hp # xs @ [hp])"
    by (rule links_cong) (use assms(1) in \<open>auto dest: in_set_butlastD\<close>)
  then show ?thesis using assms(2,3) by (simp add: dll_ring_def)
qed

section \<open>Insertion, removal, concatenation\<close>

definition dll_splice :: "'p \<Rightarrow> 'p \<Rightarrow> 'p \<Rightarrow> 'p \<Rightarrow> 'p dll_heap \<Rightarrow> 'p dll_heap" where
  "dll_splice a n b hp h =
     h\<lparr>dnext := (dnext h)(n := b, a := n), dprev := (dprev h)(n := a, b := n),
       dhead := (dhead h)(n := Some hp), dcount := (dcount h)(hp := dcount h hp + 1)\<rparr>"

lemma DLL_ADD_splice: "n \<noteq> hp \<Longrightarrow> DLL_ADD hp n h = dll_splice (dprev h hp) n hp hp h"
  by (simp add: DLL_ADD_def dll_splice_def op_defs Let_def)

lemma DLL_ADD_TO_HEAD_splice:
  "n \<noteq> hp \<Longrightarrow> DLL_ADD_TO_HEAD hp n h = dll_splice hp n (dnext h hp) hp h"
  by (simp add: DLL_ADD_TO_HEAD_def dll_splice_def op_defs Let_def)

lemma DLL_INSERT_BEFORE_splice:
  "n \<noteq> p \<Longrightarrow> DLL_INSERT_BEFORE hp n (Some p) h = dll_splice (dprev h p) n p hp h"
  by (simp add: DLL_INSERT_BEFORE_def dll_splice_def op_defs Let_def)

lemma ring_splice:
  assumes ring: "dll_ring h hp (ys @ zs)" and new: "n \<notin> set (hp # ys @ zs)"
    and room: "length (ys @ zs) < 2 ^ 32 - 1"
  shows "dll_ring (dll_splice (last (hp # ys)) n (hd (zs @ [hp])) hp h) hp (ys @ n # zs)"
    (is "dll_ring ?h hp _")
proof -
  obtain P a where P: "hp # ys = P @ [a]" by (metis append_butlast_last_id list.discI)
  obtain b S where S: "zs @ [hp] = b # S" by (cases zs) auto
  note cut = ring_links_cut [OF ring, unfolded P S, simplified]
  have h: "?h = dll_splice a n b hp h" by (simp only: P S last_snoc list.sel)
  have dist: "distinct (hp # ys @ zs)" and cnt: "unat (dcount h hp) = length (ys @ zs)"
    and heads: "\<forall>x\<in>set (ys @ zs). dhead h x = Some hp"
    using ring by (auto simp: dll_ring_def)
  let ?g = "dll_splice a n b hp h"
  have ys: "ys = tl (P @ [a])" and zs: "zs = butlast (b # S)"
    unfolding P [symmetric] S [symmetric] by simp_all
  have fresh: "distinct (P @ [a])" "distinct (b # S)" "a \<notin> set zs" "b \<notin> set ys"
    "n \<notin> set (P @ [a])" "n \<notin> set (b # S)"
    using dist new P S by (cases ys rule: rev_cases; cases zs; auto)+
  have "links ?g (P @ [a]) = links h (P @ [a])"
    by (rule links_cong) (use fresh new in \<open>auto simp: dll_splice_def ys [symmetric]\<close>)
  moreover have "links ?g (b # S) = links h (b # S)"
    by (rule links_cong) (use fresh new in \<open>auto simp: dll_splice_def zs [symmetric] simp del: butlast.simps\<close>)
  moreover have "links ?g [a, n, b]" using fresh by (auto simp: dll_splice_def)
  ultimately have l: "links ?g (P @ [a])" "links ?g (a # n # b # S)"
    using cut(1,2) by simp_all
  then have "links ?h (P @ a # n # b # S)"
    unfolding h using links_append [of _ P a "n # b # S"] by simp
  then have "links ?h ((hp # ys) @ n # zs @ [hp])" by (simp only: P S append.simps append_assoc)
  moreover have "unat (dcount ?h hp) = length (ys @ n # zs)"
    using cnt room unat_Suc_word [of "dcount h hp"] by (simp add: dll_splice_def)
  ultimately show ?thesis
    using dist new heads by (auto simp: dll_ring_def dll_splice_def)
qed

lemmas splice_folds = DLL_ADD_splice DLL_ADD_TO_HEAD_splice DLL_INSERT_BEFORE_splice

lemma ring_distinct: "dll_ring h hp xs \<Longrightarrow> distinct (hp # xs)"
  by (simp add: dll_ring_def)

lemma ring_dhead: "dll_ring h hp xs \<Longrightarrow> n \<in> set xs \<Longrightarrow> dhead h n = Some hp"
  by (simp add: dll_ring_def)

lemma ring_count: "dll_ring h hp xs \<Longrightarrow> unat (DLL_COUNT h hp) = length xs"
  by (simp add: dll_ring_def DLL_COUNT_def)

lemma ring_INIT: "dll_ring (DLL_INIT hp h) hp []"
  by (simp add: dll_ring_def DLL_INIT_def)

lemma ring_last: "dll_ring h hp xs \<Longrightarrow> dprev h hp = last (hp # xs)"
  using ring_links_cut(4) [of h hp xs "[]"] by simp

lemma ring_first: "dll_ring h hp xs \<Longrightarrow> dnext h hp = hd (xs @ [hp])"
  using ring_links_cut(3) [of h hp "[]" xs] by simp

lemma ring_next: "dll_ring h hp (ys @ n # zs) \<Longrightarrow> dnext h n = hd (zs @ [hp])"
  using ring_links_cut(3) [of h hp "ys @ [n]" zs] by simp

lemma ring_prev: "dll_ring h hp (ys @ n # zs) \<Longrightarrow> dprev h n = last (hp # ys)"
  using ring_links_cut(4) [of h hp ys "n # zs"] by simp

lemma ring_ADD:
  assumes "dll_ring h hp xs" "n \<notin> set (hp # xs)" "length xs < 2 ^ 32 - 1"
  shows "dll_ring (DLL_ADD hp n h) hp (xs @ [n])"
  using ring_splice [of h hp xs "[]" n] assms by (simp add: DLL_ADD_splice ring_last)

lemma ring_ADD_TO_HEAD:
  assumes "dll_ring h hp xs" "n \<notin> set (hp # xs)" "length xs < 2 ^ 32 - 1"
  shows "dll_ring (DLL_ADD_TO_HEAD hp n h) hp (n # xs)"
  using ring_splice [of h hp "[]" xs n] assms by (simp add: DLL_ADD_TO_HEAD_splice ring_first)

lemma ring_INSERT_BEFORE:
  assumes "dll_ring h hp (ys @ p # zs)" "n \<notin> set (hp # ys @ p # zs)"
    "length (ys @ p # zs) < 2 ^ 32 - 1"
  shows "dll_ring (DLL_INSERT_BEFORE hp n (Some p) h) hp (ys @ n # p # zs)"
proof -
  have "n \<noteq> p" using assms(2) by auto
  then show ?thesis
    using ring_splice [of h hp ys "p # zs" n] assms
    by (simp add: DLL_INSERT_BEFORE_splice ring_prev [OF assms(1)])
qed

lemma ring_DEL:
  assumes ring: "dll_ring h hp (ys @ n # zs)"
  shows "dll_ring (DLL_DEL hp n h) hp (ys @ zs)" (is "dll_ring ?h hp _")
proof -
  obtain P a where P: "hp # ys = P @ [a]" by (metis append_butlast_last_id list.discI)
  obtain b S where S: "zs @ [hp] = b # S" by (cases zs) auto
  have dist: "distinct (hp # ys @ n # zs)" and cnt: "unat (dcount h hp) = length (ys @ n # zs)"
    and heads: "\<forall>x\<in>set (ys @ n # zs). dhead h x = Some hp"
    using ring by (auto simp: dll_ring_def)
  have a: "dprev h n = a" and b: "dnext h n = b"
    using ring_prev [OF ring] ring_next [OF ring] by (simp_all only: P S last_snoc list.sel)
  have l: "links h (P @ [a])" "links h (b # S)"
    using ring_links_cut(1) [OF ring] ring_links_cut(2) [of h hp "ys @ [n]" zs] ring
    by (simp_all add: P [symmetric] S [symmetric])
  have fresh: "distinct (P @ [a])" "distinct (b # S)" "a \<notin> set zs" "b \<notin> set ys" "n \<noteq> a"
    using dist P S by (cases ys rule: rev_cases; cases zs; auto)+
  have ys: "ys = tl (P @ [a])" and zs: "zs = butlast (b # S)"
    unfolding P [symmetric] S [symmetric] by simp_all
  note d = DLL_DEL_def op_defs Let_def a b
  have "links ?h (P @ [a]) = links h (P @ [a])"
    by (rule links_cong) (use fresh in \<open>auto simp: d ys [symmetric]\<close>)
  moreover have "links ?h (b # S) = links h (b # S)"
    by (rule links_cong) (use fresh in \<open>auto simp: d zs [symmetric] simp del: butlast.simps\<close>)
  moreover have "links ?h [a, b]" using fresh by (simp add: d)
  ultimately have "links ?h (P @ a # b # S)" using l links_append [of ?h P a "b # S"] by simp
  then have "links ?h ((hp # ys) @ zs @ [hp])" by (simp only: P S append.simps append_assoc)
  moreover have "dcount h hp \<noteq> 0" using cnt by auto
  then have "unat (dcount ?h hp) = length (ys @ zs)"
    using cnt unat_dec_word [of "dcount h hp"] by (simp add: d)
  ultimately show ?thesis using dist heads by (auto simp: dll_ring_def d)
qed

lemma DLL_FIRST_ring: "dll_ring h hp xs \<Longrightarrow> DLL_FIRST h hp = (case xs of [] \<Rightarrow> None | x # _ \<Rightarrow> Some x)"
  using ring_first [of h hp xs]
  by (cases xs) (auto simp: DLL_FIRST_def DLL_COUNT_def dll_ring_def)

lemma DLL_LAST_ring: "dll_ring h hp xs \<Longrightarrow> DLL_LAST h hp = (if xs = [] then None else Some (last xs))"
  using ring_last [of h hp xs] by (auto simp: DLL_LAST_def DLL_COUNT_def dll_ring_def)

lemma DLL_NEXT_ring:
  assumes "dll_ring h hp (ys @ n # zs)"
  shows "DLL_NEXT h hp (Some n) = (case zs of [] \<Rightarrow> None | z # _ \<Rightarrow> Some z)"
  using ring_next [OF assms] ring_distinct [OF assms] by (cases zs) (auto simp: DLL_NEXT_def)

lemma DLL_PREV_ring:
  assumes "dll_ring h hp (ys @ n # zs)"
  shows "DLL_PREV h hp (Some n) = (if ys = [] then None else Some (last ys))"
  using ring_prev [OF assms] ring_distinct [OF assms]
  by (cases ys rule: rev_cases) (auto simp: DLL_PREV_def)

lemma DLL_Get_ring:
  assumes "dll_ring h hp xs"
  shows "fst (DLL_Get hp h) = (case xs of [] \<Rightarrow> None | x # _ \<Rightarrow> Some x)"
    and "dll_ring (snd (DLL_Get hp h)) hp (tl xs)"
  using assms ring_DEL [of h hp "[]"] DLL_FIRST_ring [OF assms]
  by (cases xs; simp add: DLL_Get_def)+

section \<open>Scanning\<close>

lemma dll_scan_ring:
  assumes "dll_ring h hp (ys @ zs)" "length zs \<le> k"
  shows "dll_scan_find k h hp (case zs of [] \<Rightarrow> None | z # _ \<Rightarrow> Some z) P = find P zs"
  using assms
proof (induction k arbitrary: ys zs)
  case 0
  then show ?case by simp
next
  case (Suc k)
  show ?case
  proof (cases zs)
    case (Cons z zs')
    then show ?thesis
      using Suc.IH [of "ys @ [z]" zs'] Suc.prems DLL_NEXT_ring [of h hp ys z zs'] by simp
  qed simp
qed

lemma dll_search_ring: "dll_ring h hp xs \<Longrightarrow> dll_search h hp P = find P xs"
  using dll_scan_ring [of h hp "[]" xs "length xs" P]
  by (simp add: dll_search_def ring_count DLL_FIRST_ring)

section \<open>Sorted insertion and sorting\<close>

definition dll_ins :: "('a \<Rightarrow> bool) \<Rightarrow> 'a \<Rightarrow> 'a list \<Rightarrow> 'a list" where
  "dll_ins P n xs = takeWhile (\<lambda>q. \<not> P q) xs @ n # dropWhile (\<lambda>q. \<not> P q) xs"

lemma dll_ins_simps [simp]:
  "dll_ins P n [] = [n]"
  "dll_ins P n (x # xs) = (if P x then n # x # xs else x # dll_ins P n xs)"
  by (simp_all add: dll_ins_def)

lemma mset_dll_ins [simp]: "mset (dll_ins P n xs) = add_mset n (mset xs)"
  by (induction xs) auto

lemma set_dll_ins [simp]: "set (dll_ins P n xs) = insert n (set xs)"
  by (induction xs) auto

lemma length_dll_ins [simp]: "length (dll_ins P n xs) = Suc (length xs)"
  by (induction xs) auto

lemma dll_ins_none: "\<forall>x\<in>set xs. \<not> P x \<Longrightarrow> dll_ins P n xs = xs @ [n]"
  by (induction xs) auto

lemma find_mem: "find P xs = Some q \<Longrightarrow> q \<in> set xs"
  by (auto simp: find_Some_iff)

lemma find_split:
  "find P xs = Some q \<Longrightarrow>
     dropWhile (\<lambda>q. \<not> P q) xs = q # tl (dropWhile (\<lambda>q. \<not> P q) xs) \<and> P q"
  by (induction xs) (auto split: if_splits)

lemma ring_ins:
  assumes "dll_ring h hp xs" "n \<notin> set (hp # xs)" "length xs < 2 ^ 32 - 1"
  shows "dll_ring (case find P xs of Some q \<Rightarrow> DLL_INSERT_BEFORE hp n (Some q) h
                   | None \<Rightarrow> DLL_ADD hp n h) hp (dll_ins P n xs)"
proof (cases "find P xs")
  case None
  then have "\<forall>x\<in>set xs. \<not> P x" by (simp add: find_None_iff)
  then show ?thesis using ring_ADD [OF assms] None by (simp add: dll_ins_none)
next
  case (Some q)
  define ys zs where "ys = takeWhile (\<lambda>q. \<not> P q) xs" and "zs = tl (dropWhile (\<lambda>q. \<not> P q) xs)"
  have drop: "dropWhile (\<lambda>q. \<not> P q) xs = q # zs"
    using find_split [OF Some] by (simp add: zs_def)
  then have "xs = ys @ q # zs" using takeWhile_dropWhile_id [of "\<lambda>q. \<not> P q" xs] by (simp add: ys_def)
  then show ?thesis
    using ring_INSERT_BEFORE [of h hp ys q zs n] assms Some by (simp add: dll_ins_def drop ys_def)
qed

definition dll_sort_list :: "('a \<Rightarrow> 'a \<Rightarrow> int) \<Rightarrow> 'a list \<Rightarrow> 'a list" where
  "dll_sort_list cmp xs = fold (\<lambda>n. dll_ins (\<lambda>q. cmp n q < 0) n) xs []"

lemma ring_SortAdd:
  assumes "dll_ring h hp xs" "n \<notin> set (hp # xs)" "length xs < 2 ^ 32 - 1"
  shows "dll_ring (DLL_SortAdd cmp hp n h) hp (dll_ins (\<lambda>q. cmp n q \<le> 0) n xs)"
  using ring_ins [OF assms] by (simp add: DLL_SortAdd_def dll_search_ring [OF assms(1)])

lemma DLL_Find_ring:
  "dll_ring h hp xs \<Longrightarrow> DLL_Find cmp hp k h = find (\<lambda>n. cmp n k = 0) xs"
  by (simp add: DLL_Find_def dll_search_ring)

definition dll_unique_list :: "('a \<Rightarrow> 'a \<Rightarrow> int) \<Rightarrow> 'a \<Rightarrow> 'a list \<Rightarrow> int \<times> 'a list" where
  "dll_unique_list cmp n xs =
     (case find (\<lambda>q. cmp n q \<le> 0) xs of
        Some q \<Rightarrow> if cmp n q = 0 then (-1, xs) else (0, dll_ins (\<lambda>q. cmp n q \<le> 0) n xs)
      | None \<Rightarrow> (0, xs @ [n]))"

lemma ring_UniqueSortAdd:
  assumes "dll_ring h hp xs" "n \<notin> set (hp # xs)" "length xs < 2 ^ 32 - 1"
  shows "fst (DLL_UniqueSortAdd cmp hp n h) = fst (dll_unique_list cmp n xs)"
    and "dll_ring (snd (DLL_UniqueSortAdd cmp hp n h)) hp (snd (dll_unique_list cmp n xs))"
proof -
  have *: "dll_search h hp (\<lambda>q. cmp n q = 0 \<or> cmp n q < 0) = find (\<lambda>q. cmp n q \<le> 0) xs"
    unfolding dll_search_ring [OF assms(1)]
    by (rule arg_cong [where f = "\<lambda>P. find P xs"]) (auto simp: fun_eq_iff)
  show "fst (DLL_UniqueSortAdd cmp hp n h) = fst (dll_unique_list cmp n xs)"
    by (simp add: DLL_UniqueSortAdd_def dll_unique_list_def * split: option.splits)
  show "dll_ring (snd (DLL_UniqueSortAdd cmp hp n h)) hp (snd (dll_unique_list cmp n xs))"
    using ring_ins [OF assms, of "\<lambda>q. cmp n q \<le> 0"] ring_ADD [OF assms] assms(1)
    by (auto simp: DLL_UniqueSortAdd_def dll_unique_list_def * split: option.splits)
qed

lemma dll_set_heads_fields [simp]:
  "dnext (dll_set_heads k dst src cur h) = dnext h"
  "dprev (dll_set_heads k dst src cur h) = dprev h"
  "dcount (dll_set_heads k dst src cur h) = dcount h"
  by (induction k dst src cur h rule: dll_set_heads.induct)
    (auto simp: Let_def set_dhead_def split: option.splits)

lemma dll_set_heads_ring:
  assumes "dll_ring g src (ys @ zs)" "dnext h = dnext g" "dprev h = dprev g" "dcount h = dcount g"
    and "length zs \<le> k"
  shows "dhead (dll_set_heads k dst src (case zs of [] \<Rightarrow> None | z # _ \<Rightarrow> Some z) h) =
    (\<lambda>x. if x \<in> set zs then Some dst else dhead h x)"
  using assms
proof (induction k arbitrary: ys zs h)
  case 0
  then show ?case by auto
next
  case (Suc k)
  show ?case
  proof (cases zs)
    case (Cons z zs')
    have n: "DLL_NEXT (set_dhead z (Some dst) h) src (Some z) =
        (case zs' of [] \<Rightarrow> None | z # _ \<Rightarrow> Some z)"
      using DLL_NEXT_ring [of g src ys z zs'] Suc.prems Cons
      by (auto simp: DLL_NEXT_def set_dhead_def split: list.splits if_splits)
    show ?thesis
      using Suc.IH [of "ys @ [z]" zs' "set_dhead z (Some dst) h"] Suc.prems Cons
      by (simp add: n Let_def) (auto simp: set_dhead_def)
  qed auto
qed

lemma ring_Cat:
  assumes D: "dll_ring h dst xs" and S: "dll_ring h src ys"
    and disj: "set (dst # xs) \<inter> set (src # ys) = {}" and room: "length xs + length ys < 2 ^ 32"
  shows "dll_ring (DLL_Cat dst src h) dst (xs @ ys)" "dll_ring (DLL_Cat dst src h) src []"
proof -
  have "dll_ring (DLL_Cat dst src h) dst (xs @ ys) \<and> dll_ring (DLL_Cat dst src h) src []"
  proof (cases "ys = []")
    case True
    then have "DLL_COUNT h src = 0" using ring_count [OF S] by simp
    then show ?thesis using D S True by (simp add: DLL_Cat_def)
  next
    case False
    then obtain b T where b: "ys = b # T" by (cases ys) auto
    obtain U c where c: "ys = U @ [c]" using False by (metis append_butlast_last_id)
    obtain P a where P: "dst # xs = P @ [a]" by (metis append_butlast_last_id list.discI)
    let ?g = "dll_set_heads (unat (DLL_COUNT h src)) dst src (DLL_FIRST h src) h"
    define k where "k = DLL_Cat dst src h"
    have cnt: "DLL_COUNT h src \<noteq> 0" using ring_count [OF S] False by auto
    have heads: "dhead ?g = (\<lambda>x. if x \<in> set ys then Some dst else dhead h x)"
      unfolding ring_count [OF S] DLL_FIRST_ring [OF S]
      by (rule dll_set_heads_ring [of h src "[]" ys h]) (use S in simp_all)
    have pd: "dprev h dst = a" using ring_last [OF D] by (simp only: P last_snoc)
    have first: "dnext h src = b" using ring_first [OF S] b by simp
    have lastn: "dprev h src = c" using ring_last [OF S] c by simp
    have dD: "distinct (P @ [a])" "distinct (dst # xs)"
      using ring_distinct [OF D] by (simp_all only: P)
    have dS: "distinct (src # ys)" using ring_distinct [OF S] .
    have sets: "a \<in> set (dst # xs)" "set P \<subseteq> set (dst # xs)" "xs = tl (P @ [a])"
      using arg_cong [OF P, of set] arg_cong [OF P, of tl] by auto
    have bc: "b \<in> set ys" "c \<in> set ys" using b by simp (simp add: c)
    have k: "k = h\<lparr>dnext := (dnext h)(a := b, c := dst, src := src),
        dprev := (dprev h)(b := a, dst := c, src := src),
        dhead := (\<lambda>x. if x \<in> set ys then Some dst else dhead h x),
        dcount := (dcount h)(dst := dcount h dst + dcount h src, src := 0)\<rparr>"
      using cnt heads disj first lastn pd b c
      by (simp add: k_def DLL_Cat_def Let_def op_defs DLL_FIRST_def DLL_LAST_def DLL_COUNT_def
          DLL_INIT_def)
    have ne: "x \<notin> {a, c, src}" if "x \<in> set P" for x
      using that disj dD(1) sets(2) bc by auto
    have nx: "x \<notin> {b, dst, src}" if "x \<in> set xs" for x
      using that disj dD(2) bc by auto
    have ny: "x \<notin> {a, src, dst}" if "x \<in> set ys" for x
      using that disj dS sets(1) by auto
    have nU: "x \<noteq> c" if "x \<in> set (butlast ys)" for x using that dS c by auto
    have nT: "x \<noteq> b" if "x \<in> set (tl ys)" for x using that dS b by auto
    have "links k (P @ [a]) = links h (P @ [a])"
      by (rule links_cong) (use ne nx in \<open>simp_all add: k sets(3) [symmetric]\<close>)
    moreover have "links k ys = links h ys"
      by (rule links_cong)
        (use ny nU nT in_set_butlastD [of _ ys] list.set_sel(2) [OF False] in \<open>simp_all add: k\<close>)
    moreover have "links h (P @ [a])" "links h ys"
      using ring_links_cut(1) [of h dst xs "[]"] D
        ring_links_cut(1) [of h src ys "[]"] S b
      by (simp_all add: P)
    ultimately have l: "links k (P @ [a])" "links k ys" by simp_all
    have f: "dnext k a = b" "dprev k b = a" "dnext k c = dst" "dprev k dst = c"
      using ny [OF bc(1)] ny [OF bc(2)] by (simp_all add: k) (use disj sets(1) in auto)
    have lh: "last ys = c" by (simp add: c)
    have hh: "hd ys = b" "hd (ys @ [dst]) = b" by (simp_all add: b)
    have "links k (ys @ [dst])" by (rule links_join) (use l f lh False in simp_all)
    then have "links k ((P @ [a]) @ ys @ [dst])"
      by (intro links_join [of k "P @ [a]"]) (use l f hh False in simp_all)
    then have "links k (dst # (xs @ ys) @ [dst])" by (simp only: P [symmetric] append.simps append_assoc)
    moreover have "unat (dcount h dst + dcount h src) = length (xs @ ys)"
      using ring_count [OF D] ring_count [OF S] room by (simp add: DLL_COUNT_def unat_word_ariths)
    moreover have "dcount k dst = dcount h dst + dcount h src" "dcount k src = 0"
      "dnext k src = src" "dprev k src = src" "\<forall>n\<in>set (xs @ ys). dhead k n = Some dst"
      using disj ring_dhead [OF D] by (auto simp: k)
    moreover have "distinct (dst # xs @ ys)" using dD(2) dS disj by auto
    ultimately show ?thesis unfolding k_def [symmetric] by (simp add: dll_ring_def)
  qed
  then show "dll_ring (DLL_Cat dst src h) dst (xs @ ys)" "dll_ring (DLL_Cat dst src h) src []" by auto
qed

text \<open>Operations on one ring leave a disjoint ring alone.\<close>

lemma frame_splice:
  "dll_ring h hp' xs' \<Longrightarrow> {a, n, b, hp} \<inter> set (hp' # xs') = {} \<Longrightarrow>
     dll_ring (dll_splice a n b hp h) hp' xs'"
  by (subst dll_ring_cong [of hp' xs' _ h]) (auto simp: dll_splice_def)

lemma ring_ends:
  assumes "dll_ring h hp (ys @ zs)"
  shows "last (hp # ys) \<in> set (hp # ys @ zs)" "hd (zs @ [hp]) \<in> set (hp # ys @ zs)"
  by (cases ys rule: rev_cases; simp) (cases zs; simp)

lemma frame_DEL:
  assumes "dll_ring h hp xs" "n \<in> set xs" "dll_ring h hp' xs'"
    and "set (hp # xs) \<inter> set (hp' # xs') = {}"
  shows "dll_ring (DLL_DEL hp n h) hp' xs'"
proof -
  obtain ys zs where xs: "xs = ys @ n # zs" using assms(2) by (auto simp: in_set_conv_decomp)
  have "dprev h n \<in> set (hp # xs)" "dnext h n \<in> set (hp # xs)"
    using ring_prev [of h hp ys n zs] ring_next [of h hp ys n zs] assms(1)
      ring_ends [of h hp ys "n # zs"] ring_ends [of h hp "ys @ [n]" zs] by (auto simp: xs)
  then show ?thesis
    using assms by (subst dll_ring_cong [of hp' xs' _ h]) (auto simp: DLL_DEL_def op_defs Let_def)
qed

lemma frame_ins:
  assumes ring: "dll_ring h hp xs" and other: "dll_ring h hp' xs'"
    and disj: "set (n # hp # xs) \<inter> set (hp' # xs') = {}" and new: "n \<notin> set (hp # xs)"
  shows "dll_ring (case find P xs of Some q \<Rightarrow> DLL_INSERT_BEFORE hp n (Some q) h
                   | None \<Rightarrow> DLL_ADD hp n h) hp' xs'"
proof (cases "find P xs")
  case None
  have "dprev h hp \<in> set (hp # xs)" using ring_last [OF ring] by simp
  then show ?thesis
    using frame_splice [OF other, of "dprev h hp" n hp hp] disj new None
    by (auto simp: DLL_ADD_splice)
next
  case (Some q)
  then have q: "q \<in> set xs" by (auto simp: find_Some_iff)
  then obtain ys zs where xs: "xs = ys @ q # zs" by (auto simp: in_set_conv_decomp)
  have "dprev h q \<in> set (hp # xs)"
    using ring_prev [of h hp ys q zs] ring ring_ends(1) [of h hp ys "q # zs"] by (auto simp: xs)
  then show ?thesis
    using frame_splice [OF other, of "dprev h q" n q hp] disj new Some q
    by (cases "n = q") (auto simp: DLL_INSERT_BEFORE_splice disjoint_iff)
qed

lemma ring_sort_loop:
  assumes "dll_ring h hp xs" "dll_ring h tmp ys" "set (hp # xs) \<inter> set (tmp # ys) = {}"
    and "length xs + length ys < 2 ^ 32" "length ys < k"
  shows "dll_ring (dll_sort_loop k cmp hp tmp h) hp
    (fold (\<lambda>n. dll_ins (\<lambda>q. cmp n q < 0) n) ys xs)"
  using assms
proof (induction k arbitrary: h xs ys)
  case 0
  then show ?case by simp
next
  case (Suc k)
  show ?case
  proof (cases ys)
    case Nil
    then show ?thesis using Suc.prems DLL_FIRST_ring [of h tmp ys] by (simp add: DLL_Get_def)
  next
    case (Cons y ys')
    let ?h = "DLL_DEL tmp y h"
    let ?k = "case find (\<lambda>q. cmp y q < 0) xs of Some q \<Rightarrow> DLL_INSERT_BEFORE hp y (Some q) ?h
                   | None \<Rightarrow> DLL_ADD hp y ?h"
    have get: "DLL_Get tmp h = (Some y, ?h)"
      using DLL_FIRST_ring [OF Suc.prems(2)] Cons by (simp add: DLL_Get_def)
    have 1: "dll_ring ?h hp xs"
      using frame_DEL [OF Suc.prems(2) _ Suc.prems(1), of y] Suc.prems(3) Cons by auto
    have 2: "dll_ring ?h tmp ys'" using ring_DEL [of h tmp "[]" y ys'] Suc.prems(2) Cons by simp
    have d: "y \<notin> set (hp # xs)" "set (y # hp # xs) \<inter> set (tmp # ys') = {}"
      using Suc.prems(3) Cons ring_distinct [OF Suc.prems(2)] by auto
    have "dll_ring ?k hp (dll_ins (\<lambda>q. cmp y q < 0) y xs)"
      by (rule ring_ins [OF 1 d(1)]) (use Suc.prems(4) Cons in simp)
    moreover have "dll_ring ?k tmp ys'" by (rule frame_ins [OF 1 2 d(2,1)])
    ultimately have "dll_ring (dll_sort_loop k cmp hp tmp ?k) hp
        (fold (\<lambda>n. dll_ins (\<lambda>q. cmp n q < 0) n) ys' (dll_ins (\<lambda>q. cmp y q < 0) y xs))"
      by (rule Suc.IH) (use Suc.prems d Cons in auto)
    then show ?thesis by (simp add: get Cons dll_search_ring [OF 1])
  qed
qed

section \<open>What sorted insertion and sorting do to the list\<close>

definition cmp_order :: "('a \<Rightarrow> 'a \<Rightarrow> int) \<Rightarrow> bool" where
  "cmp_order cmp \<longleftrightarrow>
     (\<forall>a b. (cmp a b < 0) = (cmp b a > 0)) \<and> (\<forall>a b c. cmp a b \<le> 0 \<longrightarrow> cmp b c \<le> 0 \<longrightarrow> cmp a c \<le> 0)"

abbreviation sorted_cmp :: "('a \<Rightarrow> 'a \<Rightarrow> int) \<Rightarrow> 'a list \<Rightarrow> bool" where
  "sorted_cmp cmp \<equiv> sorted_wrt (\<lambda>a b. cmp a b \<le> 0)"

lemma cmp_flip: "cmp_order cmp \<Longrightarrow> \<not> cmp a b \<le> 0 \<Longrightarrow> cmp b a \<le> 0"
  unfolding cmp_order_def by (metis linorder_not_le order_le_less)

lemma cmp_trans: "cmp_order cmp \<Longrightarrow> cmp a b \<le> 0 \<Longrightarrow> cmp b c \<le> 0 \<Longrightarrow> cmp a c \<le> 0"
  unfolding cmp_order_def by blast

lemma cmp_refl: "cmp_order cmp \<Longrightarrow> cmp a a \<le> 0"
  unfolding cmp_order_def by (metis linorder_not_le order_less_imp_le)

lemma cmp_order_diff: "cmp_order (\<lambda>a b. f a - f b)"
  by (auto simp: cmp_order_def)

text \<open>Any test that stops between the smaller and the greater elements keeps the list sorted.\<close>

lemma sorted_dll_ins:
  assumes "cmp_order cmp" "sorted_cmp cmp xs"
    and "\<And>q. P q \<Longrightarrow> cmp n q \<le> 0" "\<And>q. \<not> P q \<Longrightarrow> cmp q n \<le> 0"
  shows "sorted_cmp cmp (dll_ins P n xs)"
  using assms(2)
proof (induction xs)
  case (Cons x xs)
  have "cmp n y \<le> 0" if "P x" "y \<in> set xs" for y
    using cmp_trans [OF assms(1) assms(3) [OF that(1)], of y] Cons.prems that(2) by simp
  then show ?case using assms(3,4) Cons by auto
qed simp

lemma mset_dll_sort_list: "mset (dll_sort_list cmp xs) = mset xs"
proof -
  have "mset (fold (\<lambda>n. dll_ins (\<lambda>q. cmp n q < 0) n) xs ys) = mset xs + mset ys" for ys
    by (induction xs arbitrary: ys) auto
  then show ?thesis by (simp add: dll_sort_list_def)
qed

lemma sorted_dll_ins_less:
  "cmp_order cmp \<Longrightarrow> sorted_cmp cmp xs \<Longrightarrow> sorted_cmp cmp (dll_ins (\<lambda>q. cmp n q < 0) n xs)"
  by (rule sorted_dll_ins) (simp_all add: cmp_order_def, metis order_less_imp_le)

lemma filter_dll_ins:
  assumes "cmp_order cmp" "sorted_cmp cmp xs"
  shows "filter (\<lambda>x. cmp x a = 0) (dll_ins (\<lambda>q. cmp n q < 0) n xs) =
    filter (\<lambda>x. cmp x a = 0) (xs @ [n])"
  using assms(2)
proof (induction xs)
  case (Cons x xs)
  show ?case
  proof (cases "cmp n x < 0 \<and> cmp n a = 0")
    case True
    have "cmp y a \<noteq> 0" if "y \<in> set (x # xs)" for y
    proof
      assume "cmp y a = 0"
      moreover have "cmp x y \<le> 0" using that Cons.prems cmp_refl [OF assms(1)] by auto
      moreover have "cmp a n \<le> 0" using True assms(1) unfolding cmp_order_def by (metis linorder_not_le order_refl)
      ultimately have "cmp x n \<le> 0" using cmp_trans [OF assms(1)] by (metis order_refl)
      then show False using True assms(1) unfolding cmp_order_def by (metis linorder_not_le)
    qed
    then show ?thesis using True by (auto simp: filter_empty_conv)
  next
    case False
    then show ?thesis using Cons by auto
  qed
qed simp

lemma dll_sort_list_invariant:
  assumes "cmp_order cmp"
  shows "sorted_cmp cmp (dll_sort_list cmp xs)"
    and "filter (\<lambda>x. cmp x a = 0) (dll_sort_list cmp xs) = filter (\<lambda>x. cmp x a = 0) xs"
proof -
  have "sorted_cmp cmp (fold (\<lambda>n. dll_ins (\<lambda>q. cmp n q < 0) n) xs ys) \<and>
      filter (\<lambda>x. cmp x a = 0) (fold (\<lambda>n. dll_ins (\<lambda>q. cmp n q < 0) n) xs ys) =
        filter (\<lambda>x. cmp x a = 0) (ys @ xs)"
    if "sorted_cmp cmp ys" for ys
    using that
  proof (induction xs arbitrary: ys)
    case (Cons x xs)
    have "sorted_cmp cmp (dll_ins (\<lambda>q. cmp x q < 0) x ys)"
      using assms Cons.prems by (rule sorted_dll_ins_less)
    then show ?case
      using Cons.IH filter_dll_ins [OF assms Cons.prems, of a x] by simp
  qed simp
  then show "sorted_cmp cmp (dll_sort_list cmp xs)"
    "filter (\<lambda>x. cmp x a = 0) (dll_sort_list cmp xs) = filter (\<lambda>x. cmp x a = 0) xs"
    by (simp_all add: dll_sort_list_def)
qed

lemma ring_Sort:
  assumes ring: "dll_ring h hp xs" and tmp: "tmp \<notin> set (hp # xs)" and room: "length xs < 2 ^ 32 - 1"
  shows "dll_ring (DLL_Sort cmp hp tmp h) hp (dll_sort_list cmp xs)"
proof -
  let ?i = "DLL_INIT tmp h"
  have 1: "dll_ring ?i hp xs"
    using ring tmp by (subst dll_ring_cong [of hp xs _ h]) (auto simp: DLL_INIT_def)
  have "set (tmp # []) \<inter> set (hp # xs) = {}" using tmp by auto
  from ring_Cat [OF ring_INIT 1 this] room
  have 2: "dll_ring (DLL_Cat tmp hp ?i) tmp xs" "dll_ring (DLL_Cat tmp hp ?i) hp []" by simp_all
  show ?thesis
    unfolding DLL_Sort_def dll_sort_list_def Let_def ring_count [OF 2(1)]
    by (rule ring_sort_loop [OF 2(2,1)]) (use tmp room ring_distinct [OF ring] in auto)
qed

lemma ring_build:
  "distinct (hp # xs) \<Longrightarrow> length xs < 2 ^ 32 \<Longrightarrow>
     dll_ring (fold (DLL_ADD hp) xs (DLL_INIT hp h)) hp xs"
proof (induction xs rule: rev_induct)
  case Nil
  then show ?case by (simp add: ring_INIT)
next
  case (snoc x xs)
  then show ?case using ring_ADD [of "fold (DLL_ADD hp) xs (DLL_INIT hp h)" hp xs x] by force
qed

text \<open>
  A client's nodes carry data that the list code never looks at; what an operation does to the
  nodes it does to their contents.
\<close>

lemma map_dll_ins: "map f (dll_ins (\<lambda>q. P (f q)) n xs) = dll_ins P (f n) (map f xs)"
  by (induction xs) auto

lemma map_dll_sort_list:
  "map f (dll_sort_list (\<lambda>a b. cmp (f a) (f b)) xs) = dll_sort_list cmp (map f xs)"
proof -
  have "map f (fold (\<lambda>n. dll_ins (\<lambda>q. cmp (f n) (f q) < 0) n) xs ys) =
      fold (\<lambda>n. dll_ins (\<lambda>q. cmp n q < 0) n) (map f xs) (map f ys)" for ys
    by (induction xs arbitrary: ys) (simp_all add: map_dll_ins [where P = "\<lambda>q. cmp _ q < 0"])
  then show ?thesis by (simp add: dll_sort_list_def)
qed

lemma set_dll_sort_list [simp]: "set (dll_sort_list cmp xs) = set xs"
  using mset_dll_sort_list [of cmp xs] by (metis set_mset_mset)

section \<open>Properties\<close>

text \<open>C1: \<open>DLL_Sort\<close>, run on the pointers, leaves the head with a ring of the same nodes, in
  ascending order of the comparison function, equal nodes in their old order (the sort is
  stable), for every list that fits the 32-bit count.\<close>

theorem DLL_Sort_correct:
  assumes "dll_ring h hp xs" "tmp \<notin> set (hp # xs)" "length xs < 2 ^ 32 - 1" "cmp_order cmp"
  shows "\<exists>ys. dll_ring (DLL_Sort cmp hp tmp h) hp ys \<and> mset ys = mset xs \<and> sorted_cmp cmp ys \<and>
    (\<forall>a. filter (\<lambda>x. cmp x a = 0) ys = filter (\<lambda>x. cmp x a = 0) xs)"
  using ring_Sort [OF assms(1-3)] mset_dll_sort_list [of cmp xs]
    dll_sort_list_invariant [OF assms(4)] by blast

theorem DLL_Sort_correct_witness:
  "\<exists>ys. dll_ring (DLL_Sort (\<lambda>a b. int a - int b) 0 9
      (fold (DLL_ADD 0) [3, 1, 2] (DLL_INIT 0 \<lparr>dprev = id, dnext = id, dhead = \<lambda>_. None, dcount = \<lambda>_. 0\<rparr>)))
      (0 :: nat) ys \<and> mset ys = mset [3, 1, 2] \<and> sorted_cmp (\<lambda>a b. int a - int b) ys \<and>
    (\<forall>a. filter (\<lambda>x. int x - int a = 0) ys = filter (\<lambda>x. int x - int a = 0) [3, 1, 2])"
  by (rule DLL_Sort_correct, rule ring_build, simp, simp, simp, simp, rule cmp_order_diff)

text \<open>\<open>DLL_UniqueSortAdd\<close> on a sorted ring refuses a node whose key is present (returning -1
  and changing nothing) and otherwise inserts it (returning 0) so that the ring stays sorted.\<close>

theorem DLL_UniqueSortAdd_correct:
  assumes "dll_ring h hp xs" "n \<notin> set (hp # xs)" "length xs < 2 ^ 32 - 1"
    and "cmp_order cmp" "sorted_cmp cmp xs"
  shows "if \<exists>x\<in>set xs. cmp n x = 0
    then DLL_UniqueSortAdd cmp hp n h = (-1, h)
    else fst (DLL_UniqueSortAdd cmp hp n h) = 0 \<and>
      (\<exists>ys. dll_ring (snd (DLL_UniqueSortAdd cmp hp n h)) hp ys \<and>
         mset ys = add_mset n (mset xs) \<and> sorted_cmp cmp ys)"
proof (cases "\<exists>x\<in>set xs. cmp n x = 0")
  case True
  have "\<exists>q. find (\<lambda>q. cmp n q = 0 \<or> cmp n q < 0) xs = Some q \<and> cmp n q = 0"
    using assms(5) True
  proof (induction xs)
    case (Cons x xs)
    have "cmp n x \<ge> 0"
    proof (rule ccontr)
      assume "\<not> cmp n x \<ge> 0"
      moreover obtain y where "y \<in> set (x # xs)" "cmp n y = 0" using Cons.prems by blast
      moreover have flip: "(cmp a b < 0) = (cmp b a > 0)" for a b
        using assms(4) unfolding cmp_order_def by blast
      ultimately have "cmp y n \<le> 0" "cmp x n > 0" using flip [of n x] flip [of n y] by linarith+
      moreover have "cmp x y \<le> 0"
        using Cons.prems(1) \<open>y \<in> set (x # xs)\<close> cmp_refl [OF assms(4)] by auto
      ultimately show False using cmp_trans [OF assms(4), of x y n] by simp
    qed
    then show ?case using Cons by auto
  qed simp
  then show ?thesis
    using True by (auto simp: DLL_UniqueSortAdd_def dll_search_ring [OF assms(1)])
next
  case False
  let ?P = "\<lambda>q. cmp n q = 0 \<or> cmp n q < 0"
  have "snd (DLL_UniqueSortAdd cmp hp n h) = (case find ?P xs of
      Some q \<Rightarrow> DLL_INSERT_BEFORE hp n (Some q) h | None \<Rightarrow> DLL_ADD hp n h)"
    "fst (DLL_UniqueSortAdd cmp hp n h) = 0"
    using False find_mem [of ?P xs]
    by (auto simp: DLL_UniqueSortAdd_def dll_search_ring [OF assms(1)] split: option.split)
  moreover have "sorted_cmp cmp (dll_ins ?P n xs)"
    by (rule sorted_dll_ins [OF assms(4,5)]) (use cmp_flip [OF assms(4), of n] in auto)
  ultimately show ?thesis
    unfolding if_not_P [OF False] using ring_ins [OF assms(1-3), of ?P] mset_dll_ins [of ?P n xs]
    by (intro conjI exI [of _ "dll_ins ?P n xs"]) simp_all
qed



end
