(* ===== verification/NumList.thy ===== *)
theory NumList
  imports Dll
begin

text \<open>
  The number list of \<^verbatim>\<open>num_list.c\<close>: a DLL of ranges. A list is the sequence of its nodes'
  contents (\<open>Dll.map_dll_sort_list\<close> and the ring lemmas carry it to the pointers); a node
  pointer is its position. The numbers are \<^verbatim>\<open>INT64\<close>: the code's only arithmetic on them is
  \<open>iNumEnd + 1\<close>, and the model covers the executions where it does not overflow. The parser
  needs \<^verbatim>\<open>TXT_Strnchr\<close> and \<^verbatim>\<open>TXT_Atoui\<close>, whose sources are not in the repository, and is left
  out.
\<close>

record num_range =
  iNumBegin :: int
  iNumEnd :: int

type_synonym num_list = "num_range list"

definition NumList_Init :: num_list where
  "NumList_Init = []"

definition NumList_Finit :: "num_list \<Rightarrow> num_list" where
  "NumList_Finit l = fold (\<lambda>_. tl) l l"

text \<open>\<open>alloc\<close>: whether \<^verbatim>\<open>MEM_ZMalloc\<close> returns a node.\<close>

definition NumList_AddRange :: "bool \<Rightarrow> num_list \<Rightarrow> int \<Rightarrow> int \<Rightarrow> bs_status \<times> num_list" where
  "NumList_AddRange alloc l b e =
     (if \<not> alloc then (BS_NO_MEMORY, l)
      else (BS_OK, l @ [\<lparr>iNumBegin = b, iNumEnd = e\<rparr>]))"

fun NumList_FindRange :: "num_list \<Rightarrow> int \<Rightarrow> int \<Rightarrow> nat option" where
  "NumList_FindRange [] b e = None"
| "NumList_FindRange (n # l) b e =
     (if iNumBegin n = b \<and> iNumEnd n = e then Some 0 else map_option Suc (NumList_FindRange l b e))"

definition NumList_DelNode :: "num_list \<Rightarrow> nat \<Rightarrow> num_list" where
  "NumList_DelNode l i = take i l @ drop (Suc i) l"

definition NumList_DelRange :: "num_list \<Rightarrow> int \<Rightarrow> int \<Rightarrow> bs_status \<times> num_list" where
  "NumList_DelRange l b e =
     (case NumList_FindRange l b e of
        Some i \<Rightarrow> (BS_OK, NumList_DelNode l i)
      | None \<Rightarrow> (BS_OK, l))"

definition NumList_Cat :: "num_list \<Rightarrow> num_list \<Rightarrow> num_list \<times> num_list" where
  "NumList_Cat dst src = (dst @ src, [])"

definition numlist_Cmp :: "num_range \<Rightarrow> num_range \<Rightarrow> int" where
  "numlist_Cmp a b =
     (if iNumBegin a > iNumBegin b then 1
      else if iNumBegin a < iNumBegin b then -1
      else if iNumEnd a < iNumEnd b then 1
      else if iNumEnd a > iNumEnd b then -1
      else 0)"

definition NumList_Sort :: "num_list \<Rightarrow> num_list" where
  "NumList_Sort l = dll_sort_list numlist_Cmp l"

text \<open>The loop of \<^verbatim>\<open>NumList_Compress\<close>, at node \<open>cur\<close> with the nodes after it.\<close>

fun compress_loop :: "num_range \<Rightarrow> num_list \<Rightarrow> num_list" where
  "compress_loop cur [] = [cur]"
| "compress_loop cur (nxt # l) =
     (if iNumEnd nxt \<le> iNumEnd cur then compress_loop cur l
      else (let nxt' = (if iNumBegin nxt \<le> iNumBegin cur
                        then nxt\<lparr>iNumBegin := iNumEnd cur + 1\<rparr> else nxt)
            in cur # compress_loop nxt' l))"

definition NumList_Compress :: "num_list \<Rightarrow> num_list" where
  "NumList_Compress l =
     (case NumList_Sort l of [] \<Rightarrow> [] | cur # l' \<Rightarrow> compress_loop cur l')"

fun continue_loop :: "num_range \<Rightarrow> num_list \<Rightarrow> num_list" where
  "continue_loop cur [] = [cur]"
| "continue_loop cur (nxt # l) =
     (if iNumBegin nxt = iNumEnd cur + 1 then continue_loop (cur\<lparr>iNumEnd := iNumEnd nxt\<rparr>) l
      else cur # continue_loop nxt l)"

definition NumList_Continue :: "num_list \<Rightarrow> num_list" where
  "NumList_Continue l =
     (case NumList_Compress l of [] \<Rightarrow> [] | cur # l' \<Rightarrow> continue_loop cur l')"

fun NumList_IsNumInTheList :: "num_list \<Rightarrow> int \<Rightarrow> bool" where
  "NumList_IsNumInTheList [] i = False"
| "NumList_IsNumInTheList (n # l) i =
     (if i \<ge> iNumBegin n \<and> i \<le> iNumEnd n then True else NumList_IsNumInTheList l i)"

section \<open>The numbers a list denotes\<close>

definition nums :: "num_list \<Rightarrow> int set" where
  "nums l = (\<Union>n\<in>set l. {iNumBegin n..iNumEnd n})"

lemma nums_simps [simp]:
  "nums [] = {}" "nums (n # l) = {iNumBegin n..iNumEnd n} \<union> nums l"
  "nums (l @ l') = nums l \<union> nums l'"
  by (auto simp: nums_def)

lemma nums_cong: "set l = set l' \<Longrightarrow> nums l = nums l'"
  by (simp add: nums_def)

lemma cmp_order_numlist: "cmp_order numlist_Cmp"
  by (auto simp: cmp_order_def numlist_Cmp_def split: if_splits)

text \<open>What the sort establishes: ascending begins, descending ends where the begins agree.\<close>

abbreviation numlist_le :: "num_range \<Rightarrow> num_range \<Rightarrow> bool" where
  "numlist_le a b \<equiv> iNumBegin a < iNumBegin b \<or> iNumBegin a = iNumBegin b \<and> iNumEnd b \<le> iNumEnd a"

lemma sorted_NumList_Sort: "sorted_wrt numlist_le (NumList_Sort l)"
  using dll_sort_list_invariant(1) [OF cmp_order_numlist, of l] unfolding NumList_Sort_def
  by (rule sorted_wrt_mono_rel [rotated]) (auto simp: numlist_Cmp_def split: if_splits)

lemma nums_Sort [simp]: "nums (NumList_Sort l) = nums l"
  by (rule nums_cong) (simp add: NumList_Sort_def)

abbreviation numlist_less :: "num_range \<Rightarrow> num_range \<Rightarrow> bool" where
  "numlist_less a b \<equiv> iNumBegin a < iNumBegin b \<and> iNumEnd a < iNumEnd b"

lemma compress_loop_head: "\<exists>T. compress_loop cur l = cur # T"
  by (induction cur l rule: compress_loop.induct) (auto simp: Let_def)

text \<open>On a sorted list the second test of the loop never succeeds.\<close>

lemma compress_loop_sorted:
  assumes "sorted_wrt numlist_le (cur # l)"
  shows "nums (compress_loop cur l) = nums (cur # l) \<and>
    sorted_wrt numlist_less (compress_loop cur l) \<and>
    set (compress_loop cur l) \<subseteq> set (cur # l) \<and> hd (compress_loop cur l) = cur"
  using assms
proof (induction cur l rule: compress_loop.induct)
  case (2 cur nxt l)
  show ?case
  proof (cases "iNumEnd nxt \<le> iNumEnd cur")
    case True
    then have "{iNumBegin nxt..iNumEnd nxt} \<subseteq> {iNumBegin cur..iNumEnd cur}"
      using 2(3) by auto
    then show ?thesis using True 2(1) 2(3) by auto
  next
    case False
    then have lt: "iNumBegin cur < iNumBegin nxt" using 2(3) by auto
    obtain T where T: "compress_loop nxt l = nxt # T" using compress_loop_head by blast
    have "sorted_wrt numlist_less (nxt # T)" using 2(2) [OF False] 2(3) lt T by auto
    then have "sorted_wrt numlist_less (cur # nxt # T)" using lt False by fastforce
    then show ?thesis using False lt 2(2) [OF False] 2(3) T by auto
  qed
qed simp

lemma NumList_Compress_lemma:
  "nums (NumList_Compress l) = nums l \<and> sorted_wrt numlist_less (NumList_Compress l) \<and>
    set (NumList_Compress l) \<subseteq> set l"
proof (cases "NumList_Sort l")
  case Nil
  then show ?thesis using nums_Sort [of l] by (simp add: NumList_Compress_def)
next
  case (Cons cur l')
  have "set (cur # l') = set l" using Cons by (metis NumList_Sort_def set_dll_sort_list)
  moreover have "nums (cur # l') = nums l" by (metis Cons nums_Sort)
  ultimately show ?thesis
    using compress_loop_sorted [of cur l'] sorted_NumList_Sort [of l] Cons
    by (simp add: NumList_Compress_def)
qed

text \<open>No node continues the one before it.\<close>

fun no_touch :: "num_list \<Rightarrow> bool" where
  "no_touch (a # b # l) \<longleftrightarrow> iNumBegin b \<noteq> iNumEnd a + 1 \<and> no_touch (b # l)"
| "no_touch _ \<longleftrightarrow> True"

lemma continue_loop_sorted:
  assumes "sorted_wrt numlist_less (cur # l)"
  shows "nums (continue_loop cur l) = nums (cur # l) \<and>
    sorted_wrt numlist_less (continue_loop cur l) \<and> no_touch (continue_loop cur l) \<and>
    (\<exists>e T. continue_loop cur l = cur\<lparr>iNumEnd := e\<rparr> # T \<and> iNumEnd cur \<le> e)"
  using assms
proof (induction cur l rule: continue_loop.induct)
  case (1 cur)
  then show ?case by (auto intro!: exI [of _ "iNumEnd cur"])
next
  case (2 cur nxt l)
  show ?case
  proof (cases "iNumBegin nxt = iNumEnd cur + 1")
    case True
    let ?m = "cur\<lparr>iNumEnd := iNumEnd nxt\<rparr>"
    have "sorted_wrt numlist_less (?m # l)" using 2(3) by auto
    note IH = 2(1) [OF True this]
    have "{iNumBegin cur..iNumEnd nxt} =
        {iNumBegin cur..iNumEnd cur} \<union> {iNumBegin nxt..iNumEnd nxt}"
      using True 2(3) by auto
    then show ?thesis using IH True 2(3) by auto
  next
    case False
    have "sorted_wrt numlist_less (nxt # l)" using 2(3) by simp
    note IH = 2(2) [OF False this]
    then obtain e T where T: "continue_loop nxt l = nxt\<lparr>iNumEnd := e\<rparr> # T" "iNumEnd nxt \<le> e"
      by blast
    have "sorted_wrt numlist_less (cur # continue_loop nxt l)"
      using IH 2(3) unfolding T(1) by (fastforce simp: T)
    then show ?thesis using False IH T by (auto intro!: exI [of _ "iNumEnd cur"])
  qed
qed

lemma NumList_Continue_lemma:
  "nums (NumList_Continue l) = nums l \<and> sorted_wrt numlist_less (NumList_Continue l) \<and>
    no_touch (NumList_Continue l)"
proof (cases "NumList_Compress l")
  case Nil
  then show ?thesis using NumList_Compress_lemma [of l] by (simp add: NumList_Continue_def)
next
  case (Cons cur l')
  then show ?thesis
    using continue_loop_sorted [of cur l'] NumList_Compress_lemma [of l]
    by (simp add: NumList_Continue_def)
qed

lemma IsNumInTheList_nums: "NumList_IsNumInTheList l i \<longleftrightarrow> i \<in> nums l"
  by (induction l) auto

lemma DelRange_remove1: "NumList_DelRange l b e = (BS_OK, remove1 \<lparr>iNumBegin = b, iNumEnd = e\<rparr> l)"
proof -
  have "(case NumList_FindRange l b e of Some i \<Rightarrow> NumList_DelNode l i | None \<Rightarrow> l) =
      remove1 \<lparr>iNumBegin = b, iNumEnd = e\<rparr> l"
    by (induction l) (auto simp: NumList_DelNode_def split: option.splits)
  then show ?thesis by (simp add: NumList_DelRange_def split: option.splits)
qed

lemma NumList_Finit_empty [simp]: "NumList_Finit l = []"
proof -
  have "fold (\<lambda>_. tl) l k = []" if "length k = length l" for k :: num_list
    using that by (induction l arbitrary: k) auto
  from this [OF refl] show ?thesis by (simp add: NumList_Finit_def)
qed

section \<open>Properties\<close>

text \<open>C3: \<open>NumList_Compress\<close> and \<open>NumList_Continue\<close> keep the set of numbers of the list, and leave
  the ranges with strictly ascending begins and ends, so that none contains another; after
  \<open>NumList_Continue\<close> no range starts right after the one before it. The membership test answers
  the same before and after.\<close>

theorem NumList_normalise:
  "sorted_wrt numlist_less (NumList_Compress l) \<and> set (NumList_Compress l) \<subseteq> set l \<and>
   sorted_wrt numlist_less (NumList_Continue l) \<and> no_touch (NumList_Continue l) \<and>
   NumList_IsNumInTheList (NumList_Compress l) i = NumList_IsNumInTheList l i \<and>
   NumList_IsNumInTheList (NumList_Continue l) i = NumList_IsNumInTheList l i"
  using NumList_Compress_lemma [of l] NumList_Continue_lemma [of l]
  by (simp add: IsNumInTheList_nums)

end
