(* ===== verification/RuleList.thy ===== *)
theory RuleList
  imports Dll
begin

text \<open>
  The rule list of \<^verbatim>\<open>list_rule/rule_list.c\<close>: rules with an identifier on a DLL, kept in ascending
  order of the identifier. A list is the sequence of its nodes' contents; a node pointer is its
  position. Identifiers are 32-bit words, so the renumbering operations wrap.
\<close>

record 'r rule_node =
  uiRuleID :: UINT
  rule_data :: 'r

type_synonym 'r rule_list = "'r rule_node list"

definition RULE_ID_INVALID :: UINT where
  "RULE_ID_INVALID = 0xffffffff"

definition RuleList_Init :: "'r rule_list" where
  "RuleList_Init = []"

text \<open>\<open>RuleList_Finit\<close> also returns the nodes handed to the free callback, which may be NULL.\<close>

fun RuleList_Finit :: "bool \<Rightarrow> 'r rule_list \<Rightarrow> 'r rule_node list \<times> 'r rule_list" where
  "RuleList_Finit has_free [] = ([], [])"
| "RuleList_Finit has_free (r # l) =
     (let (freed, l') = RuleList_Finit has_free l
      in (if has_free then r # freed else freed, l'))"

fun scan_rules :: "('r rule_node \<Rightarrow> 's \<Rightarrow> bool \<times> 's) \<Rightarrow> 'r rule_list \<Rightarrow> 's \<Rightarrow> 's" where
  "scan_rules f [] s = s"
| "scan_rules f (r # l) s = (case f r s of (go_on, s') \<Rightarrow> if \<not> go_on then s' else scan_rules f l s')"

definition RuleList_ScanRule ::
  "'r rule_list \<Rightarrow> ('r rule_node \<Rightarrow> 's \<Rightarrow> bool \<times> 's) option \<Rightarrow> 's \<Rightarrow> 's" where
  "RuleList_ScanRule l pf s = (case pf of None \<Rightarrow> s | Some f \<Rightarrow> scan_rules f l s)"

definition RuleList_Add :: "'r rule_list \<Rightarrow> UINT \<Rightarrow> 'r rule_node \<Rightarrow> 'r rule_list" where
  "RuleList_Add l rid r0 =
     (let r = r0\<lparr>uiRuleID := rid\<rparr>
      in if l = [] then [r]
         else if rid > uiRuleID (last l) then l @ [r]
         else dll_ins (\<lambda>cur. rid \<le> uiRuleID cur) r l)"

definition RuleList_DelByNode :: "'r rule_list \<Rightarrow> nat option \<Rightarrow> 'r rule_list" where
  "RuleList_DelByNode l n = (case n of None \<Rightarrow> l | Some i \<Rightarrow> take i l @ drop (Suc i) l)"

fun find_rule_pos :: "'r rule_list \<Rightarrow> UINT \<Rightarrow> nat option" where
  "find_rule_pos [] rid = None"
| "find_rule_pos (r # l) rid =
     (if uiRuleID r = rid then Some 0 else map_option Suc (find_rule_pos l rid))"

definition RuleList_Del :: "'r rule_list \<Rightarrow> UINT \<Rightarrow> 'r rule_node option \<times> 'r rule_list" where
  "RuleList_Del l rid =
     (let pos = find_rule_pos l rid
      in (map_option ((!) l) pos, RuleList_DelByNode l pos))"

fun reset_ids :: "UINT \<Rightarrow> UINT \<Rightarrow> 'r rule_list \<Rightarrow> 'r rule_list" where
  "reset_ids i step [] = []"
| "reset_ids i step (r # l) = r\<lparr>uiRuleID := i\<rparr> # reset_ids (i + step) step l"

definition RuleList_ResetRuleID :: "'r rule_list \<Rightarrow> UINT \<Rightarrow> 'r rule_list" where
  "RuleList_ResetRuleID l step0 = (let step = (if step0 = 0 then 1 else step0) in reset_ids 0 step l)"

fun RuleList_FindRule ::
  "'r rule_list \<Rightarrow> ('r rule_node \<Rightarrow> 'r rule_node \<Rightarrow> int) \<Rightarrow> 'r rule_node \<Rightarrow> 'r rule_node option" where
  "RuleList_FindRule [] cmp k = None"
| "RuleList_FindRule (r # l) cmp k = (if cmp r k = 0 then Some r else RuleList_FindRule l cmp k)"

fun RuleList_GetRule :: "'r rule_list \<Rightarrow> UINT \<Rightarrow> 'r rule_node option" where
  "RuleList_GetRule [] rid = None"
| "RuleList_GetRule (r # l) rid =
     (if uiRuleID r = rid then Some r
      else if uiRuleID r > rid then None
      else RuleList_GetRule l rid)"

definition RuleList_GetLastRule :: "'r rule_list \<Rightarrow> 'r rule_node option" where
  "RuleList_GetLastRule l = (if l = [] then None else Some (last l))"

text \<open>The reverse scan of \<^verbatim>\<open>RuleList_IncreaseID\<close>; the argument is the reversed list.\<close>

fun increase_rev :: "UINT \<Rightarrow> UINT \<Rightarrow> UINT \<Rightarrow> 'r rule_list \<Rightarrow> 'r rule_list" where
  "increase_rev s e step [] = []"
| "increase_rev s e step (r # l) =
     (let rid = uiRuleID r;
          r' = (if rid \<ge> s \<and> rid \<le> e then r\<lparr>uiRuleID := rid + step\<rparr> else r)
      in if rid \<le> s then r' # l else r' # increase_rev s e step l)"

definition RuleList_IncreaseID ::
  "'r rule_list \<Rightarrow> UINT \<Rightarrow> UINT \<Rightarrow> UINT \<Rightarrow> bs_status \<times> 'r rule_list" where
  "RuleList_IncreaseID l s e step = (BS_OK, rev (increase_rev s e step (rev l)))"

fun move_scan :: "'r rule_node \<Rightarrow> UINT \<Rightarrow> 'r rule_list \<Rightarrow> 'r rule_list" where
  "move_scan old nid [] = []"
| "move_scan old nid (r # l) =
     (if uiRuleID r > nid then old\<lparr>uiRuleID := nid\<rparr> # r # l else r # move_scan old nid l)"

definition RuleList_MoveRule :: "'r rule_list \<Rightarrow> UINT \<Rightarrow> UINT \<Rightarrow> bs_status \<times> 'r rule_list" where
  "RuleList_MoveRule l oid nid =
     (case RuleList_Del l oid of
        (None, l') \<Rightarrow> (BS_NOT_FOUND, l')
      | (Some old, l') \<Rightarrow>
          if l' = [] \<or> uiRuleID (last l') < nid then (BS_OK, l' @ [old\<lparr>uiRuleID := nid\<rparr>])
          else (BS_OK, move_scan old nid l'))"

definition RuleList_GetNextByNode :: "'r rule_list \<Rightarrow> nat option \<Rightarrow> nat option" where
  "RuleList_GetNextByNode l n =
     (case n of None \<Rightarrow> (if l = [] then None else Some 0)
      | Some i \<Rightarrow> if Suc i < length l then Some (Suc i) else None)"

fun next_above :: "'r rule_list \<Rightarrow> UINT \<Rightarrow> 'r rule_node option" where
  "next_above [] rid = None"
| "next_above (r # l) rid = (if uiRuleID r > rid then Some r else next_above l rid)"

definition RuleList_GetNextByID :: "'r rule_list \<Rightarrow> UINT \<Rightarrow> 'r rule_node option" where
  "RuleList_GetNextByID l rid =
     (if rid = RULE_ID_INVALID then (case l of [] \<Rightarrow> None | r # _ \<Rightarrow> Some r) else next_above l rid)"

definition RuleList_Count :: "'r rule_list \<Rightarrow> UINT" where
  "RuleList_Count l = of_nat (length l)"

fun reset_id_rev :: "UINT \<Rightarrow> 'r rule_list \<Rightarrow> 'r rule_list" where
  "reset_id_rev step [] = []"
| "reset_id_rev step (r # l) = r\<lparr>uiRuleID := uiRuleID r + step\<rparr> # reset_id_rev step l"

definition RuleList_ResetID :: "'r rule_list \<Rightarrow> UINT \<Rightarrow> bs_status \<times> 'r rule_list" where
  "RuleList_ResetID l step = (BS_OK, rev (reset_id_rev step (rev l)))"

section \<open>The order invariant\<close>

definition ids_sorted :: "'r rule_list \<Rightarrow> bool" where
  "ids_sorted l \<longleftrightarrow> sorted (map uiRuleID l)"

lemma ids_sorted_simps [simp]:
  "ids_sorted []" "ids_sorted (r # l) \<longleftrightarrow> (\<forall>q\<in>set l. uiRuleID r \<le> uiRuleID q) \<and> ids_sorted l"
  "ids_sorted (l @ l') \<longleftrightarrow>
     ids_sorted l \<and> ids_sorted l' \<and> (\<forall>a\<in>set l. \<forall>b\<in>set l'. uiRuleID a \<le> uiRuleID b)"
  by (auto simp: ids_sorted_def sorted_append)

lemma ids_sorted_last: "ids_sorted l \<Longrightarrow> r \<in> set l \<Longrightarrow> uiRuleID r \<le> uiRuleID (last l)"
  by (induction l) (auto split: if_splits)

lemma ids_sorted_ins:
  "ids_sorted l \<Longrightarrow> uiRuleID r = rid \<Longrightarrow> ids_sorted (dll_ins (\<lambda>q. rid \<le> uiRuleID q) r l)"
  by (induction l) auto

lemma RuleList_Add_lemma:
  assumes "ids_sorted l"
  shows "ids_sorted (RuleList_Add l rid r)"
    and "mset (RuleList_Add l rid r) = add_mset (r\<lparr>uiRuleID := rid\<rparr>) (mset l)"
proof -
  show "ids_sorted (RuleList_Add l rid r)"
    using assms ids_sorted_ins [OF assms, of "r\<lparr>uiRuleID := rid\<rparr>" rid] ids_sorted_last [OF assms]
    by (fastforce simp: RuleList_Add_def Let_def)
  show "mset (RuleList_Add l rid r) = add_mset (r\<lparr>uiRuleID := rid\<rparr>) (mset l)"
    by (simp add: RuleList_Add_def Let_def)
qed

lemma GetRule_sorted: "ids_sorted l \<Longrightarrow> RuleList_GetRule l rid = find (\<lambda>r. uiRuleID r = rid) l"
proof (induction l)
  case (Cons r l)
  have "find (\<lambda>q. uiRuleID q = rid) l = None" if "uiRuleID r > rid"
    using Cons.prems that by (fastforce simp: find_None_iff)
  then show ?case using Cons by auto
qed simp

lemma Del_split:
  "case find_rule_pos l rid of
     None \<Rightarrow> \<forall>r\<in>set l. uiRuleID r \<noteq> rid
   | Some i \<Rightarrow> i < length l \<and> uiRuleID (l ! i) = rid \<and> (\<forall>r\<in>set (take i l). uiRuleID r \<noteq> rid)"
  by (induction l) (auto split: option.splits)

lemma RuleList_Del_cases:
  obtains (none) "RuleList_Del l rid = (None, l)" "\<forall>r\<in>set l. uiRuleID r \<noteq> rid"
  | (some) ys r zs where "l = ys @ r # zs" "uiRuleID r = rid" "\<forall>q\<in>set ys. uiRuleID q \<noteq> rid"
      "RuleList_Del l rid = (Some r, ys @ zs)"
proof (cases "find_rule_pos l rid")
  case None
  then show thesis using none Del_split [of l rid]
    by (simp add: RuleList_Del_def RuleList_DelByNode_def)
next
  case (Some i)
  then show thesis
    using some [of "take i l" "l ! i" "drop (Suc i) l"] Del_split [of l rid] id_take_nth_drop [of i l]
    by (simp add: RuleList_Del_def RuleList_DelByNode_def)
qed

lemma next_above_sorted:
  assumes "ids_sorted l"
  shows "case next_above l rid of
     None \<Rightarrow> \<forall>r\<in>set l. uiRuleID r \<le> rid
   | Some r \<Rightarrow> r \<in> set l \<and> rid < uiRuleID r \<and> (\<forall>q\<in>set l. rid < uiRuleID q \<longrightarrow> uiRuleID r \<le> uiRuleID q)"
  using assms by (induction l) (auto split: option.splits)

definition ids_strict :: "'r rule_list \<Rightarrow> bool" where
  "ids_strict l \<longleftrightarrow> sorted_wrt (\<lambda>a b. uiRuleID a < uiRuleID b) l"

definition bump :: "UINT \<Rightarrow> UINT \<Rightarrow> UINT \<Rightarrow> 'r rule_node \<Rightarrow> 'r rule_node" where
  "bump s e step r =
     (if s \<le> uiRuleID r \<and> uiRuleID r \<le> e then r\<lparr>uiRuleID := uiRuleID r + step\<rparr> else r)"

lemma increase_rev_map:
  "sorted_wrt (\<lambda>a b. uiRuleID b < uiRuleID a) l \<Longrightarrow> increase_rev s e step l = map (bump s e step) l"
proof (induction l)
  case (Cons r l)
  show ?case
  proof (cases "uiRuleID r \<le> s")
    case True
    then have "bump s e step q = q" if "q \<in> set l" for q
      using Cons.prems that by (fastforce simp: bump_def)
    then have "map (bump s e step) l = l" by (simp add: map_idI)
    then show ?thesis using True by (simp add: Let_def) (simp add: bump_def)
  next
    case False
    then show ?thesis using Cons by (simp add: bump_def Let_def)
  qed
qed simp

lemma IncreaseID_map: "ids_strict l \<Longrightarrow> snd (RuleList_IncreaseID l s e step) = map (bump s e step) l"
  by (simp add: RuleList_IncreaseID_def ids_strict_def increase_rev_map sorted_wrt_rev rev_map [symmetric])

lemma move_scan_found:
  assumes "ids_sorted l" "\<exists>r\<in>set l. nid < uiRuleID r"
  shows "ids_sorted (move_scan old nid l) \<and>
    mset (move_scan old nid l) = add_mset (old\<lparr>uiRuleID := nid\<rparr>) (mset l)"
proof -
  have "set (move_scan old nid l) \<subseteq> insert (old\<lparr>uiRuleID := nid\<rparr>) (set l)" for l
    by (induction l) auto
  then show ?thesis using assms
    by (induction l) (fastforce simp: not_less)+
qed

lemma move_scan_none: "\<forall>r\<in>set l. uiRuleID r \<le> nid \<Longrightarrow> move_scan old nid l = l"
  by (induction l) (auto simp: not_less)

section \<open>Properties\<close>

text \<open>C4: on a list in ascending order, \<open>RuleList_Add\<close> keeps the order and adds exactly the rule
  with its new identifier, \<open>RuleList_GetRule\<close> finds the first rule with an identifier and misses
  none, \<open>RuleList_GetNextByID\<close> returns the rule with the least greater identifier, and
  \<open>RuleList_Del\<close> takes one rule with the identifier out and keeps the order.\<close>

theorem RuleList_sorted_table:
  assumes "ids_sorted l" "rid \<noteq> RULE_ID_INVALID"
  shows "ids_sorted (RuleList_Add l rid r) \<and>
    mset (RuleList_Add l rid r) = add_mset (r\<lparr>uiRuleID := rid\<rparr>) (mset l) \<and>
    RuleList_GetRule l rid = find (\<lambda>q. uiRuleID q = rid) l \<and>
    (case RuleList_GetNextByID l rid of
       None \<Rightarrow> \<forall>q\<in>set l. uiRuleID q \<le> rid
     | Some n \<Rightarrow> n \<in> set l \<and> rid < uiRuleID n \<and>
         (\<forall>q\<in>set l. rid < uiRuleID q \<longrightarrow> uiRuleID n \<le> uiRuleID q)) \<and>
    (case RuleList_Del l rid of
       (None, l') \<Rightarrow> l' = l \<and> (\<forall>q\<in>set l. uiRuleID q \<noteq> rid)
     | (Some d, l') \<Rightarrow> uiRuleID d = rid \<and> ids_sorted l' \<and> mset l = add_mset d (mset l'))"
proof -
  have "case RuleList_Del l rid of
       (None, l') \<Rightarrow> l' = l \<and> (\<forall>q\<in>set l. uiRuleID q \<noteq> rid)
     | (Some d, l') \<Rightarrow> uiRuleID d = rid \<and> ids_sorted l' \<and> mset l = add_mset d (mset l')"
    using assms(1) by (cases rule: RuleList_Del_cases [of l rid]) auto
  then show ?thesis
    using RuleList_Add_lemma [OF assms(1), of rid r] GetRule_sorted [OF assms(1), of rid]
      next_above_sorted [OF assms(1), of rid] assms(2)
    by (simp add: RuleList_GetNextByID_def)
qed

definition example_rules :: "nat rule_list" where
  "example_rules = [\<lparr>uiRuleID = 1, rule_data = 10\<rparr>, \<lparr>uiRuleID = 5, rule_data = 20\<rparr>, \<lparr>uiRuleID = 9, rule_data = 30\<rparr>]"

theorem RuleList_sorted_table_witness:
  "ids_sorted (RuleList_Add example_rules 5 \<lparr>uiRuleID = 0, rule_data = 40\<rparr>)"
  using RuleList_sorted_table [of example_rules 5 "\<lparr>uiRuleID = 0, rule_data = 40\<rparr>"]
  by (simp add: example_rules_def RULE_ID_INVALID_def)

text \<open>\<open>RuleList_IncreaseID\<close> on a list with strictly ascending identifiers adds the step (modulo
  \<open>2 ^ 32\<close>) to the identifiers from \<open>uiStart\<close> to \<open>uiEnd\<close> and changes no other rule, although the
  reverse scan stops at the first identifier not above \<open>uiStart\<close>.\<close>

theorem RuleList_IncreaseID_correct:
  assumes "ids_strict l"
  shows "RuleList_IncreaseID l s e step = (BS_OK, map (bump s e step) l)"
  using IncreaseID_map [OF assms] by (simp add: RuleList_IncreaseID_def)

text \<open>C5: \<open>RuleList_MoveRule\<close> of a present rule on an ordered list: if the remaining rules are all
  below the new identifier, or one is above it, the rule is back under its new identifier and the
  order holds. In the remaining case, where the greatest remaining identifier equals the new one,
  the function still returns \<open>BS_OK\<close> and the rule is in the list no more.\<close>

theorem RuleList_MoveRule_correct:
  assumes "ids_sorted l" "RuleList_Del l oid = (Some old, l')"
  shows "fst (RuleList_MoveRule l oid nid) = BS_OK \<and>
    (let m = snd (RuleList_MoveRule l oid nid)
     in if l' \<noteq> [] \<and> uiRuleID (last l') = nid then m = l'
        else ids_sorted m \<and> mset m = add_mset (old\<lparr>uiRuleID := nid\<rparr>) (mset l'))"
proof -
  have s: "ids_sorted l'"
    using assms by (cases rule: RuleList_Del_cases [of l oid]) auto
  note le = ids_sorted_last [OF s]
  show ?thesis
  proof (cases "l' = [] \<or> uiRuleID (last l') < nid")
    case True
    then show ?thesis using s le by (fastforce simp: RuleList_MoveRule_def assms(2))
  next
    case False
    then consider "uiRuleID (last l') = nid" | "nid < uiRuleID (last l')" by fastforce
    then show ?thesis
    proof cases
      case 1
      then show ?thesis using False le move_scan_none [of l' nid old]
        by (auto simp: RuleList_MoveRule_def assms(2))
    next
      case 2
      then have "\<exists>r\<in>set l'. nid < uiRuleID r" using False last_in_set by blast
      then show ?thesis using False 2 move_scan_found [OF s, of nid old]
        by (auto simp: RuleList_MoveRule_def assms(2))
    qed
  qed
qed

theorem RuleList_MoveRule_correct_witness:
  "snd (RuleList_MoveRule example_rules 1 9) = tl example_rules"
  using RuleList_MoveRule_correct [of example_rules 1 "example_rules ! 0" "tl example_rules" 9]
  by (simp add: example_rules_def RuleList_Del_def RuleList_DelByNode_def Let_def)

end
