(* ===== verification/IdRes.thy ===== *)
theory IdRes
  imports Dll Interfaces
begin

text \<open>
  Two small tables on a DLL: the identifier-to-resource table of \<^verbatim>\<open>id_res/idres_utl.c\<close> and the
  range FIB of \<^verbatim>\<open>fib/range_fib.c\<close>, which maps intervals of IPv4 addresses to next hops. New
  nodes go to the head of the list, and a scan stops at its first hit.
\<close>

section \<open>Identifiers and resources\<close>

text \<open>A handle is an \<open>option\<close>: \<open>None\<close> is the NULL handle.\<close>

record 'h idres_node =
  uiId :: UINT
  hRes :: "'h option"

type_synonym 'h idres = "'h idres_node list"

definition IDRES_Create :: "bool \<Rightarrow> 'h idres option" where
  "IDRES_Create alloc = (if \<not> alloc then None else Some [])"

text \<open>\<open>IDRES_Destory\<close> returns the calls of the free callback.\<close>

definition IDRES_Destory :: "'h idres option \<Rightarrow> (UINT \<times> 'h option) list" where
  "IDRES_Destory ctrl =
     (case ctrl of None \<Rightarrow> [] | Some l \<Rightarrow> map (\<lambda>n. (uiId n, hRes n)) l)"

definition idres_Find :: "'h idres \<Rightarrow> UINT \<Rightarrow> 'h idres_node option" where
  "idres_Find l k = find (\<lambda>n. uiId n = k) l"

text \<open>\<open>pstNode->hRes = hRes\<close> on the node a scan for \<open>k\<close> returns.\<close>

fun idres_assign :: "UINT \<Rightarrow> 'h option \<Rightarrow> 'h idres \<Rightarrow> 'h idres" where
  "idres_assign k r [] = []"
| "idres_assign k r (n # l) = (if uiId n = k then n\<lparr>hRes := r\<rparr> # l else n # idres_assign k r l)"

definition IDRES_Set :: "bool \<Rightarrow> 'h idres \<Rightarrow> UINT \<Rightarrow> 'h option \<Rightarrow> bs_status \<times> 'h idres" where
  "IDRES_Set alloc l k r =
     (case idres_Find l k of
        None \<Rightarrow> (if \<not> alloc then (BS_NO_MEMORY, l)
                 else (BS_OK, idres_assign k r (\<lparr>uiId = k, hRes = None\<rparr> # l)))
      | Some _ \<Rightarrow> (BS_OK, idres_assign k r l))"

definition IDRES_Get :: "'h idres \<Rightarrow> UINT \<Rightarrow> 'h option" where
  "IDRES_Get l k = (case idres_Find l k of None \<Rightarrow> None | Some n \<Rightarrow> hRes n)"

definition idres_inv :: "'h idres \<Rightarrow> bool" where
  [inv_defs]: "idres_inv l \<longleftrightarrow> distinct (map uiId l)"

definition idres_map :: "'h idres \<Rightarrow> UINT \<Rightarrow> 'h option option" where
  "idres_map l k = map_option hRes (idres_Find l k)"

lemma ids_assign [simp]: "map uiId (idres_assign k r l) = map uiId l"
  by (induction l) auto

lemma Find_assign:
  "idres_Find (idres_assign k r l) k' =
     (if k' = k then map_option (hRes_update (\<lambda>_. r)) (idres_Find l k) else idres_Find l k')"
  by (induction l) (auto simp: idres_Find_def)

lemma Find_none: "idres_Find l k = None \<longleftrightarrow> k \<notin> uiId ` set l"
  by (auto simp: idres_Find_def find_None_iff)

lemma IDRES_Set_lemma:
  assumes "idres_inv l"
  shows "idres_inv (snd (IDRES_Set True l k r))"
    and "idres_map (snd (IDRES_Set True l k r)) = (idres_map l)(k \<mapsto> r)"
proof -
  show "idres_inv (snd (IDRES_Set True l k r))"
    using assms Find_none [of l k] by (auto simp: IDRES_Set_def idres_inv_def split: option.split)
  show "idres_map (snd (IDRES_Set True l k r)) = (idres_map l)(k \<mapsto> r)"
  proof (cases "idres_Find l k")
    case None
    then show ?thesis by (auto simp: IDRES_Set_def idres_map_def fun_eq_iff) (auto simp: idres_Find_def)
  next
    case (Some n)
    then show ?thesis by (auto simp: IDRES_Set_def idres_map_def Find_assign fun_eq_iff)
  qed
qed

interpretation idres: table idres_inv idres_map "\<lambda>k v l. snd (IDRES_Set True l k v)"
  by unfold_locales (simp_all add: IDRES_Set_lemma)

section \<open>The range FIB\<close>

record fib_key =
  uiDstOrStartIp :: UINT
  uiMaskOrEndIp :: UINT

record fib_node =
  stFibKey :: fib_key
  uiNextHop :: UINT
  uiOutIfIndex :: UINT
  uiFlag :: UINT

record range_fib =
  stListHead :: "fib_node list"
  bCreateLock :: bool
  mutex_held :: bool

definition rangefib_Cmp :: "fib_node \<Rightarrow> fib_key \<Rightarrow> int" where
  "rangefib_Cmp n k =
     (let c = sint (uiDstOrStartIp (stFibKey n) - uiDstOrStartIp k)
      in if c \<noteq> 0 then c
         else sint (uiMaskOrEndIp (stFibKey n) - uiMaskOrEndIp k))"

definition rangefib_Lock :: "range_fib \<Rightarrow> range_fib" where
  [op_defs]: "rangefib_Lock c = (if bCreateLock c then c\<lparr>mutex_held := True\<rparr> else c)"

definition rangefib_UnLock :: "range_fib \<Rightarrow> range_fib" where
  [op_defs]: "rangefib_UnLock c = (if bCreateLock c then c\<lparr>mutex_held := False\<rparr> else c)"

definition RangeFib_Create :: "bool \<Rightarrow> bool \<Rightarrow> range_fib option" where
  "RangeFib_Create alloc lock =
     (if \<not> alloc then None
      else Some \<lparr>stListHead = [], bCreateLock = lock, mutex_held = False\<rparr>)"

text \<open>The nodes \<^verbatim>\<open>DLL_FREE\<close> hands to \<^verbatim>\<open>_rangefib_FreeNode\<close>.\<close>

definition RangeFib_Destory :: "range_fib option \<Rightarrow> fib_node list" where
  "RangeFib_Destory ctrl = (case ctrl of None \<Rightarrow> [] | Some c \<Rightarrow> stListHead c)"

definition RangeFib_Add :: "bool \<Rightarrow> range_fib option \<Rightarrow> fib_node \<Rightarrow> bs_status \<times> range_fib option" where
  "RangeFib_Add alloc ctrl n =
     (case ctrl of None \<Rightarrow> (BS_BAD_PARA, None)
      | Some c \<Rightarrow>
          if \<not> alloc then (BS_NO_MEMORY, Some c)
          else (let c1 = rangefib_Lock c;
                    hit = (\<lambda>m. rangefib_Cmp m (stFibKey n) = 0);
                    l1 = (case find hit (stListHead c1) of
                            Some _ \<Rightarrow> del_first hit (stListHead c1) | None \<Rightarrow> stListHead c1);
                    c2 = c1\<lparr>stListHead := n # l1\<rparr>
                in (BS_OK, Some (rangefib_UnLock c2))))"

definition RangeFib_Del :: "range_fib option \<Rightarrow> fib_key \<Rightarrow> range_fib option" where
  "RangeFib_Del ctrl k =
     (case ctrl of None \<Rightarrow> None
      | Some c \<Rightarrow>
          (let c1 = rangefib_Lock c;
               hit = (\<lambda>m. rangefib_Cmp m k = 0);
               c2 = (case find hit (stListHead c1) of
                       Some _ \<Rightarrow> c1\<lparr>stListHead := del_first hit (stListHead c1)\<rparr> | None \<Rightarrow> c1)
           in Some (rangefib_UnLock c2)))"

text \<open>The scan changes nothing; the pair of lock and unlock around it leaves the mutex as it was, so only the result is returned.\<close>

definition RangeFib_Match :: "range_fib option \<Rightarrow> UINT \<Rightarrow> bs_status \<times> fib_node option" where
  "RangeFib_Match ctrl ip =
     (case ctrl of None \<Rightarrow> (BS_BAD_PARA, None)
      | Some c \<Rightarrow>
          (let c1 = rangefib_Lock c
           in case find (\<lambda>n. ip \<ge> uiDstOrStartIp (stFibKey n) \<and> ip \<le> uiMaskOrEndIp (stFibKey n))
                        (stListHead c1) of
                None \<Rightarrow> (BS_NO_SUCH, None)
              | Some n \<Rightarrow> (BS_OK, Some n)))"

lemma rangefib_Cmp_0 [simp]: "rangefib_Cmp n k = 0 \<longleftrightarrow> stFibKey n = k"
  by (cases k; cases "stFibKey n") (auto simp: rangefib_Cmp_def Let_def)

definition range_fib_inv :: "range_fib \<Rightarrow> bool" where
  [inv_defs]: "range_fib_inv c \<longleftrightarrow> distinct (map stFibKey (stListHead c)) \<and> \<not> mutex_held c"

definition in_range :: "UINT \<Rightarrow> fib_key \<Rightarrow> bool" where
  "in_range ip k \<longleftrightarrow> uiDstOrStartIp k \<le> ip \<and> ip \<le> uiMaskOrEndIp k"

definition fib_lookup :: "range_fib \<Rightarrow> UINT \<Rightarrow> fib_node option" where
  "fib_lookup c ip = find (\<lambda>n. in_range ip (stFibKey n)) (stListHead c)"

text \<open>The exact-key view, a table with deletion.\<close>

definition fib_exact :: "range_fib \<Rightarrow> fib_key \<Rightarrow> (UINT \<times> UINT \<times> UINT) option" where
  "fib_exact c k =
     map_option (\<lambda>n. (uiNextHop n, uiOutIfIndex n, uiFlag n))
       (find (\<lambda>n. stFibKey n = k) (stListHead c))"

definition fib_put :: "fib_key \<Rightarrow> UINT \<times> UINT \<times> UINT \<Rightarrow> range_fib \<Rightarrow> range_fib" where
  "fib_put k v c = the (snd (RangeFib_Add True (Some c)
     \<lparr>stFibKey = k, uiNextHop = fst v, uiOutIfIndex = fst (snd v), uiFlag = snd (snd v)\<rparr>))"

definition fib_remove :: "fib_key \<Rightarrow> range_fib \<Rightarrow> range_fib" where
  "fib_remove k c = the (RangeFib_Del (Some c) k)"

lemma find_filter_neq:
  "find (\<lambda>n. f n = k') (filter (\<lambda>n. f n \<noteq> k) l) = (if k' = k then None else find (\<lambda>n. f n = k') l)"
  by (induction l) (auto simp: find_None_iff)

lemma find_del_other:
  "\<not> P' k \<Longrightarrow> find (\<lambda>n. P' (f n)) (filter (\<lambda>n. f n \<noteq> k) l) = find (\<lambda>n. P' (f n)) l"
  by (induction l) auto

lemma find_none_filter: "find (\<lambda>x. f x = k) l = None \<Longrightarrow> filter (\<lambda>x. f x \<noteq> k) l = l"
  by (simp add: find_None_iff)

lemma RangeFib_Add_list:
  "range_fib_inv c \<Longrightarrow> snd (RangeFib_Add True (Some c) n) =
    Some (c\<lparr>stListHead := n # filter (\<lambda>m. stFibKey m \<noteq> stFibKey n) (stListHead c)\<rparr>)"
  by (cases "find (\<lambda>m. stFibKey m = stFibKey n) (stListHead c)")
    (simp_all add: RangeFib_Add_def op_defs range_fib_inv_def find_none_filter del_first_unique)

lemma RangeFib_Del_list:
  "range_fib_inv c \<Longrightarrow> RangeFib_Del (Some c) k =
    Some (c\<lparr>stListHead := filter (\<lambda>m. stFibKey m \<noteq> k) (stListHead c)\<rparr>)"
  by (cases "find (\<lambda>m. stFibKey m = k) (stListHead c)")
    (simp_all add: RangeFib_Del_def op_defs range_fib_inv_def find_none_filter del_first_unique)

lemma distinct_filter_map: "distinct (map f l) \<Longrightarrow> distinct (map f (filter P l))"
  by (induction l) auto

interpretation range_fib: table_del range_fib_inv fib_exact fib_put fib_remove
proof
  fix c k v
  assume inv: "range_fib_inv c"
  show "range_fib_inv (fib_put k v c)"
    using inv by (auto simp: fib_put_def RangeFib_Add_list range_fib_inv_def distinct_filter_map)
  show "fib_exact (fib_put k v c) = (fib_exact c)(k \<mapsto> v)"
    using inv by (auto simp: fib_put_def RangeFib_Add_list fib_exact_def find_filter_neq fun_eq_iff)
  show "range_fib_inv (fib_remove k c)"
    using inv by (auto simp: fib_remove_def RangeFib_Del_list range_fib_inv_def distinct_filter_map)
  show "fib_exact (fib_remove k c) = (fib_exact c)(k := None)"
    using inv by (auto simp: fib_remove_def RangeFib_Del_list fib_exact_def find_filter_neq fun_eq_iff)
qed

section \<open>Properties\<close>

text \<open>C6: the identifier table is a map: after any sequence of \<open>IDRES_Set\<close> calls whose allocations
  succeed on an empty table, \<open>IDRES_Get\<close> returns the last resource set for the identifier, and
  NULL for one never set.\<close>

theorem IDRES_is_map:
  "IDRES_Get (fold (\<lambda>(k, v) l. snd (IDRES_Set True l k v)) kvs []) k =
     (case map_of (rev kvs) k of None \<Rightarrow> None | Some r \<Rightarrow> r)"
proof -
  let ?l = "fold (\<lambda>(k, v) l. snd (IDRES_Set True l k v)) kvs []"
  have "idres_map ([] :: 'a idres) = Map.empty" by (auto simp: idres_map_def idres_Find_def)
  then have "idres_map ?l = map_of (rev kvs)"
    using idres.look_load [of "[]" kvs] by (simp add: idres_inv_def)
  moreover have "IDRES_Get l k = (case idres_map l k of None \<Rightarrow> None | Some r \<Rightarrow> r)" for l :: "'a idres"
    by (simp add: IDRES_Get_def idres_map_def split: option.split)
  ultimately show ?thesis by simp
qed

text \<open>C7: \<open>RangeFib_Add\<close> and \<open>RangeFib_Del\<close> do to the matching of addresses what a list of ranges
  ordered by age does: a new range answers for every address in it and changes nothing elsewhere; a
  deleted key answers no more, changes nothing outside its range, and inside it the newest
  other range answers. The keys stay distinct and the mutex is free afterwards.\<close>

theorem RangeFib_match_correct:
  assumes "range_fib_inv c"
  shows "RangeFib_Match (snd (RangeFib_Add True (Some c) n)) ip =
      (if in_range ip (stFibKey n) then (BS_OK, Some n) else RangeFib_Match (Some c) ip) \<and>
    RangeFib_Match (RangeFib_Del (Some c) k) ip =
      (case find (\<lambda>m. in_range ip (stFibKey m) \<and> stFibKey m \<noteq> k) (stListHead c) of
         None \<Rightarrow> (BS_NO_SUCH, None) | Some m \<Rightarrow> (BS_OK, Some m)) \<and>
    (\<not> in_range ip k \<longrightarrow> RangeFib_Match (RangeFib_Del (Some c) k) ip = RangeFib_Match (Some c) ip) \<and>
    range_fib_inv (the (snd (RangeFib_Add True (Some c) n))) \<and>
    range_fib_inv (the (RangeFib_Del (Some c) k))"
proof -
  have f: "find P (filter Q l) = find (\<lambda>x. P x \<and> Q x) l" for P Q :: "fib_node \<Rightarrow> bool" and l
    by (induction l) auto
  have m: "RangeFib_Match (Some d) ip = (case find (\<lambda>n. in_range ip (stFibKey n)) (stListHead d) of
      None \<Rightarrow> (BS_NO_SUCH, None) | Some n \<Rightarrow> (BS_OK, Some n))" for d
    by (simp add: RangeFib_Match_def in_range_def op_defs Let_def)
  have "distinct (map stFibKey (stListHead c))" using assms by (simp add: range_fib_inv_def)
  then show ?thesis
    using find_del_other [of "in_range ip" k stFibKey "stListHead c"]
      find_del_other [of "in_range ip" "stFibKey n" stFibKey "stListHead c"] assms
    by (auto simp: RangeFib_Add_list RangeFib_Del_list m f range_fib_inv_def distinct_filter_map)
qed

theorem RangeFib_match_correct_witness:
  "RangeFib_Match (snd (RangeFib_Add True (RangeFib_Create True True)
     \<lparr>stFibKey = \<lparr>uiDstOrStartIp = 10, uiMaskOrEndIp = 20\<rparr>, uiNextHop = 1, uiOutIfIndex = 2, uiFlag = 0\<rparr>)) 15 =
   (BS_OK, Some \<lparr>stFibKey = \<lparr>uiDstOrStartIp = 10, uiMaskOrEndIp = 20\<rparr>, uiNextHop = 1, uiOutIfIndex = 2, uiFlag = 0\<rparr>)"
  using RangeFib_match_correct [of "\<lparr>stListHead = [], bCreateLock = True, mutex_held = False\<rparr>"
      "\<lparr>stFibKey = \<lparr>uiDstOrStartIp = 10, uiMaskOrEndIp = 20\<rparr>, uiNextHop = 1, uiOutIfIndex = 2, uiFlag = 0\<rparr>" 15]
  by (simp add: RangeFib_Create_def range_fib_inv_def in_range_def)

end
