(* ===== verification/SQue.thy ===== *)
theory SQue
  imports Interfaces
begin

text \<open>
  The simple queue of \<^verbatim>\<open>queue/sque_utl.c\<close>: a singly linked chain of allocated nodes with head and
  tail pointers and a count. \<open>NULL\<close> is \<open>None\<close>; the allocator is the argument \<open>alloc\<close>, the fresh
  address \<^verbatim>\<open>MEM_ZMalloc\<close> returns, or \<open>None\<close>.
\<close>

record ('p, 'd) sque =
  head :: "'p option"
  tail :: "'p option"
  count :: int
  data :: "'p \<Rightarrow> 'd option"
  nxt :: "'p \<Rightarrow> 'p option"

definition SQUE_Init :: "('p, 'd) sque \<Rightarrow> ('p, 'd) sque" where
  "SQUE_Init s = s\<lparr>head := None, tail := None, count := 0\<rparr>"

definition SQUE_Count :: "('p, 'd) sque \<Rightarrow> int" where
  "SQUE_Count s = count s"

definition SQUE_Push ::
  "'p option \<Rightarrow> ('p, 'd) sque \<Rightarrow> 'd option \<Rightarrow> bs_status \<times> ('p, 'd) sque" where
  "SQUE_Push alloc s d =
     (if head s = None then
        (let s1 = s\<lparr>tail := alloc, head := alloc\<rparr>
         in case alloc of
              None \<Rightarrow> (BS_NO_MEMORY, s1)
            | Some q \<Rightarrow>
                (BS_OK, s1\<lparr>data := (data s1)(q := d), nxt := (nxt s1)(q := None), count := count s1 + 1\<rparr>))
      else
        (case alloc of
           None \<Rightarrow> (BS_NO_MEMORY, s)
         | Some q \<Rightarrow>
             (let s1 = s\<lparr>data := (data s)(q := d), nxt := (nxt s)(q := None)\<rparr>;
                  s2 = s1\<lparr>nxt := (nxt s1)(the (tail s1) := Some q)\<rparr>;
                  s3 = s2\<lparr>tail := Some q\<rparr>
              in (BS_OK, s3\<lparr>count := count s3 + 1\<rparr>))))"

definition SQUE_Pop :: "('p, 'd) sque \<Rightarrow> 'd option \<times> ('p, 'd) sque" where
  "SQUE_Pop s =
     (case head s of
        None \<Rightarrow> (None, s)
      | Some q \<Rightarrow>
          (let s1 = s\<lparr>head := nxt s q, count := count s - 1\<rparr>;
               s2 = (if head s1 = None then s1\<lparr>tail := None, count := 0\<rparr> else s1)
           in (data s q, s2)))"

text \<open>\<^verbatim>\<open>SQUE_Final\<close> pops while the count is not 0; the fuel bounds the loop.\<close>

fun sque_pop_all :: "nat \<Rightarrow> ('p, 'd) sque \<Rightarrow> ('p, 'd) sque" where
  "sque_pop_all 0 s = s"
| "sque_pop_all (Suc k) s = (if SQUE_Count s \<noteq> 0 then sque_pop_all k (snd (SQUE_Pop s)) else s)"

definition SQUE_Final :: "('p, 'd) sque \<Rightarrow> ('p, 'd) sque" where
  "SQUE_Final s = sque_pop_all (nat (SQUE_Count s)) s"

section \<open>The chain of nodes\<close>

fun chain :: "('p \<Rightarrow> 'p option) \<Rightarrow> 'p option \<Rightarrow> 'p list \<Rightarrow> bool" where
  "chain f p [] \<longleftrightarrow> p = None"
| "chain f p (x # xs) \<longleftrightarrow> p = Some x \<and> chain f (f x) xs"

definition sque_rep :: "('p, 'd) sque \<Rightarrow> 'p list \<Rightarrow> bool" where
  "sque_rep s ps \<longleftrightarrow> distinct ps \<and> chain (nxt s) (head s) ps \<and> count s = int (length ps) \<and>
     tail s = (if ps = [] then None else Some (last ps))"

lemma chain_upd [simp]: "a \<notin> set ps \<Longrightarrow> chain (f(a := v)) p ps = chain f p ps"
  by (induction f p ps rule: chain.induct) auto

lemma chain_snoc:
  "chain f p ps \<Longrightarrow> ps \<noteq> [] \<Longrightarrow> q \<notin> set ps \<Longrightarrow> distinct ps \<Longrightarrow>
     chain (f(q := None, last ps := Some q)) p (ps @ [q])"
proof (induction ps arbitrary: p)
  case (Cons x xs)
  show ?case
  proof (cases "xs = []")
    case True
    then show ?thesis using Cons.prems by simp
  next
    case False
    then have "last xs \<noteq> x" using Cons.prems(4) by auto
    then show ?thesis using Cons.IH [of "f x"] Cons.prems False by auto
  qed
qed simp

lemma chain_unique: "chain f p xs \<Longrightarrow> chain f p ys \<Longrightarrow> xs = ys"
proof (induction f p xs arbitrary: ys rule: chain.induct)
  case (1 f p)
  then show ?case by (cases ys) auto
next
  case (2 f p x xs)
  then show ?case by (cases ys) auto
qed

lemma sque_rep_unique: "sque_rep s xs \<Longrightarrow> sque_rep s ys \<Longrightarrow> xs = ys"
  by (auto simp: sque_rep_def intro: chain_unique)

lemma sque_rep_head: "sque_rep s ps \<Longrightarrow> head s = (case ps of [] \<Rightarrow> None | p # _ \<Rightarrow> Some p)"
  by (cases ps) (auto simp: sque_rep_def)

lemma Push_rep:
  assumes "sque_rep s ps" "q \<notin> set ps"
  shows "sque_rep (snd (SQUE_Push (Some q) s d)) (ps @ [q])"
    and "data (snd (SQUE_Push (Some q) s d)) = (data s)(q := d)"
    and "fst (SQUE_Push (Some q) s d) = BS_OK"
  using assms chain_snoc [of "nxt s" "head s" ps q] sque_rep_head [OF assms(1)]
  by (cases ps; auto simp: sque_rep_def SQUE_Push_def Let_def)+

lemma Pop_rep:
  assumes "sque_rep s ps"
  shows "sque_rep (snd (SQUE_Pop s)) (tl ps)"
    and "data (snd (SQUE_Pop s)) = data s"
    and "fst (SQUE_Pop s) = (case ps of [] \<Rightarrow> None | p # _ \<Rightarrow> data s p)"
proof -
  show "data (snd (SQUE_Pop s)) = data s"
    by (auto simp: SQUE_Pop_def Let_def split: option.split)
  show "fst (SQUE_Pop s) = (case ps of [] \<Rightarrow> None | p # _ \<Rightarrow> data s p)"
    using sque_rep_head [OF assms] by (cases ps) (auto simp: SQUE_Pop_def Let_def)
  show "sque_rep (snd (SQUE_Pop s)) (tl ps)"
  proof (cases ps)
    case Nil
    then show ?thesis using assms sque_rep_head [OF assms] by (simp add: SQUE_Pop_def)
  next
    case (Cons p qs)
    then show ?thesis
      using assms by (cases qs) (auto simp: SQUE_Pop_def sque_rep_def Let_def)
  qed
qed

section \<open>The queue as a provider of the FIFO contract\<close>

text \<open>An element is the address of its node with the data in it.\<close>

definition sque_inv :: "('p, 'd) sque \<Rightarrow> bool" where
  "sque_inv s \<longleftrightarrow> (\<exists>ps. sque_rep s ps)"

definition sque_nodes :: "('p, 'd) sque \<Rightarrow> 'p list" where
  "sque_nodes s = (THE ps. sque_rep s ps)"

definition sque_abs :: "('p, 'd) sque \<Rightarrow> ('p \<times> 'd option) list" where
  "sque_abs s = map (\<lambda>p. (p, data s p)) (sque_nodes s)"

definition sque_enq :: "'p \<times> 'd option \<Rightarrow> ('p, 'd) sque \<Rightarrow> ('p, 'd) sque" where
  "sque_enq e s = snd (SQUE_Push (Some (fst e)) s (snd e))"

definition sque_deq :: "('p, 'd) sque \<Rightarrow> ('p \<times> 'd option) option \<times> ('p, 'd) sque" where
  "sque_deq s = (map_option (\<lambda>p. (p, fst (SQUE_Pop s))) (head s), snd (SQUE_Pop s))"

lemma sque_nodes_rep: "sque_rep s ps \<Longrightarrow> sque_nodes s = ps"
  unfolding sque_nodes_def by (rule the_equality) (auto dest: sque_rep_unique)

lemma sque_inv_nodes: "sque_inv s \<Longrightarrow> sque_rep s (sque_nodes s)"
  by (auto simp: sque_inv_def sque_nodes_rep)

interpretation sque: fifo sque_inv sque_abs "\<lambda>s e. fst e \<notin> set (sque_nodes s)" sque_enq sque_deq
proof
  fix s :: "('a, 'b) sque" and e :: "'a \<times> 'b option"
  assume inv: "sque_inv s"
  note rep = sque_inv_nodes [OF inv]
  note pop = Pop_rep [OF rep]
  have n: "sque_nodes (snd (SQUE_Pop s)) = tl (sque_nodes s)" by (rule sque_nodes_rep [OF pop(1)])
  show "sque_inv (snd (sque_deq s))" using pop(1) by (auto simp: sque_inv_def sque_deq_def)
  show "sque_abs (snd (sque_deq s)) = tl (sque_abs s)"
    by (simp add: sque_abs_def sque_deq_def n pop(2) map_tl)
  show "fst (sque_deq s) = (case sque_abs s of [] \<Rightarrow> None | a # _ \<Rightarrow> Some a)"
    using sque_rep_head [OF rep] pop(3)
    by (cases "sque_nodes s") (auto simp: sque_abs_def sque_deq_def)
  assume new: "fst e \<notin> set (sque_nodes s)"
  note push = Push_rep [OF rep new, of "snd e"]
  show "sque_inv (sque_enq e s)" using push(1) by (auto simp: sque_inv_def sque_enq_def)
  show "sque_abs (sque_enq e s) = sque_abs s @ [e]"
    using new push(2) sque_nodes_rep [OF push(1)] by (auto simp: sque_abs_def sque_enq_def)
qed

lemma sque_pop_all_rep: "sque_rep s ps \<Longrightarrow> length ps \<le> k \<Longrightarrow> sque_rep (sque_pop_all k s) []"
proof (induction k arbitrary: s ps)
  case (Suc k)
  show ?case
  proof (cases ps)
    case Nil
    then show ?thesis using Suc.prems by (simp add: SQUE_Count_def sque_rep_def)
  next
    case (Cons p qs)
    then have "SQUE_Count s \<noteq> 0" using Suc.prems(1) by (simp add: SQUE_Count_def sque_rep_def)
    then show ?thesis
      using Suc.IH [OF Pop_rep(1) [OF Suc.prems(1)]] Suc.prems(2) Cons by simp
  qed
qed simp

lemma SQUE_Final_empty: "sque_inv s \<Longrightarrow> sque_rep (SQUE_Final s) []"
  using sque_pop_all_rep [OF sque_inv_nodes, of s "length (sque_nodes s)"] sque_inv_nodes [of s]
  by (simp add: SQUE_Final_def SQUE_Count_def sque_rep_def)

section \<open>Properties\<close>

text \<open>C8: the linked queue is first in, first out: pushing a node at a fresh address appends its
  data and reports success, a pop returns the oldest data and drops it, a failed allocation
  changes nothing but returns \<open>BS_NO_MEMORY\<close>, the count is the number of elements, and
  \<open>SQUE_Final\<close> empties the queue.\<close>

theorem SQUE_fifo:
  assumes "sque_inv s" "q \<notin> set (sque_nodes s)"
  shows "fst (SQUE_Push (Some q) s d) = BS_OK \<and>
    map snd (sque_abs (snd (SQUE_Push (Some q) s d))) = map snd (sque_abs s) @ [d] \<and>
    SQUE_Push None s d = (BS_NO_MEMORY, s) \<and>
    map snd (sque_abs (snd (SQUE_Pop s))) = tl (map snd (sque_abs s)) \<and>
    fst (SQUE_Pop s) = (case map snd (sque_abs s) of [] \<Rightarrow> None | x # _ \<Rightarrow> x) \<and>
    SQUE_Count s = int (length (sque_abs s)) \<and> sque_abs (SQUE_Final s) = []"
proof -
  note rep = sque_inv_nodes [OF assms(1)]
  have "SQUE_Push None s d = (BS_NO_MEMORY, s)"
    using rep by (cases s; cases "sque_nodes s")
      (auto simp: SQUE_Push_def sque_rep_def Let_def split: option.split)
  moreover have "fst (SQUE_Pop s) = (case map snd (sque_abs s) of [] \<Rightarrow> None | x # _ \<Rightarrow> x)"
    using Pop_rep(3) [OF rep] by (cases "sque_nodes s") (auto simp: sque_abs_def)
  ultimately show ?thesis
    using sque.enq_abs [OF assms(1), of "(q, d)"] assms(2) sque.deq_abs [OF assms(1)]
      Push_rep(3) [OF rep assms(2), of d] rep sque_nodes_rep [OF SQUE_Final_empty [OF assms(1)]]
    by (simp add: sque_enq_def sque_deq_def map_tl SQUE_Count_def sque_rep_def sque_abs_def)
qed

theorem SQUE_fifo_witness:
  "map snd (sque_abs (snd (SQUE_Push (Some (1 :: nat))
     \<lparr>head = None, tail = None, count = 0, data = \<lambda>_. None, nxt = \<lambda>_. None\<rparr> (Some CHR ''x'')))) = [Some CHR ''x'']"
proof -
  let ?s = "\<lparr>head = None, tail = None, count = 0, data = \<lambda>_. None, nxt = \<lambda>_ :: nat. None\<rparr> :: (nat, char) sque"
  have r: "sque_rep ?s []" by (simp add: sque_rep_def)
  then show ?thesis
    using SQUE_fifo [of ?s 1 "Some CHR ''x''"] sque_nodes_rep [OF r]
    by (auto simp: sque_inv_def sque_abs_def)
qed

end
