(* ===== verification/HStack.thy ===== *)
theory HStack
  imports Interfaces
begin

text \<open>
  The handle stack of \<^verbatim>\<open>stack/hstack_utl.c\<close>: an array with a next index, of fixed size, or
  growing by 128 slots when it was created with size 0. What \<^verbatim>\<open>MEM_Malloc\<close> returns is the
  argument \<open>alloc\<close>: \<open>None\<close>, or a block with arbitrary contents. A handle is an \<open>option\<close>, \<open>None\<close>
  being NULL. Sizes and indices are 32-bit words.
\<close>

definition HSTACK_DFT_STEP_SIZE :: UINT where
  "HSTACK_DFT_STEP_SIZE = 128"

record 'h hstack =
  bIsDynamic :: bool
  uiStackSize :: UINT
  uiNextIndex :: UINT
  pHandleStack :: "'h option list"

definition HSTACK_Create ::
  "bool \<Rightarrow> (UINT \<Rightarrow> 'h option list option) \<Rightarrow> UINT \<Rightarrow> 'h hstack option" where
  "HSTACK_Create alloc_ctrl alloc_stack size0 =
     (if \<not> alloc_ctrl then None
      else (let size = (if size0 = 0 then HSTACK_DFT_STEP_SIZE else size0)
            in case alloc_stack size of
                 None \<Rightarrow> None
               | Some mem \<Rightarrow>
                   Some \<lparr>bIsDynamic = (size0 = 0), uiStackSize = size, uiNextIndex = 0, pHandleStack = mem\<rparr>))"

definition HSTACK_Reset :: "'h hstack \<Rightarrow> 'h hstack" where
  "HSTACK_Reset s = s\<lparr>uiNextIndex := 0\<rparr>"

definition HSTACK_GetStackSize :: "'h hstack \<Rightarrow> UINT" where
  "HSTACK_GetStackSize s = uiStackSize s"

definition HSTACK_IsDynamic :: "'h hstack \<Rightarrow> bool" where
  "HSTACK_IsDynamic s = bIsDynamic s"

definition HSTACK_GetCount :: "'h hstack \<Rightarrow> UINT" where
  "HSTACK_GetCount s = uiNextIndex s"

text \<open>
  \<open>mem\<close> is the block \<^verbatim>\<open>MEM_MallocAndCopy\<close> allocates, before the old slots are copied over its
  start.
\<close>

definition hstack_Expand :: "'h option list option \<Rightarrow> 'h hstack \<Rightarrow> UINT \<Rightarrow> bs_status \<times> 'h hstack" where
  "hstack_Expand alloc s newsize =
     (if uiStackSize s \<ge> newsize then (BS_OK, s)
      else if \<not> bIsDynamic s then (BS_FULL, s)
      else (case alloc of
              None \<Rightarrow> (BS_FULL, s)
            | Some mem \<Rightarrow>
                (let n = unat (uiStackSize s)
                 in (BS_OK, s\<lparr>pHandleStack := take n (pHandleStack s) @ drop n mem, uiStackSize := newsize\<rparr>))))"

definition HSTACK_Push :: "'h option list option \<Rightarrow> 'h hstack \<Rightarrow> 'h option \<Rightarrow> bs_status \<times> 'h hstack" where
  "HSTACK_Push alloc s h =
     (let store = (\<lambda>s'. s'\<lparr>pHandleStack := (pHandleStack s')[unat (uiNextIndex s') := h],
                           uiNextIndex := uiNextIndex s' + 1\<rparr>)
      in if uiNextIndex s \<ge> uiStackSize s then
           (case hstack_Expand alloc s (uiStackSize s + HSTACK_DFT_STEP_SIZE) of
              (BS_OK, s') \<Rightarrow> (BS_OK, store s')
            | (_, s') \<Rightarrow> (BS_FULL, s'))
         else (BS_OK, store s))"

text \<open>The result is the status with what \<^verbatim>\<open>*phUserHandle\<close> holds, were it passed.\<close>

definition HSTACK_Pop :: "'h hstack \<Rightarrow> bs_status \<times> 'h option \<times> 'h hstack" where
  "HSTACK_Pop s =
     (if uiNextIndex s = 0 then (BS_EMPTY, None, s)
      else (let s' = s\<lparr>uiNextIndex := uiNextIndex s - 1\<rparr>
            in (BS_OK, pHandleStack s' ! unat (uiNextIndex s'), s')))"

definition HSTACK_GetValueByIndex :: "'h hstack \<Rightarrow> UINT \<Rightarrow> 'h option" where
  "HSTACK_GetValueByIndex s i = (if i \<ge> uiNextIndex s then None else pHandleStack s ! unat i)"

definition HSTACK_SetValueByIndex :: "'h hstack \<Rightarrow> UINT \<Rightarrow> 'h option \<Rightarrow> bs_status \<times> 'h hstack" where
  "HSTACK_SetValueByIndex s i h =
     (if i \<ge> uiStackSize s then (BS_OUT_OF_RANGE, s)
      else (BS_OK, s\<lparr>pHandleStack := (pHandleStack s)[unat i := h]\<rparr>))"

definition HSTACK_GetTop :: "'h hstack \<Rightarrow> bs_status \<times> 'h option" where
  "HSTACK_GetTop s =
     (let n = HSTACK_GetCount s
      in if n = 0 then (BS_EMPTY, None) else (BS_OK, HSTACK_GetValueByIndex s (n - 1)))"

section \<open>The stack as a list\<close>

definition hstack_inv :: "'h hstack \<Rightarrow> bool" where
  [inv_defs]: "hstack_inv s \<longleftrightarrow>
     length (pHandleStack s) = unat (uiStackSize s) \<and> uiNextIndex s \<le> uiStackSize s \<and> uiStackSize s \<noteq> 0"

definition hstack_abs :: "'h hstack \<Rightarrow> 'h option list" where
  "hstack_abs s = rev (take (unat (uiNextIndex s)) (pHandleStack s))"

text \<open>
  A push is accepted below the size; a full dynamic stack accepts it when the size can grow
  without wrapping and \<open>alloc\<close> is a block of the new size.
\<close>

definition hstack_room :: "'h option list option \<Rightarrow> 'h hstack \<Rightarrow> bool" where
  "hstack_room alloc s \<longleftrightarrow> uiNextIndex s < uiStackSize s \<or>
     bIsDynamic s \<and> unat (uiStackSize s) + 128 < 2 ^ 32 \<and>
     (\<exists>mem. alloc = Some mem \<and> length mem = unat (uiStackSize s) + 128)"

lemma store_lemma:
  assumes "hstack_inv s" "uiNextIndex s < uiStackSize s"
    and "s' = s\<lparr>pHandleStack := (pHandleStack s)[unat (uiNextIndex s) := h], uiNextIndex := uiNextIndex s + 1\<rparr>"
  shows "hstack_inv s' \<and> hstack_abs s' = h # hstack_abs s"
proof -
  have lt: "unat (uiNextIndex s) < unat (uiStackSize s)" using assms(2) by (simp add: word_less_nat_alt)
  moreover have "unat (uiStackSize s) < 2 ^ 32" using unat_lt2p [of "uiStackSize s"] by simp
  ultimately have i: "unat (uiNextIndex s + 1) = Suc (unat (uiNextIndex s))"
    by (intro unat_Suc_word) simp
  then show ?thesis
    using lt assms by (simp add: hstack_inv_def hstack_abs_def word_le_nat_alt take_Suc_conv_app_nth)
qed

lemma Push_ok:
  assumes inv: "hstack_inv s" and room: "hstack_room alloc s"
  shows "fst (HSTACK_Push alloc s h) = BS_OK" "hstack_inv (snd (HSTACK_Push alloc s h))"
    "hstack_abs (snd (HSTACK_Push alloc s h)) = h # hstack_abs s"
proof -
  have "fst (HSTACK_Push alloc s h) = BS_OK \<and> hstack_inv (snd (HSTACK_Push alloc s h)) \<and>
    hstack_abs (snd (HSTACK_Push alloc s h)) = h # hstack_abs s"
  proof (cases "uiNextIndex s < uiStackSize s")
    case True
    then show ?thesis using store_lemma [OF inv True refl, of h]
      by (simp add: HSTACK_Push_def Let_def not_le [symmetric])
  next
    case False
    then obtain mem where m: "alloc = Some mem" "length mem = unat (uiStackSize s) + 128"
      and d: "bIsDynamic s" and sz: "unat (uiStackSize s) + 128 < 2 ^ 32"
      using room by (auto simp: hstack_room_def)
    let ?n = "unat (uiStackSize s)"
    let ?t = "s\<lparr>pHandleStack := take ?n (pHandleStack s) @ drop ?n mem, uiStackSize := uiStackSize s + 128\<rparr>"
    have u: "unat (uiStackSize s + 128) = ?n + 128"
      using sz by (simp add: unat_word_ariths)
    then have lt: "uiStackSize s < uiStackSize s + 128" by (simp add: word_less_nat_alt)
    have e: "hstack_Expand alloc s (uiStackSize s + HSTACK_DFT_STEP_SIZE) = (BS_OK, ?t)"
      using lt d m by (simp add: hstack_Expand_def HSTACK_DFT_STEP_SIZE_def Let_def)
    have t: "hstack_inv ?t" "uiNextIndex ?t < uiStackSize ?t" "hstack_abs ?t = hstack_abs s"
      using inv m u lt by (auto simp: hstack_inv_def hstack_abs_def word_le_nat_alt word_less_nat_alt)
    show ?thesis
      using store_lemma [OF t(1,2) refl, of h] t(3) False e
      by (simp add: HSTACK_Push_def Let_def not_less)
  qed
  then show "fst (HSTACK_Push alloc s h) = BS_OK" "hstack_inv (snd (HSTACK_Push alloc s h))"
    "hstack_abs (snd (HSTACK_Push alloc s h)) = h # hstack_abs s" by simp_all
qed

lemma Push_full:
  assumes "hstack_inv s" "\<not> uiNextIndex s < uiStackSize s" "\<not> bIsDynamic s \<or> alloc = None"
    and "unat (uiStackSize s) + 128 < 2 ^ 32"
  shows "HSTACK_Push alloc s h = (BS_FULL, s)"
proof -
  have "unat (uiStackSize s + 128) = unat (uiStackSize s) + 128"
    using assms(4) by (simp add: unat_word_ariths)
  then have "\<not> uiStackSize s + 128 \<le> uiStackSize s" by (simp add: word_le_nat_alt)
  then show ?thesis
    using assms by (auto simp: HSTACK_Push_def hstack_Expand_def HSTACK_DFT_STEP_SIZE_def Let_def)
qed

lemma Pop_lemma:
  assumes "hstack_inv s"
  shows "HSTACK_Pop s = (if hstack_abs s = [] then (BS_EMPTY, None, s)
    else (BS_OK, List.hd (hstack_abs s), s\<lparr>uiNextIndex := uiNextIndex s - 1\<rparr>))"
    and "hstack_inv (snd (snd (HSTACK_Pop s)))"
    and "hstack_abs (snd (snd (HSTACK_Pop s))) = List.tl (hstack_abs s)"
proof -
  have len: "unat (uiNextIndex s) \<le> length (pHandleStack s)"
    using assms by (simp add: hstack_inv_def word_le_nat_alt)
  show "HSTACK_Pop s = (if hstack_abs s = [] then (BS_EMPTY, None, s)
    else (BS_OK, List.hd (hstack_abs s), s\<lparr>uiNextIndex := uiNextIndex s - 1\<rparr>))"
    and "hstack_inv (snd (snd (HSTACK_Pop s)))"
    and "hstack_abs (snd (snd (HSTACK_Pop s))) = List.tl (hstack_abs s)"
  proof (atomize(full), cases "uiNextIndex s = 0")
    case True
    then show "HSTACK_Pop s = (if hstack_abs s = [] then (BS_EMPTY, None, s)
        else (BS_OK, List.hd (hstack_abs s), s\<lparr>uiNextIndex := uiNextIndex s - 1\<rparr>)) \<and>
      hstack_inv (snd (snd (HSTACK_Pop s))) \<and>
      hstack_abs (snd (snd (HSTACK_Pop s))) = List.tl (hstack_abs s)"
      using assms by (simp add: HSTACK_Pop_def hstack_abs_def)
  next
    case False
    define k where "k = unat (uiNextIndex s) - 1"
    have k: "unat (uiNextIndex s) = Suc k" "unat (uiNextIndex s - 1) = k"
      using False unat_dec_word [OF False] by (auto simp: k_def) (metis Suc_pred neq0_conv unat_eq_0_word)
    have t: "take (Suc k) (pHandleStack s) = take k (pHandleStack s) @ [pHandleStack s ! k]"
      using len k by (intro take_Suc_conv_app_nth) simp
    then show "HSTACK_Pop s = (if hstack_abs s = [] then (BS_EMPTY, None, s)
        else (BS_OK, List.hd (hstack_abs s), s\<lparr>uiNextIndex := uiNextIndex s - 1\<rparr>)) \<and>
      hstack_inv (snd (snd (HSTACK_Pop s))) \<and>
      hstack_abs (snd (snd (HSTACK_Pop s))) = List.tl (hstack_abs s)"
      using assms False k by (auto simp: HSTACK_Pop_def hstack_abs_def Let_def hstack_inv_def word_le_nat_alt)
  qed
qed

interpretation hstack: lifo hstack_inv hstack_abs "\<lambda>s _. hstack_room alloc s"
  "\<lambda>h s. snd (HSTACK_Push alloc s h)"
  "\<lambda>s. (if fst (HSTACK_Pop s) = BS_OK then Some (fst (snd (HSTACK_Pop s))) else None, snd (snd (HSTACK_Pop s)))"
  for alloc :: "'h option list option"
proof
  fix s :: "'h hstack" and h
  assume inv: "hstack_inv s"
  show "hstack_inv (snd (HSTACK_Push alloc s h))" if "hstack_room alloc s" using Push_ok [OF inv that] by simp
  show "hstack_abs (snd (HSTACK_Push alloc s h)) = h # hstack_abs s" if "hstack_room alloc s"
    using Push_ok [OF inv that] by simp
  show "hstack_inv (snd (if fst (HSTACK_Pop s) = BS_OK then Some (fst (snd (HSTACK_Pop s))) else None,
      snd (snd (HSTACK_Pop s))))" using Pop_lemma(2) [OF inv] by simp
  show "hstack_abs (snd (if fst (HSTACK_Pop s) = BS_OK then Some (fst (snd (HSTACK_Pop s))) else None,
      snd (snd (HSTACK_Pop s)))) = List.tl (hstack_abs s)" using Pop_lemma(3) [OF inv] by simp
  show "fst (if fst (HSTACK_Pop s) = BS_OK then Some (fst (snd (HSTACK_Pop s))) else None,
      snd (snd (HSTACK_Pop s))) = (case hstack_abs s of [] \<Rightarrow> None | a # _ \<Rightarrow> Some a)"
    using Pop_lemma(1) [OF inv] by (cases "hstack_abs s") auto
qed

section \<open>Properties\<close>

text \<open>A push that finds or makes room succeeds, also across a growth of the array, and a pop
  right after it returns the pushed handle and leaves the stack as it was; a full stack of fixed
  size, or one whose growth fails, refuses the push with \<open>BS_FULL\<close> and is unchanged. \<open>HSTACK_GetTop\<close>
  reads what \<open>HSTACK_Pop\<close> would return.\<close>

theorem HSTACK_lifo:
  assumes "hstack_inv s" "unat (uiStackSize s) + 128 < 2 ^ 32"
  shows "(hstack_room alloc s \<longrightarrow>
      fst (HSTACK_Push alloc s h) = BS_OK \<and> hstack_inv (snd (HSTACK_Push alloc s h)) \<and>
      fst (HSTACK_Pop (snd (HSTACK_Push alloc s h))) = BS_OK \<and>
      fst (snd (HSTACK_Pop (snd (HSTACK_Push alloc s h)))) = h \<and>
      hstack_abs (snd (snd (HSTACK_Pop (snd (HSTACK_Push alloc s h))))) = hstack_abs s \<and>
      HSTACK_GetTop (snd (HSTACK_Push alloc s h)) = (BS_OK, h)) \<and>
    (\<not> uiNextIndex s < uiStackSize s \<and> (\<not> bIsDynamic s \<or> alloc = None) \<longrightarrow>
      HSTACK_Push alloc s h = (BS_FULL, s))"
proof (intro conjI impI)
  assume room: "hstack_room alloc s"
  let ?t = "snd (HSTACK_Push alloc s h)"
  note p = Push_ok [OF assms(1) room, of h] and l = Pop_lemma [OF Push_ok(2) [OF assms(1) room, of h]]
  show "fst (HSTACK_Push alloc s h) = BS_OK" "hstack_inv ?t" using p by simp_all
  show "fst (HSTACK_Pop ?t) = BS_OK" "fst (snd (HSTACK_Pop ?t)) = h"
    "hstack_abs (snd (snd (HSTACK_Pop ?t))) = hstack_abs s" using l p(3) by simp_all
  have "uiNextIndex ?t \<noteq> 0" using p(3) by (auto simp: hstack_abs_def)
  moreover have "0 < unat (uiNextIndex ?t)" using calculation by (metis neq0_conv unat_eq_0_word)
  then have "\<not> uiNextIndex ?t \<le> uiNextIndex ?t - 1"
    using unat_dec_word [OF calculation] by (simp add: word_le_nat_alt)
  moreover have "pHandleStack ?t ! unat (uiNextIndex ?t - 1) = h"
    using l(1) p(3) calculation(1) by (simp add: HSTACK_Pop_def Let_def split: if_splits)
  ultimately show "HSTACK_GetTop ?t = (BS_OK, h)"
    by (simp add: HSTACK_GetTop_def HSTACK_GetCount_def HSTACK_GetValueByIndex_def Let_def)
next
  assume "\<not> uiNextIndex s < uiStackSize s \<and> (\<not> bIsDynamic s \<or> alloc = None)"
  then show "HSTACK_Push alloc s h = (BS_FULL, s)" using Push_full [OF assms(1)] assms(2) by simp
qed

end
