(* ===== verification/Net.thy ===== *)
theory Net
  imports Prelude
begin

text \<open>
  IPv4 prefixes: the mask functions of \<^verbatim>\<open>h/utl/net.h\<close>, and the number of the block of addresses
  an address lies in at a given prefix length, in which the longest-prefix-match proofs are
  carried out.
\<close>

definition PREFIX_2_COUNT :: "nat \<Rightarrow> nat" where
  "PREFIX_2_COUNT depth = 2 ^ depth"

definition PREFIX_2_MASK :: "nat \<Rightarrow> UINT" where
  "PREFIX_2_MASK n = (if n = 32 then 0xffffffff else NOT (drop_bit n 0xFFFFFFFF))"

definition PREFIX_2_CAPACITY :: "nat \<Rightarrow> UINT" where
  "PREFIX_2_CAPACITY n = push_bit (32 - n) 1"

text \<open>The loop of \<^verbatim>\<open>MASK_2_PREFIX\<close>, from bit \<open>i\<close>.\<close>

fun mask_scan :: "nat \<Rightarrow> nat \<Rightarrow> UINT \<Rightarrow> nat" where
  "mask_scan 0 i m = 32"
| "mask_scan (Suc k) i m = (if m AND push_bit (31 - i) 1 = 0 then i else mask_scan k (Suc i) m)"

definition MASK_2_PREFIX :: "UINT \<Rightarrow> nat" where
  "MASK_2_PREFIX m = mask_scan 32 0 m"

definition MASK_IS_VALID :: "UINT \<Rightarrow> bool" where
  "MASK_IS_VALID m \<longleftrightarrow> m = PREFIX_2_MASK (MASK_2_PREFIX m)"

definition IpMask_2_Range :: "UINT \<Rightarrow> UINT \<Rightarrow> UINT \<times> UINT" where
  "IpMask_2_Range ip m = (ip AND m, ip OR NOT m)"

definition IP_IsSubNetEdge :: "UINT \<Rightarrow> UINT \<Rightarrow> bool" where
  "IP_IsSubNetEdge ip m = (if ip AND m = ip then True else if ip OR NOT m = ip then True else False)"

definition SubNet_2_Mask :: "UINT \<Rightarrow> UINT \<Rightarrow> UINT" where
  "SubNet_2_Mask s e = NOT (s XOR e)"

definition IP_IsSubNetEdge2 :: "UINT \<Rightarrow> UINT \<Rightarrow> bool" where
  "IP_IsSubNetEdge2 s e = MASK_IS_VALID (SubNet_2_Mask s e)"

text \<open>The loop of \<^verbatim>\<open>IP_GetMiniMask\<close>, from prefix length \<open>n\<close> down to 1.\<close>

fun mini_mask_scan :: "nat \<Rightarrow> UINT \<Rightarrow> UINT \<Rightarrow> UINT" where
  "mini_mask_scan 0 s e = 0"
| "mini_mask_scan (Suc n) s e =
     (let m = PREFIX_2_MASK (Suc n) in if s AND m = e AND m then m else mini_mask_scan n s e)"

definition IP_GetMiniMask :: "UINT \<Rightarrow> UINT \<Rightarrow> UINT" where
  "IP_GetMiniMask s e = mini_mask_scan 31 s e"

text \<open>The loop of \<^verbatim>\<open>Range_GetFirstMask\<close>: \<open>k\<close> iterations are left, the next prefix length is
  \<open>33 - k\<close>, and \<open>m\<close> is the mask of the last one.\<close>

fun first_mask_scan :: "nat \<Rightarrow> UINT \<Rightarrow> UINT \<Rightarrow> UINT \<Rightarrow> UINT" where
  "first_mask_scan 0 m b e = m"
| "first_mask_scan (Suc k) m b e =
     (let m' = PREFIX_2_MASK (32 - k); (s, t) = IpMask_2_Range b m'
      in if s \<ge> b \<and> t \<le> e then m' else first_mask_scan k m' b e)"

definition Range_GetFirstMask :: "UINT \<Rightarrow> UINT \<Rightarrow> UINT" where
  "Range_GetFirstMask b e = first_mask_scan 33 0 b e"

section \<open>Blocks\<close>

definition pfx :: "nat \<Rightarrow> UINT \<Rightarrow> nat" where
  "pfx k ip = unat ip div 2 ^ (32 - k)"

lemma bit_all_ones: "bit (0xffffffff :: UINT) i \<longleftrightarrow> i < 32"
proof -
  have "(0xffffffff :: UINT) = - 1" by simp
  then have "bit (0xffffffff :: UINT) i = bit (- 1 :: UINT) i" by (rule arg_cong)
  also have "\<dots> \<longleftrightarrow> i < 32" by (simp only: bit_minus_1_iff possible_bit_word) simp
  finally show ?thesis .
qed

lemma bit_PREFIX_2_MASK:
  assumes "k \<le> 32"
  shows "bit (PREFIX_2_MASK k) i \<longleftrightarrow> 32 - k \<le> i \<and> i < 32"
proof (cases "k = 32")
  case True
  have "PREFIX_2_MASK k = 0xffffffff" by (simp only: PREFIX_2_MASK_def True refl if_True)
  then have "bit (PREFIX_2_MASK k) i \<longleftrightarrow> i < 32" by (simp only: bit_all_ones)
  then show ?thesis using True by simp
next
  case False
  then have "PREFIX_2_MASK k = NOT (drop_bit k 0xffffffff)" by (simp only: PREFIX_2_MASK_def if_False)
  then have "bit (PREFIX_2_MASK k) i \<longleftrightarrow> i < 32 \<and> \<not> k + i < 32"
    by (simp only: bit_not_iff bit_drop_bit_eq comp_def bit_all_ones possible_bit_word) simp
  then show ?thesis using assms by auto
qed

lemma and_mask_eq: "k \<le> 32 \<Longrightarrow> a AND PREFIX_2_MASK k = push_bit (32 - k) (drop_bit (32 - k) a)"
  by (rule bit_word_eqI) (auto simp: bit_simps bit_PREFIX_2_MASK)

lemma and_not_mask_eq: "k \<le> 32 \<Longrightarrow> a AND NOT (PREFIX_2_MASK k) = take_bit (32 - k) a"
  by (rule bit_word_eqI) (auto simp: bit_simps bit_PREFIX_2_MASK)

lemma pfx_drop_bit: "pfx k ip = unat (drop_bit (32 - k) ip)"
  by (simp add: pfx_def unat_drop_bit_eq) (simp add: drop_bit_eq_div)

lemma and_mask_pfx: "k \<le> 32 \<Longrightarrow> a AND PREFIX_2_MASK k = b AND PREFIX_2_MASK k \<longleftrightarrow> pfx k a = pfx k b"
proof -
  assume k: "k \<le> 32"
  have "drop_bit (32 - k) (a AND PREFIX_2_MASK k) = drop_bit (32 - k) a" for a :: UINT
    using k by (intro bit_word_eqI) (auto simp: bit_simps bit_PREFIX_2_MASK dest: bit_imp_le_length)
  then show ?thesis
    using k by (metis and_mask_eq pfx_drop_bit word_unat_eq_iff)
qed

lemma pfx_up: "j \<le> k \<Longrightarrow> k \<le> 32 \<Longrightarrow> pfx j ip = pfx k ip div 2 ^ (k - j)"
  by (simp add: pfx_def div_mult2_eq [symmetric] power_add [symmetric])

lemma pfx_0 [simp]: "pfx 0 ip = 0"
  using unat_lt2p [of ip] by (simp add: pfx_def)

lemma pfx_32 [simp]: "pfx 32 ip = unat ip"
  by (simp add: pfx_def)

lemma pfx_mask: "d \<le> k \<Longrightarrow> k \<le> 32 \<Longrightarrow> p = ip AND PREFIX_2_MASK d \<Longrightarrow> pfx k p = pfx d p * 2 ^ (k - d)"
proof -
  assume d: "d \<le> k" "k \<le> 32" "p = ip AND PREFIX_2_MASK d"
  have "drop_bit (32 - k) p = push_bit (k - d) (drop_bit (32 - d) p)"
    using d by (intro bit_word_eqI) (auto simp: bit_simps bit_PREFIX_2_MASK dest: bit_imp_le_length)
  moreover have "unat (push_bit (k - d) (drop_bit (32 - d) p)) = pfx d p * 2 ^ (k - d)"
  proof -
    have "pfx d p < 2 ^ d"
      using unat_lt2p [of p] d by (simp add: pfx_def less_mult_imp_div_less flip: power_add)
    then have "pfx d p * 2 ^ (k - d) < 2 ^ d * 2 ^ (k - d)" by simp
    also have "\<dots> = 2 ^ k" using d by (simp flip: power_add)
    also have "\<dots> \<le> 2 ^ 32" using d by (intro power_increasing) auto
    finally show ?thesis
      by (simp add: unsigned_push_bit_eq flip: pfx_drop_bit) (simp add: push_bit_eq_mult take_bit_eq_mod)
  qed
  ultimately show ?thesis by (simp add: pfx_drop_bit)
qed

text \<open>A block is the interval from its first address to its last.\<close>

lemma unat_and_mask: "k \<le> 32 \<Longrightarrow> unat (ip AND PREFIX_2_MASK k) = pfx k ip * 2 ^ (32 - k)"
  using pfx_mask [of k 32 "ip AND PREFIX_2_MASK k" ip] and_mask_pfx [of k "ip AND PREFIX_2_MASK k" ip]
  by simp

lemma unat_or_not_mask:
  assumes "k \<le> 32"
  shows "unat (ip OR NOT (PREFIX_2_MASK k)) = pfx k ip * 2 ^ (32 - k) + (2 ^ (32 - k) - 1)"
proof -
  have "ip OR NOT (PREFIX_2_MASK k) = (ip AND PREFIX_2_MASK k) OR NOT (PREFIX_2_MASK k)"
    by (rule bit_word_eqI) (auto simp: bit_simps)
  also have "\<dots> = (ip AND PREFIX_2_MASK k) + NOT (PREFIX_2_MASK k)"
    by (rule disjunctive_add_eq_or [symmetric]) (auto simp: bit_eq_iff bit_simps)
  finally have e: "ip OR NOT (PREFIX_2_MASK k) = (ip AND PREFIX_2_MASK k) + NOT (PREFIX_2_MASK k)" .
  have n: "unat (NOT (PREFIX_2_MASK k)) = 2 ^ (32 - k) - 1"
  proof -
    have "NOT (PREFIX_2_MASK k) = take_bit (32 - k) (- 1)"
      using and_not_mask_eq [OF assms, of "- 1"] by simp
    then have "unat (NOT (PREFIX_2_MASK k)) = take_bit (32 - k) (unat (- 1 :: UINT))"
      by (simp only: unsigned_take_bit_eq)
    also have "\<dots> = mask (min (32 - k) 32)"
      unfolding unsigned_minus_1_eq_mask by (simp only: take_bit_of_mask) simp
    finally have "unat (NOT (PREFIX_2_MASK k)) = mask (32 - k)" by (simp add: min_def)
    then show ?thesis by (simp add: mask_eq_exp_minus_1)
  qed
  have "pfx k ip < 2 ^ k"
    using unat_lt2p [of ip] assms by (simp add: pfx_def less_mult_imp_div_less flip: power_add)
  then have "Suc (pfx k ip) * 2 ^ (32 - k) \<le> 2 ^ k * 2 ^ (32 - k)" by (intro mult_right_mono) auto
  then have "pfx k ip * 2 ^ (32 - k) + 2 ^ (32 - k) \<le> 2 ^ 32" using assms by (simp flip: power_add)
  moreover have "(0 :: nat) < 2 ^ (32 - k)" by simp
  ultimately have "unat (ip AND PREFIX_2_MASK k) + unat (NOT (PREFIX_2_MASK k)) < 2 ^ 32"
    unfolding unat_and_mask [OF assms] n by linarith
  then show ?thesis
    unfolding e using unat_add_word [of "ip AND PREFIX_2_MASK k" "NOT (PREFIX_2_MASK k)"]
    by (simp add: unat_and_mask [OF assms] n)
qed

lemma in_block:
  assumes "k \<le> 32"
  shows "ip AND PREFIX_2_MASK k \<le> x \<and> x \<le> ip OR NOT (PREFIX_2_MASK k) \<longleftrightarrow> pfx k x = pfx k ip"
proof -
  let ?n = "(2 :: nat) ^ (32 - k)"
  have "unat x div ?n = q \<longleftrightarrow> q * ?n \<le> unat x \<and> unat x \<le> q * ?n + (?n - 1)" for q
  proof -
    have n: "0 < ?n" by simp
    have "unat x div ?n = q \<longleftrightarrow> q \<le> unat x div ?n \<and> unat x div ?n < Suc q" by auto
    also have "\<dots> \<longleftrightarrow> q * ?n \<le> unat x \<and> unat x < Suc q * ?n"
      by (simp only: less_eq_div_iff_mult_less_eq [OF n] div_less_iff_less_mult [OF n])
    finally show ?thesis using n by (cases ?n) auto
  qed
  then show ?thesis
    unfolding word_le_nat_alt unat_and_mask [OF assms] unat_or_not_mask [OF assms]
    by (simp add: pfx_def)
qed

lemma mask_scan_Suc:
  "mask_scan (Suc k) i m = (if bit m (31 - i) then mask_scan k (Suc i) m else i)"
  by (simp only: mask_scan.simps bit_iff_and_push_bit_not_eq_0 if_not_P simp_thms split: if_split) blast

lemma mask_scan_spec:
  "i + k = 32 \<Longrightarrow> i \<le> mask_scan k i m \<and> mask_scan k i m \<le> 32 \<and>
     (\<forall>j. i \<le> j \<and> j < mask_scan k i m \<longrightarrow> bit m (31 - j)) \<and>
     (mask_scan k i m < 32 \<longrightarrow> \<not> bit m (31 - mask_scan k i m))"
proof (induction k arbitrary: i)
  case 0
  then show ?case by auto
next
  case (Suc k)
  show ?case
  proof (cases "bit m (31 - i)")
    case False
    then show ?thesis using Suc.prems by (auto simp: mask_scan_Suc simp del: mask_scan.simps)
  next
    case True
    have "bit m (31 - j)" if "i \<le> j" "j < mask_scan k (Suc i) m" for j
      using that True Suc.IH [of "Suc i"] Suc.prems by (cases "j = i") auto
    then show ?thesis using True Suc.IH [of "Suc i"] Suc.prems by (auto simp: mask_scan_Suc simp del: mask_scan.simps)
  qed
qed

lemma MASK_2_PREFIX_spec:
  "MASK_2_PREFIX m \<le> 32" "j < MASK_2_PREFIX m \<Longrightarrow> bit m (31 - j)"
  "MASK_2_PREFIX m < 32 \<Longrightarrow> \<not> bit m (31 - MASK_2_PREFIX m)"
  using mask_scan_spec [of 0 32 m] by (auto simp: MASK_2_PREFIX_def)

lemma MASK_2_PREFIX_MASK:
  assumes "k \<le> 32"
  shows "MASK_2_PREFIX (PREFIX_2_MASK k) = k"
proof -
  let ?n = "MASK_2_PREFIX (PREFIX_2_MASK k)"
  note spec = MASK_2_PREFIX_spec [where m = "PREFIX_2_MASK k"]
  have False if "?n < k" using spec(3) that assms by (auto simp: bit_PREFIX_2_MASK)
  moreover have False if "k < ?n" using spec(1) spec(2) [OF that] that assms by (auto simp: bit_PREFIX_2_MASK)
  ultimately show ?thesis by fastforce
qed

lemma first_mask_scan_spec:
  assumes "b \<le> e" "n \<le> 32"
  shows "\<exists>k\<ge>32 - n. k \<le> 32 \<and> first_mask_scan (Suc n) m b e = PREFIX_2_MASK k \<and>
    b AND PREFIX_2_MASK k = b \<and> b OR NOT (PREFIX_2_MASK k) \<le> e \<and>
    (\<forall>j. 32 - n \<le> j \<and> j < k \<longrightarrow> \<not> (b AND PREFIX_2_MASK j = b \<and> b OR NOT (PREFIX_2_MASK j) \<le> e))"
  using assms(2)
proof (induction n arbitrary: m)
  case 0
  have "b AND PREFIX_2_MASK 32 = b" "b OR NOT (PREFIX_2_MASK 32) = b"
    by (rule bit_word_eqI; simp add: bit_simps bit_PREFIX_2_MASK)+
  moreover have "first_mask_scan (Suc 0) m b e = PREFIX_2_MASK 32" by (simp add: Let_def split: prod.split)
  ultimately show ?case using assms(1) by (intro exI [of _ 32]) auto
next
  case (Suc n)
  let ?k = "32 - Suc n"
  have ge: "b \<le> b AND PREFIX_2_MASK ?k \<longleftrightarrow> b AND PREFIX_2_MASK ?k = b"
    using word_and_le2 [of b "PREFIX_2_MASK ?k"] by (auto intro: order.antisym)
  show ?case
  proof (cases "b \<le> b AND PREFIX_2_MASK ?k \<and> b OR NOT (PREFIX_2_MASK ?k) \<le> e")
    case True
    then show ?thesis
      using ge by (intro exI [of _ ?k]) (auto simp: IpMask_2_Range_def Let_def)
  next
    case False
    obtain k where k: "32 - n \<le> k" "k \<le> 32"
      "first_mask_scan (Suc n) (PREFIX_2_MASK ?k) b e = PREFIX_2_MASK k"
      "b AND PREFIX_2_MASK k = b" "b OR NOT (PREFIX_2_MASK k) \<le> e"
      "\<forall>j. 32 - n \<le> j \<and> j < k \<longrightarrow> \<not> (b AND PREFIX_2_MASK j = b \<and> b OR NOT (PREFIX_2_MASK j) \<le> e)"
      using Suc.IH [of "PREFIX_2_MASK ?k"] Suc.prems by auto
    have "first_mask_scan (Suc (Suc n)) m b e = first_mask_scan (Suc n) (PREFIX_2_MASK ?k) b e"
      using False by (subst first_mask_scan.simps(2)) (simp only: IpMask_2_Range_def Let_def prod.case if_False)
    moreover have "\<not> (b AND PREFIX_2_MASK j = b \<and> b OR NOT (PREFIX_2_MASK j) \<le> e)"
      if "?k \<le> j" "j < k" for j
      using k(6) False ge that by (cases "j = ?k") auto
    ultimately show ?thesis using k Suc.prems by (intro exI [of _ k]) auto
  qed
qed

section \<open>Properties\<close>

text \<open>C9: prefix lengths and masks convert into each other, the valid masks are exactly the
  converted prefix lengths, and the range of a masked address is the set of the addresses with
  its prefix.\<close>

theorem prefix_mask_roundtrip:
  assumes "k \<le> 32"
  shows "MASK_2_PREFIX (PREFIX_2_MASK k) = k \<and>
    (MASK_IS_VALID m \<longleftrightarrow> m \<in> PREFIX_2_MASK ` {0..32}) \<and>
    (fst (IpMask_2_Range ip (PREFIX_2_MASK k)) \<le> x \<and> x \<le> snd (IpMask_2_Range ip (PREFIX_2_MASK k)) \<longleftrightarrow>
       x AND PREFIX_2_MASK k = ip AND PREFIX_2_MASK k)"
  using MASK_2_PREFIX_MASK [OF assms] MASK_2_PREFIX_spec(1) [of m] in_block [OF assms, of ip x]
    and_mask_pfx [OF assms, of x ip]
  by (auto simp: MASK_IS_VALID_def IpMask_2_Range_def MASK_2_PREFIX_MASK)

theorem prefix_mask_roundtrip_witness:
  "MASK_2_PREFIX (PREFIX_2_MASK 24) = 24 \<and> (MASK_IS_VALID 0 \<longleftrightarrow> 0 \<in> PREFIX_2_MASK ` {0..32})"
  using prefix_mask_roundtrip [of 24 0] by simp

text \<open>\<open>Range_GetFirstMask\<close> returns the mask of the shortest prefix whose block starts at the
  first address of a range and ends inside it.\<close>

theorem Range_GetFirstMask_correct:
  assumes "b \<le> e"
  shows "\<exists>k\<le>32. Range_GetFirstMask b e = PREFIX_2_MASK k \<and>
    IpMask_2_Range b (PREFIX_2_MASK k) = (b, b OR NOT (PREFIX_2_MASK k)) \<and>
    b OR NOT (PREFIX_2_MASK k) \<le> e \<and>
    (\<forall>j<k. \<not> (b AND PREFIX_2_MASK j = b \<and> b OR NOT (PREFIX_2_MASK j) \<le> e))"
  using first_mask_scan_spec [OF assms, of 32 0]
  by (auto simp: Range_GetFirstMask_def IpMask_2_Range_def eval_nat_numeral
      simp del: first_mask_scan.simps)

end
