(* ===== verification/DLpm.thy ===== *)
theory DLpm
  imports Net
begin

text \<open>
  The dynamic longest-prefix-match trie of \<^verbatim>\<open>fib/lpm64b_dynamic.c\<close>. A table of level \<open>l\<close> has
  \<open>2 ^ bit_num[l]\<close> entries; an entry is free, invalid, valid with the depth and next hop of
  the route it answers for, or a group, whose \<open>nexthop\<close> field points to the table of the next
  level. Every table has one referrer, so the pointers are the tree they form.

  The functions recurse on the list of \<open>bit_num\<close> from the current level on, with the sum of
  the levels before it (the code sums them in a loop at every call). \<^verbatim>\<open>MemCap_ZMalloc\<close> answers
  from a script of outcomes and succeeds when the script is over.
\<close>

section \<open>Tables and operations\<close>

datatype lpm_state = FREE_ST | INVALID_ST | VALID_ST

datatype lpm_entry =
    Leaf lpm_state nat UINT64
  | Group "lpm_entry list"

definition entry_index :: "nat \<Rightarrow> nat \<Rightarrow> UINT \<Rightarrow> nat" where
  "entry_index up ld ip = unat (drop_bit (32 - ld) (ip AND NOT (PREFIX_2_MASK up)))"

text \<open>\<open>n1\<close> is \<open>bit_num[1]\<close>, which the code uses for the table of every level but the first.\<close>

definition dlpm64b_alloc_entry :: "nat \<Rightarrow> bool list \<Rightarrow> lpm_entry list option \<times> bool list" where
  "dlpm64b_alloc_entry n1 al =
     (case mem_ask al of
        (False, al') \<Rightarrow> (None, al')
      | (True, al') \<Rightarrow> (Some ((replicate (2 ^ n1) (Leaf FREE_ST 0 0))[0 := Leaf INVALID_ST 0 0]), al'))"

text \<open>
  The loop over the entries a prefix covers: a leaf goes through \<open>upd\<close>, a group is handed to the
  recursive call, which may stop the loop.
\<close>

fun entry_loop ::
  "(nat \<Rightarrow> lpm_state \<Rightarrow> UINT64 \<Rightarrow> lpm_entry) \<Rightarrow>
   (lpm_entry list \<Rightarrow> bool list \<Rightarrow> bs_status \<times> lpm_entry list \<times> bool list) \<Rightarrow>
   nat list \<Rightarrow> lpm_entry list \<Rightarrow> bool list \<Rightarrow> bs_status \<times> lpm_entry list \<times> bool list" where
  "entry_loop upd rec [] es al = (BS_OK, es, al)"
| "entry_loop upd rec (i # is) es al =
     (case es ! i of
        Leaf st d nh \<Rightarrow> entry_loop upd rec is (es[i := upd d st nh]) al
      | Group sub \<Rightarrow>
          (case rec sub al of
             (ret, sub', al') \<Rightarrow>
               if ret \<noteq> BS_OK then (ret, es[i := Group sub'], al')
               else entry_loop upd rec is (es[i := Group sub']) al'))"

definition add_upd :: "nat \<Rightarrow> UINT64 \<Rightarrow> nat \<Rightarrow> lpm_state \<Rightarrow> UINT64 \<Rightarrow> lpm_entry" where
  "add_upd depth nexthop d st nh = (if d \<le> depth then Leaf VALID_ST depth nexthop else Leaf st d nh)"

fun dlpm64b_add_inner ::
  "nat \<Rightarrow> nat list \<Rightarrow> nat \<Rightarrow> lpm_entry list \<Rightarrow> UINT \<Rightarrow> nat \<Rightarrow> UINT64 \<Rightarrow> bool list \<Rightarrow>
   bs_status \<times> lpm_entry list \<times> bool list" where
  "dlpm64b_add_inner n1 [] up es ip depth nexthop al = (BS_ERR, es, al)"
| "dlpm64b_add_inner n1 (b # bs) up es ip depth nexthop al =
     (let ld = up + b;
          index = entry_index up ld ip
      in if depth > ld then
           (case es ! index of
              Group sub \<Rightarrow>
                (case dlpm64b_add_inner n1 bs ld sub ip depth nexthop al of
                   (ret, sub', al') \<Rightarrow> (ret, es[index := Group sub'], al'))
            | Leaf st d nh \<Rightarrow>
                (case dlpm64b_alloc_entry n1 al of
                   (None, al') \<Rightarrow> (BS_ERR, es, al')
                 | (Some next0, al') \<Rightarrow>
                     (let num = 2 ^ (case bs of [] \<Rightarrow> 0 | b' # _ \<Rightarrow> b');
                          next = (if st = VALID_ST then replicate num (Leaf VALID_ST d nh) @ drop num next0
                                  else next0)
                      in case dlpm64b_add_inner n1 bs ld next ip depth nexthop al' of
                           (ret, sub', al'') \<Rightarrow> (ret, es[index := Group sub'], al''))))
         else
           (let num = min (2 ^ (ld - depth)) (2 ^ b)
            in entry_loop (add_upd depth nexthop)
                 (\<lambda>sub al. dlpm64b_add_inner n1 bs ld sub ip depth nexthop al)
                 [index..<index + num] es al))"

definition dlpm64b_can_recycle :: "nat \<Rightarrow> nat \<Rightarrow> lpm_entry list \<Rightarrow> lpm_state \<Rightarrow> bool" where
  "dlpm64b_can_recycle b up es to_state \<longleftrightarrow>
     (\<forall>i\<in>set [0..<2 ^ b]. case es ! i of
        Group _ \<Rightarrow> False
      | Leaf st d nh \<Rightarrow> \<not> d > up \<and> \<not> (to_state = INVALID_ST \<and> st = VALID_ST))"

definition del_upd :: "nat \<Rightarrow> lpm_state \<Rightarrow> nat \<Rightarrow> UINT64 \<Rightarrow> nat \<Rightarrow> lpm_state \<Rightarrow> UINT64 \<Rightarrow> lpm_entry" where
  "del_upd depth state new_depth new_nexthop d st nh =
     (if d \<le> depth then Leaf state new_depth new_nexthop else Leaf st d nh)"

fun dlpm64b_del_inner ::
  "nat list \<Rightarrow> nat \<Rightarrow> lpm_entry list \<Rightarrow> UINT \<Rightarrow> nat \<Rightarrow> nat \<Rightarrow> UINT64 \<Rightarrow> lpm_entry list" where
  "dlpm64b_del_inner [] up es ip depth new_depth new_nexthop = es"
| "dlpm64b_del_inner (b # bs) up es ip depth new_depth new_nexthop =
     (let state = (if new_depth = 0 \<and> new_nexthop = 0 then INVALID_ST else VALID_ST);
          ld = up + b;
          index = entry_index up ld ip
      in if depth > ld then
           (case es ! index of
              Leaf st d nh \<Rightarrow> es
            | Group sub \<Rightarrow>
                (let sub' = dlpm64b_del_inner bs ld sub ip depth new_depth new_nexthop
                 in if dlpm64b_can_recycle (case bs of [] \<Rightarrow> 0 | b' # _ \<Rightarrow> b') ld sub' state
                    then es[index := Leaf state new_depth new_nexthop]
                    else es[index := Group sub']))
         else
           (let num = min (2 ^ (ld - depth)) (2 ^ b)
            in fst (snd (entry_loop (del_upd depth state new_depth new_nexthop)
                 (\<lambda>sub al. (BS_OK, dlpm64b_del_inner bs ld sub ip depth new_depth new_nexthop, al))
                 [index..<index + num] es []))))"

fun dlpm64b_lookup_inner :: "nat list \<Rightarrow> nat \<Rightarrow> lpm_entry list \<Rightarrow> UINT \<Rightarrow> UINT64 option" where
  "dlpm64b_lookup_inner [] start_bit es ip = None"
| "dlpm64b_lookup_inner (b # bs) start_bit es ip =
     (let stop_bit = start_bit + b
      in case es ! entry_index start_bit stop_bit ip of
           Leaf VALID_ST d nh \<Rightarrow> Some nh
         | Group sub \<Rightarrow> dlpm64b_lookup_inner bs stop_bit sub ip
         | Leaf _ d nh \<Rightarrow> None)"

text \<open>The walk hands every valid entry to the callback, which may stop it with a negative value.\<close>

fun walk_loop ::
  "(nat \<Rightarrow> UINT \<Rightarrow> lpm_entry \<Rightarrow> 's \<Rightarrow> int \<times> 's) \<Rightarrow> UINT \<Rightarrow> nat \<Rightarrow> nat \<Rightarrow> UINT \<Rightarrow> lpm_entry list \<Rightarrow> 's \<Rightarrow> int \<times> 's"
where
  "walk_loop f up_mask down i ip [] s = (0, s)"
| "walk_loop f up_mask down i ip (e # es) s =
     (let ip' = (ip AND up_mask) OR push_bit down (of_nat i)
      in case f i ip' e s of
           (ret, s') \<Rightarrow> if ret < 0 then (ret, s') else walk_loop f up_mask down (Suc i) ip' es s')"

fun dlpm64b_walk_inner ::
  "nat list \<Rightarrow> nat \<Rightarrow> lpm_entry list \<Rightarrow> UINT \<Rightarrow> (UINT \<Rightarrow> nat \<Rightarrow> UINT64 \<Rightarrow> 's \<Rightarrow> int \<times> 's) \<Rightarrow> 's \<Rightarrow> int \<times> 's" where
  "dlpm64b_walk_inner [] up es ip cb s = (0, s)"
| "dlpm64b_walk_inner (b # bs) up es ip cb s =
     (let ld = up + b
      in walk_loop
           (\<lambda>i ip' e s. case e of
              Group sub \<Rightarrow> dlpm64b_walk_inner bs ld sub ip' cb s
            | Leaf st d nh \<Rightarrow> if st = VALID_ST then cb ip' d nh s else (0, s))
           (PREFIX_2_MASK up) (32 - ld) 0 ip (take (2 ^ b) es) s)"

text \<open>\<^verbatim>\<open>dlpm64b_freeall\<close>, as the number of tables it frees.\<close>

fun dlpm64b_freeall :: "nat list \<Rightarrow> lpm_entry list \<Rightarrow> nat" where
  "dlpm64b_freeall [] es = 1"
| "dlpm64b_freeall (b # bs) es =
     sum_list (map (\<lambda>e. case e of Group sub \<Rightarrow> dlpm64b_freeall bs sub | Leaf _ _ _ \<Rightarrow> 0) (take (2 ^ b) es)) + 1"

section \<open>What a trie answers\<close>

text \<open>
  A match function gives every address the depth and next hop of its best route. \<open>entry_ok M bs ld m e\<close>: the
  entry \<open>e\<close>, with the tables below it, answers for the block \<open>m\<close> of the addresses that share
  their first \<open>ld\<close> bits as \<open>M\<close> says.
\<close>

type_synonym match = "UINT \<Rightarrow> (nat \<times> UINT64) option"

definition match_depth :: "(nat \<times> UINT64) option \<Rightarrow> nat" where
  "match_depth r = (case r of None \<Rightarrow> 0 | Some (d, _) \<Rightarrow> d)"

definition leaf_val :: "lpm_state \<Rightarrow> nat \<Rightarrow> UINT64 \<Rightarrow> (nat \<times> UINT64) option" where
  "leaf_val st d nh = (if st = VALID_ST then Some (d, nh) else None)"

fun entry_ok :: "match \<Rightarrow> nat list \<Rightarrow> nat \<Rightarrow> nat \<Rightarrow> lpm_entry \<Rightarrow> bool" where
  "entry_ok M bs ld m (Leaf st d nh) \<longleftrightarrow>
     d \<le> ld \<and> (st \<noteq> VALID_ST \<longrightarrow> d = 0) \<and> (\<forall>ip. pfx ld ip = m \<longrightarrow> M ip = leaf_val st d nh)"
| "entry_ok M bs ld m (Group es) \<longleftrightarrow>
     (case bs of [] \<Rightarrow> False
      | b # bs' \<Rightarrow> length es = 2 ^ b \<and> (\<forall>i<2 ^ b. entry_ok M bs' (ld + b) (m * 2 ^ b + i) (es ! i)))"

abbreviation table_ok :: "match \<Rightarrow> nat list \<Rightarrow> nat \<Rightarrow> nat \<Rightarrow> lpm_entry list \<Rightarrow> bool" where
  "table_ok M bs up n es \<equiv> entry_ok M bs up n (Group es)"

lemma entry_index_pfx:
  assumes "ld = up + b" "ld \<le> 32"
  shows "entry_index up ld ip = pfx ld ip mod 2 ^ b"
proof -
  have "unat (drop_bit (32 - ld) (ip AND NOT (PREFIX_2_MASK up))) =
      drop_bit (32 - ld) (take_bit (32 - up) (unat ip))"
    using assms by (simp add: and_not_mask_eq unsigned_take_bit_eq unat_drop_bit_eq)
  also have "\<dots> = take_bit b (drop_bit (32 - ld) (unat ip))"
    using assms by (simp add: drop_bit_take_bit)
  finally show ?thesis by (simp add: entry_index_def pfx_def drop_bit_eq_div take_bit_eq_mod)
qed

lemma pfx_child:
  assumes "ld = up + b" "ld \<le> 32"
  shows "pfx ld ip = pfx up ip * 2 ^ b + entry_index up ld ip"
proof -
  have "pfx up ip = pfx ld ip div 2 ^ b" using pfx_up [of up ld ip] assms by simp
  then show ?thesis unfolding entry_index_pfx [OF assms] by (simp only: div_mult_mod_eq)
qed

lemma entry_index_less: "ld = up + b \<Longrightarrow> ld \<le> 32 \<Longrightarrow> entry_index up ld ip < 2 ^ b"
  by (simp add: entry_index_pfx)

lemma pfx_child_iff:
  assumes "ld = up + b" "ld \<le> 32" "i < 2 ^ b"
  shows "pfx ld ip = n * 2 ^ b + i \<longleftrightarrow> pfx up ip = n \<and> entry_index up ld ip = i"
proof
  assume "pfx ld ip = n * 2 ^ b + i"
  then have e: "pfx up ip * 2 ^ b + entry_index up ld ip = n * 2 ^ b + i"
    using pfx_child [OF assms(1,2)] by simp
  note less = entry_index_less [OF assms(1,2), of ip]
  have "(pfx up ip * 2 ^ b + entry_index up ld ip) div 2 ^ b = (n * 2 ^ b + i) div 2 ^ b"
    "(pfx up ip * 2 ^ b + entry_index up ld ip) mod 2 ^ b = (n * 2 ^ b + i) mod 2 ^ b"
    using e by simp_all
  then show "pfx up ip = n \<and> entry_index up ld ip = i" using less assms(3) by simp
qed (use pfx_child [OF assms(1,2)] in simp)

lemma entry_ok_cong:
  assumes "sum_list bs + ld \<le> 32" "\<And>ip. pfx ld ip = m \<Longrightarrow> M ip = M' ip"
  shows "entry_ok M bs ld m e = entry_ok M' bs ld m e"
  using assms
proof (induction M bs ld m e rule: entry_ok.induct)
  case (1 M bs ld m st d nh)
  then show ?case by auto
next
  case (2 M bs ld m es)
  show ?case
  proof (cases bs)
    case (Cons b bs')
    have "entry_ok M bs' (ld + b) (m * 2 ^ b + i) (es ! i) = entry_ok M' bs' (ld + b) (m * 2 ^ b + i) (es ! i)"
      if "i < 2 ^ b" for i
    proof (rule 2(1) [OF Cons that])
      fix ip
      assume "pfx (ld + b) ip = m * 2 ^ b + i"
      then show "M ip = M' ip" using 2(2,3) that Cons pfx_child_iff [of "ld + b" ld b i ip m] by auto
    qed (use 2(2) Cons in simp)
    then show ?thesis using Cons by auto
  qed simp
qed

lemma lookup_table_ok:
  "table_ok M bs up (pfx up ip) es \<Longrightarrow> sum_list bs + up \<le> 32 \<Longrightarrow>
     dlpm64b_lookup_inner bs up es ip = map_option snd (M ip)"
proof (induction bs arbitrary: up es)
  case (Cons b bs)
  let ?i = "entry_index up (up + b) ip"
  have i: "?i < 2 ^ b" using Cons.prems(2) by (intro entry_index_less) auto
  have ok: "entry_ok M bs (up + b) (pfx (up + b) ip) (es ! ?i)"
    using Cons.prems i pfx_child [of "up + b" up b ip] by auto
  show ?case
  proof (cases "es ! ?i")
    case (Leaf st d nh)
    then show ?thesis using ok by (cases st) (auto simp: leaf_val_def)
  next
    case (Group sub)
    then show ?thesis using ok Cons.IH [of "up + b" sub] Cons.prems(2) by simp
  qed
qed simp

section \<open>The entries a prefix covers\<close>

text \<open>
  \<open>q\<close> is the block of the prefix of length \<open>d\<close>. A table for block \<open>n\<close> at depth \<open>up\<close> is visited
  only when it meets the prefix: it lies inside it, or contains it.
\<close>

definition meets :: "nat \<Rightarrow> nat \<Rightarrow> nat \<Rightarrow> nat \<Rightarrow> bool" where
  "meets d q up n \<longleftrightarrow> (if d \<le> up then n div 2 ^ (up - d) = q else q div 2 ^ (d - up) = n)"

lemma meets_child:
  assumes "ld = up + b" "d \<le> ld" "d \<le> 32" "ld \<le> 32" "p = p AND PREFIX_2_MASK d" "q = pfx d p"
    and "meets d q up n" "i < 2 ^ b"
  shows "i \<in> set [entry_index up ld p..<entry_index up ld p + min (2 ^ (ld - d)) (2 ^ b)] \<longleftrightarrow>
    (n * 2 ^ b + i) div 2 ^ (ld - d) = q"
    and "entry_index up ld p + min (2 ^ (ld - d)) (2 ^ b) \<le> 2 ^ b"
proof -
  have P: "pfx ld p = q * 2 ^ (ld - d)" using pfx_mask [of d ld p p] assms by simp
  have idx: "entry_index up ld p = q * 2 ^ (ld - d) mod 2 ^ b"
    using entry_index_pfx [OF assms(1,4), of p] P by simp
  have "(i \<in> set [entry_index up ld p..<entry_index up ld p + min (2 ^ (ld - d)) (2 ^ b)] \<longleftrightarrow>
    (n * 2 ^ b + i) div 2 ^ (ld - d) = q) \<and> entry_index up ld p + min (2 ^ (ld - d)) (2 ^ b) \<le> 2 ^ b"
  proof (cases "d \<le> up")
    case True
    then have pw: "(2 :: nat) ^ (ld - d) = 2 ^ (up - d) * 2 ^ b"
      using assms(1) by (simp flip: power_add)
    then have "entry_index up ld p = 0" by (simp add: idx mult.assoc [symmetric])
    moreover have "(n * 2 ^ b + i) div 2 ^ (ld - d) = q"
    proof -
      have "(n * 2 ^ b + i) div (2 ^ b * 2 ^ (up - d)) = (n * 2 ^ b + i) div 2 ^ b div 2 ^ (up - d)"
        by (rule div_mult2_eq)
      then show ?thesis using assms(7,8) True by (simp add: pw meets_def mult.commute)
    qed
    moreover have "(2 :: nat) ^ b \<le> 2 ^ (ld - d)" by (simp add: pw)
    ultimately show ?thesis using assms(8) by (simp add: min_def)
  next
    case False
    define c where "c = ld - d"
    define e where "e = d - up"
    have be: "b = e + c" using False assms(1,2) by (simp add: c_def e_def)
    have qn: "q div 2 ^ e = n" using assms(7) False by (simp add: meets_def e_def)
    define r where "r = q mod 2 ^ e"
    have q: "q = n * 2 ^ e + r" and r: "r < 2 ^ e"
      by (simp_all only: qn [symmetric] r_def div_mult_mod_eq) simp
    have x: "entry_index up ld p = r * 2 ^ c"
    proof -
      have "q * 2 ^ c mod (2 ^ e * 2 ^ c) = (q mod 2 ^ e) * 2 ^ c" by (rule mod_mult_mult2)
      then show ?thesis by (simp add: idx be power_add r_def flip: c_def)
    qed
    have le: "(2 :: nat) ^ c \<le> 2 ^ b" by (simp add: be)
    have "Suc r * 2 ^ c \<le> 2 ^ e * 2 ^ c" using r by (intro mult_right_mono) auto
    then have top: "entry_index up ld p + 2 ^ c \<le> 2 ^ b" by (simp add: x be power_add)
    have "(n * 2 ^ b + i) div 2 ^ c = n * 2 ^ e + i div 2 ^ c"
      by (simp add: be power_add mult.assoc [symmetric])
    then have "(n * 2 ^ b + i) div 2 ^ c = q \<longleftrightarrow> i div 2 ^ c = r" by (simp add: q)
    also have "\<dots> \<longleftrightarrow> r \<le> i div 2 ^ c \<and> i div 2 ^ c < Suc r" by auto
    also have "\<dots> \<longleftrightarrow> r * 2 ^ c \<le> i \<and> i < Suc r * 2 ^ c"
    proof -
      have z: "0 < (2 :: nat) ^ c" by simp
      show ?thesis by (simp only: less_eq_div_iff_mult_less_eq [OF z] div_less_iff_less_mult [OF z])
    qed
    finally show ?thesis using le top by (auto simp: x min_def simp flip: c_def)
  qed
  then show "i \<in> set [entry_index up ld p..<entry_index up ld p + min (2 ^ (ld - d)) (2 ^ b)] \<longleftrightarrow>
    (n * 2 ^ b + i) div 2 ^ (ld - d) = q"
    "entry_index up ld p + min (2 ^ (ld - d)) (2 ^ b) \<le> 2 ^ b" by blast+
qed

lemma meets_inside: "d \<le> ld \<Longrightarrow> m div 2 ^ (ld - d) = q \<Longrightarrow> meets d q ld m"
  by (simp add: meets_def)

lemma meets_down:
  assumes "ld = up + b" "d > ld" "d \<le> 32" "q = pfx d p" "meets d q up n"
  shows "pfx up p = n" "pfx ld p = n * 2 ^ b + entry_index up ld p"
    "meets d q ld (n * 2 ^ b + entry_index up ld p)"
proof -
  have "pfx up p = q div 2 ^ (d - up)" using pfx_up [of up d p] assms by simp
  then show n: "pfx up p = n" using assms by (simp add: meets_def)
  show p: "pfx ld p = n * 2 ^ b + entry_index up ld p" using pfx_child [of ld up b p] assms n by simp
  show "meets d q ld (n * 2 ^ b + entry_index up ld p)"
    using pfx_up [of ld d p] assms p by (simp add: meets_def)
qed

section \<open>What the loop does\<close>

lemma entry_loop_spec:
  assumes "\<And>i sub al. i \<in> set is \<Longrightarrow> es ! i = Group sub \<Longrightarrow>
      \<exists>sub' al'. rec sub al = (BS_OK, sub', al') \<and> Q i sub'"
    and "distinct is" "\<forall>i\<in>set is. i < length es"
  shows "\<exists>es' al'. entry_loop upd rec is es al = (BS_OK, es', al') \<and> length es' = length es \<and>
    (\<forall>j. j \<notin> set is \<longrightarrow> es' ! j = es ! j) \<and>
    (\<forall>i\<in>set is. case es ! i of Leaf st d nh \<Rightarrow> es' ! i = upd d st nh
       | Group sub \<Rightarrow> \<exists>sub'. es' ! i = Group sub' \<and> Q i sub')"
  using assms
proof (induction "is" arbitrary: es al)
  case (Cons i is')
  obtain e al1 where step: "entry_loop upd rec (i # is') es al = entry_loop upd rec is' (es[i := e]) al1"
    and e: "case es ! i of Leaf st d nh \<Rightarrow> e = upd d st nh | Group sub \<Rightarrow> \<exists>sub'. e = Group sub' \<and> Q i sub'"
  proof (cases "es ! i")
    case (Leaf st d nh)
    then show thesis using that by simp
  next
    case (Group sub)
    obtain sub' al' where "rec sub al = (BS_OK, sub', al')" "Q i sub'"
      using Cons.prems(1) [OF _ Group, of al] by auto
    then show thesis using Group that by simp
  qed
  have nth: "es[i := e] ! j = es ! j" if "j \<in> set is'" for j
    using that Cons.prems(2) by (cases "i = j") auto
  have "\<exists>es' al'. entry_loop upd rec is' (es[i := e]) al1 = (BS_OK, es', al') \<and>
    length es' = length (es[i := e]) \<and> (\<forall>j. j \<notin> set is' \<longrightarrow> es' ! j = es[i := e] ! j) \<and>
    (\<forall>i'\<in>set is'. case es[i := e] ! i' of Leaf st d nh \<Rightarrow> es' ! i' = upd d st nh
       | Group sub \<Rightarrow> \<exists>sub'. es' ! i' = Group sub' \<and> Q i' sub')"
    using Cons.prems by (intro Cons.IH) (auto simp: nth)
  then obtain es' al' where es': "entry_loop upd rec is' (es[i := e]) al1 = (BS_OK, es', al')"
    "length es' = length es" "\<forall>j. j \<notin> set is' \<longrightarrow> es' ! j = es[i := e] ! j"
    "\<forall>i'\<in>set is'. case es ! i' of Leaf st d nh \<Rightarrow> es' ! i' = upd d st nh
       | Group sub \<Rightarrow> \<exists>sub'. es' ! i' = Group sub' \<and> Q i' sub'"
    by (auto simp: nth)
  have "es' ! i = e" using es'(3) Cons.prems(2,3) by auto
  then show ?case
    using es' e step Cons.prems(2) by (intro exI [of _ es'] exI [of _ al']) auto
qed auto

definition upd_match :: "nat \<Rightarrow> nat \<Rightarrow> (nat \<times> UINT64) option \<Rightarrow> match \<Rightarrow> match" where
  "upd_match d q v M = (\<lambda>ip. if pfx d ip = q \<and> match_depth (M ip) \<le> d then v else M ip)"

lemma upd_match_outside: "pfx d ip \<noteq> q \<Longrightarrow> upd_match d q v M ip = M ip"
  by (simp add: upd_match_def)

lemma match_depth_leaf: "st \<noteq> VALID_ST \<longrightarrow> dd = 0 \<Longrightarrow> match_depth (leaf_val st dd nh) = dd"
  by (auto simp: match_depth_def leaf_val_def)

lemma leaf_inside:
  assumes "entry_ok M bs ld m (Leaf st dd nh)" "d \<le> ld" "ld \<le> 32" "m div 2 ^ (ld - d) = q"
    and "leaf_val st' d' nh' = v" "d' \<le> d" "st' \<noteq> VALID_ST \<longrightarrow> d' = 0"
  shows "entry_ok (upd_match d q v M) bs ld m (if dd \<le> d then Leaf st' d' nh' else Leaf st dd nh)"
proof -
  have "pfx d ip = q" if "pfx ld ip = m" for ip using pfx_up [of d ld ip] assms that by simp
  moreover have "match_depth (M ip) = dd" if "pfx ld ip = m" for ip
    using that assms(1) match_depth_leaf [of st dd nh] by simp
  ultimately show ?thesis using assms by (auto simp: upd_match_def)
qed

lemma cover_ok:
  assumes ld: "ld = up + b" "d \<le> ld" "d \<le> 32" "sum_list bs + ld \<le> 32"
    and p: "p = p AND PREFIX_2_MASK d" "q = pfx d p" "meets d q up n"
    and ok: "table_ok M (b # bs) up n es"
    and upd: "upd = (\<lambda>dd st nh. if dd \<le> d then Leaf st' d' nh' else Leaf st dd nh)"
      "leaf_val st' d' nh' = v" "d' \<le> d" "st' \<noteq> VALID_ST \<longrightarrow> d' = 0"
    and rec: "\<And>m sub al. table_ok M bs ld m sub \<Longrightarrow> m div 2 ^ (ld - d) = q \<Longrightarrow>
      \<exists>sub' al'. rec sub al = (BS_OK, sub', al') \<and> table_ok (upd_match d q v M) bs ld m sub'"
  shows "\<exists>es' al'. entry_loop upd rec
      [entry_index up ld p..<entry_index up ld p + min (2 ^ (ld - d)) (2 ^ b)] es al = (BS_OK, es', al') \<and>
    table_ok (upd_match d q v M) (b # bs) up n es'"
proof -
  let ?M = "upd_match d q v M"
  let ?is = "[entry_index up ld p..<entry_index up ld p + min (2 ^ (ld - d)) (2 ^ b)]"
  have le: "ld \<le> 32" using ld(4) by simp
  note cov = meets_child [OF ld(1-3) le p]
  have len: "length es = 2 ^ b" and eok: "\<And>i. i < 2 ^ b \<Longrightarrow> entry_ok M bs ld (n * 2 ^ b + i) (es ! i)"
    using ok ld(1) by simp_all
  have is_lt: "i < 2 ^ b" if "i \<in> set ?is" for i using that cov(2) [of 0] by (cases b) auto
  have in_q: "(n * 2 ^ b + i) div 2 ^ (ld - d) = q" if "i \<in> set ?is" for i
    using cov(1) [OF is_lt [OF that]] that by blast
  have "\<exists>es' al'. entry_loop upd rec ?is es al = (BS_OK, es', al') \<and> length es' = length es \<and>
    (\<forall>j. j \<notin> set ?is \<longrightarrow> es' ! j = es ! j) \<and>
    (\<forall>i\<in>set ?is. case es ! i of Leaf st d nh \<Rightarrow> es' ! i = upd d st nh
       | Group sub \<Rightarrow> \<exists>sub'. es' ! i = Group sub' \<and> table_ok ?M bs ld (n * 2 ^ b + i) sub')"
  proof (rule entry_loop_spec)
    fix i sub al
    assume i: "i \<in> set ?is" and g: "es ! i = Group sub"
    then have "table_ok M bs ld (n * 2 ^ b + i) sub" using eok [OF is_lt [OF i]] by simp
    then show "\<exists>sub' al'. rec sub al = (BS_OK, sub', al') \<and> table_ok ?M bs ld (n * 2 ^ b + i) sub'"
      using rec in_q [OF i] by blast
  qed (use is_lt len in auto)
  then obtain es' al' where es': "entry_loop upd rec ?is es al = (BS_OK, es', al')"
    "length es' = length es" "\<forall>j. j \<notin> set ?is \<longrightarrow> es' ! j = es ! j"
    "\<forall>i\<in>set ?is. case es ! i of Leaf st d nh \<Rightarrow> es' ! i = upd d st nh
       | Group sub \<Rightarrow> \<exists>sub'. es' ! i = Group sub' \<and> table_ok ?M bs ld (n * 2 ^ b + i) sub'"
    by blast
  have "entry_ok ?M bs ld (n * 2 ^ b + i) (es' ! i)" if i: "i < 2 ^ b" for i
  proof (cases "i \<in> set ?is")
    case True
    then have *: "case es ! i of Leaf st d nh \<Rightarrow> es' ! i = upd d st nh
       | Group sub \<Rightarrow> \<exists>sub'. es' ! i = Group sub' \<and> table_ok ?M bs ld (n * 2 ^ b + i) sub'"
      using es'(4) by blast
    show ?thesis
    proof (cases "es ! i")
      case (Leaf st dd nh)
      have "entry_ok ?M bs ld (n * 2 ^ b + i) (if dd \<le> d then Leaf st' d' nh' else Leaf st dd nh)"
        using eok [OF i] Leaf upd(2-4) in_q [OF True] ld(2) le by (intro leaf_inside) simp_all
      then show ?thesis using * Leaf upd(1) by simp
    next
      case (Group sub)
      then show ?thesis using * by (auto simp del: entry_ok.simps)
    qed
  next
    case False
    then have "(n * 2 ^ b + i) div 2 ^ (ld - d) \<noteq> q" using cov(1) [OF i] by blast
    then have "M ip = ?M ip" if "pfx ld ip = n * 2 ^ b + i" for ip
      using that pfx_up [of d ld ip] ld(2) le by (simp add: upd_match_outside)
    then have "entry_ok ?M bs ld (n * 2 ^ b + i) (es ! i)"
      using entry_ok_cong [OF ld(4), of "n * 2 ^ b + i" M ?M "es ! i"] eok [OF i] by blast
    then show ?thesis using es'(3) False by simp
  qed
  then show ?thesis using es' len ld(1) by auto
qed

section \<open>Adding\<close>

lemma split_leaf:
  assumes "entry_ok M (b # bs) ld m (Leaf st d nh)" "sum_list (b # bs) + ld \<le> 32"
    and "length es = 2 ^ b" "\<forall>i<2 ^ b. \<exists>st' nh'. es ! i = Leaf st' d nh' \<and> leaf_val st' d nh' = leaf_val st d nh \<and> (st' \<noteq> VALID_ST \<longrightarrow> d = 0)"
  shows "table_ok M (b # bs) ld m es"
proof -
  have "entry_ok M bs (ld + b) (m * 2 ^ b + i) (es ! i)" if i: "i < 2 ^ b" for i
  proof -
    obtain st' nh' where e: "es ! i = Leaf st' d nh'" "leaf_val st' d nh' = leaf_val st d nh"
      "st' \<noteq> VALID_ST \<longrightarrow> d = 0" using assms(4) i by blast
    have "pfx ld ip = m" if "pfx (ld + b) ip = m * 2 ^ b + i" for ip
      using that assms(2) i pfx_child_iff [of "ld + b" ld b i ip m] by simp
    then show ?thesis using e assms(1) by simp
  qed
  then show ?thesis using assms(3) by simp
qed

lemma table_put:
  assumes "length es = 2 ^ b" "i < 2 ^ b" "entry_ok M bs (up + b) (n * 2 ^ b + i) e"
    and "\<And>j. j < 2 ^ b \<Longrightarrow> j \<noteq> i \<Longrightarrow> entry_ok M bs (up + b) (n * 2 ^ b + j) (es ! j)"
  shows "table_ok M (b # bs) up n (es[i := e])"
proof -
  have "entry_ok M bs (up + b) (n * 2 ^ b + j) (es[i := e] ! j)" if "j < 2 ^ b" for j
    using assms that by (cases "j = i") auto
  then show ?thesis using assms(1) by simp
qed

text \<open>Outside the entry that holds the prefix nothing changes.\<close>

lemma other_entries:
  assumes "ld = up + b" "d > ld" "d \<le> 32" "sum_list bs + ld \<le> 32" "q = pfx d p" "meets d q up n"
    and "j \<noteq> entry_index up ld p" "entry_ok M bs ld (n * 2 ^ b + j) e"
  shows "entry_ok (upd_match d q v M) bs ld (n * 2 ^ b + j) e"
proof -
  have "pfx d ip \<noteq> q" if "pfx ld ip = n * 2 ^ b + j" for ip
  proof
    assume "pfx d ip = q"
    then have "pfx ld ip = pfx ld p" using pfx_up [of ld d] assms by simp
    then show False using that meets_down(2) [OF assms(1-3,5,6)] assms(7) by simp
  qed
  then have "M ip = upd_match d q v M ip" if "pfx ld ip = n * 2 ^ b + j" for ip
    using that by (simp add: upd_match_outside)
  then show ?thesis
    using entry_ok_cong [of bs ld "n * 2 ^ b + j" M "upd_match d q v M" e] assms by auto
qed

lemma add_inner_ok:
  assumes "sum_list bs + up = 32" "\<forall>b\<in>set (tl bs). b = n1" "d \<le> 32" "1 \<le> d"
    and "p = p AND PREFIX_2_MASK d" "q = pfx d p" "meets d q up n" "table_ok M bs up n es"
  shows "\<exists>ret es' al'. dlpm64b_add_inner n1 bs up es p d nh al = (ret, es', al') \<and>
    (ret = BS_OK \<and> table_ok (upd_match d q (Some (d, nh)) M) bs up n es' \<or>
     ret \<noteq> BS_OK \<and> up < d \<and> table_ok M bs up n es')"
  using assms(1,2,7,8)
proof (induction bs arbitrary: up n es al)
  case Nil
  then show ?case by simp
next
  case (Cons b bs)
  let ?M = "upd_match d q (Some (d, nh)) M" and ?ld = "up + b"
  let ?i = "entry_index up ?ld p"
  have le: "?ld \<le> 32" and sum: "sum_list bs + ?ld = 32" using Cons.prems(1) by simp_all
  have n1: "\<forall>b\<in>set (tl bs). b = n1" using Cons.prems(2) by (cases bs) auto
  have len: "length es = 2 ^ b" and eok: "\<And>i. i < 2 ^ b \<Longrightarrow> entry_ok M bs ?ld (n * 2 ^ b + i) (es ! i)"
    using Cons.prems(4) by simp_all
  show ?case
  proof (cases "d > ?ld")
    case False
    have "\<exists>es' al'. entry_loop (add_upd d nh)
        (\<lambda>sub al. dlpm64b_add_inner n1 bs ?ld sub p d nh al)
        [?i..<?i + min (2 ^ (?ld - d)) (2 ^ b)] es al = (BS_OK, es', al') \<and> table_ok ?M (b # bs) up n es'"
    proof (rule cover_ok [OF refl _ assms(3) _ assms(5,6) Cons.prems(3,4)])
      fix m sub al
      assume "table_ok M bs ?ld m sub" "m div 2 ^ (?ld - d) = q"
      then show "\<exists>sub' al'. dlpm64b_add_inner n1 bs ?ld sub p d nh al = (BS_OK, sub', al') \<and> table_ok ?M bs ?ld m sub'"
        using Cons.IH [OF sum n1, of m sub al] meets_inside [of d ?ld m q] False by fastforce
    qed (use False sum in \<open>auto simp: add_upd_def leaf_val_def fun_eq_iff\<close>)
    then show ?thesis using False by (auto simp: Let_def)
  next
    case True
    note down = meets_down [OF refl True assms(3,6) Cons.prems(3)]
    have i: "?i < 2 ^ b" using le by (intro entry_index_less) auto
    have bs: "bs \<noteq> []" using True sum assms(3) by auto
    have others: "entry_ok ?M bs ?ld (n * 2 ^ b + j) (es ! j)" if "j < 2 ^ b" "j \<noteq> ?i" for j
      using other_entries [OF refl True assms(3) _ assms(6) Cons.prems(3) that(2)] eok [OF that(1)] sum
      by simp
    have put: "table_ok ?M (b # bs) up n (es[?i := Group sub'])" if "table_ok ?M bs ?ld (n * 2 ^ b + ?i) sub'" for sub'
      by (rule table_put [OF len i that]) (rule others)
    have keep: "table_ok M (b # bs) up n (es[?i := Group sub'])" if "table_ok M bs ?ld (n * 2 ^ b + ?i) sub'" for sub'
      by (rule table_put [OF len i that]) (rule eok)
    have inner: "\<exists>ret es' al'. (case dlpm64b_add_inner n1 bs ?ld sub p d nh al of
          (ret, sub', al') \<Rightarrow> (ret, es[?i := Group sub'], al')) = (ret, es', al') \<and>
        (ret = BS_OK \<and> table_ok ?M (b # bs) up n es' \<or> ret \<noteq> BS_OK \<and> up < d \<and> table_ok M (b # bs) up n es')"
      if "table_ok M bs ?ld (n * 2 ^ b + ?i) sub" for sub al
      using Cons.IH [OF sum n1 down(3) that, of al] put keep True by fastforce
    show ?thesis
    proof (cases "es ! ?i")
      case (Group sub)
      then show ?thesis using inner [of sub al] eok [OF i] True by (simp add: Let_def)
    next
      case (Leaf st dd nh0)
      obtain b' bs' where bs': "bs = b' # bs'" using bs by (cases bs) auto
      have "b' = n1" using Cons.prems(2) bs' by simp
      obtain ans al' where ask: "mem_ask al = (ans, al')" by (cases "mem_ask al") auto
      show ?thesis
      proof (cases ans)
        case False
        then show ?thesis using Leaf ask True Cons.prems(4)
          by (simp add: Let_def dlpm64b_alloc_entry_def)
      next
        case ans: True
        let ?next0 = "(replicate (2 ^ n1) (Leaf FREE_ST 0 0))[0 := Leaf INVALID_ST 0 0]"
        let ?next = "if st = VALID_ST then replicate (2 ^ b') (Leaf VALID_ST dd nh0) @ drop (2 ^ b') ?next0 else ?next0"
        have ok: "entry_ok M (b' # bs') ?ld (n * 2 ^ b + ?i) (Leaf st dd nh0)"
          using eok [OF i] Leaf bs' by simp
        have "table_ok M (b' # bs') ?ld (n * 2 ^ b + ?i) ?next"
          by (rule split_leaf [OF ok])
            (use sum bs' ok \<open>b' = n1\<close> in \<open>auto simp: nth_list_update leaf_val_def nth_append\<close>)
        then show ?thesis using inner [of ?next al'] Leaf ask ans True bs'
          by (simp add: Let_def dlpm64b_alloc_entry_def)
      qed
    qed
  qed
qed

section \<open>Deleting\<close>

text \<open>
  A match function comes from a set of routes, so two addresses that agree on their first \<open>k\<close> bits and
  have no route longer than \<open>k\<close> have the same best route.
\<close>

definition uniform :: "match \<Rightarrow> bool" where
  "uniform M \<longleftrightarrow> (\<forall>k ip ip'. k \<le> 32 \<longrightarrow> pfx k ip = pfx k ip' \<longrightarrow>
     match_depth (M ip) \<le> k \<longrightarrow> match_depth (M ip') \<le> k \<longrightarrow> M ip = M ip')"

lemma recycle_leaf:
  assumes "dlpm64b_can_recycle b up es st" "j < 2 ^ b"
  shows "\<exists>st' d' nh'. es ! j = Leaf st' d' nh' \<and> d' \<le> up"
proof -
  have "j \<in> set [0..<2 ^ b]" using assms(2) by simp
  from bspec [OF assms(1) [unfolded dlpm64b_can_recycle_def] this] show ?thesis
    by (cases "es ! j") (auto simp: not_less)
qed

lemma recycle_ok:
  assumes ok: "table_ok M bs ld m sub" and sum: "sum_list bs + ld = 32" "ld \<le> 32"
    and rec: "dlpm64b_can_recycle (case bs of [] \<Rightarrow> 0 | b' # _ \<Rightarrow> b') ld sub st"
    and uni: "uniform M" and p: "pfx ld p = m" "M p = leaf_val st d nh" "st \<noteq> VALID_ST \<longrightarrow> d = 0"
  shows "entry_ok M bs ld m (Leaf st d nh)"
proof -
  obtain b bs' where bs: "bs = b # bs'" using ok by (cases bs) auto
  have depth: "match_depth (M ip) \<le> ld" if "pfx ld ip = m" for ip
  proof -
    let ?i = "entry_index ld (ld + b) ip"
    have i: "?i < 2 ^ b" using sum bs by (intro entry_index_less) auto
    then obtain st' d' nh' where l: "sub ! ?i = Leaf st' d' nh'" "d' \<le> ld"
      using recycle_leaf [of b ld sub st ?i] rec bs by auto
    have "entry_ok M bs' (ld + b) (m * 2 ^ b + ?i) (sub ! ?i)" using ok bs i by simp
    moreover have "pfx (ld + b) ip = m * 2 ^ b + ?i"
      using pfx_child [of "ld + b" ld b ip] that sum bs by simp
    ultimately show ?thesis using l match_depth_leaf [of st' d' nh'] by auto
  qed
  have eq: "M ip = leaf_val st d nh" if "pfx ld ip = m" for ip
    using uni depth [OF that] depth [OF p(1)] that p(1,2) sum(2) unfolding uniform_def by metis
  have "d \<le> ld" using depth [OF p(1)] p(2,3) match_depth_leaf [OF p(3), of nh] by simp
  then show ?thesis using eq p(3) by simp
qed

lemma del_inner_ok:
  assumes "sum_list bs + up = 32" "d \<le> 32"
    and "p = p AND PREFIX_2_MASK d" "q = pfx d p" "meets d q up n" "table_ok M bs up n es"
    and st: "st = (if nd = 0 \<and> nnh = 0 then INVALID_ST else VALID_ST)" "v = leaf_val st nd nnh" "nd \<le> d"
    and H1: "\<And>ip. pfx d ip = q \<Longrightarrow> match_depth (M ip) < d \<Longrightarrow> M ip = v"
    and H2: "uniform (upd_match d q v M)"
  shows "table_ok (upd_match d q v M) bs up n (dlpm64b_del_inner bs up es p d nd nnh)"
  using assms(1,5,6)
proof (induction bs arbitrary: up n es)
  case Nil
  then show ?case by simp
next
  case (Cons b bs)
  let ?M = "upd_match d q v M" and ?ld = "up + b"
  let ?i = "entry_index up ?ld p"
  have st0: "st \<noteq> VALID_ST \<longrightarrow> nd = 0" using st(1) by auto
  have le: "?ld \<le> 32" and sum: "sum_list bs + ?ld = 32" using Cons.prems(1) by simp_all
  have len: "length es = 2 ^ b" and eok: "\<And>i. i < 2 ^ b \<Longrightarrow> entry_ok M bs ?ld (n * 2 ^ b + i) (es ! i)"
    using Cons.prems(3) by simp_all
  show ?case
  proof (cases "d > ?ld")
    case False
    have "\<exists>es' al'. entry_loop (del_upd d st nd nnh)
        (\<lambda>sub al. (BS_OK, dlpm64b_del_inner bs ?ld sub p d nd nnh, al))
        [?i..<?i + min (2 ^ (?ld - d)) (2 ^ b)] es [] = (BS_OK, es', al') \<and> table_ok ?M (b # bs) up n es'"
    proof (rule cover_ok [OF refl _ assms(2) _ assms(3,4) Cons.prems(2,3) _ st(2)[symmetric] st(3) st0])
      fix m sub al
      assume "table_ok M bs ?ld m sub" "m div 2 ^ (?ld - d) = q"
      then show "\<exists>sub' al'. (BS_OK, dlpm64b_del_inner bs ?ld sub p d nd nnh, al) = (BS_OK, sub', al') \<and>
          table_ok ?M bs ?ld m sub'"
        using Cons.IH [OF sum, of m sub] meets_inside [of d ?ld m q] False by fastforce
    qed (use False sum in \<open>auto simp: del_upd_def fun_eq_iff\<close>)
    then show ?thesis using False st(1) by (auto simp: Let_def)
  next
    case True
    note down = meets_down [OF refl True assms(2,4) Cons.prems(2)]
    have i: "?i < 2 ^ b" using le by (intro entry_index_less) auto
    have others: "entry_ok ?M bs ?ld (n * 2 ^ b + j) (es ! j)" if "j < 2 ^ b" "j \<noteq> ?i" for j
      using other_entries [OF refl True assms(2) _ assms(4) Cons.prems(2) that(2)] eok [OF that(1)] sum
      by simp
    have put: "table_ok ?M (b # bs) up n (es[?i := e])" if "entry_ok ?M bs ?ld (n * 2 ^ b + ?i) e" for e
      by (rule table_put [OF len i that]) (rule others)
    show ?thesis
    proof (cases "es ! ?i")
      case (Leaf st0 dd nh0)
      have l: "entry_ok M bs ?ld (n * 2 ^ b + ?i) (Leaf st0 dd nh0)" using eok [OF i] Leaf by simp
      have "M ip = ?M ip" if "pfx ?ld ip = n * 2 ^ b + ?i" for ip
      proof -
        have "match_depth (M ip) < d" using l that match_depth_leaf [of st0 dd nh0] True by auto
        then show ?thesis using H1 [of ip] by (simp add: upd_match_def)
      qed
      then have "entry_ok ?M bs ?ld (n * 2 ^ b + ?i) (Leaf st0 dd nh0)"
        using l entry_ok_cong [of bs ?ld "n * 2 ^ b + ?i" M ?M] sum by auto
      moreover have "es[?i := Leaf st0 dd nh0] = es" using Leaf list_update_id by metis
      ultimately have "table_ok ?M (b # bs) up n es" using put by metis
      then show ?thesis using Leaf True by (simp add: Let_def del: entry_ok.simps)
    next
      case (Group sub)
      let ?sub = "dlpm64b_del_inner bs ?ld sub p d nd nnh"
      have g: "table_ok ?M bs ?ld (n * 2 ^ b + ?i) ?sub"
        using Cons.IH [OF sum down(3)] eok [OF i] Group by simp
      show ?thesis
      proof (cases "dlpm64b_can_recycle (case bs of [] \<Rightarrow> 0 | b' # _ \<Rightarrow> b') ?ld ?sub st")
        case False
        then show ?thesis using put [OF g] Group True st(1) by (simp add: Let_def del: entry_ok.simps)
      next
        case rec: True
        have "?M p = v"
        proof (rule ccontr)
          assume ne: "?M p \<noteq> v"
          then have deep: "match_depth (M p) > d" "?M p = M p"
            using assms(4) by (auto simp: upd_match_def split: if_splits)
          obtain b' bs' where bs: "bs = b' # bs'" using g by (cases bs) auto
          let ?j = "entry_index ?ld (?ld + b') p"
          have j: "?j < 2 ^ b'" using sum bs by (intro entry_index_less) auto
          have "pfx (?ld + b') p = (n * 2 ^ b + ?i) * 2 ^ b' + ?j"
            using pfx_child [of "?ld + b'" ?ld b' p] down(2) sum bs by simp
          moreover have "entry_ok ?M bs' (?ld + b') ((n * 2 ^ b + ?i) * 2 ^ b' + ?j) (?sub ! ?j)"
            using g bs j by simp
          moreover have "\<exists>st' d' nh'. ?sub ! ?j = Leaf st' d' nh' \<and> d' \<le> ?ld"
            using recycle_leaf [OF _ j, of ?ld ?sub st] rec bs by simp
          ultimately have "match_depth (?M p) \<le> ?ld" using match_depth_leaf by auto
          then show False using deep True by simp
        qed
        then have "entry_ok ?M bs ?ld (n * 2 ^ b + ?i) (Leaf st nd nnh)"
          using recycle_ok [OF g sum le rec H2 down(2)] st(2) st0 by simp
        then show ?thesis using put rec Group True st(1) by (simp add: Let_def del: entry_ok.simps)
      qed
    qed
  qed
qed

end
