(* ===== verification/Lpm.thy ===== *)
theory Lpm
  imports DLpm
begin

text \<open>
  The longest-prefix-match table of \<^verbatim>\<open>fib/lpm_common.c\<close> over the dynamic trie of
  \<^verbatim>\<open>lpm64b_dynamic.c\<close>. The recording map holds every route by its masked address and depth;
  it is what a deletion needs to find the route that takes over. The map is one of the \<^verbatim>\<open>MAP_*\<close>
  tables, of which this code uses the contract only: a finite map from keys to next hops, whose
  \<^verbatim>\<open>MAP_Add\<close> refuses a key it has. Outcomes of allocations come from a script.
\<close>

type_synonym lpm_key = "UINT \<times> nat"

record lpm =
  bit_num :: "nat list"
  level :: nat
  recording_map :: "(lpm_key \<rightharpoonup> UINT64) option"
  array :: "lpm_entry list option"

definition DLPM64B_Init :: lpm where
  "DLPM64B_Init = \<lparr>bit_num = [], level = 0, recording_map = None, array = None\<rparr>"

definition dlpm64b_add ::
  "lpm \<Rightarrow> UINT \<Rightarrow> nat \<Rightarrow> UINT64 \<Rightarrow> bool list \<Rightarrow> bs_status \<times> lpm \<times> bool list" where
  "dlpm64b_add l ip depth nexthop al =
     (if depth < 1 \<or> depth > 32 then (BS_ERR, l, al)
      else (case dlpm64b_add_inner (bit_num l ! 1) (bit_num l) 0 (the (array l)) ip depth nexthop al of
              (ret, es, al') \<Rightarrow> (ret, l\<lparr>array := Some es\<rparr>, al')))"

definition dlpm64b_del :: "lpm \<Rightarrow> UINT \<Rightarrow> nat \<Rightarrow> nat \<Rightarrow> UINT64 \<Rightarrow> bs_status \<times> lpm" where
  "dlpm64b_del l ip depth new_depth new_nexthop =
     (case array l of
        None \<Rightarrow> (BS_ERR, l)
      | Some es \<Rightarrow>
          (BS_OK, l\<lparr>array := Some (dlpm64b_del_inner (bit_num l) 0 es ip depth new_depth new_nexthop)\<rparr>))"

definition dlpm64b_lookup :: "lpm \<Rightarrow> UINT \<Rightarrow> UINT64 option" where
  "dlpm64b_lookup l ip = dlpm64b_lookup_inner (bit_num l) 0 (the (array l)) ip"

definition dlpm64b_walk :: "lpm \<Rightarrow> (UINT \<Rightarrow> nat \<Rightarrow> UINT64 \<Rightarrow> 's \<Rightarrow> int \<times> 's) \<Rightarrow> 's \<Rightarrow> 's" where
  "dlpm64b_walk l cb s = snd (dlpm64b_walk_inner (bit_num l) 0 (the (array l)) 0 cb s)"

definition dlpm64b_set_level :: "lpm \<Rightarrow> nat \<Rightarrow> nat \<Rightarrow> bool list \<Rightarrow> bs_status \<times> lpm \<times> bool list" where
  "dlpm64b_set_level l lv first_bit_num al =
     (case mem_ask al of
        (False, al') \<Rightarrow> (BS_NO_MEMORY, l\<lparr>array := None\<rparr>, al')
      | (True, al') \<Rightarrow> (BS_OK, l\<lparr>array := Some (replicate (2 ^ first_bit_num) (Leaf FREE_ST 0 0))\<rparr>, al'))"

text \<open>\<^verbatim>\<open>memset(lpm, 0, sizeof(LPM_S))\<close> also clears the pointer to the recording map.\<close>

definition dlpm64b_final :: "lpm \<Rightarrow> lpm" where
  "dlpm64b_final l = \<lparr>bit_num = [], level = 0, recording_map = None, array = None\<rparr>"

definition dlpm64b_reset :: "lpm \<Rightarrow> lpm" where
  "dlpm64b_reset l = dlpm64b_final l"

section \<open>The common layer\<close>

text \<open>\<^verbatim>\<open>_lpm_get_parent\<close>: the loop from \<open>depth - 1\<close> down to 0.\<close>

fun lpm_get_parent :: "(lpm_key \<rightharpoonup> UINT64) \<Rightarrow> UINT \<Rightarrow> nat \<Rightarrow> (nat \<times> UINT64) option" where
  "lpm_get_parent R ip 0 = None"
| "lpm_get_parent R ip (Suc i) =
     (case R (ip AND PREFIX_2_MASK i, i) of
        Some nexthop \<Rightarrow> Some (i, nexthop)
      | None \<Rightarrow> lpm_get_parent R ip i)"

definition LPM_EnableRecording :: "lpm \<Rightarrow> bool list \<Rightarrow> bs_status \<times> lpm \<times> bool list" where
  "LPM_EnableRecording l al =
     (if recording_map l \<noteq> None then (BS_OK, l, al)
      else (case mem_ask al of
              (False, al') \<Rightarrow> (BS_NO_MEMORY, l, al')
            | (True, al') \<Rightarrow> (BS_OK, l\<lparr>recording_map := Some Map.empty\<rparr>, al')))"

definition LPM_Add ::
  "lpm \<Rightarrow> UINT \<Rightarrow> nat \<Rightarrow> UINT64 \<Rightarrow> bool list \<Rightarrow> bs_status \<times> lpm \<times> bool list" where
  "LPM_Add l ip0 depth nexthop al =
     (let ip = ip0 AND PREFIX_2_MASK depth
      in case recording_map l of
           None \<Rightarrow> dlpm64b_add l ip depth nexthop al
         | Some R \<Rightarrow>
             (case mem_ask al of
                (False, al1) \<Rightarrow> (BS_NO_MEMORY, l, al1)
              | (True, al1) \<Rightarrow>
                  if R (ip, depth) \<noteq> None then (BS_ALREADY_EXIST, l, al1)
                  else (case mem_ask al1 of
                          (False, al2) \<Rightarrow> (BS_NO_MEMORY, l, al2)
                        | (True, al2) \<Rightarrow>
                            (let l1 = l\<lparr>recording_map := Some (R((ip, depth) \<mapsto> nexthop))\<rparr>
                             in case dlpm64b_add l1 ip depth nexthop al2 of
                                  (ret, l2, al3) \<Rightarrow>
                                    if ret \<noteq> BS_OK
                                    then (ret, l2\<lparr>recording_map :=
                                            Some ((the (recording_map l2))((ip, depth) := None))\<rparr>, al3)
                                    else (ret, l2, al3)))))"

definition LPM_Reset :: "lpm \<Rightarrow> lpm" where
  "LPM_Reset l =
     (let l1 = (case recording_map l of None \<Rightarrow> l | Some R \<Rightarrow> l\<lparr>recording_map := Some Map.empty\<rparr>)
      in dlpm64b_reset l1)"

definition LPM_Final :: "lpm \<Rightarrow> lpm" where
  "LPM_Final l = (let l1 = l\<lparr>recording_map := None\<rparr> in dlpm64b_final l1)"

definition LPM_SetLevel :: "lpm \<Rightarrow> nat \<Rightarrow> nat \<Rightarrow> bool list \<Rightarrow> bs_status \<times> lpm \<times> bool list" where
  "LPM_SetLevel l lv first_bit_num al =
     (let other_bit_num = (32 - first_bit_num) div (lv - 1)
      in case dlpm64b_set_level l lv first_bit_num al of
           (ret, l1, al') \<Rightarrow>
             if ret \<noteq> BS_OK then (ret, l1, al')
             else (BS_OK, l1\<lparr>bit_num := first_bit_num # replicate (lv - 1) other_bit_num, level := lv\<rparr>, al'))"

definition LPM_Del :: "lpm \<Rightarrow> UINT \<Rightarrow> nat \<Rightarrow> nat \<Rightarrow> UINT64 \<Rightarrow> bs_status \<times> lpm" where
  "LPM_Del l ip0 depth new_depth new_nexthop =
     (let ip = ip0 AND PREFIX_2_MASK depth
      in case recording_map l of
           None \<Rightarrow> dlpm64b_del l ip depth new_depth new_nexthop
         | Some R \<Rightarrow>
             (let R' = R((ip, depth) := None);
                  l1 = l\<lparr>recording_map := Some R'\<rparr>;
                  (nd, nn) = (case lpm_get_parent R' ip depth of
                                Some (d, nh) \<Rightarrow> (d, nh) | None \<Rightarrow> (new_depth, new_nexthop))
              in dlpm64b_del l1 ip depth nd nn))"

definition LPM_FindRecording :: "lpm \<Rightarrow> UINT \<Rightarrow> nat \<Rightarrow> bs_status \<times> UINT64 option" where
  "LPM_FindRecording l ip depth =
     (case recording_map l of
        None \<Rightarrow> (BS_NOT_INIT, None)
      | Some R \<Rightarrow>
          (case R (ip AND PREFIX_2_MASK depth, depth) of
             None \<Rightarrow> (BS_NO_SUCH, None) | Some nh \<Rightarrow> (BS_OK, Some nh)))"

definition LPM_Lookup :: "lpm \<Rightarrow> UINT \<Rightarrow> UINT64 option" where
  "LPM_Lookup l ip = dlpm64b_lookup l ip"

section \<open>The best route\<close>

definition best_route :: "(lpm_key \<rightharpoonup> UINT64) \<Rightarrow> match" where
  "best_route R ip = lpm_get_parent R ip 33"

definition routes_ok :: "(lpm_key \<rightharpoonup> UINT64) \<Rightarrow> bool" where
  "routes_ok R \<longleftrightarrow> (\<forall>p d nh. R (p, d) = Some nh \<longrightarrow> 1 \<le> d \<and> d \<le> 32 \<and> p = p AND PREFIX_2_MASK d)"

lemma get_parent_SomeD:
  "lpm_get_parent R ip k = Some (i, nh) \<Longrightarrow> i < k \<and> R (ip AND PREFIX_2_MASK i, i) = Some nh"
  by (induction k) (auto split: option.splits)

lemma get_parent_depth: "match_depth (lpm_get_parent R ip k) \<le> k - 1"
proof (cases "lpm_get_parent R ip k")
  case (Some r)
  then obtain i nh where "lpm_get_parent R ip k = Some (i, nh)" by (cases r) auto
  then show ?thesis using get_parent_SomeD by (fastforce simp: match_depth_def)
qed (simp add: match_depth_def)

lemma get_parent_restrict:
  "match_depth (lpm_get_parent R ip k) < j \<Longrightarrow> j \<le> k \<Longrightarrow> lpm_get_parent R ip k = lpm_get_parent R ip j"
proof (induction k)
  case (Suc k)
  then show ?case by (cases "j = Suc k") (auto simp: match_depth_def split: option.splits)
qed simp

lemma get_parent_prefix:
  "pfx k ip = pfx k ip' \<Longrightarrow> k \<le> 32 \<Longrightarrow> j \<le> Suc k \<Longrightarrow> lpm_get_parent R ip j = lpm_get_parent R ip' j"
proof (induction j)
  case (Suc j)
  have "pfx j ip = pfx j ip'" using pfx_up [of j k] Suc.prems by simp
  then have "ip AND PREFIX_2_MASK j = ip' AND PREFIX_2_MASK j" using and_mask_pfx [of j] Suc.prems by simp
  then show ?case using Suc by (simp split: option.split)
qed simp

lemma get_parent_cong:
  "(\<And>i p. i < k \<Longrightarrow> R (p, i) = R' (p, i)) \<Longrightarrow> lpm_get_parent R ip k = lpm_get_parent R' ip k"
  by (induction k) (auto split: option.split)

lemma uniform_best: "uniform (best_route R)"
  unfolding uniform_def best_route_def
proof (intro allI impI)
  fix k ip ip'
  assume k: "k \<le> 32" "pfx k ip = pfx k ip'"
    and d: "match_depth (lpm_get_parent R ip 33) \<le> k" "match_depth (lpm_get_parent R ip' 33) \<le> k"
  have "lpm_get_parent R ip 33 = lpm_get_parent R ip (Suc k)"
    "lpm_get_parent R ip' 33 = lpm_get_parent R ip' (Suc k)"
    using get_parent_restrict [of R ip 33 "Suc k"] get_parent_restrict [of R ip' 33 "Suc k"] d k by auto
  then show "lpm_get_parent R ip 33 = lpm_get_parent R ip' 33"
    using get_parent_prefix [OF k(2,1), of "Suc k" R] by simp
qed

lemma best_add:
  assumes "d \<le> 32" "p = p AND PREFIX_2_MASK d"
  shows "best_route (R((p, d) \<mapsto> nh)) = upd_match d (pfx d p) (Some (d, nh)) (best_route R)"
proof
  fix ip
  let ?R = "R((p, d) \<mapsto> nh)"
  have eq: "ip AND PREFIX_2_MASK d = p \<longleftrightarrow> pfx d ip = pfx d p"
    using and_mask_pfx [OF assms(1), of ip p] assms(2) by simp
  have small: "k \<le> d \<Longrightarrow> lpm_get_parent ?R ip k = lpm_get_parent R ip k" for k
    by (rule get_parent_cong) auto
  have "d < k \<Longrightarrow> lpm_get_parent ?R ip k =
      (if pfx d ip = pfx d p \<and> match_depth (lpm_get_parent R ip k) \<le> d then Some (d, nh)
       else lpm_get_parent R ip k)" for k
  proof (induction k)
    case (Suc k)
    show ?case
    proof (cases "k = d")
      case True
      have "match_depth (lpm_get_parent R ip (Suc d)) \<le> d"
        using get_parent_depth [of R ip "Suc d"] by simp
      then show ?thesis using True eq small [of d]
        by (cases "pfx d ip = pfx d p"; cases "R (ip AND PREFIX_2_MASK d, d)") (auto simp del: fun_upd_apply simp: fun_upd_other fun_upd_same)
    next
      case False
      then have "?R (ip AND PREFIX_2_MASK k, k) = R (ip AND PREFIX_2_MASK k, k)" "d < k"
        using Suc.prems by auto
      then show ?thesis
        using Suc.IH by (cases "R (ip AND PREFIX_2_MASK k, k)") (auto simp: match_depth_def)
    qed
  qed simp
  then have "lpm_get_parent ?R ip 33 =
      (if pfx d ip = pfx d p \<and> match_depth (lpm_get_parent R ip 33) \<le> d then Some (d, nh)
       else lpm_get_parent R ip 33)" using assms(1) by auto
  then show "best_route ?R ip = upd_match d (pfx d p) (Some (d, nh)) (best_route R) ip"
    unfolding best_route_def upd_match_def .
qed

lemma best_del:
  assumes "d \<le> 32" "p = p AND PREFIX_2_MASK d"
  shows "best_route (R((p, d) := None)) =
    upd_match d (pfx d p) (lpm_get_parent (R((p, d) := None)) p d) (best_route R)"
proof
  fix ip
  let ?R = "R((p, d) := None)"
  have eq: "ip AND PREFIX_2_MASK d = p \<longleftrightarrow> pfx d ip = pfx d p"
    using and_mask_pfx [OF assms(1), of ip p] assms(2) by simp
  have small: "lpm_get_parent ?R ip d = lpm_get_parent R ip d"
    by (rule get_parent_cong) auto
  have par: "pfx d ip = pfx d p \<Longrightarrow> lpm_get_parent ?R p d = lpm_get_parent ?R ip d"
    using get_parent_prefix [of d ip p d ?R] assms(1) by simp
  have "d < k \<Longrightarrow> lpm_get_parent ?R ip k =
      (if pfx d ip = pfx d p \<and> match_depth (lpm_get_parent R ip k) \<le> d then lpm_get_parent ?R ip d
       else lpm_get_parent R ip k)" for k
  proof (induction k)
    case (Suc k)
    show ?case
    proof (cases "k = d")
      case True
      have "match_depth (lpm_get_parent R ip (Suc d)) \<le> d"
        using get_parent_depth [of R ip "Suc d"] by simp
      then show ?thesis using True eq small
        by (cases "pfx d ip = pfx d p"; cases "R (ip AND PREFIX_2_MASK d, d)") (auto simp del: fun_upd_apply simp: fun_upd_other fun_upd_same)
    next
      case False
      then have "?R (ip AND PREFIX_2_MASK k, k) = R (ip AND PREFIX_2_MASK k, k)" "d < k"
        using Suc.prems by auto
      then show ?thesis
        using Suc.IH by (cases "R (ip AND PREFIX_2_MASK k, k)") (auto simp: match_depth_def)
    qed
  qed simp
  then have "lpm_get_parent ?R ip 33 =
      (if pfx d ip = pfx d p \<and> match_depth (lpm_get_parent R ip 33) \<le> d then lpm_get_parent ?R p d
       else lpm_get_parent R ip 33)" using assms(1) par by auto
  then show "best_route ?R ip = upd_match d (pfx d p) (lpm_get_parent ?R p d) (best_route R) ip"
    unfolding best_route_def upd_match_def .
qed

lemma best_shorter:
  assumes "d \<le> 32" "pfx d ip = pfx d p" "match_depth (best_route R ip) < d"
  shows "best_route R ip = lpm_get_parent (R((p, d) := None)) p d"
proof -
  have "best_route R ip = lpm_get_parent R ip d"
    using get_parent_restrict [of R ip 33 d] assms by (simp add: best_route_def)
  also have "\<dots> = lpm_get_parent R p d" using get_parent_prefix [of d ip p d R] assms by simp
  also have "\<dots> = lpm_get_parent (R((p, d) := None)) p d" by (rule get_parent_cong) auto
  finally show ?thesis .
qed

lemma get_parent_iff:
  "lpm_get_parent R ip k = Some (d, nh) \<longleftrightarrow>
     d < k \<and> R (ip AND PREFIX_2_MASK d, d) = Some nh \<and>
     (\<forall>d'. d < d' \<and> d' < k \<longrightarrow> R (ip AND PREFIX_2_MASK d', d') = None)"
proof (induction k)
  case (Suc k)
  show ?case
  proof (cases "R (ip AND PREFIX_2_MASK k, k)")
    case None
    then show ?thesis using Suc.IH by (auto simp: less_Suc_eq)
  next
    case (Some nh')
    then show ?thesis by (auto simp: less_Suc_eq)
  qed
qed simp

section \<open>The invariant of the table\<close>

definition lpm_ok :: "lpm \<Rightarrow> (lpm_key \<rightharpoonup> UINT64) \<Rightarrow> bool" where
  "lpm_ok l R \<longleftrightarrow> recording_map l = Some R \<and> routes_ok R \<and> sum_list (bit_num l) = 32 \<and>
     (\<forall>b\<in>set (tl (bit_num l)). b = bit_num l ! 1) \<and>
     (\<exists>es. array l = Some es \<and> table_ok (best_route R) (bit_num l) 0 0 es)"

lemma lpm_ok_lookup: "lpm_ok l R \<Longrightarrow> LPM_Lookup l ip = map_option snd (best_route R ip)"
  unfolding LPM_Lookup_def dlpm64b_lookup_def lpm_ok_def
  using lookup_table_ok [of "best_route R" "bit_num l" 0 ip] by auto

lemma pfx_less: "k \<le> 32 \<Longrightarrow> pfx k ip < 2 ^ k"
  using unat_lt2p [of ip] by (simp add: pfx_def less_mult_imp_div_less flip: power_add)

lemma meets_root: "d \<le> 32 \<Longrightarrow> meets d (pfx d p) 0 0"
  using pfx_less [of d p] by (auto simp: meets_def)

lemma mask_idem: "d \<le> 32 \<Longrightarrow> p = ip AND PREFIX_2_MASK d \<Longrightarrow> p = p AND PREFIX_2_MASK d"
  by (simp add: and.assoc)

lemma best_empty [simp]: "best_route Map.empty = (\<lambda>_. None)"
proof
  fix ip
  have "lpm_get_parent Map.empty ip k = None" for k by (induction k) auto
  then show "best_route Map.empty ip = None" unfolding best_route_def .
qed

lemma lpm_ok_init:
  assumes "LPM_EnableRecording DLPM64B_Init al = (BS_OK, l0, al0)"
    and "LPM_SetLevel l0 lv first al1 = (BS_OK, l, al2)" "2 \<le> lv"
    and "(32 - first) div (lv - 1) * (lv - 1) + first = 32"
  shows "lpm_ok l Map.empty"
proof -
  have R0: "recording_map l0 = Some Map.empty"
    using assms(1) by (auto simp: LPM_EnableRecording_def DLPM64B_Init_def split: prod.splits bool.splits)
  obtain a al' where a: "mem_ask al1 = (a, al')" by (cases "mem_ask al1") auto
  have "a" using assms(2) a by (cases a) (simp_all add: LPM_SetLevel_def dlpm64b_set_level_def Let_def)
  then have "l = l0\<lparr>array := Some (replicate (2 ^ first) (Leaf FREE_ST 0 0)),
      bit_num := first # replicate (lv - 1) ((32 - first) div (lv - 1)), level := lv\<rparr>"
    using assms(2) a by (simp add: LPM_SetLevel_def dlpm64b_set_level_def Let_def)
  then have l: "recording_map l = recording_map l0"
    "bit_num l = first # replicate (lv - 1) ((32 - first) div (lv - 1))"
    "array l = Some (replicate (2 ^ first) (Leaf FREE_ST 0 0))"
    by simp_all
  obtain k where lv: "lv = Suc (Suc k)" using assms(3) by (cases lv; cases "lv - 1") auto
  have "sum_list (replicate n b) = n * b" for n b :: nat by (induction n) auto
  then have "sum_list (bit_num l) = 32" using assms(4) by (simp add: l mult.commute)
  moreover have "table_ok (\<lambda>_. None) (bit_num l) 0 0 (replicate (2 ^ first) (Leaf FREE_ST 0 0))"
    by (simp add: l leaf_val_def)
  ultimately show ?thesis
    using R0 l lv by (simp add: lpm_ok_def routes_ok_def del: entry_ok.simps)
qed

lemma lpm_ok_add:
  assumes ok: "lpm_ok l R" and d: "depth \<le> 32" and add: "LPM_Add l ip depth nh al = (ret, l', al')"
  shows "(ret = BS_OK \<and> R (ip AND PREFIX_2_MASK depth, depth) = None \<and> 1 \<le> depth \<and>
      lpm_ok l' (R((ip AND PREFIX_2_MASK depth, depth) \<mapsto> nh))) \<or> (ret \<noteq> BS_OK \<and> lpm_ok l' R)"
proof -
  define p where "p = ip AND PREFIX_2_MASK depth"
  have p: "p = p AND PREFIX_2_MASK depth" by (simp add: p_def and.assoc)
  let ?R = "R((p, depth) \<mapsto> nh)"
  have R: "recording_map l = Some R" "routes_ok R" using ok by (simp_all add: lpm_ok_def)
  obtain a1 al1 where a1: "mem_ask al = (a1, al1)" by (cases "mem_ask al") auto
  obtain a2 al2 where a2: "mem_ask al1 = (a2, al2)" by (cases "mem_ask al1") auto
  have refused: "?thesis" if "l' = l" "ret \<noteq> BS_OK" using that ok by simp
  show ?thesis
  proof (cases "a1 \<and> R (p, depth) = None \<and> a2")
    case False
    then show ?thesis using add R(1) a1 a2 refused
      by (auto simp: LPM_Add_def Let_def p_def split: if_splits bool.splits)
  next
    case True
    let ?l1 = "l\<lparr>recording_map := Some ?R\<rparr>"
    obtain r l2 al3 where r: "dlpm64b_add ?l1 p depth nh al2 = (r, l2, al3)"
      by (cases "dlpm64b_add ?l1 p depth nh al2") auto
    have res: "ret = r \<and> l' = (if r = BS_OK then l2
        else l2\<lparr>recording_map := Some ((the (recording_map l2))((p, depth) := None))\<rparr>)"
      using add R(1) a1 a2 True r by (auto simp: LPM_Add_def Let_def p_def split: if_splits)
    have undo: "?R((p, depth) := None) = R" using True by (auto simp: fun_eq_iff)
    show ?thesis
    proof (cases "depth < 1 \<or> depth > 32")
      case bad: True
      then have "r = BS_ERR" "l2 = ?l1" using r by (auto simp: dlpm64b_add_def)
      then have "ret \<noteq> BS_OK" "l' = l" using res undo R(1) by (auto simp: fun_upd_idem_iff)
      then show ?thesis by (rule refused [rotated])
    next
      case dok: False
      obtain es where es: "array l = Some es" "table_ok (best_route R) (bit_num l) 0 0 es"
        using ok by (auto simp: lpm_ok_def simp del: entry_ok.simps)
      obtain r' es' al4 where a: "dlpm64b_add_inner (bit_num l ! 1) (bit_num l) 0 es p depth nh al2 = (r', es', al4)"
        "r' = BS_OK \<and> table_ok (upd_match depth (pfx depth p) (Some (depth, nh)) (best_route R)) (bit_num l) 0 0 es' \<or>
         r' \<noteq> BS_OK \<and> 0 < depth \<and> table_ok (best_route R) (bit_num l) 0 0 es'"
        using add_inner_ok [of "bit_num l" 0 "bit_num l ! 1" depth p "pfx depth p" 0 "best_route R" es nh al2]
          ok d dok p meets_root [OF d, of p] es(2) by (auto simp: lpm_ok_def simp del: entry_ok.simps)
      have "r = r'" "l2 = ?l1\<lparr>array := Some es'\<rparr>"
        using r a(1) es(1) dok by (auto simp: dlpm64b_add_def)
      moreover have "routes_ok ?R" using R(2) p d dok by (auto simp: routes_ok_def)
      ultimately show ?thesis
        using a(2) res ok True dok R(1) undo best_add [OF d p, of R nh]
        by (auto simp: lpm_ok_def p_def [symmetric] simp del: entry_ok.simps)
    qed
  qed
qed

lemma lpm_ok_del:
  assumes ok: "lpm_ok l R" and d: "depth \<le> 32" and del: "LPM_Del l ip depth 0 0 = (ret, l')"
  shows "ret = BS_OK \<and> lpm_ok l' (R((ip AND PREFIX_2_MASK depth, depth) := None))"
proof -
  define p where "p = ip AND PREFIX_2_MASK depth"
  have p: "p = p AND PREFIX_2_MASK depth" by (simp add: p_def and.assoc)
  let ?R = "R((p, depth) := None)"
  define v where "v = lpm_get_parent ?R p depth"
  define nd where "nd = fst (case v of Some (d, nh) \<Rightarrow> (d, nh) | None \<Rightarrow> (0, 0))"
  define nn where "nn = snd (case v of Some (d, nh) \<Rightarrow> (d, nh) | None \<Rightarrow> (0, 0 :: UINT64))"
  have R: "recording_map l = Some R" "routes_ok R" using ok by (simp_all add: lpm_ok_def)
  have R': "routes_ok ?R" using R(2) by (auto simp: routes_ok_def)
  obtain es where es: "array l = Some es" "table_ok (best_route R) (bit_num l) 0 0 es"
    using ok by (auto simp: lpm_ok_def simp del: entry_ok.simps)
  have res: "ret = BS_OK" "l' = l\<lparr>recording_map := Some ?R,
      array := Some (dlpm64b_del_inner (bit_num l) 0 es p depth nd nn)\<rparr>"
    using del R(1) es(1) by (auto simp: LPM_Del_def dlpm64b_del_def Let_def p_def v_def nd_def nn_def
        split: option.splits prod.splits)
  have vd: "v = Some (k, nh) \<Longrightarrow> 1 \<le> k \<and> k < depth" for k nh
    using R' get_parent_iff [of ?R p depth k nh] unfolding v_def routes_ok_def by blast
  let ?st = "if nd = 0 \<and> nn = 0 then INVALID_ST else VALID_ST"
  have v: "v = leaf_val ?st nd nn" "nd \<le> depth"
    using vd by (auto simp: nd_def nn_def leaf_val_def split: option.splits)
  have best: "best_route ?R = upd_match depth (pfx depth p) v (best_route R)"
    using best_del [OF d p, of R] by (simp add: v_def)
  have "table_ok (upd_match depth (pfx depth p) v (best_route R)) (bit_num l) 0 0
      (dlpm64b_del_inner (bit_num l) 0 es p depth nd nn)"
  proof (rule del_inner_ok [OF _ d p refl meets_root [OF d] es(2) refl v])
    fix x assume "pfx depth x = pfx depth p" "match_depth (best_route R x) < depth"
    then show "best_route R x = v" using best_shorter [OF d] by (simp add: v_def)
  next
    show "uniform (upd_match depth (pfx depth p) v (best_route R))" using uniform_best [of ?R] best by simp
  qed (use ok in \<open>simp add: lpm_ok_def\<close>)
  then show ?thesis
    using res ok R' best by (simp add: lpm_ok_def p_def [symmetric] del: entry_ok.simps)
qed

section \<open>Reachable tables\<close>

text \<open>
  A table with recording on, set up within the bounds \<^verbatim>\<open>LPM_SetLevel\<close> asserts, and changed by any
  additions and deletions, with any outcome of the allocations. A deletion passes no
  replacement of its own.
\<close>

inductive lpm_reach :: "lpm \<Rightarrow> bool" where
  init: "LPM_EnableRecording DLPM64B_Init al = (BS_OK, l0, al0) \<Longrightarrow>
    LPM_SetLevel l0 lv first al1 = (BS_OK, l, al2) \<Longrightarrow> 2 \<le> lv \<Longrightarrow> lv \<le> 8 \<Longrightarrow>
    8 \<le> first \<Longrightarrow> first \<le> 24 \<Longrightarrow> (32 - first) div (lv - 1) * (lv - 1) + first = 32 \<Longrightarrow> lpm_reach l"
| add: "lpm_reach l \<Longrightarrow> depth \<le> 32 \<Longrightarrow> LPM_Add l ip depth nh al = (ret, l', al') \<Longrightarrow> lpm_reach l'"
| del: "lpm_reach l \<Longrightarrow> depth \<le> 32 \<Longrightarrow> LPM_Del l ip depth 0 0 = (ret, l') \<Longrightarrow> lpm_reach l'"

lemma reach_ok: "lpm_reach l \<Longrightarrow> \<exists>R. lpm_ok l R"
proof (induction rule: lpm_reach.induct)
  case (init al l0 al0 lv first al1 l al2)
  then show ?case using lpm_ok_init by blast
next
  case (add l depth ip nh al ret l' al')
  then show ?case using lpm_ok_add by blast
next
  case (del l depth ip ret l')
  then show ?case using lpm_ok_del by blast
qed

lemma reach_recorded: "lpm_reach l \<Longrightarrow> recording_map l = Some R \<Longrightarrow> lpm_ok l R"
  using reach_ok [of l] by (auto simp: lpm_ok_def)

definition example_lpm :: lpm where
  "example_lpm = fst (snd (LPM_SetLevel (fst (snd (LPM_EnableRecording DLPM64B_Init []))) 4 8 []))"

lemma example_reach: "lpm_reach example_lpm"
  by (rule lpm_reach.init [of "[]" "fst (snd (LPM_EnableRecording DLPM64B_Init []))" "[]" 4 8 "[]" _ "[]"])
    (simp_all add: example_lpm_def LPM_EnableRecording_def LPM_SetLevel_def dlpm64b_set_level_def
      DLPM64B_Init_def Let_def)

lemma example_recorded: "recording_map example_lpm = Some Map.empty"
  by (simp add: example_lpm_def LPM_EnableRecording_def LPM_SetLevel_def dlpm64b_set_level_def
      DLPM64B_Init_def Let_def)

lemma example_add_reach:
  "lpm_reach (fst (snd (LPM_Add example_lpm 0x0A000000 8 7 [])))"
  by (rule lpm_reach.add [OF example_reach, of 8 "0x0A000000" 7 "[]"
      "fst (LPM_Add example_lpm 0x0A000000 8 7 [])" _ "snd (snd (LPM_Add example_lpm 0x0A000000 8 7 []))"]) simp_all

section \<open>Properties\<close>

text \<open>C10: a lookup in a reachable table answers with the longest prefix match over the recorded
  routes: it returns a next hop exactly when some recorded route of depth \<open>d\<close> matches the
  address, has that next hop, and no recorded route that is longer matches.\<close>

theorem LPM_lookup_longest_prefix:
  assumes "lpm_reach l" "recording_map l = Some R"
  shows "LPM_Lookup l ip = Some nh \<longleftrightarrow>
    (\<exists>d\<le>32. R (ip AND PREFIX_2_MASK d, d) = Some nh \<and>
       (\<forall>d'. d < d' \<and> d' \<le> 32 \<longrightarrow> R (ip AND PREFIX_2_MASK d', d') = None))"
proof -
  have lt: "d < 33 \<longleftrightarrow> d \<le> 32" for d :: nat by auto
  have "LPM_Lookup l ip = Some nh \<longleftrightarrow> (\<exists>d. best_route R ip = Some (d, nh))"
    using lpm_ok_lookup [OF reach_recorded [OF assms], of ip] by auto
  also have "\<dots> \<longleftrightarrow> (\<exists>d. lpm_get_parent R ip 33 = Some (d, nh))" unfolding best_route_def ..
  finally show ?thesis unfolding get_parent_iff lt by blast
qed

theorem LPM_lookup_longest_prefix_witness:
  "\<forall>ip. LPM_Lookup example_lpm ip \<noteq> Some 7"
proof
  fix ip
  show "LPM_Lookup example_lpm ip \<noteq> Some 7"
    using LPM_lookup_longest_prefix [OF example_reach example_recorded, of ip 7] by simp
qed

text \<open>C11: \<open>LPM_Add\<close> on a reachable table either succeeds, for a depth from 1 to 32 and a prefix
  not yet recorded, and records the route; the addresses of the prefix whose best route is
  not longer now go to the new next hop, all others as before; or it fails, at any of its
  allocations included, and then the recorded routes and every lookup are as before.\<close>

theorem LPM_Add_correct:
  assumes "lpm_reach l" "recording_map l = Some R" "depth \<le> 32"
    and "LPM_Add l ip depth nh al = (ret, l', al')"
  shows "if ret = BS_OK
    then R (ip AND PREFIX_2_MASK depth, depth) = None \<and> 1 \<le> depth \<and>
      recording_map l' = Some (R((ip AND PREFIX_2_MASK depth, depth) \<mapsto> nh)) \<and>
      LPM_Lookup l' x = (if x AND PREFIX_2_MASK depth = ip AND PREFIX_2_MASK depth \<and>
          match_depth (best_route R x) \<le> depth then Some nh else LPM_Lookup l x)
    else recording_map l' = Some R \<and> LPM_Lookup l' x = LPM_Lookup l x"
proof -
  note ok = reach_recorded [OF assms(1,2)]
  let ?p = "ip AND PREFIX_2_MASK depth"
  have p: "?p = ?p AND PREFIX_2_MASK depth" by (simp add: and.assoc)
  have "x AND PREFIX_2_MASK depth = ?p \<longleftrightarrow> pfx depth x = pfx depth ?p"
    using and_mask_pfx [OF assms(3), of x ?p] p by simp
  then have "best_route (R((?p, depth) \<mapsto> nh)) x =
      (if x AND PREFIX_2_MASK depth = ?p \<and> match_depth (best_route R x) \<le> depth then Some (depth, nh)
       else best_route R x)"
    using best_add [OF assms(3) p, of R nh] by (simp add: upd_match_def)
  then show ?thesis
    using lpm_ok_add [OF ok assms(3,4)] lpm_ok_lookup [OF ok, of x] lpm_ok_lookup [of l' _ x]
    by (auto simp: lpm_ok_def simp del: entry_ok.simps)
qed

theorem LPM_Add_correct_witness:
  "(let r = LPM_Add example_lpm 0x0A000000 8 7 [False]
    in if fst r = BS_OK then recording_map (fst (snd r)) \<noteq> Some Map.empty
       else LPM_Lookup (fst (snd r)) 0x0A010203 = LPM_Lookup example_lpm 0x0A010203)"
  using LPM_Add_correct [OF example_reach example_recorded, of 8 "0x0A000000" 7 "[False]" _ _ _ "0x0A010203"]
  by (cases "LPM_Add example_lpm 0x0A000000 8 7 [False]") (auto simp: Let_def fun_eq_iff)

text \<open>C12: \<open>LPM_Del\<close> on a reachable table succeeds and drops the route from the record; the
  addresses of the prefix whose best route is not longer fall back to the longest recorded
  route above the deleted one, or to none, and all others keep their route.\<close>

theorem LPM_Del_correct:
  assumes "lpm_reach l" "recording_map l = Some R" "depth \<le> 32"
    and "LPM_Del l ip depth 0 0 = (ret, l')"
  shows "ret = BS_OK \<and> recording_map l' = Some (R((ip AND PREFIX_2_MASK depth, depth) := None)) \<and>
    LPM_Lookup l' x = (if x AND PREFIX_2_MASK depth = ip AND PREFIX_2_MASK depth \<and>
        match_depth (best_route R x) \<le> depth
      then map_option snd (lpm_get_parent R (ip AND PREFIX_2_MASK depth) depth)
      else LPM_Lookup l x)"
proof -
  note ok = reach_recorded [OF assms(1,2)]
  let ?p = "ip AND PREFIX_2_MASK depth"
  let ?R = "R((?p, depth) := None)"
  have p: "?p = ?p AND PREFIX_2_MASK depth" by (simp add: and.assoc)
  have "x AND PREFIX_2_MASK depth = ?p \<longleftrightarrow> pfx depth x = pfx depth ?p"
    using and_mask_pfx [OF assms(3), of x ?p] p by simp
  moreover have "lpm_get_parent ?R ?p depth = lpm_get_parent R ?p depth"
    by (rule get_parent_cong) auto
  ultimately have "best_route ?R x =
      (if x AND PREFIX_2_MASK depth = ?p \<and> match_depth (best_route R x) \<le> depth
       then lpm_get_parent R ?p depth else best_route R x)"
    using best_del [OF assms(3) p, of R] by (simp add: upd_match_def)
  then show ?thesis
    using lpm_ok_del [OF ok assms(3,4)] lpm_ok_lookup [OF ok, of x] lpm_ok_lookup [of l' ?R x]
    by (auto simp: lpm_ok_def simp del: entry_ok.simps)
qed

theorem LPM_Del_correct_witness:
  "fst (LPM_Del example_lpm 0x0A000000 8 0 0) = BS_OK"
  using LPM_Del_correct [OF example_reach example_recorded, of 8 "0x0A000000"]
  by (cases "LPM_Del example_lpm 0x0A000000 8 0 0") auto

end
