(* ===== verification/DArray.thy ===== *)
theory DArray
  imports Prelude
begin

text \<open>
  The growing array of \<^verbatim>\<open>array/darray_utl.c\<close>. A handle is an \<open>option\<close>; NULL (\<open>None\<close>) marks a free
  slot. Sizes and indices are natural numbers below \<open>2 ^ 32\<close>, with the wrap-around of the
  code's additions written out. \<open>alloc\<close> says whether the allocator returns a block.
\<close>

definition DARRAY_INVALID_INDEX :: nat where
  "DARRAY_INVALID_INDEX = 0xffffffff"

definition DARRAY_DFT_STEP_SIZE :: nat where
  "DARRAY_DFT_STEP_SIZE = 128"

record 'h darray =
  uiSize :: nat
  step_num :: nat
  phArray :: "'h option list"

definition darray_Expand :: "bool \<Rightarrow> 'h darray \<Rightarrow> nat \<Rightarrow> bs_status \<times> 'h darray" where
  "darray_Expand alloc d newsize =
     (if uiSize d \<ge> newsize then (BS_OK, d)
      else if \<not> alloc then (BS_FULL, d)
      else (BS_OK, d\<lparr>phArray := take (uiSize d) (phArray d) @ replicate (newsize - uiSize d) None,
                     uiSize := newsize\<rparr>))"

text \<open>The loop of \<^verbatim>\<open>darray_AddToSpace\<close> from slot \<open>i\<close>.\<close>

fun add_to_space :: "'h option \<Rightarrow> nat \<Rightarrow> 'h option list \<Rightarrow> nat \<times> 'h option list" where
  "add_to_space h i [] = (DARRAY_INVALID_INDEX, [])"
| "add_to_space h i (x # xs) =
     (if x = None then (i, h # xs)
      else (case add_to_space h (Suc i) xs of (r, xs') \<Rightarrow> (r, x # xs')))"

definition darray_AddToSpace :: "'h darray \<Rightarrow> 'h option \<Rightarrow> nat \<times> 'h darray" where
  "darray_AddToSpace d h =
     (case add_to_space h 0 (take (uiSize d) (phArray d)) of
        (r, xs) \<Rightarrow> (r, d\<lparr>phArray := xs @ drop (uiSize d) (phArray d)\<rparr>))"

definition darray_ExpandAndAdd :: "bool \<Rightarrow> 'h darray \<Rightarrow> 'h option \<Rightarrow> nat \<times> 'h darray" where
  "darray_ExpandAndAdd alloc d h =
     (let i = uiSize d
      in case darray_Expand alloc d ((uiSize d + step_num d) mod 2 ^ 32) of
           (st, d') \<Rightarrow>
             if st \<noteq> BS_OK then (DARRAY_INVALID_INDEX, d')
             else (i, d'\<lparr>phArray := (phArray d')[i := h]\<rparr>))"

definition DARRAY_Create :: "bool \<Rightarrow> bool \<Rightarrow> nat \<Rightarrow> nat \<Rightarrow> 'h darray option" where
  "DARRAY_Create alloc_ctrl alloc_array init_num step =
     (if \<not> alloc_ctrl then None
      else if init_num \<noteq> 0 \<and> \<not> alloc_array then None
      else Some \<lparr>uiSize = init_num, step_num = (if step = 0 then DARRAY_DFT_STEP_SIZE else step),
                 phArray = replicate init_num None\<rparr>)"

definition DARRAY_Add :: "bool \<Rightarrow> 'h darray \<Rightarrow> 'h option \<Rightarrow> nat \<times> 'h darray" where
  "DARRAY_Add alloc d h =
     (case darray_AddToSpace d h of
        (i, d') \<Rightarrow> if i = DARRAY_INVALID_INDEX then darray_ExpandAndAdd alloc d' h else (i, d'))"

definition DARRAY_Set :: "bool \<Rightarrow> 'h darray \<Rightarrow> nat \<Rightarrow> 'h option \<Rightarrow> bs_status \<times> 'h darray" where
  "DARRAY_Set alloc d i h =
     (if i \<ge> uiSize d then
        (case darray_Expand alloc d ((i + 1) mod 2 ^ 32) of
           (st, d') \<Rightarrow>
             if st \<noteq> BS_OK then (BS_NO_MEMORY, d')
             else (BS_OK, d'\<lparr>phArray := (phArray d')[i := h]\<rparr>))
      else (BS_OK, d\<lparr>phArray := (phArray d)[i := h]\<rparr>))"

definition DARRAY_Get :: "'h darray \<Rightarrow> nat \<Rightarrow> 'h option" where
  "DARRAY_Get d i = (if i \<ge> uiSize d then None else phArray d ! i)"

text \<open>
  \<^verbatim>\<open>DARRAY_FindIntData\<close> compares up to and including slot \<open>uiSize\<close>, which is one past the end; \<open>past\<close>
  is what the memory there holds.
\<close>

definition DARRAY_FindIntData :: "'h option \<Rightarrow> 'h darray \<Rightarrow> 'h option \<Rightarrow> nat" where
  "DARRAY_FindIntData past d h =
     (case find (\<lambda>i. h = (phArray d @ [past]) ! i) [0..<uiSize d + 1] of
        Some i \<Rightarrow> i | None \<Rightarrow> DARRAY_INVALID_INDEX)"

definition DARRAY_Clear :: "'h darray \<Rightarrow> nat \<Rightarrow> 'h option \<times> 'h darray" where
  "DARRAY_Clear d i =
     (if i \<ge> uiSize d then (None, d)
      else (phArray d ! i, d\<lparr>phArray := (phArray d)[i := None]\<rparr>))"

definition DARRAY_GetSize :: "'h darray \<Rightarrow> nat" where
  "DARRAY_GetSize d = uiSize d"

section \<open>The array as a finite map\<close>

definition darray_inv :: "'h darray \<Rightarrow> bool" where
  [inv_defs]: "darray_inv d \<longleftrightarrow>
     length (phArray d) = uiSize d \<and> uiSize d < 2 ^ 32 - 1 \<and> 0 < step_num d \<and> step_num d < 2 ^ 16"

text \<open>What \<^verbatim>\<open>DARRAY_Get\<close> sees.\<close>

lemma Get_outside: "uiSize d \<le> i \<Longrightarrow> DARRAY_Get d i = None"
  by (simp add: DARRAY_Get_def)

lemma Get_update:
  "length (phArray d) = uiSize d \<Longrightarrow> i < uiSize d \<Longrightarrow>
     DARRAY_Get (d\<lparr>phArray := (phArray d)[i := h]\<rparr>) j = (if j = i then h else DARRAY_Get d j)"
  by (auto simp: DARRAY_Get_def nth_list_update)

lemma Expand_inv:
  assumes "darray_inv d" "n < 2 ^ 32 - 1"
  shows "darray_inv (snd (darray_Expand alloc d n))"
    and "DARRAY_Get (snd (darray_Expand alloc d n)) i = DARRAY_Get d i"
    and "fst (darray_Expand alloc d n) = BS_OK \<Longrightarrow> n \<le> uiSize (snd (darray_Expand alloc d n))"
  using assms by (auto simp: darray_Expand_def darray_inv_def DARRAY_Get_def nth_append split: if_splits)

lemma add_to_space_spec:
  assumes "i + length xs < DARRAY_INVALID_INDEX"
  shows "(if None \<in> set xs
     then \<exists>j<length xs. add_to_space h i xs = (i + j, xs[j := h]) \<and> xs ! j = None \<and> None \<notin> set (take j xs)
     else add_to_space h i xs = (DARRAY_INVALID_INDEX, xs))"
  using assms
proof (induction h i xs rule: add_to_space.induct)
  case (2 h i x xs)
  show ?case
  proof (cases "x = None")
    case False
    then have IH: "if None \<in> set xs
       then \<exists>j<length xs. add_to_space h (Suc i) xs = (Suc i + j, xs[j := h]) \<and> xs ! j = None \<and> None \<notin> set (take j xs)
       else add_to_space h (Suc i) xs = (DARRAY_INVALID_INDEX, xs)"
      using 2 by simp
    show ?thesis
    proof (cases "None \<in> set xs")
      case True
      then obtain j where "j < length xs" "add_to_space h (Suc i) xs = (Suc i + j, xs[j := h])"
        "xs ! j = None" "None \<notin> set (take j xs)" using IH by auto
      then show ?thesis using False True by (auto intro!: exI [of _ "Suc j"])
    qed (use IH False in auto)
  qed (auto intro!: exI [of _ 0])
qed simp

text \<open>Adding fills the first free slot, or the first slot of a grown array.\<close>

lemma DARRAY_Add_spec:
  assumes inv: "darray_inv d" and room: "uiSize d + step_num d < 2 ^ 32 - 1"
    and ok: "alloc \<or> None \<in> set (phArray d)"
  obtains i where "fst (DARRAY_Add alloc d h) = i" "i \<noteq> DARRAY_INVALID_INDEX" "DARRAY_Get d i = None"
    "\<forall>j<i. DARRAY_Get d j \<noteq> None" "darray_inv (snd (DARRAY_Add alloc d h))"
    "\<forall>j. DARRAY_Get (snd (DARRAY_Add alloc d h)) j = (if j = i then h else DARRAY_Get d j)"
    "uiSize d \<le> uiSize (snd (DARRAY_Add alloc d h))"
proof -
  have len: "length (phArray d) = uiSize d" "uiSize d < DARRAY_INVALID_INDEX"
    using inv by (simp_all add: darray_inv_def DARRAY_INVALID_INDEX_def)
  note spec = add_to_space_spec [of 0 "phArray d" h]
  show thesis
  proof (cases "None \<in> set (phArray d)")
    case True
    then obtain j where j: "j < uiSize d" "add_to_space h 0 (phArray d) = (j, (phArray d)[j := h])"
      "phArray d ! j = None" "None \<notin> set (take j (phArray d))" using spec len by auto
    have add: "DARRAY_Add alloc d h = (j, d\<lparr>phArray := (phArray d)[j := h]\<rparr>)"
      using j len by (simp add: DARRAY_Add_def darray_AddToSpace_def)
    have "DARRAY_Get d i \<noteq> None" if "i < j" for i
      using that j len by (auto simp: DARRAY_Get_def in_set_conv_nth)
    then show thesis
      using that [of j] add j len inv Get_update [OF len(1) j(1), of h]
      by (simp add: DARRAY_Get_def darray_inv_def)
  next
    case False
    then have "alloc" using ok by simp
    obtain d' where e: "darray_Expand alloc d (uiSize d + step_num d) = (BS_OK, d')"
      "uiSize d' = uiSize d + step_num d"
      using inv \<open>alloc\<close> by (simp add: darray_Expand_def darray_inv_def)
    have "add_to_space h 0 (phArray d) = (DARRAY_INVALID_INDEX, phArray d)" using spec False len by auto
    then have add: "DARRAY_Add alloc d h = (uiSize d, d'\<lparr>phArray := (phArray d')[uiSize d := h]\<rparr>)"
      using room e len by (simp add: DARRAY_Add_def darray_AddToSpace_def darray_ExpandAndAdd_def Let_def)
    have inv': "darray_inv d'" "\<And>i. DARRAY_Get d' i = DARRAY_Get d i"
      using Expand_inv(1,2) [OF inv room, of alloc] e(1) by simp_all
    have "uiSize d < uiSize d'" "length (phArray d') = uiSize d'"
      using e(2) inv inv'(1) by (simp_all add: darray_inv_def)
    moreover have "DARRAY_Get d i \<noteq> None" if "i < uiSize d" for i
      using that False len by (auto simp: DARRAY_Get_def in_set_conv_nth)
    ultimately show thesis
      using that [of "uiSize d"] add inv' len Get_update [of d' "uiSize d" h] e(2)
      by (simp add: Get_outside darray_inv_def)
  qed
qed

lemma DARRAY_Set_inside:
  "i < uiSize d \<Longrightarrow> DARRAY_Set alloc d i h = (BS_OK, d\<lparr>phArray := (phArray d)[i := h]\<rparr>)"
  by (simp add: DARRAY_Set_def)

lemma DARRAY_Set_spec:
  assumes "darray_inv d" "i + 1 < 2 ^ 32 - 1"
  shows "if fst (DARRAY_Set alloc d i h) = BS_OK
    then darray_inv (snd (DARRAY_Set alloc d i h)) \<and>
      (\<forall>j. DARRAY_Get (snd (DARRAY_Set alloc d i h)) j = (if j = i then h else DARRAY_Get d j))
    else snd (DARRAY_Set alloc d i h) = d \<and> uiSize d \<le> i \<and> \<not> alloc"
proof (cases "i < uiSize d")
  case True
  then show ?thesis
    using assms Get_update [of d i h] by (simp add: DARRAY_Set_inside darray_inv_def)
next
  case False
  obtain st d' where e: "darray_Expand alloc d (i + 1) = (st, d')" by (cases "darray_Expand alloc d (i + 1)")
  have e': "darray_inv d'" "\<And>j. DARRAY_Get d' j = DARRAY_Get d j" "st = BS_OK \<Longrightarrow> i + 1 \<le> uiSize d'"
    using Expand_inv [OF assms, of alloc] e by auto
  have "st \<noteq> BS_OK \<Longrightarrow> d' = d \<and> \<not> alloc" using e by (auto simp: darray_Expand_def split: if_splits)
  then show ?thesis
    using False assms e e' Get_update [of d' i h]
    by (auto simp: DARRAY_Set_def darray_inv_def)
qed

section \<open>Properties\<close>

text \<open>Seen through \<^verbatim>\<open>DARRAY_Get\<close>, the array is a map from indices to handles: \<open>DARRAY_Add\<close> binds the
  least free index and returns it, growing the array when no slot is free; \<open>DARRAY_Set\<close> binds its
  index or, when the growth it needs fails, changes nothing; \<open>DARRAY_Clear\<close> returns a
  binding and removes it. Every other index keeps its handle.\<close>

theorem DARRAY_is_map:
  assumes "darray_inv d" "uiSize d + step_num d < 2 ^ 32 - 1" "k + 1 < 2 ^ 32 - 1"
    and "alloc \<or> None \<in> set (phArray d)"
  shows "(\<exists>i. fst (DARRAY_Add alloc d h) = i \<and> DARRAY_Get d i = None \<and> (\<forall>j<i. DARRAY_Get d j \<noteq> None) \<and>
      darray_inv (snd (DARRAY_Add alloc d h)) \<and>
      (\<forall>j. DARRAY_Get (snd (DARRAY_Add alloc d h)) j = (if j = i then h else DARRAY_Get d j))) \<and>
    (if fst (DARRAY_Set alloc2 d k h) = BS_OK
     then darray_inv (snd (DARRAY_Set alloc2 d k h)) \<and>
       (\<forall>j. DARRAY_Get (snd (DARRAY_Set alloc2 d k h)) j = (if j = k then h else DARRAY_Get d j))
     else snd (DARRAY_Set alloc2 d k h) = d \<and> uiSize d \<le> k \<and> \<not> alloc2) \<and>
    fst (DARRAY_Clear d k) = DARRAY_Get d k \<and> darray_inv (snd (DARRAY_Clear d k)) \<and>
    (\<forall>j. DARRAY_Get (snd (DARRAY_Clear d k)) j = (if j = k then None else DARRAY_Get d j))"
proof -
  have "fst (DARRAY_Clear d k) = DARRAY_Get d k \<and> darray_inv (snd (DARRAY_Clear d k)) \<and>
    (\<forall>j. DARRAY_Get (snd (DARRAY_Clear d k)) j = (if j = k then None else DARRAY_Get d j))"
    using assms(1) Get_update [of d k None]
    by (auto simp: DARRAY_Clear_def darray_inv_def DARRAY_Get_def)
  moreover obtain i where "fst (DARRAY_Add alloc d h) = i" "DARRAY_Get d i = None"
    "\<forall>j<i. DARRAY_Get d j \<noteq> None" "darray_inv (snd (DARRAY_Add alloc d h))"
    "\<forall>j. DARRAY_Get (snd (DARRAY_Add alloc d h)) j = (if j = i then h else DARRAY_Get d j)"
    using DARRAY_Add_spec [OF assms(1,2,4), of h] by metis
  ultimately show ?thesis using DARRAY_Set_spec [OF assms(1,3), of alloc2 h] by blast
qed

end
