(* ===== verification/BinaryHeap.thy ===== *)
theory BinaryHeap
  imports DArray Dll Interfaces
begin

text \<open>
  The binary min-heap of \<^verbatim>\<open>heap/binary_heap.c\<close> on the growing array of \<^theory_text>\<open>DArray\<close>. Indices and the
  element count are natural numbers below \<open>2 ^ 32\<close>, with the wrap-around written out. The loop
  that moves an element down may, with an unreasonable comparator and more than \<open>2 ^ 31\<close> elements,
  go round for ever: it is a partial function whose \<open>None\<close> means that it does not return.
\<close>

type_synonym 'h heap_cmp = "'h option \<Rightarrow> 'h option \<Rightarrow> int"

record 'h binary_heap =
  hDarray :: "'h darray"
  pfCmp :: "'h heap_cmp"
  count :: nat

text \<open>The record comes in uninitialised and \<^verbatim>\<open>BinaryHeap_Init\<close> does not set the count: it stays
  \<open>count0\<close>.\<close>

definition BinaryHeap_Init :: "bool \<Rightarrow> bool \<Rightarrow> nat \<Rightarrow> 'h heap_cmp \<Rightarrow> bs_status \<times> 'h binary_heap option" where
  "BinaryHeap_Init alloc_ctrl alloc_array count0 cmp =
     (case DARRAY_Create alloc_ctrl alloc_array 1024 128 of
        None \<Rightarrow> (BS_NO_MEMORY, None)
      | Some d \<Rightarrow> (BS_OK, Some \<lparr>hDarray = d, pfCmp = cmp, count = count0\<rparr>))"

definition BinaryHeap_SetCmpFunc :: "'h heap_cmp \<Rightarrow> 'h binary_heap \<Rightarrow> 'h binary_heap" where
  "BinaryHeap_SetCmpFunc cmp heap = heap\<lparr>pfCmp := cmp\<rparr>"

fun get_index_loop :: "'h heap_cmp \<Rightarrow> 'h darray \<Rightarrow> 'h option \<Rightarrow> nat list \<Rightarrow> nat" where
  "get_index_loop cmp d x [] = DARRAY_INVALID_INDEX"
| "get_index_loop cmp d x (i # is) =
     (if cmp x (DARRAY_Get d i) = 0 then i else get_index_loop cmp d x is)"

definition binaryheap_GetIndex :: "'h binary_heap \<Rightarrow> 'h option \<Rightarrow> 'h heap_cmp \<Rightarrow> nat" where
  "binaryheap_GetIndex heap x cmp = get_index_loop cmp (hDarray heap) x [0..<count heap]"

text \<open>The loop of \<^verbatim>\<open>binaryheap_Up\<close>; \<open>c\<close> is the hole.\<close>

function up_loop :: "bool \<Rightarrow> 'h heap_cmp \<Rightarrow> 'h option \<Rightarrow> 'h darray \<Rightarrow> nat \<Rightarrow> nat \<times> 'h darray" where
  "up_loop alloc cmp current d c =
     (if c > 0 then
        let p = (c - 1) div 2; parrent = DARRAY_Get d p
        in if cmp current parrent \<ge> 0 then (c, d)
           else up_loop alloc cmp current (snd (DARRAY_Set alloc d c parrent)) p
      else (c, d))"
  by pat_completeness auto
termination by (relation "measure (\<lambda>(alloc, cmp, current, d, c). c)") auto

definition binaryheap_Up :: "bool \<Rightarrow> 'h binary_heap \<Rightarrow> nat \<Rightarrow> 'h heap_cmp \<Rightarrow> 'h binary_heap" where
  "binaryheap_Up alloc heap index cmp =
     (let current = DARRAY_Get (hDarray heap) index;
          (c, d) = up_loop alloc cmp current (hDarray heap) index
      in heap\<lparr>hDarray := snd (DARRAY_Set alloc d c current)\<rparr>)"

definition binaryheap_GetMinChild :: "'h darray \<Rightarrow> nat \<Rightarrow> nat \<Rightarrow> 'h heap_cmp \<Rightarrow> nat" where
  "binaryheap_GetMinChild d cnt index cmp =
     (let l = (2 * index + 1) mod 2 ^ 32; r = (l + 1) mod 2 ^ 32
      in if l \<ge> cnt then DARRAY_INVALID_INDEX
         else if r \<ge> cnt then l
         else if cmp (DARRAY_Get d l) (DARRAY_Get d r) < 0 then l else r)"

partial_function (option) down_loop ::
  "bool \<Rightarrow> 'h heap_cmp \<Rightarrow> 'h option \<Rightarrow> nat \<Rightarrow> 'h darray \<Rightarrow> nat \<Rightarrow> (nat \<times> 'h darray) option" where
  "down_loop alloc cmp current cnt d c =
     (if c < cnt then
        (let n = binaryheap_GetMinChild d cnt c cmp
         in if n = DARRAY_INVALID_INDEX then Some (c, d)
            else let nxt = DARRAY_Get d n
                 in if cmp current nxt \<le> 0 then Some (c, d)
                    else down_loop alloc cmp current cnt (snd (DARRAY_Set alloc d c nxt)) n)
      else Some (c, d))"

definition binaryheap_Down :: "bool \<Rightarrow> 'h binary_heap \<Rightarrow> nat \<Rightarrow> 'h heap_cmp \<Rightarrow> 'h binary_heap option" where
  "binaryheap_Down alloc heap index cmp =
     (let current = DARRAY_Get (hDarray heap) index
      in case down_loop alloc cmp current (count heap) (hDarray heap) index of
           None \<Rightarrow> None
         | Some (c, d) \<Rightarrow> Some (heap\<lparr>hDarray := snd (DARRAY_Set alloc d c current)\<rparr>))"

definition BinaryHeap_Insert :: "bool \<Rightarrow> 'h binary_heap \<Rightarrow> 'h option \<Rightarrow> bs_status \<times> 'h binary_heap" where
  "BinaryHeap_Insert alloc heap new_data =
     (case DARRAY_Add alloc (hDarray heap) new_data of (index, d) \<Rightarrow>
        if index = DARRAY_INVALID_INDEX then (BS_ERR, heap\<lparr>hDarray := d\<rparr>)
        else (BS_OK, binaryheap_Up alloc
                       (heap\<lparr>hDarray := d, count := (count heap + 1) mod 2 ^ 32\<rparr>) index (pfCmp heap)))"

definition BinaryHeap_RemoveIndex :: "bool \<Rightarrow> 'h binary_heap \<Rightarrow> nat \<Rightarrow> ('h option \<times> 'h binary_heap) option" where
  "BinaryHeap_RemoveIndex alloc heap index =
     (let cnt = count heap
      in if index \<ge> cnt then Some (None, heap)
         else
           let lst = DARRAY_Get (hDarray heap) (cnt - 1);
               d = snd (DARRAY_Set alloc (hDarray heap) (cnt - 1) None);
               heap = heap\<lparr>hDarray := d, count := cnt - 1\<rparr>
           in if index = cnt - 1 then Some (lst, heap)
              else
                let deleted = DARRAY_Get d index;
                    heap = heap\<lparr>hDarray := snd (DARRAY_Set alloc d index lst)\<rparr>;
                    heap = binaryheap_Up alloc heap index (pfCmp heap)
                in map_option (\<lambda>heap. (deleted, heap)) (binaryheap_Down alloc heap index (pfCmp heap)))"

definition BinaryHeap_RemoveData :: "bool \<Rightarrow> 'h binary_heap \<Rightarrow> 'h option \<Rightarrow> (bs_status \<times> 'h binary_heap) option" where
  "BinaryHeap_RemoveData alloc heap x =
     (let index = binaryheap_GetIndex heap x (pfCmp heap)
      in if index = DARRAY_INVALID_INDEX then Some (BS_NOT_FOUND, heap)
         else map_option (\<lambda>(r, heap). (BS_OK, heap)) (BinaryHeap_RemoveIndex alloc heap index))"

section \<open>Heap order on lists\<close>

definition par :: "nat \<Rightarrow> nat" where
  "par i = (i - 1) div 2"

lemma par_less: "0 < i \<Longrightarrow> par i < i"
  unfolding par_def by arith

lemma par_le: "par i \<le> i"
  unfolding par_def by arith

lemma par_eq: "0 < i \<Longrightarrow> par i = c \<longleftrightarrow> i = 2 * c + 1 \<or> i = 2 * c + 2"
  unfolding par_def by arith

definition heap_ordered :: "('h \<Rightarrow> 'h \<Rightarrow> int) \<Rightarrow> 'h list \<Rightarrow> bool" where
  [inv_defs]: "heap_ordered cmp xs \<longleftrightarrow> (\<forall>i<length xs. 0 < i \<longrightarrow> cmp (xs ! par i) (xs ! i) \<le> 0)"

text \<open>The order with one exception: the element at \<open>c\<close> may be too small for its parent, or too great for
  its children. The other edges hold, also across \<open>c\<close>.\<close>

definition up_ordered :: "('h \<Rightarrow> 'h \<Rightarrow> int) \<Rightarrow> nat \<Rightarrow> 'h list \<Rightarrow> bool" where
  "up_ordered cmp c xs \<longleftrightarrow>
     (\<forall>i<length xs. 0 < i \<longrightarrow> i \<noteq> c \<longrightarrow> cmp (xs ! par i) (xs ! i) \<le> 0) \<and>
     (\<forall>i<length xs. 0 < i \<longrightarrow> par i = c \<longrightarrow> 0 < c \<longrightarrow> cmp (xs ! par c) (xs ! i) \<le> 0)"

definition down_ordered :: "('h \<Rightarrow> 'h \<Rightarrow> int) \<Rightarrow> nat \<Rightarrow> 'h list \<Rightarrow> bool" where
  "down_ordered cmp c xs \<longleftrightarrow>
     (\<forall>i<length xs. 0 < i \<longrightarrow> par i \<noteq> c \<longrightarrow> cmp (xs ! par i) (xs ! i) \<le> 0) \<and>
     (\<forall>i<length xs. 0 < i \<longrightarrow> par i = c \<longrightarrow> 0 < c \<longrightarrow> cmp (xs ! par c) (xs ! i) \<le> 0)"

abbreviation swapped :: "'h list \<Rightarrow> nat \<Rightarrow> nat \<Rightarrow> 'h list" where
  "swapped xs i j \<equiv> xs[i := xs ! j, j := xs ! i]"

lemma heap_root_min:
  assumes "cmp_order cmp" "heap_ordered cmp xs" "i < length xs"
  shows "cmp (xs ! 0) (xs ! i) \<le> 0"
  using assms(3)
proof (induction i rule: less_induct)
  case (less i)
  show ?case
  proof (cases "i = 0")
    case False
    then have "cmp (xs ! 0) (xs ! par i) \<le> 0" "cmp (xs ! par i) (xs ! i) \<le> 0"
      using less assms(2) par_less [of i] by (simp_all add: heap_ordered_def)
    then show ?thesis by (rule cmp_trans [OF assms(1)])
  qed (simp add: cmp_refl [OF assms(1)])
qed

lemma up_step:
  assumes ord: "cmp_order cmp" and up: "up_ordered cmp c xs" and c: "0 < c" "c < length xs"
    and less: "\<not> cmp (xs ! c) (xs ! par c) \<ge> 0"
  shows "up_ordered cmp (par c) (swapped xs c (par c))"
proof -
  have p: "par c < c" "par c < length xs" using c par_less [of c] by simp_all
  have edge: "cmp (xs ! par i) (xs ! i) \<le> 0" if "i < length xs" "0 < i" "i \<noteq> c" for i
    using up that by (simp add: up_ordered_def)
  have child: "cmp (xs ! par c) (xs ! i) \<le> 0" if "i < length xs" "0 < i" "par i = c" for i
    using up that c by (simp add: up_ordered_def)
  note tr = cmp_trans [OF ord]
  let ?ys = "swapped xs c (par c)"
  have nth: "?ys ! i = (if i = par c then xs ! c else if i = c then xs ! par c else xs ! i)"
    if "i < length xs" for i using that c p by (auto simp: nth_list_update)
  have "cmp (?ys ! par i) (?ys ! i) \<le> 0" if i: "i < length xs" "0 < i" "i \<noteq> par c" for i
  proof -
    have "par i < length xs" using i par_less [of i] by simp
    moreover have "cmp (xs ! c) (xs ! par c) \<le> 0" using less by simp
    moreover have "par i = par c \<Longrightarrow> i \<noteq> c \<Longrightarrow> cmp (xs ! c) (xs ! i) \<le> 0"
      using tr [OF calculation(2)] edge [of i] i by simp
    moreover have "par i = c \<Longrightarrow> i \<noteq> c" using par_less [OF i(2)] by auto
    ultimately show ?thesis using i p child [of i] edge [of i] nth [of i] nth [of "par i"] by auto
  qed
  moreover have "cmp (?ys ! par (par c)) (?ys ! i) \<le> 0"
    if i: "i < length xs" "0 < i" "par i = par c" "0 < par c" for i
  proof -
    have pp: "par (par c) < par c" "par (par c) < length xs" using par_less [OF i(4)] p by simp_all
    have e: "cmp (xs ! par (par c)) (xs ! par c) \<le> 0" using edge [OF p(2) i(4)] p(1) by simp
    have "i \<noteq> c \<Longrightarrow> cmp (xs ! par (par c)) (xs ! i) \<le> 0" using tr [OF e] edge [of i] i by simp
    moreover have "i \<noteq> par c" using par_less [OF i(2)] i(3) by auto
    ultimately show ?thesis using e i pp p nth [of i] nth [of "par (par c)"] by auto
  qed
  ultimately show ?thesis by (simp add: up_ordered_def)
qed

lemma down_step:
  assumes ord: "cmp_order cmp" and down: "down_ordered cmp c xs"
    and n: "n < length xs" "0 < n" "par n = c"
    and min: "\<And>i. i < length xs \<Longrightarrow> 0 < i \<Longrightarrow> par i = c \<Longrightarrow> cmp (xs ! n) (xs ! i) \<le> 0"
    and greater: "\<not> cmp (xs ! c) (xs ! n) \<le> 0"
  shows "down_ordered cmp n (swapped xs c n)"
proof -
  have c: "c < n" "c < length xs" using n par_less [of n] by simp_all
  have edge: "cmp (xs ! par i) (xs ! i) \<le> 0" if "i < length xs" "0 < i" "par i \<noteq> c" for i
    using down that by (simp add: down_ordered_def)
  have child: "cmp (xs ! par c) (xs ! i) \<le> 0" if "i < length xs" "0 < i" "par i = c" "0 < c" for i
    using down that by (simp add: down_ordered_def)
  let ?ys = "swapped xs c n"
  have nth: "?ys ! i = (if i = n then xs ! c else if i = c then xs ! n else xs ! i)"
    if "i < length xs" for i using that c n by (auto simp: nth_list_update)
  have "cmp (?ys ! par i) (?ys ! i) \<le> 0" if i: "i < length xs" "0 < i" "par i \<noteq> n" for i
  proof -
    have "par i < length xs" "par i < i" using i par_less [of i] by simp_all
    then show ?thesis
      using i c n(3) cmp_flip [OF ord greater] child [OF n] edge [of i] min [of i] nth [of i] nth [of "par i"]
      by (cases "i = c"; cases "i = n"; cases "par i = c") auto
  qed
  moreover have "cmp (?ys ! par n) (?ys ! i) \<le> 0" if i: "i < length xs" "0 < i" "par i = n" for i
  proof -
    have "n < i" using i par_less [of i] by simp
    then show ?thesis using i n c edge [of i] nth [of i] nth [of c] by auto
  qed
  ultimately show ?thesis by (simp add: down_ordered_def)
qed

section \<open>The array as a list\<close>

definition arr :: "'h darray \<Rightarrow> 'h list \<Rightarrow> bool" where
  [inv_defs]: "arr d xs \<longleftrightarrow> darray_inv d \<and> length xs \<le> uiSize d \<and>
     phArray d = map Some xs @ replicate (uiSize d - length xs) None"

lemma arr_Get [simp]: "arr d xs \<Longrightarrow> i < length xs \<Longrightarrow> DARRAY_Get d i = Some (xs ! i)"
  by (simp add: arr_def DARRAY_Get_def nth_append)

lemma arr_Set:
  "arr d xs \<Longrightarrow> i < length xs \<Longrightarrow> arr (snd (DARRAY_Set alloc d i (Some x))) (xs[i := x])"
  by (simp add: arr_def DARRAY_Set_inside darray_inv_def list_update_append map_update)

lemma arr_drop_last:
  assumes "arr d xs" "xs \<noteq> []"
  shows "arr (snd (DARRAY_Set alloc d (length xs - 1) None)) (butlast xs)"
proof -
  obtain ys y where xs: "xs = ys @ [y]" using assms(2) by (metis rev_exhaust)
  then have "phArray d = map Some ys @ Some y # replicate (uiSize d - Suc (length ys)) None"
    using assms by (simp add: arr_def)
  moreover have "None # replicate (uiSize d - Suc (length ys)) None = replicate (uiSize d - length ys) None"
    using assms xs by (simp add: arr_def Suc_diff_Suc flip: replicate_Suc)
  moreover have "(map Some ys @ Some y # zs)[length ys := None] = map Some ys @ None # zs" for zs
    using list_update_length [of "map Some ys"] by simp
  ultimately show ?thesis
    using assms xs by (simp add: arr_def DARRAY_Set_inside darray_inv_def)
qed

lemma arr_Add:
  assumes "arr d xs" "uiSize d + step_num d < 2 ^ 32 - 1" "alloc \<or> length xs < uiSize d"
  shows "fst (DARRAY_Add alloc d (Some x)) = length xs \<and> arr (snd (DARRAY_Add alloc d (Some x))) (xs @ [x])"
proof -
  have "darray_inv d" "alloc \<or> None \<in> set (phArray d)" using assms(1,3) by (auto simp: arr_def)
  from DARRAY_Add_spec [OF this(1) assms(2) this(2), of "Some x"] obtain i where i: "fst (DARRAY_Add alloc d (Some x)) = i" "DARRAY_Get d i = None"
    "\<forall>j<i. DARRAY_Get d j \<noteq> None" "darray_inv (snd (DARRAY_Add alloc d (Some x)))"
    "\<forall>j. DARRAY_Get (snd (DARRAY_Add alloc d (Some x))) j = (if j = i then Some x else DARRAY_Get d j)"
    by metis
  have get: "DARRAY_Get d j = (if j < length xs then Some (xs ! j) else None)" for j
    using assms(1) by (auto simp: arr_def DARRAY_Get_def nth_append)
  have n: "i = length xs" 
  proof (rule linorder_cases [of i "length xs"])
    assume "length xs < i"
    then show ?thesis using i(3) get [of "length xs"] by auto
  qed (use i(2) get [of i] in auto)
  let ?d = "snd (DARRAY_Add alloc d (Some x))"
  have "DARRAY_Get ?d (length xs) \<noteq> None" using i(5) n by simp
  then have len: "length xs < uiSize ?d" by (metis Get_outside not_le)
  have "phArray ?d = map Some (xs @ [x]) @ replicate (uiSize ?d - length (xs @ [x])) None"
  proof (rule nth_equalityI)
    show "length (phArray ?d) = length (map Some (xs @ [x]) @ replicate (uiSize ?d - length (xs @ [x])) None)"
      using len i(4) by (simp add: darray_inv_def)
    fix j assume "j < length (phArray ?d)"
    then have "phArray ?d ! j = DARRAY_Get ?d j" using i(4) by (simp add: darray_inv_def DARRAY_Get_def)
    then show "phArray ?d ! j = (map Some (xs @ [x]) @ replicate (uiSize ?d - length (xs @ [x])) None) ! j"
      using i(5) n get \<open>j < length (phArray ?d)\<close> i(4) by (auto simp: nth_append darray_inv_def)
  qed
  then show ?thesis using i n len by (simp add: arr_def)
qed

section \<open>The loops\<close>

abbreviation on_some :: "('h \<Rightarrow> 'h \<Rightarrow> int) \<Rightarrow> 'h heap_cmp" where
  "on_some cmp \<equiv> (\<lambda>a b. cmp (the a) (the b))"

lemma mset_swapped: "i < length xs \<Longrightarrow> j < length xs \<Longrightarrow> mset (swapped xs i j) = mset xs"
  by (metis mset_swap)

lemma hole_swap: "c \<noteq> p \<Longrightarrow> c < length xs \<Longrightarrow> p < length xs \<Longrightarrow> xs[c := xs ! p, p := x] = swapped (xs[c := x]) c p"
  by (simp add: nth_list_update)

lemma up_loop_unfold:
  "up_loop alloc cmp current d c =
     (if 0 < c then
        (if cmp current (DARRAY_Get d (par c)) \<ge> 0 then (c, d)
         else up_loop alloc cmp current (snd (DARRAY_Set alloc d c (DARRAY_Get d (par c)))) (par c))
      else (c, d))"
  by (subst up_loop.simps) (simp add: par_def Let_def del: up_loop.simps)

declare up_loop.simps [simp del]

text \<open>The loops put the element into a hole at the end; \<open>xs[c := x]\<close> is the heap they work on.\<close>

lemma up_loop_correct:
  assumes "cmp_order cmp"
  shows "arr d xs \<Longrightarrow> c < length xs \<Longrightarrow> up_ordered cmp c (xs[c := x]) \<Longrightarrow>
    up_loop alloc (on_some cmp) (Some x) d c = (c', d') \<Longrightarrow>
    \<exists>ys. arr d' ys \<and> c' < length ys \<and> length ys = length xs \<and> heap_ordered cmp (ys[c' := x]) \<and>
      mset (ys[c' := x]) = mset (xs[c := x])"
proof (induction c arbitrary: d xs rule: less_induct)
  case (less c)
  show ?case
  proof (cases "0 < c \<and> \<not> cmp x (xs ! par c) \<ge> 0")
    case False
    have "0 < c \<Longrightarrow> cmp (xs ! par c) x \<le> 0"
      using False assms by (metis cmp_flip cmp_order_def not_less)
    then have "0 < c \<Longrightarrow> cmp (xs[c := x] ! par c) (xs[c := x] ! c) \<le> 0"
      using par_less [of c] less.prems(2) by simp
    then have "heap_ordered cmp (xs[c := x])"
      using less.prems(3) unfolding up_ordered_def heap_ordered_def by metis
    moreover have "0 < c \<Longrightarrow> DARRAY_Get d (par c) = Some (xs ! par c)"
      using less.prems(1,2) par_less [of c] by simp
    then have "up_loop alloc (on_some cmp) (Some x) d c = (c, d)"
      using False by (subst up_loop_unfold) auto
    then have "c' = c" "d' = d" using less.prems(4) by simp_all
    ultimately show ?thesis using less.prems by auto
  next
    case True
    then have p: "par c < c" "par c < length xs" using par_less [of c] less.prems by simp_all
    let ?d = "snd (DARRAY_Set alloc d c (Some (xs ! par c)))" and ?xs = "xs[c := xs ! par c]"
    have hole: "?xs[par c := x] = swapped (xs[c := x]) c (par c)"
      using hole_swap [of c "par c" xs x] p less.prems(2) by simp
    have eq: "up_loop alloc (on_some cmp) (Some x) ?d (par c) = (c', d')"
      using True less.prems(1,2,4) p by (subst (asm) up_loop_unfold) simp
    have len: "par c < length ?xs" using p by simp
    have arr: "arr ?d ?xs" by (rule arr_Set [OF less.prems(1,2)])
    have up: "up_ordered cmp (par c) (?xs[par c := x])"
      unfolding hole using True less.prems p by (intro up_step [OF assms]) auto
    have "mset (?xs[par c := x]) = mset (xs[c := x])"
      unfolding hole using mset_swapped [of c "xs[c := x]" "par c"] p less.prems(2) by simp
    then show ?thesis
      using less.IH [OF p(1) arr len up eq] by (simp only: length_list_update)
  qed
qed

lemma GetMinChild_cases:
  assumes "cmp_order cmp" "arr d xs" "length xs < 2 ^ 31" "c < length xs"
  obtains "binaryheap_GetMinChild d (length xs) c (on_some cmp) = DARRAY_INVALID_INDEX"
      "\<And>i. i < length xs \<Longrightarrow> 0 < i \<Longrightarrow> par i \<noteq> c"
  | n where "binaryheap_GetMinChild d (length xs) c (on_some cmp) = n" "n < length xs" "0 < n" "par n = c"
      "\<And>i. i < length xs \<Longrightarrow> 0 < i \<Longrightarrow> par i = c \<Longrightarrow> cmp (xs ! n) (xs ! i) \<le> 0"
proof -
  let ?l = "2 * c + 1" and ?m = "binaryheap_GetMinChild d (length xs) c (on_some cmp)"
  have m: "?m = (if ?l \<ge> length xs then DARRAY_INVALID_INDEX else if ?l + 1 \<ge> length xs then ?l
      else if cmp (xs ! ?l) (xs ! (?l + 1)) < 0 then ?l else ?l + 1)"
    using assms by (simp add: binaryheap_GetMinChild_def Let_def)
  consider "?l \<ge> length xs" | "?l < length xs" "?l + 1 \<ge> length xs"
    | "?l + 1 < length xs" "cmp (xs ! ?l) (xs ! (?l + 1)) < 0"
    | "?l + 1 < length xs" "\<not> cmp (xs ! ?l) (xs ! (?l + 1)) < 0" by linarith
  then show thesis
  proof cases
    case 1
    then have "par i \<noteq> c" if "i < length xs" "0 < i" for i using that by (auto simp: par_eq)
    then show thesis using that(1) m 1 by simp
  next
    case 2
    then have "i = ?l" if "i < length xs" "0 < i" "par i = c" for i using that by (auto simp: par_eq)
    then show thesis using that(2) [of ?l] m 2 cmp_refl [OF assms(1)] by (simp add: par_eq)
  next
    case 3
    then have "i = ?l \<or> i = ?l + 1" if "i < length xs" "0 < i" "par i = c" for i using that by (auto simp: par_eq)
    then have "cmp (xs ! ?l) (xs ! i) \<le> 0" if "i < length xs" "0 < i" "par i = c" for i
      using that 3 cmp_refl [OF assms(1)] by fastforce
    then show thesis using that(2) [of ?l] m 3 by (simp add: par_eq)
  next
    case 4
    then have "i = ?l \<or> i = ?l + 1" if "i < length xs" "0 < i" "par i = c" for i using that by (auto simp: par_eq)
    moreover have "cmp (xs ! (?l + 1)) (xs ! ?l) \<le> 0" using 4(2) assms(1) by (metis cmp_order_def not_less)
    ultimately have "cmp (xs ! (?l + 1)) (xs ! i) \<le> 0" if "i < length xs" "0 < i" "par i = c" for i
      using that cmp_refl [OF assms(1)] by metis
    then show thesis using that(2) [of "?l + 1"] m 4 by (simp add: par_eq)
  qed
qed

lemma down_loop_correct:
  assumes "cmp_order cmp"
  shows "arr d xs \<Longrightarrow> c < length xs \<Longrightarrow> length xs < 2 ^ 31 \<Longrightarrow> down_ordered cmp c (xs[c := x]) \<Longrightarrow>
    \<exists>c' d' ys. down_loop alloc (on_some cmp) (Some x) (length xs) d c = Some (c', d') \<and> arr d' ys \<and>
      c' < length ys \<and> length ys = length xs \<and> heap_ordered cmp (ys[c' := x]) \<and>
      mset (ys[c' := x]) = mset (xs[c := x])"
proof (induction "length xs - c" arbitrary: c d xs rule: less_induct)
  case less
  let ?zs = "xs[c := x]"
  have stop: ?case if "down_loop alloc (on_some cmp) (Some x) (length xs) d c = Some (c, d)"
      "\<And>i. i < length xs \<Longrightarrow> 0 < i \<Longrightarrow> par i = c \<Longrightarrow> cmp x (xs ! i) \<le> 0"
  proof -
    have "cmp (?zs ! par i) (?zs ! i) \<le> 0" if i: "i < length xs" "0 < i" for i
      using less.prems(2,4) that \<open>\<And>i. i < length xs \<Longrightarrow> 0 < i \<Longrightarrow> par i = c \<Longrightarrow> cmp x (xs ! i) \<le> 0\<close> [of i]
        par_less [of i] by (cases "par i = c") (auto simp: down_ordered_def)
    then have "heap_ordered cmp ?zs" by (simp add: heap_ordered_def)
    then show ?thesis using that(1) less.prems by blast
  qed
  note unfold = down_loop.simps [of alloc "on_some cmp" "Some x" "length xs" d c]
  from assms less.prems(1,3,2) show ?case
  proof (cases rule: GetMinChild_cases)
    case 1
    then show ?thesis using stop unfold less.prems(2) by (simp add: Let_def)
  next
    case (2 n)
    have inv: "n \<noteq> DARRAY_INVALID_INDEX" using 2(2) less.prems(3) by (simp add: DARRAY_INVALID_INDEX_def)
    have c: "c < n" using 2(3,4) par_less [of n] by simp
    show ?thesis
    proof (cases "cmp x (xs ! n) \<le> 0")
      case True
      then have "cmp x (xs ! i) \<le> 0" if "i < length xs" "0 < i" "par i = c" for i
        using cmp_trans [OF assms True 2(5)] that by blast
      moreover have "down_loop alloc (on_some cmp) (Some x) (length xs) d c = Some (c, d)"
        using True unfold 2(1,2) inv less.prems(1,2) by (simp add: Let_def)
      ultimately show ?thesis using stop by blast
    next
      case False
      let ?d = "snd (DARRAY_Set alloc d c (Some (xs ! n)))" and ?xs = "xs[c := xs ! n]"
      have loop: "down_loop alloc (on_some cmp) (Some x) (length xs) d c =
          down_loop alloc (on_some cmp) (Some x) (length ?xs) ?d n"
        using False unfold 2(1,2) inv less.prems(1,2) by (simp add: Let_def)
      have hole: "?xs[n := x] = swapped ?zs c n"
        using hole_swap [of c n xs x] c 2(2) by simp
      have "down_ordered cmp n (swapped ?zs c n)"
      proof (rule down_step [OF assms less.prems(4)])
        show "cmp (?zs ! n) (?zs ! i) \<le> 0" if "i < length ?zs" "0 < i" "par i = c" for i
          using that 2(5) [of i] c par_less [of i] by auto
      qed (use 2 c False less.prems in auto)
      then have down: "down_ordered cmp n (?xs[n := x])" by (simp only: hole)
      have "length ?xs - n < length xs - c" "n < length ?xs" "length ?xs < 2 ^ 31"
        using 2(2) c less.prems(3) by simp_all
      moreover have "arr ?d ?xs" by (rule arr_Set [OF less.prems(1,2)])
      ultimately have "\<exists>c' d' ys. down_loop alloc (on_some cmp) (Some x) (length ?xs) ?d n = Some (c', d') \<and>
          arr d' ys \<and> c' < length ys \<and> length ys = length ?xs \<and> heap_ordered cmp (ys[c' := x]) \<and>
          mset (ys[c' := x]) = mset (?xs[n := x])"
        using less.hyps [of ?xs n ?d] down by blast
      moreover have "mset (?xs[n := x]) = mset ?zs"
        unfolding hole using mset_swapped [of c ?zs n] c 2(2) by simp
      ultimately show ?thesis unfolding loop by (simp only: length_list_update)
    qed
  qed
qed


section \<open>The operations\<close>

text \<open>\<open>bheap cmp heap xs\<close>: the heap holds the elements \<open>xs\<close>, in heap order, and has room for its sizes.\<close>

definition bheap :: "('h \<Rightarrow> 'h \<Rightarrow> int) \<Rightarrow> 'h binary_heap \<Rightarrow> 'h list \<Rightarrow> bool" where
  [inv_defs]: "bheap cmp heap xs \<longleftrightarrow> cmp_order cmp \<and> pfCmp heap = on_some cmp \<and> arr (hDarray heap) xs \<and>
     count heap = length xs \<and> length xs < 2 ^ 31 \<and> heap_ordered cmp xs"

lemma bheap_Init:
  assumes "cmp_order cmp"
  shows "\<exists>heap. BinaryHeap_Init True True 0 (on_some cmp) = (BS_OK, Some heap) \<and> bheap cmp heap []"
  using assms
  by (simp add: BinaryHeap_Init_def DARRAY_Create_def bheap_def arr_def heap_ordered_def darray_inv_def)

lemma up_ordered_append:
  assumes "heap_ordered cmp xs"
  shows "up_ordered cmp (length xs) (xs @ [x])"
proof -
  have "cmp ((xs @ [x]) ! par i) ((xs @ [x]) ! i) \<le> 0" if "i < length xs" "0 < i" for i
    using assms that par_less [of i] by (simp add: heap_ordered_def nth_append)
  moreover have "par i \<noteq> length xs" if "i < length (xs @ [x])" "0 < i" for i
    using par_less [of i] that by simp
  ultimately show ?thesis by (simp add: up_ordered_def less_Suc_eq)
qed

lemma bheap_Insert:
  assumes b: "bheap cmp heap xs" and room: "uiSize (hDarray heap) + step_num (hDarray heap) < 2 ^ 32 - 1"
    and "length xs + 1 < 2 ^ 31" "alloc \<or> length xs < uiSize (hDarray heap)"
  shows "\<exists>ys. fst (BinaryHeap_Insert alloc heap (Some x)) = BS_OK \<and>
    bheap cmp (snd (BinaryHeap_Insert alloc heap (Some x))) ys \<and> mset ys = add_mset x (mset xs)"
proof -
  let ?n = "length xs"
  have a: "arr (hDarray heap) xs" "cmp_order cmp" "pfCmp heap = on_some cmp" "count heap = ?n" "heap_ordered cmp xs"
    using b by (simp_all add: bheap_def)
  obtain d where d: "DARRAY_Add alloc (hDarray heap) (Some x) = (?n, d)" "arr d (xs @ [x])"
    using arr_Add [OF a(1) room assms(4), of x] by (metis prod.collapse)
  obtain c' d' where l: "up_loop alloc (on_some cmp) (Some x) d ?n = (c', d')" by (meson surj_pair)
  have "up_ordered cmp ?n ((xs @ [x])[?n := x])"
    using up_ordered_append [OF a(5)] by simp
  from up_loop_correct [OF a(2) d(2) _ this l] obtain ys
    where ys: "arr d' ys" "c' < length ys" "length ys = ?n + 1" "heap_ordered cmp (ys[c' := x])"
      "mset (ys[c' := x]) = add_mset x (mset xs)" by auto
  have "BinaryHeap_Insert alloc heap (Some x) =
      (BS_OK, heap\<lparr>hDarray := snd (DARRAY_Set alloc d' c' (Some x)), count := ?n + 1\<rparr>)"
    using d a(3,4) l assms(3) arr_Get [OF d(2), of ?n]
    by (simp add: BinaryHeap_Insert_def binaryheap_Up_def Let_def DARRAY_INVALID_INDEX_def)
  moreover have "arr (snd (DARRAY_Set alloc d' c' (Some x))) (ys[c' := x])" by (rule arr_Set [OF ys(1,2)])
  ultimately show ?thesis using a ys assms(3) by (auto simp: bheap_def intro!: exI [of _ "ys[c' := x]"])
qed

lemma heap_edge2:
  assumes "cmp_order cmp" "heap_ordered cmp xs" "i < length xs" "0 < i" "0 < par i"
  shows "cmp (xs ! par (par i)) (xs ! i) \<le> 0"
proof -
  have "par i < length xs" using assms par_less [of i] by simp
  then have "cmp (xs ! par (par i)) (xs ! par i) \<le> 0" "cmp (xs ! par i) (xs ! i) \<le> 0"
    using assms by (simp_all add: heap_ordered_def)
  then show ?thesis by (rule cmp_trans [OF assms(1)])
qed

lemma heap_down_ordered:
  "cmp_order cmp \<Longrightarrow> heap_ordered cmp xs \<Longrightarrow> down_ordered cmp c xs"
  unfolding down_ordered_def using heap_edge2 unfolding heap_ordered_def by metis

lemma replace_ordered:
  assumes ord: "cmp_order cmp" and h: "heap_ordered cmp xs" and i: "i < length xs"
  shows "if 0 < i \<and> cmp x (xs ! par i) < 0 then up_ordered cmp i (xs[i := x]) else down_ordered cmp i (xs[i := x])"
proof -
  have edge: "cmp (xs ! par j) (xs ! j) \<le> 0" if "j < length xs" "0 < j" for j
    using h that by (simp add: heap_ordered_def)
  have far: "cmp (xs[i := x] ! par i) (xs[i := x] ! j) \<le> 0" if "j < length xs" "0 < j" "par j = i" "0 < i" for j
    using heap_edge2 [OF ord h that(1,2)] that par_less [of j] par_less [of i] by auto
  show ?thesis
  proof (cases "0 < i \<and> cmp x (xs ! par i) < 0")
    case True
    then have "cmp x (xs ! i) \<le> 0" using cmp_trans [OF ord, of x "xs ! par i"] edge [OF i] by simp
    then have "cmp x (xs ! j) \<le> 0" if "j < length xs" "0 < j" "par j = i" for j
      using cmp_trans [OF ord] edge [OF that(1,2)] that(3) by blast
    then have "cmp (xs[i := x] ! par j) (xs[i := x] ! j) \<le> 0" if "j < length xs" "0 < j" "j \<noteq> i" for j
      using that edge [OF that(1,2)] i by (cases "par j = i") auto
    then show ?thesis using True far by (simp add: up_ordered_def)
  next
    case False
    have "0 < i \<Longrightarrow> cmp (xs ! par i) x \<le> 0" using False ord by (metis cmp_order_def not_less)
    then have "cmp (xs[i := x] ! par j) (xs[i := x] ! j) \<le> 0" if "j < length xs" "0 < j" "par j \<noteq> i" for j
      using that edge [OF that(1,2)] i by (cases "j = i") auto
    then have "down_ordered cmp i (xs[i := x])" using far by (simp add: down_ordered_def)
    then show ?thesis using False by (simp only: if_False)
  qed
qed

text \<open>Moving an element up, then down, restores the order after a replacement at \<open>i\<close>.\<close>

lemma Up_repairs:
  assumes ord: "cmp_order cmp" and a: "arr (hDarray heap) (xs[i := x])" and i: "i < length xs"
    and h: "heap_ordered cmp xs"
  shows "\<exists>d ys. binaryheap_Up alloc heap i (on_some cmp) = heap\<lparr>hDarray := d\<rparr> \<and> arr d ys \<and>
    length ys = length xs \<and> mset ys = mset (xs[i := x]) \<and> down_ordered cmp i ys"
proof -
  let ?zs = "xs[i := x]"
  obtain c' d' where l: "up_loop alloc (on_some cmp) (Some x) (hDarray heap) i = (c', d')" by (meson surj_pair)
  have up: "binaryheap_Up alloc heap i (on_some cmp) = heap\<lparr>hDarray := snd (DARRAY_Set alloc d' c' (Some x))\<rparr>"
    using l a i by (simp add: binaryheap_Up_def)
  show ?thesis
  proof (cases "0 < i \<and> cmp x (xs ! par i) < 0")
    case True
    then have "up_ordered cmp i (?zs[i := x])" using replace_ordered [OF ord h i, of x] by simp
    from up_loop_correct [OF ord a _ this l] i obtain ys where ys: "arr d' ys" "c' < length ys"
      "length ys = length xs" "heap_ordered cmp (ys[c' := x])" "mset (ys[c' := x]) = mset ?zs" by auto
    show ?thesis
      using up arr_Set [OF ys(1,2)] ys(3,5) heap_down_ordered [OF ord ys(4)] by (metis length_list_update)
  next
    case False
    then have "down_ordered cmp i ?zs" using replace_ordered [OF ord h i, of x] by (simp only: if_False)
    moreover have "0 < i \<Longrightarrow> DARRAY_Get (hDarray heap) (par i) = Some (xs ! par i)"
      using arr_Get [OF a, of "par i"] par_less [of i] i by simp
    then have "up_loop alloc (on_some cmp) (Some x) (hDarray heap) i = (i, hDarray heap)"
      using False by (subst up_loop_unfold) auto
    then have "c' = i" "d' = hDarray heap" using l by simp_all
    ultimately show ?thesis using up arr_Set [OF a, of i alloc x] i by (metis length_list_update list_update_overwrite)
  qed
qed

lemma Down_repairs:
  assumes ord: "cmp_order cmp" and a: "arr (hDarray heap) xs" and i: "i < length xs" "length xs < 2 ^ 31"
    and cnt: "count heap = length xs" and o: "down_ordered cmp i xs"
  shows "\<exists>d ys. binaryheap_Down alloc heap i (on_some cmp) = Some (heap\<lparr>hDarray := d\<rparr>) \<and> arr d ys \<and>
    length ys = length xs \<and> mset ys = mset xs \<and> heap_ordered cmp ys"
proof -
  have "down_ordered cmp i (xs[i := xs ! i])" using o by simp
  from down_loop_correct [OF ord a i this, of alloc] obtain c' d' ys
    where l: "down_loop alloc (on_some cmp) (Some (xs ! i)) (length xs) (hDarray heap) i = Some (c', d')"
      and ys: "arr d' ys" "c' < length ys" "length ys = length xs" "heap_ordered cmp (ys[c' := xs ! i])"
        "mset (ys[c' := xs ! i]) = mset xs" by auto
  have "binaryheap_Down alloc heap i (on_some cmp) =
      Some (heap\<lparr>hDarray := snd (DARRAY_Set alloc d' c' (Some (xs ! i)))\<rparr>)"
    using l a i cnt by (simp add: binaryheap_Down_def Let_def)
  then show ?thesis using arr_Set [OF ys(1,2)] ys(3-5) by (metis length_list_update)
qed

lemma heap_butlast:
  assumes "heap_ordered cmp xs"
  shows "heap_ordered cmp (butlast xs)"
proof -
  have "cmp (butlast xs ! par i) (butlast xs ! i) \<le> 0" if "i < length (butlast xs)" "0 < i" for i
    using assms that par_less [of i] by (simp add: heap_ordered_def nth_butlast)
  then show ?thesis by (simp add: heap_ordered_def)
qed

text \<open>Removal at any index returns, hands out the element there and keeps the rest as a heap.\<close>

lemma bheap_RemoveIndex:
  assumes b: "bheap cmp heap xs" and i: "i < length xs"
  shows "\<exists>heap' ys. BinaryHeap_RemoveIndex alloc heap i = Some (Some (xs ! i), heap') \<and>
    bheap cmp heap' ys \<and> mset xs = add_mset (xs ! i) (mset ys)"
proof -
  have a: "cmp_order cmp" "pfCmp heap = on_some cmp" "arr (hDarray heap) xs" "count heap = length xs"
    "length xs < 2 ^ 31" "heap_ordered cmp xs" "xs \<noteq> []"
    using b i by (auto simp: bheap_def)
  let ?n = "length xs - 1" and ?d = "snd (DARRAY_Set alloc (hDarray heap) (length xs - 1) None)"
  have d: "arr ?d (butlast xs)" by (rule arr_drop_last [OF a(3,7)])
  have l: "DARRAY_Get (hDarray heap) ?n = Some (List.last xs)" using a(3,7) by (simp add: last_conv_nth)
  have xs: "mset xs = add_mset (List.last xs) (mset (butlast xs))"
    using a(7) by (metis append_butlast_last_id mset.simps(1,2) mset_append add_mset_add_single)
  have nn: "\<not> length xs \<le> length xs - Suc 0" using a(7) by (cases xs) simp_all
  note hb = heap_butlast [OF a(6)]
  show ?thesis
  proof (cases "i = ?n")
    case True
    then have "BinaryHeap_RemoveIndex alloc heap i = Some (Some (xs ! i), heap\<lparr>hDarray := ?d, count := ?n\<rparr>)"
      using a(4) l i nn by (simp add: BinaryHeap_RemoveIndex_def Let_def last_conv_nth a(7))
    then show ?thesis using True a d hb xs by (auto simp: bheap_def last_conv_nth)
  next
    case False
    then have ib: "i < length (butlast xs)" "butlast xs ! i = xs ! i" using i by (auto simp: nth_butlast)
    let ?d1 = "snd (DARRAY_Set alloc ?d i (Some (List.last xs)))"
    let ?h1 = "heap\<lparr>hDarray := ?d, count := ?n\<rparr>\<lparr>hDarray := ?d1\<rparr>"
    have d1: "arr (hDarray ?h1) ((butlast xs)[i := List.last xs])" using arr_Set [OF d ib(1)] by simp
    from Up_repairs [OF a(1) d1 ib(1) hb, of alloc] obtain d2 ys
      where up: "binaryheap_Up alloc ?h1 i (on_some cmp) = ?h1\<lparr>hDarray := d2\<rparr>" "arr d2 ys"
        "length ys = length (butlast xs)" "mset ys = mset ((butlast xs)[i := List.last xs])"
        "down_ordered cmp i ys" by blast
    have "arr (hDarray (?h1\<lparr>hDarray := d2\<rparr>)) ys" "i < length ys" "length ys < 2 ^ 31"
        "count (?h1\<lparr>hDarray := d2\<rparr>) = length ys" using up ib a by simp_all
    from Down_repairs [OF a(1) this up(5), of alloc] obtain d3 zs
      where down: "binaryheap_Down alloc (?h1\<lparr>hDarray := d2\<rparr>) i (on_some cmp) = Some (?h1\<lparr>hDarray := d2\<rparr>\<lparr>hDarray := d3\<rparr>)"
        "arr d3 zs" "length zs = length ys" "mset zs = mset ys" "heap_ordered cmp zs" by blast
    have "BinaryHeap_RemoveIndex alloc heap i = Some (Some (xs ! i), heap\<lparr>count := ?n, hDarray := d3\<rparr>)"
    proof -
      have "BinaryHeap_RemoveIndex alloc heap i = map_option (\<lambda>h. (Some (xs ! i), h))
          (let h = binaryheap_Up alloc ?h1 i (on_some cmp) in binaryheap_Down alloc h i (pfCmp h))"
        using False a(2,4) i l ib arr_Get [OF d ib(1)] by (simp add: BinaryHeap_RemoveIndex_def Let_def)
      then show ?thesis unfolding up(1) Let_def using down(1) a(2) by simp
    qed
    moreover have "bheap cmp (heap\<lparr>count := ?n, hDarray := d3\<rparr>) zs"
      using a down up by (simp add: bheap_def)
    moreover have "mset xs = add_mset (xs ! i) (mset zs)"
      using down(4) up(4) xs ib nth_mem [OF ib(1)] by (simp add: mset_update)
    ultimately show ?thesis by blast
  qed
qed

lemma get_index_loop_spec:
  assumes "arr d xs" "\<forall>i\<in>set is. i < length xs"
  shows "(\<exists>i\<in>set is. get_index_loop (on_some cmp) d (Some x) is = i \<and> cmp x (xs ! i) = 0) \<or>
    get_index_loop (on_some cmp) d (Some x) is = DARRAY_INVALID_INDEX \<and> (\<forall>i\<in>set is. cmp x (xs ! i) \<noteq> 0)"
  using assms(2) by (induction "is") (use assms(1) in auto)

lemma GetIndex_cases:
  assumes "bheap cmp heap xs"
  obtains i where "binaryheap_GetIndex heap (Some x) (pfCmp heap) = i" "i < length xs" "cmp x (xs ! i) = 0"
    | "binaryheap_GetIndex heap (Some x) (pfCmp heap) = DARRAY_INVALID_INDEX" "\<forall>y\<in>set xs. cmp x y \<noteq> 0"
proof -
  have a: "arr (hDarray heap) xs" "pfCmp heap = on_some cmp" "count heap = length xs"
    using assms by (simp_all add: bheap_def)
  let ?i = "get_index_loop (on_some cmp) (hDarray heap) (Some x) [0..<length xs]"
  have "(\<exists>i<length xs. ?i = i \<and> cmp x (xs ! i) = 0) \<or>
      ?i = DARRAY_INVALID_INDEX \<and> (\<forall>i<length xs. cmp x (xs ! i) \<noteq> 0)"
    using get_index_loop_spec [OF a(1), of "[0..<length xs]" cmp x] by auto
  moreover have "binaryheap_GetIndex heap (Some x) (pfCmp heap) = ?i"
    using a(2,3) by (simp add: binaryheap_GetIndex_def)
  moreover have "(\<forall>i<length xs. cmp x (xs ! i) \<noteq> 0) \<Longrightarrow> \<forall>y\<in>set xs. cmp x y \<noteq> 0"
    by (metis in_set_conv_nth)
  ultimately show thesis using that by metis
qed

section \<open>The priority queue contract\<close>

text \<open>The heap of a comparator as a priority queue: insert an element, take the least one.\<close>

definition heap_mset :: "'h binary_heap \<Rightarrow> 'h multiset" where
  "heap_mset heap = mset (map the (take (count heap) (phArray (hDarray heap))))"

definition heap_insert :: "'h \<Rightarrow> 'h binary_heap \<Rightarrow> 'h binary_heap" where
  "heap_insert x heap = snd (BinaryHeap_Insert True heap (Some x))"

definition heap_take :: "'h binary_heap \<Rightarrow> ('h option \<times> 'h binary_heap) option" where
  "heap_take heap = BinaryHeap_RemoveIndex True heap 0"

definition heap_inv :: "('h \<Rightarrow> 'h \<Rightarrow> int) \<Rightarrow> 'h binary_heap \<Rightarrow> bool" where
  [inv_defs]: "heap_inv cmp heap \<longleftrightarrow> (\<exists>xs. bheap cmp heap xs)"

definition heap_room :: "'h binary_heap \<Rightarrow> bool" where
  "heap_room heap \<longleftrightarrow>
     uiSize (hDarray heap) + step_num (hDarray heap) < 2 ^ 32 - 1 \<and> count heap + 1 < 2 ^ 31"

lemma bheap_mset: "bheap cmp heap xs \<Longrightarrow> heap_mset heap = mset xs"
  by (simp add: bheap_def heap_mset_def arr_def comp_def)

lemma heap_insert_laws:
  assumes "heap_inv cmp heap" "heap_room heap"
  shows "heap_inv cmp (heap_insert x heap)" "heap_mset (heap_insert x heap) = add_mset x (heap_mset heap)"
proof -
  obtain xs where b: "bheap cmp heap xs" using assms by (auto simp: heap_inv_def)
  have r: "uiSize (hDarray heap) + step_num (hDarray heap) < 2 ^ 32 - 1" "length xs + 1 < 2 ^ 31"
    using assms(2) b by (simp_all add: heap_room_def bheap_def)
  from bheap_Insert [OF b r, of True x] obtain ys where "bheap cmp (heap_insert x heap) ys"
    "mset ys = add_mset x (mset xs)" by (auto simp: heap_insert_def)
  then show "heap_inv cmp (heap_insert x heap)" "heap_mset (heap_insert x heap) = add_mset x (heap_mset heap)"
    using bheap_mset [OF b] bheap_mset [of cmp "heap_insert x heap" ys] by (auto simp: heap_inv_def)
qed

lemma heap_take_laws:
  assumes "heap_inv cmp heap"
  shows "heap_mset heap = {#} \<Longrightarrow> heap_take heap = Some (None, heap)"
    and "heap_mset heap \<noteq> {#} \<Longrightarrow> \<exists>x heap'. heap_take heap = Some (Some x, heap') \<and> heap_inv cmp heap' \<and>
      heap_mset heap = add_mset x (heap_mset heap') \<and> (\<forall>y\<in>#heap_mset heap. cmp x y \<le> 0)"
proof -
  obtain xs where b: "bheap cmp heap xs" using assms by (auto simp: heap_inv_def)
  note m = bheap_mset [OF b]
  show "heap_take heap = Some (None, heap)" if "heap_mset heap = {#}"
    using that m b by (simp add: heap_take_def BinaryHeap_RemoveIndex_def bheap_def)
  assume "heap_mset heap \<noteq> {#}"
  then have n: "0 < length xs" using m by simp
  from bheap_RemoveIndex [OF b n, of True] obtain heap' ys
    where "heap_take heap = Some (Some (xs ! 0), heap')" "bheap cmp heap' ys" "mset xs = add_mset (xs ! 0) (mset ys)"
    by (auto simp: heap_take_def)
  moreover have "\<forall>y\<in>#mset xs. cmp (xs ! 0) y \<le> 0"
    using heap_root_min b by (auto simp: bheap_def in_set_conv_nth)
  ultimately show "\<exists>x heap'. heap_take heap = Some (Some x, heap') \<and> heap_inv cmp heap' \<and>
      heap_mset heap = add_mset x (heap_mset heap') \<and> (\<forall>y\<in>#heap_mset heap. cmp x y \<le> 0)"
    using m bheap_mset [of cmp heap' ys] by (auto simp: heap_inv_def)
qed

interpretation heap_pq: pqueue "heap_inv cmp" heap_mset "\<lambda>a b. cmp a b \<le> 0" heap_room heap_insert heap_take
  for cmp :: "'h \<Rightarrow> 'h \<Rightarrow> int"
  by unfold_locales (simp_all add: heap_insert_laws heap_take_laws)

section \<open>Room\<close>

text \<open>The array of a heap that starts at 1024 slots grows by 128 and only when it is full, so
  fewer than \<open>2 ^ 31 - 1\<close> insertions always have room.\<close>

definition grown :: "'h binary_heap \<Rightarrow> bool" where
  "grown heap \<longleftrightarrow> step_num (hDarray heap) = 128 \<and> uiSize (hDarray heap) \<le> max 1024 (count heap + 128)"

lemma up_loop_size:
  "c < uiSize d \<Longrightarrow> fst (up_loop alloc cmp x d c) < uiSize d \<and>
     uiSize (snd (up_loop alloc cmp x d c)) = uiSize d \<and> step_num (snd (up_loop alloc cmp x d c)) = step_num d"
proof (induction c arbitrary: d rule: less_induct)
  case (less c)
  let ?d = "snd (DARRAY_Set alloc d c (DARRAY_Get d (par c)))"
  have d: "uiSize ?d = uiSize d" "step_num ?d = step_num d" using less.prems by (simp_all add: DARRAY_Set_inside)
  show ?case
  proof (cases "0 < c \<and> \<not> cmp x (DARRAY_Get d (par c)) \<ge> 0")
    case True
    then have "up_loop alloc cmp x d c = up_loop alloc cmp x ?d (par c)" by (subst up_loop_unfold) simp
    moreover have "par c < c" "par c < uiSize ?d" using True par_less [of c] less.prems d by simp_all
    ultimately show ?thesis using less.IH [of "par c" ?d] d by simp
  next
    case False
    then have "up_loop alloc cmp x d c = (c, d)" by (subst up_loop_unfold) auto
    then show ?thesis using less.prems by simp
  qed
qed

lemma Add_size:
  assumes "arr d xs" "uiSize d + step_num d < 2 ^ 32 - 1" "step_num d = 128"
  shows "step_num (snd (DARRAY_Add True d (Some x))) = 128"
    and "uiSize (snd (DARRAY_Add True d (Some x))) \<le> max (uiSize d) (length xs + 128)"
proof -
  have n: "length (phArray d) < DARRAY_INVALID_INDEX" "length (phArray d) = uiSize d"
    using assms(1) by (simp_all add: arr_def darray_inv_def DARRAY_INVALID_INDEX_def)
  have "None \<in> set (phArray d) \<longleftrightarrow> length xs < uiSize d" using assms(1) by (auto simp: arr_def)
  then have "step_num (snd (DARRAY_Add True d (Some x))) = 128 \<and>
      uiSize (snd (DARRAY_Add True d (Some x))) \<le> max (uiSize d) (length xs + 128)"
    using add_to_space_spec [of 0 "phArray d" "Some x"] n assms
    by (auto simp: DARRAY_Add_def darray_AddToSpace_def darray_ExpandAndAdd_def darray_Expand_def arr_def Let_def
        split: if_splits)
  then show "step_num (snd (DARRAY_Add True d (Some x))) = 128"
    and "uiSize (snd (DARRAY_Add True d (Some x))) \<le> max (uiSize d) (length xs + 128)" by simp_all
qed

lemma grown_room: "grown heap \<Longrightarrow> count heap + 1 < 2 ^ 31 \<Longrightarrow> heap_room heap"
  by (auto simp: grown_def heap_room_def max_def split: if_splits)

lemma grown_insert:
  assumes b: "bheap cmp heap xs" and g: "grown heap" and n: "length xs + 1 < 2 ^ 31"
  shows "grown (heap_insert x heap) \<and> count (heap_insert x heap) = count heap + 1"
proof -
  have a: "arr (hDarray heap) xs" "count heap = length xs" "step_num (hDarray heap) = 128"
    "uiSize (hDarray heap) \<le> max 1024 (length xs + 128)"
    using b g by (simp_all add: bheap_def grown_def)
  then have room: "uiSize (hDarray heap) + step_num (hDarray heap) < 2 ^ 32 - 1" using n by simp
  obtain d where d: "DARRAY_Add True (hDarray heap) (Some x) = (length xs, d)" "arr d (xs @ [x])"
    using arr_Add [OF a(1) room, of True x] by (metis prod.collapse)
  obtain c' d' where l: "up_loop True (pfCmp heap) (DARRAY_Get d (length xs)) d (length xs) = (c', d')"
    by (meson surj_pair)
  have "c' < uiSize d'" "uiSize d' = uiSize d" "step_num d' = step_num d"
    using up_loop_size [of "length xs" d True "pfCmp heap" "DARRAY_Get d (length xs)"] l d(2)
    by (simp_all add: arr_def)
  moreover have "step_num d = 128" "uiSize d \<le> max (uiSize (hDarray heap)) (length xs + 128)"
    using Add_size [OF a(1) room a(3), of x] d(1) by simp_all
  moreover have "heap_insert x heap = heap\<lparr>count := length xs + 1,
      hDarray := snd (DARRAY_Set True d' c' (DARRAY_Get d (length xs)))\<rparr>"
    using d l a(2) n by (simp add: heap_insert_def BinaryHeap_Insert_def binaryheap_Up_def Let_def
        DARRAY_INVALID_INDEX_def)
  ultimately show ?thesis using a by (auto simp: grown_def DARRAY_Set_inside)
qed

lemma insert_all:
  assumes "bheap cmp heap xs" "grown heap" "length xs + length as < 2 ^ 31"
  shows "heap_inv cmp (fold heap_insert as heap) \<and> heap_mset (fold heap_insert as heap) = mset xs + mset as"
  using assms
proof (induction as arbitrary: heap xs)
  case (Cons a as)
  have r: "heap_room heap" using grown_room [OF Cons.prems(2)] Cons.prems(1,3) by (simp add: bheap_def)
  have h: "heap_inv cmp heap" using Cons.prems(1) by (auto simp: heap_inv_def)
  obtain ys where ys: "bheap cmp (heap_insert a heap) ys"
    using heap_pq.ins_inv [OF h r] by (auto simp: heap_inv_def)
  have m: "mset ys = add_mset a (mset xs)"
    using heap_pq.ins_abs [OF h r, of a] bheap_mset [OF ys] bheap_mset [OF Cons.prems(1)] by simp
  then have "length ys = length xs + 1" by (metis add_mset_add_single size_mset size_union size_single)
  then show ?case
    using Cons.IH [OF ys] grown_insert [OF Cons.prems(1,2)] Cons.prems(3) m by simp
qed (auto simp: heap_inv_def bheap_mset)

section \<open>Properties\<close>

text \<open>Inserting into a heap adds the element and keeps the heap order; when the array is full and cannot
  grow, the heap reports an error and is unchanged.\<close>

theorem BinaryHeap_Insert_correct:
  assumes "bheap cmp heap xs" "length xs + 1 < 2 ^ 31"
    and "uiSize (hDarray heap) + step_num (hDarray heap) < 2 ^ 32 - 1"
  shows "if alloc \<or> length xs < uiSize (hDarray heap)
    then \<exists>ys. fst (BinaryHeap_Insert alloc heap (Some x)) = BS_OK \<and>
      bheap cmp (snd (BinaryHeap_Insert alloc heap (Some x))) ys \<and> mset ys = add_mset x (mset xs)
    else BinaryHeap_Insert alloc heap (Some x) = (BS_ERR, heap)"
proof (cases "alloc \<or> length xs < uiSize (hDarray heap)")
  case True
  then show ?thesis using bheap_Insert [OF assms(1,3,2) True, of x] by (simp only: if_True)
next
  case False
  have a: "arr (hDarray heap) xs" using assms(1) by (simp add: bheap_def)
  then have "length (phArray (hDarray heap)) = uiSize (hDarray heap)" "uiSize (hDarray heap) < DARRAY_INVALID_INDEX"
    "None \<notin> set (phArray (hDarray heap))" "0 < step_num (hDarray heap)"
    using False by (auto simp: arr_def darray_inv_def DARRAY_INVALID_INDEX_def)
  then have "DARRAY_Add alloc (hDarray heap) (Some x) = (DARRAY_INVALID_INDEX, hDarray heap)"
    using add_to_space_spec [of 0 "phArray (hDarray heap)" "Some x"] False assms(3)
    by (auto simp: DARRAY_Add_def darray_AddToSpace_def darray_ExpandAndAdd_def darray_Expand_def Let_def)
  then show ?thesis using False by (simp add: BinaryHeap_Insert_def)
qed

text \<open>C13: a removal always returns. At an index inside the heap it hands out the element there and keeps
  the others in heap order; outside it hands out nothing and changes nothing. Removing by value removes an
  element equal to the value, or reports that there is none.\<close>

theorem BinaryHeap_Remove_correct:
  assumes "bheap cmp heap xs"
  shows "(if i < length xs
      then \<exists>heap' ys. BinaryHeap_RemoveIndex alloc heap i = Some (Some (xs ! i), heap') \<and>
        bheap cmp heap' ys \<and> mset xs = add_mset (xs ! i) (mset ys)
      else BinaryHeap_RemoveIndex alloc heap i = Some (None, heap)) \<and>
    (if \<exists>y\<in>set xs. cmp x y = 0
      then \<exists>heap' ys y. BinaryHeap_RemoveData alloc heap (Some x) = Some (BS_OK, heap') \<and>
        bheap cmp heap' ys \<and> cmp x y = 0 \<and> mset xs = add_mset y (mset ys)
      else BinaryHeap_RemoveData alloc heap (Some x) = Some (BS_NOT_FOUND, heap))"
proof -
  have "BinaryHeap_RemoveIndex alloc heap i = Some (None, heap)" if "\<not> i < length xs"
    using that assms by (simp add: BinaryHeap_RemoveIndex_def bheap_def)
  then have "if i < length xs
      then \<exists>heap' ys. BinaryHeap_RemoveIndex alloc heap i = Some (Some (xs ! i), heap') \<and>
        bheap cmp heap' ys \<and> mset xs = add_mset (xs ! i) (mset ys)
      else BinaryHeap_RemoveIndex alloc heap i = Some (None, heap)"
    using bheap_RemoveIndex [OF assms, of i alloc] by (cases "i < length xs") simp_all
  moreover have "if \<exists>y\<in>set xs. cmp x y = 0
      then \<exists>heap' ys y. BinaryHeap_RemoveData alloc heap (Some x) = Some (BS_OK, heap') \<and>
        bheap cmp heap' ys \<and> cmp x y = 0 \<and> mset xs = add_mset y (mset ys)
      else BinaryHeap_RemoveData alloc heap (Some x) = Some (BS_NOT_FOUND, heap)"
    using assms
  proof (cases rule: GetIndex_cases [where x = x])
    case (1 j)
    then have j: "j \<noteq> DARRAY_INVALID_INDEX" using assms by (auto simp: bheap_def DARRAY_INVALID_INDEX_def)
    from bheap_RemoveIndex [OF assms 1(2), of alloc] obtain heap' ys
      where "BinaryHeap_RemoveIndex alloc heap j = Some (Some (xs ! j), heap')" "bheap cmp heap' ys"
        "mset xs = add_mset (xs ! j) (mset ys)" by blast
    then show ?thesis using 1 j by (auto simp: BinaryHeap_RemoveData_def Let_def)
  next
    case 2
    then show ?thesis by (simp add: BinaryHeap_RemoveData_def)
  qed
  ultimately show ?thesis by (rule conjI)
qed

theorem BinaryHeap_Remove_correct_witness:
  "\<exists>heap' ys. BinaryHeap_RemoveIndex False
      \<lparr>hDarray = \<lparr>uiSize = 3, step_num = 1, phArray = [Some 1, Some 5, None]\<rparr>, pfCmp = on_some (-), count = 2\<rparr> 0 =
        Some (Some (1 :: int), heap') \<and> bheap (-) heap' ys \<and> {#1, 5#} = add_mset 1 (mset ys)"
proof -
  have "cmp_order ((-) :: int \<Rightarrow> int \<Rightarrow> int)" using cmp_order_diff [of "\<lambda>x. x"] by simp
  then have "bheap (-) \<lparr>hDarray = \<lparr>uiSize = 3, step_num = 1, phArray = [Some 1, Some 5, None]\<rparr>,
      pfCmp = on_some (-), count = 2\<rparr> [1, 5 :: int]"
    by (simp add: bheap_def arr_def darray_inv_def heap_ordered_def less_Suc_eq par_def)
  from BinaryHeap_Remove_correct [OF this, of 0 False 0] show ?thesis by simp
qed

text \<open>A fresh heap filled with fewer than \<open>2 ^ 31\<close> elements and emptied from the top returns them
  all, in ascending order.\<close>

theorem BinaryHeap_sorts:
  assumes "cmp_order cmp" "length as < 2 ^ 31"
    and "BinaryHeap_Init True True 0 (on_some cmp) = (BS_OK, Some heap)"
  shows "\<exists>ys. heap_pq.take_all (length as) (fold heap_insert as heap) = Some ys \<and>
    mset ys = mset as \<and> sorted_cmp cmp ys"
proof -
  have b: "bheap cmp heap []" using bheap_Init [OF assms(1)] assms(3) by auto
  have "grown heap" using assms(3) by (auto simp: BinaryHeap_Init_def DARRAY_Create_def grown_def)
  from insert_all [OF b this, of as] assms(2) show ?thesis
    using heap_pq.take_all_sorted [of cmp "fold heap_insert as heap" "length as"] by simp
qed

end
