(* ===== verification/VClock.thy ===== *)
theory VClock
  imports Prelude
begin

text \<open>
  The timer wheel of \<^verbatim>\<open>vclock/vclock_utl.c\<close>: six levels of 64 slots; a slot of level \<open>L\<close> stands for
  \<open>64 ^ L\<close> ticks. The slots are doubly linked lists, modelled as the lists that the operations of
  \<^verbatim>\<open>utl/dll_utl.h\<close> refine (theory \<^theory_text>\<open>Dll\<close>). The state holds the memory of the timer nodes; a node's
  \<open>pstHead\<close> is the slot that it hangs in. Ticks are 32-bit words and wrap around.

  The time-out function of a timer is code of the client: it is a parameter \<open>call\<close> of the step, a
  function on the state of the clock. The loop that fires the timers of a tick ends only when the
  client's functions let it: it is a partial function whose \<open>None\<close> means that it does not return.
\<close>

abbreviation VCLOCK_TIMER_TOTLE_LEVEL :: nat where
  "VCLOCK_TIMER_TOTLE_LEVEL \<equiv> 6"

abbreviation VCLOCK_TIMER_SCALE_PER_LEVEL :: nat where
  "VCLOCK_TIMER_SCALE_PER_LEVEL \<equiv> 64"

definition TIMER_FLAG_CYCLE :: UINT where
  "TIMER_FLAG_CYCLE = 0x1"

definition TIMER_FLAG_PAUSE :: UINT where
  "TIMER_FLAG_PAUSE = 0x2"

type_synonym slot = "nat \<times> nat"

record ('f, 'u) vclock_node =
  pstHead :: "slot option"
  ulTick :: UINT
  uiTriggerTick :: UINT
  flag :: UINT
  pfFunc :: 'f
  stUserHandle :: 'u

record ('n, 'f, 'u) vclock =
  create_lock :: bool
  lock_held :: bool
  ulNodeCount :: UINT
  uiCurrentTick :: UINT
  ulCurrentLevelTick :: "nat list"
  stTimerLevel :: "slot \<Rightarrow> 'n list"
  node :: "'n \<Rightarrow> ('f, 'u) vclock_node"

definition VCLOCK_Lock :: "('n, 'f, 'u) vclock \<Rightarrow> ('n, 'f, 'u) vclock" where
  [op_defs]: "VCLOCK_Lock v = (if create_lock v then v\<lparr>lock_held := True\<rparr> else v)"

definition VCLOCK_UnLock :: "('n, 'f, 'u) vclock \<Rightarrow> ('n, 'f, 'u) vclock" where
  [op_defs]: "VCLOCK_UnLock v = (if create_lock v then v\<lparr>lock_held := False\<rparr> else v)"

section \<open>Slots\<close>

definition upd_node ::
  "'n \<Rightarrow> (('f, 'u) vclock_node \<Rightarrow> ('f, 'u) vclock_node) \<Rightarrow> ('n, 'f, 'u) vclock \<Rightarrow> ('n, 'f, 'u) vclock" where
  "upd_node n f v = v\<lparr>node := (node v)(n := f (node v n))\<rparr>"

definition del_if_in_list :: "'n \<Rightarrow> ('n, 'f, 'u) vclock \<Rightarrow> ('n, 'f, 'u) vclock" where
  "del_if_in_list n v =
     (case pstHead (node v n) of
        None \<Rightarrow> v
      | Some p \<Rightarrow> (upd_node n (pstHead_update (\<lambda>_. None)) v)
                  \<lparr>stTimerLevel := (stTimerLevel v)(p := remove1 n (stTimerLevel v p))\<rparr>)"

definition add_to_head :: "slot \<Rightarrow> 'n \<Rightarrow> ('n, 'f, 'u) vclock \<Rightarrow> ('n, 'f, 'u) vclock" where
  "add_to_head p n v =
     (upd_node n (pstHead_update (\<lambda>_. Some p)) v)
       \<lparr>stTimerLevel := (stTimerLevel v)(p := n # stTimerLevel v p)\<rparr>"

definition dll_get :: "slot \<Rightarrow> ('n, 'f, 'u) vclock \<Rightarrow> 'n option \<times> ('n, 'f, 'u) vclock" where
  "dll_get p v =
     (case stTimerLevel v p of
        [] \<Rightarrow> (None, v)
      | n # ns \<Rightarrow> (Some n, (upd_node n (pstHead_update (\<lambda>_. None)) v)
                             \<lparr>stTimerLevel := (stTimerLevel v)(p := ns)\<rparr>))"

section \<open>Operations\<close>

text \<open>The loop that finds the level of a tick count: how often it divides by 64.\<close>

function find_level :: "nat \<Rightarrow> nat \<Rightarrow> nat \<times> nat" where
  "find_level ulLevel ulTickTmp =
     (if ulTickTmp div VCLOCK_TIMER_SCALE_PER_LEVEL \<noteq> 0
      then find_level (ulLevel + 1) (ulTickTmp div VCLOCK_TIMER_SCALE_PER_LEVEL)
      else (ulLevel, ulTickTmp))"
  by pat_completeness auto
termination by (relation "measure snd") auto

declare find_level.simps [simp del]

definition vclock_timer_add :: "('n, 'f, 'u) vclock \<Rightarrow> 'n \<Rightarrow> UINT \<Rightarrow> ('n, 'f, 'u) vclock" where
  "vclock_timer_add v n uiTick =
     (let v = del_if_in_list n v;
          v = upd_node n (uiTriggerTick_update (\<lambda>_. uiCurrentTick v + uiTick)) v;
          (ulLevel, tmp) = find_level 0 (unat uiTick);
          tmp = tmp + ulCurrentLevelTick v ! ulLevel;
          tmp = (if tmp \<ge> VCLOCK_TIMER_SCALE_PER_LEVEL then tmp - VCLOCK_TIMER_SCALE_PER_LEVEL else tmp)
      in add_to_head (ulLevel, tmp) n v)"

definition vclock_add_timer ::
  "('n, 'f, 'u) vclock \<Rightarrow> 'n \<Rightarrow> UINT \<Rightarrow> UINT \<Rightarrow> UINT \<Rightarrow> 'f \<Rightarrow> ('n, 'f, 'u) vclock" where
  "vclock_add_timer v n first_tick tick flg f =
     (let v = upd_node n (\<lambda>nd. nd\<lparr>flag := flg, ulTick := tick, pfFunc := f\<rparr>) v;
          v = v\<lparr>ulNodeCount := ulNodeCount v + 1\<rparr>
      in vclock_timer_add v n (first_tick + 1))"

text \<open>A timer handle is \<open>None\<close> when it is 0.\<close>

definition VCLOCK_DelTimer_inner :: "('n, 'f, 'u) vclock \<Rightarrow> 'n option \<Rightarrow> bs_status \<times> ('n, 'f, 'u) vclock" where
  "VCLOCK_DelTimer_inner v hTimer =
     (case hTimer of
        None \<Rightarrow> (BS_NO_SUCH, v)
      | Some n \<Rightarrow>
          (BS_OK, if pstHead (node v n) \<noteq> None
                  then (del_if_in_list n v)\<lparr>ulNodeCount := ulNodeCount v - 1\<rparr> else v))"

definition VCLOCK_Pause_inner :: "('n, 'f, 'u) vclock \<Rightarrow> 'n \<Rightarrow> bs_status \<times> ('n, 'f, 'u) vclock" where
  "VCLOCK_Pause_inner v n =
     (BS_OK, upd_node n (flag_update (\<lambda>b. b OR TIMER_FLAG_PAUSE)) (del_if_in_list n v))"

definition VCLOCK_Resume_inner ::
  "('n, 'f, 'u) vclock \<Rightarrow> 'n \<Rightarrow> UINT \<Rightarrow> bs_status \<times> ('n, 'f, 'u) vclock" where
  "VCLOCK_Resume_inner v n first_tick =
     (if flag (node v n) AND TIMER_FLAG_PAUSE = 0 then (BS_PROCESSED, v)
      else (BS_OK, vclock_timer_add (upd_node n (flag_update (\<lambda>b. b AND NOT TIMER_FLAG_PAUSE)) v) n first_tick))"

definition VCLOCK_GetTickLeft_inner :: "('n, 'f, 'u) vclock \<Rightarrow> 'n \<Rightarrow> UINT" where
  "VCLOCK_GetTickLeft_inner v n = uiTriggerTick (node v n) - uiCurrentTick v"

text \<open>The fields of \<^verbatim>\<open>TIMER_INFO_S\<close>: time, flag, function.\<close>

definition VCLOCK_GetInfo_inner :: "('n, 'f, 'u) vclock \<Rightarrow> 'n \<Rightarrow> bs_status \<times> (UINT \<times> UINT \<times> 'f)" where
  "VCLOCK_GetInfo_inner v n = (BS_OK, (ulTick (node v n), flag (node v n), pfFunc (node v n)))"

definition VCLOCK_RestartWithTick_inner ::
  "('n, 'f, 'u) vclock \<Rightarrow> 'n \<Rightarrow> UINT \<Rightarrow> UINT \<Rightarrow> bs_status \<times> ('n, 'f, 'u) vclock" where
  "VCLOCK_RestartWithTick_inner v n first_tick tick =
     (BS_OK, vclock_timer_add (upd_node n (ulTick_update (\<lambda>_. tick)) v) n first_tick)"

definition VCLOCK_InitInstance :: "('n \<Rightarrow> ('f, 'u) vclock_node) \<Rightarrow> bool \<Rightarrow> ('n, 'f, 'u) vclock" where
  "VCLOCK_InitInstance mem bCreateLock =
     \<lparr>create_lock = bCreateLock, lock_held = False, ulNodeCount = 0, uiCurrentTick = 0,
      ulCurrentLevelTick = replicate VCLOCK_TIMER_TOTLE_LEVEL 0, stTimerLevel = (\<lambda>_. []), node = mem\<rparr>"

definition VCLOCK_CreateInstance ::
  "bool \<Rightarrow> ('n \<Rightarrow> ('f, 'u) vclock_node) \<Rightarrow> bool \<Rightarrow> ('n, 'f, 'u) vclock option" where
  "VCLOCK_CreateInstance alloc mem bCreateLock =
     (if \<not> alloc then None else Some (VCLOCK_InitInstance mem bCreateLock))"

definition VCLOCK_AddTimer ::
  "('n, 'f, 'u) vclock \<Rightarrow> 'n \<Rightarrow> UINT \<Rightarrow> UINT \<Rightarrow> UINT \<Rightarrow> 'f \<Rightarrow> 'u option \<Rightarrow> int \<times> ('n, 'f, 'u) vclock" where
  "VCLOCK_AddTimer v n first_tick tick flg f pstUserHandle =
     (let v = upd_node n (pstHead_update (\<lambda>_. None)) v;
          v = (case pstUserHandle of None \<Rightarrow> v | Some u \<Rightarrow> upd_node n (stUserHandle_update (\<lambda>_. u)) v);
          v = VCLOCK_Lock v;
          v = vclock_add_timer v n first_tick tick flg f
      in (0, VCLOCK_UnLock v))"

definition VCLOCK_DelTimer :: "('n, 'f, 'u) vclock \<Rightarrow> 'n \<Rightarrow> bs_status \<times> ('n, 'f, 'u) vclock" where
  "VCLOCK_DelTimer v n = (case VCLOCK_DelTimer_inner (VCLOCK_Lock v) (Some n) of (r, v) \<Rightarrow> (r, VCLOCK_UnLock v))"

definition VCLOCK_IsRunning :: "('n, 'f, 'u) vclock \<Rightarrow> 'n \<Rightarrow> bool" where
  "VCLOCK_IsRunning v n = (pstHead (node v n) \<noteq> None)"

text \<open>\<open>fresh\<close> is the node the allocator returns; it comes zeroed.\<close>

definition VCLOCK_CreateTimer ::
  "'n option \<Rightarrow> 'f \<Rightarrow> 'u \<Rightarrow> ('n, 'f, 'u) vclock \<Rightarrow> UINT \<Rightarrow> UINT \<Rightarrow> UINT \<Rightarrow> 'f \<Rightarrow> 'u option \<Rightarrow>
     'n option \<times> ('n, 'f, 'u) vclock" where
  "VCLOCK_CreateTimer fresh f0 u0 v first_tick tick flg f pstUserHandle =
     (case fresh of
        None \<Rightarrow> (None, v)
      | Some n \<Rightarrow>
          (let z = \<lparr>pstHead = None, ulTick = 0, uiTriggerTick = 0, flag = 0, pfFunc = f0, stUserHandle = u0\<rparr>
           in (Some n, snd (VCLOCK_AddTimer (upd_node n (\<lambda>_. z) v) n first_tick tick flg f pstUserHandle))))"

definition VCLOCK_Pause :: "('n, 'f, 'u) vclock \<Rightarrow> 'n \<Rightarrow> bs_status \<times> ('n, 'f, 'u) vclock" where
  "VCLOCK_Pause v n = (case VCLOCK_Pause_inner (VCLOCK_Lock v) n of (r, v) \<Rightarrow> (r, VCLOCK_UnLock v))"

definition VCLOCK_Resume :: "('n, 'f, 'u) vclock \<Rightarrow> 'n \<Rightarrow> UINT \<Rightarrow> bs_status \<times> ('n, 'f, 'u) vclock" where
  "VCLOCK_Resume v n first_tick =
     (case VCLOCK_Resume_inner (VCLOCK_Lock v) n first_tick of (r, v) \<Rightarrow> (r, VCLOCK_UnLock v))"

definition VCLOCK_GetInfo ::
  "('n, 'f, 'u) vclock \<Rightarrow> 'n \<Rightarrow> (bs_status \<times> (UINT \<times> UINT \<times> 'f)) \<times> ('n, 'f, 'u) vclock" where
  "VCLOCK_GetInfo v n = (let v = VCLOCK_Lock v in (VCLOCK_GetInfo_inner v n, VCLOCK_UnLock v))"

definition VCLOCK_RestartWithTick ::
  "('n, 'f, 'u) vclock \<Rightarrow> 'n \<Rightarrow> UINT \<Rightarrow> UINT \<Rightarrow> bs_status \<times> ('n, 'f, 'u) vclock" where
  "VCLOCK_RestartWithTick v n first_tick tick =
     (case VCLOCK_RestartWithTick_inner (VCLOCK_Lock v) n first_tick tick of (r, v) \<Rightarrow> (r, VCLOCK_UnLock v))"

definition VCLOCK_Refresh :: "('n, 'f, 'u) vclock \<Rightarrow> 'n \<Rightarrow> bs_status \<times> ('n, 'f, 'u) vclock" where
  "VCLOCK_Refresh v n =
     (if ulTick (node v n) = VCLOCK_GetTickLeft_inner v n then (BS_OK, v)
      else VCLOCK_RestartWithTick v n (ulTick (node v n)) (ulTick (node v n)))"

definition VCLOCK_GetTickLeft :: "('n, 'f, 'u) vclock \<Rightarrow> 'n \<Rightarrow> UINT \<times> ('n, 'f, 'u) vclock" where
  "VCLOCK_GetTickLeft v n = (let v = VCLOCK_Lock v in (VCLOCK_GetTickLeft_inner v n, VCLOCK_UnLock v))"

text \<open>The first loop of \<^verbatim>\<open>VCLOCK_Step\<close>: one more tick, with carry; it returns the level it stops at.\<close>

fun advance :: "nat list \<Rightarrow> nat \<times> nat list" where
  "advance [] = (0, [])"
| "advance (t # ts) =
     (if t + 1 \<ge> VCLOCK_TIMER_SCALE_PER_LEVEL then (case advance ts of (i, ts') \<Rightarrow> (Suc i, 0 # ts'))
      else (0, (t + 1) # ts))"

text \<open>The second loop: the timers of the slots that the clock has reached move to a lower level. The safe
  scan visits the nodes that the slot holds at its start.\<close>

definition cascade_slot :: "nat \<Rightarrow> ('n, 'f, 'u) vclock \<Rightarrow> ('n, 'f, 'u) vclock" where
  "cascade_slot i v =
     fold (\<lambda>n v. vclock_timer_add v n (uiTriggerTick (node v n) - uiCurrentTick v))
       (stTimerLevel v (i, ulCurrentLevelTick v ! i)) v"

fun cascade :: "nat \<Rightarrow> ('n, 'f, 'u) vclock \<Rightarrow> ('n, 'f, 'u) vclock" where
  "cascade 0 v = v"
| "cascade (Suc i) v = cascade i (cascade_slot (Suc i) v)"

text \<open>The third loop, with the trace of the timers it fires.\<close>

partial_function (option) fire ::
  "('f \<Rightarrow> 'n \<Rightarrow> 'u \<Rightarrow> ('n, 'f, 'u) vclock \<Rightarrow> ('n, 'f, 'u) vclock) \<Rightarrow> ('n, 'f, 'u) vclock \<Rightarrow>
     ('n list \<times> ('n, 'f, 'u) vclock) option" where
  "fire call v =
     (case dll_get (0, ulCurrentLevelTick v ! 0) v of
        (None, v) \<Rightarrow> Some ([], v)
      | (Some n, v) \<Rightarrow>
          (let v = (if flag (node v n) AND TIMER_FLAG_CYCLE \<noteq> 0
                    then vclock_timer_add v n (ulTick (node v n))
                    else v\<lparr>ulNodeCount := ulNodeCount v - 1\<rparr>);
               v = VCLOCK_UnLock v;
               v = call (pfFunc (node v n)) n (stUserHandle (node v n)) v
           in Option.bind (fire call (VCLOCK_Lock v)) (\<lambda>(ns, v). Some (n # ns, v))))"

definition VCLOCK_Step ::
  "('f \<Rightarrow> 'n \<Rightarrow> 'u \<Rightarrow> ('n, 'f, 'u) vclock \<Rightarrow> ('n, 'f, 'u) vclock) \<Rightarrow> ('n, 'f, 'u) vclock \<Rightarrow>
     ('n list \<times> ('n, 'f, 'u) vclock) option" where
  "VCLOCK_Step call v =
     (let v = VCLOCK_Lock v;
          v = v\<lparr>uiCurrentTick := uiCurrentTick v + 1\<rparr>;
          (i, ts) = advance (ulCurrentLevelTick v);
          v = v\<lparr>ulCurrentLevelTick := ts\<rparr>;
          i = (if i \<ge> VCLOCK_TIMER_TOTLE_LEVEL then VCLOCK_TIMER_TOTLE_LEVEL - 1 else i);
          v = cascade i v
      in map_option (\<lambda>(ns, v). (ns, VCLOCK_UnLock v)) (fire call v))"

section \<open>The wheel\<close>

declare split_paired_All [simp del] split_paired_Ex [simp del]

text \<open>\<open>T\<close> is the number of steps since the start, without wrap-around. The level counters are its digits in
  base 64.\<close>

primrec level_ticks :: "nat \<Rightarrow> nat \<Rightarrow> nat list" where
  "level_ticks T 0 = []"
| "level_ticks T (Suc n) = T mod 64 # level_ticks (T div 64) n"

definition clock :: "nat \<Rightarrow> ('n, 'f, 'u) vclock \<Rightarrow> bool" where
  "clock T v \<longleftrightarrow> uiCurrentTick v = of_nat T \<and> ulCurrentLevelTick v = level_ticks T 6"

definition wheel_wf :: "('n, 'f, 'u) vclock \<Rightarrow> bool" where
  [inv_defs]: "wheel_wf v \<longleftrightarrow>
     (\<forall>n p. n \<in> set (stTimerLevel v p) \<longleftrightarrow> pstHead (node v n) = Some p) \<and> (\<forall>p. distinct (stTimerLevel v p))"

definition left :: "('n, 'f, 'u) vclock \<Rightarrow> 'n \<Rightarrow> nat" where
  "left v n = unat (VCLOCK_GetTickLeft_inner v n)"

text \<open>A timer with \<open>r\<close> ticks left hangs in a slot that the clock reaches \<open>k\<close> turns of its level ahead, and not
  after the timer is due; in level 0 it hangs in the slot of its due tick.\<close>

definition place :: "nat \<Rightarrow> nat \<Rightarrow> slot \<Rightarrow> bool" where
  "place T r p \<longleftrightarrow> fst p < 6 \<and> (\<exists>k. 1 \<le> k \<and> k \<le> 63 \<and> snd p = (T div 64 ^ fst p + k) mod 64 \<and>
     (T div 64 ^ fst p + k) * 64 ^ fst p \<le> T + r \<and> (fst p = 0 \<longrightarrow> k = r))"

text \<open>The timers that are due now, in the slot that fires.\<close>

definition due :: "nat \<Rightarrow> ('n, 'f, 'u) vclock \<Rightarrow> 'n set" where
  "due T v = set (stTimerLevel v (0, T mod 64))"

text \<open>During a step: the timers of the levels below \<open>j\<close> may still wait in a slot that the clock has reached, and
  those of \<open>S\<close> in the slot of level \<open>j\<close>.\<close>

definition mid :: "nat \<Rightarrow> nat \<Rightarrow> 'n set \<Rightarrow> ('n, 'f, 'u) vclock \<Rightarrow> bool" where
  "mid T j S v \<longleftrightarrow> wheel_wf v \<and> clock T v \<and>
     (\<forall>n p. pstHead (node v n) = Some p \<longrightarrow> ulTick (node v n) \<noteq> 0 \<and>
        (place T (left v n) p \<or> left v n = 0 \<and> p = (0, T mod 64) \<or>
         (\<exists>L. 1 \<le> L \<and> L < j \<and> p = (L, T div 64 ^ L mod 64)) \<or>
         p = (j, T div 64 ^ j mod 64) \<and> n \<in> S))"

abbreviation settled :: "nat \<Rightarrow> ('n, 'f, 'u) vclock \<Rightarrow> bool" where
  "settled T v \<equiv> mid T 1 {} v"

text \<open>Between two steps every timer is in place and none is due.\<close>

definition vclock_ok :: "nat \<Rightarrow> ('n, 'f, 'u) vclock \<Rightarrow> bool" where
  [inv_defs]: "vclock_ok T v \<longleftrightarrow> settled T v \<and> due T v = {}"

lemma wheel_mem: "wheel_wf v \<Longrightarrow> n \<in> set (stTimerLevel v p) \<longleftrightarrow> pstHead (node v n) = Some p"
  by (cases p) (simp add: wheel_wf_def)

lemma level_ticks_nth: "i < n \<Longrightarrow> level_ticks T n ! i = T div 64 ^ i mod 64"
  by (induction n arbitrary: T i) (auto simp: nth_Cons div_mult2_eq split: nat.split)

lemma clock_nth: "clock T v \<Longrightarrow> L < 6 \<Longrightarrow> ulCurrentLevelTick v ! L = T div 64 ^ L mod 64"
  by (simp add: clock_def level_ticks_nth)

lemma Suc_div_mod: "Suc T div 64 = (if T mod 64 = 63 then Suc (T div 64) else T div 64)"
  by (simp add: div_Suc mod_Suc)

lemma advance_ticks:
  "snd (advance (level_ticks T n)) = level_ticks (T + 1) n"
proof (induction n arbitrary: T)
  case (Suc n)
  have "Suc T mod 64 = (if T mod 64 = 63 then 0 else Suc (T mod 64))" by (simp add: mod_Suc)
  moreover have "T mod 64 < 64" by simp
  ultimately show ?case using Suc.IH [of "T div 64"] by (auto simp: Suc_div_mod split: prod.split)
qed simp

text \<open>The first loop stops no lower than any level whose lower digits have all wrapped.\<close>

lemma advance_level:
  "L < n \<Longrightarrow> (T + 1) mod 64 ^ L = 0 \<Longrightarrow> L \<le> fst (advance (level_ticks T n))"
proof (induction n arbitrary: T L)
  case (Suc n)
  show ?case
  proof (cases L)
    case (Suc L')
    then have "(T + 1) mod (64 * 64 ^ L') = 0" using Suc.prems(2) by simp
    then have m: "(T + 1) mod 64 = 0" "(T + 1) div 64 mod 64 ^ L' = 0" by (simp_all add: mod_mult2_eq)
    from m(1) have w: "T mod 64 = 63" by (simp add: mod_Suc split: if_splits)
    then have "(T div 64 + 1) mod 64 ^ L' = 0" using m(2) Suc_div_mod [of T] by simp
    then have "L' \<le> fst (advance (level_ticks (T div 64) n))" using Suc.IH [of L' "T div 64"] Suc.prems Suc by simp
    then show ?thesis using w Suc by (auto split: prod.split)
  qed simp
qed simp

lemma find_level_spec:
  "\<exists>L. find_level l t = (l + L, t div 64 ^ L) \<and> t div 64 ^ L < 64 \<and> (t \<noteq> 0 \<longrightarrow> 1 \<le> t div 64 ^ L)"
proof (induction t arbitrary: l rule: less_induct)
  case (less t)
  show ?case
  proof (cases "t div 64 = 0")
    case True
    then show ?thesis by (intro exI [of _ 0]) (auto simp: find_level.simps [of l])
  next
    case False
    then have "find_level l t = find_level (l + 1) (t div 64)" "t div 64 < t"
      by (simp_all add: find_level.simps [of l])
    moreover obtain L where "find_level (l + 1) (t div 64) = (l + 1 + L, t div 64 div 64 ^ L)"
      "t div 64 div 64 ^ L < 64" "1 \<le> t div 64 div 64 ^ L"
      using less.IH [OF calculation(2), of "l + 1"] False by auto
    ultimately show ?thesis by (intro exI [of _ "Suc L"]) (simp add: div_mult2_eq)
  qed
qed

lemma add_mod_64: "t < 64 \<Longrightarrow> (if t + a mod 64 \<ge> 64 then t + a mod 64 - 64 else t + a mod 64) = (a + t) mod (64 :: nat)"
proof -
  assume t: "t < 64"
  have "(if t + a mod 64 \<ge> 64 then t + a mod 64 - 64 else t + a mod 64) = (t + a mod 64) mod 64"
  proof (cases "t + a mod 64 \<ge> 64")
    case True
    moreover have "t + a mod 64 - 64 < 64" using t mod_less_divisor [of 64 a] by linarith
    ultimately show ?thesis by (simp only: le_mod_geq mod_less if_True)
  next
    case False
    then show ?thesis by simp
  qed
  also have "\<dots> = (a + t) mod 64" by (simp add: mod_simps add.commute)
  finally show ?thesis .
qed

text \<open>Where a timer with \<open>r\<close> ticks to go is put.\<close>

lemma find_level_place:
  assumes "r < 2 ^ 32" "find_level 0 r = (L, q)"
  shows "L < 6" and "q < 64"
    and "if r = 0 then L = 0 \<and> q = 0 else place T r (L, (T div 64 ^ L + q) mod 64)"
proof -
  have q: "q = r div 64 ^ L" "q < 64" "r \<noteq> 0 \<Longrightarrow> 1 \<le> q" using find_level_spec [of 0 r] assms(2) by auto
  show "q < 64" by (rule q(2))
  have r0: "L = 0 \<and> q = 0" if "r = 0" using assms(2) that by (simp add: find_level.simps [of 0 0])
  have L6: "L < 6" if "r \<noteq> 0"
  proof (rule ccontr)
    assume "\<not> L < 6"
    then have "(64 :: nat) ^ 6 \<le> 64 ^ L" by (intro power_increasing) simp_all
    then have "r < 64 ^ L" using assms(1) by simp
    then show False using q(1,3) that by simp
  qed
  then show "L < 6" using r0 by (cases "r = 0") simp_all
  have "(T div 64 ^ L + q) * 64 ^ L = T div 64 ^ L * 64 ^ L + r div 64 ^ L * 64 ^ L"
    by (simp add: q(1) distrib_right)
  also have "\<dots> \<le> T + r" by (intro add_mono) (simp_all add: div_times_less_eq_dividend)
  finally have "place T r (L, (T div 64 ^ L + q) mod 64)" if "r \<noteq> 0"
    unfolding place_def using L6 [OF that] q that by (intro conjI exI [of _ q]) auto
  then show "if r = 0 then L = 0 \<and> q = 0 else place T r (L, (T div 64 ^ L + q) mod 64)" using r0 by simp
qed

lemma del_if_in_list_wf:
  assumes "wheel_wf v"
  shows "wheel_wf (del_if_in_list n v)"
    and "node (del_if_in_list n v) = (node v)(n := node v n\<lparr>pstHead := None\<rparr>)"
proof -
  show "wheel_wf (del_if_in_list n v)"
    using assms by (auto simp: wheel_wf_def del_if_in_list_def upd_node_def split: option.split)
  have "node v n = node v n\<lparr>pstHead := None\<rparr>" if "pstHead (node v n) = None"
    using that by (cases "node v n") simp
  then show "node (del_if_in_list n v) = (node v)(n := node v n\<lparr>pstHead := None\<rparr>)"
    by (auto simp: del_if_in_list_def upd_node_def fun_eq_iff split: option.split)
qed

lemma del_if_in_list_simps [simp]:
  "uiCurrentTick (del_if_in_list n v) = uiCurrentTick v"
  "ulCurrentLevelTick (del_if_in_list n v) = ulCurrentLevelTick v"
  "create_lock (del_if_in_list n v) = create_lock v" "lock_held (del_if_in_list n v) = lock_held v"
  "ulNodeCount (del_if_in_list n v) = ulNodeCount v"
  by (simp_all add: del_if_in_list_def upd_node_def split: option.split)

lemma clock_cong: "uiCurrentTick w = uiCurrentTick v \<Longrightarrow> ulCurrentLevelTick w = ulCurrentLevelTick v \<Longrightarrow> clock T w = clock T v"
  by (simp add: clock_def)

lemma left_cong:
  "uiCurrentTick w = uiCurrentTick v \<Longrightarrow> uiTriggerTick (node w n) = uiTriggerTick (node v n) \<Longrightarrow> left w n = left v n"
  by (simp add: left_def VCLOCK_GetTickLeft_inner_def)

lemma add_to_head_wf:
  assumes "wheel_wf v" "pstHead (node v n) = None"
  shows "wheel_wf (add_to_head p n v)"
proof -
  have "n \<notin> set (stTimerLevel v q)" for q using assms by (cases q) (simp add: wheel_wf_def)
  then show ?thesis using assms by (auto simp: wheel_wf_def add_to_head_def upd_node_def)
qed

lemma upd_node_wf: "wheel_wf v \<Longrightarrow> (\<And>nd. pstHead (f nd) = pstHead nd) \<Longrightarrow> wheel_wf (upd_node n f v)"
  by (simp add: wheel_wf_def upd_node_def)

lemma timer_add_spec:
  fixes v :: "('n, 'f, 'u) vclock" and n :: 'n and tick :: UINT
  assumes wf: "wheel_wf v" and c: "clock T v"
  defines "w \<equiv> vclock_timer_add v n tick"
  shows "wheel_wf w" "clock T w" "left w n = unat tick" "\<And>m. m \<noteq> n \<Longrightarrow> node w m = node v m"
    "\<exists>p. node w n = node v n\<lparr>pstHead := Some p, uiTriggerTick := uiCurrentTick v + tick\<rparr> \<and>
      (if tick = 0 then p = (0, T mod 64) else place T (unat tick) p)"
    "create_lock w = create_lock v" "lock_held w = lock_held v" "uiCurrentTick w = uiCurrentTick v"
proof -
  obtain L q where lq: "find_level 0 (unat tick) = (L, q)" by (meson surj_pair)
  have r: "unat tick < 2 ^ 32" using unat_lt2p [of tick] by simp
  note fl = find_level_place [OF r lq]
  let ?p = "(L, (T div 64 ^ L + q) mod 64)"
  let ?u = "upd_node n (uiTriggerTick_update (\<lambda>_. uiCurrentTick v + tick)) (del_if_in_list n v)"
  have w: "w = add_to_head ?p n ?u"
    using lq clock_nth [OF c fl(1)] add_mod_64 [OF fl(2), of "T div 64 ^ L"]
    by (simp add: w_def vclock_timer_add_def Let_def upd_node_def split del: if_split cong: if_cong)
  have u: "wheel_wf ?u" "pstHead (node ?u n) = None"
    using del_if_in_list_wf [OF wf, of n] upd_node_wf [of "del_if_in_list n v" "uiTriggerTick_update (\<lambda>_. uiCurrentTick v + tick)" n]
    by (simp_all add: upd_node_def)
  show "wheel_wf w" unfolding w using u by (rule add_to_head_wf)
  show "clock T w" using c unfolding w clock_def by (simp add: add_to_head_def upd_node_def)
  show "create_lock w = create_lock v" "lock_held w = lock_held v" and t: "uiCurrentTick w = uiCurrentTick v"
    by (simp_all add: w add_to_head_def upd_node_def)
  have n: "node w n = node v n\<lparr>pstHead := Some ?p, uiTriggerTick := uiCurrentTick v + tick\<rparr>"
    and m: "\<And>m. m \<noteq> n \<Longrightarrow> node w m = node v m"
    by (simp_all add: w add_to_head_def upd_node_def del_if_in_list_wf(2) [OF wf])
  show "left w n = unat tick" by (simp add: left_def VCLOCK_GetTickLeft_inner_def n t)
  show "\<And>m. m \<noteq> n \<Longrightarrow> node w m = node v m" by (rule m)
  show "\<exists>p. node w n = node v n\<lparr>pstHead := Some p, uiTriggerTick := uiCurrentTick v + tick\<rparr> \<and>
      (if tick = 0 then p = (0, T mod 64) else place T (unat tick) p)"
    using n fl(3) [of T] by (intro exI [of _ ?p]) (auto split: if_splits)
qed

section \<open>A step\<close>

lemma place_ahead: "place T r (L, s) \<Longrightarrow> s \<noteq> T div 64 ^ L mod 64"
proof
  assume "place T r (L, s)" "s = T div 64 ^ L mod 64"
  then obtain k where k: "1 \<le> k" "k \<le> 63" "(T div 64 ^ L + k) mod 64 = T div 64 ^ L mod 64"
    by (auto simp: place_def)
  then have "64 dvd k" using mod_eq_dvd_iff_nat [of "T div 64 ^ L" "T div 64 ^ L + k" 64] by simp
  then show False using k by (auto dest: dvd_imp_le)
qed

lemma place_pos: "place T r p \<Longrightarrow> 0 < r"
proof -
  assume "place T r p"
  then obtain k where k: "1 \<le> k" "(T div 64 ^ fst p + k) * 64 ^ fst p \<le> T + r" by (auto simp: place_def)
  have "T < (T div 64 ^ fst p + 1) * 64 ^ fst p"
    by (metis add.commute div_le_mono dividend_less_div_times mult.commute plus_1_eq_Suc zero_less_numeral zero_less_power mult_Suc)
  also have "\<dots> \<le> (T div 64 ^ fst p + k) * 64 ^ fst p" using k(1) by (intro mult_right_mono) simp_all
  finally show ?thesis using k(2) by simp
qed

text \<open>One tick later a timer is in place, or due, or in a slot that the clock has just reached.\<close>

lemma place_tick:
  assumes "place T r (L, s)"
  shows "place (T + 1) (r - 1) (L, s) \<or> r - 1 = 0 \<and> (L, s) = (0, (T + 1) mod 64) \<or>
    1 \<le> L \<and> L < 6 \<and> (T + 1) mod 64 ^ L = 0 \<and> s = (T + 1) div 64 ^ L mod 64"
proof -
  let ?b = "64 ^ L :: nat"
  obtain k where k: "L < 6" "1 \<le> k" "k \<le> 63" "s = (T div ?b + k) mod 64" "(T div ?b + k) * ?b \<le> T + r" "L = 0 \<longrightarrow> k = r"
    using assms by (auto simp: place_def)
  have r: "T + 1 + (r - 1) = T + r" using place_pos [OF assms] by simp
  show ?thesis
  proof (cases "(T + 1) mod ?b = 0")
    case False
    then have "(T + 1) div ?b = T div ?b" by (simp add: div_Suc)
    moreover have "L \<noteq> 0" using False by (cases L) simp_all
    ultimately show ?thesis using k r by (auto simp: place_def)
  next
    case True
    then have d: "(T + 1) div ?b = T div ?b + 1" by (simp add: div_Suc)
    show ?thesis
    proof (cases "k = 1")
      case True
      then show ?thesis using k d \<open>(T + 1) mod ?b = 0\<close> by (cases "L = 0") auto
    next
      case False
      then have "place (T + 1) (r - 1) (L, s)"
        unfolding place_def fst_conv snd_conv d r using k by (intro conjI exI [of _ "k - 1"]) auto
      then show ?thesis by simp
    qed
  qed
qed

lemma settled_place:
  assumes "vclock_ok T v" "pstHead (node v n) = Some p"
  shows "place T (left v n) p"
proof -
  have "n \<in> set (stTimerLevel v p)" using assms by (simp add: vclock_ok_def mid_def wheel_mem)
  then have "p \<noteq> (0, T mod 64)" using assms(1) by (auto simp: vclock_ok_def due_def)
  then show ?thesis using assms by (auto simp: vclock_ok_def mid_def)
qed

lemma mid_tick:
  fixes v :: "('n, 'f, 'u) vclock"
  assumes ok: "vclock_ok T v" and ts: "advance (ulCurrentLevelTick v) = (i, ts)"
  defines "w \<equiv> v\<lparr>uiCurrentTick := uiCurrentTick v + 1, ulCurrentLevelTick := ts\<rparr>"
  shows "mid (T + 1) (Suc (if i \<ge> 6 then 5 else i)) {} w"
    and "pstHead (node v n) \<noteq> None \<Longrightarrow> 1 \<le> left v n \<and> left w n = left v n - 1"
proof -
  have m: "wheel_wf v" "clock T v" "\<And>n p. pstHead (node v n) = Some p \<Longrightarrow> ulTick (node v n) \<noteq> 0 \<and> place T (left v n) p"
    using ok settled_place [OF ok] by (auto simp: vclock_ok_def mid_def)
  have ts': "ts = level_ticks (T + 1) 6" "i = fst (advance (level_ticks T 6))"
    using ts m(2) advance_ticks [of T 6] by (simp_all add: clock_def)
  have "left w n = left v n - 1" if "1 \<le> left v n" for n
  proof -
    have "uiTriggerTick (node w n) - uiCurrentTick w = VCLOCK_GetTickLeft_inner v n - 1"
      by (simp add: w_def VCLOCK_GetTickLeft_inner_def)
    moreover have "VCLOCK_GetTickLeft_inner v n \<noteq> 0" using that by (auto simp: left_def)
    ultimately show ?thesis by (simp add: left_def VCLOCK_GetTickLeft_inner_def unat_dec_word)
  qed
  then have left: "1 \<le> left v n \<and> left w n = left v n - 1" if "pstHead (node v n) = Some p" for n p
    using place_pos [of T "left v n" p] m(3) [OF that] by simp
  then show "pstHead (node v n) \<noteq> None \<Longrightarrow> 1 \<le> left v n \<and> left w n = left v n - 1" by auto
  show "mid (T + 1) (Suc (if i \<ge> 6 then 5 else i)) {} w"
    unfolding mid_def
  proof (intro conjI allI impI)
    show "wheel_wf w" using m(1) by (simp add: w_def wheel_wf_def)
    show "clock (T + 1) w" using m(2) ts' by (simp add: w_def clock_def)
    fix n p assume "pstHead (node w n) = Some p"
    then have p: "pstHead (node v n) = Some p" by (simp add: w_def)
    show "ulTick (node w n) \<noteq> 0" using m(3) [OF p] by (simp add: w_def)
    obtain L s where L: "p = (L, s)" by (cases p)
    have "L \<le> (if i \<ge> 6 then 5 else i)" if "L < 6" "(T + 1) mod 64 ^ L = 0"
      using advance_level [OF that] that ts'(2) by auto
    then show "place (T + 1) (left w n) p \<or> left w n = 0 \<and> p = (0, (T + 1) mod 64) \<or>
        (\<exists>L\<ge>1. L < Suc (if i \<ge> 6 then 5 else i) \<and> p = (L, (T + 1) div 64 ^ L mod 64)) \<or>
        p = (Suc (if i \<ge> 6 then 5 else i), (T + 1) div 64 ^ Suc (if i \<ge> 6 then 5 else i) mod 64) \<and> n \<in> {}"
      using place_tick [of T "left v n" L s] m(3) [OF p] left [OF p] unfolding L by (metis less_Suc_eq_le)
  qed
qed

text \<open>What a step leaves alone: the timers that run, their parameters and due ticks, and the clock.\<close>

definition same_timers :: "('n, 'f, 'u) vclock \<Rightarrow> ('n, 'f, 'u) vclock \<Rightarrow> bool" where
  "same_timers v w \<longleftrightarrow> uiCurrentTick w = uiCurrentTick v \<and> create_lock w = create_lock v \<and> lock_held w = lock_held v \<and>
     (\<forall>n. VCLOCK_IsRunning w n = VCLOCK_IsRunning v n \<and>
        node w n\<lparr>pstHead := None\<rparr> = node v n\<lparr>pstHead := None\<rparr>)"

lemma same_timers_refl [simp]: "same_timers v v"
  by (simp add: same_timers_def)

lemma same_timers_trans: "same_timers u v \<Longrightarrow> same_timers v w \<Longrightarrow> same_timers u w"
  by (simp add: same_timers_def)

lemma pstHead_None_eqD:
  assumes "a\<lparr>pstHead := None\<rparr> = b\<lparr>pstHead := None\<rparr>"
  shows "ulTick a = ulTick b \<and> uiTriggerTick a = uiTriggerTick b \<and> flag a = flag b \<and> pfFunc a = pfFunc b \<and>
    stUserHandle a = stUserHandle b"
  using assms by (cases a; cases b) simp

lemma same_timers_left: "same_timers v w \<Longrightarrow> left w n = left v n"
  using pstHead_None_eqD [of "node w n" "node v n"] by (auto simp: same_timers_def intro!: left_cong)

lemma mid_add:
  assumes m: "mid T j (set (n # ns)) v" and run: "VCLOCK_IsRunning v n"
  defines "w \<equiv> vclock_timer_add v n (uiTriggerTick (node v n) - uiCurrentTick v)"
  shows "mid T j (set ns) w" and "same_timers v w"
proof -
  have wf: "wheel_wf v" "clock T v" using m by (simp_all add: mid_def)
  note add = timer_add_spec [OF wf, where n = n and tick = "uiTriggerTick (node v n) - uiCurrentTick v",
    folded w_def]
  have left: "left w m = left v m" if "m \<noteq> n" for m
    using add(4) [OF that] add(8) by (auto intro!: left_cong)
  obtain p where p: "node w n = node v n\<lparr>pstHead := Some p, uiTriggerTick := uiTriggerTick (node v n)\<rparr>"
    "if left w n = 0 then p = (0, T mod 64) else place T (left w n) p"
    using add(3,5) by auto
  show "mid T j (set ns) w"
    unfolding mid_def
  proof (intro conjI allI impI)
    fix m q assume h: "pstHead (node w m) = Some q"
    show "ulTick (node w m) \<noteq> 0"
      using m run h add(4) [of m] p(1) by (cases "m = n") (auto simp: mid_def VCLOCK_IsRunning_def)
    show "place T (left w m) q \<or> left w m = 0 \<and> q = (0, T mod 64) \<or>
        (\<exists>L\<ge>1. L < j \<and> q = (L, T div 64 ^ L mod 64)) \<or> q = (j, T div 64 ^ j mod 64) \<and> m \<in> set ns"
    proof (cases "m = n")
      case True
      then show ?thesis using p h by (auto split: if_splits)
    next
      case False
      then show ?thesis using m h add(4) [OF False] left [OF False] by (simp add: mid_def) blast
    qed
  qed (use add in simp_all)
  have "node w k\<lparr>pstHead := None\<rparr> = node v k\<lparr>pstHead := None\<rparr> \<and> VCLOCK_IsRunning w k = VCLOCK_IsRunning v k" for k
    using add(4) [of k] p(1) run by (cases "k = n") (simp_all add: VCLOCK_IsRunning_def)
  then show "same_timers v w" using add(6-8) by (simp add: same_timers_def)
qed

lemma mid_fold:
  assumes "mid T j (set ns) v" "\<forall>n\<in>set ns. VCLOCK_IsRunning v n"
  shows "mid T j {} (fold (\<lambda>n v. vclock_timer_add v n (uiTriggerTick (node v n) - uiCurrentTick v)) ns v) \<and>
    same_timers v (fold (\<lambda>n v. vclock_timer_add v n (uiTriggerTick (node v n) - uiCurrentTick v)) ns v)"
  using assms
proof (induction ns arbitrary: v)
  case (Cons n ns)
  let ?w = "vclock_timer_add v n (uiTriggerTick (node v n) - uiCurrentTick v)"
  have w: "mid T j (set ns) ?w" "same_timers v ?w" using mid_add [OF Cons.prems(1)] Cons.prems(2) by simp_all
  moreover have "\<forall>n\<in>set ns. VCLOCK_IsRunning ?w n" using w(2) Cons.prems(2) by (simp add: same_timers_def)
  ultimately show ?case using Cons.IH [of ?w] same_timers_trans by (auto simp: same_timers_def)
qed simp

lemma mid_cascade_slot:
  assumes m: "mid T (Suc j) {} v" and j: "1 \<le> j" "j < 6"
  shows "mid T j {} (cascade_slot j v) \<and> same_timers v (cascade_slot j v)"
proof -
  have wf: "wheel_wf v" "clock T v" using m by (simp_all add: mid_def)
  let ?ns = "stTimerLevel v (j, T div 64 ^ j mod 64)"
  have "mid T j (set ?ns) v"
    unfolding mid_def
  proof (intro conjI allI impI)
    fix n p assume h: "pstHead (node v n) = Some p"
    show "ulTick (node v n) \<noteq> 0" using m h by (simp add: mid_def)
    from m h have "place T (left v n) p \<or> left v n = 0 \<and> p = (0, T mod 64) \<or>
        (\<exists>L\<ge>1. L < Suc j \<and> p = (L, T div 64 ^ L mod 64))" unfolding mid_def by blast
    moreover have "n \<in> set (stTimerLevel v p)" using wheel_mem [OF wf(1)] h by simp
    ultimately show "place T (left v n) p \<or> left v n = 0 \<and> p = (0, T mod 64) \<or>
        (\<exists>L\<ge>1. L < j \<and> p = (L, T div 64 ^ L mod 64)) \<or> p = (j, T div 64 ^ j mod 64) \<and> n \<in> set ?ns"
      by (metis less_Suc_eq)
  qed (use wf in simp_all)
  moreover have "\<forall>n\<in>set ?ns. VCLOCK_IsRunning v n"
    using wheel_mem [OF wf(1)] by (simp add: VCLOCK_IsRunning_def)
  ultimately show ?thesis
    using mid_fold [of T j ?ns v] by (simp add: cascade_slot_def clock_nth [OF wf(2) j(2)])
qed

lemma mid_cascade: "mid T (Suc j) {} v \<Longrightarrow> j < 6 \<Longrightarrow> settled T (cascade j v) \<and> same_timers v (cascade j v)"
proof (induction j arbitrary: v)
  case (Suc j)
  have "mid T (Suc j) {} (cascade_slot (Suc j) v)" "same_timers v (cascade_slot (Suc j) v)"
    using mid_cascade_slot [OF Suc.prems(1)] Suc.prems(2) by simp_all
  then show ?case using Suc.IH [of "cascade_slot (Suc j) v"] Suc.prems(2) same_timers_trans by auto
qed simp

section \<open>Firing\<close>

lemma VCLOCK_Lock_simps [simp]:
  "uiCurrentTick (VCLOCK_Lock v) = uiCurrentTick v" "uiCurrentTick (VCLOCK_UnLock v) = uiCurrentTick v"
  "ulCurrentLevelTick (VCLOCK_Lock v) = ulCurrentLevelTick v"
  "ulCurrentLevelTick (VCLOCK_UnLock v) = ulCurrentLevelTick v"
  "stTimerLevel (VCLOCK_Lock v) = stTimerLevel v" "stTimerLevel (VCLOCK_UnLock v) = stTimerLevel v"
  "node (VCLOCK_Lock v) = node v" "node (VCLOCK_UnLock v) = node v"
  by (simp_all add: op_defs)

lemma wheel_cong: "stTimerLevel w = stTimerLevel v \<Longrightarrow> node w = node v \<Longrightarrow> wheel_wf w = wheel_wf v"
  by (simp add: wheel_wf_def)

lemma mid_cong:
  assumes "uiCurrentTick w = uiCurrentTick v" "ulCurrentLevelTick w = ulCurrentLevelTick v"
    "stTimerLevel w = stTimerLevel v" "node w = node v"
  shows "mid T j S w = mid T j S v"
  using assms left_cong [of w v] by (simp add: mid_def wheel_cong [OF assms(3,4)] clock_cong [OF assms(1,2)])

lemma mid_Lock [simp]: "mid T j S (VCLOCK_Lock v) = mid T j S v" "mid T j S (VCLOCK_UnLock v) = mid T j S v"
  by (rule mid_cong; simp)+

lemma due_Lock [simp]: "due T (VCLOCK_Lock v) = due T v" "due T (VCLOCK_UnLock v) = due T v"
  by (simp_all add: due_def)

lemma left_Lock [simp]: "left (VCLOCK_Lock v) n = left v n" "left (VCLOCK_UnLock v) n = left v n"
  by (rule left_cong; simp)+

lemma due_iff: "wheel_wf v \<Longrightarrow> n \<in> due T v \<longleftrightarrow> pstHead (node v n) = Some (0, T mod 64)"
  by (simp add: due_def wheel_mem)

text \<open>The contract of the client's time-out functions: they keep the wheel and make no timer due in the very
  tick that is being fired.\<close>

definition call_ok :: "('f \<Rightarrow> 'n \<Rightarrow> 'u \<Rightarrow> ('n, 'f, 'u) vclock \<Rightarrow> ('n, 'f, 'u) vclock) \<Rightarrow> bool" where
  "call_ok call \<longleftrightarrow>
     (\<forall>T f n u v. settled T v \<longrightarrow> settled T (call f n u v) \<and> due T (call f n u v) \<subseteq> due T v)"

lemma dll_get_spec:
  assumes wf: "wheel_wf v" and g: "dll_get p v = (r, w)"
  shows "case r of None \<Rightarrow> w = v \<and> stTimerLevel v p = []
    | Some n \<Rightarrow> n \<in> set (stTimerLevel v p) \<and> wheel_wf w \<and> node w = (node v)(n := node v n\<lparr>pstHead := None\<rparr>) \<and>
        uiCurrentTick w = uiCurrentTick v \<and> ulCurrentLevelTick w = ulCurrentLevelTick v"
proof (cases "stTimerLevel v p")
  case (Cons n ns)
  then have w: "r = Some n" "w = (upd_node n (pstHead_update (\<lambda>_. None)) v)
      \<lparr>stTimerLevel := (stTimerLevel v)(p := ns)\<rparr>"
    using g by (simp_all add: dll_get_def)
  have "distinct (n # ns)" using wf Cons by (metis wheel_wf_def)
  moreover have "pstHead (node v n) = Some p" using Cons wheel_mem [OF wf, of n p] by simp
  ultimately have "wheel_wf w"
    using wf Cons wheel_mem [OF wf, of _ p] by (auto simp: wheel_wf_def w upd_node_def)
  then show ?thesis using w Cons by (simp add: upd_node_def)
qed (use g in \<open>simp add: dll_get_def\<close>)

lemma fire_step:
  assumes m: "settled T v" and d: "due T v \<noteq> {}"
  obtains n w where "n \<in> due T v" "settled T w" "due T w = due T v - {n}"
    "fire call v = Option.bind (fire call (VCLOCK_Lock
       (call (pfFunc (node v n)) n (stUserHandle (node v n)) (VCLOCK_UnLock w)))) (\<lambda>(ns, v). Some (n # ns, v))"
    "\<And>k. k \<noteq> n \<Longrightarrow> node w k = node v k" "uiCurrentTick w = uiCurrentTick v"
    "if flag (node v n) AND TIMER_FLAG_CYCLE \<noteq> 0
      then \<exists>p. node w n = node v n\<lparr>pstHead := Some p, uiTriggerTick := uiCurrentTick v + ulTick (node v n)\<rparr>
      else node w n = node v n\<lparr>pstHead := None\<rparr>"
proof -
  have wf: "wheel_wf v" "clock T v" using m by (simp_all add: mid_def)
  have slot: "(0, ulCurrentLevelTick v ! 0) = (0, T mod 64)" using clock_nth [OF wf(2), of 0] by simp
  obtain r v1 where g: "dll_get (0, T mod 64) v = (r, v1)" by (meson surj_pair)
  have "r \<noteq> None" using dll_get_spec [OF wf(1) g] d by (auto simp: due_def split: option.splits)
  then obtain n where r: "r = Some n" by auto
  have v1: "n \<in> due T v" "wheel_wf v1" "node v1 = (node v)(n := node v n\<lparr>pstHead := None\<rparr>)"
    "uiCurrentTick v1 = uiCurrentTick v" "ulCurrentLevelTick v1 = ulCurrentLevelTick v"
    using dll_get_spec [OF wf(1) g] r by (simp_all add: due_def)
  then have c1: "clock T v1" using wf(2) clock_cong by metis
  have tick: "ulTick (node v n) \<noteq> 0" using m v1(1) by (auto simp: mid_def due_iff [OF wf(1)])
  let ?cyc = "flag (node v n) AND TIMER_FLAG_CYCLE \<noteq> 0"
  define w where "w = (if ?cyc then vclock_timer_add v1 n (ulTick (node v n)) else v1\<lparr>ulNodeCount := ulNodeCount v1 - 1\<rparr>)"
  note add = timer_add_spec [OF v1(2) c1, where n = n and tick = "ulTick (node v n)"]
  have oth: "node w k = node v k" if "k \<noteq> n" for k using add(4) [OF that] v1(3) that by (simp add: w_def)
  have cur: "uiCurrentTick w = uiCurrentTick v" using add(8) v1(4) by (simp add: w_def)
  have own: "if ?cyc then \<exists>p. node w n = node v n\<lparr>pstHead := Some p, uiTriggerTick := uiCurrentTick v + ulTick (node v n)\<rparr>
      \<and> place T (left w n) p else node w n = node v n\<lparr>pstHead := None\<rparr>"
    using add(3,5) v1(3,4) tick by (auto simp: w_def)
  have wfw: "wheel_wf w" "clock T w"
    using add(1,2) v1(2) c1 wheel_cong [of "v1\<lparr>ulNodeCount := ulNodeCount v1 - 1\<rparr>" v1]
      clock_cong [of "v1\<lparr>ulNodeCount := ulNodeCount v1 - 1\<rparr>" v1 T]
    by (simp_all add: w_def)
  have "k \<in> due T w \<longleftrightarrow> k \<in> due T v - {n}" for k
  proof (cases "k = n")
    case True
    have "pstHead (node w n) \<noteq> Some (0, T mod 64)"
      using own place_ahead [of T "left w n" 0 "T mod 64"] by (auto split: if_splits)
    then show ?thesis using True by (simp add: due_iff [OF wfw(1)])
  qed (simp add: due_iff [OF wfw(1)] due_iff [OF wf(1)] oth)
  then have due: "due T w = due T v - {n}" by blast
  have set: "settled T w"
    unfolding mid_def
  proof (intro conjI allI impI)
    fix k p assume h: "pstHead (node w k) = Some p"
    have "left w k = left v k" if "k \<noteq> n" using oth [OF that] cur by (auto intro!: left_cong)
    then show "ulTick (node w k) \<noteq> 0"
      "place T (left w k) p \<or> left w k = 0 \<and> p = (0, T mod 64) \<or>
         (\<exists>L\<ge>1. L < 1 \<and> p = (L, T div 64 ^ L mod 64)) \<or> p = (1, T div 64 ^ 1 mod 64) \<and> k \<in> {}"
      using m h oth [of k] own tick by (cases "k = n"; cases ?cyc; force simp: mid_def)+
  qed (use wfw in simp_all)
  have par: "pfFunc (node w n) = pfFunc (node v n)" "stUserHandle (node w n) = stUserHandle (node v n)"
    using own by (auto split: if_splits)
  have "fire call v = Option.bind (fire call (VCLOCK_Lock
       (call (pfFunc (node v n)) n (stUserHandle (node v n)) (VCLOCK_UnLock w)))) (\<lambda>(ns, v). Some (n # ns, v))"
    using g r v1(3) par by (cases ?cyc) (subst fire.simps, simp add: slot Let_def w_def)+
  then show thesis using that [OF v1(1) set due _ oth cur] own by (auto split: if_splits)
qed

lemma due_finite [simp]: "finite (due T v)"
  by (simp add: due_def)

lemma fire_done: "settled T v \<Longrightarrow> due T v = {} \<Longrightarrow> fire call v = Some ([], v)"
  using clock_nth [of T v 0] by (subst fire.simps) (simp add: dll_get_def due_def mid_def)

text \<open>With well-behaved time-out functions the loop ends, and it fires due timers only, none of them twice.\<close>

lemma fire_spec:
  assumes call: "call_ok call"
  shows "settled T v \<Longrightarrow> \<exists>ns w. fire call v = Some (ns, w) \<and> vclock_ok T w \<and> distinct ns \<and> set ns \<subseteq> due T v"
proof (induction "card (due T v)" arbitrary: v rule: less_induct)
  case less
  show ?case
  proof (cases "due T v = {}")
    case True
    then show ?thesis using fire_done [OF less.prems True] less.prems by (simp add: vclock_ok_def)
  next
    case False
    from fire_step [OF less.prems False, of call] obtain n w where n: "n \<in> due T v" "settled T w" "due T w = due T v - {n}"
      and f: "fire call v = Option.bind (fire call (VCLOCK_Lock
       (call (pfFunc (node v n)) n (stUserHandle (node v n)) (VCLOCK_UnLock w)))) (\<lambda>(ns, v). Some (n # ns, v))"
      by metis
    let ?v = "VCLOCK_Lock (call (pfFunc (node v n)) n (stUserHandle (node v n)) (VCLOCK_UnLock w))"
    have c: "settled T ?v" "due T ?v \<subseteq> due T w"
      using call n(2) mid_Lock(2) [of T 1 "{}" w] due_Lock(2) [of T w] unfolding call_ok_def by (metis mid_Lock(1) due_Lock(1))+
    then have "due T ?v \<subset> due T v" using n by blast
    then have "card (due T ?v) < card (due T v)" by (simp add: psubset_card_mono)
    from less.hyps [OF this c(1)] obtain ns u where "fire call ?v = Some (ns, u)" "vclock_ok T u" "distinct ns"
      "set ns \<subseteq> due T ?v" by blast
    then show ?thesis using f n c(2) by auto
  qed
qed

text \<open>The time-out functions that leave the clock alone.\<close>

definition no_call :: "'f \<Rightarrow> 'n \<Rightarrow> 'u \<Rightarrow> ('n, 'f, 'u) vclock \<Rightarrow> ('n, 'f, 'u) vclock" where
  "no_call f n u v = v"

lemma call_ok_no_call [simp]: "call_ok no_call"
  by (simp add: call_ok_def no_call_def)

text \<open>What becomes of a timer that fires.\<close>

definition fired :: "UINT \<Rightarrow> ('f, 'u) vclock_node \<Rightarrow> ('f, 'u) vclock_node \<Rightarrow> bool" where
  "fired now nd nd' \<longleftrightarrow>
     (if flag nd AND TIMER_FLAG_CYCLE \<noteq> 0
      then \<exists>p. nd' = nd\<lparr>pstHead := Some p, uiTriggerTick := now + ulTick nd\<rparr>
      else nd' = nd\<lparr>pstHead := None\<rparr>)"

lemma fire_exact:
  "settled T v \<Longrightarrow> \<exists>ns w. fire no_call v = Some (ns, w) \<and> vclock_ok T w \<and> uiCurrentTick w = uiCurrentTick v \<and>
    distinct ns \<and> set ns = due T v \<and>
    (\<forall>n. if n \<in> due T v then fired (uiCurrentTick v) (node v n) (node w n) else node w n = node v n)"
proof (induction "card (due T v)" arbitrary: v rule: less_induct)
  case less
  show ?case
  proof (cases "due T v = {}")
    case True
    then show ?thesis using fire_done [OF less.prems True] less.prems by (simp add: vclock_ok_def)
  next
    case False
    from fire_step [OF less.prems False, of no_call] obtain n w where n: "n \<in> due T v" "settled T w" "due T w = due T v - {n}"
      and f: "fire no_call v = Option.bind (fire no_call (VCLOCK_Lock
       (no_call (pfFunc (node v n)) n (stUserHandle (node v n)) (VCLOCK_UnLock w)))) (\<lambda>(ns, v). Some (n # ns, v))"
      and o: "\<And>k. k \<noteq> n \<Longrightarrow> node w k = node v k" "uiCurrentTick w = uiCurrentTick v"
        "fired (uiCurrentTick v) (node v n) (node w n)" unfolding fired_def by blast
    let ?v = "VCLOCK_Lock (VCLOCK_UnLock w)"
    have "card (due T ?v) < card (due T v)" using n by (simp add: card_Diff1_less del: card_Diff_insert)
    moreover have "settled T ?v" using n(2) by simp
    ultimately have "\<exists>ns u. fire no_call ?v = Some (ns, u) \<and> vclock_ok T u \<and> uiCurrentTick u = uiCurrentTick w \<and>
      distinct ns \<and> set ns = due T w \<and>
      (\<forall>k. if k \<in> due T w then fired (uiCurrentTick w) (node w k) (node u k) else node u k = node w k)"
      using less.hyps [of ?v] by (simp split del: if_split cong: if_cong)
    then obtain ns u where u: "fire no_call ?v = Some (ns, u)" "vclock_ok T u" "uiCurrentTick u = uiCurrentTick w"
      "distinct ns" "set ns = due T w"
      "\<forall>k. if k \<in> due T w then fired (uiCurrentTick w) (node w k) (node u k) else node u k = node w k" by blast
    have "if k \<in> due T v then fired (uiCurrentTick v) (node v k) (node u k) else node u k = node v k" for k
      using u(6) [THEN spec, of k] n(1,3) o by (cases "k = n") (auto split: if_splits)
    moreover have "fire no_call v = Some (n # ns, u)" using f u(1) by (simp add: no_call_def)
    ultimately show ?thesis using u o(2) n(1,3) by auto
  qed
qed

section \<open>The step as a whole\<close>

lemma settledD:
  assumes "settled T w" "pstHead (node w n) = Some p"
  shows "ulTick (node w n) \<noteq> 0" and "place T (left w n) p \<or> left w n = 0 \<and> p = (0, T mod 64)"
  using assms by (simp_all add: mid_def)

lemma settled_due_iff:
  assumes "settled T w"
  shows "n \<in> due T w \<longleftrightarrow> VCLOCK_IsRunning w n \<and> left w n = 0"
proof -
  have wf: "wheel_wf w" using assms by (simp add: mid_def)
  show ?thesis
    unfolding due_iff [OF wf] VCLOCK_IsRunning_def
  proof
    assume h: "pstHead (node w n) = Some (0, T mod 64)"
    then have "place T (left w n) (0, T mod 64) \<or> left w n = 0" using settledD(2) [OF assms h] by simp
    then show "pstHead (node w n) \<noteq> None \<and> left w n = 0"
      using h place_ahead [of T "left w n" 0 "T mod 64"] by auto
  next
    assume h: "pstHead (node w n) \<noteq> None \<and> left w n = 0"
    then obtain p where "pstHead (node w n) = Some p" by auto
    then show "pstHead (node w n) = Some (0, T mod 64)"
      using h settledD(2) [OF assms, of n p] place_pos [of T 0 p] by auto
  qed
qed

lemma step_cascaded:
  fixes v :: "('n, 'f, 'u) vclock"
  assumes ok: "vclock_ok T v"
  obtains w where "settled (T + 1) w" "due (T + 1) w = {n. VCLOCK_IsRunning v n \<and> left v n = 1}"
    "\<And>call. VCLOCK_Step call v = map_option (\<lambda>(ns, v). (ns, VCLOCK_UnLock v)) (fire call w)"
    "\<And>n. VCLOCK_IsRunning w n = VCLOCK_IsRunning v n \<and> node w n\<lparr>pstHead := None\<rparr> = node v n\<lparr>pstHead := None\<rparr>"
    "\<And>n. VCLOCK_IsRunning v n \<Longrightarrow> left w n = left v n - 1" "uiCurrentTick w = uiCurrentTick v + 1"
proof -
  let ?v = "VCLOCK_Lock v"
  have okl: "vclock_ok T ?v" using ok by (simp add: vclock_ok_def)
  obtain i ts where a: "advance (ulCurrentLevelTick ?v) = (i, ts)" by (meson surj_pair)
  let ?u = "?v\<lparr>uiCurrentTick := uiCurrentTick ?v + 1, ulCurrentLevelTick := ts\<rparr>"
  let ?j = "if i \<ge> 6 then 5 else i"
  let ?w = "cascade ?j ?u"
  have m: "mid (T + 1) (Suc ?j) {} ?u" by (rule mid_tick(1) [OF okl a])
  have c: "settled (T + 1) ?w" "same_timers ?u ?w" using mid_cascade [OF m] by auto
  have run: "VCLOCK_IsRunning ?w n = VCLOCK_IsRunning v n \<and> node ?w n\<lparr>pstHead := None\<rparr> = node v n\<lparr>pstHead := None\<rparr>" for n
    using c(2) by (simp add: same_timers_def VCLOCK_IsRunning_def)
  have left: "1 \<le> left v n" "left ?w n = left v n - 1" if "VCLOCK_IsRunning v n" for n
    using mid_tick(2) [OF okl a, of n] same_timers_left [OF c(2)] that by (simp_all add: VCLOCK_IsRunning_def)
  have "due (T + 1) ?w = {n. VCLOCK_IsRunning v n \<and> left v n = 1}"
  proof (rule set_eqI)
    fix n
    show "n \<in> due (T + 1) ?w \<longleftrightarrow> n \<in> {n. VCLOCK_IsRunning v n \<and> left v n = 1}"
      using run [of n] left [of n] settled_due_iff [OF c(1), of n] by auto
  qed
  moreover have "VCLOCK_Step call v = map_option (\<lambda>(ns, v). (ns, VCLOCK_UnLock v)) (fire call ?w)" for call
    using a by (simp add: VCLOCK_Step_def Let_def)
  moreover have "uiCurrentTick ?w = uiCurrentTick v + 1" using c(2) by (simp add: same_timers_def)
  ultimately show thesis using that [of ?w] c(1) run left(2) by blast
qed

lemma IsRunning_Lock [simp]:
  "VCLOCK_IsRunning (VCLOCK_Lock v) n = VCLOCK_IsRunning v n" "VCLOCK_IsRunning (VCLOCK_UnLock v) n = VCLOCK_IsRunning v n"
  by (simp_all add: VCLOCK_IsRunning_def)

lemma vclock_ok_Lock [simp]: "vclock_ok T (VCLOCK_Lock v) = vclock_ok T v" "vclock_ok T (VCLOCK_UnLock v) = vclock_ok T v"
  by (simp_all add: vclock_ok_def)

lemma Step_exact:
  assumes ok: "vclock_ok T v"
  shows "\<exists>ns w. VCLOCK_Step no_call v = Some (ns, w) \<and> vclock_ok (T + 1) w \<and> distinct ns \<and>
    set ns = {n. VCLOCK_IsRunning v n \<and> left v n = 1} \<and>
    (\<forall>n. n \<notin> set ns \<longrightarrow> VCLOCK_IsRunning w n = VCLOCK_IsRunning v n \<and>
      (VCLOCK_IsRunning v n \<longrightarrow> left w n = left v n - 1)) \<and>
    (\<forall>n\<in>set ns. if flag (node v n) AND TIMER_FLAG_CYCLE \<noteq> 0
      then VCLOCK_IsRunning w n \<and> left w n = unat (ulTick (node v n)) else \<not> VCLOCK_IsRunning w n)"
proof (rule step_cascaded [OF ok])
  fix u
  assume u: "settled (T + 1) u" "due (T + 1) u = {n. VCLOCK_IsRunning v n \<and> left v n = 1}"
    "\<And>call. VCLOCK_Step call v = map_option (\<lambda>(ns, v). (ns, VCLOCK_UnLock v)) (fire call u)"
    "\<And>n. VCLOCK_IsRunning u n = VCLOCK_IsRunning v n \<and> node u n\<lparr>pstHead := None\<rparr> = node v n\<lparr>pstHead := None\<rparr>"
    "\<And>n. VCLOCK_IsRunning v n \<Longrightarrow> left u n = left v n - 1"
  from fire_exact [OF u(1)] obtain ns w where w: "fire no_call u = Some (ns, w)" "vclock_ok (T + 1) w"
    "uiCurrentTick w = uiCurrentTick u" "distinct ns" "set ns = due (T + 1) u"
    "\<forall>n. if n \<in> due (T + 1) u then fired (uiCurrentTick u) (node u n) (node w n) else node w n = node u n" by blast
  have "VCLOCK_IsRunning w n = VCLOCK_IsRunning v n \<and> (VCLOCK_IsRunning v n \<longrightarrow> left w n = left v n - 1)"
    if "n \<notin> set ns" for n
  proof -
    have "node w n = node u n" using w(5,6) that by simp
    then show ?thesis using u(4,5) [of n] left_cong [OF w(3), of n] by (simp add: VCLOCK_IsRunning_def)
  qed
  moreover have "if flag (node v n) AND TIMER_FLAG_CYCLE \<noteq> 0
      then VCLOCK_IsRunning w n \<and> left w n = unat (ulTick (node v n)) else \<not> VCLOCK_IsRunning w n"
    if "n \<in> set ns" for n
  proof -
    have "fired (uiCurrentTick u) (node u n) (node w n)" using w(5,6) that by simp
    moreover have "flag (node u n) = flag (node v n)" "ulTick (node u n) = ulTick (node v n)"
      using pstHead_None_eqD u(4) by blast+
    ultimately show ?thesis
      using w(3) by (auto simp: fired_def VCLOCK_IsRunning_def left_def VCLOCK_GetTickLeft_inner_def split: if_splits)
  qed
  moreover have "VCLOCK_Step no_call v = Some (ns, VCLOCK_UnLock w)" using u(3) w(1) by simp
  ultimately show ?thesis
    using w(2,4,5) u(2) by (intro exI [of _ ns] exI [of _ "VCLOCK_UnLock w"]) simp
qed

text \<open>Several steps, with the timers that each of them fires.\<close>

primrec steps ::
  "('f \<Rightarrow> 'n \<Rightarrow> 'u \<Rightarrow> ('n, 'f, 'u) vclock \<Rightarrow> ('n, 'f, 'u) vclock) \<Rightarrow> nat \<Rightarrow> ('n, 'f, 'u) vclock \<Rightarrow>
     ('n list list \<times> ('n, 'f, 'u) vclock) option" where
  "steps call 0 v = Some ([], v)"
| "steps call (Suc k) v =
     Option.bind (VCLOCK_Step call v) (\<lambda>(ns, v). Option.bind (steps call k v) (\<lambda>(nss, v). Some (ns # nss, v)))"

lemma steps_fire:
  "vclock_ok T v \<Longrightarrow> VCLOCK_IsRunning v n \<Longrightarrow> left v n = Suc d \<Longrightarrow>
    \<exists>nss w. steps no_call (Suc d) v = Some (nss, w) \<and> length nss = Suc d \<and> (\<forall>i<Suc d. n \<in> set (nss ! i) \<longleftrightarrow> i = d)"
proof (induction d arbitrary: T v)
  case 0
  from Step_exact [OF "0.prems"(1)] obtain ns w where "VCLOCK_Step no_call v = Some (ns, w)"
    "set ns = {n. VCLOCK_IsRunning v n \<and> left v n = 1}" by blast
  then show ?case using "0.prems" by simp
next
  case (Suc d)
  from Step_exact [OF Suc.prems(1)] obtain ns w where w: "VCLOCK_Step no_call v = Some (ns, w)" "vclock_ok (T + 1) w"
    "set ns = {n. VCLOCK_IsRunning v n \<and> left v n = 1}"
    "\<forall>n. n \<notin> set ns \<longrightarrow> VCLOCK_IsRunning w n = VCLOCK_IsRunning v n \<and>
      (VCLOCK_IsRunning v n \<longrightarrow> left w n = left v n - 1)" by blast
  have n: "n \<notin> set ns" using w(3) Suc.prems(3) by simp
  then have "VCLOCK_IsRunning w n" "left w n = Suc d" using w(4) Suc.prems by simp_all
  from Suc.IH [OF w(2) this] obtain nss u where u: "steps no_call (Suc d) w = Some (nss, u)" "length nss = Suc d"
    "\<forall>i<Suc d. n \<in> set (nss ! i) \<longleftrightarrow> i = d" by blast
  have "steps no_call (Suc (Suc d)) v = Some (ns # nss, u)"
    by (subst steps.simps(2)) (simp add: w(1) u(1) del: steps.simps)
  moreover have "\<forall>i<Suc (Suc d). n \<in> set ((ns # nss) ! i) \<longleftrightarrow> i = Suc d"
    using n u(3) by (auto simp: nth_Cons split: nat.split)
  ultimately show ?case using u(2) by auto
qed

section \<open>The operations of the clients\<close>

lemma settled_upd:
  assumes m: "settled T v" and f: "\<And>nd. pstHead (f nd) = pstHead nd" "\<And>nd. uiTriggerTick (f nd) = uiTriggerTick nd"
    and t: "VCLOCK_IsRunning v n \<Longrightarrow> ulTick (f (node v n)) \<noteq> 0"
  shows "settled T (upd_node n f v)" and "due T (upd_node n f v) = due T v"
proof -
  have "left (upd_node n f v) k = left v k" for k by (rule left_cong) (simp_all add: upd_node_def f)
  moreover have "wheel_wf (upd_node n f v)" using m by (intro upd_node_wf) (simp_all add: mid_def f)
  moreover have "clock T (upd_node n f v)" using m by (simp add: mid_def clock_def upd_node_def)
  ultimately show "settled T (upd_node n f v)"
    using m t by (auto simp: mid_def upd_node_def f VCLOCK_IsRunning_def)
  show "due T (upd_node n f v) = due T v" by (simp add: due_def upd_node_def)
qed

lemma settled_del:
  assumes m: "settled T v"
  shows "settled T (del_if_in_list n v)" and "due T (del_if_in_list n v) = due T v - {n}"
    and "\<not> VCLOCK_IsRunning (del_if_in_list n v) n"
proof -
  have wf: "wheel_wf v" using m by (simp add: mid_def)
  note d = del_if_in_list_wf [OF wf, of n]
  have l: "left (del_if_in_list n v) k = left v k" for k by (rule left_cong) (simp_all add: d(2))
  have "clock T (del_if_in_list n v)" using m by (simp add: mid_def clock_def)
  then show "settled T (del_if_in_list n v)"
    using m d(1) by (simp add: mid_def l) (simp add: d(2))
  show "due T (del_if_in_list n v) = due T v - {n}"
    using due_iff [OF wf] due_iff [OF d(1)] by (auto simp: d(2) split: if_splits)
  show "\<not> VCLOCK_IsRunning (del_if_in_list n v) n" by (simp add: VCLOCK_IsRunning_def d(2))
qed

lemma settled_add:
  assumes m: "settled T v" and t: "ulTick (node v n) \<noteq> 0" "tick \<noteq> 0"
  shows "settled T (vclock_timer_add v n tick)" and "due T (vclock_timer_add v n tick) = due T v - {n}"
    and "VCLOCK_IsRunning (vclock_timer_add v n tick) n" and "left (vclock_timer_add v n tick) n = unat tick"
proof -
  have wf: "wheel_wf v" "clock T v" using m by (simp_all add: mid_def)
  define w where "w = vclock_timer_add v n tick"
  note add = timer_add_spec [OF wf, where n = n and tick = tick, folded w_def]
  obtain p where p: "node w n = node v n\<lparr>pstHead := Some p, uiTriggerTick := uiCurrentTick v + tick\<rparr>"
    "place T (left w n) p" using add(3,5) t(2) by auto
  have o: "left w k = left v k" if "k \<noteq> n" for k using add(4) [OF that] add(8) by (auto intro!: left_cong)
  show s: "settled T w"
    unfolding mid_def
  proof (intro conjI allI impI)
    fix k q assume h: "pstHead (node w k) = Some q"
    show "ulTick (node w k) \<noteq> 0"
      "place T (left w k) q \<or> left w k = 0 \<and> q = (0, T mod 64) \<or>
         (\<exists>L\<ge>1. L < 1 \<and> q = (L, T div 64 ^ L mod 64)) \<or> q = (1, T div 64 ^ 1 mod 64) \<and> k \<in> {}"
      using h p t settledD [OF m, of k q] o [of k] add(4) [of k] by (cases "k = n"; simp)+
  qed (use add in simp_all)
  show r: "VCLOCK_IsRunning w n" by (simp add: VCLOCK_IsRunning_def p(1))
  show l: "left w n = unat tick" by (rule add(3))
  have "k \<in> due T w \<longleftrightarrow> k \<in> due T v - {n}" for k
    using settled_due_iff [OF s, of k] settled_due_iff [OF m, of k] l t(2) o [of k] add(4) [of k]
    by (cases "k = n") (auto simp: VCLOCK_IsRunning_def)
  then show "due T w = due T v - {n}" by blast
qed

lemma ok_settled: "vclock_ok T v \<longleftrightarrow> settled T v \<and> due T v \<subseteq> {}"
  by (simp add: vclock_ok_def)

lemma vclock_ok_count [simp]: "vclock_ok T (v\<lparr>ulNodeCount := c\<rparr>) = vclock_ok T v"
  by (simp add: vclock_ok_def due_def mid_cong [of "v\<lparr>ulNodeCount := c\<rparr>" v])

lemma IsRunning_count [simp]: "VCLOCK_IsRunning (v\<lparr>ulNodeCount := c\<rparr>) n = VCLOCK_IsRunning v n"
  by (simp add: VCLOCK_IsRunning_def)

text \<open>A timer set up for \<open>first_tick + 1\<close> ticks.\<close>

lemma AddTimer_spec:
  fixes v :: "('n, 'f, 'u) vclock" and n :: 'n and first_tick tick flg :: UINT and f :: 'f and u :: "'u option"
  assumes ok: "vclock_ok T v" and n: "\<not> VCLOCK_IsRunning v n" and t: "first_tick + 1 \<noteq> 0" "tick \<noteq> 0"
  defines "w \<equiv> snd (VCLOCK_AddTimer v n first_tick tick flg f u)"
  shows "vclock_ok T w" "VCLOCK_IsRunning w n" "left w n = unat (first_tick + 1)"
proof -
  define v1 where "v1 = upd_node n (pstHead_update (\<lambda>_. None)) v"
  have "v1 = v" using n by (cases "node v n") (simp add: v1_def upd_node_def VCLOCK_IsRunning_def fun_upd_idem)
  define v2 where "v2 = (case u of None \<Rightarrow> v1 | Some x \<Rightarrow> upd_node n (stUserHandle_update (\<lambda>_. x)) v1)"
  define v3 where "v3 = upd_node n (\<lambda>nd. nd\<lparr>flag := flg, ulTick := tick, pfFunc := f\<rparr>) (VCLOCK_Lock v2)"
  have s: "settled T v" "due T v = {}" using ok by (simp_all add: vclock_ok_def)
  have "vclock_ok T v2 \<and> \<not> VCLOCK_IsRunning v2 n"
    using settled_upd [OF s(1), of "stUserHandle_update (\<lambda>_. x)" n for x] s n
    by (auto simp: v2_def \<open>v1 = v\<close> vclock_ok_def VCLOCK_IsRunning_def upd_node_def split: option.split)
  then have 2: "settled T (VCLOCK_Lock v2)" "due T v2 = {}" "\<not> VCLOCK_IsRunning (VCLOCK_Lock v2) n"
    by (simp_all add: vclock_ok_def)
  then have "settled T v3" "due T v3 = {}"
    using settled_upd [OF 2(1), of "\<lambda>nd. nd\<lparr>flag := flg, ulTick := tick, pfFunc := f\<rparr>" n] by (simp_all add: v3_def t)
  then have 3: "settled T (v3\<lparr>ulNodeCount := c\<rparr>)" "due T (v3\<lparr>ulNodeCount := c\<rparr>) = {}" for c
    using vclock_ok_count [where T = T and v = v3] by (simp_all add: vclock_ok_def)
  have tick: "ulTick (node (v3\<lparr>ulNodeCount := c\<rparr>) n) \<noteq> 0" for c using t(2) by (simp add: v3_def upd_node_def)
  note add = settled_add [OF 3(1) tick t(1)]
  have "w = VCLOCK_UnLock (vclock_timer_add (v3\<lparr>ulNodeCount := ulNodeCount v3 + 1\<rparr>) n (first_tick + 1))"
    unfolding w_def VCLOCK_AddTimer_def vclock_add_timer_def v3_def v2_def v1_def Let_def by simp
  then show "vclock_ok T w" "VCLOCK_IsRunning w n" "left w n = unat (first_tick + 1)"
    using add 3(2) by (simp_all add: vclock_ok_def)
qed

lemma DelTimer_spec:
  assumes "vclock_ok T v"
  shows "vclock_ok T (snd (VCLOCK_DelTimer v n))" "\<not> VCLOCK_IsRunning (snd (VCLOCK_DelTimer v n)) n"
proof -
  have "vclock_ok T (VCLOCK_Lock v)" using assms by simp
  then have "vclock_ok T (del_if_in_list n (VCLOCK_Lock v))"
    "\<not> VCLOCK_IsRunning (del_if_in_list n (VCLOCK_Lock v)) n"
    using settled_del [of T "VCLOCK_Lock v" n] by (simp_all add: vclock_ok_def)
  then show "vclock_ok T (snd (VCLOCK_DelTimer v n))" "\<not> VCLOCK_IsRunning (snd (VCLOCK_DelTimer v n)) n"
    using assms by (simp_all add: VCLOCK_DelTimer_def VCLOCK_DelTimer_inner_def) (simp add: VCLOCK_IsRunning_def)
qed

lemma Pause_spec:
  assumes "vclock_ok T v"
  shows "vclock_ok T (snd (VCLOCK_Pause v n))" "\<not> VCLOCK_IsRunning (snd (VCLOCK_Pause v n)) n"
proof -
  let ?d = "del_if_in_list n (VCLOCK_Lock v)"
  have d: "settled T ?d" "due T ?d = {}" "\<not> VCLOCK_IsRunning ?d n"
    using settled_del [of T "VCLOCK_Lock v" n] assms by (simp_all add: vclock_ok_def)
  then have "settled T (upd_node n (flag_update (\<lambda>b. b OR TIMER_FLAG_PAUSE)) ?d)"
    "due T (upd_node n (flag_update (\<lambda>b. b OR TIMER_FLAG_PAUSE)) ?d) = {}"
    using settled_upd [OF d(1), of "flag_update (\<lambda>b. b OR TIMER_FLAG_PAUSE)" n] by simp_all
  then show "vclock_ok T (snd (VCLOCK_Pause v n))" "\<not> VCLOCK_IsRunning (snd (VCLOCK_Pause v n)) n"
    using d(3) by (simp_all add: VCLOCK_Pause_def VCLOCK_Pause_inner_def vclock_ok_def)
      (simp add: VCLOCK_IsRunning_def upd_node_def)
qed

lemma Resume_spec:
  assumes "vclock_ok T v" "first_tick \<noteq> 0" "ulTick (node v n) \<noteq> 0"
  shows "vclock_ok T (snd (VCLOCK_Resume v n first_tick))"
    and "flag (node v n) AND TIMER_FLAG_PAUSE \<noteq> 0 \<Longrightarrow>
      VCLOCK_IsRunning (snd (VCLOCK_Resume v n first_tick)) n \<and> left (snd (VCLOCK_Resume v n first_tick)) n = unat first_tick"
proof -
  let ?u = "upd_node n (flag_update (\<lambda>b. b AND NOT TIMER_FLAG_PAUSE)) (VCLOCK_Lock v)"
  have l: "settled T (VCLOCK_Lock v)" "due T v = {}" using assms(1) by (simp_all add: vclock_ok_def)
  have u: "settled T ?u" "due T ?u = {}"
    using settled_upd [OF l(1), of "flag_update (\<lambda>b. b AND NOT TIMER_FLAG_PAUSE)" n] assms(3) l(2) by simp_all
  moreover have "ulTick (node ?u n) \<noteq> 0" using assms(3) by (simp add: upd_node_def)
  ultimately have "vclock_ok T (vclock_timer_add ?u n first_tick)" "VCLOCK_IsRunning (vclock_timer_add ?u n first_tick) n"
    "left (vclock_timer_add ?u n first_tick) n = unat first_tick"
    using settled_add [of T ?u n first_tick] assms(2) by (simp_all add: vclock_ok_def)
  then show "vclock_ok T (snd (VCLOCK_Resume v n first_tick))"
    and "flag (node v n) AND TIMER_FLAG_PAUSE \<noteq> 0 \<Longrightarrow>
      VCLOCK_IsRunning (snd (VCLOCK_Resume v n first_tick)) n \<and> left (snd (VCLOCK_Resume v n first_tick)) n = unat first_tick"
    using assms(1) by (simp_all add: VCLOCK_Resume_def VCLOCK_Resume_inner_def)
qed

lemma Restart_spec:
  assumes "vclock_ok T v" "first_tick \<noteq> 0" "tick \<noteq> 0"
  shows "vclock_ok T (snd (VCLOCK_RestartWithTick v n first_tick tick))"
    and "left (snd (VCLOCK_RestartWithTick v n first_tick tick)) n = unat first_tick"
proof -
  let ?u = "upd_node n (ulTick_update (\<lambda>_. tick)) (VCLOCK_Lock v)"
  have l: "settled T (VCLOCK_Lock v)" "due T v = {}" using assms(1) by (simp_all add: vclock_ok_def)
  have "settled T ?u" "due T ?u = {}"
    using settled_upd [OF l(1), of "ulTick_update (\<lambda>_. tick)" n] assms(3) l(2) by simp_all
  moreover have "ulTick (node ?u n) \<noteq> 0" using assms(3) by (simp add: upd_node_def)
  ultimately have "vclock_ok T (vclock_timer_add ?u n first_tick)"
    "left (vclock_timer_add ?u n first_tick) n = unat first_tick"
    using settled_add [of T ?u n first_tick] assms(2) by (simp_all add: vclock_ok_def)
  then show "vclock_ok T (snd (VCLOCK_RestartWithTick v n first_tick tick))"
    and "left (snd (VCLOCK_RestartWithTick v n first_tick tick)) n = unat first_tick"
    by (simp_all add: VCLOCK_RestartWithTick_def VCLOCK_RestartWithTick_inner_def)
qed

lemma level_ticks_0: "level_ticks 0 n = replicate n 0"
  by (induction n) simp_all

lemma InitInstance_ok: "(\<And>n. pstHead (mem n) = None) \<Longrightarrow> vclock_ok 0 (VCLOCK_InitInstance mem b)"
  by (simp add: VCLOCK_InitInstance_def vclock_ok_def mid_def wheel_wf_def clock_def due_def level_ticks_0)

section \<open>Properties\<close>

text \<open>The wheel stays in order: a fresh clock has every timer in place, and adding, deleting, pausing,
  resuming and restarting timers keep it so. A timer that was added or restarted has exactly the ticks left
  that it was given, a deleted or paused one does not run.\<close>

theorem VCLOCK_operations_keep_wheel:
  assumes "vclock_ok T v" "first_tick + 1 \<noteq> 0" "first_tick \<noteq> 0" "tick \<noteq> 0"
  shows "(\<not> VCLOCK_IsRunning v n \<longrightarrow>
      (let w = snd (VCLOCK_AddTimer v n first_tick tick flg f u)
       in vclock_ok T w \<and> VCLOCK_IsRunning w n \<and> left w n = unat first_tick + 1)) \<and>
    (let w = snd (VCLOCK_DelTimer v n) in vclock_ok T w \<and> \<not> VCLOCK_IsRunning w n) \<and>
    (let w = snd (VCLOCK_Pause v n) in vclock_ok T w \<and> \<not> VCLOCK_IsRunning w n) \<and>
    (let w = snd (VCLOCK_RestartWithTick v n first_tick tick) in vclock_ok T w \<and> left w n = unat first_tick) \<and>
    (ulTick (node v n) \<noteq> 0 \<longrightarrow> vclock_ok T (snd (VCLOCK_Resume v n first_tick)))"
proof -
  have "unat (first_tick + 1) = unat first_tick + 1"
    using assms(2) by (metis Suc_eq_plus1 unatSuc add.commute)
  then show ?thesis
    using AddTimer_spec [OF assms(1) _ assms(2,4)] DelTimer_spec [OF assms(1)] Pause_spec [OF assms(1)]
      Restart_spec [OF assms(1,3,4)] Resume_spec [OF assms(1,3)]
    by (simp add: Let_def)
qed

abbreviation idle_node :: "(unit, unit) vclock_node" where
  "idle_node \<equiv> \<lparr>pstHead = None, ulTick = 0, uiTriggerTick = 0, flag = 0, pfFunc = (), stUserHandle = ()\<rparr>"

abbreviation idle_clock :: "(nat, unit, unit) vclock" where
  "idle_clock \<equiv> VCLOCK_InitInstance (\<lambda>_. idle_node) True"

lemma idle_clock_ok: "vclock_ok 0 idle_clock"
  by (rule InitInstance_ok) simp

text \<open>C15: a step returns, for every behaviour of the time-out functions that keeps the wheel and makes no timer
  due in the tick being fired. It fires timers that were due, each at most once, and leaves the wheel
  in order for the next step.\<close>

theorem VCLOCK_Step_returns:
  assumes "vclock_ok T v" "call_ok call"
  shows "\<exists>ns w. VCLOCK_Step call v = Some (ns, w) \<and> vclock_ok (T + 1) w \<and> distinct ns \<and>
    set ns \<subseteq> {n. VCLOCK_IsRunning v n \<and> left v n = 1}"
proof (rule step_cascaded [OF assms(1)])
  fix u
  assume u: "settled (T + 1) u" "due (T + 1) u = {n. VCLOCK_IsRunning v n \<and> left v n = 1}"
    "\<And>call. VCLOCK_Step call v = map_option (\<lambda>(ns, v). (ns, VCLOCK_UnLock v)) (fire call u)"
  from fire_spec [OF assms(2) u(1)] obtain ns w where "fire call u = Some (ns, w)" "vclock_ok (T + 1) w"
    "distinct ns" "set ns \<subseteq> due (T + 1) u" by blast
  then show ?thesis using u(2,3) by auto
qed

theorem VCLOCK_Step_returns_witness: "\<exists>ns w. VCLOCK_Step no_call idle_clock = Some (ns, w) \<and> vclock_ok 1 w"
  using VCLOCK_Step_returns [OF idle_clock_ok call_ok_no_call] by auto

text \<open>C16: a step on its own fires exactly the timers that have one tick left. A one-shot timer stops,
  a cyclic one has its full period left again, and every other running timer has one tick less to go.\<close>

theorem VCLOCK_Step_exact:
  assumes "vclock_ok T v"
  shows "\<exists>ns w. VCLOCK_Step no_call v = Some (ns, w) \<and> vclock_ok (T + 1) w \<and>
    set ns = {n. VCLOCK_IsRunning v n \<and> left v n = 1} \<and>
    (\<forall>n. n \<notin> set ns \<longrightarrow> VCLOCK_IsRunning w n = VCLOCK_IsRunning v n \<and>
      (VCLOCK_IsRunning v n \<longrightarrow> left w n = left v n - 1)) \<and>
    (\<forall>n\<in>set ns. if flag (node v n) AND TIMER_FLAG_CYCLE \<noteq> 0
      then VCLOCK_IsRunning w n \<and> left w n = unat (ulTick (node v n)) else \<not> VCLOCK_IsRunning w n)"
  using Step_exact [OF assms] by blast

theorem VCLOCK_Step_exact_witness: "\<exists>w. VCLOCK_Step no_call idle_clock = Some ([], w)"
  using VCLOCK_Step_exact [OF idle_clock_ok] by (auto simp: VCLOCK_IsRunning_def VCLOCK_InitInstance_def)

text \<open>C14: a timer that is added with \<open>first_tick\<close> fires in the step number \<open>first_tick + 1\<close> from then on and in none
  before, however far that is: across the levels of the wheel and the wrap-around of the tick counter. The time-out functions
  of the other timers leave the clock alone (\<open>no_call\<close>).\<close>

theorem VCLOCK_timer_fires_on_time:
  assumes "vclock_ok T v" "\<not> VCLOCK_IsRunning v n" "first_tick + 1 \<noteq> 0" "tick \<noteq> 0"
  shows "\<exists>nss w. steps no_call (unat first_tick + 1) (snd (VCLOCK_AddTimer v n first_tick tick flg f u)) = Some (nss, w) \<and>
    length nss = unat first_tick + 1 \<and> (\<forall>i<unat first_tick + 1. n \<in> set (nss ! i) \<longleftrightarrow> i = unat first_tick)"
proof -
  have "unat (first_tick + 1) = Suc (unat first_tick)" using assms(3) by (metis unatSuc add.commute)
  then show ?thesis
    using steps_fire [OF AddTimer_spec(1,2) [OF assms], where d = "unat first_tick"] AddTimer_spec(3) [OF assms] by simp
qed

theorem VCLOCK_timer_fires_on_time_witness:
  "\<exists>nss w. steps no_call 5001 (snd (VCLOCK_AddTimer idle_clock 7 5000 1 0 () None)) = Some (nss, w) \<and> 7 \<in> set (nss ! 5000)"
proof -
  have "\<not> VCLOCK_IsRunning idle_clock 7" by (simp add: VCLOCK_IsRunning_def VCLOCK_InitInstance_def)
  from VCLOCK_timer_fires_on_time [OF idle_clock_ok this, of 5000 1 0 "()" None] show ?thesis
    by (auto simp del: steps.simps)
qed

end
