(* ===== verification/JHash.thy ===== *)
theory JHash
  imports Prelude
begin

text \<open>
  Jenkins' hash as in \<^verbatim>\<open>utl/jhash_utl.h\<close>, on lists of bytes and of 32-bit words. Additions wrap.
  The rotation \<^verbatim>\<open>NUM_Rol32\<close> has no source in the repository: it is the parameter \<open>rol\<close>. Reading a
  word from memory is the little-endian reading of the machines the framework runs on.
\<close>

type_synonym rol32 = "UINT \<Rightarrow> nat \<Rightarrow> UINT"

type_synonym abc = "UINT \<times> UINT \<times> UINT"

definition JHASH_INITVAL :: UINT where
  "JHASH_INITVAL = 0xdeadbeef"

definition JHASH_MIX :: "rol32 \<Rightarrow> abc \<Rightarrow> abc" where
  "JHASH_MIX rol s =
     (case s of (a, b, c) \<Rightarrow>
        let a = a - c; a = a XOR rol c 4; c = c + b;
            b = b - a; b = b XOR rol a 6; a = a + c;
            c = c - b; c = c XOR rol b 8; b = b + a;
            a = a - c; a = a XOR rol c 16; c = c + b;
            b = b - a; b = b XOR rol a 19; a = a + c;
            c = c - b; c = c XOR rol b 4; b = b + a
        in (a, b, c))"

definition JHASH_FINAL :: "rol32 \<Rightarrow> abc \<Rightarrow> abc" where
  "JHASH_FINAL rol s =
     (case s of (a, b, c) \<Rightarrow>
        let c = c XOR b; c = c - rol b 14;
            a = a XOR c; a = a - rol c 11;
            b = b XOR a; b = b - rol a 25;
            c = c XOR b; c = c - rol b 16;
            a = a XOR c; a = a - rol c 4;
            b = b XOR a; b = b - rol a 14;
            c = c XOR b; c = c - rol b 24
        in (a, b, c))"

abbreviation byte_at :: "UCHAR list \<Rightarrow> nat \<Rightarrow> nat \<Rightarrow> UINT" where
  "byte_at k i s \<equiv> push_bit s (ucast (k ! i))"

definition load32 :: "UCHAR list \<Rightarrow> nat \<Rightarrow> UINT" where
  "load32 k i = byte_at k i 0 + byte_at k (i + 1) 8 + byte_at k (i + 2) 16 + byte_at k (i + 3) 24"

text \<open>The loop of \<^verbatim>\<open>JHASH_GeneralBuffer\<close>; the remaining length is the length of the list.\<close>

function general_loop :: "rol32 \<Rightarrow> UCHAR list \<Rightarrow> abc \<Rightarrow> UCHAR list \<times> abc" where
  "general_loop rol k s =
     (if length k > 12 then
        (case s of (a, b, c) \<Rightarrow>
           general_loop rol (drop 12 k) (JHASH_MIX rol (a + load32 k 0, b + load32 k 4, c + load32 k 8)))
      else (k, s))"
  by pat_completeness auto
termination by (relation "measure (\<lambda>(rol, k, s). length k)") auto

declare general_loop.simps [simp del]

text \<open>The switch; its cases fall through.\<close>

definition general_tail :: "rol32 \<Rightarrow> UCHAR list \<Rightarrow> abc \<Rightarrow> UINT" where
  "general_tail rol k s =
     (case s of (a, b, c) \<Rightarrow>
        let n = length k;
            c = (if n \<ge> 12 then c + byte_at k 11 24 else c);
            c = (if n \<ge> 11 then c + byte_at k 10 16 else c);
            c = (if n \<ge> 10 then c + byte_at k 9 8 else c);
            c = (if n \<ge> 9 then c + byte_at k 8 0 else c);
            b = (if n \<ge> 8 then b + byte_at k 7 24 else b);
            b = (if n \<ge> 7 then b + byte_at k 6 16 else b);
            b = (if n \<ge> 6 then b + byte_at k 5 8 else b);
            b = (if n \<ge> 5 then b + byte_at k 4 0 else b);
            a = (if n \<ge> 4 then a + byte_at k 3 24 else a);
            a = (if n \<ge> 3 then a + byte_at k 2 16 else a);
            a = (if n \<ge> 2 then a + byte_at k 1 8 else a)
        in if n \<ge> 1 then snd (snd (JHASH_FINAL rol (a + byte_at k 0 0, b, c))) else c)"

definition JHASH_GeneralBuffer :: "rol32 \<Rightarrow> UCHAR list \<Rightarrow> UINT \<Rightarrow> UINT" where
  "JHASH_GeneralBuffer rol k initval =
     (let i = JHASH_INITVAL + of_nat (length k) + initval
      in case general_loop rol k (i, i, i) of (k', s) \<Rightarrow> general_tail rol k' s)"

function u32_loop :: "rol32 \<Rightarrow> UINT list \<Rightarrow> abc \<Rightarrow> UINT list \<times> abc" where
  "u32_loop rol k s =
     (if length k > 3 then
        (case s of (a, b, c) \<Rightarrow> u32_loop rol (drop 3 k) (JHASH_MIX rol (a + k ! 0, b + k ! 1, c + k ! 2)))
      else (k, s))"
  by pat_completeness auto
termination by (relation "measure (\<lambda>(rol, k, s). length k)") auto

declare u32_loop.simps [simp del]

definition u32_tail :: "rol32 \<Rightarrow> UINT list \<Rightarrow> abc \<Rightarrow> UINT" where
  "u32_tail rol k s =
     (case s of (a, b, c) \<Rightarrow>
        let n = length k;
            c = (if n \<ge> 3 then c + k ! 2 else c);
            b = (if n \<ge> 2 then b + k ! 1 else b)
        in if n \<ge> 1 then snd (snd (JHASH_FINAL rol (a + k ! 0, b, c))) else c)"

definition JHASH_U32Buffer :: "rol32 \<Rightarrow> UINT list \<Rightarrow> UINT \<Rightarrow> UINT" where
  "JHASH_U32Buffer rol k initval =
     (let i = JHASH_INITVAL + push_bit 2 (of_nat (length k)) + initval
      in case u32_loop rol k (i, i, i) of (k', s) \<Rightarrow> u32_tail rol k' s)"

text \<open>The bytes of a buffer read as words.\<close>

definition load_words :: "UCHAR list \<Rightarrow> UINT list" where
  "load_words k = map (\<lambda>i. load32 k (4 * i)) [0..<length k div 4]"

definition JHASH_Buffer :: "rol32 \<Rightarrow> UCHAR list \<Rightarrow> UINT \<Rightarrow> UINT" where
  "JHASH_Buffer rol k initval =
     (if (of_nat (length k) :: UINT) AND 0x3 = 0 then JHASH_U32Buffer rol (load_words k) initval
      else JHASH_GeneralBuffer rol k initval)"

definition jhash_nwords :: "rol32 \<Rightarrow> UINT \<Rightarrow> UINT \<Rightarrow> UINT \<Rightarrow> UINT \<Rightarrow> UINT" where
  "jhash_nwords rol a b c initval = snd (snd (JHASH_FINAL rol (a + initval, b + initval, c + initval)))"

definition JHASH_3Words :: "rol32 \<Rightarrow> UINT \<Rightarrow> UINT \<Rightarrow> UINT \<Rightarrow> UINT \<Rightarrow> UINT" where
  "JHASH_3Words rol a b c initval = jhash_nwords rol a b c (initval + JHASH_INITVAL + push_bit 2 3)"

definition JHASH_2Words :: "rol32 \<Rightarrow> UINT \<Rightarrow> UINT \<Rightarrow> UINT \<Rightarrow> UINT" where
  "JHASH_2Words rol a b initval = jhash_nwords rol a b 0 (initval + JHASH_INITVAL + push_bit 2 2)"

definition JHASH_Word :: "rol32 \<Rightarrow> UINT \<Rightarrow> UINT \<Rightarrow> UINT" where
  "JHASH_Word rol a initval = jhash_nwords rol a 0 0 (initval + JHASH_INITVAL + push_bit 2 1)"

section \<open>The word path agrees with the byte path\<close>

lemma length_load_words [simp]: "length (load_words k) = length k div 4"
  by (simp add: load_words_def)

lemma load_words_nth [simp]: "i < length k div 4 \<Longrightarrow> load_words k ! i = load32 k (4 * i)"
  by (simp add: load_words_def)

lemma load32_drop: "n + i + 4 \<le> length k \<Longrightarrow> load32 (drop n k) i = load32 k (n + i)"
  by (simp add: load32_def add.assoc)

lemma load_words_drop: "12 \<le> length k \<Longrightarrow> load_words (drop 12 k) = drop 3 (load_words k)"
proof (rule nth_equalityI)
  assume "12 \<le> length k"
  then show "length (load_words (drop 12 k)) = length (drop 3 (load_words k))" by simp
  fix i assume i: "i < length (load_words (drop 12 k))"
  then have "12 + 4 * i + 4 \<le> length k" using \<open>12 \<le> length k\<close> by simp
  then show "load_words (drop 12 k) ! i = drop 3 (load_words k) ! i"
    using i load32_drop [of 12 "4 * i" k] by (simp add: add.commute)
qed

lemma loops_agree:
  "4 dvd length k \<Longrightarrow> u32_loop rol (load_words k) s =
     (case general_loop rol k s of (k', s') \<Rightarrow> (load_words k', s')) \<and>
   4 dvd length (fst (general_loop rol k s)) \<and> length (fst (general_loop rol k s)) \<le> 12"
proof (induction rol k s rule: general_loop.induct)
  case (1 rol k s)
  obtain a b c where s: "s = (a, b, c)" by (cases s)
  obtain m where m: "length k = 4 * m" using 1(2) by blast
  show ?case
  proof (cases "length k > 12")
    case True
    then have "4 dvd length (drop 12 k)" using m by (simp add: dvd_diff_nat)
    then show ?thesis
      using 1(1) [OF True s [symmetric] refl] True m s load_words_drop [of k]
      by (subst u32_loop.simps, subst (1 2 3) general_loop.simps) simp
  next
    case False
    then show ?thesis using m by (subst u32_loop.simps, subst (1 2 3) general_loop.simps) simp
  qed
qed

lemma load_sum:
  "x + load32 k i = x + byte_at k (i + 3) 24 + byte_at k (i + 2) 16 + byte_at k (i + 1) 8 + byte_at k i 0"
  by (simp add: load32_def)

lemma tails_agree:
  assumes "4 dvd length k" "length k \<le> 12"
  shows "u32_tail rol (load_words k) s = general_tail rol k s"
proof -
  obtain a b c where s: "s = (a, b, c)" by (cases s)
  obtain m where m: "length k = 4 * m" using assms(1) by blast
  then consider "length k = 0" | "length k = 4" | "length k = 8" | "length k = 12" using assms(2) by force
  then show ?thesis
    by cases (simp_all add: s u32_tail_def general_tail_def Let_def load_sum [of _ k 0] load_sum [of _ k 4]
        load_sum [of _ k 8] numeral_2_eq_2)
qed

section \<open>Properties\<close>

text \<open>C17: \<^verbatim>\<open>JHASH_Buffer\<close> gives the hash of the byte-wise routine for every buffer, whichever of its two
  routines it picks; and the routines for one, two and three words give the hash of the word buffer
  they stand for.\<close>

theorem JHASH_routines_agree:
  assumes "length k < 2 ^ 32"
  shows "JHASH_Buffer rol k initval = JHASH_GeneralBuffer rol k initval \<and>
    JHASH_3Words rol a b c initval = JHASH_U32Buffer rol [a, b, c] initval \<and>
    JHASH_2Words rol a b initval = JHASH_U32Buffer rol [a, b] initval \<and>
    JHASH_Word rol a initval = JHASH_U32Buffer rol [a] initval"
proof -
  let ?i = "JHASH_INITVAL + of_nat (length k) + initval"
  have "JHASH_Buffer rol k initval = JHASH_GeneralBuffer rol k initval"
  proof (cases "(of_nat (length k) :: UINT) AND 0x3 = 0")
    case True
    have "(of_nat (length k) :: UINT) AND 0x3 = take_bit 2 (of_nat (length k))"
      by (simp add: take_bit_eq_mask mask_eq_exp_minus_1)
    then have "unat (take_bit 2 (of_nat (length k) :: UINT)) = 0" using True by simp
    then have "length k mod 4 = 0"
      using assms by (simp only: unsigned_take_bit_eq) (simp add: take_bit_eq_mod unat_of_nat)
    then have d: "4 dvd length k" by presburger
    then obtain m where m: "length k = 4 * m" by blast
    have "push_bit 2 (of_nat (length k div 4)) = (of_nat (length k) :: UINT)"
      by (simp add: m push_bit_eq_mult)
    moreover obtain k' s where g: "general_loop rol k (?i, ?i, ?i) = (k', s)" by (meson surj_pair)
    ultimately show ?thesis
      using True loops_agree [OF d, of rol "(?i, ?i, ?i)"] tails_agree [of k' rol s]
      by (simp add: JHASH_Buffer_def JHASH_U32Buffer_def JHASH_GeneralBuffer_def Let_def)
  qed (simp add: JHASH_Buffer_def)
  then show ?thesis
    by (simp add: JHASH_3Words_def JHASH_2Words_def JHASH_Word_def jhash_nwords_def JHASH_U32Buffer_def
        u32_loop.simps u32_tail_def Let_def ac_simps)
qed

theorem JHASH_routines_agree_witness:
  "JHASH_Buffer (\<lambda>w n. word_rotl n w) [1, 2, 3, 4] 0 = JHASH_GeneralBuffer (\<lambda>w n. word_rotl n w) [1, 2, 3, 4] 0"
  using JHASH_routines_agree [of "[1, 2, 3, 4]"] by simp

end
