(* ===== verification/Hash.thy ===== *)
theory Hash
  imports Prelude Interfaces Dll
begin

text \<open>
  The hash table of \<^verbatim>\<open>hash/hash_utl.c\<close>: buckets of doubly linked lists, modelled as the lists that the
  operations of \<^verbatim>\<open>utl/dll_utl.h\<close> refine (theory \<^theory_text>\<open>Dll\<close>). A node is its hash factor and the client's object,
  which includes its address; two nodes of a table never share it. The index and compare functions of the client are
  parameters.
\<close>

record 'n hash_node =
  hash_factor :: UINT
  obj :: 'n

record 'n hash =
  mask :: UINT
  uiNodeCount :: UINT
  pfHashIndexFunc :: "'n \<Rightarrow> UINT"
  pstBuckets :: "'n hash_node list list"

text \<open>NULL nodes are \<open>None\<close>.\<close>

definition hash_cmp_node :: "('n \<Rightarrow> 'n \<Rightarrow> int) \<Rightarrow> 'n option \<Rightarrow> 'n option \<Rightarrow> int" where
  "hash_cmp_node pfCmpFunc node1 node2 =
     (case node1 of None \<Rightarrow> -1
      | Some n1 \<Rightarrow> (case node2 of None \<Rightarrow> 1 | Some n2 \<Rightarrow> pfCmpFunc n1 n2))"

definition HASH_Init :: "UINT \<Rightarrow> ('n \<Rightarrow> UINT) \<Rightarrow> 'n hash \<Rightarrow> 'n hash" where
  "HASH_Init bucket_num pfFunc hash =
     hash\<lparr>mask := bucket_num - 1, pfHashIndexFunc := pfFunc, pstBuckets := replicate (unat bucket_num) []\<rparr>"

definition HASH_AddWithFactor :: "'n hash \<Rightarrow> 'n \<Rightarrow> UINT \<Rightarrow> 'n hash" where
  "HASH_AddWithFactor h n factor =
     (let i = unat (factor AND mask h)
      in h\<lparr>pstBuckets := (pstBuckets h)[i := pstBuckets h ! i @ [\<lparr>hash_factor = factor, obj = n\<rparr>]],
           uiNodeCount := uiNodeCount h + 1\<rparr>)"

definition HASH_Add :: "'n hash \<Rightarrow> 'n \<Rightarrow> 'n hash" where
  "HASH_Add h n = HASH_AddWithFactor h n (pfHashIndexFunc h n)"

definition HASH_Del :: "'n hash \<Rightarrow> 'n \<Rightarrow> 'n hash" where
  "HASH_Del h n =
     (let i = unat (pfHashIndexFunc h n AND mask h)
      in h\<lparr>pstBuckets := (pstBuckets h)[i := del_first (\<lambda>e. obj e = n) (pstBuckets h ! i)],
           uiNodeCount := uiNodeCount h - 1\<rparr>)"

text \<open>The free function acts on the state \<open>s\<close> of the client.\<close>

definition HASH_DelAll :: "'n hash \<Rightarrow> ('n \<Rightarrow> 's \<Rightarrow> 's) option \<Rightarrow> 's \<Rightarrow> 'n hash \<times> 's" where
  "HASH_DelAll h pfFreeFunc s =
     (if uiNodeCount h = 0 then (h, s)
      else case pfFreeFunc of
             None \<Rightarrow> (h\<lparr>uiNodeCount := 0\<rparr>, s)
           | Some f \<Rightarrow> (h\<lparr>pstBuckets := map (\<lambda>_. []) (pstBuckets h), uiNodeCount := 0\<rparr>,
                       fold (\<lambda>e. f (obj e)) (concat (pstBuckets h)) s))"

definition HASH_FindWithFactor :: "'n hash \<Rightarrow> UINT \<Rightarrow> ('n \<Rightarrow> 'n \<Rightarrow> int) \<Rightarrow> 'n \<Rightarrow> 'n option" where
  "HASH_FindWithFactor h factor pfCmpFunc q =
     map_option obj (find (\<lambda>e. factor = hash_factor e \<and> pfCmpFunc (obj e) q = 0)
       (pstBuckets h ! unat (factor AND mask h)))"

definition HASH_Find :: "'n hash \<Rightarrow> ('n \<Rightarrow> 'n \<Rightarrow> int) \<Rightarrow> 'n \<Rightarrow> 'n option" where
  "HASH_Find h pfCmpFunc q = HASH_FindWithFactor h (pfHashIndexFunc h q) pfCmpFunc q"

definition HASH_Count :: "'n hash \<Rightarrow> UINT" where
  "HASH_Count h = uiNodeCount h"

text \<open>The walk function acts on the client's state and stops the walk with a negative result.\<close>

fun walk_nodes :: "('n \<Rightarrow> 's \<Rightarrow> int \<times> 's) \<Rightarrow> 'n hash_node list \<Rightarrow> 's \<Rightarrow> 's" where
  "walk_nodes f [] s = s"
| "walk_nodes f (e # es) s = (case f (obj e) s of (r, s') \<Rightarrow> if r < 0 then s' else walk_nodes f es s')"

definition HASH_Walk :: "'n hash \<Rightarrow> ('n \<Rightarrow> 's \<Rightarrow> int \<times> 's) \<Rightarrow> 's \<Rightarrow> 's" where
  "HASH_Walk h pfWalkFunc s = walk_nodes pfWalkFunc (concat (pstBuckets h)) s"

text \<open>The first node of the first bucket that is not empty.\<close>

fun first_node :: "'n hash_node list list \<Rightarrow> 'n option" where
  "first_node [] = None"
| "first_node ([] # bs) = first_node bs"
| "first_node ((e # _) # bs) = Some (obj e)"

definition HASH_GetNext :: "'n hash \<Rightarrow> 'n option \<Rightarrow> 'n option" where
  "HASH_GetNext h curr_node =
     (case curr_node of
        None \<Rightarrow> first_node (pstBuckets h)
      | Some n \<Rightarrow>
          (let index = unat (pfHashIndexFunc h n AND mask h)
           in case tl (dropWhile (\<lambda>e. obj e \<noteq> n) (pstBuckets h ! index)) of
                e # _ \<Rightarrow> Some (obj e)
              | [] \<Rightarrow> first_node (drop (index + 1) (pstBuckets h))))"

definition HASH_GetNextDict :: "'n hash \<Rightarrow> ('n \<Rightarrow> 'n \<Rightarrow> int) \<Rightarrow> 'n option \<Rightarrow> 'n option" where
  "HASH_GetNextDict h pfCmpFunc curr_node =
     fold (\<lambda>e nxt.
         if hash_cmp_node pfCmpFunc (Some (obj e)) curr_node > 0 then
           (if nxt = None then Some (obj e)
            else if hash_cmp_node pfCmpFunc (Some (obj e)) nxt < 0 then Some (obj e) else nxt)
         else nxt)
       (concat (pstBuckets h)) None"

section \<open>The table as a bag\<close>

definition hash_list :: "'n hash \<Rightarrow> 'n list" where
  "hash_list h = map obj (concat (pstBuckets h))"

text \<open>Every node hangs in the bucket of its hash, once.\<close>

definition hash_ok :: "'n hash \<Rightarrow> bool" where
  [inv_defs]: "hash_ok h \<longleftrightarrow> length (pstBuckets h) = unat (mask h) + 1 \<and>
     (\<forall>i<length (pstBuckets h). \<forall>e\<in>set (pstBuckets h ! i).
        hash_factor e = pfHashIndexFunc h (obj e) \<and> unat (pfHashIndexFunc h (obj e) AND mask h) = i) \<and>
     distinct (hash_list h) \<and> uiNodeCount h = of_nat (length (hash_list h))"

lemma bucket_bound: "hash_ok h \<Longrightarrow> unat (f AND mask h) < length (pstBuckets h)"
  using word_and_le1 [of f "mask h"] by (simp add: hash_ok_def word_le_nat_alt)

lemma bucketD:
  assumes "hash_ok h" "i < length (pstBuckets h)" "e \<in> set (pstBuckets h ! i)"
  shows "hash_factor e = pfHashIndexFunc h (obj e)" and "unat (pfHashIndexFunc h (obj e) AND mask h) = i"
    and "e = \<lparr>hash_factor = pfHashIndexFunc h (obj e), obj = obj e\<rparr>"
proof -
  show "hash_factor e = pfHashIndexFunc h (obj e)" "unat (pfHashIndexFunc h (obj e) AND mask h) = i"
    using assms unfolding hash_ok_def by blast+
  then show "e = \<lparr>hash_factor = pfHashIndexFunc h (obj e), obj = obj e\<rparr>" by (cases e) simp
qed

lemma hash_list_bucket:
  assumes "hash_ok h"
  shows "n \<in> set (hash_list h) \<longleftrightarrow>
    \<lparr>hash_factor = pfHashIndexFunc h n, obj = n\<rparr> \<in> set (pstBuckets h ! unat (pfHashIndexFunc h n AND mask h))"
proof
  assume "n \<in> set (hash_list h)"
  then obtain i e where e: "i < length (pstBuckets h)" "e \<in> set (pstBuckets h ! i)" "obj e = n"
    by (auto simp: hash_list_def in_set_conv_nth [of _ "pstBuckets h"])
  then show "\<lparr>hash_factor = pfHashIndexFunc h n, obj = n\<rparr> \<in>
      set (pstBuckets h ! unat (pfHashIndexFunc h n AND mask h))"
    using bucketD(2,3) [OF assms e(1,2)] by metis
next
  assume "\<lparr>hash_factor = pfHashIndexFunc h n, obj = n\<rparr> \<in> set (pstBuckets h ! unat (pfHashIndexFunc h n AND mask h))"
  then show "n \<in> set (hash_list h)"
    using bucket_bound [OF assms, of "pfHashIndexFunc h n"] unfolding hash_list_def by force
qed

lemma mset_hash_list: "mset (hash_list h) = image_mset obj (mset (concat (pstBuckets h)))"
  by (simp add: hash_list_def)

lemma HASH_Add_laws:
  assumes ok: "hash_ok h" and n: "n \<notin> set (hash_list h)"
  shows "hash_ok (HASH_Add h n)" and "mset (hash_list (HASH_Add h n)) = add_mset n (mset (hash_list h))"
proof -
  let ?i = "unat (pfHashIndexFunc h n AND mask h)" and ?e = "\<lparr>hash_factor = pfHashIndexFunc h n, obj = n\<rparr>"
  let ?bs = "(pstBuckets h)[?i := pstBuckets h ! ?i @ [?e]]"
  have i: "?i < length (pstBuckets h)" by (rule bucket_bound [OF ok])
  have h: "HASH_Add h n = h\<lparr>pstBuckets := ?bs, uiNodeCount := uiNodeCount h + 1\<rparr>"
    by (simp add: HASH_Add_def HASH_AddWithFactor_def Let_def)
  have "mset (concat ?bs) = add_mset ?e (mset (concat (pstBuckets h)))"
    using mset_concat_update [OF i, of "pstBuckets h ! ?i @ [?e]"] by simp
  then show m: "mset (hash_list (HASH_Add h n)) = add_mset n (mset (hash_list h))"
    by (simp add: mset_hash_list h)
  then have eq: "mset (hash_list (HASH_Add h n)) = mset (n # hash_list h)" by simp
  have "distinct (hash_list (HASH_Add h n))" "length (hash_list (HASH_Add h n)) = Suc (length (hash_list h))"
    using ok n mset_eq_imp_distinct_iff [OF eq] mset_eq_length [OF eq] by (simp_all add: hash_ok_def)
  moreover have "hash_factor e = pfHashIndexFunc h (obj e) \<and> unat (pfHashIndexFunc h (obj e) AND mask h) = j"
    if "j < length (pstBuckets h)" "e \<in> set (?bs ! j)" for j e
    using bucketD(1,2) [OF ok that(1), of e] that i by (cases "j = ?i") auto
  ultimately show "hash_ok (HASH_Add h n)"
    using ok by (simp add: hash_ok_def h)
qed

lemma HASH_Del_laws:
  assumes ok: "hash_ok h" and n: "n \<in> set (hash_list h)"
  shows "hash_ok (HASH_Del h n)" and "mset (hash_list (HASH_Del h n)) = mset (hash_list h) - {#n#}"
proof -
  let ?i = "unat (pfHashIndexFunc h n AND mask h)" and ?e = "\<lparr>hash_factor = pfHashIndexFunc h n, obj = n\<rparr>"
  let ?b = "del_first (\<lambda>e. obj e = n) (pstBuckets h ! ?i)"
  have i: "?i < length (pstBuckets h)" by (rule bucket_bound [OF ok])
  have h: "HASH_Del h n = h\<lparr>pstBuckets := (pstBuckets h)[?i := ?b], uiNodeCount := uiNodeCount h - 1\<rparr>"
    by (simp add: HASH_Del_def Let_def)
  have e: "?e \<in> set (pstBuckets h ! ?i)" using hash_list_bucket [OF ok] n by blast
  have "y = ?e" if "y \<in> set (pstBuckets h ! ?i)" "obj y = n" for y
    using bucketD(3) [OF ok i that(1)] that(2) by simp
  then have "mset ?b = mset (pstBuckets h ! ?i) - {#?e#}"
    using mset_del_first [OF e, of "\<lambda>e. obj e = n"] by simp
  then have "mset (pstBuckets h ! ?i) = add_mset ?e (mset ?b)" using e by simp
  then have "mset (concat (pstBuckets h)) = add_mset ?e (mset (concat ((pstBuckets h)[?i := ?b])))"
    using mset_concat_update [OF i, of ?b] by simp
  then show m: "mset (hash_list (HASH_Del h n)) = mset (hash_list h) - {#n#}"
    by (simp add: mset_hash_list h)
  have nn: "n \<in># mset (hash_list h)" using n by simp
  then have eq: "mset (hash_list h) = mset (n # hash_list (HASH_Del h n))" by (simp add: m)
  have "distinct (n # hash_list (HASH_Del h n))" "length (hash_list h) = Suc (length (hash_list (HASH_Del h n)))"
    using ok mset_eq_imp_distinct_iff [OF eq] mset_eq_length [OF eq] by (simp_all add: hash_ok_def)
  moreover have "hash_factor e = pfHashIndexFunc h (obj e) \<and> unat (pfHashIndexFunc h (obj e) AND mask h) = j"
    if "j < length (pstBuckets h)" "e \<in> set ((pstBuckets h)[?i := ?b] ! j)" for j e
    using bucketD(1,2) [OF ok that(1), of e] that i set_del_first [of "\<lambda>e. obj e = n" "pstBuckets h ! ?i"]
    by (cases "j = ?i") auto
  moreover have "uiNodeCount (HASH_Del h n) = of_nat (length (hash_list (HASH_Del h n)))"
  proof -
    have "uiNodeCount h = of_nat (length (hash_list (HASH_Del h n))) + 1"
      using ok calculation(2) by (simp add: hash_ok_def)
    moreover have "uiNodeCount (HASH_Del h n) = uiNodeCount h - 1" by (simp add: h)
    ultimately show ?thesis by (simp only: add_diff_cancel_right')
  qed
  moreover have "length (pstBuckets (HASH_Del h n)) = unat (mask (HASH_Del h n)) + 1" "distinct (hash_list (HASH_Del h n))"
    using ok \<open>distinct (n # hash_list (HASH_Del h n))\<close> by (simp_all add: hash_ok_def HASH_Del_def Let_def)
  ultimately show "hash_ok (HASH_Del h n)"
    unfolding hash_ok_def by (simp add: h)
qed

text \<open>A compare function agrees with the index function when what it calls equal hashes equally.\<close>

definition cmp_hashes :: "('n \<Rightarrow> UINT) \<Rightarrow> ('n \<Rightarrow> 'n \<Rightarrow> int) \<Rightarrow> bool" where
  "cmp_hashes idx cmp \<longleftrightarrow> (\<forall>a q. cmp a q = 0 \<longrightarrow> idx a = idx q)"

lemma HASH_Find_laws:
  assumes ok: "hash_ok h" and c: "cmp_hashes (pfHashIndexFunc h) cmp"
  shows "HASH_Find h cmp q = Some a \<Longrightarrow> a \<in> set (hash_list h) \<and> cmp a q = 0"
    and "HASH_Find h cmp q = None \<Longrightarrow> a \<in> set (hash_list h) \<Longrightarrow> cmp a q \<noteq> 0"
proof -
  let ?b = "pstBuckets h ! unat (pfHashIndexFunc h q AND mask h)"
  have i: "unat (pfHashIndexFunc h q AND mask h) < length (pstBuckets h)" by (rule bucket_bound [OF ok])
  assume "HASH_Find h cmp q = Some a"
  then obtain e where e: "find (\<lambda>e. pfHashIndexFunc h q = hash_factor e \<and> cmp (obj e) q = 0) ?b = Some e" "a = obj e"
    by (auto simp: HASH_Find_def HASH_FindWithFactor_def)
  then have "e \<in> set ?b" "cmp a q = 0" by (auto simp: find_Some_iff)
  then show "a \<in> set (hash_list h) \<and> cmp a q = 0" using e(2) i unfolding hash_list_def by force
next
  assume n: "HASH_Find h cmp q = None" and a: "a \<in> set (hash_list h)"
  show "cmp a q \<noteq> 0"
  proof
    assume "cmp a q = 0"
    moreover from this have "pfHashIndexFunc h a = pfHashIndexFunc h q" using c by (simp add: cmp_hashes_def)
    ultimately have "find (\<lambda>e. pfHashIndexFunc h q = hash_factor e \<and> cmp (obj e) q = 0)
        (pstBuckets h ! unat (pfHashIndexFunc h q AND mask h)) \<noteq> None"
      using a hash_list_bucket [OF ok, of a] unfolding find_None_iff by (metis hash_node.select_convs)
    then show False using n by (simp add: HASH_Find_def HASH_FindWithFactor_def)
  qed
qed

lemma HASH_keeps_funs [simp]:
  "pfHashIndexFunc (HASH_Add h n) = pfHashIndexFunc h" "pfHashIndexFunc (HASH_Del h n) = pfHashIndexFunc h"
  by (simp_all add: HASH_Add_def HASH_AddWithFactor_def HASH_Del_def Let_def)

text \<open>The table of a compare function and an index function as a searchable bag.\<close>

definition hash_for :: "('n \<Rightarrow> UINT) \<Rightarrow> ('n \<Rightarrow> 'n \<Rightarrow> int) \<Rightarrow> 'n hash \<Rightarrow> bool" where
  [inv_defs]: "hash_for idx cmp h \<longleftrightarrow> hash_ok h \<and> pfHashIndexFunc h = idx \<and> cmp_hashes idx cmp"

interpretation hash_bag: bag "hash_for idx cmp" "\<lambda>h. mset (hash_list h)" "\<lambda>h n. n \<notin> set (hash_list h)"
  "\<lambda>n h. HASH_Add h n" "\<lambda>n h. HASH_Del h n" "\<lambda>h q. HASH_Find h cmp q" "\<lambda>a q. cmp a q = 0"
  for idx :: "'n \<Rightarrow> UINT" and cmp :: "'n \<Rightarrow> 'n \<Rightarrow> int"
proof unfold_locales
  fix h :: "'n hash" and a q
  assume h: "hash_for idx cmp h"
  then have ok: "hash_ok h" and c: "cmp_hashes (pfHashIndexFunc h) cmp" by (simp_all add: hash_for_def)
  show "hash_for idx cmp (HASH_Add h a)" "mset (hash_list (HASH_Add h a)) = add_mset a (mset (hash_list h))"
    if "a \<notin> set (hash_list h)" using HASH_Add_laws [OF ok that] h by (simp_all add: hash_for_def)
  show "hash_for idx cmp (HASH_Del h a)" "mset (hash_list (HASH_Del h a)) = mset (hash_list h) - {#a#}"
    if "a \<in># mset (hash_list h)" using HASH_Del_laws [OF ok, of a] that h by (simp_all add: hash_for_def)
  show "a \<in># mset (hash_list h) \<and> cmp a q = 0" if "HASH_Find h cmp q = Some a"
    using HASH_Find_laws(1) [OF ok c that] by simp
  show "cmp a q \<noteq> 0" if "HASH_Find h cmp q = None" "a \<in># mset (hash_list h)"
    using HASH_Find_laws(2) [OF ok c that(1), of a] that(2) by simp
qed

lemma HASH_Init_ok:
  assumes "bucket_num \<noteq> 0" "uiNodeCount h = 0"
  shows "hash_ok (HASH_Init bucket_num f h)" and "hash_list (HASH_Init bucket_num f h) = []"
proof -
  have "unat bucket_num = unat (bucket_num - 1) + 1"
    using unat_dec_word [OF assms(1)] assms(1) by (simp add: unat_gt_0 Suc_leI)
  then show "hash_ok (HASH_Init bucket_num f h)" "hash_list (HASH_Init bucket_num f h) = []"
    using assms(2) by (simp_all add: hash_ok_def HASH_Init_def hash_list_def del: replicate_Suc)
qed

section \<open>Iteration\<close>

lemma first_node_concat: "first_node bs = (case map obj (concat bs) of [] \<Rightarrow> None | m # _ \<Rightarrow> Some m)"
  by (induction bs rule: first_node.induct) auto

lemma concat_split: "i < length bs \<Longrightarrow> concat bs = concat (take i bs) @ bs ! i @ concat (drop (i + 1) bs)"
  by (metis Suc_eq_plus1 concat.simps(2) concat_append id_take_nth_drop)

lemma GetNext_enumerates:
  assumes ok: "hash_ok h" and l: "hash_list h = P @ n # S"
  shows "HASH_GetNext h (Some n) = (case S of [] \<Rightarrow> None | m # _ \<Rightarrow> Some m)"
proof -
  let ?i = "unat (pfHashIndexFunc h n AND mask h)"
  have d: "distinct (hash_list h)" using ok by (simp add: hash_ok_def)
  have "n \<in> set (hash_list h)" using l by simp
  then obtain xs ys where b: "pstBuckets h ! ?i = xs @ \<lparr>hash_factor = pfHashIndexFunc h n, obj = n\<rparr> # ys"
    using split_list hash_list_bucket [OF ok] by metis
  have c: "hash_list h = map obj (concat (take ?i (pstBuckets h)) @ xs) @ n # map obj (ys @ concat (drop (?i + 1) (pstBuckets h)))"
    using concat_split [OF bucket_bound [OF ok], of "pfHashIndexFunc h n"] b by (simp add: hash_list_def)
  then have "S = map obj (ys @ concat (drop (?i + 1) (pstBuckets h)))"
    using d l split_unique [of P n S] by metis
  moreover have "n \<notin> set (map obj xs)" using c d by simp
  moreover have "dropWhile (\<lambda>e. obj e \<noteq> n) (pstBuckets h ! ?i) = \<lparr>hash_factor = pfHashIndexFunc h n, obj = n\<rparr> # ys"
    using calculation(2) unfolding b by (subst dropWhile_append2) auto
  ultimately show ?thesis
    by (cases ys) (simp_all add: HASH_GetNext_def Let_def first_node_concat)
qed

lemma GetNext_first: "HASH_GetNext h None = (case hash_list h of [] \<Rightarrow> None | m # _ \<Rightarrow> Some m)"
  by (simp add: HASH_GetNext_def first_node_concat hash_list_def)

text \<open>\<^verbatim>\<open>HASH_GetNextDict\<close> finds the next node in the order of the compare function.\<close>

abbreviation above :: "('n \<Rightarrow> 'n \<Rightarrow> int) \<Rightarrow> 'n option \<Rightarrow> 'n \<Rightarrow> bool" where
  "above cmp c n \<equiv> hash_cmp_node cmp (Some n) c > 0"

definition least_above :: "('n \<Rightarrow> 'n \<Rightarrow> int) \<Rightarrow> 'n option \<Rightarrow> 'n set \<Rightarrow> 'n option \<Rightarrow> bool" where
  "least_above cmp c A r \<longleftrightarrow>
     (case r of None \<Rightarrow> \<forall>x\<in>A. \<not> above cmp c x
      | Some m \<Rightarrow> m \<in> A \<and> above cmp c m \<and> (\<forall>x\<in>A. above cmp c x \<longrightarrow> cmp m x \<le> 0))"

lemma least_above_step:
  assumes ord: "cmp_order cmp" and r: "least_above cmp c A r"
  shows "least_above cmp c (insert n A)
    (if above cmp c n then (if r = None then Some n else if hash_cmp_node cmp (Some n) r < 0 then Some n else r) else r)"
proof (cases "above cmp c n")
  case True
  show ?thesis
  proof (cases r)
    case None
    then show ?thesis using r True cmp_refl [OF ord] by (auto simp: least_above_def)
  next
    case (Some m)
    then have m: "m \<in> A" "above cmp c m" "\<And>x. x \<in> A \<Longrightarrow> above cmp c x \<Longrightarrow> cmp m x \<le> 0"
      using r by (auto simp: least_above_def)
    show ?thesis
    proof (cases "cmp n m < 0")
      case less: True
      have "cmp n x \<le> 0" if "x \<in> A" "above cmp c x" for x
        using cmp_trans [OF ord, of n m x] less m(3) [OF that] by simp
      then show ?thesis using Some True less cmp_refl [OF ord] by (auto simp: least_above_def hash_cmp_node_def)
    next
      case False
      then have "cmp m n \<le> 0" using ord by (metis cmp_order_def not_less)
      then show ?thesis using Some True False m by (auto simp: least_above_def hash_cmp_node_def)
    qed
  qed
qed (use r in \<open>auto simp: least_above_def split: option.splits\<close>)

lemma GetNextDict_least:
  assumes "cmp_order cmp"
  shows "least_above cmp c (set (hash_list h)) (HASH_GetNextDict h cmp c)"
proof -
  let ?f = "\<lambda>e nxt. if above cmp c (obj e) then (if nxt = None then Some (obj e)
      else if hash_cmp_node cmp (Some (obj e)) nxt < 0 then Some (obj e) else nxt) else nxt"
  have "least_above cmp c (A \<union> obj ` set es) (fold ?f es r)" if "least_above cmp c A r" for A es r
    using that
  proof (induction es arbitrary: A r)
    case (Cons e es)
    from Cons.IH [OF least_above_step [OF assms Cons.prems, of "obj e"]] show ?case by simp
  qed simp
  from this [of "{}" None "concat (pstBuckets h)"] show ?thesis
    by (simp add: HASH_GetNextDict_def hash_list_def least_above_def)
qed

section \<open>Properties\<close>

text \<open>C18: the hash table is a searchable bag: adding and deleting a node changes the bag of the nodes as
  it says and keeps the bucket invariant and the count; a search returns a node that compares
  equal exactly when there is one.\<close>

theorem HASH_is_bag:
  assumes "hash_for idx cmp h"
  shows "(n \<notin> set (hash_list h) \<longrightarrow>
      hash_for idx cmp (HASH_Add h n) \<and> mset (hash_list (HASH_Add h n)) = add_mset n (mset (hash_list h))) \<and>
    (n \<in> set (hash_list h) \<longrightarrow>
      hash_for idx cmp (HASH_Del h n) \<and> mset (hash_list (HASH_Del h n)) = mset (hash_list h) - {#n#}) \<and>
    (case HASH_Find h cmp q of Some a \<Rightarrow> a \<in> set (hash_list h) \<and> cmp a q = 0
     | None \<Rightarrow> \<forall>a\<in>set (hash_list h). cmp a q \<noteq> 0) \<and>
    HASH_Count h = of_nat (length (hash_list h))"
  using hash_bag.ins_inv [OF assms] hash_bag.ins_elems [OF assms] hash_bag.del_inv [OF assms]
    hash_bag.del_elems [OF assms] hash_bag.search_some [OF assms] hash_bag.search_none [OF assms] assms
  by (auto simp: HASH_Count_def hash_for_def hash_ok_def split: option.split)

abbreviation small_hash :: "nat hash" where
  "small_hash \<equiv> HASH_Init 4 of_nat \<lparr>mask = 0, uiNodeCount = 0, pfHashIndexFunc = of_nat, pstBuckets = []\<rparr>"

lemma small_hash_ok: "hash_for of_nat (\<lambda>a b. int a - int b) small_hash" "hash_list small_hash = []"
  using HASH_Init_ok [of 4 "\<lparr>mask = 0, uiNodeCount = 0, pfHashIndexFunc = of_nat, pstBuckets = []\<rparr>" of_nat]
  by (simp_all add: hash_for_def cmp_hashes_def HASH_Init_def)

theorem HASH_is_bag_witness: "mset (hash_list (HASH_Add small_hash 7)) = {#7#}"
  using HASH_is_bag [OF small_hash_ok(1), of 7 0] small_hash_ok(2) by simp

text \<open>\<^verbatim>\<open>HASH_GetNext\<close>, started without a node and then from each node it returned, visits every node of the
  table once; \<^verbatim>\<open>HASH_GetNextDict\<close> returns the least node above the current one, and nothing when there is none.\<close>

theorem HASH_iterates:
  assumes "hash_ok h" "cmp_order cmp"
  shows "HASH_GetNext h None = (case hash_list h of [] \<Rightarrow> None | m # _ \<Rightarrow> Some m) \<and>
    (\<forall>P n S. hash_list h = P @ n # S \<longrightarrow> HASH_GetNext h (Some n) = (case S of [] \<Rightarrow> None | m # _ \<Rightarrow> Some m)) \<and>
    (case HASH_GetNextDict h cmp c of
       None \<Rightarrow> \<forall>x\<in>set (hash_list h). \<not> above cmp c x
     | Some m \<Rightarrow> m \<in> set (hash_list h) \<and> above cmp c m \<and> (\<forall>x\<in>set (hash_list h). above cmp c x \<longrightarrow> cmp m x \<le> 0))"
  using GetNext_enumerates [OF assms(1)] GetNext_first [of h] GetNextDict_least [OF assms(2), of c h]
  unfolding least_above_def by blast

end
