(* ===== verification/MapCtrl.thy ===== *)
theory MapCtrl
  imports Prelude Dll
begin

text \<open>
  The common layer of the maps, \<^verbatim>\<open>utl/map_utl.h\<close>: keys, elements, the table of operations of an
  implementation and the dispatching functions \<^verbatim>\<open>MAP_*\<close>, with the contract that an implementation keeps
  for its clients (a locale) and the comparison of keys with \<^verbatim>\<open>MEM_Cmp\<close>.

  A key is what \<^verbatim>\<open>pKey\<close> and \<^verbatim>\<open>uiKeyLen\<close> stand for: with length 0 the pointer itself, read as an unsigned
  integer (\<open>kptr\<close>), and otherwise the bytes it points to (\<open>kbytes\<close>); the bytes of a key in a map are not
  changed from outside. An element pointer identifies the node that holds the element. The memory pool is
  the argument \<open>env\<close>: what its allocations return.
\<close>

definition MAP_FLAG_DUP_KEY :: UINT where
  "MAP_FLAG_DUP_KEY = 0x1"

definition MAP_FLAG_PERMIT_DUPLICATE :: UINT where
  "MAP_FLAG_PERMIT_DUPLICATE = 0x2"

record map_key =
  kptr :: UINT
  kbytes :: "UCHAR list"

abbreviation uiKeyLen :: "map_key \<Rightarrow> nat" where
  "uiKeyLen k \<equiv> length (kbytes k)"

record 'd map_ele =
  pKey :: map_key
  pData :: "'d option"
  dup_key :: bool
  link_alloced :: bool

record 'd map_node =
  addr :: nat
  stEle :: "'d map_ele"

record map_env =
  node_alloc :: "nat option"
  key_alloc :: bool

text \<open>The state of an implementation is \<open>'m\<close>, that of its client \<open>'s\<close>.\<close>

record ('m, 'd, 's) map_funcs =
  reset_func :: "'m \<Rightarrow> ('d option \<Rightarrow> 's \<Rightarrow> 's) option \<Rightarrow> 's \<Rightarrow> 'm \<times> 's"
  add_node_func :: "map_env \<Rightarrow> 'm \<Rightarrow> map_key \<Rightarrow> 'd option \<Rightarrow> 'd map_node \<Rightarrow> UINT \<Rightarrow> bs_status \<times> 'm"
  del_node_func :: "'m \<Rightarrow> 'd map_node \<Rightarrow> 'd option \<times> 'm"
  add_func :: "map_env \<Rightarrow> 'm \<Rightarrow> map_key \<Rightarrow> 'd option \<Rightarrow> UINT \<Rightarrow> bs_status \<times> 'm"
  get_ele_func :: "'m \<Rightarrow> map_key \<Rightarrow> 'd map_node option"
  get_func :: "'m \<Rightarrow> map_key \<Rightarrow> 'd option"
  del_func :: "'m \<Rightarrow> map_key \<Rightarrow> 'd option \<times> 'm"
  del_by_ele_func :: "'m \<Rightarrow> 'd map_node \<Rightarrow> 'd option \<times> 'm"
  del_all_func :: "'m \<Rightarrow> ('d option \<Rightarrow> 's \<Rightarrow> 's) option \<Rightarrow> 's \<Rightarrow> 'm \<times> 's"
  count_func :: "'m \<Rightarrow> UINT"
  walk_func :: "'m \<Rightarrow> ('d map_node \<Rightarrow> 's \<Rightarrow> int \<times> 's) \<Rightarrow> 's \<Rightarrow> 's"
  getnext_func :: "'m \<Rightarrow> 'd map_node option \<Rightarrow> 'd map_node option"

text \<open>A map: the operations of its implementation, the capacity and the state of the implementation. The
  operations work on the state with the capacity.\<close>

record 'i map_ctrl =
  impl_map :: 'i
  uiCapacity :: UINT

record ('i, 'd, 's) map_handle =
  funcs :: "('i map_ctrl, 'd, 's) map_funcs"
  ctrl :: "'i map_ctrl"

definition MAP_Reset :: "('i, 'd, 's) map_handle \<Rightarrow> ('d option \<Rightarrow> 's \<Rightarrow> 's) option \<Rightarrow> 's \<Rightarrow>
    ('i, 'd, 's) map_handle \<times> 's" where
  "MAP_Reset m f s = (case reset_func (funcs m) (ctrl m) f s of (c, s') \<Rightarrow> (m\<lparr>ctrl := c\<rparr>, s'))"

definition MAP_SetCapacity :: "('i, 'd, 's) map_handle \<Rightarrow> UINT \<Rightarrow> ('i, 'd, 's) map_handle" where
  "MAP_SetCapacity m capacity = m\<lparr>ctrl := (ctrl m)\<lparr>uiCapacity := capacity\<rparr>\<rparr>"

definition MAP_GetCapacity :: "('i, 'd, 's) map_handle \<Rightarrow> UINT" where
  "MAP_GetCapacity m = uiCapacity (ctrl m)"

definition MAP_Add :: "map_env \<Rightarrow> ('i, 'd, 's) map_handle \<Rightarrow> map_key \<Rightarrow> 'd option \<Rightarrow> UINT \<Rightarrow>
    bs_status \<times> ('i, 'd, 's) map_handle" where
  "MAP_Add env m key d flag =
     (case add_func (funcs m) env (ctrl m) key d flag of (r, c) \<Rightarrow> (r, m\<lparr>ctrl := c\<rparr>))"

definition MAP_AddNode :: "map_env \<Rightarrow> ('i, 'd, 's) map_handle \<Rightarrow> map_key \<Rightarrow> 'd option \<Rightarrow> 'd map_node \<Rightarrow> UINT \<Rightarrow>
    bs_status \<times> ('i, 'd, 's) map_handle" where
  "MAP_AddNode env m key d link_node flag =
     (case add_node_func (funcs m) env (ctrl m) key d link_node flag of (r, c) \<Rightarrow> (r, m\<lparr>ctrl := c\<rparr>))"

definition MAP_DelNode :: "('i, 'd, 's) map_handle \<Rightarrow> 'd map_node \<Rightarrow> 'd option \<times> ('i, 'd, 's) map_handle" where
  "MAP_DelNode m link_node = (case del_node_func (funcs m) (ctrl m) link_node of (r, c) \<Rightarrow> (r, m\<lparr>ctrl := c\<rparr>))"

definition MAP_GetEle :: "('i, 'd, 's) map_handle \<Rightarrow> map_key \<Rightarrow> 'd map_node option" where
  "MAP_GetEle m key = get_ele_func (funcs m) (ctrl m) key"

definition MAP_IsExist :: "('i, 'd, 's) map_handle \<Rightarrow> map_key \<Rightarrow> bool" where
  "MAP_IsExist m key = (MAP_GetEle m key \<noteq> None)"

definition MAP_Get :: "('i, 'd, 's) map_handle \<Rightarrow> map_key \<Rightarrow> 'd option" where
  "MAP_Get m key = get_func (funcs m) (ctrl m) key"

definition MAP_Del :: "('i, 'd, 's) map_handle \<Rightarrow> map_key \<Rightarrow> 'd option \<times> ('i, 'd, 's) map_handle" where
  "MAP_Del m key = (case del_func (funcs m) (ctrl m) key of (r, c) \<Rightarrow> (r, m\<lparr>ctrl := c\<rparr>))"

definition MAP_DelByEle :: "('i, 'd, 's) map_handle \<Rightarrow> 'd map_node \<Rightarrow> 'd option \<times> ('i, 'd, 's) map_handle" where
  "MAP_DelByEle m ele = (case del_by_ele_func (funcs m) (ctrl m) ele of (r, c) \<Rightarrow> (r, m\<lparr>ctrl := c\<rparr>))"

definition MAP_DelAll :: "('i, 'd, 's) map_handle \<Rightarrow> ('d option \<Rightarrow> 's \<Rightarrow> 's) option \<Rightarrow> 's \<Rightarrow>
    ('i, 'd, 's) map_handle \<times> 's" where
  "MAP_DelAll m f s = (case del_all_func (funcs m) (ctrl m) f s of (c, s') \<Rightarrow> (m\<lparr>ctrl := c\<rparr>, s'))"

definition MAP_Count :: "('i, 'd, 's) map_handle \<Rightarrow> UINT" where
  "MAP_Count m = count_func (funcs m) (ctrl m)"

definition MAP_Walk :: "('i, 'd, 's) map_handle \<Rightarrow> ('d map_node \<Rightarrow> 's \<Rightarrow> int \<times> 's) \<Rightarrow> 's \<Rightarrow> 's" where
  "MAP_Walk m f s = walk_func (funcs m) (ctrl m) f s"

definition MAP_GetNextEle :: "('i, 'd, 's) map_handle \<Rightarrow> 'd map_node option \<Rightarrow> 'd map_node option" where
  "MAP_GetNextEle m cur = getnext_func (funcs m) (ctrl m) cur"

definition MAP_GetFirst :: "('i, 'd, 's) map_handle \<Rightarrow> 'd option" where
  "MAP_GetFirst m = (case MAP_GetNextEle m None of None \<Rightarrow> None | Some ele \<Rightarrow> pData (stEle ele))"

section \<open>Comparing keys\<close>

text \<open>\<^verbatim>\<open>memcmp\<close> of two blocks of the same length.\<close>

fun memcmp :: "UCHAR list \<Rightarrow> UCHAR list \<Rightarrow> int" where
  "memcmp (x # xs) (y # ys) = (if x \<noteq> y then uint x - uint y else memcmp xs ys)"
| "memcmp _ _ = 0"

definition MEM_Cmp :: "UCHAR list \<Rightarrow> UCHAR list \<Rightarrow> int" where
  "MEM_Cmp m1 m2 =
     (let uiCmpLen = min (length m1) (length m2); ret = memcmp (take uiCmpLen m1) (take uiCmpLen m2)
      in if ret \<noteq> 0 then ret else int (length m1) - int (length m2))"

lemma uint_inject [simp]: "uint x = uint y \<longleftrightarrow> x = y"
  by (simp add: word_uint_eq_iff)

lemma MEM_Cmp_simps [simp]:
  "MEM_Cmp [] ys = - int (length ys)"
  "MEM_Cmp xs [] = int (length xs)"
  "MEM_Cmp (x # xs) (y # ys) = (if x \<noteq> y then uint x - uint y else MEM_Cmp xs ys)"
  by (simp_all add: MEM_Cmp_def Let_def)

lemma MEM_Cmp_eq_0 [simp]: "MEM_Cmp xs ys = 0 \<longleftrightarrow> xs = ys"
proof (induction xs arbitrary: ys)
  case (Cons x xs)
  then show ?case by (cases ys) auto
qed auto

lemma MEM_Cmp_less: "MEM_Cmp xs ys < 0 \<longleftrightarrow> MEM_Cmp ys xs > 0"
proof (induction xs arbitrary: ys)
  case (Cons x xs)
  then show ?case by (cases ys) auto
qed simp

lemma MEM_Cmp_antisym: "MEM_Cmp xs ys \<le> 0 \<Longrightarrow> MEM_Cmp ys xs \<le> 0 \<Longrightarrow> xs = ys"
  using MEM_Cmp_less [of xs ys] MEM_Cmp_eq_0 [of xs ys] by linarith

lemma MEM_Cmp_trans: "MEM_Cmp xs ys \<le> 0 \<Longrightarrow> MEM_Cmp ys zs \<le> 0 \<Longrightarrow> MEM_Cmp xs zs \<le> 0"
proof (induction xs arbitrary: ys zs)
  case (Cons x xs)
  obtain y ys' where ys: "ys = y # ys'" using Cons.prems(1) by (cases ys) auto
  obtain z zs' where zs: "zs = z # zs'" using Cons.prems(2) ys by (cases zs) auto
  have "uint x \<le> uint y" "uint y \<le> uint z" using Cons.prems ys zs by (auto split: if_splits)
  moreover have "x = z \<Longrightarrow> x = y" using calculation by (metis antisym word_uint_eq_iff)
  ultimately show ?case
    using Cons.IH [of ys' zs'] Cons.prems ys zs by (auto split: if_splits)
qed simp

lemma cmp_order_MEM_Cmp: "cmp_order MEM_Cmp"
  unfolding cmp_order_def using MEM_Cmp_less MEM_Cmp_trans by blast

text \<open>The value of a key.\<close>

definition keyval :: "map_key \<Rightarrow> UINT + UCHAR list" where
  "keyval k = (if uiKeyLen k = 0 then Inl (kptr k) else Inr (kbytes k))"

text \<open>\<^verbatim>\<open>(INT)HANDLE_UINT(a) - (INT)HANDLE_UINT(b)\<close>, with the wrap-around of the machine's subtraction.\<close>

definition int_key_diff :: "map_key \<Rightarrow> map_key \<Rightarrow> int" where
  "int_key_diff a b = sint (kptr a - kptr b)"

text \<open>The keys that the order of a map is meant for: integers below \<open>2 ^ 31\<close> (\<open>ints\<close>), or else strings of bytes.\<close>

definition key_ok :: "bool \<Rightarrow> map_key \<Rightarrow> bool" where
  "key_ok ints k \<longleftrightarrow> (if ints then kbytes k = [] \<and> kptr k < 2 ^ 31 else kbytes k \<noteq> [])"

definition key_cmp :: "bool \<Rightarrow> map_key \<Rightarrow> map_key \<Rightarrow> int" where
  "key_cmp ints a b = (if ints then uint (kptr a) - uint (kptr b) else MEM_Cmp (kbytes a) (kbytes b))"

lemma cmp_order_key_cmp: "cmp_order (key_cmp ints)"
proof (cases ints)
  case True
  then have "key_cmp ints = (\<lambda>a b. uint (kptr a) - uint (kptr b))" by (intro ext) (simp add: key_cmp_def)
  then show ?thesis using cmp_order_diff [of "\<lambda>k. uint (kptr k)"] by simp
next
  case False
  then have "key_cmp ints = (\<lambda>a b. MEM_Cmp (kbytes a) (kbytes b))" by (intro ext) (simp add: key_cmp_def)
  then show ?thesis using cmp_order_MEM_Cmp unfolding cmp_order_def by metis
qed

lemma key_cmp_eq_0: "key_ok ints a \<Longrightarrow> key_ok ints b \<Longrightarrow> key_cmp ints a b = 0 \<longleftrightarrow> keyval a = keyval b"
  by (auto simp: key_ok_def key_cmp_def keyval_def split: if_splits)

lemma int_key_diff:
  assumes "key_ok True a" "key_ok True b"
  shows "int_key_diff a b = key_cmp True a b"
proof -
  have "uint (kptr a) < 2 ^ 31" "uint (kptr b) < 2 ^ 31" using assms by (simp_all add: key_ok_def word_less_alt)
  moreover have "0 \<le> uint (kptr a)" "0 \<le> uint (kptr b)" by simp_all
  moreover have sw: "- (2 ^ 31) \<le> i \<Longrightarrow> i < 2 ^ 31 \<Longrightarrow> sint (word_of_int i :: UINT) = i" for i
    by (simp add: signed_of_int signed_take_bit_int_eq_self)
  ultimately have "sint (word_of_int (uint (kptr a) - uint (kptr b)) :: UINT) = uint (kptr a) - uint (kptr b)"
    by (intro sw) linarith+
  moreover have "kptr a - kptr b = word_of_int (uint (kptr a) - uint (kptr b))" by simp
  ultimately show ?thesis by (simp only: int_key_diff_def key_cmp_def if_True)
qed

section \<open>The contract of an implementation\<close>

definition val_cmp :: "UINT + UCHAR list \<Rightarrow> UINT + UCHAR list \<Rightarrow> int" where
  "val_cmp p q =
     (case (p, q) of (Inl a, Inl b) \<Rightarrow> uint a - uint b | (Inr a, Inr b) \<Rightarrow> MEM_Cmp a b
      | (Inl _, Inr _) \<Rightarrow> -1 | (Inr _, Inl _) \<Rightarrow> 1)"

lemma val_cmp: "key_ok ints a \<Longrightarrow> key_ok ints b \<Longrightarrow> val_cmp (keyval a) (keyval b) = key_cmp ints a b"
  by (auto simp: val_cmp_def keyval_def key_ok_def key_cmp_def split: if_splits)

lemma val_cmp_eq_0: "val_cmp p q = 0 \<longleftrightarrow> p = q"
  by (auto simp: val_cmp_def split: sum.splits)

lemma val_cmp_flip: "val_cmp p q \<le> 0 \<Longrightarrow> val_cmp q p \<le> 0 \<Longrightarrow> p = q"
  using MEM_Cmp_antisym by (cases p; cases q) (auto simp: val_cmp_def)

type_synonym 'd kvmap = "UINT + UCHAR list \<Rightarrow> 'd option option"

text \<open>The allocations that an insertion needs.\<close>

definition alloc_ok :: "map_env \<Rightarrow> map_key \<Rightarrow> UINT \<Rightarrow> bool" where
  "alloc_ok env k flag \<longleftrightarrow>
     node_alloc env \<noteq> None \<and> (flag AND MAP_FLAG_DUP_KEY \<noteq> 0 \<and> uiKeyLen k \<noteq> 0 \<longrightarrow> key_alloc env)"

definition spec_add :: "UINT \<Rightarrow> 'd kvmap \<Rightarrow> map_env \<Rightarrow> map_key \<Rightarrow> 'd option \<Rightarrow> UINT \<Rightarrow> bs_status \<times> 'd kvmap" where
  "spec_add cap m env k d flag =
     (if cap \<noteq> 0 \<and> cap \<le> of_nat (card (dom m)) then (BS_NO_RESOURCE, m)
      else if m (keyval k) \<noteq> None then (BS_ALREADY_EXIST, m)
      else if \<not> alloc_ok env k flag then (BS_NO_MEMORY, m)
      else (BS_OK, m(keyval k \<mapsto> d)))"

definition spec_get :: "'d kvmap \<Rightarrow> map_key \<Rightarrow> 'd option" where
  "spec_get m k = (case m (keyval k) of None \<Rightarrow> None | Some d \<Rightarrow> d)"

definition vals_above :: "'d kvmap \<Rightarrow> 'd map_node option \<Rightarrow> (UINT + UCHAR list) set" where
  "vals_above m cur = {q \<in> dom m. case cur of None \<Rightarrow> True | Some n \<Rightarrow> val_cmp q (keyval (pKey (stEle n))) > 0}"

definition spec_next :: "'d kvmap \<Rightarrow> 'd map_node option \<Rightarrow> 'd map_node option \<Rightarrow> bool" where
  "spec_next m cur r \<longleftrightarrow>
     (case r of None \<Rightarrow> vals_above m cur = {}
      | Some n \<Rightarrow> keyval (pKey (stEle n)) \<in> vals_above m cur \<and> m (keyval (pKey (stEle n))) = Some (pData (stEle n)) \<and>
          (\<forall>q\<in>vals_above m cur. val_cmp (keyval (pKey (stEle n))) q \<le> 0))"

text \<open>A client's requests and what it sees of the answers.\<close>

datatype 'd map_op =
    OpAdd map_env map_key "'d option" UINT
  | OpGet map_key
  | OpDel map_key
  | OpCount

datatype 'd map_res =
    RStatus bs_status
  | RData "'d option"
  | RCount UINT

primrec map_step :: "('i, 'd, 's) map_handle \<Rightarrow> 'd map_op \<Rightarrow> 'd map_res \<times> ('i, 'd, 's) map_handle" where
  "map_step m (OpAdd env k d flag) = (case MAP_Add env m k d flag of (r, m') \<Rightarrow> (RStatus r, m'))"
| "map_step m (OpGet k) = (RData (MAP_Get m k), m)"
| "map_step m (OpDel k) = (case MAP_Del m k of (r, m') \<Rightarrow> (RData r, m'))"
| "map_step m OpCount = (RCount (MAP_Count m), m)"

primrec map_run :: "'d map_op list \<Rightarrow> ('i, 'd, 's) map_handle \<Rightarrow> 'd map_res list \<times> ('i, 'd, 's) map_handle" where
  "map_run [] m = ([], m)"
| "map_run (p # ps) m = (case map_step m p of (r, m') \<Rightarrow> (case map_run ps m' of (rs, m'') \<Rightarrow> (r # rs, m'')))"

text \<open>The same on a finite map.\<close>

primrec spec_step :: "UINT \<Rightarrow> 'd kvmap \<Rightarrow> 'd map_op \<Rightarrow> 'd map_res \<times> 'd kvmap" where
  "spec_step cap m (OpAdd env k d flag) = (case spec_add cap m env k d flag of (r, m') \<Rightarrow> (RStatus r, m'))"
| "spec_step cap m (OpGet k) = (RData (spec_get m k), m)"
| "spec_step cap m (OpDel k) = (RData (spec_get m k), m(keyval k := None))"
| "spec_step cap m OpCount = (RCount (of_nat (card (dom m))), m)"

primrec spec_run :: "UINT \<Rightarrow> 'd map_op list \<Rightarrow> 'd kvmap \<Rightarrow> 'd map_res list \<times> 'd kvmap" where
  "spec_run cap [] m = ([], m)"
| "spec_run cap (p # ps) m = (case spec_step cap m p of (r, m') \<Rightarrow> (case spec_run cap ps m' of (rs, m'') \<Rightarrow> (r # rs, m'')))"

text \<open>The requests the contract is about: keys of one kind, and no duplicates.\<close>

primrec op_ok :: "bool \<Rightarrow> 'd map_op \<Rightarrow> bool" where
  "op_ok ints (OpAdd env k d flag) = (key_ok ints k \<and> flag AND MAP_FLAG_PERMIT_DUPLICATE = 0)"
| "op_ok ints (OpGet k) = key_ok ints k"
| "op_ok ints (OpDel k) = key_ok ints k"
| "op_ok ints OpCount = True"

locale map_impl =
  fixes F :: "('i map_ctrl, 'd, 's) map_funcs"
    and ints :: bool
    and inv :: "'i map_ctrl \<Rightarrow> bool"
    and look :: "'i map_ctrl \<Rightarrow> 'd kvmap"
  assumes add_law: "inv c \<Longrightarrow> key_ok ints k \<Longrightarrow> flag AND MAP_FLAG_PERMIT_DUPLICATE = 0 \<Longrightarrow>
      add_func F env c k d flag = (r, c') \<Longrightarrow>
      inv c' \<and> uiCapacity c' = uiCapacity c \<and> (r, look c') = spec_add (uiCapacity c) (look c) env k d flag"
    and get_law: "inv c \<Longrightarrow> key_ok ints k \<Longrightarrow> get_func F c k = spec_get (look c) k"
    and ele_law: "inv c \<Longrightarrow> key_ok ints k \<Longrightarrow> get_ele_func F c k = None \<longleftrightarrow> look c (keyval k) = None"
    and del_law: "inv c \<Longrightarrow> key_ok ints k \<Longrightarrow> del_func F c k = (d, c') \<Longrightarrow>
      inv c' \<and> uiCapacity c' = uiCapacity c \<and> d = spec_get (look c) k \<and> look c' = (look c)(keyval k := None)"
    and count_law: "inv c \<Longrightarrow> count_func F c = of_nat (card (dom (look c)))"
    and next_law: "inv c \<Longrightarrow> (\<And>n. cur = Some n \<Longrightarrow> key_ok ints (pKey (stEle n))) \<Longrightarrow>
      spec_next (look c) cur (getnext_func F c cur)"
begin

definition ready :: "('i, 'd, 's) map_handle \<Rightarrow> bool" where
  "ready m \<longleftrightarrow> funcs m = F \<and> inv (ctrl m)"

lemma step_spec:
  assumes m: "ready m" and p: "op_ok ints p" and s: "map_step m p = (r, m')"
  shows "ready m' \<and> uiCapacity (ctrl m') = uiCapacity (ctrl m) \<and>
    spec_step (uiCapacity (ctrl m)) (look (ctrl m)) p = (r, look (ctrl m'))"
proof (cases p)
  case (OpAdd env k d flag)
  obtain r' c' where a: "add_func F env (ctrl m) k d flag = (r', c')" by (meson surj_pair)
  have "inv c' \<and> uiCapacity c' = uiCapacity (ctrl m) \<and>
      spec_add (uiCapacity (ctrl m)) (look (ctrl m)) env k d flag = (r', look c')"
    using add_law [OF _ _ _ a] m p OpAdd by (simp add: ready_def)
  then show ?thesis using a s m OpAdd by (auto simp: ready_def MAP_Add_def)
next
  case (OpGet k)
  then show ?thesis using get_law m p s by (auto simp: ready_def MAP_Get_def)
next
  case (OpDel k)
  obtain d c' where a: "del_func F (ctrl m) k = (d, c')" by (meson surj_pair)
  show ?thesis using del_law [OF _ _ a] a m p s OpDel by (auto simp: ready_def MAP_Del_def)
next
  case OpCount
  then show ?thesis using count_law m s by (auto simp: ready_def MAP_Count_def)
qed

text \<open>The results of any sequence of requests are those of the finite map.\<close>

lemma run_spec:
  "ready m \<Longrightarrow> list_all (op_ok ints) ps \<Longrightarrow> map_run ps m = (rs, m') \<Longrightarrow>
    ready m' \<and> uiCapacity (ctrl m') = uiCapacity (ctrl m) \<and>
    spec_run (uiCapacity (ctrl m)) ps (look (ctrl m)) = (rs, look (ctrl m'))"
proof (induction ps arbitrary: m rs)
  case (Cons p ps)
  obtain r m1 where p: "map_step m p = (r, m1)" by (meson surj_pair)
  obtain rs1 m2 where ps: "map_run ps m1 = (rs1, m2)" by (meson surj_pair)
  show ?case
    using step_spec [OF Cons.prems(1) _ p] Cons.IH [of m1 rs1] Cons.prems(2,3) p ps by auto
qed simp

text \<open>What a client sees of an insertion.\<close>

lemma add_result:
  assumes m: "ready m" "key_ok ints k" "flag AND MAP_FLAG_PERMIT_DUPLICATE = 0" and a: "MAP_Add env m k d flag = (r, m')"
  defines "full \<equiv> MAP_GetCapacity m \<noteq> 0 \<and> MAP_GetCapacity m \<le> MAP_Count m"
  shows "r = (if full then BS_NO_RESOURCE else if MAP_IsExist m k then BS_ALREADY_EXIST
      else if \<not> alloc_ok env k flag then BS_NO_MEMORY else BS_OK) \<and>
    (r \<noteq> BS_OK \<longrightarrow> look (ctrl m') = look (ctrl m)) \<and>
    (r = BS_OK \<longrightarrow> look (ctrl m') = (look (ctrl m))(keyval k \<mapsto> d)) \<and> ready m' \<and> MAP_GetCapacity m' = MAP_GetCapacity m"
proof -
  obtain c' where c: "add_func F env (ctrl m) k d flag = (r, c')" "m' = m\<lparr>ctrl := c'\<rparr>"
    using a m(1) by (auto simp: MAP_Add_def ready_def split: prod.splits)
  have i: "inv (ctrl m)" using m(1) by (simp add: ready_def)
  have f: "full \<longleftrightarrow> uiCapacity (ctrl m) \<noteq> 0 \<and> uiCapacity (ctrl m) \<le> of_nat (card (dom (look (ctrl m))))"
    using m(1) count_law [OF i] by (simp add: full_def MAP_GetCapacity_def MAP_Count_def ready_def)
  have e: "MAP_IsExist m k \<longleftrightarrow> look (ctrl m) (keyval k) \<noteq> None"
    using ele_law [OF i m(2)] m(1) by (simp add: MAP_IsExist_def MAP_GetEle_def ready_def)
  have s: "inv c'" "uiCapacity c' = uiCapacity (ctrl m)"
    "(r, look c') = spec_add (uiCapacity (ctrl m)) (look (ctrl m)) env k d flag"
    using add_law [OF i m(2,3) c(1)] by blast+
  have "r = (if full then BS_NO_RESOURCE else if MAP_IsExist m k then BS_ALREADY_EXIST
      else if \<not> alloc_ok env k flag then BS_NO_MEMORY else BS_OK) \<and>
    look c' = (if r = BS_OK then (look (ctrl m))(keyval k \<mapsto> d) else look (ctrl m))"
    using s(3) unfolding f e spec_add_def by (simp split: if_splits)
  then show ?thesis using s c(2) m(1) by (simp add: ready_def MAP_GetCapacity_def)
qed

text \<open>A map with a capacity never holds more elements.\<close>

lemma step_capacity:
  assumes "ready m" "op_ok ints p" "map_step m p = (r, m')"
    and "card (dom (look (ctrl m))) \<le> unat cap" "finite (dom (look (ctrl m)))" "uiCapacity (ctrl m) = cap" "cap \<noteq> 0"
  shows "card (dom (look (ctrl m'))) \<le> unat cap \<and> finite (dom (look (ctrl m')))"
proof -
  have s: "spec_step cap (look (ctrl m)) p = (r, look (ctrl m'))" using step_spec [OF assms(1-3)] assms(6) by simp
  show ?thesis
  proof (cases p)
    case (OpAdd env k d flag)
    then have a: "look (ctrl m') = snd (spec_add cap (look (ctrl m)) env k d flag)" using s by (auto split: prod.splits)
    show ?thesis
    proof (cases "cap \<le> of_nat (card (dom (look (ctrl m))))")
      case False
      then have "unat (of_nat (card (dom (look (ctrl m)))) :: UINT) < unat cap" by (simp only: word_le_nat_alt not_le)
      moreover have "unat (of_nat (card (dom (look (ctrl m)))) :: UINT) = card (dom (look (ctrl m)))"
        using assms(4) unat_lt2p [of cap] by (intro unat_of_nat_small) simp
      ultimately have "Suc (card (dom (look (ctrl m)))) \<le> unat cap" by simp
      then show ?thesis
        using assms(4,5,7) a card_insert_if [OF assms(5), of "keyval k"] by (simp add: spec_add_def)
    qed (use assms a in \<open>simp add: spec_add_def\<close>)
  next
    case (OpDel k)
    then have "look (ctrl m') = (look (ctrl m))(keyval k := None)" using s by simp
    then show ?thesis using assms(4,5) by (simp add: card_Diff1_le order_trans [OF card_Diff1_le])
  qed (use assms s in simp_all)
qed

lemma run_capacity:
  "ready m \<Longrightarrow> list_all (op_ok ints) ps \<Longrightarrow> map_run ps m = (rs, m') \<Longrightarrow>
    card (dom (look (ctrl m))) \<le> unat cap \<Longrightarrow> finite (dom (look (ctrl m))) \<Longrightarrow> uiCapacity (ctrl m) = cap \<Longrightarrow> cap \<noteq> 0 \<Longrightarrow>
    MAP_Count m' \<le> cap"
proof (induction ps arbitrary: m rs)
  case Nil
  have "MAP_Count m' = of_nat (card (dom (look (ctrl m))))"
    using Nil.prems(1,3) count_law by (auto simp: MAP_Count_def ready_def)
  then show ?case using Nil.prems(4) unat_lt2p [of cap] by (simp add: word_le_nat_alt unat_of_nat_small del: unat_of_nat)
next
  case (Cons p ps)
  obtain r m1 where p: "map_step m p = (r, m1)" by (meson surj_pair)
  obtain rs1 where ps: "map_run ps m1 = (rs1, m')"
    using Cons.prems(3) p by (auto split: prod.splits)
  have k: "op_ok ints p" "list_all (op_ok ints) ps" using Cons.prems(2) by simp_all
  have s: "ready m1" "uiCapacity (ctrl m1) = cap" using step_spec [OF Cons.prems(1) k(1) p] Cons.prems(6) by simp_all
  have c: "card (dom (look (ctrl m1))) \<le> unat cap" "finite (dom (look (ctrl m1)))"
    using step_capacity [OF Cons.prems(1) k(1) p Cons.prems(4-7)] by simp_all
  show ?case by (rule Cons.IH [OF s(1) k(2) ps c s(2) Cons.prems(7)])
qed

end

text \<open>The next element is determined by the map.\<close>

lemma spec_next_unique:
  assumes "spec_next m cur (Some a)" "spec_next m cur (Some b)"
  shows "keyval (pKey (stEle a)) = keyval (pKey (stEle b)) \<and> pData (stEle a) = pData (stEle b)"
  using assms val_cmp_flip [of "keyval (pKey (stEle a))" "keyval (pKey (stEle b))"] by (auto simp: spec_next_def)

lemma spec_next_agree:
  assumes "spec_next m cur a" "spec_next m cur b"
  shows "map_option (\<lambda>n. (keyval (pKey (stEle n)), pData (stEle n))) a =
    map_option (\<lambda>n. (keyval (pKey (stEle n)), pData (stEle n))) b"
proof (cases a; cases b)
  fix x y
  assume "a = Some x" "b = Some y"
  then show ?thesis using spec_next_unique [of m cur x y] assms by simp
qed (use assms in \<open>auto simp: spec_next_def\<close>)

section \<open>Maps from lists of nodes\<close>

abbreviation node_val :: "'d map_node \<Rightarrow> UINT + UCHAR list" where
  "node_val n \<equiv> keyval (pKey (stEle n))"

definition nodes_map :: "'d map_node list \<Rightarrow> 'd kvmap" where
  "nodes_map ns = map_of (map (\<lambda>n. (node_val n, pData (stEle n))) ns)"

abbreviation keys_distinct :: "'d map_node list \<Rightarrow> bool" where
  "keys_distinct ns \<equiv> distinct (map node_val ns)"

lemma dom_nodes_map: "dom (nodes_map ns) = node_val ` set ns"
  by (simp add: nodes_map_def dom_map_of_conv_image_fst image_image)

lemma card_nodes_map: "keys_distinct ns \<Longrightarrow> card (dom (nodes_map ns)) = length ns"
  unfolding dom_nodes_map by (metis distinct_card length_map set_map)

lemma nodes_map_Some: "keys_distinct ns \<Longrightarrow> n \<in> set ns \<Longrightarrow> nodes_map ns (node_val n) = Some (pData (stEle n))"
  unfolding nodes_map_def by (rule map_of_is_SomeI) (simp_all add: comp_def)

lemma nodes_map_None: "nodes_map ns q = None \<longleftrightarrow> q \<notin> node_val ` set ns"
  using dom_nodes_map [of ns] by blast

lemma nodes_map_cong:
  assumes "mset ns = mset ms" "keys_distinct ns"
  shows "keys_distinct ms \<and> nodes_map ns = nodes_map ms"
proof -
  have "mset (map node_val ns) = mset (map node_val ms)" using assms(1) by simp
  then have d: "keys_distinct ms" using assms(2) mset_eq_imp_distinct_iff by blast
  have "set ns = set ms" using assms(1) by (metis set_mset_mset)
  then show ?thesis
    using d assms(2) unfolding nodes_map_def by (subst map_of_inject_set) (simp_all add: comp_def)
qed

lemma nodes_map_Cons: "nodes_map (n # ns) = (nodes_map ns)(node_val n \<mapsto> pData (stEle n))"
  by (simp add: nodes_map_def)

lemma nodes_map_add:
  assumes "mset ms = add_mset n (mset ns)" "keys_distinct ns" "nodes_map ns (node_val n) = None"
  shows "keys_distinct ms \<and> nodes_map ms = (nodes_map ns)(node_val n \<mapsto> pData (stEle n))"
proof -
  have "keys_distinct (n # ns)" using assms(2,3) by (simp add: nodes_map_None)
  then show ?thesis using nodes_map_cong [of "n # ns" ms] assms(1) by (simp add: nodes_map_Cons)
qed

lemma nodes_map_del:
  assumes "mset ns = add_mset n (mset ms)" "keys_distinct ns"
  shows "keys_distinct ms \<and> nodes_map ms = (nodes_map ns)(node_val n := None)"
proof -
  have c: "keys_distinct (n # ms) \<and> nodes_map ns = nodes_map (n # ms)"
    using nodes_map_cong [of ns "n # ms"] assms by simp
  then have "nodes_map ms (node_val n) = None" by (simp add: nodes_map_None)
  then have "(nodes_map (n # ms))(node_val n := None) = nodes_map ms"
    by (simp add: nodes_map_Cons fun_upd_idem)
  then show ?thesis using c by simp
qed

lemma val_cmp_less: "val_cmp p q < 0 \<longleftrightarrow> val_cmp q p > 0"
proof (cases p)
  case (Inr x)
  show ?thesis
  proof (cases q)
    case (Inr y)
    show ?thesis unfolding Inr \<open>p = Inr x\<close> val_cmp_def by (simp add: MEM_Cmp_less [of x y])
  qed (simp add: Inr val_cmp_def)
qed (cases q; simp add: val_cmp_def)

lemma val_cmp_trans: "val_cmp p q \<le> 0 \<Longrightarrow> val_cmp q r \<le> 0 \<Longrightarrow> val_cmp p r \<le> 0"
  by (cases p; cases q; cases r) (auto simp: val_cmp_def dest: MEM_Cmp_trans)

lemma cmp_order_val_cmp: "cmp_order val_cmp"
  unfolding cmp_order_def using val_cmp_less val_cmp_trans by blast

lemma cmp_order_on: "cmp_order cmp \<Longrightarrow> cmp_order (\<lambda>a b. cmp (f a) (f b))"
  unfolding cmp_order_def by blast

abbreviation node_cmp :: "'d map_node \<Rightarrow> 'd map_node \<Rightarrow> int" where
  "node_cmp a b \<equiv> val_cmp (node_val a) (node_val b)"

lemma cmp_order_node_cmp: "cmp_order node_cmp"
  by (rule cmp_order_on [OF cmp_order_val_cmp])

end
