(* ===== verification/MapHash.thy ===== *)
theory MapHash
  imports Hash JHash MapCtrl
begin

text \<open>
  The hash map of \<^verbatim>\<open>map/map_utl.c\<close>: an implementation of \<^verbatim>\<open>MAP_FUNC_S\<close> on the hash table of \<^theory_text>\<open>Hash\<close>, with the
  keys hashed by \<^theory_text>\<open>JHash\<close>. Freeing memory is not modelled. \<^verbatim>\<open>HASH_CreateInstance\<close> has no source in the
  repository: it is a parameter of \<^verbatim>\<open>MAP_HashCreate\<close>. The rotation of the hash is the parameter \<open>rol\<close>.
\<close>

definition MAP_HASH_BUCKET_NUM :: UINT where
  "MAP_HASH_BUCKET_NUM = 1024"

type_synonym 'd map_hash = "'d map_node hash map_ctrl"

definition map_key_hash_factor :: "rol32 \<Rightarrow> map_key \<Rightarrow> UINT" where
  "map_key_hash_factor rol key =
     (if uiKeyLen key = 0 then kptr key else JHASH_GeneralBuffer rol (kbytes key) 0)"

definition map_hash_factor :: "rol32 \<Rightarrow> 'd map_node \<Rightarrow> UINT" where
  "map_hash_factor rol n = map_key_hash_factor rol (pKey (stEle n))"

definition map_hash_cmp :: "'d map_node \<Rightarrow> 'd map_node \<Rightarrow> int" where
  "map_hash_cmp n1 n2 =
     (let k1 = pKey (stEle n1); k2 = pKey (stEle n2)
      in if uiKeyLen k1 \<noteq> uiKeyLen k2 then -1
         else if uiKeyLen k1 = 0 then int_key_diff k1 k2
         else MEM_Cmp (kbytes k1) (kbytes k2))"

text \<open>The node on the stack that a search compares with; only its key is set.\<close>

definition key_node :: "map_key \<Rightarrow> 'd map_node" where
  "key_node key = \<lparr>addr = 0, stEle = \<lparr>pKey = key, pData = None, dup_key = False, link_alloced = False\<rparr>\<rparr>"

definition map_hash_find :: "'d map_hash \<Rightarrow> map_key \<Rightarrow> 'd map_node option" where
  "map_hash_find m key = HASH_Find (impl_map m) map_hash_cmp (key_node key)"

definition map_hash_add_check :: "'d map_hash \<Rightarrow> map_key \<Rightarrow> UINT \<Rightarrow> UINT \<Rightarrow> bs_status" where
  "map_hash_add_check m key flag factor =
     (if uiCapacity m \<noteq> 0 \<and> uiCapacity m \<le> HASH_Count (impl_map m) then BS_NO_RESOURCE
      else if flag AND MAP_FLAG_PERMIT_DUPLICATE = 0 \<and>
              HASH_FindWithFactor (impl_map m) factor map_hash_cmp (key_node key) \<noteq> None
      then BS_ALREADY_EXIST else BS_OK)"

definition map_hash_add_inner ::
  "map_env \<Rightarrow> 'd map_hash \<Rightarrow> map_key \<Rightarrow> 'd option \<Rightarrow> 'd map_node \<Rightarrow> UINT \<Rightarrow> UINT \<Rightarrow> bs_status \<times> 'd map_hash" where
  "map_hash_add_inner env m key d n flag factor =
     (if flag AND MAP_FLAG_DUP_KEY \<noteq> 0 \<and> uiKeyLen key \<noteq> 0 \<and> \<not> key_alloc env then (BS_NO_MEMORY, m)
      else
        let dup = (if flag AND MAP_FLAG_DUP_KEY \<noteq> 0 \<and> uiKeyLen key \<noteq> 0 then True else dup_key (stEle n));
            n = n\<lparr>stEle := (stEle n)\<lparr>pKey := key, pData := d, dup_key := dup\<rparr>\<rparr>
        in (BS_OK, m\<lparr>impl_map := HASH_AddWithFactor (impl_map m) n factor\<rparr>))"

definition map_hash_add_node ::
  "rol32 \<Rightarrow> map_env \<Rightarrow> 'd map_hash \<Rightarrow> map_key \<Rightarrow> 'd option \<Rightarrow> 'd map_node \<Rightarrow> UINT \<Rightarrow> bs_status \<times> 'd map_hash" where
  "map_hash_add_node rol env m key d n flag =
     (let factor = map_key_hash_factor rol key; ret = map_hash_add_check m key flag factor
      in if ret \<noteq> BS_OK then (ret, m)
         else map_hash_add_inner env m key d (n\<lparr>stEle := (stEle n)\<lparr>link_alloced := False\<rparr>\<rparr>) flag factor)"

definition map_hash_add ::
  "rol32 \<Rightarrow> map_env \<Rightarrow> 'd map_hash \<Rightarrow> map_key \<Rightarrow> 'd option \<Rightarrow> UINT \<Rightarrow> bs_status \<times> 'd map_hash" where
  "map_hash_add rol env m key d flag =
     (let factor = map_key_hash_factor rol key; ret = map_hash_add_check m key flag factor
      in if ret \<noteq> BS_OK then (ret, m)
         else case node_alloc env of
                None \<Rightarrow> (BS_NO_MEMORY, m)
              | Some a \<Rightarrow> map_hash_add_inner env m key d
                  \<lparr>addr = a, stEle = \<lparr>pKey = key, pData = None, dup_key = False, link_alloced = True\<rparr>\<rparr> flag factor)"

definition map_hash_get_ele :: "'d map_hash \<Rightarrow> map_key \<Rightarrow> 'd map_node option" where
  "map_hash_get_ele m key = map_hash_find m key"

definition map_hash_get :: "'d map_hash \<Rightarrow> map_key \<Rightarrow> 'd option" where
  "map_hash_get m key = (case map_hash_find m key of None \<Rightarrow> None | Some n \<Rightarrow> pData (stEle n))"

definition map_hash_del_node :: "'d map_hash \<Rightarrow> 'd map_node \<Rightarrow> 'd option \<times> 'd map_hash" where
  "map_hash_del_node m n = (pData (stEle n), m\<lparr>impl_map := HASH_Del (impl_map m) n\<rparr>)"

definition map_hash_del_by_ele :: "'d map_hash \<Rightarrow> 'd map_node \<Rightarrow> 'd option \<times> 'd map_hash" where
  "map_hash_del_by_ele m n = map_hash_del_node m n"

definition map_hash_del :: "'d map_hash \<Rightarrow> map_key \<Rightarrow> 'd option \<times> 'd map_hash" where
  "map_hash_del m key = (case map_hash_find m key of None \<Rightarrow> (None, m) | Some n \<Rightarrow> map_hash_del_node m n)"

definition map_hash_free_all :: "('d option \<Rightarrow> 's \<Rightarrow> 's) option \<Rightarrow> 'd map_node \<Rightarrow> 's \<Rightarrow> 's" where
  "map_hash_free_all func n s = (case func of None \<Rightarrow> s | Some f \<Rightarrow> f (pData (stEle n)) s)"

definition map_hash_del_all :: "'d map_hash \<Rightarrow> ('d option \<Rightarrow> 's \<Rightarrow> 's) option \<Rightarrow> 's \<Rightarrow> 'd map_hash \<times> 's" where
  "map_hash_del_all m func s =
     (case HASH_DelAll (impl_map m) (Some (map_hash_free_all func)) s of (h, s') \<Rightarrow> (m\<lparr>impl_map := h\<rparr>, s'))"

definition map_hash_reset :: "'d map_hash \<Rightarrow> ('d option \<Rightarrow> 's \<Rightarrow> 's) option \<Rightarrow> 's \<Rightarrow> 'd map_hash \<times> 's" where
  "map_hash_reset m func s = map_hash_del_all m func s"

definition map_hash_count :: "'d map_hash \<Rightarrow> UINT" where
  "map_hash_count m = HASH_Count (impl_map m)"

definition map_hash_walk :: "'d map_hash \<Rightarrow> ('d map_node \<Rightarrow> 's \<Rightarrow> int \<times> 's) \<Rightarrow> 's \<Rightarrow> 's" where
  "map_hash_walk m f s = HASH_Walk (impl_map m) f s"

definition map_hash_getnext_cmp :: "'d map_node \<Rightarrow> 'd map_node \<Rightarrow> int" where
  "map_hash_getnext_cmp n current =
     (if uiKeyLen (pKey (stEle current)) = 0 then int_key_diff (pKey (stEle n)) (pKey (stEle current))
      else MEM_Cmp (kbytes (pKey (stEle n))) (kbytes (pKey (stEle current))))"

definition map_hash_getnext_each ::
  "'d map_node option \<Rightarrow> 'd map_node \<Rightarrow> 'd map_node option \<Rightarrow> int \<times> 'd map_node option" where
  "map_hash_getnext_each cur ele nxt =
     (if (case cur of None \<Rightarrow> False | Some c \<Rightarrow> map_hash_getnext_cmp ele c \<le> 0) then (0, nxt)
      else if (case nxt of None \<Rightarrow> False | Some n \<Rightarrow> map_hash_getnext_cmp ele n \<ge> 0) then (0, nxt)
      else (0, Some ele))"

definition map_hash_getnext :: "'d map_hash \<Rightarrow> 'd map_node option \<Rightarrow> 'd map_node option" where
  "map_hash_getnext m cur = map_hash_walk m (map_hash_getnext_each cur) None"

definition g_map_hash_funcs :: "rol32 \<Rightarrow> ('d map_hash, 'd, 's) map_funcs" where
  "g_map_hash_funcs rol =
     \<lparr>reset_func = map_hash_reset, add_node_func = map_hash_add_node rol, del_node_func = map_hash_del_node, add_func = map_hash_add rol,
      get_ele_func = map_hash_get_ele, get_func = map_hash_get, del_func = map_hash_del,
      del_by_ele_func = map_hash_del_by_ele, del_all_func = map_hash_del_all, count_func = map_hash_count,
      walk_func = map_hash_walk, getnext_func = map_hash_getnext\<rparr>"

text \<open>\<open>create\<close> is \<^verbatim>\<open>HASH_CreateInstance\<close>.\<close>

definition MAP_HashCreate ::
  "rol32 \<Rightarrow> bool \<Rightarrow> bool \<Rightarrow> (UINT \<Rightarrow> ('d map_node \<Rightarrow> UINT) \<Rightarrow> 'd map_node hash option) \<Rightarrow> UINT option \<Rightarrow>
     ('d map_node hash, 'd, 's) map_handle option" where
  "MAP_HashCreate rol alloc_ctrl alloc_map create p =
     (let bn = (case p of None \<Rightarrow> 0 | Some n \<Rightarrow> n); bn = (if bn = 0 then MAP_HASH_BUCKET_NUM else bn)
      in if \<not> alloc_ctrl then None
         else if \<not> alloc_map then None
         else case create bn (map_hash_factor rol) of
                None \<Rightarrow> None
              | Some h \<Rightarrow> Some \<lparr>funcs = g_map_hash_funcs rol, ctrl = \<lparr>impl_map = h, uiCapacity = 0\<rparr>\<rparr>)"

section \<open>The hash map keeps the contract\<close>

lemma map_hash_cmp_eq_0: "map_hash_cmp a b = 0 \<longleftrightarrow> node_val a = node_val b"
  by (auto simp: map_hash_cmp_def Let_def keyval_def int_key_diff_def)

lemma map_cmp_hashes: "cmp_hashes (map_hash_factor rol) map_hash_cmp"
  unfolding cmp_hashes_def map_hash_cmp_eq_0
  by (auto simp: map_hash_factor_def map_key_hash_factor_def keyval_def split: if_splits)

definition map_hash_inv :: "rol32 \<Rightarrow> bool \<Rightarrow> 'd map_hash \<Rightarrow> bool" where
  [inv_defs]: "map_hash_inv rol ints m \<longleftrightarrow> hash_for (map_hash_factor rol) map_hash_cmp (impl_map m) \<and>
     keys_distinct (hash_list (impl_map m)) \<and> (\<forall>n\<in>set (hash_list (impl_map m)). key_ok ints (pKey (stEle n)))"

definition map_hash_look :: "'d map_hash \<Rightarrow> 'd kvmap" where
  "map_hash_look m = nodes_map (hash_list (impl_map m))"

lemma map_hash_find_spec:
  assumes "map_hash_inv rol ints m"
  shows "case map_hash_find m k of
      None \<Rightarrow> map_hash_look m (keyval k) = None
    | Some n \<Rightarrow> n \<in> set (hash_list (impl_map m)) \<and> node_val n = keyval k \<and> map_hash_look m (keyval k) = Some (pData (stEle n))"
proof -
  have h: "hash_for (map_hash_factor rol) map_hash_cmp (impl_map m)" "keys_distinct (hash_list (impl_map m))"
    using assms by (simp_all add: map_hash_inv_def)
  have kn: "node_val (key_node k :: 'd map_node) = keyval k" by (simp add: key_node_def)
  show ?thesis
  proof (cases "map_hash_find m k")
    case None
    then have "node_val a \<noteq> keyval k" if "a \<in> set (hash_list (impl_map m))" for a
      using hash_bag.search_none [OF h(1), of "key_node k" a] that
      unfolding map_hash_find_def map_hash_cmp_eq_0 kn by simp
    then have "keyval k \<notin> node_val ` set (hash_list (impl_map m))" by force
    then show ?thesis using None by (simp add: map_hash_look_def nodes_map_None)
  next
    case (Some n)
    then have n: "n \<in> set (hash_list (impl_map m))" "node_val n = keyval k"
      using hash_bag.search_some [OF h(1), of "key_node k" n] unfolding map_hash_find_def map_hash_cmp_eq_0 kn by simp_all
    then show ?thesis using nodes_map_Some [OF h(2) n(1)] Some by (simp add: map_hash_look_def)
  qed
qed

lemma hash_count: "hash_for idx cmp h \<Longrightarrow> HASH_Count h = of_nat (length (hash_list h))"
  by (simp add: hash_for_def hash_ok_def HASH_Count_def)

text \<open>What an insertion adds.\<close>

lemma map_hash_insert:
  assumes inv: "map_hash_inv rol ints m" and k: "key_ok ints k" "map_hash_look m (keyval k) = None"
    and n: "pKey (stEle n) = k"
  defines "m' \<equiv> m\<lparr>impl_map := HASH_AddWithFactor (impl_map m) n (map_key_hash_factor rol k)\<rparr>"
  shows "map_hash_inv rol ints m' \<and> map_hash_look m' = (map_hash_look m)(keyval k \<mapsto> pData (stEle n))"
proof -
  have h: "hash_for (map_hash_factor rol) map_hash_cmp (impl_map m)" "keys_distinct (hash_list (impl_map m))"
    using inv by (simp_all add: map_hash_inv_def)
  have "impl_map m' = HASH_Add (impl_map m) n"
    using h(1) n by (simp add: m'_def HASH_Add_def hash_for_def map_hash_factor_def)
  moreover have "n \<notin> set (hash_list (impl_map m))" using k(2) n by (auto simp: map_hash_look_def nodes_map_None)
  ultimately have a: "hash_for (map_hash_factor rol) map_hash_cmp (impl_map m')"
    "mset (hash_list (impl_map m')) = add_mset n (mset (hash_list (impl_map m)))"
    using hash_bag.ins_inv [OF h(1)] hash_bag.ins_elems [OF h(1)] by simp_all
  have s: "set (hash_list (impl_map m')) = insert n (set (hash_list (impl_map m)))"
    using a(2) by (metis set_mset_add_mset_insert set_mset_mset)
  show ?thesis
    using nodes_map_add [OF a(2) h(2)] a(1) s inv k n by (auto simp: map_hash_inv_def map_hash_look_def)
qed

lemma map_hash_remove:
  assumes inv: "map_hash_inv rol ints m" and n: "n \<in> set (hash_list (impl_map m))"
  defines "m' \<equiv> m\<lparr>impl_map := HASH_Del (impl_map m) n\<rparr>"
  shows "map_hash_inv rol ints m' \<and> map_hash_look m' = (map_hash_look m)(node_val n := None)"
proof -
  have h: "hash_for (map_hash_factor rol) map_hash_cmp (impl_map m)" "keys_distinct (hash_list (impl_map m))"
    using inv by (simp_all add: map_hash_inv_def)
  have n': "n \<in># mset (hash_list (impl_map m))" using n by simp
  have a: "hash_for (map_hash_factor rol) map_hash_cmp (impl_map m')"
    "mset (hash_list (impl_map m)) = add_mset n (mset (hash_list (impl_map m')))"
    using hash_bag.del_inv [OF h(1) n'] hash_bag.del_elems [OF h(1) n'] n' by (simp_all add: m'_def)
  have s: "set (hash_list (impl_map m')) \<subseteq> set (hash_list (impl_map m))"
    using a(2) by (metis set_mset_add_mset_insert set_mset_mset subset_insertI)
  show ?thesis
    using nodes_map_del [OF a(2) h(2)] a(1) s inv by (auto simp: map_hash_inv_def map_hash_look_def)
qed

lemma map_hash_add_law:
  assumes inv: "map_hash_inv rol ints m" and k: "key_ok ints k" and f: "flag AND MAP_FLAG_PERMIT_DUPLICATE = 0"
    and a: "map_hash_add rol env m k d flag = (r, m')"
  shows "map_hash_inv rol ints m' \<and> uiCapacity m' = uiCapacity m \<and>
    (r, map_hash_look m') = spec_add (uiCapacity m) (map_hash_look m) env k d flag"
proof -
  have h: "hash_for (map_hash_factor rol) map_hash_cmp (impl_map m)" "keys_distinct (hash_list (impl_map m))"
    using inv by (simp_all add: map_hash_inv_def)
  have cnt: "HASH_Count (impl_map m) = of_nat (card (dom (map_hash_look m)))"
    using hash_count [OF h(1)] card_nodes_map [OF h(2)] by (simp add: map_hash_look_def)
  have find: "HASH_FindWithFactor (impl_map m) (map_key_hash_factor rol k) map_hash_cmp (key_node k) = map_hash_find m k"
    using h(1) by (simp add: map_hash_find_def HASH_Find_def hash_for_def map_hash_factor_def key_node_def)
  have look: "map_hash_find m k = None \<longleftrightarrow> map_hash_look m (keyval k) = None"
    using map_hash_find_spec [OF inv, of k] by (auto split: option.splits)
  consider (full) "uiCapacity m \<noteq> 0" "uiCapacity m \<le> of_nat (card (dom (map_hash_look m)))"
    | (dup) "\<not> (uiCapacity m \<noteq> 0 \<and> uiCapacity m \<le> of_nat (card (dom (map_hash_look m))))" "map_hash_look m (keyval k) \<noteq> None"
    | (mem) "\<not> (uiCapacity m \<noteq> 0 \<and> uiCapacity m \<le> of_nat (card (dom (map_hash_look m))))" "map_hash_look m (keyval k) = None"
        "\<not> alloc_ok env k flag"
    | (ok) "\<not> (uiCapacity m \<noteq> 0 \<and> uiCapacity m \<le> of_nat (card (dom (map_hash_look m))))" "map_hash_look m (keyval k) = None"
        "alloc_ok env k flag" by blast
  then show ?thesis
  proof cases
    case full
    then have "r = BS_NO_RESOURCE" "m' = m" using a cnt by (simp_all add: map_hash_add_def map_hash_add_check_def)
    then show ?thesis using full inv by (simp add: spec_add_def)
  next
    case dup
    then have "r = BS_ALREADY_EXIST" "m' = m"
      using a cnt f find look by (auto simp: map_hash_add_def map_hash_add_check_def Let_def split: if_splits)
    then show ?thesis using dup inv by (simp add: spec_add_def)
  next
    case mem
    then have "r = BS_NO_MEMORY" "m' = m"
      using a cnt f find look
      by (auto simp: map_hash_add_def map_hash_add_check_def map_hash_add_inner_def alloc_ok_def Let_def
          split: if_splits option.splits)
    then show ?thesis using mem inv by (simp add: spec_add_def)
  next
    case ok
    then obtain ad where ad: "node_alloc env = Some ad" by (auto simp: alloc_ok_def)
    let ?dup = "flag AND MAP_FLAG_DUP_KEY \<noteq> 0 \<and> uiKeyLen k \<noteq> 0"
    let ?n = "\<lparr>addr = ad, stEle = \<lparr>pKey = k, pData = d, dup_key = ?dup, link_alloced = True\<rparr>\<rparr>"
    have "map_hash_add_check m k flag (map_key_hash_factor rol k) = BS_OK"
      unfolding map_hash_add_check_def cnt find using ok look by auto
    then have "r = BS_OK" "m' = m\<lparr>impl_map := HASH_AddWithFactor (impl_map m) ?n (map_key_hash_factor rol k)\<rparr>"
      using a ad ok(3) by (auto simp: map_hash_add_def map_hash_add_inner_def alloc_ok_def Let_def split: if_splits)
    then show ?thesis
      using map_hash_insert [OF inv k ok(2), of ?n] ok by (simp add: spec_add_def)
  qed
qed

lemma map_hash_get_law:
  assumes "map_hash_inv rol ints m"
  shows "map_hash_get m k = spec_get (map_hash_look m) k"
  using map_hash_find_spec [OF assms, of k] by (auto simp: map_hash_get_def spec_get_def split: option.splits)

lemma map_hash_del_law:
  assumes inv: "map_hash_inv rol ints m" and d: "map_hash_del m k = (d, m')"
  shows "map_hash_inv rol ints m' \<and> uiCapacity m' = uiCapacity m \<and> d = spec_get (map_hash_look m) k \<and>
    map_hash_look m' = (map_hash_look m)(keyval k := None)"
proof (cases "map_hash_find m k")
  case None
  then have "d = None" "m' = m" "map_hash_look m (keyval k) = None"
    using d map_hash_find_spec [OF inv, of k] by (simp_all add: map_hash_del_def)
  then show ?thesis using inv by (simp add: spec_get_def fun_upd_idem)
next
  case (Some n)
  then have n: "n \<in> set (hash_list (impl_map m))" "node_val n = keyval k"
    "map_hash_look m (keyval k) = Some (pData (stEle n))"
    using map_hash_find_spec [OF inv, of k] by simp_all
  have "d = pData (stEle n)" "m' = m\<lparr>impl_map := HASH_Del (impl_map m) n\<rparr>"
    using d Some by (simp_all add: map_hash_del_def map_hash_del_node_def)
  then show ?thesis using map_hash_remove [OF inv n(1)] n by (simp add: spec_get_def)
qed

lemma map_hash_count_law:
  assumes "map_hash_inv rol ints m"
  shows "map_hash_count m = of_nat (card (dom (map_hash_look m)))"
proof -
  have "hash_for (map_hash_factor rol) map_hash_cmp (impl_map m)" "keys_distinct (hash_list (impl_map m))"
    using assms by (simp_all add: map_hash_inv_def)
  then show ?thesis
    using hash_count [of _ _ "impl_map m"] card_nodes_map [of "hash_list (impl_map m)"]
    by (simp add: map_hash_count_def map_hash_look_def)
qed

lemma map_hash_getnext_cmp:
  assumes "key_ok ints (pKey (stEle a))" "key_ok ints (pKey (stEle b))"
  shows "map_hash_getnext_cmp a b = node_cmp a b"
proof (cases ints)
  case True
  then show ?thesis
    using assms int_key_diff [of "pKey (stEle a)" "pKey (stEle b)"] val_cmp [OF assms]
    by (simp add: map_hash_getnext_cmp_def key_ok_def)
next
  case False
  then show ?thesis using assms val_cmp [OF assms] by (simp add: map_hash_getnext_cmp_def key_ok_def key_cmp_def)
qed

lemma walk_nodes_fold: "(\<And>n s. fst (f n s) = 0) \<Longrightarrow> walk_nodes f es s = fold (\<lambda>e s. snd (f (obj e) s)) es s"
proof (induction es arbitrary: s)
  case (Cons e es)
  obtain r s' where "f (obj e) s = (r, s')" by (meson surj_pair)
  moreover from this have "r = 0" using Cons.prems [of "obj e" s] by simp
  ultimately show ?case using Cons by simp
qed simp

lemma getnext_each_step:
  assumes "key_ok ints (pKey (stEle n))" "\<And>c. cur = Some c \<Longrightarrow> key_ok ints (pKey (stEle c))"
    "\<And>x. nxt = Some x \<Longrightarrow> key_ok ints (pKey (stEle x))"
  shows "map_hash_getnext_each cur n nxt =
    (0, if above node_cmp cur n
        then (if nxt = None then Some n else if hash_cmp_node node_cmp (Some n) nxt < 0 then Some n else nxt) else nxt)"
  using assms map_hash_getnext_cmp [OF assms(1)]
  by (auto simp: map_hash_getnext_each_def hash_cmp_node_def split: option.splits)

lemma getnext_least:
  assumes "\<And>e. e \<in> set es \<Longrightarrow> key_ok ints (pKey (stEle (obj e)))" "\<And>c. cur = Some c \<Longrightarrow> key_ok ints (pKey (stEle c))"
    "\<And>x. nxt = Some x \<Longrightarrow> key_ok ints (pKey (stEle x))" "least_above node_cmp cur A nxt"
  shows "least_above node_cmp cur (A \<union> obj ` set es) (fold (\<lambda>e s. snd (map_hash_getnext_each cur (obj e) s)) es nxt)"
  using assms(1,3,4)
proof (induction es arbitrary: A nxt)
  case (Cons e es)
  let ?n = "snd (map_hash_getnext_each cur (obj e) nxt)"
  have e: "key_ok ints (pKey (stEle (obj e)))" using Cons.prems(1) by simp
  note step = getnext_each_step [OF e assms(2) Cons.prems(2)]
  have "least_above node_cmp cur (insert (obj e) A) ?n"
    using least_above_step [OF cmp_order_node_cmp Cons.prems(3), of "obj e"] by (simp only: step snd_conv)
  moreover have "key_ok ints (pKey (stEle x))" if "?n = Some x" for x
    using that e Cons.prems(2) by (auto simp: step split: if_splits)
  ultimately show ?case using Cons.IH [of ?n "insert (obj e) A"] Cons.prems(1) by simp
qed simp

lemma map_hash_getnext_law:
  assumes inv: "map_hash_inv rol ints m" and cur: "\<And>n. cur = Some n \<Longrightarrow> key_ok ints (pKey (stEle n))"
  shows "spec_next (map_hash_look m) cur (map_hash_getnext m cur)"
proof -
  let ?ns = "hash_list (impl_map m)"
  have d: "keys_distinct ?ns" "\<And>n. n \<in> set ?ns \<Longrightarrow> key_ok ints (pKey (stEle n))"
    using inv by (simp_all add: map_hash_inv_def)
  have "map_hash_getnext m cur =
      fold (\<lambda>e s. snd (map_hash_getnext_each cur (obj e) s)) (concat (pstBuckets (impl_map m))) None"
    unfolding map_hash_getnext_def map_hash_walk_def HASH_Walk_def
    by (rule walk_nodes_fold) (simp add: map_hash_getnext_each_def)
  moreover have "key_ok ints (pKey (stEle (obj e)))" if "e \<in> set (concat (pstBuckets (impl_map m)))" for e
    using that d(2) by (simp add: hash_list_def)
  ultimately have l: "least_above node_cmp cur (set ?ns) (map_hash_getnext m cur)"
    using getnext_least [of "concat (pstBuckets (impl_map m))" ints cur None "{}"] cur
    by (simp add: hash_list_def least_above_def)
  have v: "vals_above (map_hash_look m) cur = node_val ` {n \<in> set ?ns. above node_cmp cur n}"
    unfolding vals_above_def map_hash_look_def dom_nodes_map by (auto simp: hash_cmp_node_def split: option.splits)
  show ?thesis
  proof (cases "map_hash_getnext m cur")
    case None
    then show ?thesis using l by (auto simp: spec_next_def v least_above_def)
  next
    case (Some n)
    then have "n \<in> set ?ns" "above node_cmp cur n" "\<forall>x\<in>set ?ns. above node_cmp cur x \<longrightarrow> node_cmp n x \<le> 0"
      using l by (simp_all add: least_above_def)
    moreover have "map_hash_look m (node_val n) = Some (pData (stEle n))"
      using nodes_map_Some [OF d(1) \<open>n \<in> set ?ns\<close>] by (simp add: map_hash_look_def)
    ultimately show ?thesis using Some by (auto simp: spec_next_def v)
  qed
qed

interpretation map_hash: map_impl "g_map_hash_funcs rol" ints "map_hash_inv rol ints" map_hash_look
  for rol ints
proof (unfold_locales, goal_cases)
  case 1
  then show ?case using map_hash_add_law by (simp add: g_map_hash_funcs_def)
next
  case 2
  then show ?case using map_hash_get_law by (simp add: g_map_hash_funcs_def)
next
  case (3 c k)
  then show ?case using map_hash_find_spec [OF 3(1), of k]
    by (auto simp: g_map_hash_funcs_def map_hash_get_ele_def split: option.splits)
next
  case 4
  then show ?case using map_hash_del_law by (simp add: g_map_hash_funcs_def)
next
  case 5
  then show ?case using map_hash_count_law by (simp add: g_map_hash_funcs_def)
next
  case 6
  then show ?case unfolding g_map_hash_funcs_def map_funcs.simps by (rule map_hash_getnext_law)
qed

lemma MAP_HashCreate_ready:
  assumes "MAP_HashCreate rol True True create p = Some m"
    and "\<And>bn f h. create bn f = Some h \<Longrightarrow> hash_ok h \<and> hash_list h = [] \<and> pfHashIndexFunc h = f"
  shows "map_hash.ready rol ints m" "map_hash_look (ctrl m) = Map.empty" "uiCapacity (ctrl m) = 0"
proof -
  obtain bn h where "create bn (map_hash_factor rol) = Some h" and m: "m = \<lparr>funcs = g_map_hash_funcs rol, ctrl = \<lparr>impl_map = h, uiCapacity = 0\<rparr>\<rparr>"
    using assms(1) by (auto simp: MAP_HashCreate_def Let_def split: option.splits if_splits)
  then have "hash_ok h \<and> hash_list h = [] \<and> pfHashIndexFunc h = map_hash_factor rol" using assms(2) by blast
  then show "map_hash.ready rol ints m" "map_hash_look (ctrl m) = Map.empty" "uiCapacity (ctrl m) = 0"
    by (simp_all add: m map_hash.ready_def map_hash_inv_def hash_for_def map_cmp_hashes map_hash_look_def nodes_map_def)
qed

end
