(* ===== verification/MapList.thy ===== *)
theory MapList
  imports MapCtrl
begin

text \<open>
  The list map of \<^verbatim>\<open>map/map_list.c\<close>: an implementation of \<^verbatim>\<open>MAP_FUNC_S\<close> on a doubly linked list that
  \<^verbatim>\<open>DLL_SortAdd\<close> keeps in the order of the keys (theory \<^theory_text>\<open>Dll\<close>: a ring of nodes as the list it stands for), so
  that a search stops at the first greater key. Freeing memory is not modelled.
\<close>

record 'd list_impl =
  list_nodes :: "'d map_node list"
  list_count :: UINT

type_synonym 'd map_list = "'d list_impl map_ctrl"

definition map_list_cmp :: "map_key \<Rightarrow> 'd map_node \<Rightarrow> int" where
  "map_list_cmp key n =
     (if uiKeyLen (pKey (stEle n)) = 0 then int_key_diff key (pKey (stEle n))
      else MEM_Cmp (kbytes key) (kbytes (pKey (stEle n))))"

definition map_list_cmp_list_node :: "'d map_node \<Rightarrow> 'd map_node \<Rightarrow> int" where
  "map_list_cmp_list_node n1 n2 =
     (if uiKeyLen (pKey (stEle n1)) = 0 then int_key_diff (pKey (stEle n1)) (pKey (stEle n2))
      else MEM_Cmp (kbytes (pKey (stEle n1))) (kbytes (pKey (stEle n2))))"

fun find_scan :: "map_key \<Rightarrow> 'd map_node list \<Rightarrow> 'd map_node option" where
  "find_scan key [] = None"
| "find_scan key (n # ns) =
     (let ret = map_list_cmp key n
      in if ret = 0 then Some n else if ret < 0 then None else find_scan key ns)"

definition map_list_find :: "'d map_list \<Rightarrow> map_key \<Rightarrow> 'd map_node option" where
  "map_list_find m key = find_scan key (list_nodes (impl_map m))"

definition map_list_next_dict :: "'d map_list \<Rightarrow> map_key \<Rightarrow> 'd map_node option" where
  "map_list_next_dict m key = find (\<lambda>n. map_list_cmp key n < 0) (list_nodes (impl_map m))"

definition map_list_add_check :: "'d map_list \<Rightarrow> map_key \<Rightarrow> UINT \<Rightarrow> bs_status" where
  "map_list_add_check m key flag =
     (if uiCapacity m \<noteq> 0 \<and> uiCapacity m \<le> list_count (impl_map m) then BS_NO_RESOURCE
      else if flag AND MAP_FLAG_PERMIT_DUPLICATE = 0 \<and> map_list_find m key \<noteq> None
      then BS_ALREADY_EXIST else BS_OK)"

text \<open>\<^verbatim>\<open>DLL_SortAdd\<close> inserts before the first node that is not less (lemma \<open>ring_SortAdd\<close> of \<^theory_text>\<open>Dll\<close>).\<close>

definition map_list_add_inner ::
  "map_env \<Rightarrow> 'd map_list \<Rightarrow> map_key \<Rightarrow> 'd option \<Rightarrow> 'd map_node \<Rightarrow> UINT \<Rightarrow> bs_status \<times> 'd map_list" where
  "map_list_add_inner env m key d n flag =
     (if flag AND MAP_FLAG_DUP_KEY \<noteq> 0 \<and> uiKeyLen key \<noteq> 0 \<and> \<not> key_alloc env then (BS_NO_MEMORY, m)
      else
        let dup = (flag AND MAP_FLAG_DUP_KEY \<noteq> 0 \<and> uiKeyLen key \<noteq> 0);
            n = n\<lparr>stEle := (stEle n)\<lparr>pKey := key, pData := d, dup_key := dup\<rparr>\<rparr>;
            l = impl_map m
        in (BS_OK, m\<lparr>impl_map :=
              l\<lparr>list_nodes := dll_ins (\<lambda>q. map_list_cmp_list_node n q \<le> 0) n (list_nodes l),
                list_count := list_count l + 1\<rparr>\<rparr>))"

definition map_list_add_node ::
  "map_env \<Rightarrow> 'd map_list \<Rightarrow> map_key \<Rightarrow> 'd option \<Rightarrow> 'd map_node \<Rightarrow> UINT \<Rightarrow> bs_status \<times> 'd map_list" where
  "map_list_add_node env m key d n flag =
     (let ret = map_list_add_check m key flag
      in if ret \<noteq> BS_OK then (ret, m)
         else map_list_add_inner env m key d (n\<lparr>stEle := (stEle n)\<lparr>link_alloced := False\<rparr>\<rparr>) flag)"

definition map_list_add ::
  "map_env \<Rightarrow> 'd map_list \<Rightarrow> map_key \<Rightarrow> 'd option \<Rightarrow> UINT \<Rightarrow> bs_status \<times> 'd map_list" where
  "map_list_add env m key d flag =
     (let ret = map_list_add_check m key flag
      in if ret \<noteq> BS_OK then (ret, m)
         else case node_alloc env of
                None \<Rightarrow> (BS_NO_MEMORY, m)
              | Some a \<Rightarrow> map_list_add_inner env m key d
                  \<lparr>addr = a, stEle = \<lparr>pKey = key, pData = None, dup_key = False, link_alloced = True\<rparr>\<rparr> flag)"

definition map_list_get_ele :: "'d map_list \<Rightarrow> map_key \<Rightarrow> 'd map_node option" where
  "map_list_get_ele m key = map_list_find m key"

definition map_list_get :: "'d map_list \<Rightarrow> map_key \<Rightarrow> 'd option" where
  "map_list_get m key = (case map_list_find m key of None \<Rightarrow> None | Some n \<Rightarrow> pData (stEle n))"

definition map_list_del_node :: "'d map_list \<Rightarrow> 'd map_node \<Rightarrow> 'd option \<times> 'd map_list" where
  "map_list_del_node m n =
     (let l = impl_map m
      in (pData (stEle n),
          m\<lparr>impl_map := l\<lparr>list_nodes := del_first (\<lambda>x. x = n) (list_nodes l), list_count := list_count l - 1\<rparr>\<rparr>))"

definition map_list_del_by_ele :: "'d map_list \<Rightarrow> 'd map_node \<Rightarrow> 'd option \<times> 'd map_list" where
  "map_list_del_by_ele m n = map_list_del_node m n"

definition map_list_del :: "'d map_list \<Rightarrow> map_key \<Rightarrow> 'd option \<times> 'd map_list" where
  "map_list_del m key = (case map_list_find m key of None \<Rightarrow> (None, m) | Some n \<Rightarrow> map_list_del_node m n)"

definition map_list_del_all :: "'d map_list \<Rightarrow> ('d option \<Rightarrow> 's \<Rightarrow> 's) option \<Rightarrow> 's \<Rightarrow> 'd map_list \<times> 's" where
  "map_list_del_all m func s =
     (m\<lparr>impl_map := \<lparr>list_nodes = [], list_count = 0\<rparr>\<rparr>,
      case func of None \<Rightarrow> s | Some f \<Rightarrow> fold (\<lambda>n. f (pData (stEle n))) (list_nodes (impl_map m)) s)"

definition map_list_reset :: "'d map_list \<Rightarrow> ('d option \<Rightarrow> 's \<Rightarrow> 's) option \<Rightarrow> 's \<Rightarrow> 'd map_list \<times> 's" where
  "map_list_reset m func s = map_list_del_all m func s"

definition map_list_count :: "'d map_list \<Rightarrow> UINT" where
  "map_list_count m = list_count (impl_map m)"

fun walk_list :: "('n \<Rightarrow> 's \<Rightarrow> int \<times> 's) \<Rightarrow> 'n list \<Rightarrow> 's \<Rightarrow> 's" where
  "walk_list f [] s = s"
| "walk_list f (n # ns) s = (case f n s of (r, s') \<Rightarrow> if r < 0 then s' else walk_list f ns s')"

definition map_list_walk :: "'d map_list \<Rightarrow> ('d map_node \<Rightarrow> 's \<Rightarrow> int \<times> 's) \<Rightarrow> 's \<Rightarrow> 's" where
  "map_list_walk m f s = walk_list f (list_nodes (impl_map m)) s"

definition map_list_getnext :: "'d map_list \<Rightarrow> 'd map_node option \<Rightarrow> 'd map_node option" where
  "map_list_getnext m cur =
     (case cur of
        None \<Rightarrow> (case list_nodes (impl_map m) of [] \<Rightarrow> None | n # _ \<Rightarrow> Some n)
      | Some c \<Rightarrow> map_list_next_dict m (pKey (stEle c)))"

definition g_map_list_funcs :: "('d map_list, 'd, 's) map_funcs" where
  "g_map_list_funcs =
     \<lparr>reset_func = map_list_reset, add_node_func = map_list_add_node, del_node_func = map_list_del_node, add_func = map_list_add,
      get_ele_func = map_list_get_ele, get_func = map_list_get, del_func = map_list_del,
      del_by_ele_func = map_list_del_by_ele, del_all_func = map_list_del_all, count_func = map_list_count,
      walk_func = map_list_walk, getnext_func = map_list_getnext\<rparr>"

definition MAP_ListCreate :: "bool \<Rightarrow> bool \<Rightarrow> ('d list_impl, 'd, 's) map_handle option" where
  "MAP_ListCreate alloc_ctrl alloc_map =
     (if \<not> alloc_ctrl then None
      else if \<not> alloc_map then None
      else Some \<lparr>funcs = g_map_list_funcs, ctrl = \<lparr>impl_map = \<lparr>list_nodes = [], list_count = 0\<rparr>, uiCapacity = 0\<rparr>\<rparr>)"

section \<open>The list map keeps the contract\<close>

definition map_list_inv :: "bool \<Rightarrow> 'd map_list \<Rightarrow> bool" where
  [inv_defs]: "map_list_inv ints m \<longleftrightarrow> sorted_cmp node_cmp (list_nodes (impl_map m)) \<and>
     keys_distinct (list_nodes (impl_map m)) \<and> (\<forall>n\<in>set (list_nodes (impl_map m)). key_ok ints (pKey (stEle n))) \<and>
     list_count (impl_map m) = of_nat (length (list_nodes (impl_map m)))"

definition map_list_look :: "'d map_list \<Rightarrow> 'd kvmap" where
  "map_list_look m = nodes_map (list_nodes (impl_map m))"

lemma map_list_cmp:
  assumes "key_ok ints k" "key_ok ints (pKey (stEle n))"
  shows "map_list_cmp k n = val_cmp (keyval k) (node_val n)"
proof (cases ints)
  case True
  then show ?thesis
    using assms int_key_diff [of k "pKey (stEle n)"] val_cmp [OF assms] by (simp add: map_list_cmp_def key_ok_def)
next
  case False
  then show ?thesis using assms val_cmp [OF assms] by (simp add: map_list_cmp_def key_ok_def key_cmp_def)
qed

lemma map_list_cmp_list_node:
  assumes "key_ok ints (pKey (stEle a))" "key_ok ints (pKey (stEle b))"
  shows "map_list_cmp_list_node a b = node_cmp a b"
proof -
  have "uiKeyLen (pKey (stEle a)) = 0 \<longleftrightarrow> uiKeyLen (pKey (stEle b)) = 0"
    using assms by (simp add: key_ok_def split: if_splits)
  then have "map_list_cmp_list_node a b = map_list_cmp (pKey (stEle a)) b"
    by (simp add: map_list_cmp_list_node_def map_list_cmp_def)
  then show ?thesis using map_list_cmp [OF assms] by simp
qed

lemma find_scan_spec:
  assumes "sorted_cmp node_cmp ns" "\<forall>n\<in>set ns. key_ok ints (pKey (stEle n))" "key_ok ints k"
  shows "case find_scan k ns of
      None \<Rightarrow> keyval k \<notin> node_val ` set ns | Some n \<Rightarrow> n \<in> set ns \<and> node_val n = keyval k"
  using assms(1,2)
proof (induction ns)
  case (Cons n ns)
  have c: "map_list_cmp k n = val_cmp (keyval k) (node_val n)" using map_list_cmp [OF assms(3), of n] Cons.prems(2) by simp
  consider "map_list_cmp k n = 0" | "map_list_cmp k n < 0" | "map_list_cmp k n > 0" by linarith
  then show ?case
  proof cases
    case 1
    then show ?thesis using c val_cmp_eq_0 by simp
  next
    case 2
    have "keyval k \<noteq> node_val x" if "x \<in> set (n # ns)" for x
    proof
      assume k: "keyval k = node_val x"
      have "val_cmp (node_val n) (node_val x) \<le> 0"
        using that Cons.prems(1) cmp_refl [OF cmp_order_node_cmp, of n] by auto
      then show False using 2 c val_cmp_less [of "keyval k" "node_val n"] k by simp
    qed
    then show ?thesis using 2 by auto
  next
    case 3
    then have "keyval k \<noteq> node_val n" using c val_cmp_eq_0 [of "keyval k" "node_val n"] by linarith
    moreover have "case find_scan k ns of None \<Rightarrow> keyval k \<notin> node_val ` set ns
        | Some n \<Rightarrow> n \<in> set ns \<and> node_val n = keyval k"
      using Cons.IH Cons.prems by simp
    ultimately show ?thesis using 3 by (cases "find_scan k ns") simp_all
  qed
qed simp

lemma map_list_find_spec:
  assumes "map_list_inv ints m" "key_ok ints k"
  shows "case map_list_find m k of
      None \<Rightarrow> map_list_look m (keyval k) = None
    | Some n \<Rightarrow> n \<in> set (list_nodes (impl_map m)) \<and> node_val n = keyval k \<and> map_list_look m (keyval k) = Some (pData (stEle n))"
proof -
  let ?ns = "list_nodes (impl_map m)"
  have i: "sorted_cmp node_cmp ?ns" "keys_distinct ?ns" "\<forall>n\<in>set ?ns. key_ok ints (pKey (stEle n))"
    using assms(1) by (simp_all add: map_list_inv_def)
  show ?thesis
  proof (cases "map_list_find m k")
    case None
    then show ?thesis
      using find_scan_spec [OF i(1,3) assms(2)] by (simp add: map_list_find_def map_list_look_def nodes_map_None)
  next
    case (Some n)
    then have "n \<in> set ?ns" "node_val n = keyval k"
      using find_scan_spec [OF i(1,3) assms(2)] by (simp_all add: map_list_find_def)
    then show ?thesis using nodes_map_Some [OF i(2), of n] Some by (simp add: map_list_look_def)
  qed
qed

lemma map_list_card:
  "map_list_inv ints m \<Longrightarrow> list_count (impl_map m) = of_nat (card (dom (map_list_look m)))"
  by (simp add: map_list_inv_def map_list_look_def card_nodes_map)

lemma map_list_insert:
  assumes inv: "map_list_inv ints m" and k: "key_ok ints k" "map_list_look m (keyval k) = None" and n: "pKey (stEle n) = k"
  defines "m' \<equiv> m\<lparr>impl_map := (impl_map m)\<lparr>list_nodes :=
      dll_ins (\<lambda>q. map_list_cmp_list_node n q \<le> 0) n (list_nodes (impl_map m)),
      list_count := list_count (impl_map m) + 1\<rparr>\<rparr>"
  shows "map_list_inv ints m' \<and> map_list_look m' = (map_list_look m)(keyval k \<mapsto> pData (stEle n))"
proof -
  let ?ns = "list_nodes (impl_map m)"
  have i: "sorted_cmp node_cmp ?ns" "keys_distinct ?ns" "\<And>q. q \<in> set ?ns \<Longrightarrow> key_ok ints (pKey (stEle q))"
    using inv by (simp_all add: map_list_inv_def)
  have c: "map_list_cmp_list_node n q = node_cmp n q" if "q \<in> set ?ns" for q
    using map_list_cmp_list_node [of ints n q] i(3) [OF that] k n by simp
  have e: "dll_ins (\<lambda>q. map_list_cmp_list_node n q \<le> 0) n ?ns = dll_ins (\<lambda>q. node_cmp n q \<le> 0) n ?ns"
    unfolding dll_ins_def using c by (auto cong: takeWhile_cong dropWhile_cong)
  have s: "sorted_cmp node_cmp (dll_ins (\<lambda>q. node_cmp n q \<le> 0) n ?ns)"
    by (rule sorted_dll_ins [OF cmp_order_node_cmp i(1)]) (use cmp_flip [OF cmp_order_node_cmp] in blast)+
  have "nodes_map ?ns (node_val n) = None" using k(2) n by (simp add: map_list_look_def)
  moreover have ns': "list_nodes (impl_map m') = dll_ins (\<lambda>q. node_cmp n q \<le> 0) n ?ns"
    by (simp add: m'_def e)
  ultimately have "keys_distinct (list_nodes (impl_map m'))"
    "nodes_map (list_nodes (impl_map m')) = (nodes_map ?ns)(node_val n \<mapsto> pData (stEle n))"
    using nodes_map_add [of "list_nodes (impl_map m')" n ?ns] i(2) by simp_all
  moreover have "list_count (impl_map m') = of_nat (length (list_nodes (impl_map m')))"
    using inv by (simp add: m'_def map_list_inv_def)
  moreover have "\<forall>q\<in>set (list_nodes (impl_map m')). key_ok ints (pKey (stEle q))"
    using i(3) k(1) n by (simp add: ns')
  ultimately show ?thesis using s n by (simp add: map_list_inv_def map_list_look_def ns')
qed

lemma map_list_remove:
  assumes inv: "map_list_inv ints m" and n: "n \<in> set (list_nodes (impl_map m))"
  shows "map_list_inv ints (snd (map_list_del_node m n)) \<and>
    map_list_look (snd (map_list_del_node m n)) = (map_list_look m)(node_val n := None)"
proof -
  let ?ns = "list_nodes (impl_map m)" and ?ms = "del_first (\<lambda>x. x = n) (list_nodes (impl_map m))"
  have a: "mset ?ns = add_mset n (mset ?ms)" using mset_del_first [OF n, of "\<lambda>x. x = n"] n by simp
  then have "length ?ns = Suc (length ?ms)" by (metis size_add_mset size_mset)
  moreover have "set ?ms \<subseteq> set ?ns" using a by (metis set_mset_add_mset_insert set_mset_mset subset_insertI)
  moreover have i: "sorted_cmp node_cmp ?ns" "keys_distinct ?ns" "\<forall>q\<in>set ?ns. key_ok ints (pKey (stEle q))"
    "list_count (impl_map m) = of_nat (length ?ns)"
    using inv by (simp_all add: map_list_inv_def)
  moreover have "sorted_cmp node_cmp ?ms" by (rule sorted_wrt_del_first [OF i(1)])
  moreover have "keys_distinct ?ms" "nodes_map ?ms = (nodes_map ?ns)(node_val n := None)"
    using nodes_map_del [OF a i(2)] by simp_all
  ultimately show ?thesis
    unfolding map_list_inv_def map_list_look_def map_list_del_node_def Let_def
    by (simp add: subset_iff)
qed

lemma map_list_add_law:
  assumes inv: "map_list_inv ints m" and k: "key_ok ints k" and f: "flag AND MAP_FLAG_PERMIT_DUPLICATE = 0"
    and a: "map_list_add env m k d flag = (r, m')"
  shows "map_list_inv ints m' \<and> uiCapacity m' = uiCapacity m \<and>
    (r, map_list_look m') = spec_add (uiCapacity m) (map_list_look m) env k d flag"
proof -
  note cnt = map_list_card [OF inv]
  have look: "map_list_find m k = None \<longleftrightarrow> map_list_look m (keyval k) = None"
    using map_list_find_spec [OF inv k] by (auto split: option.splits)
  let ?full = "uiCapacity m \<noteq> 0 \<and> uiCapacity m \<le> of_nat (card (dom (map_list_look m)))"
  consider (full) ?full
    | (dup) "\<not> ?full" "map_list_look m (keyval k) \<noteq> None"
    | (mem) "\<not> ?full" "map_list_look m (keyval k) = None" "\<not> alloc_ok env k flag"
    | (ok) "\<not> ?full" "map_list_look m (keyval k) = None" "alloc_ok env k flag" by blast
  then show ?thesis
  proof cases
    case full
    then have "r = BS_NO_RESOURCE" "m' = m" using a cnt by (simp_all add: map_list_add_def map_list_add_check_def)
    then show ?thesis using full inv by (simp add: spec_add_def)
  next
    case dup
    then have "map_list_add_check m k flag = BS_ALREADY_EXIST"
      using f look by (simp only: map_list_add_check_def cnt) simp
    then have "r = BS_ALREADY_EXIST" "m' = m" using a by (simp_all add: map_list_add_def)
    then show ?thesis using dup inv by (simp only: spec_add_def) simp
  next
    case mem
    then have "map_list_add_check m k flag = BS_OK"
      using look by (simp only: map_list_add_check_def cnt) simp
    then have "r = BS_NO_MEMORY" "m' = m"
      using a mem(3) by (auto simp: map_list_add_def map_list_add_inner_def alloc_ok_def split: if_splits option.splits)
    then show ?thesis using mem inv by (simp only: spec_add_def) simp
  next
    case ok
    then obtain ad where ad: "node_alloc env = Some ad" by (auto simp: alloc_ok_def)
    let ?dup = "flag AND MAP_FLAG_DUP_KEY \<noteq> 0 \<and> uiKeyLen k \<noteq> 0"
    let ?n = "\<lparr>addr = ad, stEle = \<lparr>pKey = k, pData = d, dup_key = ?dup, link_alloced = True\<rparr>\<rparr>"
    have "map_list_add_check m k flag = BS_OK"
      using ok look by (simp only: map_list_add_check_def cnt) simp
    then have "r = BS_OK" "m' = m\<lparr>impl_map := (impl_map m)\<lparr>list_nodes :=
        dll_ins (\<lambda>q. map_list_cmp_list_node ?n q \<le> 0) ?n (list_nodes (impl_map m)),
        list_count := list_count (impl_map m) + 1\<rparr>\<rparr>"
      using a ad ok(3) by (auto simp: map_list_add_def map_list_add_inner_def alloc_ok_def Let_def split: if_splits)
    then show ?thesis
      using map_list_insert [OF inv k ok(2), of ?n] ok by (simp only: spec_add_def) simp
  qed
qed

lemma map_list_get_law:
  assumes "map_list_inv ints m" "key_ok ints k"
  shows "map_list_get m k = spec_get (map_list_look m) k"
  using map_list_find_spec [OF assms] by (auto simp: map_list_get_def spec_get_def split: option.splits)

lemma map_list_del_law:
  assumes inv: "map_list_inv ints m" "key_ok ints k" and d: "map_list_del m k = (d, m')"
  shows "map_list_inv ints m' \<and> uiCapacity m' = uiCapacity m \<and> d = spec_get (map_list_look m) k \<and>
    map_list_look m' = (map_list_look m)(keyval k := None)"
proof (cases "map_list_find m k")
  case None
  then have "d = None" "m' = m" "map_list_look m (keyval k) = None"
    using d map_list_find_spec [OF inv] by (simp_all add: map_list_del_def)
  then show ?thesis using inv by (simp add: spec_get_def fun_upd_idem)
next
  case (Some n)
  then have n: "n \<in> set (list_nodes (impl_map m))" "node_val n = keyval k"
    "map_list_look m (keyval k) = Some (pData (stEle n))"
    using map_list_find_spec [OF inv] by simp_all
  have "(d, m') = map_list_del_node m n" using d Some by (simp add: map_list_del_def)
  moreover have "uiCapacity (snd (map_list_del_node m n)) = uiCapacity m" "fst (map_list_del_node m n) = pData (stEle n)"
    by (simp_all add: map_list_del_node_def Let_def)
  ultimately have "m' = snd (map_list_del_node m n)" "uiCapacity m' = uiCapacity m" "d = pData (stEle n)"
    by (metis snd_conv fst_conv)+
  then show ?thesis using map_list_remove [OF inv(1) n(1)] n by (simp add: spec_get_def)
qed

lemma map_list_next_some:
  assumes i: "sorted_cmp node_cmp ns" and f: "find P ns = Some n"
  shows "n \<in> set ns \<and> P n \<and> (\<forall>x\<in>set ns. P x \<longrightarrow> node_cmp n x \<le> 0)"
  using i f cmp_refl [OF cmp_order_node_cmp] by (induction ns) (auto split: if_splits)

lemma map_list_getnext_law:
  assumes inv: "map_list_inv ints m" and cur: "\<And>n. cur = Some n \<Longrightarrow> key_ok ints (pKey (stEle n))"
  shows "spec_next (map_list_look m) cur (map_list_getnext m cur)"
proof -
  let ?ns = "list_nodes (impl_map m)"
  let ?P = "\<lambda>n. case cur of None \<Rightarrow> True | Some c \<Rightarrow> val_cmp (node_val n) (node_val c) > 0"
  have i: "sorted_cmp node_cmp ?ns" "keys_distinct ?ns" "\<forall>n\<in>set ?ns. key_ok ints (pKey (stEle n))"
    using inv by (simp_all add: map_list_inv_def)
  have "map_list_cmp (pKey (stEle c)) n < 0 \<longleftrightarrow> val_cmp (node_val n) (node_val c) > 0"
    if "cur = Some c" "n \<in> set ?ns" for n c
    using map_list_cmp [OF cur [OF that(1)], of n] i(3) that(2) val_cmp_less [of "node_val c" "node_val n"] by simp
  then have g: "map_list_getnext m cur = find ?P ?ns"
    by (cases cur; cases ?ns) (auto simp: map_list_getnext_def map_list_next_dict_def intro!: find_cong)
  have v: "vals_above (map_list_look m) cur = node_val ` {n \<in> set ?ns. ?P n}"
    unfolding vals_above_def map_list_look_def dom_nodes_map by auto
  show ?thesis
  proof (cases "find ?P ?ns")
    case None
    then have "{n \<in> set ?ns. ?P n} = {}" unfolding find_None_iff by blast
    then show ?thesis unfolding g None spec_next_def v by simp
  next
    case (Some n)
    then have "n \<in> set ?ns" "?P n" "\<forall>x\<in>set ?ns. ?P x \<longrightarrow> node_cmp n x \<le> 0"
      using map_list_next_some [OF i(1) Some] by blast+
    moreover have "map_list_look m (node_val n) = Some (pData (stEle n))"
      using nodes_map_Some [OF i(2) \<open>n \<in> set ?ns\<close>] by (simp add: map_list_look_def)
    ultimately show ?thesis unfolding g Some spec_next_def v by auto
  qed
qed

interpretation map_list: map_impl g_map_list_funcs ints "map_list_inv ints" map_list_look for ints
proof (unfold_locales, goal_cases)
  case 1
  then show ?case using map_list_add_law by (simp add: g_map_list_funcs_def)
next
  case 2
  then show ?case using map_list_get_law by (simp add: g_map_list_funcs_def)
next
  case (3 c k)
  then show ?case using map_list_find_spec [OF 3]
    by (auto simp: g_map_list_funcs_def map_list_get_ele_def split: option.splits)
next
  case 4
  then show ?case using map_list_del_law by (simp add: g_map_list_funcs_def)
next
  case (5 c)
  then show ?case using map_list_card [of ints c] by (simp add: g_map_list_funcs_def map_list_count_def)
next
  case 6
  then show ?case unfolding g_map_list_funcs_def map_funcs.simps by (rule map_list_getnext_law)
qed

lemma MAP_ListCreate_ready:
  assumes "MAP_ListCreate True True = Some m"
  shows "map_list.ready ints m" "map_list_look (ctrl m) = Map.empty" "uiCapacity (ctrl m) = 0"
  using assms by (auto simp: MAP_ListCreate_def map_list.ready_def map_list_inv_def map_list_look_def nodes_map_def)

end
