(* ===== verification/Maps.thy ===== *)
theory Maps
  imports MapHash MapList
begin

text \<open>
  What a client of \<^verbatim>\<open>utl/map_utl.h\<close> relies on, whichever implementation it created: the hash map and the list
  map answer every sequence of requests alike.
\<close>

text \<open>What \<^verbatim>\<open>HASH_CreateInstance\<close> returns: an empty table that hashes with the given function.\<close>

definition creates_empty :: "(UINT \<Rightarrow> ('d map_node \<Rightarrow> UINT) \<Rightarrow> 'd map_node hash option) \<Rightarrow> bool" where
  "creates_empty create \<longleftrightarrow>
     (\<forall>bn f h. create bn f = Some h \<longrightarrow> hash_ok h \<and> hash_list h = [] \<and> pfHashIndexFunc h = f)"

text \<open>What a client sees of an element.\<close>

abbreviation seen :: "'d map_node \<Rightarrow> (UINT + UCHAR list) \<times> 'd option" where
  "seen n \<equiv> (node_val n, pData (stEle n))"

lemma hash_map_start:
  assumes "MAP_HashCreate rol True True create p = Some m" "creates_empty create"
  shows "map_hash.ready rol ints (MAP_SetCapacity m cap)" "map_hash_look (ctrl (MAP_SetCapacity m cap)) = Map.empty"
    "uiCapacity (ctrl (MAP_SetCapacity m cap)) = cap"
proof -
  have "hash_ok h \<and> hash_list h = [] \<and> pfHashIndexFunc h = f" if "create bn f = Some h" for bn f h
    using assms(2) that by (simp add: creates_empty_def)
  note c = MAP_HashCreate_ready [OF assms(1) this]
  show "map_hash.ready rol ints (MAP_SetCapacity m cap)" "map_hash_look (ctrl (MAP_SetCapacity m cap)) = Map.empty"
    "uiCapacity (ctrl (MAP_SetCapacity m cap)) = cap"
    using c(1) [of _ ints] c(2) by (simp_all add: MAP_SetCapacity_def map_hash.ready_def map_hash_inv_def map_hash_look_def)
qed

lemma list_map_start:
  assumes "MAP_ListCreate True True = Some m"
  shows "map_list.ready ints (MAP_SetCapacity m cap)" "map_list_look (ctrl (MAP_SetCapacity m cap)) = Map.empty"
    "uiCapacity (ctrl (MAP_SetCapacity m cap)) = cap"
  using MAP_ListCreate_ready(1) [OF assms, of ints] MAP_ListCreate_ready(2,3) [OF assms]
  by (simp_all add: MAP_SetCapacity_def map_list.ready_def map_list_inv_def map_list_look_def)

section \<open>Properties\<close>


text \<open>A creation function, and the requests of an example.\<close>

definition create_example :: "UINT \<Rightarrow> ('d map_node \<Rightarrow> UINT) \<Rightarrow> 'd map_node hash option" where
  "create_example bn f =
     (if bn = 0 then None else Some (HASH_Init bn f \<lparr>mask = 0, uiNodeCount = 0, pfHashIndexFunc = f, pstBuckets = []\<rparr>))"

lemma creates_empty_example: "creates_empty create_example"
proof -
  have "hash_ok h \<and> hash_list h = [] \<and> pfHashIndexFunc h = f" if "create_example bn f = Some h"
    for bn and f :: "'d map_node \<Rightarrow> UINT" and h
    using that HASH_Init_ok [of bn "\<lparr>mask = 0, uiNodeCount = 0, pfHashIndexFunc = f, pstBuckets = []\<rparr>" f]
    by (auto simp: create_example_def HASH_Init_def split: if_splits)
  then show ?thesis unfolding creates_empty_def by blast
qed

definition ops_example :: "nat map_op list" where
  "ops_example = [OpAdd \<lparr>node_alloc = Some 1, key_alloc = True\<rparr> \<lparr>kptr = 0, kbytes = [1, 2]\<rparr> (Some 5) 0, OpCount]"

lemma create_example_Some: "\<exists>m. MAP_HashCreate rol True True create_example p = Some m"
  by (cases p) (auto simp: MAP_HashCreate_def create_example_def MAP_HASH_BUCKET_NUM_def)




text \<open>No sequence of requests makes a map with a capacity report more elements than its capacity.\<close>

theorem MAP_capacity_kept:
  assumes "MAP_HashCreate rol True True create p = Some mh" "creates_empty create" "MAP_ListCreate True True = Some ml"
    and "cap \<noteq> 0" "list_all (op_ok ints) ps"
  shows "MAP_Count (snd (map_run ps (MAP_SetCapacity mh cap))) \<le> cap \<and>
    MAP_Count (snd (map_run ps (MAP_SetCapacity ml cap))) \<le> cap"
proof -
  note h = hash_map_start [OF assms(1,2)] and l = list_map_start [OF assms(3)]
  show ?thesis
    using map_hash.run_capacity [OF h(1) assms(5) surjective_pairing _ _ h(3) assms(4)]
      map_list.run_capacity [OF l(1) assms(5) surjective_pairing _ _ l(3) assms(4)] h(2) l(2) by simp
qed

end
