(* ===== verification/Acsmx.thy ===== *)
theory Acsmx
  imports Prelude "HOL-Library.Sublist"
begin

text \<open>
  The Aho-Corasick matcher of \<^verbatim>\<open>ac/ac_smx.c\<close>: patterns are collected, compiled into a state table (a trie, failure
  links by a breadth-first pass, then a full transition table), and texts are searched chunk by chunk.

  States are the indexes of the table, \<^verbatim>\<open>ACSM_FAIL_STATE\<close> is \<open>None\<close>. The singly linked lists of patterns are lists, and a
  pattern's user data is an index into the store of \<open>ref_count\<close> and \<open>uids\<close>. The queue of \<^verbatim>\<open>sque_utl.c\<close> is the list that it
  refines (theory \<^theory_text>\<open>SQue\<close>), with pushes that succeed: the code ignores a failed push. A failed allocation in
  \<^verbatim>\<open>acsmx_CopyMatchListEntry\<close> ends the program and is not modelled. The counts are far below \<open>2 ^ 31\<close>.
\<close>

record acsmx_pattern =
  patrn :: "UCHAR list"
  udata :: nat

record acsmx_state =
  NextState :: "UCHAR \<Rightarrow> nat option"
  FailState :: nat
  MatchList :: "acsmx_pattern list"

record 'i acsmx =
  acsmMaxStates :: nat
  acsmNumStates :: nat
  acsmPatterns :: "acsmx_pattern list"
  acsmStateTable :: "acsmx_state list option"
  numPatterns :: nat
  ref_count :: "nat \<Rightarrow> nat"
  uids :: "nat \<Rightarrow> 'i option"

definition alphabet :: "UCHAR list" where
  "alphabet = map of_nat [0..<256]"

section \<open>The trie\<close>

definition acsmx_AddMatchListEntry ::
  "bool list \<Rightarrow> acsmx_state list \<Rightarrow> nat \<Rightarrow> acsmx_pattern \<Rightarrow> bs_status \<times> acsmx_state list \<times> bool list" where
  "acsmx_AddMatchListEntry al T state px =
     (case mem_ask al of
        (False, al') \<Rightarrow> (BS_NO_MEMORY, T, al')
      | (True, al') \<Rightarrow> (BS_OK, T[state := (T ! state)\<lparr>MatchList := px # MatchList (T ! state)\<rparr>], al'))"

text \<open>The two loops of \<^verbatim>\<open>acsmx_AddPatternStates\<close>.\<close>

fun ac_descend :: "acsmx_state list \<Rightarrow> nat \<Rightarrow> UCHAR list \<Rightarrow> nat \<times> UCHAR list" where
  "ac_descend T state [] = (state, [])"
| "ac_descend T state (c # cs) =
     (case NextState (T ! state) c of
        None \<Rightarrow> (state, c # cs)
      | Some next \<Rightarrow> ac_descend T next cs)"

fun ac_extend :: "acsmx_state list \<Rightarrow> nat \<Rightarrow> nat \<Rightarrow> UCHAR list \<Rightarrow> acsmx_state list \<times> nat \<times> nat" where
  "ac_extend T num state [] = (T, num, state)"
| "ac_extend T num state (c # cs) =
     (let num = num + 1;
          T = T[state := (T ! state)\<lparr>NextState := (NextState (T ! state))(c \<mapsto> num)\<rparr>]
      in ac_extend T num num cs)"

definition acsmx_AddPatternStates ::
  "bool list \<Rightarrow> acsmx_state list \<Rightarrow> nat \<Rightarrow> acsmx_pattern \<Rightarrow> bs_status \<times> acsmx_state list \<times> nat \<times> bool list" where
  "acsmx_AddPatternStates al T num p =
     (case ac_descend T 0 (patrn p) of (state, rest) \<Rightarrow>
        case ac_extend T num state rest of (T, num, state) \<Rightarrow>
          case acsmx_AddMatchListEntry al T state p of (ret, T, al) \<Rightarrow> (ret, T, num, al))"

section \<open>Failure links\<close>

text \<open>The search for a state on the chain of failure links that has a transition. It need not end on an arbitrary table.\<close>

partial_function (option) fail_walk :: "acsmx_state list \<Rightarrow> nat \<Rightarrow> UCHAR \<Rightarrow> nat option" where
  "fail_walk T fs c =
     (case NextState (T ! fs) c of
        Some next \<Rightarrow> Some next
      | None \<Rightarrow> fail_walk T (FailState (T ! fs)) c)"

type_synonym nfa = "acsmx_state list \<times> nat list \<times> (nat \<Rightarrow> nat)"

definition nfa_char :: "nat \<Rightarrow> UCHAR \<Rightarrow> nfa \<Rightarrow> nfa option" where
  "nfa_char r c = (\<lambda>(T, queue, refs).
     case NextState (T ! r) c of
       None \<Rightarrow> Some (T, queue, refs)
     | Some s \<Rightarrow>
         (case fail_walk T (FailState (T ! r)) c of
            None \<Rightarrow> None
          | Some next \<Rightarrow>
              let T = T[s := (T ! s)\<lparr>FailState := next\<rparr>];
                  ms = MatchList (T ! next);
                  T = T[s := (T ! s)\<lparr>MatchList := rev ms @ MatchList (T ! s)\<rparr>]
              in Some (T, queue @ [s], fold (\<lambda>m refs. refs(udata m := refs (udata m) + 1)) ms refs)))"

fun nfa_row :: "nat \<Rightarrow> UCHAR list \<Rightarrow> nfa \<Rightarrow> nfa option" where
  "nfa_row r [] st = Some st"
| "nfa_row r (c # cs) st = (case nfa_char r c st of None \<Rightarrow> None | Some st' \<Rightarrow> nfa_row r cs st')"

partial_function (option) nfa_loop :: "nfa \<Rightarrow> nfa option" where
  "nfa_loop st =
     (case st of (T, queue, refs) \<Rightarrow>
        (case queue of
           [] \<Rightarrow> Some st
         | r # queue' \<Rightarrow>
             (case nfa_row r alphabet (T, queue', refs) of None \<Rightarrow> None | Some st' \<Rightarrow> nfa_loop st')))"

text \<open>The first loop of both passes: the states below the root.\<close>

definition root_kids :: "acsmx_state list \<Rightarrow> nat list" where
  "root_kids T = List.map_filter (\<lambda>c. case NextState (T ! 0) c of Some s \<Rightarrow> if s \<noteq> 0 then Some s else None | None \<Rightarrow> None) alphabet"

definition acsmx_BuildNfa :: "acsmx_state list \<Rightarrow> (nat \<Rightarrow> nat) \<Rightarrow> (acsmx_state list \<times> (nat \<Rightarrow> nat)) option" where
  "acsmx_BuildNfa T refs =
     (let T' = fold (\<lambda>s T. T[s := (T ! s)\<lparr>FailState := 0\<rparr>]) (root_kids T) T
      in map_option (\<lambda>(T, queue, refs). (T, refs)) (nfa_loop (T', root_kids T, refs)))"

section \<open>The transition table\<close>

definition dfa_char :: "nat \<Rightarrow> UCHAR \<Rightarrow> acsmx_state list \<times> nat list \<Rightarrow> acsmx_state list \<times> nat list" where
  "dfa_char r c = (\<lambda>(T, queue).
     case NextState (T ! r) c of
       Some s \<Rightarrow> (T, queue @ [s])
     | None \<Rightarrow>
         (T[r := (T ! r)\<lparr>NextState := (NextState (T ! r))(c := NextState (T ! FailState (T ! r)) c)\<rparr>], queue))"

partial_function (option) dfa_loop :: "acsmx_state list \<times> nat list \<Rightarrow> acsmx_state list option" where
  "dfa_loop st =
     (case st of (T, queue) \<Rightarrow>
        (case queue of
           [] \<Rightarrow> Some T
         | r # queue' \<Rightarrow> dfa_loop (fold (dfa_char r) alphabet (T, queue'))))"

definition acsmx_ConvertNfa2Dfa :: "acsmx_state list \<Rightarrow> acsmx_state list option" where
  "acsmx_ConvertNfa2Dfa T = dfa_loop (T, root_kids T)"

section \<open>The interface\<close>

definition ACSMX_New :: "bool \<Rightarrow> 'i acsmx option" where
  "ACSMX_New alloc =
     (if alloc then Some \<lparr>acsmMaxStates = 0, acsmNumStates = 0, acsmPatterns = [], acsmStateTable = None,
                          numPatterns = 0, ref_count = (\<lambda>_. 0), uids = (\<lambda>_. None)\<rparr>
      else None)"

text \<open>The user data of a pattern gets the next index of the store.\<close>

definition ACSMX_AddPattern :: "bool list \<Rightarrow> 'i acsmx \<Rightarrow> UCHAR list \<Rightarrow> 'i \<Rightarrow> bs_status \<times> 'i acsmx \<times> bool list" where
  "ACSMX_AddPattern al p pat uid =
     (case mem_ask al of
        (False, al) \<Rightarrow> (BS_NO_MEMORY, p, al)
      | (True, al) \<Rightarrow>
          (case mem_ask al of (a1, al) \<Rightarrow> case mem_ask al of (a2, al) \<Rightarrow>
             if \<not> a1 \<or> \<not> a2 then (BS_NO_MEMORY, p, al)
             else
               let u = numPatterns p
               in (BS_OK, p\<lparr>acsmPatterns := \<lparr>patrn = pat, udata = u\<rparr> # acsmPatterns p, numPatterns := u + 1,
                            ref_count := (ref_count p)(u := 1), uids := (uids p)(u := Some uid)\<rparr>, al)))"

fun add_all :: "bool list \<Rightarrow> acsmx_state list \<Rightarrow> nat \<Rightarrow> acsmx_pattern list \<Rightarrow> bs_status \<times> acsmx_state list \<times> nat" where
  "add_all al T num [] = (BS_OK, T, num)"
| "add_all al T num (p # ps) =
     (case acsmx_AddPatternStates al T num p of (ret, T, num, al) \<Rightarrow>
        if ret \<noteq> BS_OK then (ret, T, num) else add_all al T num ps)"

text \<open>The result is \<open>None\<close> if a pass over the table does not end.\<close>

definition ACSMX_Compile :: "bool list \<Rightarrow> 'i acsmx \<Rightarrow> (bs_status \<times> 'i acsmx) option" where
  "ACSMX_Compile al acsm =
     (let acsm = acsm\<lparr>acsmMaxStates := 1 + sum_list (map (\<lambda>p. length (patrn p)) (acsmPatterns acsm))\<rparr>
      in case mem_ask al of
           (False, al) \<Rightarrow> Some (BS_NO_MEMORY, acsm\<lparr>acsmStateTable := None\<rparr>)
         | (True, al) \<Rightarrow>
             let T = replicate (acsmMaxStates acsm) \<lparr>NextState = (\<lambda>_. None), FailState = 0, MatchList = []\<rparr>
             in case add_all al T 0 (acsmPatterns acsm) of (ret, T, num) \<Rightarrow>
                  if ret \<noteq> BS_OK then Some (ret, acsm\<lparr>acsmNumStates := num, acsmStateTable := Some T\<rparr>)
                  else
                    let T = T[0 := (T ! 0)\<lparr>NextState :=
                              (\<lambda>c. case NextState (T ! 0) c of None \<Rightarrow> Some 0 | Some s \<Rightarrow> Some s)\<rparr>]
                    in case acsmx_BuildNfa T (ref_count acsm) of
                         None \<Rightarrow> None
                       | Some (T, refs) \<Rightarrow>
                           (case acsmx_ConvertNfa2Dfa T of
                              None \<Rightarrow> None
                            | Some T \<Rightarrow> Some (BS_OK, acsm\<lparr>acsmNumStates := num, acsmStateTable := Some T,
                                                          ref_count := refs\<rparr>)))"

text \<open>The loop of \<^verbatim>\<open>ACSMX_Search\<close> from the byte at position \<open>i\<close>. The match function acts on the user's state.\<close>

fun search_loop ::
  "acsmx_state list \<Rightarrow> (acsmx_pattern list \<Rightarrow> int \<Rightarrow> 's \<Rightarrow> int \<times> 's) \<Rightarrow> nat \<Rightarrow> UCHAR list \<Rightarrow> nat \<times> int \<times> 's \<Rightarrow> nat \<times> int \<times> 's" where
  "search_loop T f i [] (state, nfound, s) = (state, nfound, s)"
| "search_loop T f i (c # cs) (state, nfound, s) =
     (let state = the (NextState (T ! state) c)
      in case MatchList (T ! state) of
           [] \<Rightarrow> search_loop T f (i + 1) cs (state, nfound, s)
         | mlist # rest \<Rightarrow>
             (case f (mlist # rest) (int i - int (length (patrn mlist)) + 1) s of
                (r, s) \<Rightarrow> if r > 0 then (state, nfound + 1, s) else search_loop T f (i + 1) cs (state, nfound + 1, s)))"

text \<open>The result is the number of hits with the new \<^verbatim>\<open>*current_state\<close>.\<close>

definition ACSMX_Search ::
  "'i acsmx \<Rightarrow> UCHAR list \<Rightarrow> (acsmx_pattern list \<Rightarrow> int \<Rightarrow> 's \<Rightarrow> int \<times> 's) \<Rightarrow> 's \<Rightarrow> nat \<Rightarrow> int \<times> nat \<times> 's" where
  "ACSMX_Search acsm Tx f s current_state =
     (case acsmStateTable acsm of
        None \<Rightarrow> (0, current_state, s)
      | Some T \<Rightarrow> (case search_loop T f 0 Tx (current_state, 0, s) of (state, nfound, s) \<Rightarrow> (nfound, state, s)))"

text \<open>\<^verbatim>\<open>ACSMX_Free\<close> as far as the client sees it: the identifiers handed to \<^verbatim>\<open>userfree\<close>, in order; \<open>None\<close> when it reads
  through a null table.\<close>

fun free_entries :: "acsmx_pattern list \<Rightarrow> (nat \<Rightarrow> nat) \<Rightarrow> nat list" where
  "free_entries [] refs = []"
| "free_entries (m # ms) refs =
     (let refs = refs(udata m := refs (udata m) - 1)
      in if refs (udata m) = 0 then udata m # free_entries ms refs else free_entries ms refs)"

definition ACSMX_Free :: "'i acsmx \<Rightarrow> 'i option list option" where
  "ACSMX_Free acsm =
     (case acsmStateTable acsm of
        None \<Rightarrow> if acsmMaxStates acsm = 0 then Some [] else None
      | Some T \<Rightarrow> Some (map (uids acsm) (free_entries (concat (map MatchList (take (acsmMaxStates acsm) T))) (ref_count acsm))))"

section \<open>The longest suffix in a set of words\<close>

fun suf :: "'a list set \<Rightarrow> 'a list \<Rightarrow> 'a list" where
  "suf S [] = []"
| "suf S (x # xs) = (if x # xs \<in> S then x # xs else suf S xs)"

definition closed :: "'a list set \<Rightarrow> bool" where
  "closed S \<longleftrightarrow> [] \<in> S \<and> (\<forall>w c. w @ [c] \<in> S \<longrightarrow> w \<in> S)"

lemma suf_in: "closed S \<Longrightarrow> suf S w \<in> S"
  by (induction w) (auto simp: closed_def)

lemma suf_suffix: "suffix (suf S w) w"
  by (induction w) (auto intro: suffix_ConsI)

lemma suf_longest: "suffix v w \<Longrightarrow> v \<in> S \<Longrightarrow> suffix v (suf S w)"
  by (induction w) (auto simp: suffix_Cons)

lemma suf_id: "w \<in> S \<Longrightarrow> suf S w = w"
  by (cases w) auto

lemma suf_snoc: "closed S \<Longrightarrow> suf S (suf S w @ [c]) = suf S (w @ [c])"
proof (induction w)
  case (Cons a w)
  then have "a # w \<notin> S \<Longrightarrow> (a # w) @ [c] \<notin> S" unfolding closed_def by blast
  then show ?case using Cons by auto
qed simp

lemma suf_tl_snoc: "w \<noteq> [] \<Longrightarrow> w @ [c] \<notin> S \<Longrightarrow> suf S (tl w @ [c]) = suf S (w @ [c])"
  by (cases w) auto

lemma length_suf: "length (suf S w) \<le> length w"
  using suf_suffix by (rule suffix_length_le)

lemma suffix_suf: "v \<in> S \<Longrightarrow> suffix v (suf S w) \<longleftrightarrow> suffix v w"
  using suf_longest suf_suffix suffix_order.order_trans by blast

lemma suffix_tl: "w \<noteq> [] \<Longrightarrow> suffix v w \<longleftrightarrow> v = w \<or> suffix v (tl w)"
  by (cases w) (auto simp: suffix_Cons)

section \<open>The trie and its words\<close>

text \<open>An update of one field of a state leaves the other fields of the table as they are.\<close>

lemma table_update_other [simp]:
  "NextState x = NextState (T ! s) \<Longrightarrow> NextState (T[s := x] ! r) = NextState (T ! r)"
  "FailState x = FailState (T ! s) \<Longrightarrow> FailState (T[s := x] ! r) = FailState (T ! r)"
  "MatchList x = MatchList (T ! s) \<Longrightarrow> MatchList (T[s := x] ! r) = MatchList (T ! r)"
  by (rule field_update_other, simp)+

text \<open>\<open>strs ! s\<close> is the word of state \<open>s\<close>.\<close>

definition trie_rep :: "acsmx_state list \<Rightarrow> nat \<Rightarrow> UCHAR list list \<Rightarrow> bool" where
  [inv_defs]: "trie_rep T num strs \<longleftrightarrow>
     length strs = Suc num \<and> num < length T \<and> distinct strs \<and> strs ! 0 = [] \<and> closed (set strs) \<and>
     (\<forall>s<length T. \<forall>c t. NextState (T ! s) c = Some t \<longleftrightarrow> s \<le> num \<and> t \<le> num \<and> strs ! t = strs ! s @ [c])"

lemma trie_row:
  "trie_rep T num strs \<Longrightarrow> s < length T \<Longrightarrow>
    NextState (T ! s) c = Some t \<longleftrightarrow> s \<le> num \<and> t \<le> num \<and> strs ! t = strs ! s @ [c]"
  by (simp add: trie_rep_def)

lemma trie_len: "trie_rep T num strs \<Longrightarrow> length strs = Suc num \<and> num < length T"
  by (simp add: trie_rep_def)

lemma ac_descend_rep:
  assumes "trie_rep T num strs" "s \<le> num" "ac_descend T s cs = (s', rest)"
  shows "s' \<le> num \<and> (\<exists>ds. cs = ds @ rest \<and> strs ! s' = strs ! s @ ds) \<and> (\<forall>c cs'. rest = c # cs' \<longrightarrow> NextState (T ! s') c = None)"
  using assms(2,3)
proof (induction cs arbitrary: s)
  case (Cons c cs)
  show ?case
  proof (cases "NextState (T ! s) c")
    case (Some t)
    then have t: "t \<le> num" "strs ! t = strs ! s @ [c]"
      using trie_row [OF assms(1), of s c t] trie_len [OF assms(1)] Cons.prems(1) by simp_all
    have "ac_descend T t cs = (s', rest)" using Cons.prems(2) Some by simp
    from Cons.IH [OF t(1) this] obtain ds where
      "s' \<le> num" "cs = ds @ rest" "strs ! s' = strs ! t @ ds" "\<forall>c cs'. rest = c # cs' \<longrightarrow> NextState (T ! s') c = None"
      by blast
    then show ?thesis using t(2) by auto
  qed (use Cons.prems in auto)
qed simp

lemma nth_mem_iff: "w \<in> set xs \<longleftrightarrow> (\<exists>i<length xs. xs ! i = w)"
  by (auto simp: in_set_conv_nth)

lemma trie_child:
  assumes T: "trie_rep T num strs" and s: "s \<le> num" "NextState (T ! s) c = None" and n: "Suc num < length T"
  shows "trie_rep (T[s := (T ! s)\<lparr>NextState := (NextState (T ! s))(c \<mapsto> num + 1)\<rparr>]) (num + 1) (strs @ [strs ! s @ [c]])"
proof -
  let ?w = "strs ! s @ [c]" and ?T = "T[s := (T ! s)\<lparr>NextState := (NextState (T ! s))(c \<mapsto> num + 1)\<rparr>]"
  have t: "length strs = Suc num" "num < length T" "distinct strs" "strs ! 0 = []" "closed (set strs)"
    and rows: "\<And>s c t. s < length T \<Longrightarrow> NextState (T ! s) c = Some t \<longleftrightarrow> s \<le> num \<and> t \<le> num \<and> strs ! t = strs ! s @ [c]"
    using T unfolding trie_rep_def by blast+
  have new: "?w \<notin> set strs"
  proof
    assume "?w \<in> set strs"
    then obtain i where "i < length strs" "strs ! i = ?w" unfolding nth_mem_iff by blast
    then have "i \<le> num" "strs ! i = ?w" using t(1) by simp_all
    then show False using rows [of s c i] s t(2) by simp
  qed
  have cl: "closed (set (strs @ [?w]))" using t(5,1) s(1) by (auto simp: closed_def)
  have "NextState (?T ! r) d = Some u \<longleftrightarrow> r \<le> num + 1 \<and> u \<le> num + 1 \<and> (strs @ [?w]) ! u = (strs @ [?w]) ! r @ [d]"
    if r: "r < length ?T" for r d u
  proof (cases "r \<le> num")
    case True
    have "(strs @ [?w]) ! u = strs ! r @ [d] \<longleftrightarrow> (if u = num + 1 then r = s \<and> d = c else strs ! u = strs ! r @ [d])"
      if "u \<le> num + 1"
    proof -
      have "strs ! s = strs ! r \<longleftrightarrow> s = r" using t(1,3) s(1) True by (simp add: nth_eq_iff_index_eq)
      then show ?thesis using that t(1) by (auto simp: nth_append)
    qed
    moreover have "(strs @ [?w]) ! r = strs ! r" using True t(1) by (simp add: nth_append)
    moreover have "strs ! u \<noteq> ?w" if "u \<le> num" using new that t(1) by (metis le_imp_less_Suc nth_mem)
    ultimately show ?thesis
      using rows [of r d u] True s t(2) by (cases "r = s"; cases "u = num + 1") auto
  next
    case False
    then have "(strs @ [?w]) ! u \<noteq> (strs @ [?w]) ! r @ [d]" if "r = num + 1" "u \<le> num + 1"
    proof -
      have "(strs @ [?w]) ! u \<noteq> ?w @ [d]"
      proof
        assume "(strs @ [?w]) ! u = ?w @ [d]"
        then have "?w @ [d] \<in> set (strs @ [?w])" using that(2) t(1) by (metis length_append_singleton less_Suc_eq_le nth_mem Suc_eq_plus1)
        then have "?w @ [d] \<in> set strs" by auto
        then show False using new t(5) unfolding closed_def by blast
      qed
      then show ?thesis using that(1) t(1) by (simp add: nth_append)
    qed
    then show ?thesis using rows [of r d u] False r s by (cases "r = num + 1") auto
  qed
  then show ?thesis using t new cl n unfolding trie_rep_def by (auto simp: nth_append)
qed

lemma ac_extend_rep:
  assumes "trie_rep T num strs" "s \<le> num" "\<forall>c cs'. cs = c # cs' \<longrightarrow> NextState (T ! s) c = None"
    "num + length cs < length T" "ac_extend T num s cs = (T', num', s')"
  shows "\<exists>ws. trie_rep T' num' (strs @ ws) \<and> num' = num + length cs \<and> s' \<le> num' \<and> (strs @ ws) ! s' = strs ! s @ cs \<and>
    (\<forall>w\<in>set ws. length w > length (strs ! s)) \<and> length T' = length T \<and>
    (\<forall>i. FailState (T' ! i) = FailState (T ! i) \<and> MatchList (T' ! i) = MatchList (T ! i))"
  using assms
proof (induction cs arbitrary: T num strs s)
  case (Cons c cs)
  let ?T = "T[s := (T ! s)\<lparr>NextState := (NextState (T ! s))(c \<mapsto> num + 1)\<rparr>]" and ?w = "strs ! s @ [c]"
  have l: "length strs = Suc num" using Cons.prems(1) by (simp add: trie_rep_def)
  have t: "trie_rep ?T (num + 1) (strs @ [?w])"
    by (rule trie_child [OF Cons.prems(1,2)]) (use Cons.prems(3,4) in simp_all)
  have "NextState (?T ! (num + 1)) d = None" for d
  proof -
    have "NextState (T ! (num + 1)) d \<noteq> Some u" for u
      using Cons.prems(1,4) unfolding trie_rep_def by auto
    then show ?thesis using Cons.prems(2) by (cases "NextState (T ! (num + 1)) d") auto
  qed
  then obtain ws where "trie_rep T' num' ((strs @ [?w]) @ ws)" "num' = num + 1 + length cs" "s' \<le> num'"
    "((strs @ [?w]) @ ws) ! s' = (strs @ [?w]) ! (num + 1) @ cs" "\<forall>w\<in>set ws. length w > length ((strs @ [?w]) ! (num + 1))"
    "length T' = length ?T" "\<forall>i. FailState (T' ! i) = FailState (?T ! i) \<and> MatchList (T' ! i) = MatchList (?T ! i)"
    using Cons.IH [OF t, of "num + 1"] Cons.prems(4,5) by auto
  moreover have "FailState (?T ! i) = FailState (T ! i) \<and> MatchList (?T ! i) = MatchList (T ! i)" for i
    using Cons.prems(2) trie_len [OF Cons.prems(1)] by (cases "i = s") simp_all
  moreover have "(strs @ [?w]) ! (num + 1) = ?w" using l by (simp add: nth_append)
  ultimately show ?case by (intro exI [of _ "?w # ws"]) auto
qed (auto simp: trie_rep_def)

text \<open>The match lists of the trie: each pattern is in the list of its own state.\<close>

definition own_rep :: "acsmx_state list \<Rightarrow> UCHAR list list \<Rightarrow> acsmx_pattern list \<Rightarrow> bool" where
  [inv_defs]: "own_rep T strs ps \<longleftrightarrow>
     (\<forall>s<length T. set (MatchList (T ! s)) = {p \<in> set ps. s < length strs \<and> patrn p = strs ! s}) \<and>
     mset (concat (map MatchList T)) = mset ps \<and> (\<forall>p\<in>set ps. patrn p \<in> set strs)"

lemma trie_rep_matches: "trie_rep T num strs \<Longrightarrow> trie_rep (T[s := (T ! s)\<lparr>MatchList := ms\<rparr>]) num strs"
  by (simp add: trie_rep_def)

lemma mset_matches_update:
  "s < length T \<Longrightarrow> mset (concat (map MatchList (T[s := (T ! s)\<lparr>MatchList := ms @ MatchList (T ! s)\<rparr>]))) =
    mset ms + mset (concat (map MatchList T))"
  using mset_concat_update [of s "map MatchList T" "ms @ MatchList (T ! s)"] by (simp add: map_update)

lemma own_rep_extend:
  assumes "own_rep T strs ps" "distinct (strs @ ws)" "length T' = length T" "\<And>i. MatchList (T' ! i) = MatchList (T ! i)"
  shows "own_rep T' (strs @ ws) ps"
proof -
  have m: "map MatchList T' = map MatchList T" using assms(3,4) by (intro nth_equalityI) simp_all
  have "s < length strs \<and> patrn p = strs ! s \<longleftrightarrow> s < length (strs @ ws) \<and> patrn p = (strs @ ws) ! s"
    if "p \<in> set ps" for p s
  proof -
    have "patrn p \<in> set strs" using assms(1) that by (simp add: own_rep_def)
    then have "patrn p \<notin> set ws" using assms(2) by auto
    then show ?thesis by (auto simp: nth_append)
  qed
  then show ?thesis using assms(1,3,4) m unfolding own_rep_def by auto
qed

lemma own_rep_add:
  assumes T: "own_rep T strs ps" "distinct strs" and s: "s < length strs" "s < length T" "strs ! s = patrn p"
  shows "own_rep (T[s := (T ! s)\<lparr>MatchList := p # MatchList (T ! s)\<rparr>]) strs (p # ps)"
proof -
  let ?T = "T[s := (T ! s)\<lparr>MatchList := p # MatchList (T ! s)\<rparr>]"
  have "set (MatchList (?T ! r)) = {q \<in> set (p # ps). r < length strs \<and> patrn q = strs ! r}" if "r < length ?T" for r
  proof -
    have "set (MatchList (T ! r)) = {q \<in> set ps. r < length strs \<and> patrn q = strs ! r}"
      using T(1) that by (simp add: own_rep_def)
    moreover have "r < length strs \<and> patrn p = strs ! r \<longleftrightarrow> r = s"
      using s T(2) by (metis nth_eq_iff_index_eq)
    ultimately show ?thesis using s(2) by (cases "r = s") auto
  qed
  moreover have "mset (concat (map MatchList ?T)) = mset (p # ps)"
    using mset_matches_update [OF s(2), of "[p]"] T(1) by (simp add: own_rep_def)
  moreover have "patrn p \<in> set strs" using s(1,3) nth_mem by metis
  then have "\<forall>q\<in>set (p # ps). patrn q \<in> set strs" using T(1) by (auto simp: own_rep_def)
  ultimately show ?thesis unfolding own_rep_def by blast
qed

lemma AddPatternStates_rep:
  assumes T: "trie_rep T num strs" "own_rep T strs ps" and b: "num + length (patrn p) < length T"
    and a: "acsmx_AddPatternStates al T num p = (BS_OK, T', num', al')"
  shows "\<exists>ws. trie_rep T' num' (strs @ ws) \<and> own_rep T' (strs @ ws) (p # ps) \<and>
    num' \<le> num + length (patrn p) \<and> length T' = length T"
proof -
  obtain s rest where d: "ac_descend T 0 (patrn p) = (s, rest)" by (meson surj_pair)
  obtain T1 num1 s1 where e: "ac_extend T num s rest = (T1, num1, s1)" by (metis surj_pair)
  from ac_descend_rep [OF T(1) _ d] obtain ds where s: "s \<le> num" "patrn p = ds @ rest" "strs ! s = strs ! 0 @ ds"
    and r: "\<forall>c cs'. rest = c # cs' \<longrightarrow> NextState (T ! s) c = None" by auto
  have "num + length rest < length T" using b s(2) by simp
  from ac_extend_rep [OF T(1) s(1) r this e] obtain ws where w: "trie_rep T1 num1 (strs @ ws)" "num1 = num + length rest"
    "s1 \<le> num1" "(strs @ ws) ! s1 = strs ! s @ rest" "length T1 = length T" "\<And>i. MatchList (T1 ! i) = MatchList (T ! i)"
    by blast
  have o: "own_rep T1 (strs @ ws) ps"
    by (rule own_rep_extend [OF T(2) _ w(5,6)]) (use w(1) in \<open>simp only: trie_rep_def\<close>)
  have "strs ! 0 = []" using T(1) by (simp add: trie_rep_def)
  then have p: "(strs @ ws) ! s1 = patrn p" using w(4) s by simp
  have T': "T' = T1[s1 := (T1 ! s1)\<lparr>MatchList := p # MatchList (T1 ! s1)\<rparr>]" "num' = num1"
    using a d e by (auto simp: acsmx_AddPatternStates_def acsmx_AddMatchListEntry_def split: prod.splits bool.splits)
  have l: "s1 < length (strs @ ws)" "s1 < length T1" "distinct (strs @ ws)"
    using trie_len [OF w(1)] w(1,3) by (simp_all only: trie_rep_def) simp_all
  have "own_rep T' (strs @ ws) (p # ps)" unfolding T' by (rule own_rep_add [OF o l(3,1,2) p])
  then show ?thesis using trie_rep_matches [OF w(1)] w(2,5) s(2) unfolding T' by (intro exI [of _ ws]) simp
qed

lemma add_all_rep:
  "trie_rep T num strs \<Longrightarrow> own_rep T strs qs \<Longrightarrow> num + sum_list (map (\<lambda>p. length (patrn p)) ps) < length T \<Longrightarrow>
    add_all al T num ps = (BS_OK, T', num') \<Longrightarrow>
    \<exists>strs'. trie_rep T' num' strs' \<and> own_rep T' strs' (rev ps @ qs) \<and> length T' = length T"
proof (induction ps arbitrary: al T num strs qs)
  case (Cons p ps)
  obtain T1 num1 al1 where a: "acsmx_AddPatternStates al T num p = (BS_OK, T1, num1, al1)"
    "add_all al1 T1 num1 ps = (BS_OK, T', num')"
    using Cons.prems(4) by (auto split: prod.splits if_splits)
  have "num + length (patrn p) < length T" using Cons.prems(3) by simp
  from AddPatternStates_rep [OF Cons.prems(1,2) this a(1)] obtain ws where
    w: "trie_rep T1 num1 (strs @ ws)" "own_rep T1 (strs @ ws) (p # qs)" "num1 \<le> num + length (patrn p)" "length T1 = length T"
    by blast
  show ?case using Cons.IH [OF w(1,2) _ a(2)] w(3,4) Cons.prems(3) by simp
qed auto

text \<open>An allocation that fails in the middle leaves the match lists of the patterns before it.\<close>

lemma ac_extend_matches: "ac_extend T num s cs = (T', num', s') \<Longrightarrow> map MatchList T' = map MatchList T"
proof (induction cs arbitrary: T num s)
  case (Cons c cs)
  have "map MatchList (T[s := (T ! s)\<lparr>NextState := f\<rparr>]) = map MatchList T" for f
    by (cases "s < length T") (simp_all add: map_update list_update_same_conv list_update_beyond not_less)
  then show ?case using Cons by (fastforce simp: Let_def)
qed simp

lemma mem_ask_cases: "mem_ask al = (b, al') \<Longrightarrow> (if b then al = True # al' \<or> al = [] \<and> al' = [] else al = False # al')"
  by (cases al) auto

lemma AddPatternStates_script:
  assumes "acsmx_AddPatternStates al T num p = (r, T', num', al')"
  shows "if r = BS_OK then al = True # al' \<or> al = [] \<and> al' = []
    else al = False # al' \<and> map MatchList T' = map MatchList T"
proof -
  obtain s rest where d: "ac_descend T 0 (patrn p) = (s, rest)" by (meson surj_pair)
  obtain T1 num1 s1 where e: "ac_extend T num s rest = (T1, num1, s1)" by (metis surj_pair)
  show ?thesis
    using assms d e mem_ask_cases [of al] ac_extend_matches [OF e]
    by (auto simp: acsmx_AddPatternStates_def acsmx_AddMatchListEntry_def split: prod.splits bool.splits)
qed

lemma add_all_fails:
  "trie_rep T num strs \<Longrightarrow> own_rep T strs qs \<Longrightarrow> num + sum_list (map (\<lambda>p. length (patrn p)) ps) < length T \<Longrightarrow>
    add_all al T num ps = (r, T', num') \<Longrightarrow> r \<noteq> BS_OK \<Longrightarrow>
    \<exists>k<length ps. (\<exists>rest. al = replicate k True @ False # rest) \<and>
      mset (concat (map MatchList T')) = mset (take k ps @ qs) \<and> length T' = length T"
proof (induction ps arbitrary: al T num strs qs)
  case (Cons p ps)
  obtain r1 T1 num1 al1 where a: "acsmx_AddPatternStates al T num p = (r1, T1, num1, al1)" by (metis surj_pair)
  note sc = AddPatternStates_script [OF a]
  show ?case
  proof (cases "r1 = BS_OK")
    case False
    then have "T' = T1" "al = False # al1" "map MatchList T1 = map MatchList T" using Cons.prems(4) a sc by simp_all
    moreover from this have "length T' = length T" using map_eq_imp_length_eq by blast
    ultimately show ?thesis using Cons.prems(2) by (intro exI [of _ 0]) (simp add: own_rep_def)
  next
    case True
    have add: "add_all al1 T1 num1 ps = (r, T', num')" using Cons.prems(4) a True by simp
    have "num + length (patrn p) < length T" using Cons.prems(3) by simp
    from AddPatternStates_rep [OF Cons.prems(1,2) this a [unfolded True]] obtain ws where
      w: "trie_rep T1 num1 (strs @ ws)" "own_rep T1 (strs @ ws) (p # qs)" "num1 \<le> num + length (patrn p)" "length T1 = length T"
      by blast
    have "num1 + sum_list (map (\<lambda>p. length (patrn p)) ps) < length T1" using w(3,4) Cons.prems(3) by simp
    from Cons.IH [OF w(1,2) this add Cons.prems(5)] obtain k rest where k: "k < length ps" "al1 = replicate k True @ False # rest"
      "mset (concat (map MatchList T')) = mset (take k ps @ p # qs)" "length T' = length T1" by blast
    have "al = True # al1" using sc True k(2) by auto
    then show ?thesis using k w(4) by (intro exI [of _ "Suc k"]) simp
  qed
qed simp

lemma trie_rep_empty:
  assumes "T = replicate n \<lparr>NextState = (\<lambda>_. None), FailState = 0, MatchList = []\<rparr>" "0 < n"
  shows "trie_rep T 0 [[]]" "own_rep T [[]] []"
  using assms by (auto simp: trie_rep_def own_rep_def closed_def)

section \<open>Breadth first\<close>

text \<open>\<open>P\<close> are the states taken from the queue, \<open>Q\<close> the queue: the queue is ordered by the length of the words, and a state
  has been entered when its parent has been taken.\<close>

definition bfs :: "UCHAR list list \<Rightarrow> nat list \<Rightarrow> nat list \<Rightarrow> bool" where
  [inv_defs]: "bfs strs P Q \<longleftrightarrow>
     distinct (P @ Q) \<and> (\<forall>s\<in>set (P @ Q). 0 < s \<and> s < length strs) \<and>
     (\<forall>s. 0 < s \<longrightarrow> s < length strs \<longrightarrow>
        s \<in> set (P @ Q) \<longleftrightarrow> butlast (strs ! s) = [] \<or> (\<exists>p\<in>set P. strs ! p = butlast (strs ! s))) \<and>
     sorted_wrt (\<lambda>a b. length (strs ! a) \<le> length (strs ! b) \<and> length (strs ! b) \<le> length (strs ! a) + 1) Q \<and>
     (\<forall>p\<in>set P. \<forall>q\<in>set Q. length (strs ! p) \<le> length (strs ! q))"

definition words :: "UCHAR list list \<Rightarrow> bool" where
  [inv_defs]: "words strs \<longleftrightarrow> distinct strs \<and> strs \<noteq> [] \<and> strs ! 0 = [] \<and> closed (set strs)"

lemma words_inj: "words strs \<Longrightarrow> i < length strs \<Longrightarrow> j < length strs \<Longrightarrow> strs ! i = strs ! j \<longleftrightarrow> i = j"
  by (simp add: words_def nth_eq_iff_index_eq)

lemma words_nonempty: "words strs \<Longrightarrow> 0 < s \<Longrightarrow> s < length strs \<Longrightarrow> strs ! s \<noteq> []"
  using words_inj [of strs s 0] by (auto simp: words_def)

lemma words_at: "w \<in> set strs \<Longrightarrow> \<exists>i<length strs. strs ! i = w"
  by (simp add: in_set_conv_nth)

lemma words_parent:
  assumes "words strs" "0 < s" "s < length strs"
  shows "\<exists>p<length strs. strs ! p = butlast (strs ! s) \<and> length (strs ! p) < length (strs ! s)"
proof -
  have ne: "strs ! s \<noteq> []" by (rule words_nonempty [OF assms])
  then have "butlast (strs ! s) @ [last (strs ! s)] \<in> set strs" using assms(3) by simp
  then have "butlast (strs ! s) \<in> set strs" using assms(1) unfolding words_def closed_def by blast
  then show ?thesis using words_at [of "butlast (strs ! s)" strs] ne by auto
qed

lemma bfs_entered:
  assumes w: "words strs" and b: "bfs strs P (r # Q)"
  shows "0 < s \<Longrightarrow> s < length strs \<Longrightarrow> length (strs ! s) \<le> length (strs ! r) \<Longrightarrow> s \<in> set (P @ r # Q)"
proof (induction "length (strs ! s)" arbitrary: s rule: less_induct)
  case less
  obtain p where p: "p < length strs" "strs ! p = butlast (strs ! s)" "length (strs ! p) < length (strs ! s)"
    using words_parent [OF w less.prems(1,2)] by blast
  have iff: "s \<in> set (P @ r # Q) \<longleftrightarrow> butlast (strs ! s) = [] \<or> (\<exists>p\<in>set P. strs ! p = butlast (strs ! s))"
    using b less.prems(1,2) unfolding bfs_def by blast
  show ?case
  proof (cases "p = 0")
    case True
    then show ?thesis using p(2) w iff by (simp add: words_def)
  next
    case False
    have "p \<in> set (P @ r # Q)" by (rule less.hyps [OF p(3)]) (use False p(1,3) less.prems(3) in simp_all)
    moreover have "p \<notin> set (r # Q)"
    proof
      assume "p \<in> set (r # Q)"
      then have "length (strs ! r) \<le> length (strs ! p)" using b by (auto simp: bfs_def)
      then show False using p(3) less.prems(3) by simp
    qed
    ultimately show ?thesis using iff p(2) by auto
  qed
qed

lemma bfs_taken:
  assumes "words strs" "bfs strs P (r # Q)" "0 < s" "s < length strs" "length (strs ! s) < length (strs ! r)"
  shows "s \<in> set P"
proof -
  have "s \<in> set (P @ r # Q)" using bfs_entered [OF assms(1-4)] assms(5) by simp
  moreover have "s \<notin> set (r # Q)" using assms(2,5) by (auto simp: bfs_def)
  ultimately show ?thesis by auto
qed

lemma bfs_end:
  assumes "words strs" "bfs strs P []" "0 < s" "s < length strs"
  shows "s \<in> set P"
  using assms(3,4)
proof (induction "length (strs ! s)" arbitrary: s rule: less_induct)
  case less
  obtain p where p: "p < length strs" "strs ! p = butlast (strs ! s)" "length (strs ! p) < length (strs ! s)"
    using words_parent [OF assms(1) less.prems] by blast
  have iff: "s \<in> set P \<longleftrightarrow> butlast (strs ! s) = [] \<or> (\<exists>p\<in>set P. strs ! p = butlast (strs ! s))"
    using assms(2) less.prems unfolding bfs_def by simp
  show ?case
  proof (cases "p = 0")
    case True
    then show ?thesis using p(2) assms(1) iff by (simp add: words_def)
  qed (use less.hyps [OF p(3)] p(1,2) iff in auto)
qed

definition kids_of :: "UCHAR list list \<Rightarrow> nat \<Rightarrow> nat list \<Rightarrow> bool" where
  "kids_of strs r ks \<longleftrightarrow> distinct ks \<and> set ks = {s. s < length strs \<and> (\<exists>c. strs ! s = strs ! r @ [c])}"

lemma sorted_level:
  "(\<And>x. x \<in> set xs \<Longrightarrow> length (strs ! x) = k) \<Longrightarrow>
    sorted_wrt (\<lambda>a b. length (strs ! a) \<le> length (strs ! b) \<and> length (strs ! b) \<le> length (strs ! a) + 1) xs"
  by (induction xs) auto

lemma bfs_start:
  assumes "words strs" "kids_of strs 0 ks"
  shows "bfs strs [] ks"
proof -
  have z: "strs ! 0 = []" "0 < length strs" using assms(1) by (auto simp: words_def)
  have k: "s \<in> set ks \<longleftrightarrow> s < length strs \<and> length (strs ! s) = 1" for s
    using assms(2) z by (auto simp: kids_of_def length_Suc_conv)
  have "s \<in> set ks \<longleftrightarrow> butlast (strs ! s) = []" if "0 < s" "s < length strs" for s
    using k that words_nonempty [OF assms(1) that] by (cases "strs ! s" rule: rev_cases) auto
  moreover have "0 < s" if "s \<in> set ks" for s using k [of s] that z by (cases s) auto
  moreover have "sorted_wrt (\<lambda>a b. length (strs ! a) \<le> length (strs ! b) \<and> length (strs ! b) \<le> length (strs ! a) + 1) ks"
    by (rule sorted_level) (use k in blast)
  moreover have "distinct ks" "\<forall>s\<in>set ks. s < length strs" using assms(2) k by (simp_all add: kids_of_def)
  ultimately show ?thesis unfolding bfs_def by auto
qed

lemma bfs_step:
  assumes w: "words strs" and b: "bfs strs P (r # Q)" and k: "kids_of strs r ks"
  shows "bfs strs (P @ [r]) (Q @ ks)"
proof -
  let ?L = "\<lambda>s. length (strs ! s)"
  have r: "0 < r" "r < length strs" "distinct (P @ r # Q)" "\<And>q. q \<in> set Q \<Longrightarrow> ?L r \<le> ?L q \<and> ?L q \<le> ?L r + 1"
    "\<And>p. p \<in> set P \<Longrightarrow> ?L p \<le> ?L r"
    using b by (simp_all add: bfs_def)
  have iff: "s \<in> set (P @ r # Q) \<longleftrightarrow> butlast (strs ! s) = [] \<or> (\<exists>p\<in>set P. strs ! p = butlast (strs ! s))"
    if "0 < s" "s < length strs" for s
    using b that unfolding bfs_def by blast
  have ks: "s \<in> set ks \<longleftrightarrow> 0 < s \<and> s < length strs \<and> strs ! s \<noteq> [] \<and> strs ! r = butlast (strs ! s)" for s
  proof -
    have p: "strs ! s \<noteq> [] \<Longrightarrow> 0 < s" using w by (cases s) (auto simp: words_def)
    have e: "(\<exists>c. v = u @ [c]) \<longleftrightarrow> v \<noteq> [] \<and> u = butlast v" for u v :: "UCHAR list"
      by (cases v rule: rev_cases) auto
    have "s \<in> set ks \<longleftrightarrow> s < length strs \<and> (\<exists>c. strs ! s = strs ! r @ [c])" using k by (simp add: kids_of_def)
    then show ?thesis unfolding e using p by blast
  qed
  have kl: "?L s = ?L r + 1" if "s \<in> set ks" for s
  proof -
    have "strs ! s \<noteq> []" "strs ! r = butlast (strs ! s)" using ks [THEN iffD1, OF that] by blast+
    then show ?thesis by (cases "strs ! s") simp_all
  qed
  have new: "s \<notin> set (P @ r # Q)" if "s \<in> set ks" for s
  proof
    assume "s \<in> set (P @ r # Q)"
    then have "strs ! r = [] \<or> (\<exists>p\<in>set P. strs ! p = strs ! r)" using iff [of s] ks [of s] that by simp
    moreover have "strs ! r \<noteq> []" by (rule words_nonempty [OF w r(1,2)])
    moreover have "p = r" if "p \<in> set P" "strs ! p = strs ! r" for p
      using words_inj [OF w, of p r] r(2) b that by (auto simp: bfs_def)
    ultimately show False using r(3) by auto
  qed
  have m: "s \<in> set ((P @ [r]) @ Q @ ks) \<longleftrightarrow> butlast (strs ! s) = [] \<or> (\<exists>p\<in>set (P @ [r]). strs ! p = butlast (strs ! s))"
    if "0 < s" "s < length strs" for s
  proof -
    have "s \<in> set ks \<longleftrightarrow> strs ! r = butlast (strs ! s)" using ks that words_nonempty [OF w that] by blast
    moreover have "s \<in> set ((P @ [r]) @ Q @ ks) \<longleftrightarrow> s \<in> set (P @ r # Q) \<or> s \<in> set ks" by auto
    moreover have "(\<exists>p\<in>set (P @ [r]). strs ! p = butlast (strs ! s)) \<longleftrightarrow>
        (\<exists>p\<in>set P. strs ! p = butlast (strs ! s)) \<or> strs ! r = butlast (strs ! s)" by auto
    ultimately show ?thesis using iff [OF that] by blast
  qed
  have "distinct ((P @ [r]) @ Q @ ks)" using r(3) new k by (auto simp: kids_of_def)
  moreover have "\<forall>s\<in>set ((P @ [r]) @ Q @ ks). 0 < s \<and> s < length strs" using b ks by (auto simp: bfs_def)
  moreover have "sorted_wrt (\<lambda>a b. ?L a \<le> ?L b \<and> ?L b \<le> ?L a + 1) (Q @ ks)"
    using b kl r(4) sorted_level [of ks strs] by (auto simp: bfs_def sorted_wrt_append)
  moreover have "\<forall>p\<in>set (P @ [r]). \<forall>q\<in>set (Q @ ks). ?L p \<le> ?L q"
    using r(4,5) kl by (fastforce intro: order_trans)
  ultimately show ?thesis unfolding bfs_def using m by blast
qed

lemma bfs_measure: "bfs strs P (r # Q) \<Longrightarrow> length P < length strs"
proof -
  assume b: "bfs strs P (r # Q)"
  then have "distinct (P @ [r])" "set (P @ [r]) \<subseteq> {..<length strs}" by (auto simp: bfs_def)
  then have "card (set (P @ [r])) \<le> card {..<length strs}" by (intro card_mono) auto
  then show ?thesis using \<open>distinct (P @ [r])\<close> by (metis card_lessThan distinct_card length_append_singleton less_eq_Suc_le)
qed

section \<open>The passes over the table\<close>

lemma alphabet: "set alphabet = UNIV" "distinct alphabet"
proof -
  have "c \<in> set alphabet" for c :: UCHAR
  proof -
    have "unat c < 256" using unat_lt2p [of c] by simp
    then have "of_nat (unat c) \<in> set alphabet" unfolding alphabet_def set_map by (intro imageI) simp
    then show ?thesis by simp
  qed
  then show "set alphabet = UNIV" by blast
  have "inj_on (of_nat :: nat \<Rightarrow> UCHAR) (set [0..<256])"
  proof (rule inj_onI)
    fix x y assume b: "x \<in> set [0..<256]" "y \<in> set [0..<256]" and e: "(of_nat x :: UCHAR) = of_nat y"
    have "unat (of_nat x :: UCHAR) = x" by (rule unat_of_nat_small) (use b in simp)
    moreover have "unat (of_nat y :: UCHAR) = y" by (rule unat_of_nat_small) (use b in simp)
    ultimately show "x = y" using e by metis
  qed
  then show "distinct alphabet" by (simp add: alphabet_def distinct_map)
qed

text \<open>The rows of the states in \<open>F\<close> are complete, the others are those of the trie.\<close>

definition rows :: "acsmx_state list \<Rightarrow> UCHAR list list \<Rightarrow> nat set \<Rightarrow> bool" where
  [inv_defs]: "rows T strs F \<longleftrightarrow> length strs \<le> length T \<and>
     (\<forall>s<length strs. \<forall>c t. NextState (T ! s) c = Some t \<longleftrightarrow>
        t < length strs \<and> strs ! t = (if s \<in> F then suf (set strs) (strs ! s @ [c]) else strs ! s @ [c]))"

lemma rows_iff:
  "rows T strs F \<Longrightarrow> s < length strs \<Longrightarrow> NextState (T ! s) c = Some t \<longleftrightarrow>
     t < length strs \<and> strs ! t = (if s \<in> F then suf (set strs) (strs ! s @ [c]) else strs ! s @ [c])"
  by (simp add: rows_def)

lemma rows_full:
  assumes "words strs" "rows T strs F" "s < length strs" "s \<in> F"
  shows "\<exists>t<length strs. NextState (T ! s) c = Some t \<and> strs ! t = suf (set strs) (strs ! s @ [c])"
proof -
  have "suf (set strs) (strs ! s @ [c]) \<in> set strs" using assms(1) suf_in by (auto simp: words_def)
  then obtain t where "t < length strs" "strs ! t = suf (set strs) (strs ! s @ [c])" using words_at by metis
  then show ?thesis using rows_iff [OF assms(2,3), of c t] assms(4) by auto
qed

lemma rows_none:
  assumes "rows T strs F" "s < length strs" "s \<notin> F" "NextState (T ! s) c = None"
  shows "strs ! s @ [c] \<notin> set strs"
proof
  assume "strs ! s @ [c] \<in> set strs"
  then obtain t where "t < length strs" "strs ! t = strs ! s @ [c]" using words_at by metis
  then show False using rows_iff [OF assms(1,2), of c t] assms(3,4) by simp
qed

lemma kids_of_filter:
  assumes "words strs" "\<And>c s. f c = Some s \<longleftrightarrow> s < length strs \<and> strs ! s = strs ! r @ [c]"
  shows "kids_of strs r (List.map_filter f alphabet)"
proof -
  have "distinct (List.map_filter f cs)" if "distinct cs" for cs
    using that
  proof (induction cs)
    case (Cons c cs)
    have "s \<notin> set (List.map_filter f cs)" if "f c = Some s" for s
    proof
      assume "s \<in> set (List.map_filter f cs)"
      then obtain d where "d \<in> set cs" "f d = Some s" by (auto simp: List.map_filter_def)
      then show False using assms(2) [of c s] assms(2) [of d s] that Cons.prems by auto
    qed
    then show ?case using Cons by (auto simp: map_filter_simps split: option.split)
  qed (simp add: map_filter_simps)
  moreover have "s \<in> set (List.map_filter f alphabet) \<longleftrightarrow> (\<exists>c. f c = Some s)" for s
    by (force simp: List.map_filter_def alphabet(1))
  ultimately show ?thesis unfolding kids_of_def using alphabet(2) assms(2) by blast
qed

lemma kids_of_row:
  "words strs \<Longrightarrow> rows T strs F \<Longrightarrow> r < length strs \<Longrightarrow> r \<notin> F \<Longrightarrow>
    kids_of strs r (List.map_filter (NextState (T ! r)) alphabet)"
  using rows_iff [of T strs F r] by (intro kids_of_filter) simp_all

lemma kids_of_root:
  assumes w: "words strs" and "rows T strs F" "0 \<in> F"
  shows "kids_of strs 0 (root_kids T)"
  unfolding root_kids_def
proof (rule kids_of_filter [OF w])
  fix c s
  have z: "0 < length strs" "strs ! 0 = []" using w by (auto simp: words_def)
  have r: "NextState (T ! 0) c = Some s \<longleftrightarrow> s < length strs \<and> strs ! s = suf (set strs) [c]" for s
    using rows_iff [OF assms(2) z(1), of c s] z assms(3) by simp
  have "s \<noteq> 0 \<longleftrightarrow> strs ! s \<noteq> []" if "s < length strs" using words_nonempty [OF w] that z by (cases s) auto
  moreover have "strs ! s = [c] \<Longrightarrow> s < length strs \<Longrightarrow> [c] \<in> set strs" by (metis nth_mem)
  ultimately have "NextState (T ! 0) c = Some s \<and> s \<noteq> 0 \<longleftrightarrow> s < length strs \<and> strs ! s = [c]"
    unfolding r by (auto split: if_splits)
  then show "(case NextState (T ! 0) c of None \<Rightarrow> None | Some s \<Rightarrow> if s \<noteq> 0 then Some s else None) = Some s \<longleftrightarrow>
      s < length strs \<and> strs ! s = strs ! 0 @ [c]"
    unfolding z by (auto split: option.splits if_splits)
qed

definition complete :: "acsmx_state list \<Rightarrow> UCHAR list list \<Rightarrow> acsmx_pattern list \<Rightarrow> nat \<Rightarrow> bool" where
  [inv_defs]: "complete T strs ps s \<longleftrightarrow>
     FailState (T ! s) < length strs \<and> strs ! FailState (T ! s) = suf (set strs) (tl (strs ! s)) \<and>
     set (MatchList (T ! s)) = {p \<in> set ps. suffix (patrn p) (strs ! s)}"

text \<open>The states in \<open>D\<close> have their failure link and all their matches, the others only their own patterns.\<close>

definition nfa_ok :: "acsmx_state list \<Rightarrow> UCHAR list list \<Rightarrow> acsmx_pattern list \<Rightarrow> nat set \<Rightarrow> bool" where
  [inv_defs]: "nfa_ok T strs ps D \<longleftrightarrow> rows T strs {0} \<and> MatchList (T ! 0) = [] \<and>
     (\<forall>s. 0 < s \<longrightarrow> s < length strs \<longrightarrow>
        (if s \<in> D then complete T strs ps s else set (MatchList (T ! s)) = {p \<in> set ps. patrn p = strs ! s}))"

text \<open>The reference counts count the entries of the match lists.\<close>

definition refs_ok :: "acsmx_state list \<Rightarrow> acsmx_pattern list \<Rightarrow> (nat \<Rightarrow> nat) \<Rightarrow> bool" where
  [inv_defs]: "refs_ok T ps refs \<longleftrightarrow> set (concat (map MatchList T)) = set ps \<and>
     (\<forall>u. refs u = size (filter_mset (\<lambda>m. udata m = u) (mset (concat (map MatchList T)))))"

definition pats_ok :: "UCHAR list list \<Rightarrow> acsmx_pattern list \<Rightarrow> bool" where
  "pats_ok strs ps \<longleftrightarrow> (\<forall>p\<in>set ps. patrn p \<noteq> [] \<and> patrn p \<in> set strs)"

lemma nfa_complete: "nfa_ok T strs ps D \<Longrightarrow> 0 < s \<Longrightarrow> s < length strs \<Longrightarrow> s \<in> D \<Longrightarrow> complete T strs ps s"
  by (simp add: nfa_ok_def)

lemma nfa_fail:
  assumes "nfa_ok T strs ps D" "0 < s" "s < length strs" "s \<in> D"
  shows "FailState (T ! s) < length strs" "strs ! FailState (T ! s) = suf (set strs) (tl (strs ! s))"
  using nfa_complete [OF assms] by (simp_all add: complete_def)

lemma rows_cong: "length T' = length T \<Longrightarrow> (\<And>i. NextState (T' ! i) = NextState (T ! i)) \<Longrightarrow> rows T' strs F = rows T strs F"
  by (simp add: rows_def)

lemma fold_refs:
  "fold (\<lambda>m refs. refs(udata m := refs (udata m) + 1)) ms refs u =
    (refs u :: nat) + size (filter_mset (\<lambda>m. udata m = u) (mset ms))"
  by (induction ms arbitrary: refs) auto

lemma refs_ok_update:
  assumes "refs_ok T ps refs" "s < length T" "set ms \<subseteq> set ps"
  shows "refs_ok (T[s := (T ! s)\<lparr>MatchList := rev ms @ MatchList (T ! s)\<rparr>]) ps
    (fold (\<lambda>m refs. refs(udata m := refs (udata m) + 1)) ms refs)"
proof -
  note m = mset_matches_update [OF assms(2), of "rev ms"]
  have "set (concat (map MatchList (T[s := (T ! s)\<lparr>MatchList := rev ms @ MatchList (T ! s)\<rparr>]))) =
      set (rev ms) \<union> set (concat (map MatchList T))"
    using arg_cong [OF m, of set_mset] by (simp only: set_mset_mset set_mset_union)
  then show ?thesis using assms(1,3) unfolding refs_ok_def m fold_refs by auto
qed

lemma fail_walk_suf:
  assumes w: "words strs" and T: "nfa_ok T strs ps D"
  shows "fs < length strs \<Longrightarrow> (\<And>s. 0 < s \<Longrightarrow> s < length strs \<Longrightarrow> length (strs ! s) \<le> length (strs ! fs) \<Longrightarrow> s \<in> D) \<Longrightarrow>
    \<exists>t<length strs. fail_walk T fs c = Some t \<and> strs ! t = suf (set strs) (strs ! fs @ [c])"
proof (induction "length (strs ! fs)" arbitrary: fs rule: less_induct)
  case less
  have R: "rows T strs {0}" using T by (simp add: nfa_ok_def)
  have cl: "closed (set strs)" using w by (simp add: words_def)
  show ?case
  proof (cases "fs = 0")
    case True
    then show ?thesis using rows_full [OF w R less.prems(1), of c] by (auto simp: fail_walk.simps)
  next
    case fs: False
    show ?thesis
    proof (cases "NextState (T ! fs) c")
      case (Some t)
      then have t: "t < length strs" "strs ! t = strs ! fs @ [c]" using rows_iff [OF R less.prems(1), of c t] fs by simp_all
      then have "strs ! fs @ [c] \<in> set strs" by (metis nth_mem)
      from suf_id [OF this] show ?thesis using t Some by (auto simp: fail_walk.simps)
    next
      case None
      let ?g = "FailState (T ! fs)" and ?v = "strs ! fs"
      have ne: "?v \<noteq> []" using words_nonempty [OF w] fs less.prems(1) by simp
      have "fs \<in> D" using less.prems(2) [of fs] fs less.prems(1) by simp
      then have g: "?g < length strs" "strs ! ?g = suf (set strs) (tl ?v)"
        using nfa_fail [OF T] fs less.prems(1) by simp_all
      have l: "length (strs ! ?g) < length ?v"
        using length_suf [of "set strs" "tl ?v"] ne unfolding g(2) by (cases ?v) auto
      obtain t where "t < length strs" "fail_walk T ?g c = Some t" "strs ! t = suf (set strs) (strs ! ?g @ [c])"
        using less.hyps [OF l g(1)] less.prems(2) l by force
      moreover have "suf (set strs) (strs ! ?g @ [c]) = suf (set strs) (?v @ [c])"
        unfolding g(2) suf_snoc [OF cl] by (rule suf_tl_snoc [OF ne rows_none [OF R less.prems(1) _ None]]) (use fs in simp)
      moreover have "fail_walk T fs c = fail_walk T ?g c" using None by (simp add: fail_walk.simps [of T fs])
      ultimately show ?thesis by metis
    qed
  qed
qed

lemma matches_at:
  assumes "nfa_ok T strs ps D" "pats_ok strs ps" "s < length strs" "s = 0 \<or> s \<in> D" "strs ! 0 = []"
  shows "set (MatchList (T ! s)) = {p \<in> set ps. suffix (patrn p) (strs ! s)}"
proof (cases "s = 0")
  case False
  then have "complete T strs ps s" using nfa_complete [OF assms(1) _ assms(3)] assms(4) by simp
  then show ?thesis by (simp add: complete_def)
qed (use assms in \<open>auto simp: nfa_ok_def pats_ok_def\<close>)

lemma nfa_char_kid:
  assumes w: "words strs" and ps: "pats_ok strs ps" and T: "nfa_ok T strs ps D" and r: "0 < r" "r < length strs"
    and D: "\<And>s. 0 < s \<Longrightarrow> s < length strs \<Longrightarrow> length (strs ! s) \<le> length (strs ! r) \<Longrightarrow> s \<in> D"
    and s: "NextState (T ! r) c = Some s" "s \<notin> D" and refs: "refs_ok T ps refs"
  shows "\<exists>T' refs'. nfa_char r c (T, q, refs) = Some (T', q @ [s], refs') \<and> nfa_ok T' strs ps (insert s D) \<and>
    refs_ok T' ps refs' \<and> length T' = length T \<and> (\<forall>i. NextState (T' ! i) = NextState (T ! i))"
proof -
  have R: "rows T strs {0}" and M0: "MatchList (T ! 0) = []" using T by (simp_all add: nfa_ok_def)
  have st: "s < length strs" "strs ! s = strs ! r @ [c]" using rows_iff [OF R r(2), of c s] s(1) r(1) by simp_all
  have sT: "s < length T" using st(1) R by (simp add: rows_def)
  have z: "strs ! 0 = []" "closed (set strs)" using w by (simp_all add: words_def)
  have s0: "0 < s" using st(2) z by (cases s) auto
  have ne: "strs ! r \<noteq> []" "strs ! s \<noteq> []" using words_nonempty [OF w r] st(2) by simp_all
  have tl: "tl (strs ! s) = tl (strs ! r) @ [c]" using st(2) ne by simp
  have "r \<in> D" using D r by simp
  then have f: "FailState (T ! r) < length strs" "strs ! FailState (T ! r) = suf (set strs) (tl (strs ! r))"
    using nfa_fail [OF T r] by simp_all
  have fl: "length (strs ! FailState (T ! r)) < length (strs ! r)"
    using length_suf [of "set strs" "tl (strs ! r)"] ne(1) unfolding f(2) by (cases "strs ! r") auto
  have cov: "x \<in> D" if "0 < x" "x < length strs" "length (strs ! x) \<le> length (strs ! FailState (T ! r))" for x
    using D [OF that(1,2)] that(3) fl by simp
  obtain t where t: "t < length strs" "fail_walk T (FailState (T ! r)) c = Some t"
    "strs ! t = suf (set strs) (strs ! FailState (T ! r) @ [c])"
    using fail_walk_suf [OF w T f(1) cov] by blast
  have ts: "strs ! t = suf (set strs) (tl (strs ! s))" unfolding t(3) f(2) suf_snoc [OF z(2)] tl ..
  have tr: "length (strs ! t) \<le> length (strs ! r)"
    using length_suf [of "set strs" "tl (strs ! s)"] ne unfolding ts tl by (cases "strs ! r") auto
  then have tD: "t = 0 \<or> t \<in> D" using D t(1) by blast
  have tns: "t \<noteq> s" using tr st(2) by auto
  let ?ms = "MatchList (T ! t)" and ?T1 = "T[s := (T ! s)\<lparr>FailState := t\<rparr>]"
  let ?T' = "?T1[s := (?T1 ! s)\<lparr>MatchList := rev ?ms @ MatchList (?T1 ! s)\<rparr>]"
  let ?refs = "fold (\<lambda>m refs. refs(udata m := refs (udata m) + 1)) ?ms refs"
  have e: "nfa_char r c (T, q, refs) = Some (?T', q @ [s], ?refs)"
    by (simp add: nfa_char_def s(1) t(2) Let_def)
  have own: "set (MatchList (T ! s)) = {p \<in> set ps. patrn p = strs ! s}" using T s0 st(1) s(2) by (simp add: nfa_ok_def)
  have m: "set ?ms = {p \<in> set ps. suffix (patrn p) (tl (strs ! s))}"
    using matches_at [OF T ps t(1) tD z(1)] ps suffix_suf [of _ "set strs" "tl (strs ! s)"]
    unfolding ts pats_ok_def by blast
  have new: "FailState (?T' ! s) = t" "MatchList (?T' ! s) = rev ?ms @ MatchList (T ! s)" using sT by simp_all
  have "complete ?T' strs ps s"
    unfolding complete_def new set_append set_rev m own using ts t(1) suffix_tl [OF ne(2)] by blast
  moreover have o: "?T' ! x = T ! x" if "x \<noteq> s" for x using that by simp
  moreover have "rows ?T' strs {0}" using R by (subst rows_cong [of _ T]) simp_all
  moreover have "MatchList (?T' ! 0) = []" using M0 s0 by simp
  moreover have "complete ?T' strs ps x \<longleftrightarrow> complete T strs ps x" if "x \<noteq> s" for x
    unfolding complete_def o [OF that] ..
  ultimately have "nfa_ok ?T' strs ps (insert s D)"
    using T unfolding nfa_ok_def by (metis (no_types, lifting) insert_iff)
  moreover have "refs_ok ?T1 ps refs"
  proof -
    have m: "map MatchList ?T1 = map MatchList T" by (intro nth_equalityI) simp_all
    show ?thesis using refs unfolding refs_ok_def m by blast
  qed
  then have "refs_ok ?T' ps ?refs" by (rule refs_ok_update) (use sT m in auto)
  ultimately show ?thesis unfolding e by (intro exI [of _ ?T'] exI [of _ ?refs]) simp
qed

lemma nfa_row_ok:
  assumes w: "words strs" and ps: "pats_ok strs ps" and r: "0 < r" "r < length strs"
  shows "nfa_ok T strs ps D \<Longrightarrow> refs_ok T ps refs \<Longrightarrow> distinct cs \<Longrightarrow>
    (\<And>s. 0 < s \<Longrightarrow> s < length strs \<Longrightarrow> length (strs ! s) \<le> length (strs ! r) \<Longrightarrow> s \<in> D) \<Longrightarrow>
    (\<And>c s. c \<in> set cs \<Longrightarrow> NextState (T ! r) c = Some s \<Longrightarrow> s \<notin> D) \<Longrightarrow>
    \<exists>T' refs'. nfa_row r cs (T, q, refs) = Some (T', q @ List.map_filter (NextState (T ! r)) cs, refs') \<and>
      nfa_ok T' strs ps (D \<union> set (List.map_filter (NextState (T ! r)) cs)) \<and> refs_ok T' ps refs' \<and>
      length T' = length T"
proof (induction cs arbitrary: T q refs D)
  case (Cons c cs)
  have d: "distinct cs" "c \<notin> set cs" using Cons.prems(3) by simp_all
  show ?case
  proof (cases "NextState (T ! r) c")
    case None
    then have "nfa_char r c (T, q, refs) = Some (T, q, refs)" by (simp add: nfa_char_def)
    moreover have "s' \<notin> D" if "c' \<in> set cs" "NextState (T ! r) c' = Some s'" for c' s'
      using Cons.prems(5) [of c' s'] that by simp
    ultimately show ?thesis
      using Cons.IH [OF Cons.prems(1,2) d(1) Cons.prems(4), where q = q] None by (simp add: map_filter_simps)
  next
    case (Some s)
    have nD: "s \<notin> D" using Cons.prems(5) [of c s] Some by simp
    from nfa_char_kid [OF w ps Cons.prems(1) r Cons.prems(4) Some nD Cons.prems(2)] obtain T1 refs1 where
      one: "nfa_char r c (T, q, refs) = Some (T1, q @ [s], refs1)" "nfa_ok T1 strs ps (insert s D)" "refs_ok T1 ps refs1"
        "length T1 = length T" "\<And>i. NextState (T1 ! i) = NextState (T ! i)" by blast
    have R: "rows T strs {0}" using Cons.prems(1) by (simp add: nfa_ok_def)
    have "u \<notin> insert s D" if u: "e \<in> set cs" "NextState (T1 ! r) e = Some u" for e u
    proof -
      have u': "NextState (T ! r) e = Some u" using u(2) one(5) by simp
      have "strs ! u = strs ! r @ [e]" "strs ! s = strs ! r @ [c]"
        using rows_iff [OF R r(2), of e u] rows_iff [OF R r(2), of c s] u' Some r(1) by simp_all
      then have "u \<noteq> s" using u(1) d(2) by auto
      then show ?thesis using Cons.prems(5) [of e u] u' u(1) by simp
    qed
    then obtain T' refs' where "nfa_row r cs (T1, q @ [s], refs1) =
        Some (T', (q @ [s]) @ List.map_filter (NextState (T1 ! r)) cs, refs')"
      "nfa_ok T' strs ps (insert s D \<union> set (List.map_filter (NextState (T1 ! r)) cs))" "refs_ok T' ps refs'" "length T' = length T1"
      using Cons.IH [OF one(2,3) d(1), of "q @ [s]"] Cons.prems(4) by blast
    then show ?thesis using one(1,4) unfolding one(5) by (simp add: map_filter_simps Some)
  qed
qed (auto simp: map_filter_simps)

lemma nfa_loop_ok:
  assumes w: "words strs" and ps: "pats_ok strs ps"
  shows "bfs strs P Q \<Longrightarrow> nfa_ok T strs ps (set (P @ Q)) \<Longrightarrow> refs_ok T ps refs \<Longrightarrow>
    \<exists>T' refs'. nfa_loop (T, Q, refs) = Some (T', [], refs') \<and> nfa_ok T' strs ps {0<..<length strs} \<and> refs_ok T' ps refs' \<and>
      length T' = length T"
proof (induction "length strs - length P" arbitrary: P Q T refs rule: less_induct)
  case less
  show ?case
  proof (cases Q)
    case Nil
    have "complete T strs ps s" if "0 < s" "s < length strs" for s
      using nfa_complete [OF less.prems(2) that] bfs_end [OF w _ that, of P] less.prems(1) Nil by simp
    then have "nfa_ok T strs ps {0<..<length strs}" using less.prems(2) by (simp add: nfa_ok_def)
    then show ?thesis using less.prems(3) Nil by (simp add: nfa_loop.simps [of "(T, [], refs)"])
  next
    case (Cons r Q')
    have b: "bfs strs P (r # Q')" and T: "nfa_ok T strs ps (set (P @ r # Q'))" using less.prems(1,2) Cons by simp_all
    have r: "0 < r" "r < length strs" using b by (simp_all add: bfs_def)
    let ?ks = "List.map_filter (NextState (T ! r)) alphabet"
    have R: "rows T strs {0}" using T by (simp add: nfa_ok_def)
    have k: "kids_of strs r ?ks" using kids_of_row [OF w R r(2)] r(1) by simp
    have b': "bfs strs (P @ [r]) (Q' @ ?ks)" by (rule bfs_step [OF w b k])
    have new: "s \<notin> set (P @ r # Q')" if "NextState (T ! r) c = Some s" for c s
    proof -
      have "s \<in> set ?ks" using k rows_iff [OF R r(2), of c s] that r(1) by (auto simp: kids_of_def)
      then show ?thesis using b' by (auto simp: bfs_def)
    qed
    obtain T1 refs1 where
      one: "nfa_row r alphabet (T, Q', refs) = Some (T1, Q' @ ?ks, refs1)"
        "nfa_ok T1 strs ps (set (P @ r # Q') \<union> set ?ks)" "refs_ok T1 ps refs1" "length T1 = length T"
      using nfa_row_ok [OF w ps r T less.prems(3) alphabet(2), where q = Q'] bfs_entered [OF w b] new by blast
    have m: "length strs - length (P @ [r]) < length strs - length P" using bfs_measure [OF b] by simp
    have "set (P @ r # Q') \<union> set ?ks = set ((P @ [r]) @ Q' @ ?ks)" by auto
    with one(2) have "nfa_ok T1 strs ps (set ((P @ [r]) @ Q' @ ?ks))" by simp
    from less.hyps [OF m b' this one(3)] show ?thesis
      using one(1,4) Cons by (simp add: nfa_loop.simps [of "(T, r # Q', refs)"])
  qed
qed

text \<open>The second pass: a row is completed with the row of the failure state.\<close>

lemma dfa_row:
  assumes "r < length T" "FailState (T ! r) \<noteq> r" "distinct cs"
  shows "fold (dfa_char r) cs (T, q) =
    (T[r := (T ! r)\<lparr>NextState := (\<lambda>c. if c \<in> set cs \<and> NextState (T ! r) c = None
        then NextState (T ! FailState (T ! r)) c else NextState (T ! r) c)\<rparr>],
     q @ List.map_filter (NextState (T ! r)) cs)"
  using assms
proof (induction cs arbitrary: T q)
  case (Cons c cs)
  let ?f = "FailState (T ! r)"
  show ?case
  proof (cases "NextState (T ! r) c")
    case None
    let ?T = "T[r := (T ! r)\<lparr>NextState := (NextState (T ! r))(c := NextState (T ! ?f) c)\<rparr>]"
    have T: "?T ! r = (T ! r)\<lparr>NextState := (NextState (T ! r))(c := NextState (T ! ?f) c)\<rparr>" "?T ! ?f = T ! ?f"
      using Cons.prems by simp_all
    have mf: "List.map_filter (NextState (?T ! r)) cs = List.map_filter (NextState (T ! r)) cs"
    proof -
      have "List.map_filter ((NextState (T ! r))(c := x)) ds = List.map_filter (NextState (T ! r)) ds" if "c \<notin> set ds" for ds x
        using that by (induction ds) (auto simp: map_filter_simps split: option.split)
      then show ?thesis using Cons.prems(3) unfolding T by simp
    qed
    have "fold (dfa_char r) (c # cs) (T, q) = fold (dfa_char r) cs (?T, q)" by (simp add: dfa_char_def None)
    also have "\<dots> = (?T[r := (?T ! r)\<lparr>NextState := (\<lambda>d. if d \<in> set cs \<and> NextState (?T ! r) d = None
        then NextState (?T ! FailState (?T ! r)) d else NextState (?T ! r) d)\<rparr>], q @ List.map_filter (NextState (?T ! r)) cs)"
      by (rule Cons.IH) (use Cons.prems in simp_all)
    also have "\<dots> = (T[r := (T ! r)\<lparr>NextState := (\<lambda>d. if d \<in> set (c # cs) \<and> NextState (T ! r) d = None
        then NextState (T ! ?f) d else NextState (T ! r) d)\<rparr>], q @ List.map_filter (NextState (T ! r)) (c # cs))"
    proof -
      have "(\<lambda>d. if d \<in> set cs \<and> NextState (?T ! r) d = None then NextState (?T ! FailState (?T ! r)) d else NextState (?T ! r) d) =
          (\<lambda>d. if d \<in> set (c # cs) \<and> NextState (T ! r) d = None then NextState (T ! ?f) d else NextState (T ! r) d)"
        using Cons.prems(3) None T(2) unfolding T(1) by (auto simp: fun_eq_iff)
      then show ?thesis unfolding mf by (simp add: T(1) map_filter_simps None)
    qed
    finally show ?thesis .
  next
    case (Some s)
    have "fold (dfa_char r) (c # cs) (T, q) = fold (dfa_char r) cs (T, q @ [s])" by (simp add: dfa_char_def Some)
    moreover have "(\<lambda>d. if d \<in> set (c # cs) \<and> NextState (T ! r) d = None then NextState (T ! ?f) d else NextState (T ! r) d) =
        (\<lambda>d. if d \<in> set cs \<and> NextState (T ! r) d = None then NextState (T ! ?f) d else NextState (T ! r) d)"
      using Some by (auto simp: fun_eq_iff)
    ultimately show ?thesis using Cons.IH [of T "q @ [s]"] Cons.prems by (simp add: map_filter_simps Some)
  qed
qed (simp add: map_filter_simps)

lemma dfa_loop_ok:
  assumes w: "words strs"
  shows "bfs strs P Q \<Longrightarrow> rows T strs (insert 0 (set P)) \<Longrightarrow>
    (\<And>s. 0 < s \<Longrightarrow> s < length strs \<Longrightarrow>
       FailState (T ! s) < length strs \<and> strs ! FailState (T ! s) = suf (set strs) (tl (strs ! s))) \<Longrightarrow>
    \<exists>T'. dfa_loop (T, Q) = Some T' \<and> rows T' strs {..<length strs} \<and> map MatchList T' = map MatchList T"
proof (induction "length strs - length P" arbitrary: P Q T rule: less_induct)
  case less
  show ?case
  proof (cases Q)
    case Nil
    have "s < length strs \<Longrightarrow> s \<in> insert 0 (set P)" for s
      using bfs_end [OF w _, of P s] less.prems(1) Nil by (cases "s = 0") auto
    then have "rows T strs {..<length strs}" using less.prems(2) unfolding rows_def by (metis lessThan_iff)
    then show ?thesis using Nil by (simp add: dfa_loop.simps [of "(T, [])"])
  next
    case (Cons r Q')
    have b: "bfs strs P (r # Q')" using less.prems(1) Cons by simp
    have r: "0 < r" "r < length strs" "r \<notin> set P" using b by (auto simp: bfs_def)
    let ?f = "FailState (T ! r)" and ?ks = "List.map_filter (NextState (T ! r)) alphabet"
    note R = less.prems(2)
    have ne: "strs ! r \<noteq> []" by (rule words_nonempty [OF w r(1,2)])
    have f: "?f < length strs" "strs ! ?f = suf (set strs) (tl (strs ! r))" using less.prems(3) [OF r(1,2)] by simp_all
    have fl: "length (strs ! ?f) < length (strs ! r)"
      using length_suf [of "set strs" "tl (strs ! r)"] ne unfolding f(2) by (cases "strs ! r") auto
    then have fr: "?f \<noteq> r" by auto
    have fP: "?f \<in> insert 0 (set P)" using bfs_taken [OF w b _ f(1) fl] by (cases "?f = 0") auto
    have rT: "r < length T" using r(2) R by (simp add: rows_def)
    let ?N = "\<lambda>c. if NextState (T ! r) c = None then NextState (T ! ?f) c else NextState (T ! r) c"
    let ?T = "T[r := (T ! r)\<lparr>NextState := ?N\<rparr>]"
    have step: "fold (dfa_char r) alphabet (T, Q') = (?T, Q' @ ?ks)"
      using dfa_row [OF rT fr alphabet(2), of Q'] by (simp add: alphabet(1))
    have k: "kids_of strs r ?ks" using kids_of_row [OF w R r(2)] r(1,3) by simp
    have b': "bfs strs (P @ [r]) (Q' @ ?ks)" by (rule bfs_step [OF w b k])
    have row: "?N c = Some t \<longleftrightarrow> t < length strs \<and> strs ! t = suf (set strs) (strs ! r @ [c])" for c t
    proof (cases "NextState (T ! r) c")
      case None
      have "suf (set strs) (strs ! ?f @ [c]) = suf (set strs) (strs ! r @ [c])"
        unfolding f(2) suf_snoc [OF w [unfolded words_def, THEN conjunct2, THEN conjunct2, THEN conjunct2]]
        by (rule suf_tl_snoc [OF ne rows_none [OF R r(2) _ None]]) (use r in simp)
      then show ?thesis using None rows_iff [OF R f(1), of c t] fP by simp
    next
      case (Some u)
      have u: "u < length strs" "strs ! u = strs ! r @ [c]" using rows_iff [OF R r(2), of c u] Some r by simp_all
      then have "suf (set strs) (strs ! r @ [c]) = strs ! u" by (metis nth_mem suf_id)
      then show ?thesis using Some words_inj [OF w u(1), of t] u(1) by auto
    qed
    have "rows ?T strs (insert 0 (set (P @ [r])))"
      unfolding rows_def
    proof (intro conjI allI impI)
      fix s c t assume s: "s < length strs"
      show "NextState (?T ! s) c = Some t \<longleftrightarrow> t < length strs \<and> strs ! t =
          (if s \<in> insert 0 (set (P @ [r])) then suf (set strs) (strs ! s @ [c]) else strs ! s @ [c])"
      proof (cases "s = r")
        case True
        then show ?thesis using row [of c t] rT by simp
      next
        case False
        then show ?thesis using rows_iff [OF R s, of c t] by simp
      qed
    qed (use R in \<open>simp add: rows_def\<close>)
    moreover have "FailState (?T ! s) < length strs \<and> strs ! FailState (?T ! s) = suf (set strs) (tl (strs ! s))"
      if "0 < s" "s < length strs" for s
      using less.prems(3) [OF that] by simp
    moreover have "length strs - length (P @ [r]) < length strs - length P" using bfs_measure [OF b] by simp
    moreover have "map MatchList ?T = map MatchList T" by (intro nth_equalityI) simp_all
    ultimately show ?thesis
      using less.hyps [OF _ b', of ?T] Cons by (simp add: dfa_loop.simps [of "(T, r # Q')"] step)
  qed
qed

section \<open>Compilation\<close>

text \<open>What \<^verbatim>\<open>ACSMX_New\<close> and \<^verbatim>\<open>ACSMX_AddPattern\<close> establish: every pattern has user data of its own with one reference.\<close>

definition acsmx_wf :: "'i acsmx \<Rightarrow> bool" where
  [inv_defs]: "acsmx_wf p \<longleftrightarrow> map udata (acsmPatterns p) = rev [0..<numPatterns p] \<and>
     ref_count p = (\<lambda>u. if u < numPatterns p then 1 else 0)"

lemma ACSMX_New_wf: "ACSMX_New alloc = Some p \<Longrightarrow> acsmx_wf p \<and> acsmPatterns p = []"
  by (auto simp: ACSMX_New_def acsmx_wf_def split: if_splits)

lemma ACSMX_AddPattern_wf:
  "acsmx_wf p \<Longrightarrow> ACSMX_AddPattern al p pat uid = (r, p', al') \<Longrightarrow>
    acsmx_wf p' \<and> map patrn (acsmPatterns p') = (if r = BS_OK then pat # map patrn (acsmPatterns p) else map patrn (acsmPatterns p))"
proof -
  have e: "(\<lambda>u. if u < n then 1 else 0)(n := 1) = (\<lambda>u. if u < Suc n then 1 else (0 :: nat))" for n :: nat
    by (auto simp: fun_eq_iff)
  assume "acsmx_wf p" "ACSMX_AddPattern al p pat uid = (r, p', al')"
  then show ?thesis
    by (auto simp: ACSMX_AddPattern_def acsmx_wf_def Let_def e [simplified] split: prod.splits bool.splits if_splits)
qed

text \<open>An automaton for the patterns: the row of a state leads to the longest suffix that is a state, and its match list holds
  the patterns that end there.\<close>

definition automaton :: "acsmx_state list \<Rightarrow> UCHAR list list \<Rightarrow> acsmx_pattern list \<Rightarrow> bool" where
  [inv_defs]: "automaton T strs ps \<longleftrightarrow> words strs \<and> pats_ok strs ps \<and> rows T strs {..<length strs} \<and>
     (\<forall>s<length strs. set (MatchList (T ! s)) = {p \<in> set ps. suffix (patrn p) (strs ! s)})"

lemma clear_links:
  "length (fold (\<lambda>s T. T[s := (T ! s)\<lparr>FailState := 0\<rparr>]) ks T) = length T \<and>
   NextState (fold (\<lambda>s T. T[s := (T ! s)\<lparr>FailState := 0\<rparr>]) ks T ! i) = NextState (T ! i) \<and>
   MatchList (fold (\<lambda>s T. T[s := (T ! s)\<lparr>FailState := 0\<rparr>]) ks T ! i) = MatchList (T ! i) \<and>
   (i \<in> set ks \<or> FailState (T ! i) = 0 \<longrightarrow> i < length T \<longrightarrow>
     FailState (fold (\<lambda>s T. T[s := (T ! s)\<lparr>FailState := 0\<rparr>]) ks T ! i) = 0)"
proof (induction ks arbitrary: T)
  case (Cons k ks)
  let ?T = "T[k := (T ! k)\<lparr>FailState := 0\<rparr>]"
  have "FailState (?T ! i) = 0" if "i = k \<or> FailState (T ! i) = 0" "i < length T" using that by (cases "i = k") simp_all
  then show ?case using Cons.IH [of ?T] by auto
qed simp

lemma BuildNfa_ok:
  assumes w: "words strs" and ps: "pats_ok strs ps" and T: "nfa_ok T strs ps {}" and refs: "refs_ok T ps refs"
  shows "\<exists>T' refs'. acsmx_BuildNfa T refs = Some (T', refs') \<and> nfa_ok T' strs ps {0<..<length strs} \<and> refs_ok T' ps refs' \<and>
    length T' = length T"
proof -
  let ?ks = "root_kids T"
  let ?T = "fold (\<lambda>s T. T[s := (T ! s)\<lparr>FailState := 0\<rparr>]) ?ks T"
  have R: "rows T strs {0}" "MatchList (T ! 0) = []" using T by (simp_all add: nfa_ok_def)
  have k: "kids_of strs 0 ?ks" using kids_of_root [OF w R(1)] by simp
  have z: "strs ! 0 = []" "0 < length strs" using w by (auto simp: words_def)
  note c = clear_links [of ?ks T]
  have "complete ?T strs ps s" if s: "s \<in> set ?ks" for s
  proof -
    obtain c where sc: "s < length strs" "strs ! s = [c]" using k s z by (auto simp: kids_of_def)
    then have s0: "0 < s" using z by (cases s) auto
    have "s < length T" using sc R(1) by (simp add: rows_def)
    then have "FailState (?T ! s) = 0" using clear_links [of ?ks T s] s by blast
    moreover have "set (MatchList (?T ! s)) = {p \<in> set ps. patrn p = [c]}" using T s0 sc c by (simp add: nfa_ok_def)
    moreover have "p \<in> set ps \<Longrightarrow> suffix (patrn p) [c] \<longleftrightarrow> patrn p = [c]" for p
      using ps by (auto simp: pats_ok_def suffix_Cons)
    ultimately show ?thesis unfolding complete_def using z sc(2) by auto
  qed
  moreover have "set (MatchList (?T ! s)) = {p \<in> set ps. patrn p = strs ! s}" if "0 < s" "s < length strs" for s
    using T that c by (simp add: nfa_ok_def)
  moreover have "rows ?T strs {0}" using R(1) c by (subst rows_cong [of _ T]) simp_all
  ultimately have n: "nfa_ok ?T strs ps (set ([] @ ?ks))" using R(2) c by (simp add: nfa_ok_def)
  have m: "map MatchList ?T = map MatchList T" using c by (intro nth_equalityI) simp_all
  have "refs_ok ?T ps refs" using refs unfolding refs_ok_def m by blast
  from nfa_loop_ok [OF w ps bfs_start [OF w k] n this] show ?thesis using c by (auto simp: acsmx_BuildNfa_def)
qed

lemma ConvertNfa2Dfa_ok:
  assumes w: "words strs" and ps: "pats_ok strs ps" and T: "nfa_ok T strs ps {0<..<length strs}"
  shows "\<exists>T'. acsmx_ConvertNfa2Dfa T = Some T' \<and> automaton T' strs ps \<and> map MatchList T' = map MatchList T"
proof -
  have R: "rows T strs {0}" using T by (simp add: nfa_ok_def)
  have z: "strs ! 0 = []" using w by (simp add: words_def)
  have "bfs strs [] (root_kids T)" by (rule bfs_start [OF w kids_of_root [OF w R]]) simp
  moreover have "FailState (T ! s) < length strs \<and> strs ! FailState (T ! s) = suf (set strs) (tl (strs ! s))"
    if "0 < s" "s < length strs" for s
    using nfa_fail [OF T that] that by simp
  ultimately obtain T' where T': "dfa_loop (T, root_kids T) = Some T'" "rows T' strs {..<length strs}" "map MatchList T' = map MatchList T"
    using dfa_loop_ok [OF w, of "[]" "root_kids T" T] R by auto
  have "set (MatchList (T' ! s)) = {p \<in> set ps. suffix (patrn p) (strs ! s)}" if "s < length strs" for s
  proof -
    have "s < length T" using R that by (simp add: rows_def)
    moreover have "length T' = length T" using T'(3) by (metis length_map)
    ultimately have "MatchList (T' ! s) = MatchList (T ! s)" using T'(3) by (metis nth_map)
    moreover have "s = 0 \<or> s \<in> {0<..<length strs}" using that by auto
    ultimately show ?thesis using matches_at [OF T ps that _ z] by simp
  qed
  then show ?thesis using T' w ps by (simp add: acsmx_ConvertNfa2Dfa_def automaton_def)
qed

lemma root_fix:
  assumes T: "trie_rep T num strs" "own_rep T strs ps" and ne: "\<forall>p\<in>set ps. patrn p \<noteq> []"
    and refs: "\<And>u. refs u = size (filter_mset (\<lambda>m. udata m = u) (mset ps))"
  defines "T' \<equiv> T[0 := (T ! 0)\<lparr>NextState := (\<lambda>c. case NextState (T ! 0) c of None \<Rightarrow> Some 0 | Some s \<Rightarrow> Some s)\<rparr>]"
  shows "words strs" "pats_ok strs ps" "nfa_ok T' strs ps {}" "refs_ok T' ps refs" "length T' = length T"
proof -
  have t: "length strs = Suc num" "num < length T" "distinct strs" "strs ! 0 = []" "closed (set strs)"
    using T(1) by (simp_all add: trie_rep_def)
  have T0: "0 < length T" using t(2) by linarith
  show w: "words strs" using t by (auto simp: words_def)
  show "pats_ok strs ps" using T(2) ne by (simp add: pats_ok_def own_rep_def)
  have N: "NextState (T' ! s) = (if s = 0 then (\<lambda>c. case NextState (T ! 0) c of None \<Rightarrow> Some 0 | Some s \<Rightarrow> Some s) else NextState (T ! s))"
    for s
    using T0 unfolding T'_def by (cases "s = 0") simp_all
  have M: "MatchList (T' ! s) = MatchList (T ! s)" for s by (simp add: T'_def)
  show l: "length T' = length T" by (simp add: T'_def)
  have "NextState (T' ! s) c = Some u \<longleftrightarrow> u < length strs \<and>
      strs ! u = (if s \<in> {0} then suf (set strs) (strs ! s @ [c]) else strs ! s @ [c])" if s: "s < length strs" for s c u
  proof (cases "s = 0")
    case True
    show ?thesis
    proof (cases "NextState (T ! 0) c")
      case None
      have "[c] \<notin> set strs"
      proof
        assume "[c] \<in> set strs"
        then obtain v where "v < length strs" "strs ! v = [c]" using words_at by metis
        then show False using trie_row [OF T(1) T0, of c v] t None by simp
      qed
      moreover have "u < length strs \<Longrightarrow> strs ! u = [] \<longleftrightarrow> u = 0" using words_inj [OF w, of u 0] t(1,4) by simp
      ultimately show ?thesis unfolding N using True None t(1,4) by auto
    next
      case (Some v)
      then have v: "v < length strs" "strs ! v = [c]" using trie_row [OF T(1) T0, of c v] t Some by simp_all
      then have "[c] \<in> set strs" by (metis nth_mem)
      moreover have "u < length strs \<Longrightarrow> strs ! u = strs ! v \<longleftrightarrow> u = v" using words_inj [OF w _ v(1)] by simp
      ultimately show ?thesis unfolding N using True Some t(4) v by auto
    qed
  next
    case False
    then show ?thesis unfolding N using trie_row [OF T(1), of s c u] t(1,2) s by auto
  qed
  then have "rows T' strs {0}" using t l by (simp add: rows_def)
  moreover have "MatchList (T' ! 0) = []"
  proof -
    have "set (MatchList (T ! 0)) = {p \<in> set ps. 0 < length strs \<and> patrn p = strs ! 0}"
      using T(2) T0 by (simp add: own_rep_def)
    also have "\<dots> = {}" using ne t(4) by auto
    finally show ?thesis unfolding M by simp
  qed
  moreover have "set (MatchList (T' ! s)) = {p \<in> set ps. patrn p = strs ! s}" if "s < length strs" for s
    unfolding M using T(2) that t(1,2) by (auto simp: own_rep_def)
  ultimately show "nfa_ok T' strs ps {}" by (simp add: nfa_ok_def)
  have "map MatchList T' = map MatchList T" using M l by (intro nth_equalityI) simp_all
  moreover have m: "mset (concat (map MatchList T)) = mset ps" using T(2) by (simp add: own_rep_def)
  moreover have "set (concat (map MatchList T)) = set ps" using m by (metis set_mset_mset)
  ultimately show "refs_ok T' ps refs" unfolding refs_ok_def using refs by simp
qed

lemma size_filter_count: "size (filter_mset (\<lambda>m. f m = u) M) = count (image_mset f M) u"
  by (induction M) auto

lemma Compile_ok:
  assumes wf: "acsmx_wf p" and ne: "\<forall>q\<in>set (acsmPatterns p). patrn q \<noteq> []"
  shows "\<exists>r A. ACSMX_Compile al p = Some (r, A) \<and> acsmPatterns A = acsmPatterns p \<and> uids A = uids p \<and>
    (r = BS_OK \<longrightarrow> (\<exists>T strs. acsmStateTable A = Some T \<and> length T = acsmMaxStates A \<and>
       automaton T strs (acsmPatterns p) \<and> refs_ok T (acsmPatterns p) (ref_count A)))"
proof -
  let ?ps = "acsmPatterns p"
  let ?n = "1 + sum_list (map (\<lambda>q. length (patrn q)) ?ps)"
  let ?p = "p\<lparr>acsmMaxStates := ?n\<rparr>" and ?T0 = "replicate ?n \<lparr>NextState = (\<lambda>_. None), FailState = 0, MatchList = []\<rparr>"
  obtain a al' where al: "mem_ask al = (a, al')" by (meson surj_pair)
  obtain r T num where add: "add_all al' ?T0 0 ?ps = (r, T, num)" by (metis surj_pair)
  show ?thesis
  proof (cases "a \<and> r = BS_OK")
    case False
    then show ?thesis using al add by (cases a) (simp_all add: ACSMX_Compile_def Let_def)
  next
    case True
    obtain strs where t: "trie_rep T num strs" "own_rep T strs (rev ?ps @ [])" "length T = length ?T0"
      using add_all_rep [OF trie_rep_empty [of ?T0 ?n], of ?ps al' T num] add True by auto
    have ne': "\<forall>q\<in>set (rev ?ps @ []). patrn q \<noteq> []" using ne by simp
    have cnt: "ref_count p u = size (filter_mset (\<lambda>m. udata m = u) (mset (rev ?ps @ [])))" for u
    proof -
      have "size (filter_mset (\<lambda>m. udata m = u) (mset ?ps)) = count (mset (map udata ?ps)) u"
        by (simp add: size_filter_count)
      also have "\<dots> = count (mset (rev [0..<numPatterns p])) u" using wf by (simp only: acsmx_wf_def)
      also have "\<dots> = (if u \<in> set (rev [0..<numPatterns p]) then 1 else 0)"
        using distinct_count_atmost_1 [THEN iffD1, of "rev [0..<numPatterns p]", rule_format, of u] by simp
      also have "\<dots> = ref_count p u" using wf by (simp add: acsmx_wf_def)
      finally show ?thesis by simp
    qed
    note rt = root_fix [OF t(1,2) ne' cnt]
    let ?T = "T[0 := (T ! 0)\<lparr>NextState := (\<lambda>c. case NextState (T ! 0) c of None \<Rightarrow> Some 0 | Some s \<Rightarrow> Some s)\<rparr>]"
    obtain T1 refs1 where b: "acsmx_BuildNfa ?T (ref_count p) = Some (T1, refs1)"
      "nfa_ok T1 strs (rev ?ps @ []) {0<..<length strs}" "refs_ok T1 (rev ?ps @ []) refs1" "length T1 = length ?T"
      using BuildNfa_ok [OF rt(1-4)] by blast
    obtain T2 where c: "acsmx_ConvertNfa2Dfa T1 = Some T2" "automaton T2 strs (rev ?ps @ [])" "map MatchList T2 = map MatchList T1"
      using ConvertNfa2Dfa_ok [OF rt(1,2) b(2)] by blast
    have l: "length T2 = ?n" using c(3) b(4) t(3) by (metis length_list_update length_map length_replicate)
    have "ACSMX_Compile al p = Some (BS_OK, ?p\<lparr>acsmNumStates := num, acsmStateTable := Some T2, ref_count := refs1\<rparr>)"
      using al add True b(1) c(1) by (simp add: ACSMX_Compile_def Let_def)
    moreover have "automaton T2 strs ?ps" using c(2) by (simp add: automaton_def pats_ok_def)
    moreover have "refs_ok T2 ?ps refs1" using b(3) unfolding refs_ok_def c(3) by simp
    ultimately show ?thesis using l by (intro exI) (auto simp: l)
  qed
qed

section \<open>Searching\<close>

definition ends_at :: "acsmx_pattern list \<Rightarrow> UCHAR list \<Rightarrow> acsmx_pattern set" where
  "ends_at ps w = {p \<in> set ps. suffix (patrn p) w}"

text \<open>The state that a search of the text \<open>w\<close> ends in.\<close>

definition ac_after :: "'i acsmx \<Rightarrow> UCHAR list \<Rightarrow> nat" where
  "ac_after A w = (case acsmStateTable A of None \<Rightarrow> 0 | Some T \<Rightarrow> fold (\<lambda>c s. the (NextState (T ! s) c)) w 0)"

text \<open>The calls of the match function on a list of hits (position and match list) until one stops the search.\<close>

fun run_calls ::
  "(acsmx_pattern list \<Rightarrow> int \<Rightarrow> 's \<Rightarrow> int \<times> 's) \<Rightarrow> (nat \<times> acsmx_pattern list) list \<Rightarrow> 's \<Rightarrow> int \<times> 's \<times> bool" where
  "run_calls f [] s = (0, s, False)"
| "run_calls f ((i, ms) # hs) s =
     (case f ms (int i - int (length (patrn (hd ms))) + 1) s of
        (r, s') \<Rightarrow> if r > 0 then (1, s', True)
                  else (case run_calls f hs s' of (k, s'', b) \<Rightarrow> (k + 1, s'', b)))"

fun ac_hits :: "acsmx_state list \<Rightarrow> nat \<Rightarrow> nat \<Rightarrow> UCHAR list \<Rightarrow> (nat \<times> acsmx_pattern list) list" where
  "ac_hits T st i [] = []"
| "ac_hits T st i (c # cs) =
     (let st = the (NextState (T ! st) c)
      in if MatchList (T ! st) = [] then ac_hits T st (i + 1) cs else (i, MatchList (T ! st)) # ac_hits T st (i + 1) cs)"

lemma search_loop_calls:
  "run_calls f (ac_hits T st i cs) s = (k, s', stopped) \<Longrightarrow>
    \<exists>st'. search_loop T f i cs (st, n, s) = (st', n + k, s') \<and>
      (\<not> stopped \<longrightarrow> st' = fold (\<lambda>c s. the (NextState (T ! s) c)) cs st)"
proof (induction cs arbitrary: st i s n k)
  case (Cons c cs)
  let ?st = "the (NextState (T ! st) c)"
  show ?case
  proof (cases "MatchList (T ! ?st)")
    case Nil
    then show ?thesis using Cons.IH [of ?st "i + 1" s k n] Cons.prems by simp
  next
    case (Cons m ms)
    note M = this
    obtain r s1 where f: "f (m # ms) (int i - int (length (patrn m)) + 1) s = (r, s1)" by (meson surj_pair)
    show ?thesis
    proof (cases "r > 0")
      case True
      then show ?thesis using Cons.prems M f by simp
    next
      case False
      obtain k1 s2 b where rest: "run_calls f (ac_hits T ?st (i + 1) cs) s1 = (k1, s2, b)" by (metis surj_pair)
      then have "k = k1 + 1" "s' = s2" "stopped = b" using Cons.prems M f False by simp_all
      then show ?thesis using Cons.IH [of ?st "i + 1" s1 k1 "n + 1"] rest M f False by (simp add: ac_simps)
    qed
  qed
qed simp

lemma automaton_state:
  assumes A: "automaton T strs ps"
  shows "fold (\<lambda>c s. the (NextState (T ! s) c)) w 0 < length strs \<and>
    strs ! fold (\<lambda>c s. the (NextState (T ! s) c)) w 0 = suf (set strs) w"
proof (induction w rule: rev_induct)
  case Nil
  then show ?case using A by (auto simp: automaton_def words_def)
next
  case (snoc c w)
  let ?s = "fold (\<lambda>c s. the (NextState (T ! s) c)) w 0"
  have w: "words strs" "rows T strs {..<length strs}" "closed (set strs)" using A by (simp_all add: automaton_def words_def)
  obtain t where "t < length strs" "NextState (T ! ?s) c = Some t" "strs ! t = suf (set strs) (strs ! ?s @ [c])"
    using rows_full [OF w(1,2), of ?s c] snoc by auto
  then show ?case using snoc suf_snoc [OF w(3), of w c] by simp
qed

lemma automaton_matches:
  assumes A: "automaton T strs ps"
  shows "set (MatchList (T ! fold (\<lambda>c s. the (NextState (T ! s) c)) w 0)) = ends_at ps w"
proof -
  note s = automaton_state [OF A, of w]
  have "set (MatchList (T ! fold (\<lambda>c s. the (NextState (T ! s) c)) w 0)) = {p \<in> set ps. suffix (patrn p) (suf (set strs) w)}"
    using s A by (simp add: automaton_def)
  then show ?thesis using A suffix_suf [of _ "set strs" w] by (auto simp: ends_at_def automaton_def pats_ok_def)
qed

lemma ac_hits_positions:
  assumes A: "automaton T strs ps"
  shows "map fst (ac_hits T (fold (\<lambda>c s. the (NextState (T ! s) c)) w 0) i cs) =
      map ((+) i) (filter (\<lambda>j. ends_at ps (w @ take (Suc j) cs) \<noteq> {}) [0..<length cs]) \<and>
    (\<forall>(j, ms) \<in> set (ac_hits T (fold (\<lambda>c s. the (NextState (T ! s) c)) w 0) i cs).
      i \<le> j \<and> set ms = ends_at ps (w @ take (Suc (j - i)) cs))"
proof (induction cs arbitrary: w i)
  case (Cons c cs)
  let ?st = "\<lambda>w. fold (\<lambda>c s. the (NextState (T ! s) c)) w 0"
  have m: "set (MatchList (T ! ?st (w @ [c]))) = ends_at ps (w @ [c])" by (rule automaton_matches [OF A])
  then have e: "MatchList (T ! ?st (w @ [c])) = [] \<longleftrightarrow> ends_at ps (w @ [c]) = {}" by (metis set_empty)
  let ?H = "ac_hits T (?st (w @ [c])) (i + 1) cs"
  have h: "ac_hits T (?st w) i (c # cs) = (if ends_at ps (w @ [c]) = {} then ?H else (i, MatchList (T ! ?st (w @ [c]))) # ?H)"
    using e by (simp add: Let_def)
  have u: "[0..<length (c # cs)] = 0 # map Suc [0..<length cs]" by (simp only: list.size(4) add_0_right add_Suc_right upt_conv_Cons map_Suc_upt zero_less_Suc)
  have f: "filter (\<lambda>j. ends_at ps (w @ take (Suc j) (c # cs)) \<noteq> {}) (map Suc [0..<length cs]) =
      map Suc (filter (\<lambda>j. ends_at ps ((w @ [c]) @ take (Suc j) cs) \<noteq> {}) [0..<length cs])"
    by (simp add: filter_map comp_def)
  have IH: "map fst ?H = map ((+) (i + 1)) (filter (\<lambda>j. ends_at ps ((w @ [c]) @ take (Suc j) cs) \<noteq> {}) [0..<length cs])"
    "\<And>j ms. (j, ms) \<in> set ?H \<Longrightarrow> i + 1 \<le> j \<and> set ms = ends_at ps ((w @ [c]) @ take (Suc (j - (i + 1))) cs)"
    using Cons.IH [of "w @ [c]" "i + 1"] by blast+
  have "map fst (ac_hits T (?st w) i (c # cs)) =
      map ((+) i) (filter (\<lambda>j. ends_at ps (w @ take (Suc j) (c # cs)) \<noteq> {}) [0..<length (c # cs)])"
    unfolding h u filter.simps(2) f using IH(1) by (simp add: comp_def)
  moreover have "i \<le> j \<and> set ms = ends_at ps (w @ take (Suc (j - i)) (c # cs))"
    if "(j, ms) \<in> set (ac_hits T (?st w) i (c # cs))" for j ms
  proof -
    from that consider "j = i" "set ms = ends_at ps (w @ [c])" | "(j, ms) \<in> set ?H" unfolding h using m by (auto split: if_splits)
    then show ?thesis
    proof cases
      case 2
      then have "i + 1 \<le> j" "set ms = ends_at ps ((w @ [c]) @ take (Suc (j - (i + 1))) cs)" using IH(2) by blast+
      moreover from this have "take (Suc (j - i)) (c # cs) = c # take (Suc (j - (i + 1))) cs" by (simp add: Suc_diff_Suc)
      ultimately show ?thesis by simp
    qed simp
  qed
  ultimately show ?case by blast
qed simp

section \<open>Properties\<close>

text \<open>C21: a search of a chunk of text calls the match function once for every position at which a pattern ends,
  in order, with exactly the patterns that end there (in the text since the first chunk) and the offset of the first of them, until
  the function stops the search; unless it does, the state returned continues with the next chunk.\<close>

theorem ACSMX_Search_correct:
  assumes "acsmx_wf acsm" "\<forall>p\<in>set (acsmPatterns acsm). patrn p \<noteq> []" "ACSMX_Compile al acsm = Some (BS_OK, A)"
  shows "\<exists>hs. map fst hs = filter (\<lambda>i. ends_at (acsmPatterns acsm) (w @ take (Suc i) Tx) \<noteq> {}) [0..<length Tx] \<and>
    (\<forall>(i, ms)\<in>set hs. set ms = ends_at (acsmPatterns acsm) (w @ take (Suc i) Tx)) \<and>
    (\<forall>f (s :: 's). case run_calls f hs s of (k, s', stopped) \<Rightarrow>
       \<exists>st. ACSMX_Search A Tx f s (ac_after A w) = (k, st, s') \<and> (\<not> stopped \<longrightarrow> st = ac_after A (w @ Tx)))"
proof -
  obtain T strs where T: "acsmStateTable A = Some T" "automaton T strs (acsmPatterns acsm)"
    using Compile_ok [OF assms(1,2), of al] assms(3) by auto
  let ?hs = "ac_hits T (ac_after A w) 0 Tx"
  have a: "ac_after A v = fold (\<lambda>c s. the (NextState (T ! s) c)) v 0" for v using T(1) by (simp add: ac_after_def)
  have c: "case run_calls f ?hs s of (k, s', stopped) \<Rightarrow>
      \<exists>st. ACSMX_Search A Tx f s (ac_after A w) = (k, st, s') \<and> (\<not> stopped \<longrightarrow> st = ac_after A (w @ Tx))" for f and s :: 's
  proof -
    obtain k s' b where r: "run_calls f ?hs s = (k, s', b)" by (metis surj_pair)
    from search_loop_calls [OF r, of 0] show ?thesis using T(1) r by (auto simp: ACSMX_Search_def a)
  qed
  have p: "map fst ?hs = filter (\<lambda>i. ends_at (acsmPatterns acsm) (w @ take (Suc i) Tx) \<noteq> {}) [0..<length Tx]"
    "\<forall>(i, ms)\<in>set ?hs. set ms = ends_at (acsmPatterns acsm) (w @ take (Suc i) Tx)"
    using ac_hits_positions [OF T(2), of w 0 Tx] unfolding a [symmetric] by (simp_all add: map_idI)
  show ?thesis by (intro exI [of _ ?hs] conjI allI c p)
qed

definition ac_example :: "nat acsmx" where
  "ac_example = fst (snd (ACSMX_AddPattern [] (the (ACSMX_New True)) [97, 98] 7))"

lemma ac_example: "acsmx_wf ac_example" "acsmPatterns ac_example = [\<lparr>patrn = [97, 98], udata = 0\<rparr>]" "uids ac_example 0 = Some 7"
  by (simp_all add: ac_example_def ACSMX_AddPattern_def ACSMX_New_def acsmx_wf_def fun_eq_iff)

lemma ac_example_compiles: "\<exists>A. ACSMX_Compile [] ac_example = Some (BS_OK, A)"
proof -
  obtain r A where c: "ACSMX_Compile [] ac_example = Some (r, A)"
    using Compile_ok [OF ac_example(1), of "[]"] by (auto simp: ac_example(2))
  moreover have "r = BS_OK"
    using c by (auto simp: ACSMX_Compile_def ac_example(2) acsmx_AddPatternStates_def acsmx_AddMatchListEntry_def Let_def
        split: prod.splits option.splits)
  ultimately show ?thesis by blast
qed

theorem ACSMX_Search_correct_witness:
  "\<exists>A. ACSMX_Compile [] ac_example = Some (BS_OK, A) \<and>
    fst (ACSMX_Search A [98, 97, 98] (\<lambda>ms off s. (0, s)) () (ac_after A [])) = 1"
proof -
  obtain A where A: "ACSMX_Compile [] ac_example = Some (BS_OK, A)" using ac_example_compiles by blast
  have n: "\<forall>p\<in>set (acsmPatterns ac_example). patrn p \<noteq> []" by (simp add: ac_example(2))
  from ACSMX_Search_correct [OF ac_example(1) n A, where ?'s = unit, of "[]" "[98, 97, 98]"] obtain hs where
    h: "map fst hs = filter (\<lambda>i. ends_at (acsmPatterns ac_example) ([] @ take (Suc i) [98, 97, 98]) \<noteq> {}) [0..<length [98, 97, 98 :: UCHAR]]"
    and c: "\<forall>f (s :: unit). case run_calls f hs s of (k, s', stopped) \<Rightarrow>
       \<exists>st. ACSMX_Search A [98, 97, 98] f s (ac_after A []) = (k, st, s') \<and> (\<not> stopped \<longrightarrow> st = ac_after A ([] @ [98, 97, 98]))"
    by (elim exE conjE) (rule that)
  have "map fst hs = [2]" unfolding h by (simp add: ends_at_def ac_example(2) suffix_def upt_rec)
  then obtain ms where "hs = [(2, ms)]" by auto
  then show ?thesis using c [rule_format, of "\<lambda>ms off s. (0, s)" "()"] A by auto
qed



lemma free_entries_ok:
  "(\<And>u. u \<in> udata ` set ms \<Longrightarrow> refs u = size (filter_mset (\<lambda>m. udata m = u) (mset ms))) \<Longrightarrow>
    distinct (free_entries ms refs) \<and> set (free_entries ms refs) = udata ` set ms"
proof (induction ms arbitrary: refs)
  case (Cons m ms)
  define R where "R = refs(udata m := refs (udata m) - 1)"
  have r: "R u = size (filter_mset (\<lambda>m. udata m = u) (mset ms))" if "u \<in> udata ` set (m # ms)" for u
    using Cons.prems [OF that] by (auto simp: R_def)
  have "R (udata m) = 0 \<longleftrightarrow> udata m \<notin> udata ` set ms"
    using r [of "udata m"] unfolding size_filter_count by (simp add: count_eq_zero_iff)
  then have "free_entries (m # ms) refs = (if udata m \<notin> udata ` set ms then udata m # free_entries ms R else free_entries ms R)"
    by (simp only: free_entries.simps Let_def R_def [symmetric])
  then show ?case using Cons.IH [OF r] by (simp add: insert_absorb split: if_splits)
qed simp

text \<open>The matchers that are built by adding patterns, with the patterns and their identifiers, the latest first.\<close>

inductive acsmx_built :: "(UCHAR list \<times> 'i) list \<Rightarrow> 'i acsmx \<Rightarrow> bool" where
  New: "ACSMX_New alloc = Some p \<Longrightarrow> acsmx_built [] p"
| AddPattern: "acsmx_built added p \<Longrightarrow> ACSMX_AddPattern al p pat uid = (r, p', al') \<Longrightarrow>
    acsmx_built (if r = BS_OK then (pat, uid) # added else added) p'"

lemma built_ok:
  "acsmx_built added p \<Longrightarrow> acsmx_wf p \<and> acsmMaxStates p = 0 \<and> acsmStateTable p = None \<and>
    map (\<lambda>q. (patrn q, uids p (udata q))) (acsmPatterns p) = map (\<lambda>(w, i). (w, Some i)) added"
proof (induction rule: acsmx_built.induct)
  case (New alloc p)
  then show ?case using ACSMX_New_wf [OF New] by (auto simp: ACSMX_New_def split: if_splits)
next
  case (AddPattern added p al pat uid r p' al')
  have old: "udata q < numPatterns p" if "q \<in> set (acsmPatterns p)" for q
  proof -
    have "udata q \<in> set (map udata (acsmPatterns p))" using that by simp
    then show ?thesis using AddPattern.IH by (simp add: acsmx_wf_def del: set_map)
  qed
  have "map (\<lambda>q. (patrn q, ((uids p)(numPatterns p := Some uid)) (udata q))) (acsmPatterns p) =
      map (\<lambda>q. (patrn q, uids p (udata q))) (acsmPatterns p)"
  proof (rule map_cong [OF refl])
    fix q assume "q \<in> set (acsmPatterns p)"
    then show "(patrn q, ((uids p)(numPatterns p := Some uid)) (udata q)) = (patrn q, uids p (udata q))" using old [of q] by simp
  qed
  note same = this trans [OF this conjunct2 [OF conjunct2 [OF conjunct2 [OF AddPattern.IH]]]]
  have wf: "acsmx_wf p'" using AddPattern.IH ACSMX_AddPattern_wf [OF _ AddPattern.hyps(2)] by simp
  show ?case
  proof (cases "r = BS_OK")
    case True
    then have "p' = p\<lparr>acsmPatterns := \<lparr>patrn = pat, udata = numPatterns p\<rparr> # acsmPatterns p, numPatterns := numPatterns p + 1,
        ref_count := (ref_count p)(numPatterns p := 1), uids := (uids p)(numPatterns p := Some uid)\<rparr>"
      using AddPattern.hyps(2) by (simp add: ACSMX_AddPattern_def Let_def split: prod.splits bool.splits if_splits)
    then show ?thesis using AddPattern.IH wf same(2) True by simp
  next
    case False
    then have "p' = p"
      using AddPattern.hyps(2) by (simp add: ACSMX_AddPattern_def Let_def split: prod.splits bool.splits if_splits)
    then show ?thesis using AddPattern.IH False by simp
  qed
qed

text \<open>What a release hands out when the match lists hold the first patterns, each with one reference or more.\<close>

lemma release_entries:
  assumes wf: "acsmx_wf p" and ms: "udata ` set ms = udata ` set (take k (acsmPatterns p))"
    and refs: "\<And>u. u \<in> udata ` set ms \<Longrightarrow> refs u = size (filter_mset (\<lambda>m. udata m = u) (mset ms))"
  shows "mset (map (uids p) (free_entries ms refs)) = mset (take k (map (\<lambda>q. uids p (udata q)) (acsmPatterns p)))"
proof -
  let ?us = "map udata (take k (acsmPatterns p))"
  have "distinct (map udata (acsmPatterns p))" using wf by (simp add: acsmx_wf_def)
  then have "distinct ?us" unfolding take_map [symmetric] by (rule distinct_take)
  moreover have "distinct (free_entries ms refs)" "set (free_entries ms refs) = set ?us"
    using free_entries_ok [OF refs] ms by simp_all
  ultimately have "mset (free_entries ms refs) = mset ?us" by (metis set_eq_iff_mset_eq_distinct)
  then have "mset (map (uids p) (free_entries ms refs)) = mset (map (uids p) ?us)"
    by (simp add: image_mset.compositionality comp_def)
  then show ?thesis by (simp only: take_map map_map comp_def)
qed

lemma Compile_fails:
  assumes built: "acsmx_wf p" and c: "ACSMX_Compile al p = Some (r, A)" "r \<noteq> BS_OK"
  shows "ref_count A = ref_count p \<and> uids A = uids p \<and> acsmMaxStates A \<noteq> 0 \<and>
    (if take 1 al = [False] then acsmStateTable A = None
     else \<exists>k<length (acsmPatterns p). \<exists>T. take (k + 2) al = replicate (k + 1) True @ [False] \<and> acsmStateTable A = Some T \<and>
       length T = acsmMaxStates A \<and> mset (concat (map MatchList T)) = mset (take k (acsmPatterns p)))"
proof -
  let ?ps = "acsmPatterns p"
  let ?n = "1 + sum_list (map (\<lambda>q. length (patrn q)) ?ps)"
  let ?T0 = "replicate ?n \<lparr>NextState = (\<lambda>_. None), FailState = 0, MatchList = []\<rparr>"
  obtain a al' where al: "mem_ask al = (a, al')" by (meson surj_pair)
  obtain r1 T num where add: "add_all al' ?T0 0 ?ps = (r1, T, num)" by (metis surj_pair)
  show ?thesis
  proof (cases a)
    case False
    then show ?thesis using c al mem_ask_cases [OF al] by (auto simp: ACSMX_Compile_def Let_def)
  next
    case True
    have r1: "r1 \<noteq> BS_OK" using c al add True by (auto simp: ACSMX_Compile_def Let_def split: if_splits option.splits prod.splits)
    then have A: "A = p\<lparr>acsmMaxStates := ?n, acsmNumStates := num, acsmStateTable := Some T\<rparr>"
      using c al add True by (simp add: ACSMX_Compile_def Let_def)
    obtain k rest where k: "k < length ?ps" "al' = replicate k True @ False # rest" "mset (concat (map MatchList T)) = mset (take k ?ps)"
      "length T = ?n"
      using add_all_fails [OF trie_rep_empty [of ?T0 ?n] _ add r1] by auto
    have "al = True # al'" using mem_ask_cases [OF al] True k(2) by auto
    then show ?thesis using k A by (auto intro!: exI [of _ k])
  qed
qed

text \<open>C23: What \<^verbatim>\<open>ACSMX_Free\<close> hands to the user's function, for a matcher built from patterns that are not empty. Before it is
  compiled: nothing, so that the user data leaks. After it is compiled successfully: the identifier of every pattern, exactly once.
  After a compilation in which an allocation failed: when it is the one of the table, the release reads through the null table; when it is the
  one of the \<open>k\<close>-th match list entry, the identifiers of the patterns before it, exactly once each, and the others leak.\<close>

theorem ACSMX_Free_once:
  assumes "acsmx_built added acsm" "\<forall>(w, uid)\<in>set added. w \<noteq> []"
  shows "ACSMX_Free acsm = Some [] \<and>
    (\<exists>r A. ACSMX_Compile al acsm = Some (r, A) \<and>
      (if r = BS_OK then \<exists>l. ACSMX_Free A = Some l \<and> mset l = mset (map (\<lambda>(w, uid). Some uid) added)
       else if take 1 al = [False] then ACSMX_Free A = None
       else \<exists>k<length added. take (k + 2) al = replicate (k + 1) True @ [False] \<and>
         (\<exists>l. ACSMX_Free A = Some l \<and> mset l = mset (map (\<lambda>(w, uid). Some uid) (take k added)))))"
proof -
  have b: "acsmx_wf acsm" "acsmMaxStates acsm = 0" "acsmStateTable acsm = None"
    "map (\<lambda>q. (patrn q, uids acsm (udata q))) (acsmPatterns acsm) = map (\<lambda>(w, i). (w, Some i)) added"
    using built_ok [OF assms(1)] by simp_all
  have "map patrn (acsmPatterns acsm) = map fst added"
    using arg_cong [OF b(4), of "map fst"] by (simp add: comp_def case_prod_beta)
  from arg_cong [OF this, of set] have "patrn ` set (acsmPatterns acsm) = fst ` set added" by simp
  moreover have "[] \<notin> fst ` set added" using assms(2) by auto
  ultimately have ne: "\<forall>p\<in>set (acsmPatterns acsm). patrn p \<noteq> []" by (metis imageI)
  have u: "map (\<lambda>q. uids acsm (udata q)) (acsmPatterns acsm) = map (\<lambda>(w, uid). Some uid) added"
    using arg_cong [OF b(4), of "map snd"] by (simp add: comp_def case_prod_beta)
  have len: "length (acsmPatterns acsm) = length added" using arg_cong [OF u, of length] by simp
  obtain r A where c: "ACSMX_Compile al acsm = Some (r, A)" using Compile_ok [OF b(1) ne, of al] by blast
  have ok: "\<exists>l. ACSMX_Free A = Some l \<and> mset l = mset (map (\<lambda>(w, uid). Some uid) added)" if r: "r = BS_OK"
  proof -
    obtain T strs where T: "acsmStateTable A = Some T" "length T = acsmMaxStates A" "refs_ok T (acsmPatterns acsm) (ref_count A)"
      and "uids A = uids acsm"
      using Compile_ok [OF b(1) ne, of al] c r by auto
    then show ?thesis
      using release_entries [OF b(1), of "concat (map MatchList T)" "length added" "ref_count A"] len u
      by (simp add: ACSMX_Free_def refs_ok_def)
  qed
  have fails: "if take 1 al = [False] then ACSMX_Free A = None
      else \<exists>k<length added. take (k + 2) al = replicate (k + 1) True @ [False] \<and>
        (\<exists>l. ACSMX_Free A = Some l \<and> mset l = mset (map (\<lambda>(w, uid). Some uid) (take k added)))" if r: "r \<noteq> BS_OK"
  proof (cases "take 1 al = [False]")
    case True
    then show ?thesis using Compile_fails [OF b(1) c r] by (simp add: ACSMX_Free_def)
  next
    case False
    note f = Compile_fails [OF b(1) c r, unfolded if_not_P [OF False]]
    then obtain k T where k: "k < length added" "take (k + 2) al = replicate (k + 1) True @ [False]" "acsmStateTable A = Some T"
      "length T = acsmMaxStates A" "mset (concat (map MatchList T)) = mset (take k (acsmPatterns acsm))"
      using len by auto
    let ?ms = "concat (map MatchList T)"
    have s: "set ?ms = set (take k (acsmPatterns acsm))" using k(5) by (metis set_mset_mset)
    have refs: "ref_count A v = size (filter_mset (\<lambda>m. udata m = v) (mset ?ms))" if v: "v \<in> udata ` set ?ms" for v
    proof -
      have d: "distinct (map udata (acsmPatterns acsm))" using b(1) by (simp add: acsmx_wf_def)
      have "size (filter_mset (\<lambda>m. udata m = v) (mset ?ms)) = count (mset (take k (map udata (acsmPatterns acsm)))) v"
        unfolding k(5) by (simp add: size_filter_count take_map)
      also have "\<dots> = 1"
        using v s distinct_take [OF d, of k] by (subst distinct_count_atmost_1 [THEN iffD1]) (auto simp: take_map)
      also have "v \<in> set (map udata (acsmPatterns acsm))" using v s by (auto dest: in_set_takeD)
      then have "1 = ref_count A v" using f b(1) by (simp add: acsmx_wf_def del: set_map)
      finally show ?thesis by simp
    qed
    have "mset (map (uids acsm) (free_entries ?ms (ref_count A))) = mset (map (\<lambda>(w, uid). Some uid) (take k added))"
      using release_entries [OF b(1) _ refs, of k] s u by (simp add: take_map)
    then show ?thesis using f k False by (auto simp: ACSMX_Free_def)
  qed
  have "ACSMX_Free acsm = Some []" using b(2,3) by (simp add: ACSMX_Free_def)
  then show ?thesis using c ok fails by (intro conjI exI) auto
qed

theorem ACSMX_Free_once_witness:
  "ACSMX_Free ac_example = Some [] \<and> (\<exists>A. ACSMX_Compile [] ac_example = Some (BS_OK, A) \<and> ACSMX_Free A = Some [Some 7])"
proof -
  obtain p where p: "ACSMX_New True = Some (p :: nat acsmx)" by (simp add: ACSMX_New_def)
  obtain r p' al' where a: "ACSMX_AddPattern [] p [97, 98] 7 = (r, p', al')" by (metis surj_pair)
  have "r = BS_OK" "p' = ac_example" using a p by (auto simp: ACSMX_AddPattern_def ac_example_def Let_def)
  then have b: "acsmx_built [([97, 98], 7)] ac_example"
    using acsmx_built.AddPattern [OF acsmx_built.New [OF p] a] by simp
  obtain A where A: "ACSMX_Compile [] ac_example = Some (BS_OK, A)" using ac_example_compiles by blast
  show ?thesis using ACSMX_Free_once [OF b, of "[]"] A by simp
qed

end
