(* ===== verification/CuckooHash.thy ===== *)
theory CuckooHash
  imports Prelude
begin

text \<open>
  The cuckoo hash table of \<^verbatim>\<open>hash/cuckoo_hash.c\<close>: buckets of a fixed depth in one array, two candidate buckets per key
  factor, and insertion by displacement. Indexes are natural numbers, the result -1 is \<open>None\<close>. \<^verbatim>\<open>RAND_Get\<close> is the parameter
  \<open>rnd\<close>: its value in the displacement of depth \<open>max_try\<close> (\<^verbatim>\<open>h/utl/rand_utl.h\<close> takes it from C's \<^verbatim>\<open>rand\<close>). The array index arithmetic does not overflow.
\<close>

record 'd cuckoo_node =
  used :: bool
  key_factor :: UINT
  cdata :: "'d option"

record 'd cuckoo_hash =
  bucket_mask :: UINT
  bucket_depth_mask :: UINT
  bucket_num :: nat
  bucket_depth :: nat
  entry_count :: int
  cmp_func :: "'d option \<Rightarrow> 'd option \<Rightarrow> int"
  index_func :: "'d option \<Rightarrow> UINT"
  ctable :: "'d cuckoo_node list"
  table_alloced :: bool

definition CUCKOO_HASH_MAX_TRY :: nat where
  "CUCKOO_HASH_MAX_TRY = 256"

definition cuckoohash_FirstBktIndex :: "'d cuckoo_hash \<Rightarrow> UINT \<Rightarrow> nat" where
  "cuckoohash_FirstBktIndex hash kf = unat (kf AND bucket_mask hash)"

definition cuckoohash_SecondBktIndex :: "'d cuckoo_hash \<Rightarrow> UINT \<Rightarrow> nat" where
  "cuckoohash_SecondBktIndex hash kf =
     (let first_index = kf AND bucket_mask hash;
          index = (drop_bit 16 kf XOR kf) AND bucket_mask hash
      in if index = first_index then
           (let index = (drop_bit 7 kf XOR 0x5bd1e995) AND bucket_mask hash
            in if index = first_index then unat (NOT index AND bucket_mask hash) else unat index)
         else unat index)"

definition cuckoohash_PeerBktIndex :: "'d cuckoo_hash \<Rightarrow> UINT \<Rightarrow> nat \<Rightarrow> nat" where
  "cuckoohash_PeerBktIndex hash kf cur_index =
     (let index = cuckoohash_FirstBktIndex hash kf
      in if index = cur_index then cuckoohash_SecondBktIndex hash kf else index)"

abbreviation bkt_range :: "'d cuckoo_hash \<Rightarrow> nat \<Rightarrow> nat list" where
  "bkt_range hash bkt \<equiv> [bkt * bucket_depth hash ..< bkt * bucket_depth hash + bucket_depth hash]"

definition cuukoohash_GetLastUsedInBkt :: "'d cuckoo_hash \<Rightarrow> nat \<Rightarrow> nat option" where
  "cuukoohash_GetLastUsedInBkt hash bkt = find (\<lambda>i. used (ctable hash ! i)) (rev (bkt_range hash bkt))"

definition cuckoohash_Cmp :: "'d cuckoo_hash \<Rightarrow> 'd option \<Rightarrow> 'd option \<Rightarrow> int" where
  "cuckoohash_Cmp hash data1 data2 = cmp_func hash data1 data2"

fun find_in_bkt :: "'d cuckoo_hash \<Rightarrow> UINT \<Rightarrow> 'd option \<Rightarrow> nat list \<Rightarrow> nat option" where
  "find_in_bkt hash kf d [] = None"
| "find_in_bkt hash kf d (i # is) =
     (let e = ctable hash ! i
      in if \<not> used e then None
         else if key_factor e \<noteq> kf then find_in_bkt hash kf d is
         else if cuckoohash_Cmp hash (cdata e) d = 0 then Some i
         else find_in_bkt hash kf d is)"

definition cuckoohash_FindInBkt :: "'d cuckoo_hash \<Rightarrow> nat \<Rightarrow> UINT \<Rightarrow> 'd option \<Rightarrow> nat option" where
  "cuckoohash_FindInBkt hash bkt kf d = find_in_bkt hash kf d (bkt_range hash bkt)"

definition cuckoohash_FindWithKeyFactor :: "'d cuckoo_hash \<Rightarrow> UINT \<Rightarrow> 'd option \<Rightarrow> nat option" where
  "cuckoohash_FindWithKeyFactor hash kf d =
     (case cuckoohash_FindInBkt hash (cuckoohash_FirstBktIndex hash kf) kf d of
        None \<Rightarrow> cuckoohash_FindInBkt hash (cuckoohash_SecondBktIndex hash kf) kf d
      | Some i \<Rightarrow> Some i)"

definition cuckoohash_Add2Bkt :: "'d cuckoo_hash \<Rightarrow> nat \<Rightarrow> UINT \<Rightarrow> 'd option \<Rightarrow> nat option \<times> 'd cuckoo_hash" where
  "cuckoohash_Add2Bkt hash bkt kf d =
     (case find (\<lambda>i. \<not> used (ctable hash ! i)) (bkt_range hash bkt) of
        None \<Rightarrow> (None, hash)
      | Some i \<Rightarrow> (Some i, hash\<lparr>ctable := (ctable hash)[i := \<lparr>used = True, key_factor = kf, cdata = d\<rparr>]\<rparr>))"

abbreviation put_entry :: "'d cuckoo_hash \<Rightarrow> nat \<Rightarrow> UINT \<Rightarrow> 'd option \<Rightarrow> 'd cuckoo_hash" where
  "put_entry hash i kf d \<equiv>
     hash\<lparr>ctable := (ctable hash)[i := (ctable hash ! i)\<lparr>key_factor := kf, cdata := d\<rparr>]\<rparr>"

function cuckoohash_ForceAdd2Bkt ::
  "(nat \<Rightarrow> UINT) \<Rightarrow> 'd cuckoo_hash \<Rightarrow> nat \<Rightarrow> UINT \<Rightarrow> 'd option \<Rightarrow> nat \<Rightarrow> nat option \<times> 'd cuckoo_hash" where
  "cuckoohash_ForceAdd2Bkt rnd hash bkt kf d max_try =
     (case cuckoohash_Add2Bkt hash bkt kf d of
        (Some i, hash) \<Rightarrow> (Some i, hash)
      | (None, hash) \<Rightarrow>
          if max_try \<ge> CUCKOO_HASH_MAX_TRY then (None, hash)
          else
            let force_index = bkt * bucket_depth hash + unat (rnd max_try AND bucket_depth_mask hash);
                old_kf = key_factor (ctable hash ! force_index);
                old_data = cdata (ctable hash ! force_index);
                hash = put_entry hash force_index kf d;
                peer = cuckoohash_PeerBktIndex hash old_kf bkt
            in case cuckoohash_ForceAdd2Bkt rnd hash peer old_kf old_data (max_try + 1) of
                 (None, hash) \<Rightarrow> (None, put_entry hash force_index old_kf old_data)
               | (Some _, hash) \<Rightarrow> (Some force_index, hash))"
  by pat_completeness auto
termination
  by (relation "measure (\<lambda>(rnd, hash, bkt, kf, d, max_try). CUCKOO_HASH_MAX_TRY - max_try)") auto

declare cuckoohash_ForceAdd2Bkt.simps [simp del]

definition cuckoohash_AddWithKeyFactor ::
  "(nat \<Rightarrow> UINT) \<Rightarrow> 'd cuckoo_hash \<Rightarrow> UINT \<Rightarrow> 'd option \<Rightarrow> nat option \<times> 'd cuckoo_hash" where
  "cuckoohash_AddWithKeyFactor rnd hash kf d =
     (case (case cuckoohash_Add2Bkt hash (cuckoohash_FirstBktIndex hash kf) kf d of
              (Some i, hash) \<Rightarrow> (Some i, hash)
            | (None, hash) \<Rightarrow> cuckoohash_ForceAdd2Bkt rnd hash (cuckoohash_SecondBktIndex hash kf) kf d 0) of
        (None, hash) \<Rightarrow> (None, hash)
      | (Some i, hash) \<Rightarrow> (Some i, hash\<lparr>entry_count := entry_count hash + 1\<rparr>))"

text \<open>The memory of the table comes zeroed; the functions are null until they are set.\<close>

definition cuckoohash_Init :: "'d cuckoo_hash \<Rightarrow> nat \<Rightarrow> nat \<Rightarrow> bool \<Rightarrow> 'd cuckoo_hash" where
  "cuckoohash_Init null num depth alloced =
     null\<lparr>bucket_mask := of_nat num - 1, bucket_depth_mask := of_nat depth - 1, bucket_num := num, bucket_depth := depth,
          entry_count := 0, ctable := replicate (num * depth) \<lparr>used = False, key_factor = 0, cdata = None\<rparr>,
          table_alloced := alloced\<rparr>"

text \<open>\<open>is2n\<close> is \<^verbatim>\<open>NUM_IS2N\<close>; \<open>has_table\<close> says that the caller brings the memory.\<close>

definition CuckooHash_Init ::
  "(nat \<Rightarrow> bool) \<Rightarrow> bool \<Rightarrow> 'd cuckoo_hash \<Rightarrow> 'd cuckoo_hash \<Rightarrow> bool \<Rightarrow> nat \<Rightarrow> nat \<Rightarrow> bs_status \<times> 'd cuckoo_hash" where
  "CuckooHash_Init is2n alloc null hash has_table num depth =
     (if \<not> is2n num then (BS_BAD_PARA, hash)
      else if \<not> is2n depth then (BS_BAD_PARA, hash)
      else if \<not> has_table \<and> \<not> alloc then (BS_NO_MEMORY, hash)
      else (BS_OK, cuckoohash_Init null num depth (\<not> has_table)))"

definition CuckooHash_Reinit :: "'d cuckoo_hash \<Rightarrow> 'd cuckoo_hash \<Rightarrow> 'd cuckoo_hash" where
  "CuckooHash_Reinit null hash = cuckoohash_Init null (bucket_num hash) (bucket_depth hash) (table_alloced hash)"

definition CuckooHash_SetIndexFunc :: "'d cuckoo_hash \<Rightarrow> ('d option \<Rightarrow> UINT) \<Rightarrow> 'd cuckoo_hash" where
  "CuckooHash_SetIndexFunc hash f = hash\<lparr>index_func := f\<rparr>"

definition CuckooHash_SetCmpFunc :: "'d cuckoo_hash \<Rightarrow> ('d option \<Rightarrow> 'd option \<Rightarrow> int) \<Rightarrow> 'd cuckoo_hash" where
  "CuckooHash_SetCmpFunc hash f = hash\<lparr>cmp_func := f\<rparr>"

definition CuckooHash_Find :: "'d cuckoo_hash \<Rightarrow> 'd option \<Rightarrow> nat option" where
  "CuckooHash_Find hash d = cuckoohash_FindWithKeyFactor hash (index_func hash d) d"

definition CuckooHash_FindData :: "'d cuckoo_hash \<Rightarrow> 'd option \<Rightarrow> 'd option" where
  "CuckooHash_FindData hash d = (case CuckooHash_Find hash d of None \<Rightarrow> None | Some i \<Rightarrow> cdata (ctable hash ! i))"

definition CuckooHash_Add :: "(nat \<Rightarrow> UINT) \<Rightarrow> 'd cuckoo_hash \<Rightarrow> 'd option \<Rightarrow> nat option \<times> 'd cuckoo_hash" where
  "CuckooHash_Add rnd hash d = cuckoohash_AddWithKeyFactor rnd hash (index_func hash d) d"

definition CuckooHash_DelIndex :: "'d cuckoo_hash \<Rightarrow> nat \<Rightarrow> 'd option \<times> 'd cuckoo_hash" where
  "CuckooHash_DelIndex hash index =
     (let bkt = index div bucket_depth hash
      in if index \<ge> bucket_num hash * bucket_depth hash then (None, hash)
         else if \<not> used (ctable hash ! index) then (None, hash)
         else
           let d = cdata (ctable hash ! index);
               lst = the (cuukoohash_GetLastUsedInBkt hash bkt);
               t = ctable hash;
               t = (if lst \<noteq> index then t[index := t ! lst] else t);
               t = t[lst := (t ! lst)\<lparr>used := False\<rparr>]
           in (d, hash\<lparr>ctable := t, entry_count := entry_count hash - 1\<rparr>))"

definition CuckooHash_Del :: "'d cuckoo_hash \<Rightarrow> 'd option \<Rightarrow> 'd option \<times> 'd cuckoo_hash" where
  "CuckooHash_Del hash d =
     (case CuckooHash_Find hash d of None \<Rightarrow> (None, hash) | Some i \<Rightarrow> CuckooHash_DelIndex hash i)"

definition CuckooHash_GetData :: "'d cuckoo_hash \<Rightarrow> nat \<Rightarrow> 'd option" where
  "CuckooHash_GetData hash index =
     (if index \<ge> bucket_num hash * bucket_depth hash then None
      else if \<not> used (ctable hash ! index) then None
      else cdata (ctable hash ! index))"

text \<open>The two nested loops of \<^verbatim>\<open>CuckooHash_GetNext\<close>, from the bucket and the index of the argument.\<close>

fun next_used :: "'d cuckoo_hash \<Rightarrow> nat \<Rightarrow> nat list \<Rightarrow> nat option" where
  "next_used hash index [] = None"
| "next_used hash index (bkt # bkts) =
     (case find (\<lambda>i. used (ctable hash ! i))
             [max (bkt * bucket_depth hash) index ..< bkt * bucket_depth hash + bucket_depth hash] of
        Some i \<Rightarrow> Some i
      | None \<Rightarrow> next_used hash index bkts)"

definition CuckooHash_GetNext :: "'d cuckoo_hash \<Rightarrow> nat option \<Rightarrow> nat option" where
  "CuckooHash_GetNext hash cur =
     (let index = (case cur of None \<Rightarrow> 0 | Some c \<Rightarrow> c + 1)
      in if index \<ge> bucket_num hash * bucket_depth hash then None
         else next_used hash index [index div bucket_depth hash ..< bucket_num hash])"

definition CuckooHash_Count :: "'d cuckoo_hash \<Rightarrow> int" where
  "CuckooHash_Count hash = entry_count hash"

definition CuckooHash_GetKeyFactor :: "'d cuckoo_hash \<Rightarrow> nat \<Rightarrow> UINT" where
  "CuckooHash_GetKeyFactor hash index =
     (if index \<ge> bucket_num hash * bucket_depth hash then 0
      else if \<not> used (ctable hash ! index) then 0
      else key_factor (ctable hash ! index))"

section \<open>The invariant\<close>

definition item_list :: "'d cuckoo_node \<Rightarrow> (UINT \<times> 'd option) list" where
  "item_list e = (if used e then [(key_factor e, cdata e)] else [])"

text \<open>What the table holds: key factors with data.\<close>

definition items :: "'d cuckoo_hash \<Rightarrow> (UINT \<times> 'd option) multiset" where
  "items hash = mset (concat (map item_list (ctable hash)))"

definition in_place :: "'d cuckoo_hash \<Rightarrow> nat \<Rightarrow> UINT \<Rightarrow> bool" where
  "in_place hash bkt kf \<longleftrightarrow> bkt = cuckoohash_FirstBktIndex hash kf \<or> bkt = cuckoohash_SecondBktIndex hash kf"

text \<open>Every entry is in one of the buckets of its key factor, the used entries of a bucket come first, and the masks fit.\<close>

definition cuckoo_shape :: "'d cuckoo_hash \<Rightarrow> bool" where
  [inv_defs]: "cuckoo_shape hash \<longleftrightarrow>
     bucket_num hash = unat (bucket_mask hash) + 1 \<and> bucket_depth hash = unat (bucket_depth_mask hash) + 1 \<and>
     length (ctable hash) = bucket_num hash * bucket_depth hash"

definition cuckoo_table :: "'d cuckoo_hash \<Rightarrow> bool" where
  [inv_defs]: "cuckoo_table hash \<longleftrightarrow> cuckoo_shape hash \<and>
     (\<forall>i<length (ctable hash). used (ctable hash ! i) \<longrightarrow>
        in_place hash (i div bucket_depth hash) (key_factor (ctable hash ! i)) \<and>
        (\<forall>k\<le>i. k div bucket_depth hash = i div bucket_depth hash \<longrightarrow> used (ctable hash ! k)))"

definition cuckoo_ok :: "'d cuckoo_hash \<Rightarrow> bool" where
  [inv_defs]: "cuckoo_ok hash \<longleftrightarrow> cuckoo_table hash \<and> entry_count hash = int (size (items hash))"

lemma cuckoo_tableD:
  assumes "cuckoo_table hash" "i < length (ctable hash)" "used (ctable hash ! i)"
  shows "in_place hash (i div bucket_depth hash) (key_factor (ctable hash ! i))"
    and "k \<le> i \<Longrightarrow> k div bucket_depth hash = i div bucket_depth hash \<Longrightarrow> used (ctable hash ! k)"
  using assms by (simp_all add: cuckoo_table_def)

lemma shape_pos: "cuckoo_shape hash \<Longrightarrow> 0 < bucket_depth hash"
  by (simp add: cuckoo_shape_def)

lemma and_mask_bound: "unat (x AND m) \<le> unat (m :: UINT)"
  by (metis word_and_le1 word_le_nat_alt)

lemma bkt_bounds:
  assumes "cuckoo_shape hash"
  shows "cuckoohash_FirstBktIndex hash kf < bucket_num hash" "cuckoohash_SecondBktIndex hash kf < bucket_num hash"
    "unat (r AND bucket_depth_mask hash) < bucket_depth hash"
  using assms and_mask_bound [of _ "bucket_mask hash"] and_mask_bound [of r "bucket_depth_mask hash"]
  by (auto simp: cuckoo_shape_def cuckoohash_FirstBktIndex_def cuckoohash_SecondBktIndex_def Let_def less_Suc_eq_le)

lemma in_bkt:
  assumes "0 < n"
  shows "i \<in> set [b * n ..< b * n + n] \<longleftrightarrow> i div n = (b :: nat)"
proof -
  have "i div n = b \<longleftrightarrow> b \<le> i div n \<and> i div n < b + 1" by linarith
  also have "\<dots> \<longleftrightarrow> b * n \<le> i \<and> i < b * n + n"
    using assms by (simp add: less_eq_div_iff_mult_less_eq div_less_iff_less_mult algebra_simps)
  finally show ?thesis by auto
qed

lemma bkt_index_bound:
  assumes "cuckoo_shape hash" "i div bucket_depth hash < bucket_num hash"
  shows "i < length (ctable hash)"
  using assms shape_pos [OF assms(1)] by (simp add: cuckoo_shape_def div_less_iff_less_mult)

lemma items_update:
  "i < length (ctable hash) \<Longrightarrow>
    items (hash\<lparr>ctable := (ctable hash)[i := e]\<rparr>) + mset (item_list (ctable hash ! i)) = items hash + mset (item_list e)"
  using mset_concat_update [of i "map item_list (ctable hash)" "item_list e"] by (simp add: items_def map_update)

lemma in_items: "(kf, d) \<in># items hash \<longleftrightarrow>
    (\<exists>i<length (ctable hash). used (ctable hash ! i) \<and> key_factor (ctable hash ! i) = kf \<and> cdata (ctable hash ! i) = d)"
proof -
  have "(kf, d) \<in># items hash \<longleftrightarrow> (\<exists>e\<in>set (ctable hash). (kf, d) \<in> set (item_list e))" by (simp add: items_def)
  also have "\<dots> \<longleftrightarrow> (\<exists>e\<in>set (ctable hash). used e \<and> key_factor e = kf \<and> cdata e = d)" by (auto simp: item_list_def)
  finally show ?thesis by (metis in_set_conv_nth)
qed

section \<open>Finding\<close>

lemma find_in_bkt_some:
  "find_in_bkt hash kf d is = Some i \<Longrightarrow>
    i \<in> set is \<and> used (ctable hash ! i) \<and> key_factor (ctable hash ! i) = kf \<and> cmp_func hash (cdata (ctable hash ! i)) d = 0"
  by (induction "is") (auto simp: Let_def cuckoohash_Cmp_def split: if_splits)

lemma find_in_bkt_none:
  "find_in_bkt hash kf d is = None \<Longrightarrow> i \<in> set is \<Longrightarrow> used (ctable hash ! i) \<Longrightarrow> sorted is \<Longrightarrow>
    (\<forall>k\<in>set is. k \<le> i \<longrightarrow> used (ctable hash ! k)) \<Longrightarrow> key_factor (ctable hash ! i) = kf \<Longrightarrow>
    cmp_func hash (cdata (ctable hash ! i)) d \<noteq> 0"
  by (induction "is") (auto simp: Let_def cuckoohash_Cmp_def split: if_splits)

lemma FindInBkt_some:
  assumes "cuckoo_shape hash" "cuckoohash_FindInBkt hash bkt kf d = Some i"
  shows "i div bucket_depth hash = bkt \<and> used (ctable hash ! i) \<and> key_factor (ctable hash ! i) = kf \<and>
    cmp_func hash (cdata (ctable hash ! i)) d = 0"
  using find_in_bkt_some [OF assms(2) [unfolded cuckoohash_FindInBkt_def]] in_bkt [OF shape_pos [OF assms(1)]] by blast

lemma FindInBkt_none:
  assumes t: "cuckoo_table hash" and f: "cuckoohash_FindInBkt hash bkt kf d = None"
    and i: "i < length (ctable hash)" "i div bucket_depth hash = bkt" "used (ctable hash ! i)" "key_factor (ctable hash ! i) = kf"
  shows "cmp_func hash (cdata (ctable hash ! i)) d \<noteq> 0"
proof -
  have p: "0 < bucket_depth hash" using t shape_pos [of hash] by (simp add: cuckoo_table_def)
  show ?thesis
  proof (rule find_in_bkt_none [OF f [unfolded cuckoohash_FindInBkt_def]])
    show "i \<in> set (bkt_range hash bkt)" using in_bkt [OF p] i(2) by blast
    show "\<forall>k\<in>set (bkt_range hash bkt). k \<le> i \<longrightarrow> used (ctable hash ! k)"
      using in_bkt [OF p] cuckoo_tableD(2) [OF t i(1,3)] i(2) by blast
  qed (use i in simp_all)
qed

lemma FindWithKeyFactor_some:
  assumes "cuckoo_table hash" "cuckoohash_FindWithKeyFactor hash kf d = Some i"
  shows "i < length (ctable hash) \<and> used (ctable hash ! i) \<and> key_factor (ctable hash ! i) = kf \<and>
    cmp_func hash (cdata (ctable hash ! i)) d = 0"
proof -
  have s: "cuckoo_shape hash" using assms(1) by (simp add: cuckoo_table_def)
  obtain b where "b = cuckoohash_FirstBktIndex hash kf \<or> b = cuckoohash_SecondBktIndex hash kf"
    "cuckoohash_FindInBkt hash b kf d = Some i"
    using assms(2) by (auto simp: cuckoohash_FindWithKeyFactor_def split: option.splits)
  then show ?thesis using FindInBkt_some [OF s] bkt_index_bound [OF s] bkt_bounds(1,2) [OF s] by metis
qed

lemma FindWithKeyFactor_none:
  assumes t: "cuckoo_table hash" and f: "cuckoohash_FindWithKeyFactor hash kf d = None" and "(kf, d') \<in># items hash"
  shows "cmp_func hash d' d \<noteq> 0"
proof -
  obtain i where i: "i < length (ctable hash)" "used (ctable hash ! i)" "key_factor (ctable hash ! i) = kf" "cdata (ctable hash ! i) = d'"
    using assms(3) unfolding in_items by blast
  have "in_place hash (i div bucket_depth hash) kf" using cuckoo_tableD(1) [OF t i(1,2)] i(3) by simp
  moreover have "cuckoohash_FindInBkt hash (cuckoohash_FirstBktIndex hash kf) kf d = None"
    "cuckoohash_FindInBkt hash (cuckoohash_SecondBktIndex hash kf) kf d = None"
    using f by (auto simp: cuckoohash_FindWithKeyFactor_def split: option.splits)
  ultimately show ?thesis using FindInBkt_none [OF t _ i(1) _ i(2,3)] i(4) unfolding in_place_def by metis
qed

section \<open>Adding\<close>

lemma ctable_update_simps [simp]:
  "cuckoohash_FirstBktIndex (hash\<lparr>ctable := t\<rparr>) = cuckoohash_FirstBktIndex hash"
  "cuckoohash_SecondBktIndex (hash\<lparr>ctable := t\<rparr>) = cuckoohash_SecondBktIndex hash"
  "in_place (hash\<lparr>ctable := t\<rparr>) = in_place hash"
  "cuckoo_shape (hash\<lparr>ctable := t\<rparr>) \<longleftrightarrow>
     bucket_num hash = unat (bucket_mask hash) + 1 \<and> bucket_depth hash = unat (bucket_depth_mask hash) + 1 \<and>
     length t = bucket_num hash * bucket_depth hash"
  by (simp_all add: cuckoohash_FirstBktIndex_def cuckoohash_SecondBktIndex_def in_place_def cuckoo_shape_def fun_eq_iff Let_def
      cong: if_cong)

lemma table_set:
  assumes t: "cuckoo_table hash" and i: "i < length (ctable hash)" and e: "used e" "in_place hash (i div bucket_depth hash) (key_factor e)"
    and before: "\<And>k. k < i \<Longrightarrow> k div bucket_depth hash = i div bucket_depth hash \<Longrightarrow> used (ctable hash ! k)"
  shows "cuckoo_table (hash\<lparr>ctable := (ctable hash)[i := e]\<rparr>)"
proof -
  let ?t = "(ctable hash)[i := e]"
  have "in_place hash (j div bucket_depth hash) (key_factor (?t ! j)) \<and>
      (\<forall>k\<le>j. k div bucket_depth hash = j div bucket_depth hash \<longrightarrow> used (?t ! k))"
    if j: "j < length ?t" "used (?t ! j)" for j
  proof (cases "j = i")
    case True
    have "used (?t ! k)" if "k \<le> i" "k div bucket_depth hash = i div bucket_depth hash" for k
      using before [of k] that e(1) i by (cases "k = i") simp_all
    then show ?thesis using True e i by simp
  next
    case False
    then have u: "j < length (ctable hash)" "used (ctable hash ! j)" using j by simp_all
    have "used (?t ! k)" if "k \<le> j" "k div bucket_depth hash = j div bucket_depth hash" for k
      using cuckoo_tableD(2) [OF t u that] e(1) i by (cases "k = i") simp_all
    then show ?thesis using cuckoo_tableD(1) [OF t u] False by simp
  qed
  then show ?thesis using t by (simp add: cuckoo_table_def cuckoo_shape_def)
qed

lemma Add2Bkt_some:
  assumes t: "cuckoo_table hash" and p: "in_place hash bkt kf" and a: "cuckoohash_Add2Bkt hash bkt kf d = (Some i, hash')"
  shows "cuckoo_table hash' \<and> items hash' = add_mset (kf, d) (items hash) \<and> (\<exists>t. hash' = hash\<lparr>ctable := t\<rparr>)"
proof -
  let ?e = "\<lparr>used = True, key_factor = kf, cdata = d\<rparr>"
  have s: "cuckoo_shape hash" using t by (simp add: cuckoo_table_def)
  note n = shape_pos [OF s]
  have f: "find (\<lambda>i. \<not> used (ctable hash ! i)) (bkt_range hash bkt) = Some i" "hash' = hash\<lparr>ctable := (ctable hash)[i := ?e]\<rparr>"
    using a by (simp_all add: cuckoohash_Add2Bkt_def split: option.splits)
  then obtain j where j: "j < length (bkt_range hash bkt)" "bkt_range hash bkt ! j = i" "\<not> used (ctable hash ! i)"
    "\<And>k. k < j \<Longrightarrow> used (ctable hash ! (bkt_range hash bkt ! k))"
    by (auto simp: find_Some_iff)
  have i: "i = bkt * bucket_depth hash + j" "j < bucket_depth hash" using j(1,2) by simp_all
  have b: "i div bucket_depth hash = bkt" using i by simp
  have l: "i < length (ctable hash)"
    by (rule bkt_index_bound [OF s]) (use p b bkt_bounds(1,2) [OF s] in \<open>auto simp: in_place_def\<close>)
  have "used (ctable hash ! k)" if "k < i" "k div bucket_depth hash = i div bucket_depth hash" for k
  proof -
    have "k \<in> set (bkt_range hash bkt)" using that(2) in_bkt [OF n] b by blast
    then have "bkt * bucket_depth hash \<le> k" by simp
    then show ?thesis using j(4) [of "k - bkt * bucket_depth hash"] that(1) i by simp
  qed
  then have "cuckoo_table hash'" unfolding f(2) by (intro table_set [OF t l]) (use p b in simp_all)
  moreover have "items hash' = add_mset (kf, d) (items hash)"
    using items_update [OF l, of ?e] j(3) by (simp add: f(2) item_list_def)
  ultimately show ?thesis using f(2) by blast
qed

lemma Add2Bkt_none:
  assumes s: "cuckoo_shape hash" and a: "cuckoohash_Add2Bkt hash bkt kf d = (None, hash')"
  shows "hash' = hash \<and> (\<forall>i. i div bucket_depth hash = bkt \<longrightarrow> used (ctable hash ! i))"
  using a in_bkt [OF shape_pos [OF s], of _ bkt]
  by (auto simp: cuckoohash_Add2Bkt_def find_None_iff split: option.splits)

lemma peer_in_place: "in_place hash bkt kf \<Longrightarrow> in_place hash (cuckoohash_PeerBktIndex hash kf bkt) kf"
  by (auto simp: in_place_def cuckoohash_PeerBktIndex_def Let_def)

lemma put_back:
  "i < length (ctable hash) \<Longrightarrow>
    put_entry (put_entry hash i kf d) i (key_factor (ctable hash ! i)) (cdata (ctable hash ! i)) = hash"
  by (simp add: list_update_id)

lemma ForceAdd_ok:
  "cuckoo_table hash \<Longrightarrow> in_place hash bkt kf \<Longrightarrow> cuckoohash_ForceAdd2Bkt rnd hash bkt kf d n = (r, hash') \<Longrightarrow>
    (case r of None \<Rightarrow> hash' = hash
     | Some i \<Rightarrow> cuckoo_table hash' \<and> items hash' = add_mset (kf, d) (items hash) \<and> (\<exists>t. hash' = hash\<lparr>ctable := t\<rparr>))"
proof (induction "CUCKOO_HASH_MAX_TRY - n" arbitrary: hash bkt kf d n r hash' rule: less_induct)
  case less
  have s: "cuckoo_shape hash" using less.prems(1) by (simp add: cuckoo_table_def)
  obtain a hash1 where a: "cuckoohash_Add2Bkt hash bkt kf d = (a, hash1)" by (meson surj_pair)
  show ?case
  proof (cases a)
    case (Some i)
    then have "r = Some i" "hash' = hash1" using less.prems(3) a by (simp_all add: cuckoohash_ForceAdd2Bkt.simps [of rnd hash])
    then show ?thesis using Add2Bkt_some [OF less.prems(1,2)] a Some by simp
  next
    case None
    then have h1: "hash1 = hash" and full: "\<And>i. i div bucket_depth hash = bkt \<Longrightarrow> used (ctable hash ! i)"
      using Add2Bkt_none [OF s, of bkt kf d hash1] a by simp_all
    show ?thesis
    proof (cases "n \<ge> CUCKOO_HASH_MAX_TRY")
      case True
      then show ?thesis using less.prems(3) a None h1 by (simp add: cuckoohash_ForceAdd2Bkt.simps [of rnd hash])
    next
      case False
      let ?i = "bkt * bucket_depth hash + unat (rnd n AND bucket_depth_mask hash)"
      let ?kf = "key_factor (ctable hash ! ?i)" and ?d = "cdata (ctable hash ! ?i)" and ?h = "put_entry hash ?i kf d"
      let ?p = "cuckoohash_PeerBktIndex hash ?kf bkt"
      have ib: "?i div bucket_depth hash = bkt" using bkt_bounds(3) [OF s, of "rnd n"] by simp
      have il: "?i < length (ctable hash)"
        by (rule bkt_index_bound [OF s]) (use less.prems(2) ib bkt_bounds(1,2) [OF s] in \<open>auto simp: in_place_def\<close>)
      have iu: "used (ctable hash ! ?i)" by (rule full [OF ib])
      have t: "cuckoo_table ?h"
        by (rule table_set [OF less.prems(1) il]) (use iu ib less.prems(2) full in simp_all)
      have "in_place hash bkt ?kf" using cuckoo_tableD(1) [OF less.prems(1) il iu] ib by simp
      then have p: "in_place ?h ?p ?kf" using peer_in_place by simp
      have it: "items ?h + {#(?kf, ?d)#} = add_mset (kf, d) (items hash)"
        using items_update [OF il] iu by (simp add: item_list_def)
      obtain q hash2 where q: "cuckoohash_ForceAdd2Bkt rnd ?h ?p ?kf ?d (n + 1) = (q, hash2)" by (meson surj_pair)
      have peer: "cuckoohash_PeerBktIndex ?h ?kf bkt = ?p"
        by (simp add: cuckoohash_PeerBktIndex_def Let_def cong: if_cong)
      have res: "(r, hash') = (case q of None \<Rightarrow> (None, put_entry hash2 ?i ?kf ?d) | Some _ \<Rightarrow> (Some ?i, hash2))"
        using less.prems(3) a None h1 False q peer
        by (simp add: cuckoohash_ForceAdd2Bkt.simps [of rnd hash] Let_def split: option.splits)
      have "CUCKOO_HASH_MAX_TRY - (n + 1) < CUCKOO_HASH_MAX_TRY - n" using False by simp
      from less.hyps [OF this t p q] show ?thesis
      proof (cases q)
        case None
        then have "hash2 = ?h" using less.hyps [OF \<open>CUCKOO_HASH_MAX_TRY - (n + 1) < CUCKOO_HASH_MAX_TRY - n\<close> t p q] by simp
        then show ?thesis using res None put_back [OF il] by simp
      next
        case (Some j)
        then have "cuckoo_table hash2" "items hash2 = add_mset (?kf, ?d) (items ?h)" "\<exists>t. hash2 = ?h\<lparr>ctable := t\<rparr>"
          using less.hyps [OF \<open>CUCKOO_HASH_MAX_TRY - (n + 1) < CUCKOO_HASH_MAX_TRY - n\<close> t p q] by simp_all
        moreover from this(3) have "\<exists>t. hash2 = hash\<lparr>ctable := t\<rparr>" by auto
        ultimately show ?thesis using res Some it by simp
      qed
    qed
  qed
qed

lemma entry_count_update_simps [simp]:
  "in_place (hash\<lparr>entry_count := n\<rparr>) = in_place hash"
  "cuckoo_table (hash\<lparr>entry_count := n\<rparr>) = cuckoo_table hash"
  "items (hash\<lparr>entry_count := n\<rparr>) = items hash"
proof -
  show p: "in_place (hash\<lparr>entry_count := n\<rparr>) = in_place hash"
    by (simp add: fun_eq_iff in_place_def cuckoohash_FirstBktIndex_def cuckoohash_SecondBktIndex_def Let_def cong: if_cong)
  show "cuckoo_table (hash\<lparr>entry_count := n\<rparr>) = cuckoo_table hash" "items (hash\<lparr>entry_count := n\<rparr>) = items hash"
    by (simp_all add: cuckoo_table_def cuckoo_shape_def items_def p)
qed

lemma Add_ok:
  assumes ok: "cuckoo_ok hash" and a: "cuckoohash_AddWithKeyFactor rnd hash kf d = (r, hash')"
  shows "case r of None \<Rightarrow> hash' = hash
    | Some i \<Rightarrow> cuckoo_ok hash' \<and> items hash' = add_mset (kf, d) (items hash) \<and>
        cmp_func hash' = cmp_func hash \<and> index_func hash' = index_func hash"
proof -
  have t: "cuckoo_table hash" and s: "cuckoo_shape hash" using ok by (simp_all add: cuckoo_ok_def cuckoo_table_def)
  have p: "in_place hash (cuckoohash_FirstBktIndex hash kf) kf" "in_place hash (cuckoohash_SecondBktIndex hash kf) kf"
    by (simp_all add: in_place_def)
  obtain b hash1 where b: "cuckoohash_Add2Bkt hash (cuckoohash_FirstBktIndex hash kf) kf d = (b, hash1)" by (meson surj_pair)
  have "\<exists>q hash2. (case b of Some i \<Rightarrow> (Some i, hash1)
        | None \<Rightarrow> cuckoohash_ForceAdd2Bkt rnd hash1 (cuckoohash_SecondBktIndex hash1 kf) kf d 0) = (q, hash2) \<and>
      (case q of None \<Rightarrow> hash2 = hash
       | Some i \<Rightarrow> cuckoo_table hash2 \<and> items hash2 = add_mset (kf, d) (items hash) \<and> (\<exists>t. hash2 = hash\<lparr>ctable := t\<rparr>))"
  proof (cases b)
    case None
    then have "hash1 = hash" using Add2Bkt_none [OF s] b by blast
    obtain q hash2 where f: "cuckoohash_ForceAdd2Bkt rnd hash (cuckoohash_SecondBktIndex hash kf) kf d 0 = (q, hash2)"
      by (meson surj_pair)
    then show ?thesis using ForceAdd_ok [OF t p(2) f] None \<open>hash1 = hash\<close> by simp
  next
    case (Some i)
    then show ?thesis using Add2Bkt_some [OF t p(1)] b by auto
  qed
  then obtain q hash2 where q: "(case b of Some i \<Rightarrow> (Some i, hash1)
        | None \<Rightarrow> cuckoohash_ForceAdd2Bkt rnd hash1 (cuckoohash_SecondBktIndex hash1 kf) kf d 0) = (q, hash2)"
    "case q of None \<Rightarrow> hash2 = hash
     | Some i \<Rightarrow> cuckoo_table hash2 \<and> items hash2 = add_mset (kf, d) (items hash) \<and> (\<exists>t. hash2 = hash\<lparr>ctable := t\<rparr>)" by blast
  have b': "(case cuckoohash_Add2Bkt hash (cuckoohash_FirstBktIndex hash kf) kf d of
      (Some i, hash) \<Rightarrow> (Some i, hash)
    | (None, hash) \<Rightarrow> cuckoohash_ForceAdd2Bkt rnd hash (cuckoohash_SecondBktIndex hash kf) kf d 0) = (q, hash2)"
    using q(1) b by (simp split: option.splits)
  show ?thesis
  proof (cases q)
    case None
    then show ?thesis using a b' q(2) by (simp add: cuckoohash_AddWithKeyFactor_def)
  next
    case (Some i)
    then have h: "r = Some i" "hash' = hash2\<lparr>entry_count := entry_count hash2 + 1\<rparr>"
      using a b' by (simp_all add: cuckoohash_AddWithKeyFactor_def)
    have "entry_count hash2 = entry_count hash" "cmp_func hash2 = cmp_func hash" "index_func hash2 = index_func hash"
      using q(2) Some by auto
    then show ?thesis using q(2) Some ok h by (simp add: cuckoo_ok_def)
  qed
qed

section \<open>Deleting and enumerating\<close>

lemma find_rev_last:
  assumes "find P (rev [a..<b]) = Some i"
  shows "a \<le> i \<and> i < b \<and> P i \<and> (\<forall>k. i < k \<longrightarrow> k < b \<longrightarrow> \<not> P k)"
  using assms
proof (induction b)
  case (Suc b)
  show ?case
  proof (cases "a \<le> b \<and> P b")
    case False
    then have "find P (rev [a..<b]) = Some i" using Suc.prems by (cases "a \<le> b") auto
    from Suc.IH [OF this] show ?thesis using False less_Suc_eq by auto
  qed (use Suc.prems in auto)
qed simp

lemma last_used:
  assumes t: "cuckoo_table hash" and i: "i < length (ctable hash)" "used (ctable hash ! i)"
  shows "\<exists>l. cuukoohash_GetLastUsedInBkt hash (i div bucket_depth hash) = Some l \<and> i \<le> l \<and> l < length (ctable hash) \<and>
    l div bucket_depth hash = i div bucket_depth hash \<and> used (ctable hash ! l) \<and>
    (\<forall>k. l < k \<longrightarrow> k div bucket_depth hash = i div bucket_depth hash \<longrightarrow> \<not> used (ctable hash ! k))"
proof -
  let ?b = "i div bucket_depth hash"
  have s: "cuckoo_shape hash" using t by (simp add: cuckoo_table_def)
  note m = in_bkt [OF shape_pos [OF s]]
  have "find (\<lambda>i. used (ctable hash ! i)) (rev (bkt_range hash ?b)) \<noteq> None"
    unfolding find_None_iff set_rev using m [of i ?b] i(2) by blast
  then obtain l where f: "find (\<lambda>i. used (ctable hash ! i)) (rev (bkt_range hash ?b)) = Some l" by blast
  note l = find_rev_last [OF f]
  have b: "l div bucket_depth hash = ?b" using l m [of l ?b] by simp
  have "\<not> used (ctable hash ! k)" if "l < k" "k div bucket_depth hash = ?b" for k
    using l that m [of k ?b] by simp
  moreover have "i \<le> l" using calculation [of i] i(2) by (metis not_le)
  moreover have "?b < bucket_num hash"
    using i(1) s shape_pos [OF s] by (simp add: cuckoo_shape_def div_less_iff_less_mult)
  ultimately show ?thesis using f l b bkt_index_bound [OF s] by (auto simp: cuukoohash_GetLastUsedInBkt_def)
qed

lemma mset_exchange: "a + l = b \<Longrightarrow> b + i = h + l \<Longrightarrow> a + i = (h :: 'b multiset)"
  by (metis add.assoc add.commute add_right_imp_eq)

lemma DelIndex_ok:
  assumes ok: "cuckoo_ok hash" and i: "i < length (ctable hash)" "used (ctable hash ! i)"
    and d: "CuckooHash_DelIndex hash i = (r, hash')"
  shows "r = cdata (ctable hash ! i) \<and> cuckoo_ok hash' \<and>
    items hash = add_mset (key_factor (ctable hash ! i), r) (items hash') \<and>
    cmp_func hash' = cmp_func hash \<and> index_func hash' = index_func hash"
proof -
  have t: "cuckoo_table hash" and s: "cuckoo_shape hash" using ok by (simp_all add: cuckoo_ok_def cuckoo_table_def)
  obtain l where l: "cuukoohash_GetLastUsedInBkt hash (i div bucket_depth hash) = Some l" "i \<le> l" "l < length (ctable hash)"
    "l div bucket_depth hash = i div bucket_depth hash" "used (ctable hash ! l)"
    "\<And>k. l < k \<Longrightarrow> k div bucket_depth hash = i div bucket_depth hash \<Longrightarrow> \<not> used (ctable hash ! k)"
    using last_used [OF t i] by blast
  let ?t1 = "if l \<noteq> i then (ctable hash)[i := ctable hash ! l] else ctable hash"
  have t1: "?t1 = (ctable hash)[i := ctable hash ! l]" by (simp add: list_update_id)
  let ?t = "(ctable hash)[i := ctable hash ! l, l := (ctable hash ! l)\<lparr>used := False\<rparr>]"
  have tl: "(ctable hash)[i := ctable hash ! l] ! l = ctable hash ! l" using i(1) by (cases "l = i") simp_all
  have h: "r = cdata (ctable hash ! i)" "hash' = hash\<lparr>ctable := ?t, entry_count := entry_count hash - 1\<rparr>"
    using d i s unfolding CuckooHash_DelIndex_def Let_def l(1) option.sel t1 tl by (simp_all add: cuckoo_shape_def)
  have it: "items (hash\<lparr>ctable := ?t\<rparr>) + mset (item_list (ctable hash ! i)) = items hash"
  proof -
    let ?h = "hash\<lparr>ctable := (ctable hash)[i := ctable hash ! l]\<rparr>"
    have "items (?h\<lparr>ctable := (ctable ?h)[l := (ctable hash ! l)\<lparr>used := False\<rparr>]\<rparr>) + mset (item_list (ctable ?h ! l)) =
        items ?h + mset (item_list ((ctable hash ! l)\<lparr>used := False\<rparr>))"
      by (rule items_update) (use l(3) in simp)
    then have "items (hash\<lparr>ctable := ?t\<rparr>) + mset (item_list (ctable hash ! l)) = items ?h"
      using tl by (simp add: item_list_def [of "_\<lparr>used := False\<rparr>"])
    from mset_exchange [OF this items_update [OF i(1)]] show ?thesis .
  qed
  have "in_place hash (j div bucket_depth hash) (key_factor (?t ! j)) \<and>
      (\<forall>k\<le>j. k div bucket_depth hash = j div bucket_depth hash \<longrightarrow> used (?t ! k))"
    if j: "j < length ?t" "used (?t ! j)" for j
  proof -
    have jl: "j \<noteq> l" using j by auto
    have u: "used (ctable hash ! j)" using j jl i by (cases "j = i") simp_all
    have jb: "j div bucket_depth hash = l div bucket_depth hash \<Longrightarrow> j < l"
      using l(4,6) u jl by (metis nat_neq_iff)
    have "in_place hash (j div bucket_depth hash) (key_factor (?t ! j))"
    proof (cases "j = i")
      case True
      then have "?t ! j = ctable hash ! l" using jl i(1) by simp
      then show ?thesis using cuckoo_tableD(1) [OF t l(3,5)] l(4) True by simp
    next
      case False
      then show ?thesis using cuckoo_tableD(1) [OF t _ u] j jl by simp
    qed
    moreover have "used (?t ! k)" if k: "k \<le> j" "k div bucket_depth hash = j div bucket_depth hash" for k
    proof -
      have "used (ctable hash ! k)" using cuckoo_tableD(2) [OF t _ u k] j(1) by simp
      moreover have "k \<noteq> l" using jb k by auto
      ultimately show ?thesis using l(5) i(1) by (cases "k = i") simp_all
    qed
    ultimately show ?thesis by blast
  qed
  then have "cuckoo_table (hash\<lparr>ctable := ?t\<rparr>)" using s by (simp add: cuckoo_table_def cuckoo_shape_def)
  moreover have "items hash = add_mset (key_factor (ctable hash ! i), cdata (ctable hash ! i)) (items (hash\<lparr>ctable := ?t\<rparr>))"
    using it i(2) by (simp add: item_list_def)
  ultimately show ?thesis using ok h by (simp add: cuckoo_ok_def)
qed

lemma next_used_least:
  assumes "0 < bucket_depth hash"
  shows "next_used hash index [b..<n] = find (\<lambda>i. used (ctable hash ! i)) [max (b * bucket_depth hash) index ..< n * bucket_depth hash]"
proof (cases "b \<le> n")
  case True
  then show ?thesis
  proof (induction rule: inc_induct)
    case (step b)
    let ?d = "bucket_depth hash"
    let ?P = "\<lambda>i. used (ctable hash ! i)"
    have "b * ?d + ?d \<le> n * ?d" using step.hyps mult_le_mono1 [of "Suc b" n ?d] by (simp add: ac_simps)
    then have "[max (b * ?d) index ..< n * ?d] =
        [max (b * ?d) index ..< b * ?d + ?d] @ [max (Suc b * ?d) index ..< n * ?d]"
    proof (cases "index \<le> b * ?d + ?d")
      case True
      then have "max (Suc b * ?d) index = b * ?d + ?d" "max (b * ?d) index \<le> b * ?d + ?d" by simp_all
      then show ?thesis using \<open>b * ?d + ?d \<le> n * ?d\<close> by (metis le_Suc_ex upt_add_eq_append)
    next
      case False
      then have "max (b * ?d) index = index" "max (Suc b * ?d) index = index" by simp_all
      then show ?thesis using False by simp
    qed
    moreover have "find ?P (xs @ ys) = (case find ?P xs of Some i \<Rightarrow> Some i | None \<Rightarrow> find ?P ys)" for xs ys
      by (induction xs) auto
    moreover have "[b..<n] = b # [Suc b..<n]" using step.hyps by (simp add: upt_conv_Cons)
    ultimately show ?case using step.IH by (simp cong: option.case_cong)
  qed simp
next
  case False
  then have "n * bucket_depth hash \<le> b * bucket_depth hash" by simp
  then have "[max (b * bucket_depth hash) index ..< n * bucket_depth hash] = []" by (intro upt_conv_Nil) (simp add: le_max_iff_disj)
  moreover have "[b..<n] = []" using False by simp
  ultimately show ?thesis by (simp only: next_used.simps find.simps)
qed

lemma GetNext_least:
  assumes "cuckoo_shape hash"
  shows "CuckooHash_GetNext hash cur =
    find (\<lambda>i. used (ctable hash ! i)) [(case cur of None \<Rightarrow> 0 | Some c \<Rightarrow> c + 1) ..< length (ctable hash)]"
proof -
  let ?i = "case cur of None \<Rightarrow> 0 | Some c \<Rightarrow> c + 1"
  have l: "length (ctable hash) = bucket_num hash * bucket_depth hash" using assms by (simp add: cuckoo_shape_def)
  have "max (?i div bucket_depth hash * bucket_depth hash) ?i = ?i" by (simp add: max_absorb2 div_times_less_eq_dividend)
  then show ?thesis
    using next_used_least [OF shape_pos [OF assms], of ?i "?i div bucket_depth hash" "bucket_num hash"]
    by (simp add: CuckooHash_GetNext_def Let_def l)
qed

section \<open>Properties\<close>

text \<open>C24: an insertion that succeeds adds exactly its entry, whatever was displaced, and one that gives up after the maximal
  number of displacements leaves the table as it was; a search finds an entry that compares equal exactly when the table holds one under the key
  factor; a deletion removes the entry that a search finds; all keep every entry in one of its two buckets, in front of the
  free slots, and the count.\<close>

theorem CuckooHash_is_bag:
  assumes "cuckoo_ok hash"
  shows "(case CuckooHash_Add rnd hash d of
      (None, hash') \<Rightarrow> hash' = hash
    | (Some i, hash') \<Rightarrow> cuckoo_ok hash' \<and> items hash' = add_mset (index_func hash d, d) (items hash)) \<and>
    (case CuckooHash_Find hash d of
      None \<Rightarrow> \<forall>d'. (index_func hash d, d') \<in># items hash \<longrightarrow> cmp_func hash d' d \<noteq> 0
    | Some i \<Rightarrow> (index_func hash d, CuckooHash_GetData hash i) \<in># items hash \<and> cmp_func hash (CuckooHash_GetData hash i) d = 0) \<and>
    (case CuckooHash_Find hash d of
      None \<Rightarrow> CuckooHash_Del hash d = (None, hash)
    | Some i \<Rightarrow> \<exists>hash'. CuckooHash_Del hash d = (CuckooHash_GetData hash i, hash') \<and> cuckoo_ok hash' \<and>
        items hash = add_mset (index_func hash d, CuckooHash_GetData hash i) (items hash')) \<and>
    CuckooHash_Count hash = int (size (items hash))"
proof (intro conjI)
  have t: "cuckoo_table hash" and s: "cuckoo_shape hash" using assms by (simp_all add: cuckoo_ok_def cuckoo_table_def)
  obtain r hash' where a: "CuckooHash_Add rnd hash d = (r, hash')" by (meson surj_pair)
  show "case CuckooHash_Add rnd hash d of
      (None, hash') \<Rightarrow> hash' = hash
    | (Some i, hash') \<Rightarrow> cuckoo_ok hash' \<and> items hash' = add_mset (index_func hash d, d) (items hash)"
    using Add_ok [OF assms, of rnd "index_func hash d" d r hash'] a by (auto simp: CuckooHash_Add_def split: option.splits)
  have found: "i < length (ctable hash) \<and> used (ctable hash ! i) \<and> key_factor (ctable hash ! i) = index_func hash d \<and>
      cmp_func hash (cdata (ctable hash ! i)) d = 0 \<and> CuckooHash_GetData hash i = cdata (ctable hash ! i)"
    if "CuckooHash_Find hash d = Some i" for i
    using FindWithKeyFactor_some [OF t that [unfolded CuckooHash_Find_def]] s by (simp add: CuckooHash_GetData_def cuckoo_shape_def)
  show "case CuckooHash_Find hash d of
      None \<Rightarrow> \<forall>d'. (index_func hash d, d') \<in># items hash \<longrightarrow> cmp_func hash d' d \<noteq> 0
    | Some i \<Rightarrow> (index_func hash d, CuckooHash_GetData hash i) \<in># items hash \<and> cmp_func hash (CuckooHash_GetData hash i) d = 0"
    using found FindWithKeyFactor_none [OF t, of "index_func hash d" d]
    by (cases "CuckooHash_Find hash d") (auto simp: CuckooHash_Find_def in_items)
  show "case CuckooHash_Find hash d of
      None \<Rightarrow> CuckooHash_Del hash d = (None, hash)
    | Some i \<Rightarrow> \<exists>hash'. CuckooHash_Del hash d = (CuckooHash_GetData hash i, hash') \<and> cuckoo_ok hash' \<and>
        items hash = add_mset (index_func hash d, CuckooHash_GetData hash i) (items hash')"
  proof (cases "CuckooHash_Find hash d")
    case (Some i)
    note f = found [OF Some]
    obtain r hash' where del: "CuckooHash_DelIndex hash i = (r, hash')" by (meson surj_pair)
    show ?thesis using DelIndex_ok [OF assms _ _ del] f del Some by (simp add: CuckooHash_Del_def)
  qed (simp add: CuckooHash_Del_def)
  show "CuckooHash_Count hash = int (size (items hash))" using assms by (simp add: CuckooHash_Count_def cuckoo_ok_def)
qed

lemma Init_ok:
  assumes "0 < num" "num \<le> 2 ^ 32" "0 < depth" "depth \<le> 2 ^ 32"
  shows "cuckoo_ok (cuckoohash_Init null num depth a)" "items (cuckoohash_Init null num depth a) = {#}"
proof -
  have m: "unat (of_nat n - 1 :: UINT) + 1 = n" if "0 < n" "n \<le> 2 ^ 32" for n :: nat
  proof -
    have e: "(of_nat n - 1 :: UINT) = of_nat (n - 1)" using that by (simp add: of_nat_diff)
    have "unat (of_nat (n - 1) :: UINT) = n - 1" by (rule unat_of_nat_small) (use that in simp)
    then show ?thesis unfolding e using that by linarith
  qed
  have i: "items (cuckoohash_Init null num depth a) = {#}"
    by (simp add: items_def cuckoohash_Init_def item_list_def)
  then show "cuckoo_ok (cuckoohash_Init null num depth a)" "items (cuckoohash_Init null num depth a) = {#}"
    using m [of num] m [of depth] assms by (simp_all add: cuckoo_ok_def cuckoo_table_def cuckoo_shape_def cuckoohash_Init_def)
qed

definition cuckoo_example :: "nat cuckoo_hash" where
  "cuckoo_example = cuckoohash_Init
     \<lparr>bucket_mask = 0, bucket_depth_mask = 0, bucket_num = 0, bucket_depth = 0, entry_count = 0,
      cmp_func = (\<lambda>a b. case (a, b) of (Some x, Some y) \<Rightarrow> int x - int y | _ \<Rightarrow> 1),
      index_func = (\<lambda>a. case a of Some x \<Rightarrow> of_nat x | None \<Rightarrow> 0), ctable = [], table_alloced = False\<rparr> 4 2 True"

theorem CuckooHash_is_bag_witness: "CuckooHash_Count cuckoo_example = 0 \<and> CuckooHash_Find cuckoo_example (Some 5) = None"
proof -
  have ok: "cuckoo_ok cuckoo_example" "items cuckoo_example = {#}"
    unfolding cuckoo_example_def by (rule Init_ok; simp)+
  from CuckooHash_is_bag [OF ok(1), where rnd = "\<lambda>_. 0" and d = "Some 5"] show ?thesis
    using ok(2) by (cases "CuckooHash_Find cuckoo_example (Some 5)") auto
qed

end
