(* ===== verification/RingQue.thy ===== *)
theory RingQue
  imports Prelude Interfaces
begin

text \<open>
  The ring queues of \<^verbatim>\<open>queue/que_utl.c\<close> (handles) and \<^verbatim>\<open>queue/byte_que.c\<close> (bytes): a fixed array with a base and a count.
  Both control blocks are the record \<open>que\<close>. The macro \<^verbatim>\<open>NUM_CYCLE_INDEX_ADD\<close> has no source in the repository: it is the
  parameter \<open>cyc\<close>, of which the code needs that it adds modulo the capacity (\<open>cyc_ok\<close>). Destroying a queue only frees it.
\<close>

record 'a que =
  uiBase :: UINT
  uiCount :: UINT
  uiCapacity :: UINT
  uiFlag :: UINT
  ahData :: "'a list"

type_synonym cycle_add = "UINT \<Rightarrow> UINT \<Rightarrow> UINT \<Rightarrow> UINT"

definition QUE_FLAG_OVERWRITE :: UINT where
  "QUE_FLAG_OVERWRITE = 0x1"

definition BYTE_QUE_POP_ERR :: UINT where
  "BYTE_QUE_POP_ERR = 0xFFFFFFFF"

section \<open>Queues of handles\<close>

text \<open>\<open>mem\<close> is the contents of the array that the allocator returns.\<close>

definition QUE_Create :: "'a list option \<Rightarrow> UINT \<Rightarrow> UINT \<Rightarrow> 'a que option" where
  "QUE_Create mem capacity flag =
     (case mem of None \<Rightarrow> None
      | Some xs \<Rightarrow> Some \<lparr>uiBase = 0, uiCount = 0, uiCapacity = capacity, uiFlag = flag, ahData = xs\<rparr>)"

definition QUE_Count :: "'a que \<Rightarrow> UINT" where
  "QUE_Count q = uiCount q"

definition QUE_IsFull :: "'a que \<Rightarrow> bool" where
  "QUE_IsFull q = (uiCount q = uiCapacity q)"

text \<open>The result is the status with the item, where one is stored.\<close>

definition QUE_Pop :: "cycle_add \<Rightarrow> 'a que \<Rightarrow> bs_status \<times> 'a option \<times> 'a que" where
  "QUE_Pop cyc q =
     (if uiCount q = 0 then (BS_EMPTY, None, q)
      else
        let uiSrc = uiBase q
        in (BS_OK, Some (ahData q ! unat uiSrc),
            q\<lparr>uiBase := cyc (uiBase q) 1 (uiCapacity q), uiCount := uiCount q - 1\<rparr>))"

definition QUE_Push :: "cycle_add \<Rightarrow> 'a que \<Rightarrow> 'a \<Rightarrow> bs_status \<times> 'a que" where
  "QUE_Push cyc q item =
     (let put = (\<lambda>q. (BS_OK, q\<lparr>ahData := (ahData q)[unat (cyc (uiBase q) (uiCount q) (uiCapacity q)) := item],
                               uiCount := uiCount q + 1\<rparr>))
      in if uiCount q \<ge> uiCapacity q then
           (if uiFlag q AND QUE_FLAG_OVERWRITE \<noteq> 0 then put (snd (snd (QUE_Pop cyc q))) else (BS_ERR, q))
         else put q)"

text \<open>The loop of \<^verbatim>\<open>QUE_ExtractPop\<close>: its counter, \<^verbatim>\<open>uiDest\<close>, \<^verbatim>\<open>uiSrc\<close>, the queue and \<^verbatim>\<open>eRet\<close>.\<close>

fun extract_loop :: "cycle_add \<Rightarrow> 'a \<Rightarrow> nat \<Rightarrow> UINT \<Rightarrow> UINT \<Rightarrow> 'a que \<Rightarrow> bs_status \<Rightarrow> bs_status \<times> 'a que" where
  "extract_loop cyc item 0 dest src q ret = (ret, q)"
| "extract_loop cyc item (Suc k) dest src q ret =
     (if item = ahData q ! unat src then
        extract_loop cyc item k dest (cyc src 1 (uiCapacity q)) (q\<lparr>uiCount := uiCount q - 1\<rparr>) BS_OK
      else
        extract_loop cyc item k (cyc dest 1 (uiCapacity q)) (cyc src 1 (uiCapacity q))
          (q\<lparr>ahData := (ahData q)[unat dest := ahData q ! unat src]\<rparr>) ret)"

definition QUE_ExtractPop :: "cycle_add \<Rightarrow> 'a que \<Rightarrow> 'a \<Rightarrow> bs_status \<times> 'a option \<times> 'a que" where
  "QUE_ExtractPop cyc q item =
     (case extract_loop cyc item (unat (uiCount q)) (uiBase q) (uiBase q) q BS_NOT_FOUND of
        (ret, q') \<Rightarrow> (ret, if ret = BS_OK then Some item else None, q'))"

section \<open>Queues of bytes\<close>

definition ByteQue_Create :: "UCHAR list option \<Rightarrow> UINT \<Rightarrow> UINT \<Rightarrow> UCHAR que option" where
  "ByteQue_Create mem capacity flag =
     (case mem of None \<Rightarrow> None
      | Some xs \<Rightarrow> Some \<lparr>uiBase = 0, uiCount = 0, uiCapacity = capacity, uiFlag = flag, ahData = xs\<rparr>)"

definition ByteQue_Clear :: "UCHAR que \<Rightarrow> UCHAR que" where
  "ByteQue_Clear q = q\<lparr>uiBase := 0, uiCount := 0\<rparr>"

definition ByteQue_Count :: "UCHAR que \<Rightarrow> UINT" where
  "ByteQue_Count q = uiCount q"

definition ByteQue_IsFull :: "UCHAR que \<Rightarrow> bool" where
  "ByteQue_IsFull q = (uiCount q \<ge> uiCapacity q)"

definition ByteQue_Pop :: "cycle_add \<Rightarrow> UCHAR que \<Rightarrow> UINT \<times> UCHAR que" where
  "ByteQue_Pop cyc q =
     (if uiCount q = 0 then (BYTE_QUE_POP_ERR, q)
      else
        let uiSrc = uiBase q;
            q = q\<lparr>uiBase := cyc (uiBase q) 1 (uiCapacity q), uiCount := uiCount q - 1\<rparr>
        in (ucast (ahData q ! unat uiSrc), q))"

definition ByteQue_Push :: "cycle_add \<Rightarrow> UCHAR que \<Rightarrow> UCHAR \<Rightarrow> bs_status \<times> UCHAR que" where
  "ByteQue_Push cyc q c =
     (let put = (\<lambda>q. (BS_OK, q\<lparr>ahData := (ahData q)[unat (cyc (uiBase q) (uiCount q) (uiCapacity q)) := c],
                               uiCount := uiCount q + 1\<rparr>))
      in if uiCount q \<ge> uiCapacity q then
           (if uiFlag q AND QUE_FLAG_OVERWRITE \<noteq> 0 then put (snd (ByteQue_Pop cyc q)) else (BS_FULL, q))
         else put q)"

text \<open>The loop of \<^verbatim>\<open>ByteQue_PopSpec\<close> runs \<open>k\<close> times from \<^verbatim>\<open>uiDst\<close>.\<close>

fun shift_loop :: "cycle_add \<Rightarrow> nat \<Rightarrow> UINT \<Rightarrow> UCHAR que \<Rightarrow> UCHAR que" where
  "shift_loop cyc 0 dst q = q"
| "shift_loop cyc (Suc k) dst q =
     (let src = cyc dst 1 (uiCapacity q);
          q = q\<lparr>ahData := (ahData q)[unat dst := ahData q ! unat src]\<rparr>
      in shift_loop cyc k (cyc dst 1 (uiCapacity q)) q)"

definition ByteQue_PopSpec :: "cycle_add \<Rightarrow> UCHAR que \<Rightarrow> UINT \<Rightarrow> UINT \<times> UCHAR que" where
  "ByteQue_PopSpec cyc q index =
     (if index \<ge> uiCount q then (BYTE_QUE_POP_ERR, q)
      else
        let dst = cyc (uiBase q) index (uiCapacity q);
            c = ahData q ! unat dst;
            q = shift_loop cyc (unat (uiCount q) - (unat index + 1)) dst q
        in (ucast c, q\<lparr>uiCount := uiCount q - 1\<rparr>))"

definition ByteQue_PopTail :: "cycle_add \<Rightarrow> UCHAR que \<Rightarrow> UINT \<times> UCHAR que" where
  "ByteQue_PopTail cyc q =
     (if uiCount q = 0 then (BYTE_QUE_POP_ERR, q) else ByteQue_PopSpec cyc q (uiCount q - 1))"

definition ByteQue_PeekOne :: "cycle_add \<Rightarrow> UCHAR que \<Rightarrow> UINT \<Rightarrow> UINT" where
  "ByteQue_PeekOne cyc q index =
     (if index \<ge> uiCount q then BYTE_QUE_POP_ERR
      else ucast (ahData q ! unat (cyc (uiBase q) index (uiCapacity q))))"

fun peek_loop :: "cycle_add \<Rightarrow> nat \<Rightarrow> UINT \<Rightarrow> UCHAR que \<Rightarrow> UCHAR list" where
  "peek_loop cyc 0 src q = []"
| "peek_loop cyc (Suc k) src q = ahData q ! unat src # peek_loop cyc k (cyc src 1 (uiCapacity q)) q"

text \<open>The bytes copied into the buffer; their number is the result.\<close>

definition ByteQue_Peek :: "cycle_add \<Rightarrow> UCHAR que \<Rightarrow> UINT \<Rightarrow> UINT \<Rightarrow> UCHAR list" where
  "ByteQue_Peek cyc q index n =
     (if index \<ge> uiCount q then []
      else peek_loop cyc (unat (min n (uiCount q - index))) (cyc (uiBase q) index (uiCapacity q)) q)"

section \<open>Rings\<close>

definition cyc_ok :: "cycle_add \<Rightarrow> bool" where
  "cyc_ok cyc \<longleftrightarrow> (\<forall>i n c. i < c \<longrightarrow> n \<le> c \<longrightarrow> unat (cyc i n c) = (unat i + unat n) mod unat c)"

definition que_inv :: "cycle_add \<Rightarrow> 'a que \<Rightarrow> bool" where
  [inv_defs]: "que_inv cyc q \<longleftrightarrow>
     cyc_ok cyc \<and> uiBase q < uiCapacity q \<and> uiCount q \<le> uiCapacity q \<and> length (ahData q) = unat (uiCapacity q)"

text \<open>\<open>n\<close> elements of the ring from position \<open>b\<close>.\<close>

definition ring :: "'a list \<Rightarrow> nat \<Rightarrow> nat \<Rightarrow> 'a list" where
  "ring xs b n = map (\<lambda>i. xs ! ((b + i) mod length xs)) [0..<n]"

definition que_abs :: "'a que \<Rightarrow> 'a list" where
  "que_abs q = ring (ahData q) (unat (uiBase q)) (unat (uiCount q))"

lemma length_ring [simp]: "length (ring xs b n) = n"
  by (simp add: ring_def)

lemma ring_nth [simp]: "i < n \<Longrightarrow> ring xs b n ! i = xs ! ((b + i) mod length xs)"
  by (simp add: ring_def)

lemma mod_inject:
  "i < n \<Longrightarrow> j < n \<Longrightarrow> (b + i) mod n = (b + j) mod n \<longleftrightarrow> i = (j :: nat)"
proof -
  have "x = y" if "x < n" "y < n" "(b + x) mod n = (b + y) mod n" "x \<le> y" for x y
  proof -
    have "n dvd (b + y) - (b + x)" using that mod_eq_dvd_iff_nat [of "b + x" "b + y" n] by simp
    then have "n dvd y - x" by simp
    then show ?thesis using that(2,4) by (auto dest: dvd_imp_le)
  qed
  then show "i < n \<Longrightarrow> j < n \<Longrightarrow> ?thesis" by (metis nat_le_linear)
qed

lemma ring_update:
  assumes "i < length xs" "n \<le> length xs"
  shows "ring (xs[(b + i) mod length xs := x]) b n = (if i < n then (ring xs b n)[i := x] else ring xs b n)"
proof (rule nth_equalityI)
  fix j assume "j < length (ring (xs[(b + i) mod length xs := x]) b n)"
  then have j: "j < n" "j < length xs" using assms by simp_all
  have l: "(b + j) mod length xs < length xs" by (rule mod_less_divisor) (use j in linarith)
  show "ring (xs[(b + i) mod length xs := x]) b n ! j = (if i < n then (ring xs b n)[i := x] else ring xs b n) ! j"
    using j l assms mod_inject [OF assms(1) j(2), of b] by (auto simp: nth_list_update)
qed simp

lemma ring_Suc: "ring xs b (Suc n) = ring xs b n @ [xs ! ((b + n) mod length xs)]"
  by (simp add: ring_def)

lemma ring_Cons: "ring xs b (Suc n) = xs ! (b mod length xs) # ring xs ((b + 1) mod length xs) n"
proof (rule nth_equalityI)
  fix i assume "i < length (ring xs b (Suc n))"
  then show "ring xs b (Suc n) ! i = (xs ! (b mod length xs) # ring xs ((b + 1) mod length xs) n) ! i"
    by (cases i) (simp_all add: mod_simps del: upt_Suc)
qed simp

lemma ring_drop: "i \<le> n \<Longrightarrow> ring xs ((b + i) mod length xs) (n - i) = drop i (ring xs b n)"
  by (rule nth_equalityI) (simp_all add: mod_simps add.assoc)

lemma cyc_nat: "cyc_ok cyc \<Longrightarrow> i < c \<Longrightarrow> n \<le> c \<Longrightarrow> unat (cyc i n c) = (unat i + unat n) mod unat c"
  by (simp add: cyc_ok_def)

lemma que_nat:
  assumes "que_inv cyc q"
  shows "length (ahData q) = unat (uiCapacity q)" "unat (uiBase q) < unat (uiCapacity q)" "unat (uiCount q) \<le> unat (uiCapacity q)"
    "0 < unat (uiCapacity q)" "cyc_ok cyc"
  using assms by (auto simp: que_inv_def word_less_nat_alt word_le_nat_alt)

lemma cyc_less: "cyc_ok cyc \<Longrightarrow> i < c \<Longrightarrow> n \<le> c \<Longrightarrow> cyc i n c < c"
  using cyc_nat [of cyc i c n] by (auto simp: word_less_nat_alt intro!: mod_less_divisor)

lemma one_le_cap: "i < c \<Longrightarrow> 1 \<le> (c :: UINT)"
  by (metis word_not_simps(1) linorder_not_le word_less_1)

lemma take_que:
  assumes q: "que_inv cyc q" and n: "uiCount q \<noteq> 0"
  defines "q' \<equiv> q\<lparr>uiBase := cyc (uiBase q) 1 (uiCapacity q), uiCount := uiCount q - 1\<rparr>"
  shows "que_inv cyc q'" and "que_abs q = ahData q ! unat (uiBase q) # que_abs q'"
proof -
  note u = que_nat [OF q]
  have c: "unat (uiCount q) = Suc (unat (uiCount q - 1))" using unat_dec_word [OF n] n by (simp add: unat_gt_0)
  have o: "1 \<le> uiCapacity q" using q by (auto simp: que_inv_def intro: one_le_cap)
  have b: "unat (cyc (uiBase q) 1 (uiCapacity q)) = (unat (uiBase q) + 1) mod unat (uiCapacity q)"
    using cyc_nat [OF u(5), of "uiBase q" "uiCapacity q" 1] q o by (simp add: que_inv_def)
  have "cyc (uiBase q) 1 (uiCapacity q) < uiCapacity q" using cyc_less [OF u(5)] q o by (simp add: que_inv_def)
  then show "que_inv cyc q'" using q c u(3) by (simp add: que_inv_def q'_def word_le_nat_alt)
  show "que_abs q = ahData q ! unat (uiBase q) # que_abs q'"
    using u(1,2) by (simp add: que_abs_def q'_def c ring_Cons b)
qed

lemma put_que:
  fixes x :: 'a and q :: "'a que"
  assumes q: "que_inv cyc q" and n: "uiCount q < uiCapacity q"
  defines "q' \<equiv> q\<lparr>ahData := (ahData q)[unat (cyc (uiBase q) (uiCount q) (uiCapacity q)) := x], uiCount := uiCount q + 1\<rparr>"
  shows "que_inv cyc q'" and "que_abs q' = que_abs q @ [x]"
proof -
  note u = que_nat [OF q]
  have n': "unat (uiCount q) < unat (uiCapacity q)" using n by (simp add: word_less_nat_alt)
  have c: "unat (uiCount q + 1) = Suc (unat (uiCount q))"
    by (rule unat_Suc_word) (use n' unat_lt2p [of "uiCapacity q"] in simp)
  have b: "unat (cyc (uiBase q) (uiCount q) (uiCapacity q)) = (unat (uiBase q) + unat (uiCount q)) mod length (ahData q)"
    using cyc_nat [OF u(5)] q u(1) by (simp add: que_inv_def)
  show "que_inv cyc q'" using q c n' by (simp add: que_inv_def q'_def word_le_nat_alt)
  have "ring ((ahData q)[(unat (uiBase q) + unat (uiCount q)) mod length (ahData q) := x]) (unat (uiBase q)) (Suc (unat (uiCount q))) =
      ring (ahData q) (unat (uiBase q)) (unat (uiCount q)) @ [x]"
    using n' u(1) ring_update [of "unat (uiCount q)" "ahData q" "unat (uiCount q)" "unat (uiBase q)" x]
    by (simp add: ring_Suc)
  then show "que_abs q' = que_abs q @ [x]" by (simp add: que_abs_def q'_def c b)
qed

lemma QUE_Pop_laws:
  assumes q: "que_inv cyc q"
  shows "que_inv cyc (snd (snd (QUE_Pop cyc q))) \<and> que_abs (snd (snd (QUE_Pop cyc q))) = tl (que_abs q) \<and>
    fst (snd (QUE_Pop cyc q)) = (case que_abs q of [] \<Rightarrow> None | a # _ \<Rightarrow> Some a)"
proof (cases "uiCount q = 0")
  case True
  then show ?thesis using q by (simp add: QUE_Pop_def que_abs_def ring_def)
next
  case False
  then show ?thesis using take_que [OF q False] by (simp add: QUE_Pop_def Let_def)
qed

lemma que_count: "que_inv cyc q \<Longrightarrow> length (que_abs q) = unat (uiCount q)"
  by (simp add: que_abs_def)

lemma QUE_Push_laws:
  assumes q: "que_inv cyc q"
  shows "que_inv cyc (snd (QUE_Push cyc q x)) \<and>
    QUE_Push cyc q x = (if uiCount q < uiCapacity q \<or> uiFlag q AND QUE_FLAG_OVERWRITE \<noteq> 0 then BS_OK else BS_ERR, snd (QUE_Push cyc q x)) \<and>
    que_abs (snd (QUE_Push cyc q x)) =
      (if uiCount q < uiCapacity q then que_abs q @ [x]
       else if uiFlag q AND QUE_FLAG_OVERWRITE \<noteq> 0 then tl (que_abs q) @ [x] else que_abs q)"
proof (cases "uiCount q < uiCapacity q")
  case True
  then show ?thesis using put_que [OF q True] by (simp add: QUE_Push_def not_le [symmetric])
next
  case full: False
  show ?thesis
  proof (cases "uiFlag q AND QUE_FLAG_OVERWRITE = 0")
    case True
    then show ?thesis using full q by (simp add: QUE_Push_def not_less)
  next
    case False
    have ne: "uiCount q \<noteq> 0" using full q by (auto simp: que_inv_def)
    let ?q = "snd (snd (QUE_Pop cyc q))"
    have p: "que_inv cyc ?q" "que_abs ?q = tl (que_abs q)" "uiCapacity ?q = uiCapacity q" "uiCount ?q = uiCount q - 1"
      using QUE_Pop_laws [OF q] ne by (simp_all add: QUE_Pop_def Let_def)
    have "uiCount ?q < uiCapacity ?q"
      using p(3,4) unat_dec_word [OF ne] que_nat(3) [OF q] ne unat_gt_0 [of "uiCount q"]
      by (simp add: word_less_nat_alt del: unat_gt_0) linarith?
    from put_que [OF p(1) this, of x] show ?thesis
      using full False p(2) by (auto simp: QUE_Push_def not_less)
  qed
qed

interpretation que_fifo: fifo "que_inv cyc" que_abs "\<lambda>q x. uiCount q < uiCapacity q" "\<lambda>x q. snd (QUE_Push cyc q x)"
  "\<lambda>q. snd (QUE_Pop cyc q)" for cyc
proof unfold_locales
  fix q :: "'a que" and x
  assume q: "que_inv cyc q" and r: "uiCount q < uiCapacity q"
  show "que_inv cyc (snd (QUE_Push cyc q x))" using QUE_Push_laws [OF q] by blast
  show "que_abs (snd (QUE_Push cyc q x)) = que_abs q @ [x]" using QUE_Push_laws [OF q, of x] r by presburger
next
  fix q :: "'a que"
  assume q: "que_inv cyc q"
  show "que_inv cyc (snd (snd (QUE_Pop cyc q)))" "que_abs (snd (snd (QUE_Pop cyc q))) = tl (que_abs q)"
    "fst (snd (QUE_Pop cyc q)) = (case que_abs q of [] \<Rightarrow> None | a # _ \<Rightarrow> Some a)"
    using QUE_Pop_laws [OF q] by blast+
qed

section \<open>Taking elements out of the middle\<close>

lemma ring_put: "m < length xs \<Longrightarrow> ring (xs[(b + m) mod length xs := x]) b (Suc m) = ring xs b m @ [x]"
proof -
  assume m: "m < length xs"
  then have "(b + m) mod length xs < length xs" by (intro mod_less_divisor) linarith
  then show ?thesis using ring_update [of m xs m b x] m by (simp add: ring_Suc)
qed

lemma ring_update_other:
  assumes "m < j" "j + k \<le> length xs"
  shows "ring (xs[(b + m) mod length xs := x]) ((b + j) mod length xs) k = ring xs ((b + j) mod length xs) k"
proof (rule nth_equalityI)
  fix i assume "i < length (ring (xs[(b + m) mod length xs := x]) ((b + j) mod length xs) k)"
  then have i: "i < k" by simp
  have "(b + m) mod length xs \<noteq> (b + (j + i)) mod length xs"
    using mod_inject [of m "length xs" "j + i" b] assms i by linarith
  then show "ring (xs[(b + m) mod length xs := x]) ((b + j) mod length xs) k ! i = ring xs ((b + j) mod length xs) k ! i"
    using i by (simp add: mod_simps add.assoc)
qed simp

lemma cyc_step:
  assumes "cyc_ok cyc" "unat d = (b + m) mod unat c" "0 < unat c"
  shows "unat (cyc d 1 c) = (b + Suc m) mod unat c"
proof -
  have "d < c" using assms by (simp add: word_less_nat_alt)
  then show ?thesis
    using cyc_nat [OF assms(1) \<open>d < c\<close> one_le_cap [OF \<open>d < c\<close>]] assms(2) by (simp add: mod_simps)
qed

text \<open>\<open>rest\<close> is what is still to be read; \<open>m\<close> elements are kept so far.\<close>

lemma extract_loop_correct:
  assumes "cyc_ok cyc" "length (ahData q) = unat (uiCapacity q)" "0 < unat (uiCapacity q)"
    "m \<le> j" "j + k \<le> unat (uiCapacity q)" "unat (uiCount q) = m + k"
    "unat dest = (b + m) mod unat (uiCapacity q)" "unat src = (b + j) mod unat (uiCapacity q)"
    "rest = ring (ahData q) ((b + j) mod unat (uiCapacity q)) k"
  shows "\<exists>xs c. extract_loop cyc item k dest src q ret =
      (if item \<in> set rest then BS_OK else ret, q\<lparr>ahData := xs, uiCount := c\<rparr>) \<and>
    length xs = length (ahData q) \<and> unat c = m + length (filter ((\<noteq>) item) rest) \<and>
    ring xs b (unat c) = ring (ahData q) b m @ filter ((\<noteq>) item) rest"
  using assms
proof (induction k arbitrary: m j dest src q ret rest)
  case 0
  then show ?case by (intro exI [of _ "ahData q"] exI [of _ "uiCount q"]) (simp add: ring_def)
next
  case (Suc k)
  note p = Suc.prems
  let ?n = "unat (uiCapacity q)" and ?x = "ahData q ! unat src"
  let ?rest = "ring (ahData q) ((b + Suc j) mod ?n) k"
  have r: "rest = ?x # ?rest" using p(2,8,9) by (simp add: ring_Cons mod_simps)
  have s: "unat (cyc src 1 (uiCapacity q)) = (b + Suc j) mod ?n" by (rule cyc_step [OF p(1,8,3)])
  have d: "unat (cyc dest 1 (uiCapacity q)) = (b + Suc m) mod ?n" by (rule cyc_step [OF p(1,7,3)])
  show ?case
  proof (cases "item = ?x")
    case True
    let ?q = "q\<lparr>uiCount := uiCount q - 1\<rparr>"
    have "uiCount q \<noteq> 0" using p(6) by auto
    then have c: "unat (uiCount ?q) = m + k" using p(6) unat_dec_word [of "uiCount q"] by simp
    from Suc.IH [of ?q m "Suc j" dest "cyc src 1 (uiCapacity q)" ?rest BS_OK] c s p(1-8) show ?thesis
      unfolding r by (auto simp: True)
  next
    case False
    let ?q = "q\<lparr>ahData := (ahData q)[unat dest := ?x]\<rparr>"
    have k: "ring (ahData ?q) b (Suc m) = ring (ahData q) b m @ [?x]"
      using ring_put [of m "ahData q" b ?x] p(2,4,5,7) by simp
    have o: "ring (ahData ?q) ((b + Suc j) mod ?n) k = ?rest"
      using ring_update_other [of m "Suc j" k "ahData q" b ?x] p(2,4,5,7) by simp
    from Suc.IH [of ?q "Suc m" "Suc j" "cyc dest 1 (uiCapacity q)" "cyc src 1 (uiCapacity q)" ?rest ret] k o s d p(1-8) False show ?thesis
      unfolding r by auto
  qed
qed

lemma QUE_ExtractPop_laws:
  assumes q: "que_inv cyc q"
  shows "\<exists>q'. QUE_ExtractPop cyc q item =
      (if item \<in> set (que_abs q) then (BS_OK, Some item, q') else (BS_NOT_FOUND, None, q')) \<and>
    que_inv cyc q' \<and> que_abs q' = filter ((\<noteq>) item) (que_abs q) \<and> uiCapacity q' = uiCapacity q \<and> uiFlag q' = uiFlag q"
proof -
  note u = que_nat [OF q]
  let ?b = "unat (uiBase q)" and ?N = "unat (uiCount q)"
  have a: "ring (ahData q) ((?b + 0) mod unat (uiCapacity q)) ?N = que_abs q" using u(2) by (simp add: que_abs_def)
  obtain xs c where e: "extract_loop cyc item ?N (uiBase q) (uiBase q) q BS_NOT_FOUND =
      (if item \<in> set (que_abs q) then BS_OK else BS_NOT_FOUND, q\<lparr>ahData := xs, uiCount := c\<rparr>)"
    "length xs = length (ahData q)" "unat c = length (filter ((\<noteq>) item) (que_abs q))"
    "ring xs ?b (unat c) = filter ((\<noteq>) item) (que_abs q)"
    using extract_loop_correct [OF u(5,1,4) order_refl, of 0 ?N "uiBase q" ?b "uiBase q" "que_abs q" item BS_NOT_FOUND] a u
    by (auto simp: ring_def [of _ _ 0])
  have "unat c \<le> unat (uiCapacity q)"
    using e(3) u(3) length_filter_le [of "(\<noteq>) item" "que_abs q"] by (simp add: que_count [OF q])
  then show ?thesis
    using e q by (auto simp: QUE_ExtractPop_def que_inv_def que_abs_def word_le_nat_alt)
qed

lemma shift_loop_correct:
  assumes "cyc_ok cyc" "length (ahData q) = unat (uiCapacity q)" "0 < unat (uiCapacity q)"
    "i + k < unat (uiCapacity q)" "unat dst = (b + i) mod unat (uiCapacity q)"
  shows "\<exists>xs. shift_loop cyc k dst q = q\<lparr>ahData := xs\<rparr> \<and> length xs = length (ahData q) \<and>
    ring xs b (i + k) = ring (ahData q) b i @ ring (ahData q) ((b + Suc i) mod unat (uiCapacity q)) k"
  using assms
proof (induction k arbitrary: i dst q)
  case 0
  then show ?case by (intro exI [of _ "ahData q"]) (simp add: ring_def)
next
  case (Suc k)
  note p = Suc.prems
  let ?n = "unat (uiCapacity q)" and ?d = "cyc dst 1 (uiCapacity q)"
  let ?x = "ahData q ! unat ?d"
  let ?q = "q\<lparr>ahData := (ahData q)[unat dst := ?x]\<rparr>"
  have d: "unat ?d = (b + Suc i) mod ?n" by (rule cyc_step [OF p(1,5,3)])
  have k: "ring (ahData ?q) b (Suc i) = ring (ahData q) b i @ [?x]"
    using ring_put [of i "ahData q" b ?x] p(2,4,5) by simp
  have o: "ring (ahData ?q) ((b + Suc (Suc i)) mod ?n) k = ring (ahData q) ((b + Suc (Suc i)) mod ?n) k"
    using ring_update_other [of i "Suc (Suc i)" k "ahData q" b ?x] p(2,4,5) by simp
  have r: "ring (ahData q) ((b + Suc i) mod ?n) (Suc k) = ?x # ring (ahData q) ((b + Suc (Suc i)) mod ?n) k"
    using p(2) d by (simp add: ring_Cons mod_simps)
  from Suc.IH [of ?q "Suc i" ?d] k o d p show ?case
    unfolding r by (auto simp: Let_def)
qed

section \<open>Random access to bytes\<close>

lemma ByteQue_Pop_QUE: "ByteQue_Pop cyc q =
    (case QUE_Pop cyc q of (_, None, q') \<Rightarrow> (BYTE_QUE_POP_ERR, q') | (_, Some c, q') \<Rightarrow> (ucast c, q'))"
  by (simp add: ByteQue_Pop_def QUE_Pop_def Let_def)

lemma ByteQue_Push_QUE: "ByteQue_Push cyc q c =
    (if uiCount q < uiCapacity q \<or> uiFlag q AND QUE_FLAG_OVERWRITE \<noteq> 0 then BS_OK else BS_FULL, snd (QUE_Push cyc q c))"
  by (auto simp: ByteQue_Push_def QUE_Push_def ByteQue_Pop_def QUE_Pop_def Let_def not_less)

lemma que_index:
  assumes q: "que_inv cyc q" and i: "i < uiCount q"
  shows "unat (cyc (uiBase q) i (uiCapacity q)) = (unat (uiBase q) + unat i) mod unat (uiCapacity q)"
    and "ahData q ! unat (cyc (uiBase q) i (uiCapacity q)) = que_abs q ! unat i"
proof -
  have "i \<le> uiCapacity q" using q i by (auto simp: que_inv_def)
  then show c: "unat (cyc (uiBase q) i (uiCapacity q)) = (unat (uiBase q) + unat i) mod unat (uiCapacity q)"
    using cyc_nat [OF que_nat(5) [OF q]] q by (simp add: que_inv_def)
  show "ahData q ! unat (cyc (uiBase q) i (uiCapacity q)) = que_abs q ! unat i"
    using i que_nat(1) [OF q] by (simp add: c que_abs_def word_less_nat_alt)
qed

lemma ByteQue_PopSpec_laws:
  assumes q: "que_inv cyc q" and i: "i < uiCount q"
  shows "\<exists>q'. ByteQue_PopSpec cyc q i = (ucast (que_abs q ! unat i), q') \<and> que_inv cyc q' \<and>
    que_abs q' = take (unat i) (que_abs q) @ drop (unat i + 1) (que_abs q)"
proof -
  note u = que_nat [OF q] and x = que_index [OF q i]
  let ?b = "unat (uiBase q)" and ?n = "unat (uiCapacity q)"
  have l: "unat i < unat (uiCount q)" using i by (simp add: word_less_nat_alt)
  define k where "k = unat (uiCount q) - (unat i + 1)"
  have z: "uiCount q \<noteq> 0" using l by auto
  have k: "unat i + k < ?n" "unat (uiCount q - 1) = unat i + k"
    using l u(3) by (simp_all add: k_def unat_dec_word z)
  obtain xs where xs: "shift_loop cyc k (cyc (uiBase q) i (uiCapacity q)) q = q\<lparr>ahData := xs\<rparr>" "length xs = length (ahData q)"
      "ring xs ?b (unat i + k) = ring (ahData q) ?b (unat i) @ ring (ahData q) ((?b + Suc (unat i)) mod ?n) k"
    using shift_loop_correct [OF u(5,1,4) k(1) x(1)] by blast
  have t: "ring (ahData q) ?b (unat i) = take (unat i) (que_abs q)"
    using l by (intro nth_equalityI) (simp_all add: que_abs_def)
  have d: "ring (ahData q) ((?b + Suc (unat i)) mod ?n) k = drop (unat i + 1) (que_abs q)"
    using ring_drop [of "unat i + 1" "unat (uiCount q)" "ahData q" ?b] l u(1) by (simp add: que_abs_def k_def)
  have "unat i + k \<le> ?n" using k(1) by simp
  then show ?thesis
    using xs q i l x(2) k(2) t d by (auto simp: ByteQue_PopSpec_def Let_def not_le k_def que_inv_def word_le_nat_alt que_abs_def)
qed

lemma peek_loop_ring:
  "cyc_ok cyc \<Longrightarrow> length (ahData q) = unat (uiCapacity q) \<Longrightarrow> 0 < unat (uiCapacity q) \<Longrightarrow>
    unat src = (b + i) mod unat (uiCapacity q) \<Longrightarrow> peek_loop cyc k src q = ring (ahData q) ((b + i) mod unat (uiCapacity q)) k"
proof (induction k arbitrary: src i)
  case (Suc k)
  from Suc.IH [OF Suc.prems(1,2,3) cyc_step [OF Suc.prems(1,4,3)]] show ?case
    using Suc.prems by (simp add: ring_Cons mod_simps)
qed (simp add: ring_def)

lemma ByteQue_Peek_laws:
  assumes q: "que_inv cyc q"
  shows "ByteQue_Peek cyc q i n = take (unat n) (drop (unat i) (que_abs q))"
proof (cases "i < uiCount q")
  case True
  note u = que_nat [OF q]
  define k where "k = unat (min n (uiCount q - i))"
  have l: "unat i < unat (uiCount q)" using True by (simp add: word_less_nat_alt)
  have "unat (uiCount q - i) = unat (uiCount q) - unat i" using True by (simp add: unat_sub less_imp_le)
  then have k: "k = min (unat n) (unat (uiCount q) - unat i)" by (simp add: k_def min_def word_le_nat_alt)
  have "ByteQue_Peek cyc q i n = ring (ahData q) ((unat (uiBase q) + unat i) mod unat (uiCapacity q)) k"
    using True peek_loop_ring [OF u(5,1,4) que_index(1) [OF q True], of k] by (auto simp: ByteQue_Peek_def k_def)
  also have "\<dots> = take k (ring (ahData q) ((unat (uiBase q) + unat i) mod unat (uiCapacity q)) (unat (uiCount q) - unat i))"
    using k by (intro nth_equalityI) simp_all
  also have "\<dots> = take k (drop (unat i) (que_abs q))"
    using ring_drop [of "unat i" "unat (uiCount q)" "ahData q" "unat (uiBase q)"] l u(1) by (simp add: que_abs_def)
  finally show ?thesis using l by (simp add: k que_count [OF q] min_def)
next
  case False
  then show ?thesis using que_count [OF q] by (simp add: ByteQue_Peek_def not_less word_le_nat_alt)
qed

section \<open>Properties\<close>

text \<open>C25: The queue of handles is a bounded queue. In every state of the ring, \<^verbatim>\<open>QUE_Push\<close> appends the item when there is
  room; when the ring is full it refuses with \<open>BS_ERR\<close>, or, under \<^verbatim>\<open>QUE_FLAG_OVERWRITE\<close>, drops the oldest item first.
  \<^verbatim>\<open>QUE_Pop\<close> takes the oldest item, or reports \<open>BS_EMPTY\<close>. \<^verbatim>\<open>QUE_ExtractPop\<close> removes every occurrence of an item, across the
  end of the array, and keeps the order of the others. The ring stays in order throughout.\<close>

theorem QUE_bounded_queue:
  fixes q :: "'a que"
  assumes q: "que_inv cyc q"
  shows "(\<exists>q'. QUE_Push cyc q x = (if \<not> QUE_IsFull q \<or> uiFlag q AND QUE_FLAG_OVERWRITE \<noteq> 0 then BS_OK else BS_ERR, q') \<and>
      que_inv cyc q' \<and>
      que_abs q' = (if \<not> QUE_IsFull q then que_abs q @ [x]
        else if uiFlag q AND QUE_FLAG_OVERWRITE \<noteq> 0 then tl (que_abs q) @ [x] else que_abs q)) \<and>
    (\<exists>q'. QUE_Pop cyc q = (if que_abs q = [] then (BS_EMPTY, None, q) else (BS_OK, Some (hd (que_abs q)), q')) \<and>
      que_inv cyc q' \<and> que_abs q' = tl (que_abs q)) \<and>
    (\<exists>q'. QUE_ExtractPop cyc q x =
        (if x \<in> set (que_abs q) then (BS_OK, Some x, q') else (BS_NOT_FOUND, None, q')) \<and>
      que_inv cyc q' \<and> que_abs q' = filter (\<lambda>y. x \<noteq> y) (que_abs q)) \<and>
    (unat (QUE_Count q) = length (que_abs q))"
proof (intro conjI)
  have f: "QUE_IsFull q \<longleftrightarrow> \<not> uiCount q < uiCapacity q" using q by (auto simp: QUE_IsFull_def que_inv_def)
  show "\<exists>q'. QUE_Push cyc q x = (if \<not> QUE_IsFull q \<or> uiFlag q AND QUE_FLAG_OVERWRITE \<noteq> 0 then BS_OK else BS_ERR, q') \<and>
      que_inv cyc q' \<and>
      que_abs q' = (if \<not> QUE_IsFull q then que_abs q @ [x]
        else if uiFlag q AND QUE_FLAG_OVERWRITE \<noteq> 0 then tl (que_abs q) @ [x] else que_abs q)"
    unfolding f not_not using QUE_Push_laws [OF q, of x] by blast
  show "\<exists>q'. QUE_Pop cyc q = (if que_abs q = [] then (BS_EMPTY, None, q) else (BS_OK, Some (hd (que_abs q)), q')) \<and>
      que_inv cyc q' \<and> que_abs q' = tl (que_abs q)"
  proof (cases "uiCount q = 0")
    case True
    then have "que_abs q = []" by (simp add: que_abs_def ring_def)
    then show ?thesis using True q by (auto simp: QUE_Pop_def)
  next
    case False
    then show ?thesis using take_que [OF q False] by (auto simp: QUE_Pop_def Let_def)
  qed
  show "\<exists>q'. QUE_ExtractPop cyc q x =
        (if x \<in> set (que_abs q) then (BS_OK, Some x, q') else (BS_NOT_FOUND, None, q')) \<and>
      que_inv cyc q' \<and> que_abs q' = filter (\<lambda>y. x \<noteq> y) (que_abs q)"
    using QUE_ExtractPop_laws [OF q, of x] by blast
  show "unat (QUE_Count q) = length (que_abs q)" by (simp add: QUE_Count_def que_count [OF q])
qed

text \<open>A concrete \<^verbatim>\<open>NUM_CYCLE_INDEX_ADD\<close>.\<close>

definition cyc_mod :: cycle_add where
  "cyc_mod i n c = word_of_nat ((unat i + unat n) mod unat c)"

lemma cyc_mod_ok: "cyc_ok cyc_mod"
proof -
  have "(unat i + unat n) mod unat c < 2 ^ LENGTH(32)" if "i < c" for i n c :: UINT
  proof -
    have "0 < unat c" using that by (simp add: word_less_nat_alt)
    then show ?thesis using unat_lt2p [of c] by (intro order.strict_trans [OF mod_less_divisor]) simp_all
  qed
  then show ?thesis by (simp add: cyc_ok_def cyc_mod_def unat_of_nat_small)
qed

definition que_example :: "UCHAR que" where
  "que_example = \<lparr>uiBase = 2, uiCount = 3, uiCapacity = 3, uiFlag = 1, ahData = [7, 9, 7]\<rparr>"

lemma que_example_inv: "que_inv cyc_mod que_example"
  by (simp add: que_inv_def que_example_def cyc_mod_ok)

lemma que_example_abs: "que_abs que_example = [7, 7, 9]"
  by code_simp

theorem QUE_bounded_queue_witness:
  "que_inv cyc_mod que_example \<and>
    (\<exists>q'. QUE_Push cyc_mod que_example 5 = (BS_OK, q') \<and> que_inv cyc_mod q' \<and> que_abs q' = [7, 9, 5]) \<and>
    (\<exists>q'. QUE_ExtractPop cyc_mod que_example 7 = (BS_OK, Some 7, q') \<and> que_inv cyc_mod q' \<and> que_abs q' = [9])"
proof -
  have o: "QUE_IsFull que_example" "uiFlag que_example AND QUE_FLAG_OVERWRITE \<noteq> 0" by code_simp+
  show ?thesis
    using que_example_inv QUE_bounded_queue [OF que_example_inv, THEN conjunct1, of 5]
      QUE_bounded_queue [OF que_example_inv, THEN conjunct2, THEN conjunct2, THEN conjunct1, of 7] o
    by (simp add: que_example_abs)
qed

text \<open>C26: Random access into the queue of bytes stays within its contents. \<^verbatim>\<open>ByteQue_PeekOne\<close> reads the byte at an index,
  \<^verbatim>\<open>ByteQue_Peek\<close> copies the bytes that exist from an index on, \<^verbatim>\<open>ByteQue_PopSpec\<close> takes the byte at an index out and closes the
  gap, \<^verbatim>\<open>ByteQue_PopTail\<close> takes the last byte; an index outside the contents gives \<^verbatim>\<open>BYTE_QUE_POP_ERR\<close> (which no byte
  equals), and the queue is unchanged. Pushing and popping at the ends act as the queue of handles does.\<close>

theorem ByteQue_random_access:
  fixes q :: "UCHAR que"
  assumes q: "que_inv cyc q"
  shows "(ByteQue_PeekOne cyc q i = (if unat i < length (que_abs q) then ucast (que_abs q ! unat i) else BYTE_QUE_POP_ERR)) \<and>
    (ByteQue_Peek cyc q i n = take (unat n) (drop (unat i) (que_abs q))) \<and>
    (\<exists>q'. ByteQue_PopSpec cyc q i =
        (if unat i < length (que_abs q) then (ucast (que_abs q ! unat i), q') else (BYTE_QUE_POP_ERR, q)) \<and> que_inv cyc q' \<and>
      que_abs q' = take (unat i) (que_abs q) @ drop (unat i + 1) (que_abs q)) \<and>
    (\<exists>q'. ByteQue_PopTail cyc q =
        (if que_abs q = [] then (BYTE_QUE_POP_ERR, q) else (ucast (last (que_abs q)), q')) \<and> que_inv cyc q' \<and>
      que_abs q' = butlast (que_abs q)) \<and>
    (ByteQue_Push cyc q c = (if \<not> ByteQue_IsFull q \<or> uiFlag q AND QUE_FLAG_OVERWRITE \<noteq> 0 then BS_OK else BS_FULL,
        snd (QUE_Push cyc q c))) \<and>
    (ByteQue_Pop cyc q = (if que_abs q = [] then (BYTE_QUE_POP_ERR, q) else (ucast (hd (que_abs q)), snd (snd (QUE_Pop cyc q))))) \<and>
    (ucast c \<noteq> BYTE_QUE_POP_ERR)"
proof (intro conjI)
  have l: "i < uiCount q \<longleftrightarrow> unat i < length (que_abs q)" for i by (simp add: que_count [OF q] word_less_nat_alt)
  have e: "que_abs q = [] \<longleftrightarrow> uiCount q = 0" using que_count [OF q] by (metis length_0_conv unat_eq_0_word)
  show "ByteQue_PeekOne cyc q i = (if unat i < length (que_abs q) then ucast (que_abs q ! unat i) else BYTE_QUE_POP_ERR)"
    using que_index(2) [OF q, of i] l [of i] by (auto simp: ByteQue_PeekOne_def not_le)
  show "ByteQue_Peek cyc q i n = take (unat n) (drop (unat i) (que_abs q))" by (rule ByteQue_Peek_laws [OF q])
  show "\<exists>q'. ByteQue_PopSpec cyc q i =
        (if unat i < length (que_abs q) then (ucast (que_abs q ! unat i), q') else (BYTE_QUE_POP_ERR, q)) \<and> que_inv cyc q' \<and>
      que_abs q' = take (unat i) (que_abs q) @ drop (unat i + 1) (que_abs q)"
  proof (cases "i < uiCount q")
    case True
    then show ?thesis using ByteQue_PopSpec_laws [OF q True] by (simp add: l)
  next
    case False
    then show ?thesis using q l [of i] by (auto simp: ByteQue_PopSpec_def not_less)
  qed
  show "\<exists>q'. ByteQue_PopTail cyc q =
        (if que_abs q = [] then (BYTE_QUE_POP_ERR, q) else (ucast (last (que_abs q)), q')) \<and> que_inv cyc q' \<and>
      que_abs q' = butlast (que_abs q)"
  proof (cases "uiCount q = 0")
    case True
    then show ?thesis using q e by (auto simp: ByteQue_PopTail_def)
  next
    case False
    have n: "unat (uiCount q - 1) = length (que_abs q) - 1" by (simp add: unat_dec_word [OF False] que_count [OF q])
    have "uiCount q - 1 < uiCount q" using False by (simp add: l n e)
    from ByteQue_PopSpec_laws [OF q this] show ?thesis
      using False e by (auto simp: ByteQue_PopTail_def n last_conv_nth butlast_conv_take)
  qed
  show "ByteQue_Push cyc q c = (if \<not> ByteQue_IsFull q \<or> uiFlag q AND QUE_FLAG_OVERWRITE \<noteq> 0 then BS_OK else BS_FULL,
        snd (QUE_Push cyc q c))"
    by (simp add: ByteQue_Push_QUE ByteQue_IsFull_def not_le)
  show "ByteQue_Pop cyc q = (if que_abs q = [] then (BYTE_QUE_POP_ERR, q) else (ucast (hd (que_abs q)), snd (snd (QUE_Pop cyc q))))"
    using take_que(2) [OF q] by (auto simp: ByteQue_Pop_def QUE_Pop_def Let_def e)
  have "unat (ucast c :: UINT) \<le> unat c" by (simp add: unsigned_ucast_eq)
  then have "unat (ucast c :: UINT) < 2 ^ 8" using unat_lt2p [of c] by simp
  then show "ucast c \<noteq> BYTE_QUE_POP_ERR" by (auto simp: BYTE_QUE_POP_ERR_def)
qed

theorem ByteQue_random_access_witness:
  "que_inv cyc_mod que_example \<and> ByteQue_PeekOne cyc_mod que_example 2 = 9 \<and> ByteQue_Peek cyc_mod que_example 1 5 = [7, 9] \<and>
    (\<exists>q'. ByteQue_PopSpec cyc_mod que_example 1 = (7, q') \<and> que_inv cyc_mod q' \<and> que_abs q' = [7, 9])"
  using que_example_inv ByteQue_random_access [where i = 2, OF que_example_inv, THEN conjunct1]
    ByteQue_random_access [where i = 1 and n = 5, OF que_example_inv, THEN conjunct2, THEN conjunct1]
    ByteQue_random_access [where i = 1, OF que_example_inv, THEN conjunct2, THEN conjunct2, THEN conjunct1]
  by (simp add: que_example_abs)

end
