(* ===== verification/TrieNode.thy ===== *)
theory TrieNode
  imports Prelude
begin

text \<open>
  What the five tries of \<^verbatim>\<open>trie/\<close> share: the common head of their nodes (\<^verbatim>\<open>h/utl/trie_utl.h\<close>), the loops over the characters
  of a key, the match callbacks of \<^verbatim>\<open>trie/trie_utl.c\<close>, and the contract of an implementation (locale \<open>trie_nodes\<close>) with what
  follows from it for keys.

  The nodes live on a heap: a list of nodes in the order of their allocation, addressed by position; the root is the node 0, NULL
  is \<open>None\<close>. The C structures begin with \<^verbatim>\<open>TRIE_COMMON_S\<close>; the records extend \<open>trie_common\<close>.
\<close>

record 'u trie_common =
  ud :: "'u option"
  flag :: UINT

definition TRIE_NODE_FLAG_MATCHED :: UINT where
  "TRIE_NODE_FLAG_MATCHED = 0x1"

definition TRIE_NODE_FLAG_WILDCARD :: UINT where
  "TRIE_NODE_FLAG_WILDCARD = 0x2"

datatype trie_match = TRIE_MATCH_EXACT | TRIE_MATCH_MAXLEN | TRIE_MATCH_WILDCARD | TRIE_MATCH_HOSTNAME

text \<open>The heap and the outcomes of the next allocations.\<close>

type_synonym 'n trie_mem = "'n list \<times> bool list"

type_synonym 'n trie_insert = "nat \<Rightarrow> UCHAR \<Rightarrow> 'n trie_mem \<Rightarrow> nat option \<times> 'n trie_mem"

section \<open>Match callbacks\<close>

text \<open>A callback gets the match so far, the node with its common part, and the length matched; NULL keeps the match so far.\<close>

type_synonym 'u match_cb = "nat option \<Rightarrow> nat \<Rightarrow> 'u trie_common \<Rightarrow> int \<Rightarrow> nat option"

definition trie_exact_match :: "UCHAR list \<Rightarrow> int \<Rightarrow> 'u match_cb" where
  "trie_exact_match data data_len old cur common matched_len =
     (if matched_len = data_len then Some cur else None)"

definition trie_max_match :: "UCHAR list \<Rightarrow> int \<Rightarrow> 'u match_cb" where
  "trie_max_match data data_len old cur common matched_len = Some cur"

definition trie_wildcard_match :: "UCHAR list \<Rightarrow> int \<Rightarrow> 'u match_cb" where
  "trie_wildcard_match data data_len old cur common matched_len =
     (if matched_len = data_len then Some cur
      else if flag common AND TRIE_NODE_FLAG_WILDCARD \<noteq> 0 then Some cur
      else None)"

text \<open>The character is \<open>'.'\<close>.\<close>

definition trie_hostname_match :: "UCHAR list \<Rightarrow> int \<Rightarrow> 'u match_cb" where
  "trie_hostname_match data data_len old cur common matched_len =
     (if matched_len = data_len then Some cur
      else if data ! nat (matched_len + 1) = 0x2E then Some cur
      else None)"

definition g_match_types :: "trie_match \<Rightarrow> UCHAR list \<Rightarrow> int \<Rightarrow> 'u match_cb" where
  "g_match_types ty = (case ty of
     TRIE_MATCH_EXACT \<Rightarrow> trie_exact_match
   | TRIE_MATCH_MAXLEN \<Rightarrow> trie_max_match
   | TRIE_MATCH_WILDCARD \<Rightarrow> trie_wildcard_match
   | TRIE_MATCH_HOSTNAME \<Rightarrow> trie_hostname_match)"

section \<open>Loops over a key\<close>

text \<open>The loop of the \<^verbatim>\<open>PrefixMatch\<close> functions: the characters left, the node found, the length matched, the match so far.\<close>

fun prefix_loop ::
  "('h list \<Rightarrow> nat \<Rightarrow> UCHAR \<Rightarrow> nat option) \<Rightarrow> ('h \<Rightarrow> 'u trie_common) \<Rightarrow> 'h list \<Rightarrow> 'u match_cb \<Rightarrow>
   UCHAR list \<Rightarrow> nat \<Rightarrow> int \<Rightarrow> nat option \<Rightarrow> nat option" where
  "prefix_loop get com h func [] found matched_len best = best"
| "prefix_loop get com h func (c # cs) found matched_len best =
     (case get h found c of
        None \<Rightarrow> best
      | Some found \<Rightarrow>
          let matched_len = matched_len + 1;
              best = (if flag (com (h ! found)) AND TRIE_NODE_FLAG_MATCHED \<noteq> 0 then
                        (case func best found (com (h ! found)) matched_len of Some m \<Rightarrow> Some m | None \<Rightarrow> best)
                      else best)
          in prefix_loop get com h func cs found matched_len best)"

definition prefix_match ::
  "('h list \<Rightarrow> nat \<Rightarrow> UCHAR \<Rightarrow> nat option) \<Rightarrow> ('h \<Rightarrow> 'u trie_common) \<Rightarrow> 'h list \<Rightarrow> nat \<Rightarrow> UCHAR list \<Rightarrow> int \<Rightarrow>
   'u match_cb \<Rightarrow> nat option" where
  "prefix_match get com h root data data_len func =
     (if data_len \<le> 0 then None else prefix_loop get com h func (take (nat data_len) data) root 0 None)"

text \<open>The loop of \<^verbatim>\<open>Trie_InsertEx\<close>.\<close>

fun insert_loop :: "'n trie_insert \<Rightarrow> UCHAR list \<Rightarrow> nat \<Rightarrow> 'n trie_mem \<Rightarrow> nat option \<times> 'n trie_mem" where
  "insert_loop ins [] cur m = (Some cur, m)"
| "insert_loop ins (c # cs) cur m =
     (case ins cur c m of
        (None, m) \<Rightarrow> (None, m)
      | (Some cur, m) \<Rightarrow> insert_loop ins cs cur m)"

definition trie_insert_ex ::
  "('u, 'n) trie_common_scheme trie_insert \<Rightarrow> UCHAR list \<Rightarrow> int \<Rightarrow> UINT \<Rightarrow> ('u option \<Rightarrow> 'v \<Rightarrow> 'u option) \<Rightarrow> 'v \<Rightarrow>
   ('u, 'n) trie_common_scheme trie_mem \<Rightarrow> nat option \<times> ('u, 'n) trie_common_scheme trie_mem" where
  "trie_insert_ex ins data data_len fl ud_set uh m =
     (if data_len \<le> 0 then (None, m)
      else case insert_loop ins (take (nat data_len) data) 0 m of
        (None, m) \<Rightarrow> (None, m)
      | (Some cur, h, al) \<Rightarrow>
          let h = h[cur := (h ! cur)\<lparr>ud := ud_set (ud (h ! cur)) uh\<rparr>];
              h = h[cur := (h ! cur)\<lparr>flag := flag (h ! cur) OR TRIE_NODE_FLAG_MATCHED\<rparr>];
              h = h[cur := (h ! cur)\<lparr>flag := flag (h ! cur) OR fl\<rparr>]
          in (Some cur, h, al))"

text \<open>The end of \<^verbatim>\<open>Trie_Del\<close>, on the node that the exact match found.\<close>

definition trie_del_node :: "nat option \<Rightarrow> ('u, 'n) trie_common_scheme list \<Rightarrow> 'u option \<times> ('u, 'n) trie_common_scheme list" where
  "trie_del_node common h =
     (case common of
        None \<Rightarrow> (None, h)
      | Some n \<Rightarrow>
          let h = h[n := (h ! n)\<lparr>flag := 0\<rparr>];
              u = ud (h ! n);
              h = h[n := (h ! n)\<lparr>ud := None\<rparr>]
          in (u, h))"

section \<open>Bit arrays\<close>

definition ArrayBit_Set :: "UINT list \<Rightarrow> nat \<Rightarrow> UINT list" where
  "ArrayBit_Set data index = data[drop_bit 5 index := data ! drop_bit 5 index OR push_bit (index AND 31) 1]"

definition ArrayBit_Clr :: "UINT list \<Rightarrow> nat \<Rightarrow> UINT list" where
  "ArrayBit_Clr data index = data[drop_bit 5 index := data ! drop_bit 5 index AND NOT (push_bit (index AND 31) 1)]"

definition ArrayBit_Test :: "UINT list \<Rightarrow> nat \<Rightarrow> bool" where
  "ArrayBit_Test data index = (data ! drop_bit 5 index AND push_bit (index AND 31) 1 \<noteq> 0)"

lemma ArrayBit_Test_bit: "ArrayBit_Test d i \<longleftrightarrow> bit (d ! (i div 32)) (i mod 32)"
proof -
  have i: "drop_bit 5 i = i div 32" "i AND 31 = i mod 32"
    using take_bit_eq_mask [of 5 i] by (simp_all add: drop_bit_eq_div take_bit_eq_mod mask_eq_exp_minus_1)
  have "x AND push_bit n 1 \<noteq> 0 \<longleftrightarrow> bit x n" for x :: UINT and n
    by (simp add: push_bit_eq_mult and_exp_eq_0_iff_not_bit)
  then show ?thesis by (simp add: ArrayBit_Test_def i)
qed

lemma ArrayBit_Test_Set:
  assumes "length d = 8" "i < 256" "j < 256"
  shows "ArrayBit_Test (ArrayBit_Set d i) j \<longleftrightarrow> i = j \<or> ArrayBit_Test d j"
proof -
  have i: "drop_bit 5 i = i div 32" "i AND 31 = i mod 32"
    using take_bit_eq_mask [of 5 i] by (simp_all add: drop_bit_eq_div take_bit_eq_mod mask_eq_exp_minus_1)
  have l: "i div 32 < 8" using assms(2) by simp
  have "i = j \<longleftrightarrow> i div 32 = j div 32 \<and> i mod 32 = j mod 32" by (metis div_mult_mod_eq)
  then show ?thesis
    using l assms(1) by (auto simp: ArrayBit_Test_bit ArrayBit_Set_def i nth_list_update bit_simps)
qed

lemma length_ArrayBit_Set [simp]: "length (ArrayBit_Set d i) = length d"
  by (simp add: ArrayBit_Set_def)

lemma ArrayBit_Test_zero [simp]: "i < 256 \<Longrightarrow> \<not> ArrayBit_Test (replicate 8 0) i"
  by (simp add: ArrayBit_Test_bit)

section \<open>The longest hit\<close>

lemma find_rev_upt:
  "find P (rev [1..<Suc n]) = Some k \<longleftrightarrow> 1 \<le> k \<and> k \<le> n \<and> P k \<and> (\<forall>j. k < j \<longrightarrow> j \<le> n \<longrightarrow> \<not> P j)"
proof (induction n)
  case (Suc n)
  have "rev [1..<Suc (Suc n)] = Suc n # rev [1..<Suc n]" by simp
  then show ?case using Suc by (auto simp: le_Suc_eq simp del: upt_Suc dest: spec [of _ "Suc n"])
qed auto

text \<open>The test that a callback puts to a node.\<close>

definition match_test :: "trie_match \<Rightarrow> UCHAR list \<Rightarrow> int \<Rightarrow> UINT \<Rightarrow> int \<Rightarrow> bool" where
  "match_test ty data data_len fl len \<longleftrightarrow> ty = TRIE_MATCH_MAXLEN \<or> len = data_len \<or>
     ty = TRIE_MATCH_WILDCARD \<and> fl AND TRIE_NODE_FLAG_WILDCARD \<noteq> 0 \<or>
     ty = TRIE_MATCH_HOSTNAME \<and> data ! nat (len + 1) = 0x2E"

lemma g_match_types_test:
  "g_match_types ty data data_len old cur com len = (if match_test ty data data_len (flag com) len then Some cur else None)"
  by (cases ty) (simp_all add: g_match_types_def match_test_def trie_exact_match_def trie_max_match_def
      trie_wildcard_match_def trie_hostname_match_def)

section \<open>The contract of an implementation\<close>

lemma find_append_map:
  "find P (map f xs @ [y]) = (case find (P \<circ> f) xs of Some x \<Rightarrow> Some (f x) | None \<Rightarrow> if P y then Some y else None)"
  by (induction xs) auto

text \<open>\<open>node h n\<close>: a node that stands for a key. \<open>step\<close> finds the successor of a node for a character; \<open>ins\<close> finds or makes it.\<close>

locale trie_nodes =
  fixes ok :: "('u, 'n) trie_common_scheme list \<Rightarrow> bool"
    and node :: "('u, 'n) trie_common_scheme list \<Rightarrow> nat \<Rightarrow> bool"
    and step :: "('u, 'n) trie_common_scheme list \<Rightarrow> nat \<Rightarrow> UCHAR \<Rightarrow> nat option"
    and ins :: "('u, 'n) trie_common_scheme trie_insert"
  assumes root: "ok h \<Longrightarrow> node h 0"
    and node_less: "ok h \<Longrightarrow> node h n \<Longrightarrow> n < length h"
    and step_node: "ok h \<Longrightarrow> node h n \<Longrightarrow> step h n c = Some m \<Longrightarrow> node h m \<and> m \<noteq> 0"
    and step_inj: "ok h \<Longrightarrow> node h n \<Longrightarrow> node h n' \<Longrightarrow> step h n c = Some m \<Longrightarrow> step h n' c' = Some m \<Longrightarrow> n = n' \<and> c = c'"
    and set_ok: "ok h \<Longrightarrow> node h n \<Longrightarrow> ok (h[n := (h ! n)\<lparr>ud := u, flag := f\<rparr>])"
    and set_node: "ok h \<Longrightarrow> node h n \<Longrightarrow> node h x \<Longrightarrow> node (h[n := (h ! n)\<lparr>ud := u, flag := f\<rparr>]) x"
    and set_step: "ok h \<Longrightarrow> node h n \<Longrightarrow> node h x \<Longrightarrow> step (h[n := (h ! n)\<lparr>ud := u, flag := f\<rparr>]) x = step h x"
    and ins_ok: "ok h \<Longrightarrow> node h n \<Longrightarrow> ins n c (h, al) = (r, h', al') \<Longrightarrow> ok h'"
    and ins_keep: "ok h \<Longrightarrow> node h n \<Longrightarrow> ins n c (h, al) = (r, h', al') \<Longrightarrow> node h x \<Longrightarrow>
      node h' x \<and> ud (h' ! x) = ud (h ! x) \<and> flag (h' ! x) = flag (h ! x)"
    and ins_step: "ok h \<Longrightarrow> node h n \<Longrightarrow> ins n c (h, al) = (r, h', al') \<Longrightarrow> node h x \<Longrightarrow>
      step h' x = (if x = n \<and> r \<noteq> None then (step h n)(c := r) else step h x)"
    and ins_same: "ok h \<Longrightarrow> node h n \<Longrightarrow> ins n c (h, al) = (r, h', al') \<Longrightarrow> step h n c = Some m \<Longrightarrow> r = Some m"
    and ins_new: "ok h \<Longrightarrow> node h n \<Longrightarrow> ins n c (h, al) = (r, h', al') \<Longrightarrow> step h n c = None \<Longrightarrow> r = Some m \<Longrightarrow>
      (\<forall>c. step h' m c = None) \<and> ud (h' ! m) = None \<and> flag (h' ! m) = 0"
    and ins_mem: "ok h \<Longrightarrow> node h n \<Longrightarrow> ins n c (h, []) = (r, h', al') \<Longrightarrow> r \<noteq> None \<and> al' = []"
begin

fun walk :: "('u, 'n) trie_common_scheme list \<Rightarrow> nat \<Rightarrow> UCHAR list \<Rightarrow> nat option" where
  "walk h n [] = Some n"
| "walk h n (c # cs) = (case step h n c of None \<Rightarrow> None | Some m \<Rightarrow> walk h m cs)"

text \<open>What a key carries: the user data and the flags of its node.\<close>

definition content :: "('u, 'n) trie_common_scheme list \<Rightarrow> UCHAR list \<Rightarrow> 'u option \<times> UINT" where
  "content h s = (case walk h 0 s of None \<Rightarrow> (None, 0) | Some n \<Rightarrow> (ud (h ! n), flag (h ! n)))"

lemma walk_append: "walk h n (s @ t) = (case walk h n s of None \<Rightarrow> None | Some m \<Rightarrow> walk h m t)"
  by (induction s arbitrary: n) (auto split: option.split)

lemma walk_one [simp]: "walk h n [c] = step h n c"
  by (simp split: option.split)

lemma walk_node: "ok h \<Longrightarrow> node h n \<Longrightarrow> walk h n s = Some m \<Longrightarrow> node h m"
  by (induction s arbitrary: n) (auto split: option.splits dest: step_node)

lemma walk_inj: "ok h \<Longrightarrow> walk h 0 s = Some n \<Longrightarrow> walk h 0 t = Some n \<Longrightarrow> s = t"
proof (induction s arbitrary: n t rule: rev_induct)
  case Nil
  show ?case
  proof (cases t rule: rev_cases)
    case (snoc t' c)
    then obtain m where m: "walk h 0 t' = Some m" "step h m c = Some 0"
      using Nil.prems by (auto simp: walk_append split: option.splits)
    have "node h m" by (rule walk_node [OF Nil.prems(1) root [OF Nil.prems(1)] m(1)])
    then show ?thesis using step_node [OF Nil.prems(1) _ m(2)] by simp
  qed simp
next
  case (snoc c s)
  from snoc.prems obtain m where m: "walk h 0 s = Some m" "step h m c = Some n" by (auto simp: walk_append split: option.splits)
  have mn: "node h m" by (rule walk_node [OF snoc.prems(1) root [OF snoc.prems(1)] m(1)])
  show ?case
  proof (cases t rule: rev_cases)
    case Nil
    then show ?thesis using snoc.prems step_node [OF snoc.prems(1) mn m(2)] by simp
  next
    case (snoc t' c')
    then obtain m' where m': "walk h 0 t' = Some m'" "step h m' c' = Some n"
      using snoc.prems by (auto simp: walk_append split: option.splits)
    have "node h m'" by (rule walk_node [OF snoc.prems(1) root [OF snoc.prems(1)] m'(1)])
    then have "m = m'" "c = c'" using step_inj [OF snoc.prems(1) mn _ m(2)] m'(2) by blast+
    then show ?thesis using snoc.IH [OF snoc.prems(1) m(1), of t'] m'(1) snoc by simp
  qed
qed

lemma set_walk:
  assumes "ok h" "node h n" "node h x"
  shows "walk (h[n := (h ! n)\<lparr>ud := u, flag := f\<rparr>]) x s = walk h x s"
  using assms(3) by (induction s arbitrary: x) (auto simp: set_step [OF assms(1,2)] split: option.split dest: step_node [OF assms(1)])

lemma set_content:
  assumes "ok h" "walk h 0 s = Some n"
  shows "content (h[n := (h ! n)\<lparr>ud := u, flag := f\<rparr>]) = (content h)(s := (u, f))"
proof
  fix t
  have n: "node h n" by (rule walk_node [OF assms(1) root [OF assms(1)] assms(2)])
  note w = set_walk [OF assms(1) n root [OF assms(1)]]
  show "content (h[n := (h ! n)\<lparr>ud := u, flag := f\<rparr>]) t = ((content h)(s := (u, f))) t"
  proof (cases "t = s")
    case True
    then show ?thesis using node_less [OF assms(1) n] assms(2) by (simp add: content_def w)
  next
    case False
    then have "walk h 0 t \<noteq> Some n" using walk_inj [OF assms] by blast
    then show ?thesis using False by (auto simp: content_def w split: option.split)
  qed
qed

text \<open>One character: keys keep their nodes and what they carry; a new node carries nothing.\<close>

lemma ins_walk:
  assumes o: "ok h" "node h n" and i: "ins n c (h, al) = (r, h', al')" and x: "node h x"
  shows "walk h x s = Some y \<Longrightarrow> walk h' x s = Some y"
    and "walk h x s = None \<Longrightarrow> walk h' x s = Some y \<Longrightarrow> ud (h' ! y) = None \<and> flag (h' ! y) = 0"
proof -
  have w: "(\<forall>y. walk h x s = Some y \<longrightarrow> walk h' x s = Some y) \<and>
      (walk h x s = None \<longrightarrow> walk h' x s = Some y \<longrightarrow> ud (h' ! y) = None \<and> flag (h' ! y) = 0)"
    using x
  proof (induction s arbitrary: x)
    case (Cons d s)
    show ?case
    proof (cases "step h x d")
      case (Some z)
      have z: "node h z" using step_node [OF o(1) Cons.prems Some] by simp
      have "step h' x d = Some z"
        using ins_step [OF o i Cons.prems] ins_same [OF o i] Some by (auto split: if_splits)
      then show ?thesis using Cons.IH [OF z] Some by simp
    next
      case None
      show ?thesis
      proof (cases "x = n \<and> d = c \<and> r \<noteq> None")
        case True
        then obtain m where m: "r = Some m" by blast
        note new = ins_new [OF o i, of m]
        have "step h' x d = Some m" using ins_step [OF o i Cons.prems] True m by simp
        moreover have "walk h' m s = Some y \<Longrightarrow> s = [] \<and> y = m" using new None True m by (cases s) auto
        ultimately show ?thesis using new None True m by auto
      next
        case False
        then have "step h' x d = None" using ins_step [OF o i Cons.prems] None by auto
        then show ?thesis using None by simp
      qed
    qed
  qed simp
  show "walk h x s = Some y \<Longrightarrow> walk h' x s = Some y"
    and "walk h x s = None \<Longrightarrow> walk h' x s = Some y \<Longrightarrow> ud (h' ! y) = None \<and> flag (h' ! y) = 0"
    using w by blast+
qed

lemma ins_content:
  assumes o: "ok h" "node h n" and i: "ins n c (h, al) = (r, h', al')"
  shows "content h' = content h"
proof
  fix s
  note w = ins_walk [OF o i root [OF o(1)], of s]
  show "content h' s = content h s"
  proof (cases "walk h 0 s")
    case (Some y)
    then have "node h y" using walk_node [OF o(1) root [OF o(1)]] by blast
    then show ?thesis using w(1) [OF Some] Some ins_keep [OF o i] by (simp add: content_def)
  next
    case None
    then show ?thesis using w(2) [OF None] by (auto simp: content_def split: option.split)
  qed
qed

lemma insert_loop_walk:
  "ok h \<Longrightarrow> walk h 0 p = Some n \<Longrightarrow> insert_loop ins cs n (h, al) = (r, h', al') \<Longrightarrow>
    ok h' \<and> content h' = content h \<and> (\<forall>m. r = Some m \<longrightarrow> walk h' 0 (p @ cs) = Some m)"
proof (induction cs arbitrary: p n h al)
  case (Cons c cs)
  note o = Cons.prems(1) and w = Cons.prems(2)
  have n: "node h n" by (rule walk_node [OF o root [OF o] w])
  obtain q h1 al1 where i: "ins n c (h, al) = (q, h1, al1)" by (metis surj_pair)
  note k = ins_ok [OF o n i] ins_content [OF o n i] ins_walk(1) [OF o n i root [OF o] w]
  show ?case
  proof (cases q)
    case None
    then show ?thesis using Cons.prems(3) k i by auto
  next
    case (Some m)
    have "step h1 n c = Some m" using ins_step [OF o n i n] Some by simp
    then have "walk h1 0 (p @ [c]) = Some m" using k(3) by (simp add: walk_append)
    from Cons.IH [OF k(1) this] show ?thesis using Cons.prems(3) k(2) i Some by fastforce
  qed
qed auto

text \<open>Insertion: a key is redirected to the new user data and flags, or nothing changes.\<close>

lemma trie_insert_ex_content:
  assumes o: "ok h" and i: "trie_insert_ex ins data data_len fl ud_set uh (h, al) = (r, h', al')"
  shows "ok h' \<and> (case r of
      None \<Rightarrow> content h' = content h
    | Some n \<Rightarrow> 0 < data_len \<and> walk h' 0 (take (nat data_len) data) = Some n \<and>
        content h' = (content h)(take (nat data_len) data :=
          (ud_set (fst (content h (take (nat data_len) data))) uh,
           snd (content h (take (nat data_len) data)) OR TRIE_NODE_FLAG_MATCHED OR fl)))"
proof (cases "data_len \<le> 0")
  case True
  then show ?thesis using o i by (simp add: trie_insert_ex_def)
next
  case False
  let ?k = "take (nat data_len) data"
  obtain q h1 al1 where l: "insert_loop ins ?k 0 (h, al) = (q, h1, al1)" by (metis surj_pair)
  have w: "ok h1" "content h1 = content h" "\<And>m. q = Some m \<Longrightarrow> walk h1 0 ?k = Some m"
    using insert_loop_walk [OF o _ l, of "[]"] by auto
  show ?thesis
  proof (cases q)
    case None
    then show ?thesis using False i l w by (auto simp: trie_insert_ex_def)
  next
    case (Some n)
    have n: "node h1 n" by (rule walk_node [OF w(1) root [OF w(1)] w(3) [OF Some]])
    let ?h = "h1[n := (h1 ! n)\<lparr>ud := ud_set (ud (h1 ! n)) uh, flag := flag (h1 ! n) OR TRIE_NODE_FLAG_MATCHED OR fl\<rparr>]"
    have "r = Some n" "h' = ?h"
      using False i l Some node_less [OF w(1) n] by (auto simp: trie_insert_ex_def Let_def or.assoc)
    moreover have "content h ?k = (ud (h1 ! n), flag (h1 ! n))" using w(3) [OF Some] by (simp flip: w(2) add: content_def)
    ultimately show ?thesis
      using False w(2,3) Some set_ok [OF w(1) n] set_content [OF w(1) w(3) [OF Some]] set_walk [OF w(1) n root [OF w(1)]]
      by simp
  qed
qed

text \<open>The longest key on the path that carries a match and passes the callback's test \<open>P\<close>.\<close>

definition hit :: "('u, 'n) trie_common_scheme list \<Rightarrow> (UINT \<Rightarrow> int \<Rightarrow> bool) \<Rightarrow> UCHAR list \<Rightarrow> bool" where
  "hit h P s \<longleftrightarrow> snd (content h s) AND TRIE_NODE_FLAG_MATCHED \<noteq> 0 \<and> P (snd (content h s)) (int (length s))"

lemma hit_walk: "hit h P s \<Longrightarrow> \<exists>n. walk h 0 s = Some n"
  by (auto simp: hit_def content_def split: option.splits)

lemma hit_none: "walk h 0 s = None \<Longrightarrow> \<not> hit h P s"
  by (simp add: hit_def content_def)

lemma prefix_loop_hit:
  assumes f: "\<And>old cur com len. func old cur com len = (if P (flag com) len then Some cur else None)"
  shows "walk h 0 p = Some n \<Longrightarrow> prefix_loop step trie_common.truncate h func cs n (int (length p)) best =
    (case find (\<lambda>k. hit h P (p @ take k cs)) (rev [1..<Suc (length cs)]) of
       None \<Rightarrow> best | Some k \<Rightarrow> walk h 0 (p @ take k cs))"
proof (induction cs arbitrary: p n best)
  case (Cons c cs)
  have r: "rev [1..<Suc (length (c # cs))] = map Suc (rev [1..<Suc (length cs)]) @ [1]"
    by (simp add: rev_map [symmetric] map_Suc_upt upt_conv_Cons del: upt_Suc)
  show ?case
  proof (cases "step h n c")
    case None
    have "walk h 0 (p @ take k (c # cs)) = None" if "1 \<le> k" for k
      using that None Cons.prems by (cases k) (auto simp: walk_append)
    then have "find (\<lambda>k. hit h P (p @ take k (c # cs))) (rev [1..<Suc (length (c # cs))]) = None"
      using hit_none by (auto simp: find_None_iff simp del: upt_Suc take_Cons)
    then show ?thesis using None by simp
  next
    case (Some m)
    have w: "walk h 0 (p @ [c]) = Some m" using Cons.prems Some by (simp add: walk_append)
    have h: "hit h P (p @ [c]) \<longleftrightarrow> flag (h ! m) AND TRIE_NODE_FLAG_MATCHED \<noteq> 0 \<and> P (flag (h ! m)) (int (length p) + 1)"
      using w by (simp add: hit_def content_def add.commute)
    show ?thesis
      unfolding r find_append_map using Cons.IH [OF w] Some w h
      by (auto simp: Let_def f trie_common.defs comp_def add.commute split: option.split)
  qed
qed simp

lemma prefix_match_hit:
  assumes f: "\<And>old cur com len. func old cur com len = (if P (flag com) len then Some cur else None)"
  shows "prefix_match step trie_common.truncate h 0 data data_len func =
    (case find (\<lambda>k. hit h P (take k (take (nat data_len) data))) (rev [1..<Suc (length (take (nat data_len) data))]) of
       None \<Rightarrow> None | Some k \<Rightarrow> walk h 0 (take k (take (nat data_len) data)))"
proof (cases "data_len \<le> 0")
  case False
  have "prefix_loop step trie_common.truncate h func (take (nat data_len) data) 0 (int (length ([] :: UCHAR list))) None =
      (case find (\<lambda>k. hit h P ([] @ take k (take (nat data_len) data))) (rev [1..<Suc (length (take (nat data_len) data))]) of
         None \<Rightarrow> None | Some k \<Rightarrow> walk h 0 ([] @ take k (take (nat data_len) data)))"
    by (rule prefix_loop_hit [of func P]) (simp_all add: f)
  then show ?thesis unfolding append_Nil list.size(3) of_nat_0 prefix_match_def using False by simp
qed (simp add: prefix_match_def)

text \<open>What the caller sees through the pointer that a match returns.\<close>

lemma prefix_match_content:
  assumes f: "\<And>old cur com len. func old cur com len = (if P (flag com) len then Some cur else None)"
  shows "map_option (\<lambda>n. (ud (h ! n), flag (h ! n))) (prefix_match step trie_common.truncate h 0 data data_len func) =
    map_option (\<lambda>k. content h (take k (take (nat data_len) data)))
      (find (\<lambda>k. hit h P (take k (take (nat data_len) data))) (rev [1..<Suc (length (take (nat data_len) data))]))"
proof (cases "find (\<lambda>k. hit h P (take k (take (nat data_len) data))) (rev [1..<Suc (length (take (nat data_len) data))])")
  case (Some k)
  then have "hit h P (take k (take (nat data_len) data))" by (simp add: find_Some_iff del: upt_Suc) blast
  then show ?thesis using Some hit_walk by (fastforce simp: prefix_match_hit [of func P, OF f] content_def)
qed (simp add: prefix_match_hit [of func P, OF f])

text \<open>A key inserted character by character: only its prefixes become new keys.\<close>

lemma insert_loop_dom:
  "ok h \<Longrightarrow> walk h 0 p = Some n \<Longrightarrow> insert_loop ins cs n (h, al) = (r, h', al') \<Longrightarrow>
    (\<forall>t y. walk h 0 t = Some y \<longrightarrow> walk h' 0 t = Some y \<and> ud (h' ! y) = ud (h ! y) \<and> flag (h' ! y) = flag (h ! y)) \<and>
    (\<forall>t y. walk h 0 t = None \<longrightarrow> walk h' 0 t = Some y \<longrightarrow>
       (\<exists>k\<le>length cs. t = p @ take k cs) \<and> ud (h' ! y) = None \<and> flag (h' ! y) = 0) \<and>
    walk h' 0 (p @ cs) = r"
proof (induction cs arbitrary: p n h al)
  case (Cons c cs)
  note o = Cons.prems(1) and w = Cons.prems(2)
  have n: "node h n" by (rule walk_node [OF o root [OF o] w])
  obtain q h1 al1 where i: "ins n c (h, al) = (q, h1, al1)" by (metis surj_pair)
  have o1: "ok h1" by (rule ins_ok [OF o n i])
  have old: "walk h1 0 t = Some y \<and> ud (h1 ! y) = ud (h ! y) \<and> flag (h1 ! y) = flag (h ! y)" if "walk h 0 t = Some y" for t y
    using ins_walk(1) [OF o n i root [OF o] that] ins_keep [OF o n i walk_node [OF o root [OF o] that]] by blast
  have new: "ud (h1 ! y) = None \<and> flag (h1 ! y) = 0" if "walk h 0 t = None" "walk h1 0 t = Some y" for t y
    using ins_walk(2) [OF o n i root [OF o] that] .
  have st: "step h1 n c = q" using ins_step [OF o n i n] ins_same [OF o n i] by (cases q; cases "step h n c") auto
  have dom: "t = p @ [c]" if "walk h 0 t = None" "walk h1 0 t = Some y" for t y
    using that
  proof (induction t arbitrary: y rule: rev_induct)
    case (snoc d t)
    obtain z where z: "walk h1 0 t = Some z" "step h1 z d = Some y" using snoc.prems(2) by (auto simp: walk_append split: option.splits)
    show ?case
    proof (cases "walk h 0 t")
      case (Some z')
      then have z': "z' = z" using old [OF Some] z(1) by simp
      have zn: "node h z" using walk_node [OF o root [OF o] Some] z' by simp
      have "step h z d = None" using snoc.prems(1) Some z' by (simp add: walk_append split: option.splits)
      then have "z = n \<and> d = c" using ins_step [OF o n i zn] z(2) by (auto split: if_splits)
      then show ?thesis using walk_inj [OF o w, of t] Some z' by simp
    next
      case None
      have "t = p @ [c]" by (rule snoc.IH [OF None z(1)])
      then have q: "q = Some z" using z(1) old [OF w] st by (cases q) (simp_all add: walk_append)
      have "step h n c = None" using None w \<open>t = p @ [c]\<close> by (simp add: walk_append split: option.splits)
      then show ?thesis using ins_new [OF o n i] q z(2) by simp
    qed
  qed simp
  show ?case
  proof (cases q)
    case None
    have r: "r = None" "h' = h1" using Cons.prems(3) i None by auto
    have pc: "walk h1 0 (p @ [c]) = None" using old [OF w] st None by (simp add: walk_append)
    have "walk h1 0 (p @ c # cs) = None" using old [OF w] st None by (simp add: walk_append)
    moreover have "\<exists>k\<le>length (c # cs). t = p @ take k (c # cs)" if "walk h 0 t = None" "walk h1 0 t = Some y" for t y
      using dom [OF that] that pc by simp
    ultimately show ?thesis unfolding r using old new by (intro conjI allI impI) metis+
  next
    case (Some m)
    have w1: "walk h1 0 (p @ [c]) = Some m" using old [OF w] st Some by (simp add: walk_append)
    have l: "insert_loop ins cs m (h1, al1) = (r, h', al')" using Cons.prems(3) i Some by simp
    note IH = Cons.IH [OF o1 w1 l]
    show ?thesis
    proof (intro conjI allI impI)
      fix t y assume t: "walk h 0 t = Some y"
      show "walk h' 0 t = Some y" "ud (h' ! y) = ud (h ! y)" "flag (h' ! y) = flag (h ! y)" using old [OF t] IH by auto
    next
      fix t y assume t: "walk h 0 t = None" "walk h' 0 t = Some y"
      have "(\<exists>k\<le>length (c # cs). t = p @ take k (c # cs)) \<and> ud (h' ! y) = None \<and> flag (h' ! y) = 0"
      proof (cases "walk h1 0 t")
        case None
        then obtain k where "k \<le> length cs" "t = (p @ [c]) @ take k cs" "ud (h' ! y) = None" "flag (h' ! y) = 0"
          using IH t(2) by blast
        then show ?thesis by (intro conjI exI [of _ "Suc k"]) simp_all
      next
        case (Some z)
        then have "z = y" "ud (h' ! y) = ud (h1 ! y)" "flag (h' ! y) = flag (h1 ! y)" using IH t(2) by auto
        then show ?thesis using dom [OF t(1) Some] new [OF t(1) Some] by (intro conjI exI [of _ 1]) simp_all
      qed
      then show "\<exists>k\<le>length (c # cs). t = p @ take k (c # cs)" "ud (h' ! y) = None" "flag (h' ! y) = 0" by blast+
    next
      show "walk h' 0 (p @ c # cs) = r" using IH by simp
    qed
  qed
qed auto

text \<open>With memory an insertion succeeds.\<close>

lemma insert_loop_mem:
  "ok h \<Longrightarrow> node h n \<Longrightarrow> insert_loop ins cs n (h, []) = (r, h', al') \<Longrightarrow> r \<noteq> None \<and> al' = []"
proof (induction cs arbitrary: n h)
  case (Cons c cs)
  obtain q h1 al1 where i: "ins n c (h, []) = (q, h1, al1)" by (metis surj_pair)
  obtain m where m: "q = Some m" "al1 = []" using ins_mem [OF Cons.prems(1,2) i] by blast
  have s: "step h1 n c = Some m" using ins_step [OF Cons.prems(1,2) i Cons.prems(2)] m(1) by simp
  have o: "ok h1" "node h1 n" using ins_ok [OF Cons.prems(1,2) i] ins_keep [OF Cons.prems(1,2) i Cons.prems(2)] by simp_all
  have "node h1 m" using step_node [OF o s] by simp
  from Cons.IH [OF o(1) this] show ?case using Cons.prems(3) i m by simp
qed auto

lemma trie_insert_ex_mem:
  assumes "ok h" "0 < data_len" and i: "trie_insert_ex ins data data_len fl ud_set uh (h, []) = (r, h', al')"
  shows "r \<noteq> None"
proof -
  obtain q h1 al1 where l: "insert_loop ins (take (nat data_len) data) 0 (h, []) = (q, h1, al1)" by (metis surj_pair)
  have "q \<noteq> None" using insert_loop_mem [OF assms(1) root [OF assms(1)] l] by simp
  then show ?thesis using i l assms(2) by (auto simp: trie_insert_ex_def Let_def)
qed

text \<open>Deletion of the node of a key.\<close>

lemma trie_del_node_content:
  assumes "ok h" "walk h 0 s = Some n"
  shows "fst (trie_del_node (Some n) h) = fst (content h s) \<and> ok (snd (trie_del_node (Some n) h)) \<and>
    content (snd (trie_del_node (Some n) h)) = (content h)(s := (None, 0))"
proof -
  have n: "node h n" by (rule walk_node [OF assms(1) root [OF assms(1)] assms(2)])
  have "trie_del_node (Some n) h = (ud (h ! n), h[n := (h ! n)\<lparr>ud := None, flag := 0\<rparr>])"
    using node_less [OF assms(1) n] by (cases "h ! n") (simp add: trie_del_node_def Let_def)
  then show ?thesis using set_ok [OF assms(1) n] set_content [OF assms] assms(2) by (simp add: content_def)
qed

lemma exact_match_walk:
  assumes "data_len \<le> int (length data)"
  shows "prefix_match step trie_common.truncate h 0 data data_len (trie_exact_match data data_len) =
    (if 0 < data_len \<and> snd (content h (take (nat data_len) data)) AND TRIE_NODE_FLAG_MATCHED \<noteq> 0
     then walk h 0 (take (nat data_len) data) else None)"
proof -
  let ?P = "\<lambda>fl len :: int. len = data_len" and ?d = "take (nat data_len) data"
  have l: "length ?d = nat data_len" using assms by simp
  have h: "hit h ?P (take k ?d) \<longleftrightarrow> snd (content h ?d) AND TRIE_NODE_FLAG_MATCHED \<noteq> 0 \<and> int k = data_len" if "k \<le> nat data_len" for k
    using that assms by (cases "k = nat data_len") (auto simp: hit_def)
  have f: "find (\<lambda>k. hit h ?P (take k ?d)) (rev [1..<Suc (nat data_len)]) =
      (if 0 < data_len \<and> snd (content h ?d) AND TRIE_NODE_FLAG_MATCHED \<noteq> 0 then Some (nat data_len) else None)"
  proof (cases "0 < data_len \<and> snd (content h ?d) AND TRIE_NODE_FLAG_MATCHED \<noteq> 0")
    case True
    then show ?thesis using h [of "nat data_len"] by (simp only: find_rev_upt if_True) auto
  next
    case False
    then show ?thesis using h by (auto simp: find_None_iff simp del: upt_Suc)
  qed
  have "prefix_match step trie_common.truncate h 0 data data_len (trie_exact_match data data_len) =
      (case find (\<lambda>k. hit h ?P (take k ?d)) (rev [1..<Suc (length ?d)]) of None \<Rightarrow> None | Some k \<Rightarrow> walk h 0 (take k ?d))"
    by (rule prefix_match_hit) (simp add: trie_exact_match_def)
  then show ?thesis unfolding l f by (auto simp: l)
qed

lemma trie_del_laws:
  assumes "ok h" "data_len \<le> int (length data)"
    and d: "trie_del_node (prefix_match step trie_common.truncate h 0 data data_len (trie_exact_match data data_len)) h = (u, h')"
  shows "ok h' \<and> (if 0 < data_len \<and> snd (content h (take (nat data_len) data)) AND TRIE_NODE_FLAG_MATCHED \<noteq> 0
    then u = fst (content h (take (nat data_len) data)) \<and> content h' = (content h)(take (nat data_len) data := (None, 0))
    else u = None \<and> h' = h)"
proof (cases "0 < data_len \<and> snd (content h (take (nat data_len) data)) AND TRIE_NODE_FLAG_MATCHED \<noteq> 0")
  case True
  then obtain n where n: "walk h 0 (take (nat data_len) data) = Some n"
    by (auto simp: content_def split: option.splits)
  have e: "prefix_match step trie_common.truncate h 0 data data_len (trie_exact_match data data_len) = Some n"
    unfolding exact_match_walk [OF assms(2)] using True n by simp
  show ?thesis using trie_del_node_content [OF assms(1) n] d True unfolding e by simp
next
  case False
  have e: "prefix_match step trie_common.truncate h 0 data data_len (trie_exact_match data data_len) = None"
    unfolding exact_match_walk [OF assms(2)] using False by auto
  show ?thesis using assms(1) d False unfolding e by (auto simp: trie_del_node_def)
qed

end

end
