(* ===== verification/Trie.thy ===== *)
theory Trie
  imports TrieNode DArray
begin

text \<open>
  The tries of \<^verbatim>\<open>trie/\<close>: keys of bytes with user data, behind the table of functions of \<^verbatim>\<open>trie/trie_utl.c\<close>. The five
  implementations differ in how a node finds its successor: an array of 256 pointers (\<^verbatim>\<open>trie_simple.c\<close>), two levels of 16
  (\<^verbatim>\<open>trie_4bits.c\<close>), four levels of 4 (\<^verbatim>\<open>trie_2bits.c\<close>), a linked list with a bit map (\<^verbatim>\<open>trie_ll.c\<close>), a growing array with
  a bit map (\<^verbatim>\<open>trie_darray.c\<close>, on the array of \<^theory_text>\<open>DArray\<close>). A single linked list is the list of its nodes.
  The destructors are not modelled.
\<close>

section \<open>Nodes with arrays of pointers\<close>

text \<open>The three structures differ in the length of the array only: 256, 16 and 4. The code masks every index.\<close>

record 'u radix_node = "'u trie_common" +
  nexts :: "UCHAR \<Rightarrow> nat option"

definition radix_zero :: "'u radix_node" where
  "radix_zero = \<lparr>ud = None, flag = 0, nexts = (\<lambda>_. None)\<rparr>"

definition TrieSimple_Insert :: "'u radix_node trie_insert" where
  "TrieSimple_Insert cur c = (\<lambda>(h, al).
     case nexts (h ! cur) c of
       Some n \<Rightarrow> (Some n, h, al)
     | None \<Rightarrow>
         (case mem_ask al of
            (False, al) \<Rightarrow> (None, h, al)
          | (True, al) \<Rightarrow>
              (Some (length h), h[cur := (h ! cur)\<lparr>nexts := (nexts (h ! cur))(c := Some (length h))\<rparr>] @ [radix_zero], al)))"

definition TrieSimple_get :: "'u radix_node list \<Rightarrow> nat \<Rightarrow> UCHAR \<Rightarrow> nat option" where
  "TrieSimple_get h cur c = nexts (h ! cur) c"

definition TrieSimple_PrefixMatch :: "'u radix_node list \<Rightarrow> UCHAR list \<Rightarrow> int \<Rightarrow> 'u match_cb \<Rightarrow> nat option" where
  "TrieSimple_PrefixMatch h data data_len func = prefix_match TrieSimple_get trie_common.truncate h 0 data data_len func"

definition trie4b_try_insert_4bits :: "'u radix_node trie_insert" where
  "trie4b_try_insert_4bits cur c = (\<lambda>(h, al).
     case nexts (h ! cur) c of
       Some n \<Rightarrow> (Some n, h, al)
     | None \<Rightarrow>
         (case mem_ask al of
            (False, al) \<Rightarrow> (None, h, al)
          | (True, al) \<Rightarrow>
              (Some (length h), h[cur := (h ! cur)\<lparr>nexts := (nexts (h ! cur))(c := Some (length h))\<rparr>] @ [radix_zero], al)))"

definition trie4b_find_node :: "'u radix_node list \<Rightarrow> nat \<Rightarrow> UCHAR \<Rightarrow> nat option" where
  "trie4b_find_node h cur c =
     (case nexts (h ! cur) (drop_bit 4 c AND 0xf) of
        None \<Rightarrow> None
      | Some found \<Rightarrow> nexts (h ! found) (c AND 0xf))"

definition Trie4b_Insert :: "'u radix_node trie_insert" where
  "Trie4b_Insert cur c m =
     (case trie4b_try_insert_4bits cur (drop_bit 4 c AND 0xf) m of
        (None, m) \<Rightarrow> (None, m)
      | (Some node, m) \<Rightarrow> trie4b_try_insert_4bits node (c AND 0xf) m)"

definition Trie4b_PrefixMatch :: "'u radix_node list \<Rightarrow> UCHAR list \<Rightarrow> int \<Rightarrow> 'u match_cb \<Rightarrow> nat option" where
  "Trie4b_PrefixMatch h data data_len func = prefix_match trie4b_find_node trie_common.truncate h 0 data data_len func"

definition trie2b_try_insert_2bits :: "'u radix_node trie_insert" where
  "trie2b_try_insert_2bits cur c = (\<lambda>(h, al).
     case nexts (h ! cur) c of
       Some n \<Rightarrow> (Some n, h, al)
     | None \<Rightarrow>
         (case mem_ask al of
            (False, al) \<Rightarrow> (None, h, al)
          | (True, al) \<Rightarrow>
              (Some (length h), h[cur := (h ! cur)\<lparr>nexts := (nexts (h ! cur))(c := Some (length h))\<rparr>] @ [radix_zero], al)))"

definition trie2b_find_node :: "'u radix_node list \<Rightarrow> nat \<Rightarrow> UCHAR \<Rightarrow> nat option" where
  "trie2b_find_node h cur c =
     (case nexts (h ! cur) (drop_bit 6 c AND 0x3) of
        None \<Rightarrow> None
      | Some found \<Rightarrow>
          (case nexts (h ! found) (drop_bit 4 c AND 0x3) of
             None \<Rightarrow> None
           | Some found \<Rightarrow>
               (case nexts (h ! found) (drop_bit 2 c AND 0x3) of
                  None \<Rightarrow> None
                | Some found \<Rightarrow> nexts (h ! found) (c AND 0x3))))"

definition Trie2b_Insert :: "'u radix_node trie_insert" where
  "Trie2b_Insert cur c m =
     (case trie2b_try_insert_2bits cur (drop_bit 6 c AND 0x3) m of
        (None, m) \<Rightarrow> (None, m)
      | (Some node, m) \<Rightarrow>
          (case trie2b_try_insert_2bits node (drop_bit 4 c AND 0x3) m of
             (None, m) \<Rightarrow> (None, m)
           | (Some node, m) \<Rightarrow>
               (case trie2b_try_insert_2bits node (drop_bit 2 c AND 0x3) m of
                  (None, m) \<Rightarrow> (None, m)
                | (Some node, m) \<Rightarrow> trie2b_try_insert_2bits node (c AND 0x3) m)))"

definition Trie2b_PrefixMatch :: "'u radix_node list \<Rightarrow> UCHAR list \<Rightarrow> int \<Rightarrow> 'u match_cb \<Rightarrow> nat option" where
  "Trie2b_PrefixMatch h data data_len func = prefix_match trie2b_find_node trie_common.truncate h 0 data data_len func"

section \<open>Nodes with a list of successors\<close>

record 'u ll_node = "'u trie_common" +
  ll_next :: "nat list"
  ll_bits :: "UINT list"
  ll_c :: UCHAR

definition triell_get_node :: "'u ll_node list \<Rightarrow> nat \<Rightarrow> UCHAR \<Rightarrow> nat option" where
  "triell_get_node h this_node c =
     (if \<not> ArrayBit_Test (ll_bits (h ! this_node)) (unat c) then None
      else find (\<lambda>node. ll_c (h ! node) = c) (ll_next (h ! this_node)))"

definition triell_create_node :: "'u ll_node trie_insert" where
  "triell_create_node this_node c = (\<lambda>(h, al).
     case mem_ask al of
       (False, al) \<Rightarrow> (None, h, al)
     | (True, al) \<Rightarrow>
         let node = length h;
             h = h @ [\<lparr>ud = None, flag = 0, ll_next = [], ll_bits = replicate 8 0, ll_c = c\<rparr>];
             h = h[this_node := (h ! this_node)\<lparr>ll_next := node # ll_next (h ! this_node)\<rparr>];
             h = h[this_node := (h ! this_node)\<lparr>ll_bits := ArrayBit_Set (ll_bits (h ! this_node)) (unat c)\<rparr>]
         in (Some node, h, al))"

definition Triell_Insert :: "'u ll_node trie_insert" where
  "Triell_Insert cur c = (\<lambda>(h, al).
     case triell_get_node h cur c of
       Some n \<Rightarrow> (Some n, h, al)
     | None \<Rightarrow> triell_create_node cur c (h, al))"

definition Triell_PrefixMatch :: "'u ll_node list \<Rightarrow> UCHAR list \<Rightarrow> int \<Rightarrow> 'u match_cb \<Rightarrow> nat option" where
  "Triell_PrefixMatch h data data_len func = prefix_match triell_get_node trie_common.truncate h 0 data data_len func"

section \<open>Nodes with a growing array of successors\<close>

record 'u da_node = "'u trie_common" +
  da_bits :: "UINT list"
  da_nexts :: "nat darray option"
  da_c :: UCHAR

definition triedarray_get_node :: "'u da_node list \<Rightarrow> nat \<Rightarrow> UCHAR \<Rightarrow> nat option" where
  "triedarray_get_node h this_node c =
     (if \<not> ArrayBit_Test (da_bits (h ! this_node)) (unat c) then None
      else
        let d = the (da_nexts (h ! this_node))
        in case find (\<lambda>i. case DARRAY_Get d i of None \<Rightarrow> False | Some node \<Rightarrow> da_c (h ! node) = c) [0..<DARRAY_GetSize d] of
             None \<Rightarrow> None
           | Some i \<Rightarrow> DARRAY_Get d i)"

text \<open>An addition to the array takes one outcome of the allocator, which it uses when the array grows.\<close>

definition triedarray_create_node :: "'u da_node trie_insert" where
  "triedarray_create_node this_node c = (\<lambda>(h, al).
     case mem_ask al of
       (False, al) \<Rightarrow> (None, h, al)
     | (True, al) \<Rightarrow>
         let node = length h;
             (h, al) = (case da_nexts (h ! this_node) of
                Some _ \<Rightarrow> (h, al)
              | None \<Rightarrow>
                  (case mem_ask al of (a1, al) \<Rightarrow> case mem_ask al of (a2, al) \<Rightarrow>
                     (h[this_node := (h ! this_node)\<lparr>da_nexts := DARRAY_Create a1 a2 1 1\<rparr>], al)))
         in case da_nexts (h ! this_node) of
              None \<Rightarrow> (None, h, al)
            | Some d \<Rightarrow>
                (case mem_ask al of (a, al) \<Rightarrow> case DARRAY_Add a d (Some node) of (i, d) \<Rightarrow>
                   let h = h[this_node := (h ! this_node)\<lparr>da_nexts := Some d\<rparr>]
                   in if i = DARRAY_INVALID_INDEX then (None, h, al)
                      else
                        let h = h @ [\<lparr>ud = None, flag = 0, da_bits = replicate 8 0, da_nexts = None, da_c = c\<rparr>];
                            h = h[this_node := (h ! this_node)\<lparr>da_bits := ArrayBit_Set (da_bits (h ! this_node)) (unat c)\<rparr>]
                        in (Some node, h, al)))"

definition Triedarray_Insert :: "'u da_node trie_insert" where
  "Triedarray_Insert cur c = (\<lambda>(h, al).
     case triedarray_get_node h cur c of
       Some n \<Rightarrow> (Some n, h, al)
     | None \<Rightarrow> triedarray_create_node cur c (h, al))"

definition Triedarray_PrefixMatch :: "'u da_node list \<Rightarrow> UCHAR list \<Rightarrow> int \<Rightarrow> 'u match_cb \<Rightarrow> nat option" where
  "Triedarray_PrefixMatch h data data_len func = prefix_match triedarray_get_node trie_common.truncate h 0 data data_len func"

section \<open>The handle\<close>

datatype trie_type = TRIE_TYPE_SIMPLE | TRIE_TYPE_LL | TRIE_TYPE_DARRAY | TRIE_TYPE_4BITS | TRIE_TYPE_2BITS

text \<open>\<^verbatim>\<open>TRIE_CTRL_S\<close>: the type with its table of functions is the constructor, the root is node 0 of the heap.\<close>

datatype 'u trie =
    Trie_simple "'u radix_node list"
  | Trie_ll "'u ll_node list"
  | Trie_darray "'u da_node list"
  | Trie_4bits "'u radix_node list"
  | Trie_2bits "'u radix_node list"

definition Trie_Create :: "bool list \<Rightarrow> trie_type \<Rightarrow> 'u trie option \<times> bool list" where
  "Trie_Create al ty =
     (case mem_ask al of
        (False, al) \<Rightarrow> (None, al)
      | (True, al) \<Rightarrow>
          (case mem_ask al of
             (False, al) \<Rightarrow> (None, al)
           | (True, al) \<Rightarrow>
               (Some (case ty of
                   TRIE_TYPE_SIMPLE \<Rightarrow> Trie_simple [radix_zero]
                 | TRIE_TYPE_LL \<Rightarrow> Trie_ll [\<lparr>ud = None, flag = 0, ll_next = [], ll_bits = replicate 8 0, ll_c = 0\<rparr>]
                 | TRIE_TYPE_DARRAY \<Rightarrow> Trie_darray [\<lparr>ud = None, flag = 0, da_bits = replicate 8 0, da_nexts = None, da_c = 0\<rparr>]
                 | TRIE_TYPE_4BITS \<Rightarrow> Trie_4bits [radix_zero]
                 | TRIE_TYPE_2BITS \<Rightarrow> Trie_2bits [radix_zero]), al)))"

fun Trie_InsertEx ::
  "'u trie \<Rightarrow> UCHAR list \<Rightarrow> int \<Rightarrow> UINT \<Rightarrow> ('u option \<Rightarrow> 'v \<Rightarrow> 'u option) \<Rightarrow> 'v \<Rightarrow> bool list \<Rightarrow> nat option \<times> 'u trie \<times> bool list" where
  "Trie_InsertEx (Trie_simple h) data data_len fl ud_set uh al =
     (case trie_insert_ex TrieSimple_Insert data data_len fl ud_set uh (h, al) of (r, h, al) \<Rightarrow> (r, Trie_simple h, al))"
| "Trie_InsertEx (Trie_ll h) data data_len fl ud_set uh al =
     (case trie_insert_ex Triell_Insert data data_len fl ud_set uh (h, al) of (r, h, al) \<Rightarrow> (r, Trie_ll h, al))"
| "Trie_InsertEx (Trie_darray h) data data_len fl ud_set uh al =
     (case trie_insert_ex Triedarray_Insert data data_len fl ud_set uh (h, al) of (r, h, al) \<Rightarrow> (r, Trie_darray h, al))"
| "Trie_InsertEx (Trie_4bits h) data data_len fl ud_set uh al =
     (case trie_insert_ex Trie4b_Insert data data_len fl ud_set uh (h, al) of (r, h, al) \<Rightarrow> (r, Trie_4bits h, al))"
| "Trie_InsertEx (Trie_2bits h) data data_len fl ud_set uh al =
     (case trie_insert_ex Trie2b_Insert data data_len fl ud_set uh (h, al) of (r, h, al) \<Rightarrow> (r, Trie_2bits h, al))"

definition trie_dft_set_ud :: "'u option \<Rightarrow> 'u option \<Rightarrow> 'u option" where
  "trie_dft_set_ud old_ud uh = uh"

definition Trie_Insert :: "'u trie \<Rightarrow> UCHAR list \<Rightarrow> int \<Rightarrow> UINT \<Rightarrow> 'u option \<Rightarrow> bool list \<Rightarrow> nat option \<times> 'u trie \<times> bool list" where
  "Trie_Insert t data data_len fl u al = Trie_InsertEx t data data_len fl trie_dft_set_ud u al"

fun Trie_PrefixMatch :: "'u trie \<Rightarrow> UCHAR list \<Rightarrow> int \<Rightarrow> 'u match_cb \<Rightarrow> nat option" where
  "Trie_PrefixMatch (Trie_simple h) data data_len func = TrieSimple_PrefixMatch h data data_len func"
| "Trie_PrefixMatch (Trie_ll h) data data_len func = Triell_PrefixMatch h data data_len func"
| "Trie_PrefixMatch (Trie_darray h) data data_len func = Triedarray_PrefixMatch h data data_len func"
| "Trie_PrefixMatch (Trie_4bits h) data data_len func = Trie4b_PrefixMatch h data data_len func"
| "Trie_PrefixMatch (Trie_2bits h) data data_len func = Trie2b_PrefixMatch h data data_len func"

definition Trie_Match :: "'u trie \<Rightarrow> UCHAR list \<Rightarrow> int \<Rightarrow> trie_match \<Rightarrow> nat option" where
  "Trie_Match t data data_len ty = Trie_PrefixMatch t data data_len (g_match_types ty data data_len)"

definition Trie_Del :: "'u trie \<Rightarrow> UCHAR list \<Rightarrow> int \<Rightarrow> 'u option \<times> 'u trie" where
  "Trie_Del t data data_len =
     (let common = Trie_Match t data data_len TRIE_MATCH_EXACT
      in case t of
           Trie_simple h \<Rightarrow> map_prod id Trie_simple (trie_del_node common h)
         | Trie_ll h \<Rightarrow> map_prod id Trie_ll (trie_del_node common h)
         | Trie_darray h \<Rightarrow> map_prod id Trie_darray (trie_del_node common h)
         | Trie_4bits h \<Rightarrow> map_prod id Trie_4bits (trie_del_node common h)
         | Trie_2bits h \<Rightarrow> map_prod id Trie_2bits (trie_del_node common h))"

section \<open>Arrays of pointers keep the contract\<close>

definition radix_ok :: "'u radix_node list \<Rightarrow> bool" where
  [inv_defs]: "radix_ok h \<longleftrightarrow> h \<noteq> [] \<and>
     (\<forall>n<length h. \<forall>c m. nexts (h ! n) c = Some m \<longrightarrow> n < m \<and> m < length h) \<and>
     (\<forall>n<length h. \<forall>n'<length h. \<forall>c c' m. nexts (h ! n) c = Some m \<longrightarrow> nexts (h ! n') c' = Some m \<longrightarrow> n = n' \<and> c = c')"

lemma radix_okD:
  assumes "radix_ok h" "n < length h" "nexts (h ! n) c = Some m"
  shows "n < m" "m < length h" "n' < length h \<Longrightarrow> nexts (h ! n') c' = Some m \<Longrightarrow> n = n' \<and> c = c'"
  using assms unfolding radix_ok_def by blast+

lemma radix_insert_cases:
  assumes "TrieSimple_Insert n c (h, al) = (r, h', al')"
  obtains m where "nexts (h ! n) c = Some m" "r = Some m" "h' = h"
  | "nexts (h ! n) c = None" "r = None" "h' = h"
  | "nexts (h ! n) c = None" "r = Some (length h)"
      "h' = h[n := (h ! n)\<lparr>nexts := (nexts (h ! n))(c := Some (length h))\<rparr>] @ [radix_zero]"
proof (cases "nexts (h ! n) c")
  case None
  obtain a al1 where "mem_ask al = (a, al1)" by (cases "mem_ask al")
  then have "(r = None \<and> h' = h) \<or>
      (r = Some (length h) \<and> h' = h[n := (h ! n)\<lparr>nexts := (nexts (h ! n))(c := Some (length h))\<rparr>] @ [radix_zero])"
    using assms None by (cases a) (auto simp: TrieSimple_Insert_def)
  then show ?thesis using that(2,3) None by blast
next
  case (Some m)
  then have "r = Some m" "h' = h" using assms by (simp_all add: TrieSimple_Insert_def)
  then show ?thesis using that(1) Some by blast
qed

lemma radix_new:
  assumes o: "radix_ok h" and n: "n < length h" and c: "nexts (h ! n) c = None"
  defines "h' \<equiv> h[n := (h ! n)\<lparr>nexts := (nexts (h ! n))(c := Some (length h))\<rparr>] @ [radix_zero]"
  shows "length h' = Suc (length h)" "h' ! length h = radix_zero"
    "x < length h \<Longrightarrow> nexts (h' ! x) = (if x = n then (nexts (h ! n))(c := Some (length h)) else nexts (h ! x))"
    "x < length h \<Longrightarrow> ud (h' ! x) = ud (h ! x) \<and> flag (h' ! x) = flag (h ! x)"
    "radix_ok h'"
proof -
  show l: "length h' = Suc (length h)" and z: "h' ! length h = radix_zero"
    by (simp_all add: h'_def nth_append)
  show x: "x < length h \<Longrightarrow> nexts (h' ! x) = (if x = n then (nexts (h ! n))(c := Some (length h)) else nexts (h ! x))" for x
    using n by (simp add: h'_def nth_append)
  show "x < length h \<Longrightarrow> ud (h' ! x) = ud (h ! x) \<and> flag (h' ! x) = flag (h ! x)"
    using n by (auto simp: h'_def nth_append nth_list_update)
  have e: "nexts (h' ! y) d = Some m \<longleftrightarrow> y < length h \<and> (nexts (h ! y) d = Some m \<or> y = n \<and> d = c \<and> m = length h)"
    if "y < length h'" for y d m
  proof (cases "y = length h")
    case True
    then show ?thesis using z by (simp add: radix_zero_def)
  next
    case False
    then have "y < length h" using that l by simp
    then show ?thesis using x [of y] c n by auto
  qed
  show "radix_ok h'"
    unfolding radix_ok_def
  proof (intro conjI allI impI)
    show "h' \<noteq> []" using l by auto
  next
    fix y d m assume "y < length h'" "nexts (h' ! y) d = Some m"
    then have "y < length h" "nexts (h ! y) d = Some m \<or> y = n \<and> d = c \<and> m = length h" using e by blast+
    then have "y < m \<and> m < Suc (length h)" by (elim disjE) (auto dest: radix_okD(1,2) [OF o])
    then show "y < m" "m < length h'" by (simp_all add: l)
  next
    fix y y' d d' m assume "y < length h'" "y' < length h'" "nexts (h' ! y) d = Some m" "nexts (h' ! y') d' = Some m"
    then have y: "y < length h" "nexts (h ! y) d = Some m \<or> y = n \<and> d = c \<and> m = length h"
        "y' < length h" "nexts (h ! y') d' = Some m \<or> y' = n \<and> d' = c \<and> m = length h" using e by blast+
    have "nexts (h ! x) b \<noteq> Some (length h)" if "x < length h" for x b using radix_okD(2) [OF o that, of b "length h"] by blast
    then have "y = y' \<and> d = d'" using y(2,4) y(1,3) by (elim disjE) (auto dest: radix_okD(3) [OF o])
    then show "y = y'" "d = d'" by simp_all
  qed
qed

lemma radix_set:
  assumes "n < length h"
  shows "x < length h \<Longrightarrow> nexts (h[n := (h ! n)\<lparr>ud := u, flag := f\<rparr>] ! x) = nexts (h ! x)"
    and "radix_ok h \<Longrightarrow> radix_ok (h[n := (h ! n)\<lparr>ud := u, flag := f\<rparr>])"
proof -
  have e: "nexts (h[n := (h ! n)\<lparr>ud := u, flag := f\<rparr>] ! x) = nexts (h ! x)" for x
    by (rule field_update_other) simp
  then show "x < length h \<Longrightarrow> nexts (h[n := (h ! n)\<lparr>ud := u, flag := f\<rparr>] ! x) = nexts (h ! x)" by simp
  show "radix_ok h \<Longrightarrow> radix_ok (h[n := (h ! n)\<lparr>ud := u, flag := f\<rparr>])"
    unfolding radix_ok_def length_list_update e list_update_nonempty .
qed

interpretation digit: trie_nodes radix_ok "\<lambda>h n. n < length h" TrieSimple_get TrieSimple_Insert
proof unfold_locales
  fix h :: "'u radix_node list" assume o: "radix_ok h"
  then show "0 < length h" by (simp add: radix_ok_def)
  fix n assume n: "n < length h"
  then show "n < length h" .
  fix c m assume "TrieSimple_get h n c = Some m"
  then have "n < m" "m < length h" using radix_okD(1,2) [OF o n] by (simp_all add: TrieSimple_get_def)
  then show "m < length h \<and> m \<noteq> 0" by simp
next
  fix h :: "'u radix_node list" and n n' c c' m
  assume a: "radix_ok h" "n < length h" "n' < length h" "TrieSimple_get h n c = Some m" "TrieSimple_get h n' c' = Some m"
  show "n = n' \<and> c = c'" by (rule radix_okD(3) [OF a(1,2) _ a(3)]) (use a(4,5) in \<open>simp_all add: TrieSimple_get_def\<close>)
next
  fix h :: "'u radix_node list" and n x u f
  assume o: "radix_ok h" and n: "n < length h"
  then show "radix_ok (h[n := (h ! n)\<lparr>ud := u, flag := f\<rparr>])" by (simp add: radix_set)
  assume x: "x < length h"
  then show "x < length (h[n := (h ! n)\<lparr>ud := u, flag := f\<rparr>])" by simp
  show "TrieSimple_get (h[n := (h ! n)\<lparr>ud := u, flag := f\<rparr>]) x = TrieSimple_get h x"
    using radix_set(1) [OF n x] by (simp add: TrieSimple_get_def fun_eq_iff)
next
  fix h h' :: "'u radix_node list" and n c al r al'
  assume o: "radix_ok h" and n: "n < length h" and i: "TrieSimple_Insert n c (h, al) = (r, h', al')"
  from i show "radix_ok h'" by (cases rule: radix_insert_cases) (use o radix_new(5) [OF o n] in auto)
  show "r \<noteq> None \<and> al' = []" if "TrieSimple_Insert n c (h, []) = (r, h', al')" for r h' al'
  proof (cases "nexts (h ! n) c")
    case (Some a)
    then have "(Some a, h, []) = (r, h', al')" using that by (simp add: TrieSimple_Insert_def)
    then show ?thesis by (metis Pair_inject option.distinct(1))
  qed (use that in \<open>auto simp: TrieSimple_Insert_def\<close>)
  show "r = Some m" if "TrieSimple_get h n c = Some m" for m
    using i that by (cases rule: radix_insert_cases) (auto simp: TrieSimple_get_def)
  show "(\<forall>c. TrieSimple_get h' m c = None) \<and> ud (h' ! m) = None \<and> flag (h' ! m) = 0"
    if "TrieSimple_get h n c = None" "r = Some m" for m
    using i that
    by (cases rule: radix_insert_cases) (auto simp: TrieSimple_get_def nth_append radix_zero_def)
  fix x assume x: "x < length h"
  from i show "x < length h' \<and> ud (h' ! x) = ud (h ! x) \<and> flag (h' ! x) = flag (h ! x)"
    by (cases rule: radix_insert_cases) (use x radix_new(1,4) [OF o n] in auto)
  from i show "TrieSimple_get h' x = (if x = n \<and> r \<noteq> None then (TrieSimple_get h n)(c := r) else TrieSimple_get h x)"
    by (cases rule: radix_insert_cases) (use x radix_new(3) [OF o n] in \<open>auto simp: TrieSimple_get_def fun_eq_iff\<close>)
qed

text \<open>A character as a code of \<open>w\<close> digits: the nodes at the multiples of \<open>w\<close> stand for keys.\<close>

locale radix_code =
  fixes enc :: "UCHAR \<Rightarrow> UCHAR list" and w :: nat
  assumes enc_len: "length (enc c) = w" and w_pos: "0 < w" and enc_inj: "enc c = enc c' \<Longrightarrow> c = c'"
begin

definition code_node :: "'u radix_node list \<Rightarrow> nat \<Rightarrow> bool" where
  "code_node h n \<longleftrightarrow> (\<exists>ds. digit.walk h 0 ds = Some n \<and> w dvd length ds)"

definition code_step :: "'u radix_node list \<Rightarrow> nat \<Rightarrow> UCHAR \<Rightarrow> nat option" where
  "code_step h n c = digit.walk h n (enc c)"

definition code_insert :: "'u radix_node trie_insert" where
  "code_insert n c m = insert_loop TrieSimple_Insert (enc c) n m"

lemma code_walk:
  "digit.walk h 0 ds = Some n \<Longrightarrow> code_step h n c = digit.walk h 0 (ds @ enc c)"
  by (simp add: code_step_def digit.walk_append)

lemma code_root: "radix_ok h \<Longrightarrow> code_node h 0"
  unfolding code_node_def by (intro exI [of _ "[]"]) simp

lemma code_less: "radix_ok h \<Longrightarrow> code_node h n \<Longrightarrow> n < length h"
  unfolding code_node_def using digit.walk_node [OF _ digit.root] by blast

lemma code_step_node:
  assumes "radix_ok h" "code_node h n" "code_step h n c = Some m"
  shows "code_node h m \<and> m \<noteq> 0"
proof -
  obtain ds where ds: "digit.walk h 0 ds = Some n" "w dvd length ds" using assms(2) by (auto simp: code_node_def)
  then have m: "digit.walk h 0 (ds @ enc c) = Some m" using code_walk assms(3) by metis
  have "w dvd length (ds @ enc c)" using ds(2) by (simp add: enc_len)
  moreover have "m \<noteq> 0"
    using digit.walk_inj [OF assms(1) m, of "[]"] w_pos enc_len [of c] by auto
  ultimately show ?thesis using m unfolding code_node_def by blast
qed

lemma code_step_inj:
  assumes "radix_ok h" "code_node h n" "code_node h n'" "code_step h n c = Some m" "code_step h n' c' = Some m"
  shows "n = n' \<and> c = c'"
proof -
  obtain ds ds' where ds: "digit.walk h 0 ds = Some n" "digit.walk h 0 ds' = Some n'" using assms(2,3) by (auto simp: code_node_def)
  then have "digit.walk h 0 (ds @ enc c) = Some m" "digit.walk h 0 (ds' @ enc c') = Some m" using code_walk assms(4,5) by metis+
  then have e: "ds @ enc c = ds' @ enc c'" by (rule digit.walk_inj [OF assms(1)])
  then have "length ds = length ds'" using arg_cong [OF e, of length] by (simp add: enc_len)
  then show ?thesis using e ds enc_inj by simp
qed

lemma code_set:
  assumes "radix_ok h" "code_node h n" "code_node h x"
  shows "code_node (h[n := (h ! n)\<lparr>ud := u, flag := f\<rparr>]) x"
    and "code_step (h[n := (h ! n)\<lparr>ud := u, flag := f\<rparr>]) x = code_step h x"
  using assms digit.set_walk [OF assms(1) code_less [OF assms(1,2)]] digit.root [OF assms(1)] code_less [OF assms(1,3)]
  by (auto simp: code_node_def code_step_def fun_eq_iff)

lemma code_insert_laws:
  assumes o: "radix_ok h" and n: "code_node h n" and i: "code_insert n c (h, al) = (r, h', al')"
  shows "radix_ok h'"
    and "code_node h x \<Longrightarrow> code_node h' x \<and> ud (h' ! x) = ud (h ! x) \<and> flag (h' ! x) = flag (h ! x)"
    and "code_step h n c = Some m \<Longrightarrow> r = Some m"
    and "code_node h x \<Longrightarrow> code_step h' x d = (if x = n \<and> d = c \<and> r \<noteq> None then r else code_step h x d)"
    and "code_step h n c = None \<Longrightarrow> r = Some m \<Longrightarrow> code_step h' m d = None \<and> ud (h' ! m) = None \<and> flag (h' ! m) = 0"
proof -
  obtain ds where ds: "digit.walk h 0 ds = Some n" "w dvd length ds" using n by (auto simp: code_node_def)
  have l: "insert_loop TrieSimple_Insert (enc c) n (h, al) = (r, h', al')" using i by (simp add: code_insert_def)
  note dom = digit.insert_loop_dom [OF o ds(1) l]
  have old: "digit.walk h' 0 t = Some y \<and> ud (h' ! y) = ud (h ! y) \<and> flag (h' ! y) = flag (h ! y)"
    if "digit.walk h 0 t = Some y" for t y using dom that by blast
  have new: "(\<exists>k\<le>w. t = ds @ take k (enc c)) \<and> ud (h' ! y) = None \<and> flag (h' ! y) = 0"
    if "digit.walk h 0 t = None" "digit.walk h' 0 t = Some y" for t y using dom that unfolding enc_len by blast
  have r: "digit.walk h' 0 (ds @ enc c) = r" using dom by blast
  show ok: "radix_ok h'" using digit.insert_loop_walk [OF o ds(1) l] by blast
  show "code_node h x \<Longrightarrow> code_node h' x \<and> ud (h' ! x) = ud (h ! x) \<and> flag (h' ! x) = flag (h ! x)"
    unfolding code_node_def using old by blast
  show same: "code_step h n c = Some m \<Longrightarrow> r = Some m"
    using old [of "ds @ enc c" m] r by (simp add: code_walk [OF ds(1)])
  show "code_step h' x d = (if x = n \<and> d = c \<and> r \<noteq> None then r else code_step h x d)" if x: "code_node h x"
  proof -
    obtain ds' where ds': "digit.walk h 0 ds' = Some x" "w dvd length ds'" using x by (auto simp: code_node_def)
    have w': "code_step h' x d = digit.walk h' 0 (ds' @ enc d)" using old [OF ds'(1)] by (intro code_walk) simp
    have w: "code_step h x d = digit.walk h 0 (ds' @ enc d)" by (rule code_walk [OF ds'(1)])
    show ?thesis
    proof (cases "x = n \<and> d = c")
      case True
      then have "ds' = ds" using digit.walk_inj [OF o ds'(1), of ds] ds(1) by simp
      then show ?thesis using True w' w r old [of "ds @ enc c"] by (cases "digit.walk h 0 (ds @ enc c)") auto
    next
      case False
      have "digit.walk h' 0 (ds' @ enc d) = None" if none: "digit.walk h 0 (ds' @ enc d) = None"
      proof (rule ccontr)
        assume "digit.walk h' 0 (ds' @ enc d) \<noteq> None"
        then obtain k where k: "k \<le> w" "ds' @ enc d = ds @ take k (enc c)" using new [OF none] by blast
        have len: "length ds' + w = length ds + k" using arg_cong [OF k(2), of length] k(1) by (simp add: enc_len)
        have "w dvd length ds + k" using ds'(2) len [symmetric] by simp
        then have "w dvd k" using ds(2) by (simp add: dvd_add_right_iff)
        then have "k = 0 \<or> k = w" using k(1) by (meson dvd_imp_le le_antisym neq0_conv)
        then show False
        proof
          assume "k = 0"
          then show False using k(2) none ds(1) by simp
        next
          assume "k = w"
          then have "ds' = ds" "enc d = enc c" using k(2) len by (simp_all add: enc_len)
          then show False using False ds(1) ds'(1) enc_inj by auto
        qed
      qed
      then show ?thesis using False w w' old [of "ds' @ enc d"] by (cases "digit.walk h 0 (ds' @ enc d)") auto
    qed
  qed
  show "code_step h' m d = None \<and> ud (h' ! m) = None \<and> flag (h' ! m) = 0" if c: "code_step h n c = None" and m: "r = Some m"
  proof -
    have none: "digit.walk h 0 (ds @ enc c) = None" using c code_walk [OF ds(1)] by simp
    have some: "digit.walk h' 0 (ds @ enc c) = Some m" using r m by simp
    have no: "digit.walk h 0 ((ds @ enc c) @ enc d) = None" using none by (simp only: digit.walk_append) simp
    have "digit.walk h' 0 ((ds @ enc c) @ enc d) = None"
    proof (rule ccontr)
      assume "digit.walk h' 0 ((ds @ enc c) @ enc d) \<noteq> None"
      then obtain k where "(ds @ enc c) @ enc d = ds @ take k (enc c)" using new [OF no] by blast
      from arg_cong [OF this, of length] show False using w_pos by (simp add: enc_len)
    qed
    then have "digit.walk h' m (enc d) = None" unfolding digit.walk_append [of h' 0 "ds @ enc c"] some by simp
    then show ?thesis using new [OF none some] by (simp add: code_step_def)
  qed
qed

end

sublocale radix_code \<subseteq> code: trie_nodes radix_ok code_node code_step code_insert
proof unfold_locales
  fix h h' :: "'u radix_node list" and n x c al r al' m
  assume o: "radix_ok h"
  show "code_node h 0" by (rule code_root [OF o])
  assume n: "code_node h n"
  show "n < length h" by (rule code_less [OF o n])
  show "code_node h m \<and> m \<noteq> 0" if "code_step h n c = Some m" by (rule code_step_node [OF o n that])
  show "radix_ok (h[n := (h ! n)\<lparr>ud := u, flag := f\<rparr>])" for u f by (rule radix_set(2) [OF code_less [OF o n] o])
  assume i: "code_insert n c (h, al) = (r, h', al')"
  show "radix_ok h'" by (rule code_insert_laws(1) [OF o n i])
  show "r \<noteq> None \<and> al' = []" if "code_insert n c (h, []) = (r, h', al')" for r h' al'
    using digit.insert_loop_mem [OF o code_less [OF o n]] that by (simp add: code_insert_def)
  show "r = Some m" if "code_step h n c = Some m" by (rule code_insert_laws(3) [OF o n i that])
  show "(\<forall>c. code_step h' m c = None) \<and> ud (h' ! m) = None \<and> flag (h' ! m) = 0"
    if "code_step h n c = None" "r = Some m" using code_insert_laws(5) [OF o n i that] by blast
  assume x: "code_node h x"
  show "code_node h' x \<and> ud (h' ! x) = ud (h ! x) \<and> flag (h' ! x) = flag (h ! x)" by (rule code_insert_laws(2) [OF o n i x])
  show "code_step h' x = (if x = n \<and> r \<noteq> None then (code_step h n)(c := r) else code_step h x)"
    using code_insert_laws(4) [OF o n i x] by (auto simp: fun_eq_iff)
qed (rule code_step_inj code_set; assumption)+

text \<open>Two digits of 4 bits; four digits of 2 bits.\<close>

definition enc4 :: "UCHAR \<Rightarrow> UCHAR list" where
  "enc4 c = [drop_bit 4 c AND 0xf, c AND 0xf]"

definition enc2 :: "UCHAR \<Rightarrow> UCHAR list" where
  "enc2 c = [drop_bit 6 c AND 0x3, drop_bit 4 c AND 0x3, drop_bit 2 c AND 0x3, c AND 0x3]"

lemma enc4_inj: "enc4 c = enc4 c' \<Longrightarrow> c = c'"
proof -
  assume e: "enc4 c = enc4 c'"
  have m: "0xf = (mask 4 :: UCHAR)" by (simp add: mask_eq_exp_minus_1)
  have "c = push_bit 4 (drop_bit 4 c AND 0xf) OR (c AND 0xf)" for c :: UCHAR
    unfolding m by (rule bit_word_eqI) (auto simp: bit_simps)
  then show ?thesis using e unfolding enc4_def by (metis list.inject)
qed

lemma enc2_inj: "enc2 c = enc2 c' \<Longrightarrow> c = c'"
proof -
  assume e: "enc2 c = enc2 c'"
  have m: "0x3 = (mask 2 :: UCHAR)" by (simp add: mask_eq_exp_minus_1)
  have "c = push_bit 6 (drop_bit 6 c AND 0x3) OR push_bit 4 (drop_bit 4 c AND 0x3) OR push_bit 2 (drop_bit 2 c AND 0x3) OR (c AND 0x3)"
    (is "_ = ?r c") for c :: UCHAR
  proof (rule bit_word_eqI)
    fix n assume "n < LENGTH(8)"
    then have "n \<in> {0, 1, 2, 3, 4, 5, 6, 7}" by auto
    then show "bit c n = bit (?r c) n" unfolding m by (elim insertE emptyE) (simp_all add: bit_simps)
  qed
  then show ?thesis using e unfolding enc2_def by (metis list.inject)
qed

interpretation r4: radix_code enc4 2
  by unfold_locales (simp_all add: enc4_inj enc4_def)

interpretation r2: radix_code enc2 4
  by unfold_locales (simp_all add: enc2_inj enc2_def)

lemma try_insert_simple: "trie4b_try_insert_4bits = TrieSimple_Insert" "trie2b_try_insert_2bits = TrieSimple_Insert"
  by (simp_all add: fun_eq_iff trie4b_try_insert_4bits_def trie2b_try_insert_2bits_def TrieSimple_Insert_def)

lemma Trie4b_code: "trie4b_find_node = r4.code_step" "Trie4b_Insert = r4.code_insert"
  by (simp_all add: fun_eq_iff trie4b_find_node_def r4.code_step_def enc4_def TrieSimple_get_def Trie4b_Insert_def
      r4.code_insert_def try_insert_simple split: option.split prod.split)

lemma Trie2b_code: "trie2b_find_node = r2.code_step" "Trie2b_Insert = r2.code_insert"
  by (simp_all add: fun_eq_iff trie2b_find_node_def r2.code_step_def enc2_def TrieSimple_get_def Trie2b_Insert_def
      r2.code_insert_def try_insert_simple split: option.split prod.split)

section \<open>Lists of successors keep the contract\<close>

text \<open>A node with a bit map of the characters of its successors and a collection of them, searched by character.\<close>

locale kid_trie =
  fixes good :: "('u, 'n) trie_common_scheme \<Rightarrow> bool"
    and kids :: "('u, 'n) trie_common_scheme \<Rightarrow> nat set"
    and bits :: "('u, 'n) trie_common_scheme \<Rightarrow> UINT list"
    and chr :: "('u, 'n) trie_common_scheme \<Rightarrow> UCHAR"
    and get :: "('u, 'n) trie_common_scheme list \<Rightarrow> nat \<Rightarrow> UCHAR \<Rightarrow> nat option"
    and create :: "('u, 'n) trie_common_scheme trie_insert"
  assumes set_common: "good (x\<lparr>ud := u, flag := f\<rparr>) = good x" "kids (x\<lparr>ud := u, flag := f\<rparr>) = kids x"
      "bits (x\<lparr>ud := u, flag := f\<rparr>) = bits x" "chr (x\<lparr>ud := u, flag := f\<rparr>) = chr x"
    and get_iff: "good (h ! n) \<Longrightarrow> inj_on (\<lambda>m. chr (h ! m)) (kids (h ! n)) \<Longrightarrow>
      (\<And>c. ArrayBit_Test (bits (h ! n)) (unat c) \<longleftrightarrow> (\<exists>m\<in>kids (h ! n). chr (h ! m) = c)) \<Longrightarrow>
      get h n c = Some m \<longleftrightarrow> m \<in> kids (h ! n) \<and> chr (h ! m) = c"
    and create: "n < length h \<Longrightarrow> good (h ! n) \<Longrightarrow> card (kids (h ! n)) \<le> 256 \<Longrightarrow> length h \<notin> kids (h ! n) \<Longrightarrow>
      create n c (h, al) = (r, h', al') \<Longrightarrow>
      (r = None \<and> h' = h) \<or>
      (r = Some (length h) \<and>
        (\<exists>x y. h' = h[n := x] @ [y] \<and> good x \<and> ud x = ud (h ! n) \<and> flag x = flag (h ! n) \<and> chr x = chr (h ! n) \<and>
           kids x = insert (length h) (kids (h ! n)) \<and> bits x = ArrayBit_Set (bits (h ! n)) (unat c) \<and>
           good y \<and> kids y = {} \<and> bits y = replicate 8 0 \<and> chr y = c \<and> ud y = None \<and> flag y = 0))"
    and create_mem: "n < length h \<Longrightarrow> good (h ! n) \<Longrightarrow> card (kids (h ! n)) \<le> 256 \<Longrightarrow> create n c (h, []) = (r, h', al') \<Longrightarrow>
      r \<noteq> None \<and> al' = []"
begin

definition kid_insert :: "('u, 'n) trie_common_scheme trie_insert" where
  "kid_insert cur c = (\<lambda>(h, al). case get h cur c of Some n \<Rightarrow> (Some n, h, al) | None \<Rightarrow> create cur c (h, al))"

definition kid_node :: "('u, 'n) trie_common_scheme list \<Rightarrow> nat \<Rightarrow> bool" where
  "kid_node h n \<longleftrightarrow> good (h ! n) \<and> length (bits (h ! n)) = 8 \<and> (\<forall>m\<in>kids (h ! n). n < m \<and> m < length h) \<and>
     inj_on (\<lambda>m. chr (h ! m)) (kids (h ! n)) \<and>
     (\<forall>c. ArrayBit_Test (bits (h ! n)) (unat c) \<longleftrightarrow> (\<exists>m\<in>kids (h ! n). chr (h ! m) = c))"

definition kid_ok :: "('u, 'n) trie_common_scheme list \<Rightarrow> bool" where
  "kid_ok h \<longleftrightarrow> h \<noteq> [] \<and> (\<forall>n<length h. kid_node h n) \<and>
     (\<forall>n<length h. \<forall>n'<length h. n \<noteq> n' \<longrightarrow> kids (h ! n) \<inter> kids (h ! n') = {})"

lemma kid_get:
  assumes "kid_ok h" "n < length h"
  shows "get h n c = Some m \<longleftrightarrow> m \<in> kids (h ! n) \<and> chr (h ! m) = c"
proof -
  have k: "kid_node h n" using assms by (simp add: kid_ok_def)
  then show ?thesis by (intro get_iff) (simp_all add: kid_node_def)
qed

lemma kid_card:
  assumes "kid_ok h" "n < length h"
  shows "card (kids (h ! n)) \<le> 256" "length h \<notin> kids (h ! n)"
proof -
  have k: "kid_node h n" using assms by (simp add: kid_ok_def)
  have "card (kids (h ! n)) = card ((\<lambda>m. chr (h ! m)) ` kids (h ! n))"
    by (rule card_image [symmetric]) (use k in \<open>simp add: kid_node_def\<close>)
  also have "\<dots> \<le> card (UNIV :: UCHAR set)" by (rule card_mono) simp_all
  finally show "card (kids (h ! n)) \<le> 256" by (simp add: card_word)
  show "length h \<notin> kids (h ! n)" using k unfolding kid_node_def by blast
qed

lemma kid_insert_cases:
  assumes o: "kid_ok h" "n < length h" and i: "kid_insert n c (h, al) = (r, h', al')"
  obtains m where "get h n c = Some m" "r = Some m" "h' = h"
  | "get h n c = None" "r = None" "h' = h"
  | x y where "get h n c = None" "r = Some (length h)" "h' = h[n := x] @ [y]" "good x" "ud x = ud (h ! n)"
      "flag x = flag (h ! n)" "chr x = chr (h ! n)" "kids x = insert (length h) (kids (h ! n))"
      "bits x = ArrayBit_Set (bits (h ! n)) (unat c)" "good y" "kids y = {}" "bits y = replicate 8 0" "chr y = c"
      "ud y = None" "flag y = 0"
proof (cases "get h n c")
  case None
  then have c: "create n c (h, al) = (r, h', al')" using i by (simp add: kid_insert_def)
  have "kid_node h n" using o by (simp add: kid_ok_def)
  then have "good (h ! n)" by (simp add: kid_node_def)
  from create [OF o(2) this kid_card [OF o] c] show ?thesis
  proof (elim disjE exE conjE)
    assume "r = None" "h' = h"
    then show ?thesis by (rule that(2) [OF None])
  qed (rule that(3) [OF None], assumption+)
next
  case (Some m)
  then have "r = Some m" "h' = h" using i by (simp_all add: kid_insert_def)
  then show ?thesis using that(1) Some by blast
qed

lemma kid_new:
  assumes o: "kid_ok h" "n < length h" and g: "get h n c = None"
    and x: "good x" "chr x = chr (h ! n)" "kids x = insert (length h) (kids (h ! n))" "bits x = ArrayBit_Set (bits (h ! n)) (unat c)"
    and y: "good y" "kids y = {}" "bits y = replicate 8 0" "chr y = c"
  defines "h' \<equiv> h[n := x] @ [y]"
  shows "kid_ok h'"
    and "z < length h \<Longrightarrow> get h' z d = (if z = n \<and> d = c then Some (length h) else get h z d)"
    and "get h' (length h) d = None"
proof -
  have at: "h' ! z = (if z = length h then y else if z = n then x else h ! z)" if "z < Suc (length h)" for z
    using that o(2) by (auto simp: h'_def nth_append)
  have len: "length h' = Suc (length h)" by (simp add: h'_def)
  have kn: "kid_node h z" if "z < length h" for z using o(1) that by (simp add: kid_ok_def)
  have lt: "m < length h" if "z < length h" "m \<in> kids (h ! z)" for z m using kn [OF that(1)] that(2) by (simp add: kid_node_def)
  have chr: "chr (h' ! m) = (if m = length h then c else chr (h ! m))" if "m < Suc (length h)" for m
    using that x(2) y(4) by (simp add: at)
  have kids: "kids (h' ! z) = (if z = length h then {} else if z = n then insert (length h) (kids (h ! n)) else kids (h ! z))"
    if "z < Suc (length h)" for z using that x(3) y(2) by (simp add: at)
  have nokid: "chr (h ! m) \<noteq> c" if "m \<in> kids (h ! n)" for m
    using kid_get [OF o, of c m] g that by auto
  have node: "kid_node h' z" if z: "z < Suc (length h)" for z
  proof (cases "z = length h")
    case True
    have "\<not> ArrayBit_Test (replicate 8 0) (unat c)" for c :: UCHAR using unat_lt2p [of c] by simp
    then show ?thesis using True y by (simp add: kid_node_def at)
  next
    case False
    then have zl: "z < length h" using z by simp
    note k = kn [OF zl, unfolded kid_node_def]
    have l: "m < length h" if "m \<in> kids (h ! z)" for m by (rule lt [OF zl that])
    have old: "inj_on (\<lambda>m. chr (h' ! m)) (kids (h ! z))"
      using k l by (auto simp: inj_on_def chr less_Suc_eq)
    show ?thesis
    proof (cases "z = n")
      case True
      have c': "chr (h' ! m) = chr (h ! m)" if "m \<in> kids (h ! n)" for m using chr [of m] l [of m] that True by auto
      have "c \<notin> (\<lambda>m. chr (h' ! m)) ` kids (h ! n)" using nokid c' by force
      then have "inj_on (\<lambda>m. chr (h' ! m)) (insert (length h) (kids (h ! n)))"
        unfolding inj_on_insert using old True chr [of "length h"] by auto
      moreover have "ArrayBit_Test (bits x) (unat d) \<longleftrightarrow> (\<exists>m\<in>insert (length h) (kids (h ! n)). chr (h' ! m) = d)" for d
      proof -
        have "ArrayBit_Test (bits x) (unat d) \<longleftrightarrow> unat c = unat d \<or> ArrayBit_Test (bits (h ! n)) (unat d)"
          unfolding x(4) by (rule ArrayBit_Test_Set) (use k True unat_lt2p [of c] unat_lt2p [of d] in simp_all)
        moreover have "unat c = unat d \<longleftrightarrow> c = d" by (simp add: word_unat_eq_iff)
        ultimately show ?thesis using k True c' chr [of "length h"] by auto
      qed
      ultimately show ?thesis
        using True x k l o(2) by (auto simp: kid_node_def kids at len less_Suc_eq)
    next
      case False
      have "ArrayBit_Test (bits (h ! z)) (unat d) \<longleftrightarrow> (\<exists>m\<in>kids (h ! z). chr (h' ! m) = d)" for d
        using k l chr by (metis less_SucI less_irrefl)
      then show ?thesis
        using False \<open>z \<noteq> length h\<close> zl k l old by (auto simp: kid_node_def at len less_Suc_eq)
    qed
  qed
  show ok: "kid_ok h'"
    unfolding kid_ok_def len
  proof (intro conjI allI impI)
    show "h' \<noteq> []" using len by auto
    show "kid_node h' z" if "z < Suc (length h)" for z by (rule node [OF that])
    fix a b assume ab: "a < Suc (length h)" "b < Suc (length h)" "a \<noteq> b"
    have "kids (h ! a) \<inter> kids (h ! b) = {}" if "a < length h" "b < length h" using o(1) that ab(3) by (simp add: kid_ok_def)
    then show "kids (h' ! a) \<inter> kids (h' ! b) = {}"
      using ab lt [of a "length h"] lt [of b "length h"] by (auto simp: kids less_Suc_eq)
  qed
  show "get h' z d = (if z = n \<and> d = c then Some (length h) else get h z d)" if z: "z < length h"
  proof -
    have zl: "z < length h'" using z len by simp
    have "get h' z d = Some m \<longleftrightarrow> (if z = n \<and> d = c then Some (length h) else get h z d) = Some m" for m
    proof -
      have a: "get h' z d = Some m \<longleftrightarrow> m \<in> kids (h' ! z) \<and> chr (h' ! m) = d" by (rule kid_get [OF ok zl])
      have b: "get h z d = Some m \<longleftrightarrow> m \<in> kids (h ! z) \<and> chr (h ! m) = d" by (rule kid_get [OF o(1) z])
      have k: "kids (h' ! z) = (if z = n then insert (length h) (kids (h ! n)) else kids (h ! z))" using kids [of z] z by simp
      have c': "chr (h' ! m) = chr (h ! m)" if "m \<in> kids (h ! z)" using chr [of m] lt [OF z that] by simp
      have cl: "chr (h' ! length h) = c" using chr [of "length h"] by simp
      show ?thesis
      proof (cases "m = length h")
        case True
        have "m \<notin> kids (h ! z)" using lt [OF z, of m] True by blast
        moreover have "m \<in> kids (h' ! z) \<longleftrightarrow> z = n" using k True \<open>m \<notin> kids (h ! z)\<close> by simp
        ultimately show ?thesis using a b cl True by auto
      next
        case False
        have "m \<in> kids (h' ! z) \<longleftrightarrow> m \<in> kids (h ! z)" using k False by simp
        then show ?thesis using a b c' nokid [of m] False by auto
      qed
    qed
    then show ?thesis by (metis option.exhaust)
  qed
  show "get h' (length h) d = None"
    using kid_get [OF ok, of "length h" d] len by (cases "get h' (length h) d") (auto simp: kids)
qed

lemma kid_set:
  assumes o: "kid_ok h"
  shows "kid_ok (h[n := (h ! n)\<lparr>ud := u, flag := f\<rparr>])"
    and "z < length h \<Longrightarrow> get (h[n := (h ! n)\<lparr>ud := u, flag := f\<rparr>]) z = get h z"
proof -
  let ?h = "h[n := (h ! n)\<lparr>ud := u, flag := f\<rparr>]"
  have e: "good (?h ! z) = good (h ! z)" "kids (?h ! z) = kids (h ! z)" "bits (?h ! z) = bits (h ! z)" "chr (?h ! z) = chr (h ! z)" for z
    by (rule field_update_other, simp add: set_common)+
  show k: "kid_ok ?h" using o unfolding kid_ok_def kid_node_def length_list_update list_update_nonempty e .
  assume z: "z < length h"
  show "get ?h z = get h z"
  proof
    fix d
    have "get ?h z d = Some m \<longleftrightarrow> get h z d = Some m" for m
      using kid_get [OF k, of z d m] kid_get [OF o z, of d m] z by (simp add: e)
    then show "get ?h z d = get h z d" by (metis option.exhaust)
  qed
qed

end

sublocale kid_trie \<subseteq> keys: trie_nodes kid_ok "\<lambda>h n. n < length h" get kid_insert
proof unfold_locales
  fix h h' n n' x c c' al r al' m
  assume o: "kid_ok h"
  then show "0 < length h" by (simp add: kid_ok_def)
  have kn: "kid_node h z" if "z < length h" for z using o that by (simp add: kid_ok_def)
  assume n: "n < length h"
  then show "n < length h" .
  show "m < length h \<and> m \<noteq> 0" if "get h n c = Some m"
    using that kid_get [OF o n] kn [OF n] unfolding kid_node_def by (metis less_nat_zero_code)
  show "kid_ok (h[n := (h ! n)\<lparr>ud := u, flag := f\<rparr>])" for u f by (rule kid_set(1) [OF o])
  assume i: "kid_insert n c (h, al) = (r, h', al')"
  show "r \<noteq> None \<and> al' = []" if "kid_insert n c (h, []) = (r, h', al')" for r h' al'
  proof (cases "get h n c")
    case None
    have "good (h ! n)" using kn [OF n] by (simp add: kid_node_def)
    then show ?thesis using create_mem [OF n _ kid_card(1) [OF o n]] that None by (simp add: kid_insert_def)
  next
    case (Some a)
    then have "(Some a, h, []) = (r, h', al')" using that by (simp add: kid_insert_def)
    then show ?thesis by (metis Pair_inject option.distinct(1))
  qed
  from o n i show "kid_ok h'" by (cases rule: kid_insert_cases) (use o in \<open>simp_all add: kid_new(1) [OF o n]\<close>)
  from o n i show "r = Some m" if "get h n c = Some m" by (cases rule: kid_insert_cases) (use that in simp_all)
  from o n i show "(\<forall>c. get h' m c = None) \<and> ud (h' ! m) = None \<and> flag (h' ! m) = 0" if "get h n c = None" "r = Some m"
    by (cases rule: kid_insert_cases) (use that in \<open>auto simp: kid_new(3) [OF o n] nth_append\<close>)
  assume x: "x < length h"
  from o n i show "x < length h' \<and> ud (h' ! x) = ud (h ! x) \<and> flag (h' ! x) = flag (h ! x)"
    by (cases rule: kid_insert_cases) (use x in \<open>simp_all add: nth_append field_update_other [of ud] field_update_other [of flag]\<close>)
  from o n i show "get h' x = (if x = n \<and> r \<noteq> None then (get h n)(c := r) else get h x)"
    by (cases rule: kid_insert_cases) (auto simp: kid_new(2) [OF o n _ _ _ _ _ _ _ _ _ x] fun_eq_iff)
next
  fix h n n' c c' m
  assume o: "kid_ok h" and n: "n < length h" "n' < length h" and g: "get h n c = Some m" "get h n' c' = Some m"
  have "m \<in> kids (h ! n)" "m \<in> kids (h ! n')" "chr (h ! m) = c" "chr (h ! m) = c'"
    using g kid_get [OF o n(1)] kid_get [OF o n(2)] by simp_all
  moreover have "n \<noteq> n' \<Longrightarrow> kids (h ! n) \<inter> kids (h ! n') = {}" using o n by (simp add: kid_ok_def)
  ultimately show "n = n' \<and> c = c'" by blast
qed (simp_all add: kid_set(2))

subsection \<open>Linked lists\<close>

lemma find_inj_iff:
  assumes "inj_on f (set xs)"
  shows "find (\<lambda>x. f x = c) xs = Some m \<longleftrightarrow> m \<in> set xs \<and> f m = c"
  using assms by (induction xs) (auto simp: inj_on_def)

interpretation ll: kid_trie "\<lambda>x. True" "\<lambda>x. set (ll_next x)" ll_bits ll_c triell_get_node triell_create_node
proof unfold_locales
  fix h :: "'u ll_node list" and n c m
  assume "inj_on (\<lambda>m. ll_c (h ! m)) (set (ll_next (h ! n)))"
    and b: "\<And>c. ArrayBit_Test (ll_bits (h ! n)) (unat c) \<longleftrightarrow> (\<exists>m\<in>set (ll_next (h ! n)). ll_c (h ! m) = c)"
  from find_inj_iff [OF this(1), of c m] b [of c]
  show "triell_get_node h n c = Some m \<longleftrightarrow> m \<in> set (ll_next (h ! n)) \<and> ll_c (h ! m) = c"
    by (auto simp: triell_get_node_def)
next
  fix h h' :: "'u ll_node list" and n c al r al'
  assume n: "n < length h" and c: "triell_create_node n c (h, al) = (r, h', al')"
  obtain a al1 where a: "mem_ask al = (a, al1)" by (cases "mem_ask al")
  let ?x = "(h ! n)\<lparr>ll_next := length h # ll_next (h ! n), ll_bits := ArrayBit_Set (ll_bits (h ! n)) (unat c)\<rparr>"
  let ?y = "\<lparr>ud = None, flag = 0, ll_next = [], ll_bits = replicate 8 0, ll_c = c\<rparr> :: 'u ll_node"
  have "(r = None \<and> h' = h) \<or> (r = Some (length h) \<and> h' = h[n := ?x] @ [?y])"
    using n c a by (cases a) (auto simp: triell_create_node_def Let_def nth_append list_update_append1)
  then show "(r = None \<and> h' = h) \<or>
      (r = Some (length h) \<and>
        (\<exists>x y. h' = h[n := x] @ [y] \<and> True \<and> ud x = ud (h ! n) \<and> flag x = flag (h ! n) \<and> ll_c x = ll_c (h ! n) \<and>
           set (ll_next x) = insert (length h) (set (ll_next (h ! n))) \<and> ll_bits x = ArrayBit_Set (ll_bits (h ! n)) (unat c) \<and>
           True \<and> set (ll_next y) = {} \<and> ll_bits y = replicate 8 0 \<and> ll_c y = c \<and> ud y = None \<and> flag y = 0))"
    by (elim disjE conjE) (simp, intro disjI2 conjI exI [of _ ?x] exI [of _ ?y], simp_all)
qed (auto simp: triell_create_node_def Let_def)

lemma Triell_kid: "Triell_Insert = ll.kid_insert"
  by (simp add: fun_eq_iff Triell_Insert_def ll.kid_insert_def)

subsection \<open>Growing arrays\<close>

text \<open>The array of a node has no free slot.\<close>

definition da_full :: "'u da_node \<Rightarrow> nat list \<Rightarrow> bool" where
  "da_full x ks \<longleftrightarrow> (case da_nexts x of
     None \<Rightarrow> ks = []
   | Some d \<Rightarrow> ks \<noteq> [] \<and> distinct ks \<and> uiSize d = length ks \<and> step_num d = 1 \<and> phArray d = map Some ks)"

definition da_good :: "'u da_node \<Rightarrow> bool" where
  "da_good x \<longleftrightarrow> (\<exists>ks. da_full x ks)"

definition da_kids :: "'u da_node \<Rightarrow> nat set" where
  "da_kids x = (case da_nexts x of None \<Rightarrow> {} | Some d \<Rightarrow> {m. Some m \<in> set (phArray d)})"

lemma da_kids_full: "da_full x ks \<Longrightarrow> da_kids x = set ks"
  by (auto simp: da_kids_def da_full_def split: option.splits)

lemma add_to_space_full: "None \<notin> set xs \<Longrightarrow> add_to_space h i xs = (DARRAY_INVALID_INDEX, xs)"
  by (induction h i xs rule: add_to_space.induct) auto

lemma DARRAY_Add_full:
  assumes "uiSize d = length ks" "step_num d = 1" "phArray d = map Some ks" "length ks \<le> 256"
  shows "DARRAY_Add a d (Some m) =
    (if a then (length ks, d\<lparr>uiSize := length ks + 1, phArray := map Some (ks @ [m])\<rparr>) else (DARRAY_INVALID_INDEX, d))"
  using assms add_to_space_full [of "map Some ks" "Some m" 0]
  by (auto simp: DARRAY_Add_def darray_AddToSpace_def darray_ExpandAndAdd_def darray_Expand_def Let_def list_update_append)

lemma DARRAY_Add_fresh:
  "DARRAY_Create a1 a2 1 1 = Some d \<Longrightarrow>
    DARRAY_Add a d (Some m) = (0, d\<lparr>phArray := [Some m]\<rparr>) \<and> uiSize d = 1 \<and> step_num d = 1"
  by (auto simp: DARRAY_Create_def DARRAY_Add_def darray_AddToSpace_def DARRAY_INVALID_INDEX_def split: if_splits)

lemma triedarray_create_cases:
  assumes n: "n < length h" and f: "da_full (h ! n) ks" "length ks \<le> 256"
    and c: "triedarray_create_node n c (h, al) = (r, h', al')"
  shows "(r = None \<and> h' = h) \<or> (r = Some (length h) \<and> (\<exists>d. da_full ((h ! n)\<lparr>da_nexts := Some d\<rparr>) (ks @ [length h]) = (length h \<notin> set ks) \<and>
    h' = h[n := (h ! n)\<lparr>da_nexts := Some d, da_bits := ArrayBit_Set (da_bits (h ! n)) (unat c)\<rparr>] @
      [\<lparr>ud = None, flag = 0, da_bits = replicate 8 0, da_nexts = None, da_c = c\<rparr>]))"
proof -
  obtain a al1 where a: "mem_ask al = (a, al1)" by (cases "mem_ask al")
  show ?thesis
  proof (cases a)
    case False
    then show ?thesis using c a by (simp add: triedarray_create_node_def)
  next
    case True
    show ?thesis
    proof (cases "da_nexts (h ! n)")
      case (Some d)
      obtain a4 al4 where a4: "mem_ask al1 = (a4, al4)" by (cases "mem_ask al1")
      have d: "uiSize d = length ks" "step_num d = 1" "phArray d = map Some ks" "distinct ks" "ks \<noteq> []"
        using f(1) Some by (simp_all add: da_full_def)
      have same: "h[n := (h ! n)\<lparr>da_nexts := Some d\<rparr>] = h"
        using Some by (metis da_node.surjective da_node.update_convs(2) list_update_id old.unit.exhaust)
      have l: "length ks \<noteq> DARRAY_INVALID_INDEX" using f(2) by (simp add: DARRAY_INVALID_INDEX_def)
      note add = DARRAY_Add_full [OF d(1-3) f(2), of a4 "length h"]
      show ?thesis
      proof (cases a4)
        case True
        then have "triedarray_create_node n c (h, al) = (Some (length h),
            h[n := (h ! n)\<lparr>da_nexts := Some (d\<lparr>uiSize := length ks + 1, phArray := map Some (ks @ [length h])\<rparr>),
                da_bits := ArrayBit_Set (da_bits (h ! n)) (unat c)\<rparr>] @
            [\<lparr>ud = None, flag = 0, da_bits = replicate 8 0, da_nexts = None, da_c = c\<rparr>], al4)"
          using a \<open>a\<close> Some a4 add n l
          by (simp add: triedarray_create_node_def Let_def nth_append list_update_append1 del: map_append)
        then show ?thesis using c d by (intro disjI2 conjI exI) (auto simp: da_full_def)
      next
        case False
        then have "triedarray_create_node n c (h, al) = (None, h, al4)"
          using a \<open>a\<close> Some a4 add n same by (simp add: triedarray_create_node_def Let_def)
        then show ?thesis using c by simp
      qed
    next
      case None
      obtain b1 al2 where b1: "mem_ask al1 = (b1, al2)" by (cases "mem_ask al1")
      obtain b2 al3 where b2: "mem_ask al2 = (b2, al3)" by (cases "mem_ask al2")
      obtain a4 al4 where a4: "mem_ask al3 = (a4, al4)" by (cases "mem_ask al3")
      have ks: "ks = []" using f(1) None by (simp add: da_full_def)
      have same: "h[n := (h ! n)\<lparr>da_nexts := None\<rparr>] = h"
        using None by (metis da_node.surjective da_node.update_convs(2) list_update_id old.unit.exhaust)
      show ?thesis
      proof (cases "DARRAY_Create b1 b2 1 1 :: nat darray option")
        case (Some d)
        note add = DARRAY_Add_fresh [OF Some, of a4 "length h"]
        have "triedarray_create_node n c (h, al) = (Some (length h),
            h[n := (h ! n)\<lparr>da_nexts := Some (d\<lparr>phArray := [Some (length h)]\<rparr>),
                da_bits := ArrayBit_Set (da_bits (h ! n)) (unat c)\<rparr>] @
            [\<lparr>ud = None, flag = 0, da_bits = replicate 8 0, da_nexts = None, da_c = c\<rparr>], al4)"
          using a \<open>a\<close> None b1 b2 a4 add n Some
          by (simp add: triedarray_create_node_def Let_def nth_append list_update_append1 DARRAY_INVALID_INDEX_def)
        then show ?thesis using c add ks by (intro disjI2 conjI exI) (auto simp: da_full_def)
      next
        case none: None
        then have "triedarray_create_node n c (h, al) = (None, h, al3)"
          using a \<open>a\<close> None b1 b2 n same by (simp add: triedarray_create_node_def Let_def)
        then show ?thesis using c by simp
      qed
    qed
  qed
qed

lemma find_map: "find P (map f xs) = map_option f (find (P \<circ> f) xs)"
  by (induction xs) auto

interpretation da: kid_trie da_good da_kids da_bits da_c triedarray_get_node triedarray_create_node
proof unfold_locales
  fix x :: "'u da_node" and u f
  show "da_good (x\<lparr>ud := u, flag := f\<rparr>) = da_good x" "da_kids (x\<lparr>ud := u, flag := f\<rparr>) = da_kids x"
    "da_bits (x\<lparr>ud := u, flag := f\<rparr>) = da_bits x" "da_c (x\<lparr>ud := u, flag := f\<rparr>) = da_c x"
    by (simp_all add: da_good_def da_full_def da_kids_def)
next
  fix h :: "'u da_node list" and n c m
  assume g: "da_good (h ! n)" and i: "inj_on (\<lambda>m. da_c (h ! m)) (da_kids (h ! n))"
    and b: "\<And>c. ArrayBit_Test (da_bits (h ! n)) (unat c) \<longleftrightarrow> (\<exists>m\<in>da_kids (h ! n). da_c (h ! m) = c)"
  obtain ks where ks: "da_full (h ! n) ks" using g by (auto simp: da_good_def)
  have k: "da_kids (h ! n) = set ks" by (rule da_kids_full [OF ks])
  show "triedarray_get_node h n c = Some m \<longleftrightarrow> m \<in> da_kids (h ! n) \<and> da_c (h ! m) = c"
  proof (cases "da_nexts (h ! n)")
    case None
    then show ?thesis using b [of c] by (simp add: triedarray_get_node_def da_kids_def)
  next
    case (Some d)
    have d: "uiSize d = length ks" "phArray d = map Some ks" using ks Some by (simp_all add: da_full_def)
    let ?i = "find (\<lambda>i. case DARRAY_Get d i of None \<Rightarrow> False | Some node \<Rightarrow> da_c (h ! node) = c) [0..<length ks]"
    have "?i = find (\<lambda>i. da_c (h ! (ks ! i)) = c) [0..<length ks]"
      by (rule find_cong) (simp_all add: DARRAY_Get_def d)
    then have f: "map_option ((!) ks) ?i = find (\<lambda>m. da_c (h ! m) = c) ks"
      using find_map [of "\<lambda>m. da_c (h ! m) = c" "(!) ks" "[0..<length ks]"] by (simp add: map_nth comp_def)
    have "i < length ks" if "?i = Some i" for i using that unfolding find_Some_iff by auto
    then have "(case ?i of None \<Rightarrow> None | Some i \<Rightarrow> DARRAY_Get d i) = map_option ((!) ks) ?i"
      by (cases ?i) (simp_all add: DARRAY_Get_def d)
    then have "triedarray_get_node h n c = Some m \<longleftrightarrow>
        ArrayBit_Test (da_bits (h ! n)) (unat c) \<and> find (\<lambda>m. da_c (h ! m) = c) ks = Some m"
      using Some f by (simp add: triedarray_get_node_def DARRAY_GetSize_def d)
    also have "\<dots> \<longleftrightarrow> m \<in> da_kids (h ! n) \<and> da_c (h ! m) = c"
      using find_inj_iff [OF i [unfolded k], of c m] b [of c] k by auto
    finally show ?thesis .
  qed
next
  fix h h' :: "'u da_node list" and n c al r al'
  assume n: "n < length h" and g: "da_good (h ! n)" and card: "card (da_kids (h ! n)) \<le> 256" and new: "length h \<notin> da_kids (h ! n)"
    and c: "triedarray_create_node n c (h, al) = (r, h', al')"
  obtain ks where ks: "da_full (h ! n) ks" using g by (auto simp: da_good_def)
  have k: "da_kids (h ! n) = set ks" by (rule da_kids_full [OF ks])
  have "distinct ks" using ks by (auto simp: da_full_def split: option.splits)
  then have l: "length ks \<le> 256" using card by (simp add: k distinct_card)
  let ?y = "\<lparr>ud = None, flag = 0, da_bits = replicate 8 0, da_nexts = None, da_c = c\<rparr> :: 'u da_node"
  from triedarray_create_cases [OF n ks l c]
  show "(r = None \<and> h' = h) \<or>
      (r = Some (length h) \<and>
        (\<exists>x y. h' = h[n := x] @ [y] \<and> da_good x \<and> ud x = ud (h ! n) \<and> flag x = flag (h ! n) \<and> da_c x = da_c (h ! n) \<and>
           da_kids x = insert (length h) (da_kids (h ! n)) \<and> da_bits x = ArrayBit_Set (da_bits (h ! n)) (unat c) \<and>
           da_good y \<and> da_kids y = {} \<and> da_bits y = replicate 8 0 \<and> da_c y = c \<and> ud y = None \<and> flag y = 0))"
  proof (elim disjE conjE exE)
    fix d
    let ?x = "(h ! n)\<lparr>da_nexts := Some d, da_bits := ArrayBit_Set (da_bits (h ! n)) (unat c)\<rparr>"
    assume r: "r = Some (length h)" and f: "da_full ((h ! n)\<lparr>da_nexts := Some d\<rparr>) (ks @ [length h]) = (length h \<notin> set ks)"
      and h': "h' = h[n := ?x] @ [?y]"
    have x: "da_full ?x (ks @ [length h])" using f new k by (simp add: da_full_def)
    have "da_kids ?x = insert (length h) (da_kids (h ! n))" using da_kids_full [OF x] k by simp
    moreover have "da_good ?y" "da_kids ?y = {}" by (simp_all add: da_good_def da_full_def da_kids_def)
    ultimately show ?thesis using r h' x by (intro disjI2 conjI exI [of _ ?x] exI [of _ ?y]) (auto simp: da_good_def)
  qed simp
next
  fix h h' :: "'u da_node list" and n c r al'
  assume n: "n < length h" and g: "da_good (h ! n)" and card: "card (da_kids (h ! n)) \<le> 256"
    and c: "triedarray_create_node n c (h, []) = (r, h', al')"
  obtain ks where ks: "da_full (h ! n) ks" using g by (auto simp: da_good_def)
  have "distinct ks" using ks by (auto simp: da_full_def split: option.splits)
  then have l: "length ks \<le> 256" using card by (simp add: da_kids_full [OF ks] distinct_card)
  show "r \<noteq> None \<and> al' = []"
  proof (cases "da_nexts (h ! n)")
    case None
    have d: "(DARRAY_Create True True 1 1 :: nat darray option) \<noteq> None" by (simp add: DARRAY_Create_def)
    then obtain d :: "nat darray" where d: "DARRAY_Create True True 1 1 = Some d" by blast
    show ?thesis
      using c None n d DARRAY_Add_fresh [OF d, of True "length h"]
      by (auto simp: triedarray_create_node_def Let_def DARRAY_INVALID_INDEX_def)
  next
    case (Some d)
    have d: "uiSize d = length ks" "step_num d = 1" "phArray d = map Some ks"
      using ks Some by (simp_all add: da_full_def)
    show ?thesis
      using c Some n DARRAY_Add_full [OF d l, of True "length h"] l
      by (auto simp: triedarray_create_node_def Let_def DARRAY_INVALID_INDEX_def)
  qed
qed

lemma Triedarray_kid: "Triedarray_Insert = da.kid_insert"
  by (simp add: fun_eq_iff Triedarray_Insert_def da.kid_insert_def)

section \<open>The trie as a map\<close>

fun trie_ok :: "'u trie \<Rightarrow> bool" where
  "trie_ok (Trie_simple h) = radix_ok h"
| "trie_ok (Trie_ll h) = ll.kid_ok h"
| "trie_ok (Trie_darray h) = da.kid_ok h"
| "trie_ok (Trie_4bits h) = radix_ok h"
| "trie_ok (Trie_2bits h) = radix_ok h"

text \<open>The user data and the flags of a key; \<open>(None, 0)\<close> for a key that has no node.\<close>

fun trie_content :: "'u trie \<Rightarrow> UCHAR list \<Rightarrow> 'u option \<times> UINT" where
  "trie_content (Trie_simple h) = digit.content h"
| "trie_content (Trie_ll h) = ll.keys.content h"
| "trie_content (Trie_darray h) = da.keys.content h"
| "trie_content (Trie_4bits h) = r4.code.content h"
| "trie_content (Trie_2bits h) = r2.code.content h"

text \<open>What the caller reads through a node pointer.\<close>

fun trie_node_at :: "'u trie \<Rightarrow> nat \<Rightarrow> 'u option \<times> UINT" where
  "trie_node_at (Trie_simple h) n = (ud (h ! n), flag (h ! n))"
| "trie_node_at (Trie_ll h) n = (ud (h ! n), flag (h ! n))"
| "trie_node_at (Trie_darray h) n = (ud (h ! n), flag (h ! n))"
| "trie_node_at (Trie_4bits h) n = (ud (h ! n), flag (h ! n))"
| "trie_node_at (Trie_2bits h) n = (ud (h ! n), flag (h ! n))"

lemmas trie_impls = Trie4b_code Trie2b_code Triell_kid Triedarray_kid
lemmas prefix_defs = TrieSimple_PrefixMatch_def Triell_PrefixMatch_def Triedarray_PrefixMatch_def
  Trie4b_PrefixMatch_def Trie2b_PrefixMatch_def Trie4b_code Trie2b_code

definition key_hit :: "'u trie \<Rightarrow> trie_match \<Rightarrow> UCHAR list \<Rightarrow> int \<Rightarrow> nat \<Rightarrow> bool" where
  "key_hit t ty data data_len k \<longleftrightarrow> snd (trie_content t (take k data)) AND TRIE_NODE_FLAG_MATCHED \<noteq> 0 \<and>
     match_test ty data data_len (snd (trie_content t (take k data))) (int k)"

lemma Trie_Create_empty:
  fixes t :: "'u trie"
  assumes "Trie_Create al ty = (Some t, al')"
  shows "trie_ok t \<and> trie_content t = (\<lambda>s. (None, 0))"
proof -
  let ?z = "radix_zero :: 'u radix_node"
  let ?l = "\<lparr>ud = None, flag = 0, ll_next = [], ll_bits = replicate 8 0, ll_c = 0\<rparr> :: 'u ll_node"
  let ?d = "\<lparr>ud = None, flag = 0, da_bits = replicate 8 0, da_nexts = None, da_c = 0\<rparr> :: 'u da_node"
  have r: "radix_ok [?z]" by (simp add: radix_ok_def radix_zero_def)
  have b: "\<not> ArrayBit_Test (replicate 8 0) (unat c)" for c :: UCHAR using unat_lt2p [of c] by simp
  have l: "ll.kid_ok [?l]"
    using b by (simp add: ll.kid_ok_def ll.kid_node_def)
  have d: "da.kid_ok [?d]"
    using b by (simp add: da.kid_ok_def da.kid_node_def da_good_def da_full_def da_kids_def)
  have step: "TrieSimple_get [?z] 0 c = None" "r4.code_step [?z] 0 c = None" "r2.code_step [?z] 0 c = None"
    "triell_get_node [?l] 0 c = None"
    "triedarray_get_node [?d] 0 c = None" for c
    using b by (simp_all add: TrieSimple_get_def radix_zero_def flip: Trie4b_code Trie2b_code)
      (simp_all add: trie4b_find_node_def trie2b_find_node_def triell_get_node_def triedarray_get_node_def radix_zero_def)
  have w: "digit.content [?z] s = (None, 0)" "r4.code.content [?z] s = (None, 0)"
    "r2.code.content [?z] s = (None, 0)"
    "ll.keys.content [?l] s = (None, 0)"
    "da.keys.content [?d] s = (None, 0)" for s
    by (cases s; simp add: step digit.content_def r4.code.content_def r2.code.content_def ll.keys.content_def
        da.keys.content_def radix_zero_def [symmetric]; simp add: radix_zero_def)+
  have "t = (case ty of
       TRIE_TYPE_SIMPLE \<Rightarrow> Trie_simple [?z]
     | TRIE_TYPE_LL \<Rightarrow> Trie_ll [?l]
     | TRIE_TYPE_DARRAY \<Rightarrow> Trie_darray [?d]
     | TRIE_TYPE_4BITS \<Rightarrow> Trie_4bits [?z]
     | TRIE_TYPE_2BITS \<Rightarrow> Trie_2bits [?z])"
    using assms unfolding Trie_Create_def by (auto split: prod.splits bool.splits)
  note t = this
  have o: "trie_ok (Trie_simple [?z])" "trie_ok (Trie_4bits [?z])" "trie_ok (Trie_2bits [?z])"
    "trie_ok (Trie_ll [?l])"
    "trie_ok (Trie_darray [?d])"
    unfolding trie_ok.simps by (rule r l d)+
  have c: "trie_content (Trie_simple [?z]) = (\<lambda>s. (None, 0))" "trie_content (Trie_4bits [?z]) = (\<lambda>s. (None, 0))"
    "trie_content (Trie_2bits [?z]) = (\<lambda>s. (None, 0))"
    "trie_content (Trie_ll [?l]) = (\<lambda>s. (None, 0))"
    "trie_content (Trie_darray [?d]) = (\<lambda>s. (None, 0))"
    unfolding trie_content.simps by (rule ext, rule w)+
  show ?thesis unfolding t
    by (cases ty; hypsubst; unfold trie_type.case; intro conjI; (rule o | rule c))
qed

lemma Trie_Match_find:
  assumes "trie_ok t" "data_len \<le> int (length data)"
  shows "map_option (trie_node_at t) (Trie_Match t data data_len ty) =
    map_option (\<lambda>k. trie_content t (take k data)) (find (key_hit t ty data data_len) (rev [1..<Suc (nat data_len)]))"
proof -
  let ?d = "take (nat data_len) data" and ?P = "match_test ty data data_len"
  have l: "length ?d = nat data_len" using assms(2) by simp
  have s: "map_option f (find (\<lambda>k. h (take k ?d)) (rev [1..<Suc (nat data_len)])) = map_option g (find q (rev [1..<Suc (nat data_len)]))"
    if h: "\<And>k. k \<le> nat data_len \<Longrightarrow> h (take k data) \<longleftrightarrow> q k" and fg: "\<And>k. k \<le> nat data_len \<Longrightarrow> f k = g k"
    for f g :: "nat \<Rightarrow> 'u option \<times> UINT" and h q
  proof -
    have e: "find (\<lambda>k. h (take k ?d)) (rev [1..<Suc (nat data_len)]) = find q (rev [1..<Suc (nat data_len)])"
    proof (rule find_cong [OF refl])
      fix k assume "k \<in> set (rev [1..<Suc (nat data_len)])"
      then have "k \<le> nat data_len" by (simp del: upt_Suc)
      then show "h (take k ?d) \<longleftrightarrow> q k" using h [of k] by (simp add: min_absorb1)
    qed
    show ?thesis
    proof (cases "find q (rev [1..<Suc (nat data_len)])")
      case (Some k)
      then have "k \<le> nat data_len" unfolding find_rev_upt by blast
      then show ?thesis unfolding e Some using fg by simp
    qed (simp only: e option.map)
  qed
  have k: "min (length data) k = k" if "k \<le> nat data_len" for k using that assms(2) by simp
  note g = g_match_types_test [of ty data data_len]
  show ?thesis
  proof (cases t)
    case (Trie_simple h)
    show ?thesis
      unfolding Trie_simple Trie_Match_def Trie_PrefixMatch.simps prefix_defs trie_node_at.simps
        digit.prefix_match_content [of "g_match_types ty data data_len" ?P, OF g] l
      by (rule s) (auto simp: digit.hit_def key_hit_def k min_absorb1)
  next
    case (Trie_ll h)
    show ?thesis
      unfolding Trie_ll Trie_Match_def Trie_PrefixMatch.simps prefix_defs trie_node_at.simps
        ll.keys.prefix_match_content [of "g_match_types ty data data_len" ?P, OF g] l
      by (rule s) (auto simp: ll.keys.hit_def key_hit_def k min_absorb1)
  next
    case (Trie_darray h)
    show ?thesis
      unfolding Trie_darray Trie_Match_def Trie_PrefixMatch.simps prefix_defs trie_node_at.simps
        da.keys.prefix_match_content [of "g_match_types ty data data_len" ?P, OF g] l
      by (rule s) (auto simp: da.keys.hit_def key_hit_def k min_absorb1)
  next
    case (Trie_4bits h)
    show ?thesis
      unfolding Trie_4bits Trie_Match_def Trie_PrefixMatch.simps prefix_defs trie_node_at.simps
        r4.code.prefix_match_content [of "g_match_types ty data data_len" ?P, OF g] l
      by (rule s) (auto simp: r4.code.hit_def key_hit_def k min_absorb1)
  next
    case (Trie_2bits h)
    show ?thesis
      unfolding Trie_2bits Trie_Match_def Trie_PrefixMatch.simps prefix_defs trie_node_at.simps
        r2.code.prefix_match_content [of "g_match_types ty data data_len" ?P, OF g] l
      by (rule s) (auto simp: r2.code.hit_def key_hit_def k min_absorb1)
  qed
qed

lemma Trie_InsertEx_laws:
  assumes "trie_ok t" and i: "Trie_InsertEx t data data_len fl ud_set uh al = (r, t', al')"
  shows "trie_ok t' \<and> (case r of
      None \<Rightarrow> trie_content t' = trie_content t
    | Some n \<Rightarrow> 0 < data_len \<and>
        trie_content t' = (trie_content t)(take (nat data_len) data :=
          (ud_set (fst (trie_content t (take (nat data_len) data))) uh,
           snd (trie_content t (take (nat data_len) data)) OR TRIE_NODE_FLAG_MATCHED OR fl)))"
    and "0 < data_len \<Longrightarrow> al = [] \<Longrightarrow> r \<noteq> None"
proof -
  note laws = digit.trie_insert_ex_content ll.keys.trie_insert_ex_content da.keys.trie_insert_ex_content
    r4.code.trie_insert_ex_content r2.code.trie_insert_ex_content
  note mems = digit.trie_insert_ex_mem ll.keys.trie_insert_ex_mem da.keys.trie_insert_ex_mem
    r4.code.trie_insert_ex_mem r2.code.trie_insert_ex_mem
  have "(trie_ok t' \<and> (case r of
      None \<Rightarrow> trie_content t' = trie_content t
    | Some n \<Rightarrow> 0 < data_len \<and>
        trie_content t' = (trie_content t)(take (nat data_len) data :=
          (ud_set (fst (trie_content t (take (nat data_len) data))) uh,
           snd (trie_content t (take (nat data_len) data)) OR TRIE_NODE_FLAG_MATCHED OR fl)))) \<and>
      (0 < data_len \<longrightarrow> al = [] \<longrightarrow> r \<noteq> None)"
  proof (cases t)
    case (Trie_simple h)
    obtain h' where e: "trie_insert_ex TrieSimple_Insert data data_len fl ud_set uh (h, al) = (r, h', al')" "t' = Trie_simple h'"
      using i Trie_simple by (auto split: prod.splits)
    show ?thesis using laws(1) [OF _ e(1)] mems(1) [of h data_len data fl ud_set uh r h' al'] e assms(1) Trie_simple
      by (auto split: option.splits)
  next
    case (Trie_ll h)
    obtain h' where e: "trie_insert_ex ll.kid_insert data data_len fl ud_set uh (h, al) = (r, h', al')" "t' = Trie_ll h'"
      using i Trie_ll by (auto simp: Triell_kid split: prod.splits)
    show ?thesis using laws(2) [OF _ e(1)] mems(2) [of h data_len data fl ud_set uh r h' al'] e assms(1) Trie_ll
      by (auto split: option.splits)
  next
    case (Trie_darray h)
    obtain h' where e: "trie_insert_ex da.kid_insert data data_len fl ud_set uh (h, al) = (r, h', al')" "t' = Trie_darray h'"
      using i Trie_darray by (auto simp: Triedarray_kid split: prod.splits)
    show ?thesis using laws(3) [OF _ e(1)] mems(3) [of h data_len data fl ud_set uh r h' al'] e assms(1) Trie_darray
      by (auto split: option.splits)
  next
    case (Trie_4bits h)
    obtain h' where e: "trie_insert_ex r4.code_insert data data_len fl ud_set uh (h, al) = (r, h', al')" "t' = Trie_4bits h'"
      using i Trie_4bits by (auto simp: Trie4b_code split: prod.splits)
    show ?thesis using laws(4) [OF _ e(1)] mems(4) [of h data_len data fl ud_set uh r h' al'] e assms(1) Trie_4bits
      by (auto split: option.splits)
  next
    case (Trie_2bits h)
    obtain h' where e: "trie_insert_ex r2.code_insert data data_len fl ud_set uh (h, al) = (r, h', al')" "t' = Trie_2bits h'"
      using i Trie_2bits by (auto simp: Trie2b_code split: prod.splits)
    show ?thesis using laws(5) [OF _ e(1)] mems(5) [of h data_len data fl ud_set uh r h' al'] e assms(1) Trie_2bits
      by (auto split: option.splits)
  qed
  then show "trie_ok t' \<and> (case r of
      None \<Rightarrow> trie_content t' = trie_content t
    | Some n \<Rightarrow> 0 < data_len \<and>
        trie_content t' = (trie_content t)(take (nat data_len) data :=
          (ud_set (fst (trie_content t (take (nat data_len) data))) uh,
           snd (trie_content t (take (nat data_len) data)) OR TRIE_NODE_FLAG_MATCHED OR fl)))"
    "0 < data_len \<Longrightarrow> al = [] \<Longrightarrow> r \<noteq> None" by blast+
qed

lemma Trie_Del_laws:
  assumes "trie_ok t" "data_len \<le> int (length data)" and d: "Trie_Del t data data_len = (u, t')"
  shows "trie_ok t' \<and>
    (if 0 < data_len \<and> snd (trie_content t (take (nat data_len) data)) AND TRIE_NODE_FLAG_MATCHED \<noteq> 0
     then u = fst (trie_content t (take (nat data_len) data)) \<and>
       trie_content t' = (trie_content t)(take (nat data_len) data := (None, 0))
     else u = None \<and> t' = t)"
proof -
  note laws = digit.trie_del_laws ll.keys.trie_del_laws da.keys.trie_del_laws r4.code.trie_del_laws r2.code.trie_del_laws
  note defs = Trie_Del_def Trie_Match_def Let_def prefix_defs g_match_types_def
  show ?thesis
  proof (cases t)
    case (Trie_simple h)
    obtain h' where e: "trie_del_node (prefix_match TrieSimple_get trie_common.truncate h 0 data data_len (trie_exact_match data data_len)) h = (u, h')"
      "t' = Trie_simple h'" using d Trie_simple by (cases "trie_del_node (prefix_match TrieSimple_get trie_common.truncate h 0 data data_len (trie_exact_match data data_len)) h") (auto simp: defs)
    show ?thesis using laws(1) [OF _ assms(2) e(1)] e(2) assms(1) Trie_simple by auto
  next
    case (Trie_ll h)
    obtain h' where e: "trie_del_node (prefix_match triell_get_node trie_common.truncate h 0 data data_len (trie_exact_match data data_len)) h = (u, h')"
      "t' = Trie_ll h'" using d Trie_ll by (cases "trie_del_node (prefix_match triell_get_node trie_common.truncate h 0 data data_len (trie_exact_match data data_len)) h") (auto simp: defs)
    show ?thesis using laws(2) [OF _ assms(2) e(1)] e(2) assms(1) Trie_ll by auto
  next
    case (Trie_darray h)
    obtain h' where e: "trie_del_node (prefix_match triedarray_get_node trie_common.truncate h 0 data data_len (trie_exact_match data data_len)) h = (u, h')"
      "t' = Trie_darray h'" using d Trie_darray by (cases "trie_del_node (prefix_match triedarray_get_node trie_common.truncate h 0 data data_len (trie_exact_match data data_len)) h") (auto simp: defs)
    show ?thesis using laws(3) [OF _ assms(2) e(1)] e(2) assms(1) Trie_darray by auto
  next
    case (Trie_4bits h)
    obtain h' where e: "trie_del_node (prefix_match r4.code_step trie_common.truncate h 0 data data_len (trie_exact_match data data_len)) h = (u, h')"
      "t' = Trie_4bits h'" using d Trie_4bits by (cases "trie_del_node (prefix_match r4.code_step trie_common.truncate h 0 data data_len (trie_exact_match data data_len)) h") (auto simp: defs)
    show ?thesis using laws(4) [OF _ assms(2) e(1)] e(2) assms(1) Trie_4bits by auto
  next
    case (Trie_2bits h)
    obtain h' where e: "trie_del_node (prefix_match r2.code_step trie_common.truncate h 0 data data_len (trie_exact_match data data_len)) h = (u, h')"
      "t' = Trie_2bits h'" using d Trie_2bits by (cases "trie_del_node (prefix_match r2.code_step trie_common.truncate h 0 data data_len (trie_exact_match data data_len)) h") (auto simp: defs)
    show ?thesis using laws(5) [OF _ assms(2) e(1)] e(2) assms(1) Trie_2bits by auto
  qed
qed

lemma Trie_Match_laws:
  assumes "trie_ok t" "data_len \<le> int (length data)"
  shows "case Trie_Match t data data_len ty of
      None \<Rightarrow> \<forall>k. 1 \<le> k \<longrightarrow> int k \<le> data_len \<longrightarrow> \<not> key_hit t ty data data_len k
    | Some n \<Rightarrow> \<exists>k. 1 \<le> k \<and> int k \<le> data_len \<and> key_hit t ty data data_len k \<and>
        (\<forall>j. k < j \<longrightarrow> int j \<le> data_len \<longrightarrow> \<not> key_hit t ty data data_len j) \<and>
        trie_node_at t n = trie_content t (take k data)"
proof (cases "Trie_Match t data data_len ty")
  case None
  then have "find (key_hit t ty data data_len) (rev [1..<Suc (nat data_len)]) = None"
    using Trie_Match_find [OF assms, of ty] by simp
  then show ?thesis using None by (auto simp: find_None_iff simp del: upt_Suc)
next
  case (Some n)
  then obtain k where k: "find (key_hit t ty data data_len) (rev [1..<Suc (nat data_len)]) = Some k"
    "trie_node_at t n = trie_content t (take k data)"
    using Trie_Match_find [OF assms, of ty]
    by (cases "find (key_hit t ty data data_len) (rev [1..<Suc (nat data_len)])") (simp_all del: upt_Suc)
  show ?thesis
    unfolding Some option.case
    by (rule exI [of _ k]) (use k(1) [unfolded find_rev_upt] k(2) in auto)
qed

section \<open>All types agree\<close>

datatype 'u trie_req =
    Req_Insert "UCHAR list" int UINT "'u option"
  | Req_Del "UCHAR list" int
  | Req_Match "UCHAR list" int trie_match

text \<open>An answer: whether an insertion succeeded, the user data of a deletion, what a match points to. There is memory.\<close>

datatype 'u trie_ans = Ans_Insert bool | Ans_Del "'u option" | Ans_Match "('u option \<times> UINT) option"

fun trie_serve :: "'u trie \<Rightarrow> 'u trie_req \<Rightarrow> 'u trie_ans \<times> 'u trie" where
  "trie_serve t (Req_Insert data data_len fl u) =
     (case Trie_Insert t data data_len fl u [] of (r, t, _) \<Rightarrow> (Ans_Insert (r \<noteq> None), t))"
| "trie_serve t (Req_Del data data_len) = (case Trie_Del t data data_len of (u, t) \<Rightarrow> (Ans_Del u, t))"
| "trie_serve t (Req_Match data data_len ty) =
     (Ans_Match (map_option (trie_node_at t) (Trie_Match t data data_len ty)), t)"

fun trie_session :: "'u trie \<Rightarrow> 'u trie_req list \<Rightarrow> 'u trie_ans list" where
  "trie_session t [] = []"
| "trie_session t (r # rs) = (case trie_serve t r of (a, t) \<Rightarrow> a # trie_session t rs)"

fun req_ok :: "'u trie_req \<Rightarrow> bool" where
  "req_ok (Req_Insert data data_len fl u) = (data_len \<le> int (length data))"
| "req_ok (Req_Del data data_len) = (data_len \<le> int (length data))"
| "req_ok (Req_Match data data_len ty) = (data_len \<le> int (length data))"

lemma trie_serve_agree:
  assumes ok: "trie_ok t1" "trie_ok t2" "trie_content t1 = trie_content t2" and r: "req_ok r"
  shows "fst (trie_serve t1 r) = fst (trie_serve t2 r)" "trie_ok (snd (trie_serve t1 r))" "trie_ok (snd (trie_serve t2 r))"
    "trie_content (snd (trie_serve t1 r)) = trie_content (snd (trie_serve t2 r))"
proof -
  have "fst (trie_serve t1 r) = fst (trie_serve t2 r) \<and> trie_ok (snd (trie_serve t1 r)) \<and> trie_ok (snd (trie_serve t2 r)) \<and>
    trie_content (snd (trie_serve t1 r)) = trie_content (snd (trie_serve t2 r))"
  proof (cases r)
    case (Req_Insert data data_len fl u)
    obtain r1 t1' al1 where i1: "Trie_InsertEx t1 data data_len fl trie_dft_set_ud u [] = (r1, t1', al1)" by (metis surj_pair)
    obtain r2 t2' al2 where i2: "Trie_InsertEx t2 data data_len fl trie_dft_set_ud u [] = (r2, t2', al2)" by (metis surj_pair)
    note l1 = Trie_InsertEx_laws [OF ok(1) i1] and l2 = Trie_InsertEx_laws [OF ok(2) i2]
    have "r1 = None \<longleftrightarrow> \<not> 0 < data_len" "r2 = None \<longleftrightarrow> \<not> 0 < data_len" using l1 l2 by (auto split: option.splits)
    then show ?thesis using Req_Insert i1 i2 l1(1) l2(1) ok(3) by (auto simp: Trie_Insert_def split: option.splits)
  next
    case (Req_Del data data_len)
    obtain u1 t1' where d1: "Trie_Del t1 data data_len = (u1, t1')" by (metis surj_pair)
    obtain u2 t2' where d2: "Trie_Del t2 data data_len = (u2, t2')" by (metis surj_pair)
    have l: "data_len \<le> int (length data)" using r Req_Del by simp
    show ?thesis
      using Req_Del d1 d2 Trie_Del_laws [OF ok(1) l d1] Trie_Del_laws [OF ok(2) l d2] ok
      by (cases "0 < data_len \<and> snd (trie_content t1 (take (nat data_len) data)) AND TRIE_NODE_FLAG_MATCHED \<noteq> 0") auto
  next
    case (Req_Match data data_len ty)
    have l: "data_len \<le> int (length data)" using r Req_Match by simp
    have "key_hit t1 ty data data_len = key_hit t2 ty data data_len" by (simp add: fun_eq_iff key_hit_def ok(3))
    then show ?thesis using Req_Match Trie_Match_find [OF ok(1) l] Trie_Match_find [OF ok(2) l] ok by simp
  qed
  then show "fst (trie_serve t1 r) = fst (trie_serve t2 r)" "trie_ok (snd (trie_serve t1 r))" "trie_ok (snd (trie_serve t2 r))"
    "trie_content (snd (trie_serve t1 r)) = trie_content (snd (trie_serve t2 r))" by blast+
qed

lemma trie_session_agree:
  "trie_ok t1 \<Longrightarrow> trie_ok t2 \<Longrightarrow> trie_content t1 = trie_content t2 \<Longrightarrow> (\<And>r. r \<in> set rs \<Longrightarrow> req_ok r) \<Longrightarrow>
    trie_session t1 rs = trie_session t2 rs"
proof (induction rs arbitrary: t1 t2)
  case (Cons r rs)
  note s = trie_serve_agree [OF Cons.prems(1-3), of r]
  have r: "req_ok r" using Cons.prems(4) by simp
  show ?case using Cons.IH [OF s(2-4) [OF r]] s(1) [OF r] Cons.prems(4) by (simp add: case_prod_beta)
qed simp

section \<open>Properties\<close>

text \<open>C27: Every trie is a map from keys to user data and flags, whatever its type. A new trie is empty. \<^verbatim>\<open>Trie_InsertEx\<close> sets the
  user data of its key with the callback and adds the flags to those of the key, and touches no other key; when an allocation
  fails, wherever in the key, it reports NULL and no key changes, and with memory it succeeds for every key that is not empty.
  \<^verbatim>\<open>Trie_Del\<close> clears a key that carries a match and hands its user data out, and changes nothing for any other key.
  \<^verbatim>\<open>Trie_Match\<close> returns the node of the longest prefix of the data that carries a match and passes the test of the match
  type (\<open>key_hit\<close>: exactly the whole data, any length, the whole data or a wildcard, the whole data or the character after the
  next being a dot), and NULL when there is none.\<close>

theorem Trie_refines_map:
  fixes t :: "'u trie" and data :: "UCHAR list" and fl :: UINT and ud_set :: "'u option \<Rightarrow> 'v \<Rightarrow> 'u option"
  assumes "trie_ok t" "data_len \<le> int (length data)"
  shows "let key = take (nat data_len) data in
    (\<forall>ty0 al0 t0 al1. Trie_Create al0 ty0 = (Some t0, al1) \<longrightarrow> trie_ok (t0 :: 'u trie) \<and> trie_content t0 = (\<lambda>s. (None, 0))) \<and>
    (case Trie_InsertEx t data data_len fl ud_set uh al of (r, t', _) \<Rightarrow>
       trie_ok t' \<and> (0 < data_len \<and> al = [] \<longrightarrow> r \<noteq> None) \<and>
       (if r = None then trie_content t' = trie_content t
        else 0 < data_len \<and> trie_content t' = (trie_content t)
          (key := (ud_set (fst (trie_content t key)) uh, snd (trie_content t key) OR TRIE_NODE_FLAG_MATCHED OR fl)))) \<and>
    (case Trie_Del t data data_len of (u, t') \<Rightarrow>
       trie_ok t' \<and>
       (if 0 < data_len \<and> snd (trie_content t key) AND TRIE_NODE_FLAG_MATCHED \<noteq> 0
        then u = fst (trie_content t key) \<and> trie_content t' = (trie_content t)(key := (None, 0))
        else u = None \<and> t' = t)) \<and>
    (case Trie_Match t data data_len ty of
       None \<Rightarrow> \<forall>k. 1 \<le> k \<longrightarrow> int k \<le> data_len \<longrightarrow> \<not> key_hit t ty data data_len k
     | Some n \<Rightarrow> \<exists>k. 1 \<le> k \<and> int k \<le> data_len \<and> key_hit t ty data data_len k \<and>
         (\<forall>j. k < j \<longrightarrow> int j \<le> data_len \<longrightarrow> \<not> key_hit t ty data data_len j) \<and>
         trie_node_at t n = trie_content t (take k data))"
proof -
  obtain r t1 al1 where i: "Trie_InsertEx t data data_len fl ud_set uh al = (r, t1, al1)" by (metis surj_pair)
  obtain u t2 where d: "Trie_Del t data data_len = (u, t2)" by (metis surj_pair)
  note li = Trie_InsertEx_laws [OF assms(1) i] and ld = Trie_Del_laws [OF assms d]
  show ?thesis
    unfolding Let_def i d prod.case
  proof (intro conjI)
    show "\<forall>ty0 al0 t0 al1. Trie_Create al0 ty0 = (Some t0, al1) \<longrightarrow> trie_ok (t0 :: 'u trie) \<and> trie_content t0 = (\<lambda>s. (None, 0))"
      using Trie_Create_empty by blast
  qed (use li ld Trie_Match_laws [OF assms, of ty] in \<open>auto split: option.splits if_splits\<close>)
qed

text \<open>The witness inserts \<open>"ab"\<close> into a new trie of four bits and matches the longest prefix of \<open>"abc"\<close>.\<close>

theorem Trie_refines_map_witness:
  "trie_ok (Trie_4bits [radix_zero :: nat radix_node]) \<and>
    (case Trie_InsertEx (Trie_4bits [radix_zero]) [0x61, 0x62, 0x63] 2 0 trie_dft_set_ud (Some (7 :: nat)) [] of
       (r, t', _) \<Rightarrow> r \<noteq> None \<and> trie_ok t' \<and> trie_content t' [0x61, 0x62] = (Some 7, 1) \<and> trie_content t' [0x61] = (None, 0))"
proof -
  let ?t = "Trie_4bits [radix_zero :: nat radix_node]"
  have c: "Trie_Create [] TRIE_TYPE_4BITS = (Some ?t, [])" by (simp add: Trie_Create_def)
  note o = Trie_Create_empty [OF c]
  show ?thesis
    using o Trie_refines_map [where t = ?t and data_len = 2 and data = "[0x61, 0x62, 0x63]" and fl = 0 and ud_set = trie_dft_set_ud
        and uh = "Some 7" and al = "[]" and ty = TRIE_MATCH_EXACT]
    by (auto simp: Let_def trie_dft_set_ud_def TRIE_NODE_FLAG_MATCHED_def split: prod.splits)
qed

text \<open>C28: The five types of tries are interchangeable: two new tries of any types give the same answers to every sequence of
  insertions, deletions and matches, with memory.\<close>

theorem Trie_types_agree:
  assumes "Trie_Create al1 ty1 = (Some (t1 :: 'u trie), al1')" "Trie_Create al2 ty2 = (Some t2, al2')" "\<forall>r\<in>set rs. req_ok r"
  shows "trie_session t1 rs = trie_session t2 rs"
  by (rule trie_session_agree) (use Trie_Create_empty [OF assms(1)] Trie_Create_empty [OF assms(2)] assms(3) in simp_all)

theorem Trie_types_agree_witness:
  "trie_session (Trie_darray [\<lparr>ud = None, flag = 0, da_bits = replicate 8 0, da_nexts = None, da_c = 0\<rparr>])
      [Req_Insert [1, 2] 2 0 (Some True), Req_Match [1, 2, 3] 3 TRIE_MATCH_MAXLEN] =
    [Ans_Insert True, Ans_Match (Some (Some True, 1))]"
proof -
  let ?d = "Trie_darray [\<lparr>ud = None, flag = 0, da_bits = replicate 8 0, da_nexts = None, da_c = 0\<rparr>] :: bool trie"
  have "Trie_Create [] TRIE_TYPE_DARRAY = (Some ?d, [])" "Trie_Create [] TRIE_TYPE_SIMPLE = (Some (Trie_simple [radix_zero]), [])"
    by (simp_all add: Trie_Create_def)
  then have "trie_session ?d [Req_Insert [1, 2] 2 0 (Some True), Req_Match [1, 2, 3] 3 TRIE_MATCH_MAXLEN] =
      trie_session (Trie_simple [radix_zero]) [Req_Insert [1, 2] 2 0 (Some True), Req_Match [1, 2, 3] 3 TRIE_MATCH_MAXLEN]"
    by (rule Trie_types_agree) simp
  also have "\<dots> = [Ans_Insert True, Ans_Match (Some (Some True, 1))]" by code_simp
  finally show ?thesis .
qed

end
