(* ===== verification/TcpR.thy ===== *)
theory TcpR
  imports Dll
begin

text \<open>
  The reassembly of TCP segments of \<^verbatim>\<open>tcp/tcp_reassemble.c\<close>: a flow holds the sequence number that it expects and the segments
  that came early, ordered by sequence number on a DLL (a list, theory \<^theory_text>\<open>Dll\<close>). Sequence numbers are C's \<open>int\<close>; the code relies
  on the wrap-around of their differences, so they are words read by \<open>sint\<close>. What the code hands to its callbacks is the list
  of events that an operation returns. The mask \<^verbatim>\<open>TCP_FLAG_SYN | TCP_FLAG_FIN\<close> (3, from \<^verbatim>\<open>h/utl/tcp_utl.h\<close>) is a parameter, \<open>syn_fin\<close>:
  what is proved holds for any.
\<close>

type_synonym tcp_sn = "32 word"

record 'p tcpr_pkt =
  tpkt :: 'p
  pkt_sn :: tcp_sn
  tlen :: USHORT

text \<open>\<open>free_dup_pkt\<close>: whether the callback is set.\<close>

record 'p tcpr_ctrl =
  dup_pkt :: "('p \<Rightarrow> 'p option) option"
  free_dup_pkt :: bool
  max_segs_per_flow :: USHORT

record 'p tcpr_flow =
  fsn :: tcp_sn
  pkts_list :: "'p tcpr_pkt list"

record 'p tcpr_pktinfo =
  ipkt :: 'p
  tcp_payload_len :: "32 word"
  isn :: tcp_sn
  iflag :: UCHAR

datatype 'p tcpr_event = Pkt_Out 'p | Free_Dup 'p

definition TCP_REASSEMBLE_DFT_MAX_SEGS :: USHORT where
  "TCP_REASSEMBLE_DFT_MAX_SEGS = 128"

fun have_this_pkt :: "'p tcpr_pkt list \<Rightarrow> tcp_sn \<Rightarrow> bool" where
  "have_this_pkt [] sn = False"
| "have_this_pkt (pktnode # pkts) sn =
     (let offset = sint (sn - pkt_sn pktnode)
      in if offset < 0 then False
         else if offset = 0 then True
         else have_this_pkt pkts sn)"

definition tcpreassemble_IsHaveThisPkt :: "'p tcpr_flow \<Rightarrow> tcp_sn \<Rightarrow> bool" where
  "tcpreassemble_IsHaveThisPkt flow sn = have_this_pkt (pkts_list flow) sn"

definition tcpreassemble_CmpPkt :: "'p tcpr_pkt \<Rightarrow> 'p tcpr_pkt \<Rightarrow> int" where
  "tcpreassemble_CmpPkt n1 n2 = sint (pkt_sn n1 - pkt_sn n2)"

text \<open>\<^verbatim>\<open>DLL_SortAdd\<close> inserts before the first node that is not less (lemma \<open>ring_SortAdd\<close> of \<^theory_text>\<open>Dll\<close>).\<close>

definition tcpreassemmble_InsertPkt ::
  "bool \<Rightarrow> 'p tcpr_ctrl \<Rightarrow> 'p tcpr_flow \<Rightarrow> 'p tcpr_pktinfo \<Rightarrow> bs_status \<times> 'p tcpr_flow" where
  "tcpreassemmble_InsertPkt alloc ctrl flow pktinfo =
     (if length (pkts_list flow) > unat (max_segs_per_flow ctrl) then (BS_OUT_OF_RANGE, flow)
      else if \<not> alloc then (BS_NO_MEMORY, flow)
      else case (case dup_pkt ctrl of None \<Rightarrow> Some (ipkt pktinfo) | Some dup \<Rightarrow> dup (ipkt pktinfo)) of
        None \<Rightarrow> (BS_NO_MEMORY, flow)
      | Some pkt \<Rightarrow>
          let pktnode = \<lparr>tpkt = pkt, pkt_sn = isn pktinfo, tlen = ucast (tcp_payload_len pktinfo)\<rparr>
          in (BS_OK, flow\<lparr>pkts_list := dll_ins (\<lambda>q. tcpreassemble_CmpPkt pktnode q \<le> 0) pktnode (pkts_list flow)\<rparr>))"

definition tcpreassemble_FreePkt :: "'p tcpr_ctrl \<Rightarrow> 'p tcpr_pkt \<Rightarrow> 'p tcpr_event list" where
  "tcpreassemble_FreePkt ctrl pktnode = (if free_dup_pkt ctrl then [Free_Dup (tpkt pktnode)] else [])"

text \<open>The loop of \<^verbatim>\<open>tcpreassemble_TryReassemble\<close>, on the sequence number and the list of the flow.\<close>

fun try_reassemble :: "'p tcpr_ctrl \<Rightarrow> tcp_sn \<Rightarrow> 'p tcpr_pkt list \<Rightarrow> 'p tcpr_event list \<times> 'p tcpr_flow" where
  "try_reassemble ctrl sn [] = ([], \<lparr>fsn = sn, pkts_list = []\<rparr>)"
| "try_reassemble ctrl sn (pktnode # pkts) =
     (let offset = sint (sn - pkt_sn pktnode)
      in if offset < 0 then ([], \<lparr>fsn = sn, pkts_list = pktnode # pkts\<rparr>)
         else
           let sn = pkt_sn pktnode + ucast (tlen pktnode);
               (evs, flow) = try_reassemble ctrl sn pkts
           in (Pkt_Out (tpkt pktnode) # tcpreassemble_FreePkt ctrl pktnode @ evs, flow))"

definition tcpreassemble_TryReassemble :: "'p tcpr_ctrl \<Rightarrow> 'p tcpr_flow \<Rightarrow> 'p tcpr_event list \<times> 'p tcpr_flow" where
  "tcpreassemble_TryReassemble ctrl flow = try_reassemble ctrl (fsn flow) (pkts_list flow)"

definition TcpR_Init :: "'p tcpr_ctrl" where
  "TcpR_Init = \<lparr>dup_pkt = None, free_dup_pkt = False, max_segs_per_flow = TCP_REASSEMBLE_DFT_MAX_SEGS\<rparr>"

definition TcpR_Final :: "'p tcpr_ctrl" where
  "TcpR_Final = \<lparr>dup_pkt = None, free_dup_pkt = False, max_segs_per_flow = 0\<rparr>"

definition TcpR_SetDupPkt :: "'p tcpr_ctrl \<Rightarrow> ('p \<Rightarrow> 'p option) option \<Rightarrow> bool \<Rightarrow> 'p tcpr_ctrl" where
  "TcpR_SetDupPkt ctrl dup free = ctrl\<lparr>dup_pkt := dup, free_dup_pkt := free\<rparr>"

definition TcpR_InitFlow :: "tcp_sn \<Rightarrow> 'p tcpr_flow" where
  "TcpR_InitFlow init_sn = \<lparr>fsn = init_sn, pkts_list = []\<rparr>"

text \<open>\<open>out\<close>: whether \<^verbatim>\<open>pkt_out\<close> is passed.\<close>

fun flush_pkts :: "'p tcpr_ctrl \<Rightarrow> bool \<Rightarrow> 'p tcpr_pkt list \<Rightarrow> 'p tcpr_event list" where
  "flush_pkts ctrl out [] = []"
| "flush_pkts ctrl out (pktnode # pkts) =
     (if out then [Pkt_Out (tpkt pktnode)] else []) @ tcpreassemble_FreePkt ctrl pktnode @ flush_pkts ctrl out pkts"

definition TcpR_Flush :: "'p tcpr_ctrl \<Rightarrow> 'p tcpr_flow \<Rightarrow> bool \<Rightarrow> 'p tcpr_event list \<times> 'p tcpr_flow" where
  "TcpR_Flush ctrl flow out = (flush_pkts ctrl out (pkts_list flow), flow\<lparr>pkts_list := []\<rparr>)"

definition TcpR_ResetFlow :: "'p tcpr_ctrl \<Rightarrow> 'p tcpr_flow \<Rightarrow> tcp_sn \<Rightarrow> 'p tcpr_event list \<times> 'p tcpr_flow" where
  "TcpR_ResetFlow ctrl flow init_sn =
     (case TcpR_Flush ctrl flow False of (evs, flow) \<Rightarrow> (evs, \<lparr>fsn = init_sn, pkts_list = []\<rparr>))"

definition TcpR_FinalFlow :: "'p tcpr_ctrl \<Rightarrow> 'p tcpr_flow \<Rightarrow> 'p tcpr_event list" where
  "TcpR_FinalFlow ctrl flow = fst (TcpR_Flush ctrl flow False)"

definition TcpR_Input ::
  "UCHAR \<Rightarrow> bool \<Rightarrow> 'p tcpr_ctrl \<Rightarrow> 'p tcpr_flow \<Rightarrow> 'p tcpr_pktinfo \<Rightarrow> bs_status \<times> 'p tcpr_event list \<times> 'p tcpr_flow" where
  "TcpR_Input syn_fin alloc ctrl flow pktinfo =
     (let offset = sint (isn pktinfo - fsn flow)
      in if offset < 0 then (BS_OK, [], flow)
         else if tcpreassemble_IsHaveThisPkt flow (isn pktinfo) then (BS_OK, [], flow)
         else if offset > 0 then
           (case tcpreassemmble_InsertPkt alloc ctrl flow pktinfo of (st, flow) \<Rightarrow> (st, [], flow))
         else
           let flow = flow\<lparr>fsn := fsn flow + tcp_payload_len pktinfo\<rparr>;
               flow = (if iflag pktinfo AND syn_fin \<noteq> 0 then flow\<lparr>fsn := fsn flow + 1\<rparr> else flow);
               (evs, flow) = tcpreassemble_TryReassemble ctrl flow
           in (BS_OK, Pkt_Out (ipkt pktinfo) # evs, flow))"

section \<open>A segmented stream\<close>

text \<open>The payload lengths of the segments of a stream; the position and the sequence number of segment \<open>j\<close>. The stream is shorter
  than half of the sequence space, which it may cross the end of.\<close>

definition seg_pos :: "nat list \<Rightarrow> nat \<Rightarrow> nat" where
  "seg_pos lens j = sum_list (take j lens)"

definition seg_sn :: "tcp_sn \<Rightarrow> nat list \<Rightarrow> nat \<Rightarrow> tcp_sn" where
  "seg_sn s0 lens j = s0 + of_nat (seg_pos lens j)"

definition segs_ok :: "nat list \<Rightarrow> bool" where
  "segs_ok lens \<longleftrightarrow> (\<forall>l\<in>set lens. 0 < l \<and> l < 2 ^ 16) \<and> sum_list lens < 2 ^ 31"

lemma seg_pos_Suc: "j < length lens \<Longrightarrow> seg_pos lens (Suc j) = seg_pos lens j + lens ! j"
  by (simp add: seg_pos_def take_Suc_conv_app_nth)

lemma seg_pos_mono: "segs_ok lens \<Longrightarrow> i < j \<Longrightarrow> j \<le> length lens \<Longrightarrow> seg_pos lens i < seg_pos lens j"
proof (induction j)
  case (Suc j)
  have "0 < lens ! j" using Suc.prems by (simp add: segs_ok_def)
  then show ?case using Suc by (cases "i = j") (auto simp: seg_pos_Suc)
qed simp

lemma seg_pos_bound: "segs_ok lens \<Longrightarrow> seg_pos lens j < 2 ^ 31"
  unfolding segs_ok_def seg_pos_def
  by (metis add_lessD1 append_take_drop_id sum_list_append)

lemma sint_diff:
  assumes "a < 2 ^ 31" "b < 2 ^ 31"
  shows "sint ((s0 + of_nat a) - (s0 + of_nat b) :: 32 word) = int a - int b"
proof -
  have "(s0 + of_nat a) - (s0 + of_nat b) = (word_of_int (int a - int b) :: 32 word)" by simp
  moreover have "sint (word_of_int (int a - int b) :: 32 word) = int a - int b"
    by (subst signed_of_int, subst signed_take_bit_int_eq_self) (use assms in simp_all)
  ultimately show ?thesis by (simp only:)
qed

lemma seg_offset:
  assumes "segs_ok lens" "i \<le> length lens" "j \<le> length lens"
  shows "sint (seg_sn s0 lens i - seg_sn s0 lens j) < 0 \<longleftrightarrow> i < j"
    and "sint (seg_sn s0 lens i - seg_sn s0 lens j) = 0 \<longleftrightarrow> i = j"
proof -
  have d: "sint (seg_sn s0 lens i - seg_sn s0 lens j) = int (seg_pos lens i) - int (seg_pos lens j)"
    unfolding seg_sn_def by (rule sint_diff) (use seg_pos_bound [OF assms(1)] in blast)+
  consider "i < j" | "i = j" | "j < i" by linarith
  then show "sint (seg_sn s0 lens i - seg_sn s0 lens j) < 0 \<longleftrightarrow> i < j"
    "sint (seg_sn s0 lens i - seg_sn s0 lens j) = 0 \<longleftrightarrow> i = j"
    unfolding d using seg_pos_mono [OF assms(1), of i j] seg_pos_mono [OF assms(1), of j i] assms(2,3) by (cases; auto)+
qed

text \<open>A queued packet is a copy of segment \<open>j\<close> of the stream \<open>D\<close>.\<close>

definition seg_node :: "('p \<Rightarrow> 'd) \<Rightarrow> tcp_sn \<Rightarrow> nat list \<Rightarrow> 'd list \<Rightarrow> nat \<Rightarrow> 'p tcpr_pkt \<Rightarrow> bool" where
  "seg_node content s0 lens D j x \<longleftrightarrow>
     j < length lens \<and> pkt_sn x = seg_sn s0 lens j \<and> unat (tlen x) = lens ! j \<and> content (tpkt x) = D ! j"

lemma have_this_pkt_iff:
  assumes "segs_ok lens" "j < length lens"
  shows "list_all2 (seg_node content s0 lens D) js pkts \<Longrightarrow> sorted_wrt (<) js \<Longrightarrow>
    have_this_pkt pkts (seg_sn s0 lens j) \<longleftrightarrow> j \<in> set js"
proof (induction js arbitrary: pkts)
  case (Cons i js)
  then obtain x xs where x: "pkts = x # xs" "seg_node content s0 lens D i x" "list_all2 (seg_node content s0 lens D) js xs"
    by (auto simp: list_all2_Cons1)
  have i: "i < length lens" "pkt_sn x = seg_sn s0 lens i" using x(2) by (simp_all add: seg_node_def)
  note o = seg_offset [OF assms(1), of j i s0]
  have "j < i \<Longrightarrow> j \<notin> set js" using Cons.prems(2) by auto
  then show ?case
    using Cons.IH [OF x(3)] Cons.prems(2) o i assms(2) x(1) by (auto simp: Let_def)
qed simp

lemma insert_pkt_sorted:
  assumes "segs_ok lens" "seg_node content s0 lens D j n" "j \<notin> set js"
  shows "list_all2 (seg_node content s0 lens D) js pkts \<Longrightarrow> sorted_wrt (<) js \<Longrightarrow>
    \<exists>js'. list_all2 (seg_node content s0 lens D) js' (dll_ins (\<lambda>q. tcpreassemble_CmpPkt n q \<le> 0) n pkts) \<and>
      sorted_wrt (<) js' \<and> set js' = insert j (set js)"
  using assms(3)
proof (induction js arbitrary: pkts)
  case Nil
  then show ?case using assms(2) by (intro exI [of _ "[j]"]) simp
next
  case (Cons i js)
  then obtain x xs where x: "pkts = x # xs" "seg_node content s0 lens D i x" "list_all2 (seg_node content s0 lens D) js xs"
    by (auto simp: list_all2_Cons1)
  have "tcpreassemble_CmpPkt n x \<le> 0 \<longleftrightarrow> j \<le> i"
    using seg_offset [OF assms(1), of j i s0] assms(2) x(2) by (auto simp: tcpreassemble_CmpPkt_def seg_node_def)
  then have c: "tcpreassemble_CmpPkt n x \<le> 0 \<longleftrightarrow> j < i" using Cons.prems(3) by auto
  show ?case
  proof (cases "j < i")
    case True
    then show ?thesis using Cons.prems x c assms(2) by (intro exI [of _ "j # i # js"]) auto
  next
    case False
    obtain js' where "list_all2 (seg_node content s0 lens D) js' (dll_ins (\<lambda>q. tcpreassemble_CmpPkt n q \<le> 0) n xs)"
      "sorted_wrt (<) js'" "set js' = insert j (set js)" using Cons.IH [OF x(3)] Cons.prems by auto
    then show ?thesis using False Cons.prems x c by (intro exI [of _ "i # js'"]) auto
  qed
qed

text \<open>The payloads that an operation delivers.\<close>

definition delivered :: "('p \<Rightarrow> 'd) \<Rightarrow> 'p tcpr_event list \<Rightarrow> 'd list" where
  "delivered content evs = [content p. Pkt_Out p \<leftarrow> evs]"

lemma delivered_simps [simp]:
  "delivered content [] = []" "delivered content (Pkt_Out p # evs) = content p # delivered content evs"
  "delivered content (Free_Dup p # evs) = delivered content evs"
  "delivered content (evs @ evs') = delivered content evs @ delivered content evs'"
  "delivered content (tcpreassemble_FreePkt ctrl x) = []"
  by (simp_all add: delivered_def tcpreassemble_FreePkt_def)

lemma try_reassemble_run:
  assumes "segs_ok lens" "length D = length lens"
  shows "list_all2 (seg_node content s0 lens D) js pkts \<Longrightarrow> sorted_wrt (<) js \<Longrightarrow> (\<forall>j\<in>set js. k \<le> j) \<Longrightarrow> k \<le> length lens \<Longrightarrow>
    try_reassemble ctrl (seg_sn s0 lens k) pkts = (evs, flow) \<Longrightarrow>
    \<exists>k' js'. k \<le> k' \<and> k' \<le> length lens \<and> fsn flow = seg_sn s0 lens k' \<and>
      list_all2 (seg_node content s0 lens D) js' (pkts_list flow) \<and> sorted_wrt (<) js' \<and> (\<forall>j\<in>set js'. k' < j) \<and>
      set js = {k..<k'} \<union> set js' \<and> take k' D = take k D @ delivered content evs"
proof (induction js arbitrary: pkts k evs flow)
  case Nil
  then show ?case by (intro exI [of _ k] exI [of _ "[]"]) auto
next
  case (Cons i js)
  then obtain x xs where x: "pkts = x # xs" "seg_node content s0 lens D i x" "list_all2 (seg_node content s0 lens D) js xs"
    by (auto simp: list_all2_Cons1)
  have i: "i < length lens" "pkt_sn x = seg_sn s0 lens i" "unat (tlen x) = lens ! i" "content (tpkt x) = D ! i"
    using x(2) by (simp_all add: seg_node_def)
  have off: "sint (seg_sn s0 lens k - pkt_sn x) < 0 \<longleftrightarrow> k \<noteq> i"
    using seg_offset(1) [OF assms(1), of k i s0] Cons.prems(3,4) i by auto
  show ?case
  proof (cases "k = i")
    case True
    have "(ucast (tlen x) :: 32 word) = of_nat (lens ! i)"
      by (simp flip: i(3))
    then have sn: "pkt_sn x + ucast (tlen x) = seg_sn s0 lens (Suc k)"
      using True i by (simp add: seg_sn_def seg_pos_Suc add.assoc)
    obtain evs1 flow1 where r: "try_reassemble ctrl (seg_sn s0 lens (Suc k)) xs = (evs1, flow1)" by (metis surj_pair)
    have e: "evs = Pkt_Out (tpkt x) # tcpreassemble_FreePkt ctrl x @ evs1" "flow = flow1"
      using Cons.prems(5) x(1) off True r sn by (auto simp: Let_def)
    obtain k' js' where k': "Suc k \<le> k'" "k' \<le> length lens" "fsn flow1 = seg_sn s0 lens k'"
      "list_all2 (seg_node content s0 lens D) js' (pkts_list flow1)" "sorted_wrt (<) js'" "\<forall>j\<in>set js'. k' < j"
      "set js = {Suc k..<k'} \<union> set js'" "take k' D = take (Suc k) D @ delivered content evs1"
      using Cons.IH [OF x(3) _ _ _ r] Cons.prems(2) True i(1) by (auto simp: Suc_le_eq)
    have "take (Suc k) D = take k D @ [D ! k]" using i(1) True assms(2) by (simp add: take_Suc_conv_app_nth)
    moreover have "{k..<k'} = insert k {Suc k..<k'}" using k'(1) by auto
    ultimately show ?thesis
      using k' e i(4) True by (intro exI [of _ k'] exI [of _ js']) simp
  next
    case False
    have "evs = []" "flow = \<lparr>fsn = seg_sn s0 lens k, pkts_list = pkts\<rparr>"
      using Cons.prems(5) x(1) off False by (auto simp: Let_def)
    then show ?thesis
      using Cons.prems False by (intro exI [of _ k] exI [of _ "i # js"]) auto
  qed
qed

section \<open>The flow on a stream\<close>

text \<open>The first \<open>k\<close> segments are delivered, \<open>js\<close> wait behind a gap.\<close>

definition flow_at :: "('p \<Rightarrow> 'd) \<Rightarrow> tcp_sn \<Rightarrow> nat list \<Rightarrow> 'd list \<Rightarrow> nat \<Rightarrow> nat set \<Rightarrow> 'p tcpr_flow \<Rightarrow> bool" where
  [inv_defs]: "flow_at content s0 lens D k J flow \<longleftrightarrow> k \<le> length lens \<and> fsn flow = seg_sn s0 lens k \<and>
     (\<exists>js. set js = J \<and> sorted_wrt (<) js \<and> (\<forall>j\<in>J. k < j) \<and> list_all2 (seg_node content s0 lens D) js (pkts_list flow))"

text \<open>A packet that carries segment \<open>j\<close>; a duplicate carries the same.\<close>

definition seg_info :: "('p \<Rightarrow> 'd) \<Rightarrow> UCHAR \<Rightarrow> tcp_sn \<Rightarrow> nat list \<Rightarrow> 'd list \<Rightarrow> nat \<Rightarrow> 'p tcpr_pktinfo \<Rightarrow> bool" where
  "seg_info content syn_fin s0 lens D j info \<longleftrightarrow>
     j < length lens \<and> isn info = seg_sn s0 lens j \<and> tcp_payload_len info = of_nat (lens ! j) \<and>
     content (ipkt info) = D ! j \<and> iflag info AND syn_fin = 0"

definition dup_same :: "('p \<Rightarrow> 'd) \<Rightarrow> 'p tcpr_ctrl \<Rightarrow> bool" where
  "dup_same content ctrl \<longleftrightarrow> (\<forall>f p q. dup_pkt ctrl = Some f \<longrightarrow> f p = Some q \<longrightarrow> content q = content p)"

lemma TcpR_Input_step:
  assumes ok: "segs_ok lens" "length D = length lens" "dup_same content ctrl"
    and f: "flow_at content s0 lens D k J flow" and info: "seg_info content syn_fin s0 lens D j info"
    and i: "TcpR_Input syn_fin alloc ctrl flow info = (st, evs, flow')"
  shows "\<exists>k' J'. flow_at content s0 lens D k' J' flow' \<and> k \<le> k' \<and> take k' D = take k D @ delivered content evs \<and>
    {0..<k'} \<union> J' = (if st = BS_OK then insert j ({0..<k} \<union> J) else {0..<k} \<union> J)"
proof -
  obtain js where js: "set js = J" "sorted_wrt (<) js" "\<forall>j\<in>J. k < j" "list_all2 (seg_node content s0 lens D) js (pkts_list flow)"
    and fk: "k \<le> length lens" "fsn flow = seg_sn s0 lens k" using f by (auto simp: flow_at_def)
  have j: "j < length lens" "isn info = seg_sn s0 lens j" "tcp_payload_len info = of_nat (lens ! j)"
    "content (ipkt info) = D ! j" "iflag info AND syn_fin = 0" using info by (auto simp: seg_info_def)
  note off = seg_offset [OF ok(1) less_imp_le [OF j(1)] fk(1), of s0]
  have have_it: "tcpreassemble_IsHaveThisPkt flow (isn info) \<longleftrightarrow> j \<in> J"
    unfolding tcpreassemble_IsHaveThisPkt_def j(2) using have_this_pkt_iff [OF ok(1) j(1) js(4,2)] js(1) by simp
  consider (old) "j < k \<or> j \<in> J" | (early) "k < j" "j \<notin> J" | (now) "j = k" "j \<notin> J" using js(3) by (cases j k rule: linorder_cases) auto
  then show ?thesis
  proof cases
    case old
    then have "st = BS_OK" "evs = []" "flow' = flow"
      using i off have_it fk(2) j(2) js(3) by (auto simp: TcpR_Input_def Let_def)
    then show ?thesis using f old by (intro exI [of _ k] exI [of _ J]) auto
  next
    case early
    have "\<not> sint (isn info - fsn flow) < 0" "sint (isn info - fsn flow) \<noteq> 0" unfolding j(2) fk(2) off using early(1) by simp_all
    then have pos: "\<not> sint (isn info - fsn flow) < 0" "sint (isn info - fsn flow) > 0" by linarith+
    have ins: "(st, flow') = tcpreassemmble_InsertPkt alloc ctrl flow info" "evs = []"
      using i pos have_it early(2) unfolding TcpR_Input_def Let_def by (simp_all split: prod.splits)
    show ?thesis
    proof (cases "st = BS_OK")
      case False
      then have "flow' = flow" using ins(1) by (auto simp: tcpreassemmble_InsertPkt_def Let_def split: if_splits option.splits)
      then show ?thesis using f ins(2) False by (intro exI [of _ k] exI [of _ J]) auto
    next
      case True
      let ?c = "case dup_pkt ctrl of None \<Rightarrow> Some (ipkt info) | Some dup \<Rightarrow> dup (ipkt info)"
      let ?n = "\<lambda>p. \<lparr>tpkt = p, pkt_sn = isn info, tlen = ucast (tcp_payload_len info)\<rparr>"
      obtain p where c: "?c = Some p" and p: "flow' =
          flow\<lparr>pkts_list := dll_ins (\<lambda>q. tcpreassemble_CmpPkt (?n p) q \<le> 0) (?n p) (pkts_list flow)\<rparr>"
        using ins(1) True unfolding tcpreassemmble_InsertPkt_def Let_def
        by (cases ?c) (auto split: if_splits)
      have cp: "content p = D ! j"
        using c ok(3) j(4) unfolding dup_same_def by (cases "dup_pkt ctrl") auto
      have "unat (ucast (of_nat (lens ! j) :: 32 word) :: USHORT) = lens ! j"
      proof -
        have l: "lens ! j < 2 ^ 16" using ok(1) j(1) by (simp add: segs_ok_def)
        then have "unat (of_nat (lens ! j) :: 32 word) = lens ! j" by (intro unat_of_nat_small) simp
        then show ?thesis using l by (simp add: unsigned_ucast_eq take_bit_nat_eq_self)
      qed
      then have n: "seg_node content s0 lens D j \<lparr>tpkt = p, pkt_sn = isn info, tlen = ucast (tcp_payload_len info)\<rparr>"
        using j cp by (simp add: seg_node_def)
      from insert_pkt_sorted [OF ok(1) n _ js(4,2)] early(2) js(1)
      obtain js' where "list_all2 (seg_node content s0 lens D) js' (pkts_list flow')" "sorted_wrt (<) js'" "set js' = insert j J"
        unfolding p by auto
      then show ?thesis
        using fk js(3) early(1) ins(2) True p by (intro exI [of _ k] exI [of _ "insert j J"]) (auto simp: flow_at_def)
    qed
  next
    case now
    have sn: "seg_sn s0 lens k + of_nat (lens ! k) = seg_sn s0 lens (Suc k)"
      using now(1) j(1) by (simp add: seg_sn_def seg_pos_Suc add.assoc)
    obtain evs1 flow1 where r: "try_reassemble ctrl (seg_sn s0 lens (Suc k)) (pkts_list flow) = (evs1, flow1)" by (metis surj_pair)
    have e: "st = BS_OK" "evs = Pkt_Out (ipkt info) # evs1" "flow' = flow1"
      using i off have_it fk(2) j now r sn by (auto simp: TcpR_Input_def tcpreassemble_TryReassemble_def Let_def)
    from try_reassemble_run [OF ok(1,2) js(4,2) _ _ r] js(1,3) now(1) j(1)
    obtain k' js' where k': "Suc k \<le> k'" "k' \<le> length lens" "fsn flow1 = seg_sn s0 lens k'"
      "list_all2 (seg_node content s0 lens D) js' (pkts_list flow1)" "sorted_wrt (<) js'" "\<forall>j\<in>set js'. k' < j"
      "J = {Suc k..<k'} \<union> set js'" "take k' D = take (Suc k) D @ delivered content evs1" by (auto simp: Suc_le_eq)
    have "take (Suc k) D = take k D @ [D ! k]" using j(1) now(1) ok(2) by (simp add: take_Suc_conv_app_nth)
    moreover have "{0..<k'} = insert k ({0..<k} \<union> {Suc k..<k'})" using k'(1) by auto
    ultimately show ?thesis
      using k' e j(4) now(1) by (intro exI [of _ k'] exI [of _ "set js'"]) (auto simp: flow_at_def)
  qed
qed

lemma try_reassemble_length: "try_reassemble ctrl sn pkts = (evs, flow) \<Longrightarrow> length (pkts_list flow) \<le> length pkts"
  by (induction ctrl sn pkts arbitrary: evs flow rule: try_reassemble.induct)
    (fastforce simp: Let_def split: if_splits prod.splits)+

lemma TcpR_Input_bound:
  assumes "length (pkts_list flow) \<le> unat (max_segs_per_flow ctrl) + 1"
    and "TcpR_Input syn_fin alloc ctrl flow info = (st, evs, flow')"
  shows "length (pkts_list flow') \<le> unat (max_segs_per_flow ctrl) + 1"
proof -
  have ins: "length (pkts_list (snd (tcpreassemmble_InsertPkt alloc ctrl flow info))) \<le> unat (max_segs_per_flow ctrl) + 1"
    using assms(1) by (auto simp: tcpreassemmble_InsertPkt_def Let_def length_dll_ins split: option.split)
  have try_len: "length (pkts_list (snd (tcpreassemble_TryReassemble ctrl f))) \<le> length (pkts_list f)" for f
    using try_reassemble_length by (metis prod.collapse tcpreassemble_TryReassemble_def)
  let ?o = "sint (isn info - fsn flow)" and ?h = "tcpreassemble_IsHaveThisPkt flow (isn info)"
  consider "?o < 0 \<or> ?h" | "?o > 0" "\<not> ?h" | "?o = 0" "\<not> ?h" by linarith
  then show ?thesis
  proof cases
    case 1
    then have "flow' = flow" using assms(2) by (cases "?o < 0") (simp_all add: TcpR_Input_def Let_def)
    then show ?thesis using assms(1) by simp
  next
    case 2
    then show ?thesis using assms(2) ins unfolding TcpR_Input_def Let_def by (simp split: prod.splits)
  next
    case 3
    let ?f = "flow\<lparr>fsn := fsn flow + tcp_payload_len info\<rparr>"
    let ?g = "if iflag info AND syn_fin \<noteq> 0 then ?f\<lparr>fsn := fsn ?f + 1\<rparr> else ?f"
    have a: "flow' = snd (tcpreassemble_TryReassemble ctrl ?g)"
      using assms(2) 3 unfolding TcpR_Input_def Let_def by (cases "tcpreassemble_TryReassemble ctrl ?g") auto
    have b: "pkts_list ?g = pkts_list flow" by simp
    have "length (pkts_list flow') \<le> length (pkts_list flow)" using try_len [of ?g] unfolding a b .
    then show ?thesis using assms(1) by (rule order.trans)
  qed
qed

text \<open>A sequence of arrivals, each with the outcome of the allocator.\<close>

fun tcpr_run ::
  "UCHAR \<Rightarrow> 'p tcpr_ctrl \<Rightarrow> 'p tcpr_flow \<Rightarrow> ('p tcpr_pktinfo \<times> bool) list \<Rightarrow> bs_status list \<times> 'p tcpr_event list \<times> 'p tcpr_flow" where
  "tcpr_run syn_fin ctrl flow [] = ([], [], flow)"
| "tcpr_run syn_fin ctrl flow ((info, alloc) # arr) =
     (case TcpR_Input syn_fin alloc ctrl flow info of (st, evs, flow) \<Rightarrow>
        case tcpr_run syn_fin ctrl flow arr of (sts, evs', flow) \<Rightarrow> (st # sts, evs @ evs', flow))"

lemma tcpr_run_stream:
  assumes ok: "segs_ok lens" "length D = length lens" "dup_same content ctrl"
  shows "flow_at content s0 lens D k J flow \<Longrightarrow> length (pkts_list flow) \<le> unat (max_segs_per_flow ctrl) + 1 \<Longrightarrow>
    (\<forall>(j, info, alloc)\<in>set arr. seg_info content syn_fin s0 lens D j info) \<Longrightarrow>
    tcpr_run syn_fin ctrl flow (map snd arr) = (sts, evs, flow') \<Longrightarrow>
    \<exists>k' J'. flow_at content s0 lens D k' J' flow' \<and> length (pkts_list flow') \<le> unat (max_segs_per_flow ctrl) + 1 \<and>
      take k' D = take k D @ delivered content evs \<and>
      {0..<k'} \<union> J' \<subseteq> {0..<k} \<union> J \<union> fst ` set arr \<and>
      (set sts \<subseteq> {BS_OK} \<longrightarrow> {0..<k'} \<union> J' = {0..<k} \<union> J \<union> fst ` set arr)"
proof (induction arr arbitrary: k J flow sts evs flow')
  case Nil
  then show ?case by (intro exI [of _ k] exI [of _ J]) simp
next
  case (Cons a arr)
  obtain j info alloc where a: "a = (j, info, alloc)" by (metis surj_pair)
  obtain st evs1 flow1 where i: "TcpR_Input syn_fin alloc ctrl flow info = (st, evs1, flow1)" by (metis surj_pair)
  obtain sts2 evs2 flow2 where r: "tcpr_run syn_fin ctrl flow1 (map snd arr) = (sts2, evs2, flow2)" by (metis surj_pair)
  have e: "sts = st # sts2" "evs = evs1 @ evs2" "flow' = flow2" using Cons.prems(4) a i r by auto
  have info: "seg_info content syn_fin s0 lens D j info" using Cons.prems(3) a by auto
  have rest: "\<forall>(j, info, alloc)\<in>set arr. seg_info content syn_fin s0 lens D j info" using Cons.prems(3) by simp
  obtain k1 J1 where s1: "flow_at content s0 lens D k1 J1 flow1" "take k1 D = take k D @ delivered content evs1"
    "{0..<k1} \<union> J1 = (if st = BS_OK then insert j ({0..<k} \<union> J) else {0..<k} \<union> J)"
    using TcpR_Input_step [OF ok Cons.prems(1) info i] by blast
  obtain k2 J2 where s2: "flow_at content s0 lens D k2 J2 flow2" "length (pkts_list flow2) \<le> unat (max_segs_per_flow ctrl) + 1"
    "take k2 D = take k1 D @ delivered content evs2" "{0..<k2} \<union> J2 \<subseteq> {0..<k1} \<union> J1 \<union> fst ` set arr"
    "set sts2 \<subseteq> {BS_OK} \<longrightarrow> {0..<k2} \<union> J2 = {0..<k1} \<union> J1 \<union> fst ` set arr"
    using Cons.IH [OF s1(1) TcpR_Input_bound [OF Cons.prems(2) i] rest r] by auto
  show ?case
    unfolding e a
  proof (intro exI [of _ k2] exI [of _ J2] conjI impI)
    show "{0..<k2} \<union> J2 \<subseteq> {0..<k} \<union> J \<union> fst ` set ((j, info, alloc) # arr)" using s1(3) s2(4) by (auto split: if_splits)
    assume "set (st # sts2) \<subseteq> {BS_OK}"
    then show "{0..<k2} \<union> J2 = {0..<k} \<union> J \<union> fst ` set ((j, info, alloc) # arr)" using s1(3) s2(5) by auto
  qed (use s1 s2 in simp_all)
qed

text \<open>A queued segment that the segment in front of it covers is delivered again, and the expected sequence number goes back: here
  from 20 to 15.\<close>

lemma TcpR_overlap_goes_back:
  "let (st, evs, flow) = TcpR_Input 3 True (TcpR_Init :: char tcpr_ctrl) (TcpR_InitFlow 0)
         \<lparr>ipkt = CHR ''b'', tcp_payload_len = 5, isn = 10, iflag = 0\<rparr>;
       (st', evs', flow') = TcpR_Input 3 True TcpR_Init flow \<lparr>ipkt = CHR ''a'', tcp_payload_len = 20, isn = 0, iflag = 0\<rparr>
   in evs = [] \<and> evs' = [Pkt_Out CHR ''a'', Pkt_Out CHR ''b''] \<and> fsn flow' = 15"
  by code_simp

section \<open>Properties\<close>

text \<open>C29: Reassembly restores the order of the stream. The segments of a stream (shorter than half of the sequence space, which
  it may cross the end of) reach a new flow in any order, any number of times, with any allocations failing. What the flow
  delivers is then a prefix of the stream, every segment once and in order, whatever was lost; every delivered segment had
  arrived; and when no arrival reported an error, the prefix ends exactly at the first segment that has not arrived. The flow
  never holds more than one segment above its limit.\<close>

theorem TcpR_in_order:
  assumes "segs_ok lens" "length D = length lens" "dup_same content ctrl"
    and "\<forall>(j, info, alloc)\<in>set arr. seg_info content syn_fin s0 lens D j info"
  shows "case tcpr_run syn_fin ctrl (TcpR_InitFlow s0) (map snd arr) of (sts, evs, flow) \<Rightarrow>
    length (pkts_list flow) \<le> unat (max_segs_per_flow ctrl) + 1 \<and>
    (\<exists>k\<le>length D. delivered content evs = take k D \<and> {0..<k} \<subseteq> fst ` set arr \<and>
       (set sts \<subseteq> {BS_OK} \<longrightarrow> k \<notin> fst ` set arr))"
proof -
  obtain sts evs flow where r: "tcpr_run syn_fin ctrl (TcpR_InitFlow s0) (map snd arr) = (sts, evs, flow)" by (metis surj_pair)
  have f: "flow_at content s0 lens D 0 {} (TcpR_InitFlow s0)" by (simp add: flow_at_def TcpR_InitFlow_def seg_sn_def seg_pos_def)
  obtain k J where k: "flow_at content s0 lens D k J flow" "length (pkts_list flow) \<le> unat (max_segs_per_flow ctrl) + 1"
    "take k D = delivered content evs" "{0..<k} \<union> J \<subseteq> fst ` set arr" "set sts \<subseteq> {BS_OK} \<longrightarrow> {0..<k} \<union> J = fst ` set arr"
    using tcpr_run_stream [OF assms(1-3) f _ assms(4) r] by (auto simp: TcpR_InitFlow_def)
  have "k \<le> length D" "k \<notin> {0..<k} \<union> J" using k(1) assms(2) by (auto simp: flow_at_def)
  then show ?thesis unfolding r prod.case using k by auto
qed

text \<open>Three segments arrive in the order 2, 0, 1 across the end of the sequence space.\<close>

theorem TcpR_in_order_witness:
  "let s0 = 0xFFFFFFFE; info = (\<lambda>j. \<lparr>ipkt = ''abc'' ! j, tcp_payload_len = of_nat ([5, 6, 7] ! j), isn = seg_sn s0 [5, 6, 7] j, iflag = 0\<rparr>) in
   case tcpr_run 3 TcpR_Init (TcpR_InitFlow s0) [(info 2, True), (info 0, True), (info 1, True)] of (sts, evs, flow) \<Rightarrow>
     sts = [BS_OK, BS_OK, BS_OK] \<and> (\<exists>k\<le>3. delivered id evs = take k ''abc'' \<and> k \<notin> {0, 1, 2 :: nat})"
proof -
  let ?s0 = "0xFFFFFFFE :: tcp_sn"
  let ?info = "\<lambda>j. \<lparr>ipkt = ''abc'' ! j, tcp_payload_len = of_nat ([5, 6, 7] ! j), isn = seg_sn ?s0 [5, 6, 7] j, iflag = 0\<rparr> :: char tcpr_pktinfo"
  let ?as = "[(2 :: nat, ?info 2, True), (0, ?info 0, True), (1, ?info 1, True)]"
  have r: "fst (tcpr_run 3 TcpR_Init (TcpR_InitFlow ?s0) (map snd ?as)) = [BS_OK, BS_OK, BS_OK]" by code_simp
  have "case tcpr_run 3 TcpR_Init (TcpR_InitFlow ?s0) (map snd ?as) of (sts, evs, flow) \<Rightarrow>
    length (pkts_list flow) \<le> unat (max_segs_per_flow (TcpR_Init :: char tcpr_ctrl)) + 1 \<and>
    (\<exists>k\<le>length ''abc''. delivered id evs = take k ''abc'' \<and> {0..<k} \<subseteq> fst ` set ?as \<and>
       (set sts \<subseteq> {BS_OK} \<longrightarrow> k \<notin> fst ` set ?as))"
    by (rule TcpR_in_order [where lens = "[5, 6, 7]" and arr = ?as])
      (simp_all add: segs_ok_def dup_same_def TcpR_Init_def seg_info_def)
  with r show ?thesis by (auto simp: Let_def split: prod.splits)
qed

end
