(* ===== verification/LBitMap.thy ===== *)
theory LBitMap
  imports Prelude
begin

text \<open>
  The large bitmap of \<^verbatim>\<open>largebitmap/large_bitmap.c\<close>: the bits of the numbers below \<open>2 ^ 32\<close> as a tree of four levels with 256
  children per node. A leaf holds 256 bits; the bits of an upper node mark the children that are full. Every node has one
  referrer, so the pointers are the tree they form. The field \<^verbatim>\<open>ucLevel\<close> of a node is its depth: the functions recurse on the
  height above the leaves, which is \<open>LBITMAP_LEVEL_LEAF - ucLevel\<close>. Positions in the arrays of a node are natural numbers, indices and ranges words.
  Allocations follow a script of outcomes.
\<close>

definition LBITMAP_LEVEL_1 :: nat where "LBITMAP_LEVEL_1 = 1"
definition LBITMAP_LEVEL_2 :: nat where "LBITMAP_LEVEL_2 = 2"
definition LBITMAP_LEVEL_3 :: nat where "LBITMAP_LEVEL_3 = 3"
definition LBITMAP_LEVEL_LEAF :: nat where "LBITMAP_LEVEL_LEAF = 4"
definition LBITMAP_NODE_NUM :: nat where "LBITMAP_NODE_NUM = 256"
definition LBITMAP_NODE_BITUINT_NUM :: nat where "LBITMAP_NODE_BITUINT_NUM = 8"

lemmas lbitmap_levels = LBITMAP_LEVEL_1_def LBITMAP_LEVEL_2_def LBITMAP_LEVEL_3_def LBITMAP_LEVEL_LEAF_def
  LBITMAP_NODE_NUM_def LBITMAP_NODE_BITUINT_NUM_def

datatype lb_node =
    LBITMAP_LEAF (stBits: "UINT list")
  | LBITMAP_NODE (stBits: "UINT list") (apstNextLevel: "nat \<rightharpoonup> lb_node")
  where "apstNextLevel (LBITMAP_LEAF bits) = Map.empty"

definition set_bits :: "lb_node \<Rightarrow> UINT list \<Rightarrow> lb_node" where
  "set_bits node bits = (case node of LBITMAP_LEAF _ \<Rightarrow> LBITMAP_LEAF bits | LBITMAP_NODE _ nx \<Rightarrow> LBITMAP_NODE bits nx)"

definition set_next :: "lb_node \<Rightarrow> nat \<Rightarrow> lb_node option \<Rightarrow> lb_node" where
  "set_next node pos child = LBITMAP_NODE (stBits node) ((apstNextLevel node)(pos := child))"

section \<open>The bits of a node\<close>

definition lbitmap_IsBitSetted :: "UINT list \<Rightarrow> UCHAR \<Rightarrow> bool" where
  "lbitmap_IsBitSetted auiBits ucBitIndex =
     (let ucIndex = unat (drop_bit 5 ucBitIndex AND 0x7); ucPos = unat (ucBitIndex AND 0x1F)
      in auiBits ! ucIndex AND push_bit ucPos 1 \<noteq> 0)"

definition lbitmap_IsAllSetted :: "UINT list \<Rightarrow> bool" where
  "lbitmap_IsAllSetted auiBits = list_all (\<lambda>uiPos. \<not> auiBits ! uiPos \<noteq> 0xffffffff) [0..<LBITMAP_NODE_BITUINT_NUM]"

definition lbitmap_IsAllCleared :: "UINT list \<Rightarrow> bool" where
  "lbitmap_IsAllCleared auiBits = list_all (\<lambda>uiPos. \<not> auiBits ! uiPos \<noteq> 0) [0..<LBITMAP_NODE_BITUINT_NUM]"

definition lbitmap_IsLevelEmpty :: "lb_node \<Rightarrow> bool" where
  "lbitmap_IsLevelEmpty level = list_all (\<lambda>uiPos. apstNextLevel level uiPos = None) [0..<LBITMAP_NODE_NUM]"

definition lbitmap_SetBit :: "UINT list \<Rightarrow> UCHAR \<Rightarrow> UINT list" where
  "lbitmap_SetBit auiBits ucBitIndex =
     (let ucIndex = unat (drop_bit 5 ucBitIndex AND 0x7); ucPos = unat (ucBitIndex AND 0x1F)
      in auiBits[ucIndex := auiBits ! ucIndex OR push_bit ucPos 1])"

definition lbitmap_ClrBit :: "UINT list \<Rightarrow> UCHAR \<Rightarrow> UINT list" where
  "lbitmap_ClrBit auiBits ucBitIndex =
     (let ucIndex = unat (drop_bit 5 ucBitIndex AND 0x7); ucPos = unat (ucBitIndex AND 0x1F)
      in auiBits[ucIndex := auiBits ! ucIndex AND NOT (push_bit ucPos 1)])"

definition lbitmap_GetLevelDesc :: "nat \<Rightarrow> nat \<times> UINT" where
  "lbitmap_GetLevelDesc ucLevel =
     (if ucLevel = LBITMAP_LEVEL_1 then (24, 0xffffff)
      else if ucLevel = LBITMAP_LEVEL_2 then (16, 0xffff)
      else if ucLevel = LBITMAP_LEVEL_3 then (8, 0xff)
      else (0, 0))"

section \<open>Allocating a bit\<close>

text \<open>The loop over the words of a leaf, with the test of a word that is skipped and the test of a bit that is taken.\<close>

fun leaf_scan :: "(UINT \<Rightarrow> bool) \<Rightarrow> (UINT \<Rightarrow> nat \<Rightarrow> bool) \<Rightarrow> UINT list \<Rightarrow> UINT \<Rightarrow> UINT \<Rightarrow> nat list \<Rightarrow> (nat \<times> nat) option" where
  "leaf_scan skip hit auiBits uiRangeMin uiRangeMax [] = None"
| "leaf_scan skip hit auiBits uiRangeMin uiRangeMax (uiUintPos # us) =
     (if skip (auiBits ! uiUintPos) then leaf_scan skip hit auiBits uiRangeMin uiRangeMax us
      else
        let ucStartBit = (if uiUintPos = unat (drop_bit 5 uiRangeMin AND 0x7) then unat (uiRangeMin AND 0x1F) else 0);
            ucStopBit = (if uiUintPos = unat (drop_bit 5 uiRangeMax AND 0x7) then unat (uiRangeMax AND 0x1F) else 31)
        in case find (hit (auiBits ! uiUintPos)) [ucStartBit..<Suc ucStopBit] of
             Some uiBitPos \<Rightarrow> Some (uiUintPos, uiBitPos)
           | None \<Rightarrow> leaf_scan skip hit auiBits uiRangeMin uiRangeMax us)"

definition lbitmap_GetInLeaf :: "lb_node \<Rightarrow> UINT \<Rightarrow> UINT \<Rightarrow> bs_status \<times> UINT \<times> lb_node" where
  "lbitmap_GetInLeaf pstLeaf uiRangeMin uiRangeMax =
     (case leaf_scan (\<lambda>w. w = 0xffffffff) (\<lambda>w uiBitPos. 0 = w AND push_bit uiBitPos 1) (stBits pstLeaf) uiRangeMin uiRangeMax
             [unat (drop_bit 5 uiRangeMin AND 0x7)..<Suc (unat (drop_bit 5 uiRangeMax AND 0x7))] of
        Some (uiUintPos, uiBitPos) \<Rightarrow>
          (BS_OK, of_nat uiUintPos * 32 + of_nat uiBitPos,
           set_bits pstLeaf ((stBits pstLeaf)[uiUintPos := stBits pstLeaf ! uiUintPos OR push_bit uiBitPos 1]))
      | None \<Rightarrow> (BS_NOT_FOUND, 0, pstLeaf))"

definition lbitmap_AllocNode :: "nat \<Rightarrow> lb_node" where
  "lbitmap_AllocNode ucLevel =
     (if ucLevel = LBITMAP_LEVEL_LEAF then LBITMAP_LEAF (replicate LBITMAP_NODE_BITUINT_NUM 0)
      else LBITMAP_NODE (replicate LBITMAP_NODE_BITUINT_NUM 0) Map.empty)"

text \<open>The child at a position, allocated when it is missing, as \<^verbatim>\<open>lbitmap_GetSpec\<close> and \<^verbatim>\<open>lbitmap_SetIndexBit\<close> do it.\<close>

definition enter :: "nat \<Rightarrow> lb_node \<Rightarrow> nat \<Rightarrow> bool list \<Rightarrow> lb_node option \<times> bool list" where
  "enter ucLevel node pos al =
     (case apstNextLevel node pos of
        Some child \<Rightarrow> (Some child, al)
      | None \<Rightarrow> (case mem_ask al of (b, al) \<Rightarrow> (if b then Some (lbitmap_AllocNode (ucLevel + 1)) else None, al)))"

text \<open>\<open>get\<close> is \<^verbatim>\<open>lbitmap_Get\<close> on the level below.\<close>

type_synonym lb_get = "lb_node \<Rightarrow> UINT \<Rightarrow> UINT \<Rightarrow> bool list \<Rightarrow> bs_status \<times> UINT \<times> lb_node \<times> bool list"

definition lbitmap_GetSpec :: "nat \<Rightarrow> lb_get \<Rightarrow> lb_node \<Rightarrow> nat \<Rightarrow> UINT \<Rightarrow> UINT \<Rightarrow> bool list \<Rightarrow> bs_status \<times> UINT \<times> lb_node \<times> bool list" where
  "lbitmap_GetSpec ucLevel get pstLevel uiPos uiRangeMin uiRangeMax al =
     (case enter ucLevel pstLevel uiPos al of
        (None, al) \<Rightarrow> (BS_NO_RESOURCE, 0, pstLevel, al)
      | (Some child, al) \<Rightarrow>
          let pstLevel = set_next pstLevel uiPos (Some child);
              (uiOffset, uiMask) = lbitmap_GetLevelDesc ucLevel
          in if lbitmap_IsBitSetted (stBits pstLevel) (of_nat uiPos) then (BS_NOT_FOUND, 0, pstLevel, al)
             else (case get child uiRangeMin uiRangeMax al of
                     (eRet, uiBitIndex, child, al) \<Rightarrow>
                       let pstLevel = set_next pstLevel uiPos (Some child)
                       in if eRet \<noteq> BS_OK then (eRet, 0, pstLevel, al)
                          else (BS_OK, uiBitIndex OR push_bit uiOffset (of_nat uiPos),
                                if lbitmap_IsAllSetted (stBits child)
                                then set_bits pstLevel (lbitmap_SetBit (stBits pstLevel) (of_nat uiPos)) else pstLevel,
                                al)))"

fun level_loop ::
  "(lb_node \<Rightarrow> nat \<Rightarrow> bool list \<Rightarrow> bs_status \<times> UINT \<times> lb_node \<times> bool list) \<Rightarrow> lb_node \<Rightarrow> nat list \<Rightarrow> bool list \<Rightarrow>
   bs_status \<times> UINT \<times> lb_node \<times> bool list" where
  "level_loop spec node [] al = (BS_ERR, 0, node, al)"
| "level_loop spec node (uiPos # ps) al =
     (case spec node uiPos al of
        (ret, idx, node, al) \<Rightarrow> if BS_OK = ret then (BS_OK, idx, node, al) else level_loop spec node ps al)"

definition lbitmap_GetInLevel :: "nat \<Rightarrow> lb_get \<Rightarrow> lb_get" where
  "lbitmap_GetInLevel ucLevel get pstLevel uiRangeMin uiRangeMax al =
     (let (uiOffset, uiMask) = lbitmap_GetLevelDesc ucLevel;
          uiIndexStart = unat (drop_bit uiOffset uiRangeMin AND 0xff);
          uiIndexStop = unat (drop_bit uiOffset uiRangeMax AND 0xff)
      in level_loop
           (\<lambda>pstLevel uiPos al.
              let uiNextRangMin = (if uiPos = uiIndexStart then uiRangeMin AND uiMask else 0);
                  uiNextRangMax = (if uiPos = uiIndexStop then uiRangeMax AND uiMask else uiMask)
              in lbitmap_GetSpec ucLevel get pstLevel uiPos uiNextRangMin uiNextRangMax al)
           pstLevel [uiIndexStart..<Suc uiIndexStop] al)"

primrec lbitmap_Get :: "nat \<Rightarrow> lb_get" where
  "lbitmap_Get 0 = (\<lambda>node uiRangeMin uiRangeMax al.
     (case lbitmap_GetInLeaf node uiRangeMin uiRangeMax of (ret, idx, node) \<Rightarrow> (ret, idx, node, al)))"
| "lbitmap_Get (Suc h) = lbitmap_GetInLevel (LBITMAP_LEVEL_LEAF - Suc h) (lbitmap_Get h)"

section \<open>Setting, clearing and testing a bit\<close>

fun lbitmap_GetIndexLeaf :: "nat \<Rightarrow> lb_node \<Rightarrow> UINT \<Rightarrow> lb_node option" where
  "lbitmap_GetIndexLeaf 0 node uiIndex = Some node"
| "lbitmap_GetIndexLeaf (Suc h) node uiIndex =
     (let (uiOffset, uiMask) = lbitmap_GetLevelDesc (LBITMAP_LEVEL_LEAF - Suc h);
          uiIndexTmp = unat (drop_bit uiOffset uiIndex AND 0xff)
      in case apstNextLevel node uiIndexTmp of
           None \<Rightarrow> None
         | Some child \<Rightarrow> lbitmap_GetIndexLeaf h child (uiIndex AND uiMask))"

text \<open>The result says whether the node has become empty.\<close>

fun lbitmap_ClearBit :: "nat \<Rightarrow> lb_node \<Rightarrow> UINT \<Rightarrow> bool \<times> lb_node" where
  "lbitmap_ClearBit 0 node uiIndex =
     (let node = set_bits node (lbitmap_ClrBit (stBits node) (ucast (uiIndex AND 0xff)))
      in (lbitmap_IsAllCleared (stBits node), node))"
| "lbitmap_ClearBit (Suc h) node uiIndex =
     (let (uiOffset, uiMask) = lbitmap_GetLevelDesc (LBITMAP_LEVEL_LEAF - Suc h);
          uiIndexTmp = unat (drop_bit uiOffset uiIndex AND 0xff);
          node = set_bits node (lbitmap_ClrBit (stBits node) (of_nat uiIndexTmp))
      in case apstNextLevel node uiIndexTmp of
           None \<Rightarrow> (False, node)
         | Some child \<Rightarrow>
             (case lbitmap_ClearBit h child (uiIndex AND uiMask) of
                (True, child) \<Rightarrow> (let node = set_next node uiIndexTmp None in (lbitmap_IsLevelEmpty node, node))
              | (False, child) \<Rightarrow> (False, set_next node uiIndexTmp (Some child))))"

fun lbitmap_SetIndexBit :: "nat \<Rightarrow> lb_node \<Rightarrow> UINT \<Rightarrow> bool list \<Rightarrow> bs_status \<times> lb_node \<times> bool list" where
  "lbitmap_SetIndexBit 0 node uiIndex al = (BS_OK, set_bits node (lbitmap_SetBit (stBits node) (ucast (uiIndex AND 0xff))), al)"
| "lbitmap_SetIndexBit (Suc h) node uiIndex al =
     (let (uiOffset, uiMask) = lbitmap_GetLevelDesc (LBITMAP_LEVEL_LEAF - Suc h);
          uiIndexTmp = unat (drop_bit uiOffset uiIndex AND 0xff)
      in case enter (LBITMAP_LEVEL_LEAF - Suc h) node uiIndexTmp al of
           (None, al) \<Rightarrow> (BS_NO_MEMORY, node, al)
         | (Some child, al) \<Rightarrow>
             (case lbitmap_SetIndexBit h child (uiIndex AND uiMask) al of
                (ret, child, al) \<Rightarrow> (ret, set_next node uiIndexTmp (Some child), al)))"

text \<open>The release of the nodes below the first level; the marks of the first level stay as they are.\<close>

definition lbitmap_Reset :: "lb_node \<Rightarrow> lb_node" where
  "lbitmap_Reset node = LBITMAP_NODE (stBits node) Map.empty"

definition lbitmap_GetBusyInLeaf :: "lb_node \<Rightarrow> UINT \<Rightarrow> UINT \<Rightarrow> UINT option" where
  "lbitmap_GetBusyInLeaf pstLeaf uiRangeMin uiRangeMax =
     (case leaf_scan (\<lambda>w. w = 0) (\<lambda>w uiBitPos. w AND push_bit uiBitPos 1 \<noteq> 0) (stBits pstLeaf) uiRangeMin uiRangeMax
             [unat (drop_bit 5 uiRangeMin AND 0x7)..<Suc (unat (drop_bit 5 uiRangeMax AND 0x7))] of
        Some (uiUintPos, uiBitPos) \<Rightarrow> Some (of_nat uiUintPos * 32 + of_nat uiBitPos)
      | None \<Rightarrow> None)"

text \<open>In the last child the code overwrites the lower bound with the upper one: \<open>uiRangeMaxChild\<close> keeps its first value.\<close>

fun busy_loop :: "(nat \<Rightarrow> 'a option) \<Rightarrow> nat list \<Rightarrow> 'a option" where
  "busy_loop f [] = None"
| "busy_loop f (uiIndex # is) = (case f uiIndex of None \<Rightarrow> busy_loop f is | Some idx \<Rightarrow> Some idx)"

fun lbitmap_GetBusyBit :: "nat \<Rightarrow> lb_node \<Rightarrow> UINT \<Rightarrow> UINT \<Rightarrow> UINT option" where
  "lbitmap_GetBusyBit 0 node uiRangeMin uiRangeMax = lbitmap_GetBusyInLeaf node uiRangeMin uiRangeMax"
| "lbitmap_GetBusyBit (Suc h) node uiRangeMin uiRangeMax =
     (let (uiOffset, uiMask) = lbitmap_GetLevelDesc (LBITMAP_LEVEL_LEAF - Suc h);
          ucStartIndex = unat (ucast (drop_bit uiOffset uiRangeMin) :: UCHAR);
          ucStopIndex = unat (ucast (drop_bit uiOffset uiRangeMax) :: UCHAR)
      in busy_loop
           (\<lambda>uiIndex.
              case apstNextLevel node uiIndex of
                None \<Rightarrow> None
              | Some child \<Rightarrow>
                  let uiRangeMinChild = (if uiIndex = ucStartIndex then uiRangeMin AND uiMask else 0);
                      uiRangeMaxChild = uiMask;
                      uiRangeMinChild = (if uiIndex = ucStopIndex then uiRangeMax AND uiMask else uiRangeMinChild)
                  in map_option (\<lambda>idx. idx OR push_bit uiOffset (of_nat uiIndex))
                       (lbitmap_GetBusyBit h child uiRangeMinChild uiRangeMaxChild))
           [ucStartIndex..<Suc ucStopIndex])"

section \<open>The interface\<close>

definition LBitMap_Create :: "bool \<Rightarrow> lb_node option" where
  "LBitMap_Create alloc =
     (if alloc then Some (LBITMAP_NODE (replicate LBITMAP_NODE_BITUINT_NUM 0) Map.empty) else None)"

definition LBitMap_Reset :: "lb_node \<Rightarrow> lb_node" where
  "LBitMap_Reset level1 = lbitmap_Reset level1"

definition LBitMap_AllocByRange :: "lb_node \<Rightarrow> UINT \<Rightarrow> UINT \<Rightarrow> bool list \<Rightarrow> bs_status \<times> UINT \<times> lb_node \<times> bool list" where
  "LBitMap_AllocByRange level1 uiRangeMin uiRangeMax al =
     lbitmap_Get (LBITMAP_LEVEL_LEAF - LBITMAP_LEVEL_1) level1 uiRangeMin uiRangeMax al"

definition LBitMap_SetBit :: "lb_node \<Rightarrow> UINT \<Rightarrow> bool list \<Rightarrow> bs_status \<times> lb_node \<times> bool list" where
  "LBitMap_SetBit level1 uiBitIndex al = lbitmap_SetIndexBit (LBITMAP_LEVEL_LEAF - LBITMAP_LEVEL_1) level1 uiBitIndex al"

definition LBitMap_ClrBit :: "lb_node \<Rightarrow> UINT \<Rightarrow> lb_node" where
  "LBitMap_ClrBit level1 uiBitIndex = snd (lbitmap_ClearBit (LBITMAP_LEVEL_LEAF - LBITMAP_LEVEL_1) level1 uiBitIndex)"

text \<open>The code returns the index itself as the status (\<open>Inr\<close>) and leaves \<^verbatim>\<open>puiBitIndex\<close> alone.\<close>

definition LBitMap_TryByRange :: "lb_node \<Rightarrow> UINT \<Rightarrow> UINT \<Rightarrow> bool list \<Rightarrow> (bs_status + UINT) \<times> lb_node \<times> bool list" where
  "LBitMap_TryByRange level1 uiRangeMin uiRangeMax al =
     (case LBitMap_AllocByRange level1 uiRangeMin uiRangeMax al of
        (ret, uiIndex, level1, al) \<Rightarrow>
          if BS_OK \<noteq> ret then (Inl BS_NOT_FOUND, level1, al) else (Inr uiIndex, LBitMap_ClrBit level1 uiIndex, al))"

definition LBitMap_IsBitSetted :: "lb_node \<Rightarrow> UINT \<Rightarrow> bool" where
  "LBitMap_IsBitSetted level1 uiBitIndex =
     (case lbitmap_GetIndexLeaf (LBITMAP_LEVEL_LEAF - LBITMAP_LEVEL_1) level1 uiBitIndex of
        None \<Rightarrow> False
      | Some leaf \<Rightarrow> lbitmap_IsBitSetted (stBits leaf) (ucast (uiBitIndex AND 0xff)))"

definition LBitMap_GetFirstBusyBit :: "lb_node \<Rightarrow> UINT option" where
  "LBitMap_GetFirstBusyBit level1 =
     lbitmap_GetBusyBit (LBITMAP_LEVEL_LEAF - LBITMAP_LEVEL_1) level1 0 0xffffffff"

definition LBitMap_GetNextBusyBit :: "lb_node \<Rightarrow> UINT \<Rightarrow> UINT option" where
  "LBitMap_GetNextBusyBit level1 uiCurrentBitIndex =
     lbitmap_GetBusyBit (LBITMAP_LEVEL_LEAF - LBITMAP_LEVEL_1) level1 (uiCurrentBitIndex + 1) 0xffffffff"

section \<open>The first hit of a scan\<close>

definition least_in :: "(nat \<Rightarrow> bool) \<Rightarrow> nat \<Rightarrow> nat \<Rightarrow> nat \<Rightarrow> bool" where
  "least_in P lo hi k \<longleftrightarrow> lo \<le> k \<and> k \<le> hi \<and> P k \<and> (\<forall>j. lo \<le> j \<longrightarrow> j < k \<longrightarrow> \<not> P j)"

definition none_in :: "(nat \<Rightarrow> bool) \<Rightarrow> nat \<Rightarrow> nat \<Rightarrow> bool" where
  "none_in P lo hi \<longleftrightarrow> (\<forall>j. lo \<le> j \<longrightarrow> j \<le> hi \<longrightarrow> \<not> P j)"

definition first_in :: "(nat \<Rightarrow> bool) \<Rightarrow> nat \<Rightarrow> nat \<Rightarrow> nat option \<Rightarrow> bool" where
  "first_in P lo hi r \<longleftrightarrow> (case r of Some k \<Rightarrow> least_in P lo hi k | None \<Rightarrow> none_in P lo hi)"

lemma first_in_simps [simp]:
  "first_in P lo hi None \<longleftrightarrow> none_in P lo hi" "first_in P lo hi (Some k) \<longleftrightarrow> least_in P lo hi k"
  by (simp_all add: first_in_def)

lemma first_in_cong: "(\<And>k. lo \<le> k \<Longrightarrow> k \<le> hi \<Longrightarrow> P k \<longleftrightarrow> Q k) \<Longrightarrow> first_in P lo hi r \<longleftrightarrow> first_in Q lo hi r"
  by (cases r) (auto simp: least_in_def none_in_def)

lemma first_in_seq: "none_in P lo m \<Longrightarrow> first_in P (Suc m) hi r \<Longrightarrow> lo \<le> Suc m \<Longrightarrow> first_in P lo hi r"
proof (cases r)
  case None
  then show "none_in P lo m \<Longrightarrow> first_in P (Suc m) hi r \<Longrightarrow> ?thesis" by (auto simp: none_in_def not_less_eq_eq)
next
  case (Some k)
  then show "none_in P lo m \<Longrightarrow> first_in P (Suc m) hi r \<Longrightarrow> lo \<le> Suc m \<Longrightarrow> ?thesis"
    by (auto simp: none_in_def least_in_def not_less_eq_eq)
qed

lemma first_in_widen: "first_in P m hi r \<Longrightarrow> lo \<le> m \<Longrightarrow> (\<And>x. x < m \<Longrightarrow> \<not> P x) \<Longrightarrow> first_in P lo hi r"
  by (cases r) (auto simp: none_in_def least_in_def not_less, (meson not_le)+)

lemma find_upt_first: "first_in P lo hi (find P [lo..<Suc hi])"
proof (cases "find P [lo..<Suc hi]")
  case None
  show ?thesis unfolding None using None by (auto simp: find_None_iff none_in_def simp del: upt_Suc)
next
  case (Some k)
  then obtain i where i: "i < Suc hi - lo" "P (lo + i)" "k = lo + i" "\<forall>j<i. \<not> P (lo + j)"
    by (auto simp: find_Some_iff simp del: upt_Suc)
  then have "\<not> P j" if "lo \<le> j" "j < k" for j using that by (metis le_Suc_ex nat_add_left_cancel_less)
  then show ?thesis using Some i by (auto simp: least_in_def)
qed

text \<open>A range of numbers as the ranges of its digits to the base \<open>B\<close>.\<close>

definition seg_lo :: "nat \<Rightarrow> nat \<Rightarrow> nat \<Rightarrow> nat" where
  "seg_lo B lo p = (if p = lo div B then lo mod B else 0)"

definition seg_hi :: "nat \<Rightarrow> nat \<Rightarrow> nat \<Rightarrow> nat" where
  "seg_hi B hi p = (if p = hi div B then hi mod B else B - 1)"

lemma seg_bounds: "0 < B \<Longrightarrow> seg_lo B lo p < B" "0 < B \<Longrightarrow> seg_hi B hi p < B"
  by (simp_all add: seg_lo_def seg_hi_def)

lemma seg_first: "(lo div B) * B + seg_lo B lo (lo div B) = lo"
  by (simp add: seg_lo_def)

lemma seg_last: "(hi div B) * B + seg_hi B hi (hi div B) = hi"
  by (simp add: seg_hi_def)

lemma seg_next:
  "0 < B \<Longrightarrow> p < hi div B \<Longrightarrow> lo div B \<le> p \<Longrightarrow> Suc (p * B + seg_hi B hi p) = Suc p * B + seg_lo B lo (Suc p)"
  by (simp add: seg_lo_def seg_hi_def)

lemma seg_past: "0 < B \<Longrightarrow> hi < Suc (hi div B) * B + seg_lo B lo (Suc (hi div B))"
  by (metis add.commute dividend_less_div_times mult_Suc trans_less_add1)

lemma seg_top: "0 < B \<Longrightarrow> p \<le> hi div B \<Longrightarrow> p * B + seg_hi B hi p \<le> hi"
proof (cases "p = hi div B")
  case False
  assume "0 < B" "p \<le> hi div B"
  then have "Suc p * B \<le> hi div B * B" using False by (intro mult_le_mono1) simp
  then have "Suc p * B \<le> hi" using div_times_less_eq_dividend order.trans by blast
  then show ?thesis using False by (simp add: seg_hi_def)
qed (simp add: seg_last)

text \<open>The scan of the digits, each with the scan of its range.\<close>

lemma busy_loop_first:
  assumes B: "0 < B"
    and f: "\<And>p. lo div B \<le> p \<Longrightarrow> p \<le> hi div B \<Longrightarrow>
      first_in P (p * B + seg_lo B lo p) (p * B + seg_hi B hi p) (map_option g (f p))"
  shows "first_in P lo hi (map_option g (busy_loop f [lo div B..<Suc (hi div B)]))"
proof -
  have "first_in P (p * B + seg_lo B lo p) hi (map_option g (busy_loop f [p..<Suc (hi div B)]))"
    if "p \<le> Suc (hi div B)" "lo div B \<le> p" for p
    using that
  proof (induction "Suc (hi div B) - p" arbitrary: p)
    case 0
    then have "p = Suc (hi div B)" by simp
    then show ?case using seg_past [OF B, of hi lo] by (simp add: none_in_def)
  next
    case (Suc n)
    then have p: "p \<le> hi div B" by simp
    have up: "[p..<Suc (hi div B)] = p # [Suc p..<Suc (hi div B)]" using p by (simp add: upt_conv_Cons)
    note top = seg_top [OF B p]
    show ?case
    proof (cases "f p")
      case None
      have rest: "first_in P (Suc p * B + seg_lo B lo (Suc p)) hi (map_option g (busy_loop f [Suc p..<Suc (hi div B)]))"
        using Suc.hyps(1) [of "Suc p"] Suc.hyps(2) Suc.prems p by simp
      have none: "none_in P (p * B + seg_lo B lo p) (p * B + seg_hi B hi p)" using f [OF Suc.prems(2) p] None by simp
      show ?thesis
      proof (cases "p = hi div B")
        case True
        then show ?thesis unfolding up using none None seg_last [of hi B] by simp
      next
        case False
        then have e: "Suc (p * B + seg_hi B hi p) = Suc p * B + seg_lo B lo (Suc p)" using seg_next [OF B _ Suc.prems(2)] p by simp
        show ?thesis
          unfolding up busy_loop.simps(2) None option.case
          by (rule first_in_seq [OF none rest [folded e]]) (use seg_bounds(1) [OF B, of lo p] e in simp)
      qed
    next
      case (Some r)
      then show ?thesis unfolding up using f [OF Suc.prems(2) p] top by (simp add: least_in_def)
    qed
  qed
  note run = this
  show ?thesis
  proof (cases "lo div B \<le> hi div B")
    case True
    then show ?thesis using run [of "lo div B"] by (simp add: seg_first del: upt_Suc)
  next
    case False
    then have "\<not> lo \<le> hi" using div_le_mono by blast
    then show ?thesis using False by (simp add: none_in_def)
  qed
qed

section \<open>Words and bits\<close>

lemma unat_digit: "unat (drop_bit n w AND 0xff :: UINT) = unat w div 2 ^ n mod 256"
proof -
  have "drop_bit n w AND 0xff = take_bit 8 (drop_bit n w)" by (simp add: take_bit_eq_mask mask_eq_exp_minus_1)
  then show ?thesis unfolding unsigned_take_bit_eq unat_drop_bit_eq by (simp add: unsigned_take_bit_eq unat_drop_bit_eq) (simp add: take_bit_eq_mod drop_bit_eq_div)
qed

lemma unat_uchar: "unat (ucast (drop_bit n w :: UINT) :: UCHAR) = unat w div 2 ^ n mod 256"
  unfolding unsigned_ucast_eq unat_drop_bit_eq by (simp add: take_bit_eq_mod drop_bit_eq_div)

lemma unat_low_bits: "unat (w AND mask n :: UINT) = unat w mod 2 ^ n"
  unfolding take_bit_eq_mask [symmetric] unsigned_take_bit_eq by (simp add: take_bit_eq_mod)

lemma unat_small_digits:
  assumes "unat w < 256"
  shows "unat (drop_bit 5 w AND 0x7 :: UINT) = unat w div 32" "unat (w AND 0x1F :: UINT) = unat w mod 32"
    "unat (ucast (w AND 0xff :: UINT) :: UCHAR) = unat w"
proof -
  have m: "(0x7 :: UINT) = mask 3" "(0x1F :: UINT) = mask 5" "(0xff :: UINT) = mask 8" by (simp_all add: mask_eq_exp_minus_1)
  have "unat w div 32 < 8" using assms by simp
  then show "unat (drop_bit 5 w AND 0x7 :: UINT) = unat w div 32" unfolding m
    unfolding unat_low_bits unat_drop_bit_eq by (simp add: drop_bit_eq_div)
  show "unat (w AND 0x1F :: UINT) = unat w mod 32" unfolding m by (simp add: unat_low_bits)
  show "unat (ucast (w AND 0xff :: UINT) :: UCHAR) = unat w" unfolding m
    using assms by (simp add: unsigned_ucast_eq unat_low_bits take_bit_eq_mod)
qed

lemma unat_uchar_digits:
  "unat (drop_bit 5 i AND 0x7 :: UCHAR) = unat i div 32" "unat (i AND 0x1F :: UCHAR) = unat i mod 32"
proof -
  have m: "(0x7 :: UCHAR) = mask 3" "(0x1F :: UCHAR) = mask 5" by (simp_all add: mask_eq_exp_minus_1)
  have "unat i div 32 < 8" using unat_lt2p [of i] by simp
  then show "unat (drop_bit 5 i AND 0x7 :: UCHAR) = unat i div 32" unfolding m
    unfolding take_bit_eq_mask [symmetric] unsigned_take_bit_eq unat_drop_bit_eq by (simp add: take_bit_eq_mod drop_bit_eq_div)
  show "unat (i AND 0x1F :: UCHAR) = unat i mod 32" unfolding m
    unfolding take_bit_eq_mask [symmetric] unsigned_take_bit_eq by (simp add: take_bit_eq_mod)
qed

lemma join_index:
  assumes "unat idx < 2 ^ n" "p < 256" "n \<le> 24"
  shows "unat (idx OR push_bit n (of_nat p) :: UINT) = p * 2 ^ n + unat idx"
proof -
  have p: "p * 2 ^ n + unat idx < 2 ^ 32"
  proof -
    have "p * 2 ^ n + unat idx < (p + 1) * 2 ^ n" using assms(1) by simp
    also have "\<dots> \<le> 2 ^ 8 * 2 ^ n" using assms(2) by (intro mult_le_mono1) simp
    also have "\<dots> \<le> 2 ^ 8 * 2 ^ 24" using assms(3) by (intro mult_le_mono2 power_increasing) simp_all
    finally show ?thesis by simp
  qed
  have w: "unat (push_bit n (of_nat p) :: UINT) = p * 2 ^ n"
  proof -
    have "push_bit n (of_nat p :: UINT) = of_nat (p * 2 ^ n)" by (simp add: push_bit_eq_mult)
    then show ?thesis using unat_of_nat_small [of "p * 2 ^ n", where 'a = 32] p by simp
  qed
  have "\<not> bit idx k \<or> \<not> bit (push_bit n (of_nat p) :: UINT) k" for k
  proof (cases "k < n")
    case False
    have "unat (take_bit n idx) = unat idx" unfolding unsigned_take_bit_eq by (rule take_bit_nat_eq_self [OF assms(1)])
    then have "take_bit n idx = idx" by (rule word_unat_eq_iff [THEN iffD2])
    then have "bit idx k \<longleftrightarrow> bit (take_bit n idx) k" by (rule arg_cong [of _ _ "\<lambda>w. bit w k", OF sym])
    then show ?thesis using False unfolding bit_take_bit_iff by blast
  qed (simp add: bit_push_bit_iff)
  then have "idx OR push_bit n (of_nat p) = idx + push_bit n (of_nat p)" by (simp add: disjunctive_add)
  moreover have "unat (idx + push_bit n (of_nat p)) = unat idx + unat (push_bit n (of_nat p) :: UINT)"
    by (rule unat_add_word) (use p in \<open>simp only: w, simp\<close>)
  ultimately show ?thesis by (simp only: w add.commute)
qed

definition bits_mem :: "UINT list \<Rightarrow> nat \<Rightarrow> bool" where
  "bits_mem bits k \<longleftrightarrow> bit (bits ! (k div 32)) (k mod 32)"

lemma and_push_bit: "(w :: UINT) AND push_bit n 1 \<noteq> 0 \<longleftrightarrow> bit w n"
  by (simp add: push_bit_eq_mult and_exp_eq_0_iff_not_bit)

lemma lbitmap_IsBitSetted [simp]: "lbitmap_IsBitSetted bits i \<longleftrightarrow> bits_mem bits (unat i)"
  unfolding lbitmap_IsBitSetted_def Let_def and_push_bit unat_uchar_digits bits_mem_def ..

lemma index_digits: "(i :: nat) = j \<longleftrightarrow> i div 32 = j div 32 \<and> i mod 32 = j mod 32"
  by (metis div_mult_mod_eq)

lemma bits_mem_or:
  assumes "length bits = 8" "u < 8" "b < 32" "k < 256"
  shows "bits_mem (bits[u := bits ! u OR push_bit b 1]) k \<longleftrightarrow> k = u * 32 + b \<or> bits_mem bits k"
  using assms index_digits [of k "u * 32 + b"] by (auto simp: bits_mem_def nth_list_update bit_simps)

lemma bits_mem_SetBit:
  assumes "length bits = 8" "k < 256"
  shows "bits_mem (lbitmap_SetBit bits i) k \<longleftrightarrow> k = unat i \<or> bits_mem bits k"
proof -
  have "unat i div 32 < 8" using unat_lt2p [of i] by simp
  then show ?thesis
    using bits_mem_or [OF assms(1) _ _ assms(2), of "unat i div 32" "unat i mod 32"]
    unfolding lbitmap_SetBit_def Let_def unat_uchar_digits by simp
qed

lemma bits_mem_ClrBit:
  assumes "length bits = 8" "k < 256"
  shows "bits_mem (lbitmap_ClrBit bits i) k \<longleftrightarrow> k \<noteq> unat i \<and> bits_mem bits k"
proof -
  have "unat i div 32 < 8" using unat_lt2p [of i] by simp
  then show ?thesis
    using assms index_digits [of k "unat i"]
    unfolding lbitmap_ClrBit_def Let_def unat_uchar_digits bits_mem_def by (auto simp: nth_list_update bit_simps)
qed

lemma length_bits [simp]:
  "length (lbitmap_SetBit bits i) = length bits" "length (lbitmap_ClrBit bits i) = length bits"
  by (simp_all add: lbitmap_SetBit_def lbitmap_ClrBit_def Let_def)

lemma word_full: "(w :: UINT) = 0xffffffff \<longleftrightarrow> (\<forall>b<32. bit w b)"
proof -
  have "(0xffffffff :: UINT) = mask 32" by (simp add: mask_eq_exp_minus_1)
  then show ?thesis by (auto simp: bit_eq_iff bit_simps)
qed

lemma word_empty: "(w :: UINT) = 0 \<longleftrightarrow> (\<forall>b<32. \<not> bit w b)"
  by (auto simp: bit_eq_iff bit_simps dest: bit_imp_le_length)

lemma all_bits: "(\<forall>u<8. \<forall>b<32. Q (u * 32 + b)) \<longleftrightarrow> (\<forall>k<256. Q k)" for Q :: "nat \<Rightarrow> bool"
proof (intro iffI allI impI)
  fix k :: nat assume "\<forall>u<8. \<forall>b<32. Q (u * 32 + b)" "k < 256"
  moreover have "k div 32 < 8" "k mod 32 < 32" using \<open>k < 256\<close> by simp_all
  ultimately show "Q k" by (metis div_mult_mod_eq)
qed simp

lemma lbitmap_IsAllSetted: "lbitmap_IsAllSetted bits \<longleftrightarrow> (\<forall>k<256. bits_mem bits k)"
  unfolding all_bits [symmetric] by (auto simp: lbitmap_IsAllSetted_def list_all_iff lbitmap_levels word_full bits_mem_def)

lemma lbitmap_IsAllCleared: "lbitmap_IsAllCleared bits \<longleftrightarrow> (\<forall>k<256. \<not> bits_mem bits k)"
  unfolding all_bits [symmetric] by (auto simp: lbitmap_IsAllCleared_def list_all_iff lbitmap_levels word_empty bits_mem_def)

section \<open>The numbers of a tree\<close>

definition span :: "nat \<Rightarrow> nat" where
  "span h = 2 ^ (8 * h)"

lemma span_pos [simp]: "0 < span h"
  by (simp add: span_def)

lemma span_Suc: "span (Suc h) = 256 * span h"
  by (simp add: span_def power_add)

lemma span_1 [simp]: "span (Suc 0) = 256"
  by (simp add: span_def)

primrec lb_mem :: "nat \<Rightarrow> lb_node \<Rightarrow> nat \<Rightarrow> bool" where
  "lb_mem 0 node = (\<lambda>k. k < 256 \<and> bits_mem (stBits node) k)"
| "lb_mem (Suc h) node = (\<lambda>k.
     case apstNextLevel node (k div span (Suc h)) of
       None \<Rightarrow> False
     | Some c \<Rightarrow> lb_mem h c (k mod span (Suc h)))"

text \<open>A marked child is full.\<close>

primrec lb_ok :: "nat \<Rightarrow> lb_node \<Rightarrow> bool" where
  "lb_ok 0 node \<longleftrightarrow> (\<exists>bits. node = LBITMAP_LEAF bits \<and> length bits = 8)"
| "lb_ok (Suc h) node \<longleftrightarrow> (\<exists>bits nx. node = LBITMAP_NODE bits nx \<and> length bits = 8 \<and>
     (\<forall>p c. nx p = Some c \<longrightarrow> p < 256 \<and> lb_ok h c) \<and>
     (\<forall>p<256. bits_mem bits p \<longrightarrow> (\<exists>c. nx p = Some c \<and> (\<forall>k < span (Suc h). lb_mem h c k))))"

declare lb_ok.simps [inv_defs]

lemma lb_ok_length: "lb_ok h node \<Longrightarrow> length (stBits node) = 8"
  by (cases h) auto

lemma lb_ok_child: "lb_ok (Suc h) node \<Longrightarrow> apstNextLevel node p = Some c \<Longrightarrow> p < 256 \<and> lb_ok h c"
  by auto

lemma lb_ok_full: "lb_ok (Suc h) node \<Longrightarrow> bits_mem (stBits node) p \<Longrightarrow> p < 256 \<Longrightarrow>
    \<exists>c. apstNextLevel node p = Some c \<and> (\<forall>k < span (Suc h). lb_mem h c k)"
  by auto

lemma GetLevelDesc:
  "h < 3 \<Longrightarrow> lbitmap_GetLevelDesc (LBITMAP_LEVEL_LEAF - Suc h) = (8 * Suc h, mask (8 * Suc h))"
  by (auto simp: lbitmap_GetLevelDesc_def lbitmap_levels mask_eq_exp_minus_1 less_Suc_eq numeral_3_eq_3)

lemma AllocNode_leaf: "h < 3 \<Longrightarrow> lbitmap_AllocNode (LBITMAP_LEVEL_LEAF - Suc h + 1) =
    (if h = 0 then LBITMAP_LEAF (replicate 8 0) else LBITMAP_NODE (replicate 8 0) Map.empty)"
  by (auto simp: lbitmap_AllocNode_def lbitmap_levels)

lemma bits_mem_zero [simp]: "k < 256 \<Longrightarrow> \<not> bits_mem (replicate 8 0) k"
  by (simp add: bits_mem_def)

lemma AllocNode_ok:
  assumes "h < 3"
  shows "lb_ok h (lbitmap_AllocNode (LBITMAP_LEVEL_LEAF - Suc h + 1))"
    "lb_mem h (lbitmap_AllocNode (LBITMAP_LEVEL_LEAF - Suc h + 1)) = (\<lambda>_. False)"
  unfolding AllocNode_leaf [OF assms] by (cases h; auto)+

lemma lb_mem_full: "lb_ok h node \<Longrightarrow> lbitmap_IsAllSetted (stBits node) \<Longrightarrow> k < span (Suc h) \<Longrightarrow> lb_mem h node k"
proof (cases h)
  case 0
  then show "lbitmap_IsAllSetted (stBits node) \<Longrightarrow> k < span (Suc h) \<Longrightarrow> ?thesis" by (simp add: lbitmap_IsAllSetted)
next
  case (Suc i)
  assume a: "lb_ok h node" "lbitmap_IsAllSetted (stBits node)" "k < span (Suc h)"
  have "k div span (Suc i) < 256" using a(3) Suc by (simp add: span_Suc [of "Suc i"] less_mult_imp_div_less)
  moreover have "k mod span (Suc i) < span (Suc i)" by simp
  ultimately show ?thesis using a Suc lb_ok_full [of i node "k div span (Suc i)"] by (auto simp: lbitmap_IsAllSetted simp del: lb_ok.simps)
qed

lemma stBits_set_next [simp]: "stBits (set_next node p c) = stBits node"
  by (simp add: set_next_def)

lemma next_set_next [simp]: "apstNextLevel (set_next node p c) = (apstNextLevel node)(p := c)"
  by (simp add: set_next_def)

lemma lb_mem_set_next:
  "lb_mem (Suc h) (set_next node p (Some c)) k \<longleftrightarrow>
     (if k div span (Suc h) = p then lb_mem h c (k mod span (Suc h)) else lb_mem (Suc h) node k)"
  by simp

lemma lb_mem_child: "r < span (Suc h) \<Longrightarrow> lb_mem (Suc h) node (p * span (Suc h) + r) \<longleftrightarrow>
    (case apstNextLevel node p of None \<Rightarrow> False | Some c \<Rightarrow> lb_mem h c r)"
  by (simp split: option.split)

lemma lb_mem_bits: "lb_mem (Suc h) (LBITMAP_NODE bits nx) = lb_mem (Suc h) (LBITMAP_NODE bits' nx)"
  by simp

lemma set_next_ok:
  assumes "lb_ok (Suc h) node" "p < 256" "lb_ok h c"
    and "bits_mem (stBits node) p \<Longrightarrow> \<forall>k < span (Suc h). lb_mem h c k"
  shows "lb_ok (Suc h) (set_next node p (Some c))"
  using assms by (auto simp: set_next_def simp del: lb_mem.simps)

lemma clear_next_ok: "lb_ok (Suc h) node \<Longrightarrow> (p < 256 \<Longrightarrow> \<not> bits_mem (stBits node) p) \<Longrightarrow> lb_ok (Suc h) (set_next node p None)"
  by (auto simp: set_next_def simp del: lb_mem.simps)

text \<open>What an allocation in a range does to a set: \<open>ok\<close> says that no allocation of memory failed.\<close>

definition got :: "bool \<Rightarrow> nat \<Rightarrow> nat \<Rightarrow> (nat \<Rightarrow> bool) \<Rightarrow> bs_status \<Rightarrow> nat \<Rightarrow> (nat \<Rightarrow> bool) \<Rightarrow> bool" where
  "got ok lo hi M ret idx M' \<longleftrightarrow>
     (if ret = BS_OK then lo \<le> idx \<and> idx \<le> hi \<and> \<not> M idx \<and> M' = M(idx := True) \<and> (ok \<longrightarrow> (\<forall>k. lo \<le> k \<longrightarrow> k < idx \<longrightarrow> M k))
      else M' = M \<and> (ok \<longrightarrow> (\<forall>k. lo \<le> k \<longrightarrow> k \<le> hi \<longrightarrow> M k)))"

lemma in_segment: "a + l \<le> k \<Longrightarrow> k \<le> a + r \<Longrightarrow> \<exists>x. k = a + x \<and> l \<le> x \<and> x \<le> r" for k :: nat
  by (intro exI [of _ "k - a"]) auto

lemma first_in_shift:
  assumes "first_in (\<lambda>r. P (a + r)) lo hi r"
  shows "first_in P (a + lo) (a + hi) (map_option ((+) a) r)"
proof -
  have "\<exists>i. j = a + i" if "a + lo \<le> j" for j using that by (metis add_leE le_Suc_ex)
  then show ?thesis using assms by (cases r) (fastforce simp: none_in_def least_in_def)+
qed

lemma find_upt_bound: "find P [a..<Suc b] = Some x \<Longrightarrow> x \<le> b"
  using find_upt_first [of P a b] by (simp add: least_in_def del: upt_Suc)

lemma leaf_scan_Some: "leaf_scan skip hit bits lo hi us = Some (u, b) \<Longrightarrow> u \<in> set us \<and> b < 32"
proof (induction us)
  case (Cons v us)
  let ?lo = "if v = unat (drop_bit 5 lo AND 0x7) then unat (lo AND 0x1F) else 0"
  let ?hi = "if v = unat (drop_bit 5 hi AND 0x7) then unat (hi AND 0x1F) else 31"
  have "(0x1F :: UINT) = mask 5" by (simp add: mask_eq_exp_minus_1)
  then have "unat (hi AND 0x1F) < 32" using unat_low_bits [of hi 5] by simp
  then have hi: "?hi < 32" by simp
  show ?case
  proof (cases "skip (bits ! v) \<or> find (hit (bits ! v)) [?lo..<Suc ?hi] = None")
    case True
    then have "leaf_scan skip hit bits lo hi us = Some (u, b)" using Cons.prems by (cases "skip (bits ! v)") (simp_all add: Let_def del: upt_Suc)
    then show ?thesis using Cons.IH by simp
  next
    case False
    then obtain x where x: "\<not> skip (bits ! v)" "find (hit (bits ! v)) [?lo..<Suc ?hi] = Some x" by auto
    then have "u = v" "b = x" using Cons.prems by (simp_all add: Let_def del: upt_Suc)
    then show ?thesis using find_upt_bound [OF x(2)] hi by simp
  qed
qed simp

lemma leaf_scan_first:
  assumes skip: "\<And>w b. skip w \<Longrightarrow> b < 32 \<Longrightarrow> \<not> hit w b" and lo: "unat lo < 256" and hi: "unat hi < 256"
  shows "first_in (\<lambda>k. hit (bits ! (k div 32)) (k mod 32)) (unat lo) (unat hi)
    (map_option (\<lambda>(u, b). u * 32 + b)
      (leaf_scan skip hit bits lo hi [unat (drop_bit 5 lo AND 0x7)..<Suc (unat (drop_bit 5 hi AND 0x7))]))"
proof -
  let ?f = "\<lambda>u. if skip (bits ! u) then None
    else map_option (Pair u) (find (hit (bits ! u)) [seg_lo 32 (unat lo) u..<Suc (seg_hi 32 (unat hi) u)])"
  have scan: "leaf_scan skip hit bits lo hi us = busy_loop ?f us" for us
    by (induction us) (auto simp: Let_def unat_small_digits [OF lo] unat_small_digits [OF hi] seg_lo_def seg_hi_def
      simp del: upt_Suc split: option.split)
  show ?thesis
    unfolding scan unat_small_digits [OF lo] unat_small_digits [OF hi]
  proof (rule busy_loop_first)
    fix p
    have bounds: "seg_hi 32 (unat hi) p < 32" by (rule seg_bounds) simp
    let ?P = "\<lambda>k. hit (bits ! (k div 32)) (k mod 32)"
    have "first_in ?P (p * 32 + seg_lo 32 (unat lo) p) (p * 32 + seg_hi 32 (unat hi) p)
        (map_option ((+) (p * 32)) (if skip (bits ! p) then None
           else find (hit (bits ! p)) [seg_lo 32 (unat lo) p..<Suc (seg_hi 32 (unat hi) p)]))"
    proof (rule first_in_shift)
      have P: "?P (p * 32 + r) \<longleftrightarrow> hit (bits ! p) r" if "r \<le> seg_hi 32 (unat hi) p" for r
        using that bounds by simp
      have c: "first_in (\<lambda>r. ?P (p * 32 + r)) l (seg_hi 32 (unat hi) p) x \<longleftrightarrow>
          first_in (hit (bits ! p)) l (seg_hi 32 (unat hi) p) x" for l x
        by (rule first_in_cong) (rule P)
      show "first_in (\<lambda>r. ?P (p * 32 + r)) (seg_lo 32 (unat lo) p) (seg_hi 32 (unat hi) p) (if skip (bits ! p) then None
           else find (hit (bits ! p)) [seg_lo 32 (unat lo) p..<Suc (seg_hi 32 (unat hi) p)])"
        unfolding c
        using skip [of "bits ! p"] bounds by (auto simp: none_in_def find_upt_first simp del: upt_Suc)
    qed
    moreover have "map_option (\<lambda>(u, b). u * 32 + b) (?f p) = map_option ((+) (p * 32)) (if skip (bits ! p) then None
           else find (hit (bits ! p)) [seg_lo 32 (unat lo) p..<Suc (seg_hi 32 (unat hi) p)])"
      by (simp add: option.map_comp comp_def del: upt_Suc)
    ultimately show "first_in ?P (p * 32 + seg_lo 32 (unat lo) p) (p * 32 + seg_hi 32 (unat hi) p)
        (map_option (\<lambda>(u, b). u * 32 + b) (?f p))" by (simp only:)
  qed simp
qed

lemma GetInLeaf_got:
  assumes ok: "lb_ok 0 node" and lo: "unat lo < 256" and hi: "unat hi < 256"
    and g: "lbitmap_GetInLeaf node lo hi = (ret, idx, node')"
  shows "lb_ok 0 node' \<and> unat idx < 256 \<and> got mem (unat lo) (unat hi) (lb_mem 0 node) ret (unat idx) (lb_mem 0 node')"
proof -
  obtain bits where bits: "node = LBITMAP_LEAF bits" "length bits = 8" using ok by auto
  let ?s = "leaf_scan (\<lambda>w. w = 0xffffffff) (\<lambda>w b. 0 = w AND push_bit b 1) bits lo hi
    [unat (drop_bit 5 lo AND 0x7)..<Suc (unat (drop_bit 5 hi AND 0x7))]"
  have zero: "0 = w AND push_bit b 1 \<longleftrightarrow> \<not> bit w b" for w :: UINT and b using and_push_bit [of w b] by metis
  have first: "first_in (\<lambda>k. \<not> bits_mem bits k) (unat lo) (unat hi) (map_option (\<lambda>(u, b). u * 32 + b) ?s)"
    using leaf_scan_first [of "\<lambda>w. w = 0xffffffff" "\<lambda>w b. 0 = w AND push_bit b 1" lo hi bits, OF _ lo hi]
    unfolding zero bits_mem_def by (simp add: word_full del: upt_Suc)
  show ?thesis
  proof (cases ?s)
    case None
    then have "ret = BS_NOT_FOUND" "idx = 0" "node' = node"
      using g bits(1) by (simp_all add: lbitmap_GetInLeaf_def del: upt_Suc)
    then show ?thesis using first None ok hi bits(1) by (simp add: got_def none_in_def)
  next
    case (Some ub)
    obtain u b where ub: "ub = (u, b)" by (metis surj_pair)
    have e: "ret = BS_OK" "idx = of_nat u * 32 + of_nat b" "node' = LBITMAP_LEAF (bits[u := bits ! u OR push_bit b 1])"
      using g bits(1) Some ub by (simp_all add: lbitmap_GetInLeaf_def set_bits_def del: upt_Suc)
    have "u * 32 + b \<le> unat hi" "b < 32" using first Some ub leaf_scan_Some [of _ _ bits lo hi _ u b] by (auto simp: least_in_def)
    then have u: "u < 8" "u * 32 + b < 256" "b < 32" using hi by simp_all
    have "idx = of_nat (u * 32 + b)" unfolding e by simp
    then have i: "unat idx = u * 32 + b" using unat_of_nat_small [of "u * 32 + b", where 'a = 32] u(2) by simp
    have "lb_mem 0 node' = (lb_mem 0 node)(unat idx := True)"
      using bits_mem_or [OF bits(2) u(1,3)] u(2) unfolding i e(3) bits(1) by (auto simp: fun_eq_iff)
    then show ?thesis using first Some ub e(1,3) bits u(2) i hi by (simp add: got_def least_in_def)
  qed
qed

lemma got_seq:
  "got ok lo m M ret idx M1 \<Longrightarrow> ret \<noteq> BS_OK \<Longrightarrow> got ok (Suc m) hi M1 ret' idx' M' \<Longrightarrow> lo \<le> Suc m \<Longrightarrow> got ok lo hi M ret' idx' M'"
  by (auto simp: got_def not_less_eq_eq split: if_splits)

lemma got_fail: "ret \<noteq> BS_OK \<Longrightarrow> got ok lo hi M ret idx M' \<longleftrightarrow> M' = M \<and> (ok \<longrightarrow> (\<forall>k. lo \<le> k \<longrightarrow> k \<le> hi \<longrightarrow> M k))"
  by (simp add: got_def)

lemma got_shift:
  assumes g: "got ok l r m ret i m'" and b: "r < B" and m: "\<And>x. x < B \<Longrightarrow> M (p * B + x) \<longleftrightarrow> m x"
    and m': "\<And>k. M' k \<longleftrightarrow> (if k div B = p then m' (k mod B) else M k)"
  shows "got ok (p * B + l) (p * B + r) M ret (p * B + i) M'"
proof -
  have B: "0 < B" using b by simp
  have M: "M k \<longleftrightarrow> m (k mod B)" if "k div B = p" for k using m [of "k mod B"] that B by (metis div_mult_mod_eq mod_less_divisor)
  have in_seg: "\<exists>x. k = p * B + x \<and> l \<le> x" if "p * B + l \<le> k" for k using that by (metis add_leE add_le_cancel_left le_Suc_ex)
  show ?thesis
  proof (cases "ret = BS_OK")
    case True
    then have i: "l \<le> i" "i \<le> r" "\<not> m i" "m' = m(i := True)" "ok \<longrightarrow> (\<forall>k. l \<le> k \<longrightarrow> k < i \<longrightarrow> m k)"
      using g by (simp_all add: got_def)
    have "M' = M(p * B + i := True)"
    proof
      fix k
      have "k = p * B + i \<longleftrightarrow> k div B = p \<and> k mod B = i" using i(2) b by (auto simp: mult.commute)
      then show "M' k = (M(p * B + i := True)) k" unfolding m' i(4) using M by auto
    qed
    moreover have "M k" if "ok" "p * B + l \<le> k" "k < p * B + i" for k using in_seg [OF that(2)] that m i(2,5) b by auto
    ultimately show ?thesis using True i(1-3) m [of i] b by (simp add: got_def)
  next
    case False
    then have "m' = m" "ok \<longrightarrow> (\<forall>k. l \<le> k \<longrightarrow> k \<le> r \<longrightarrow> m k)" using g by (simp_all add: got_def)
    moreover have "M' = M" unfolding m' \<open>m' = m\<close> fun_eq_iff using M by simp
    moreover have "M k" if "ok" "p * B + l \<le> k" "k \<le> p * B + r" for k using in_seg [OF that(2)] that m calculation(2) b by auto
    ultimately show ?thesis using False by (simp add: got_def)
  qed
qed

lemma set_mem_ask: "mem_ask al = (b, al') \<Longrightarrow> set al' \<subseteq> set al \<and> (\<not> b \<longrightarrow> False \<in> set al)"
  by (cases al) auto

lemma enter_None: "enter ucLevel node p al = (None, al') \<Longrightarrow> set al' \<subseteq> set al \<and> False \<in> set al"
  using set_mem_ask [of al] by (auto simp: enter_def split: option.splits prod.splits if_splits)

lemma enter_Some:
  assumes e: "enter (LBITMAP_LEVEL_LEAF - Suc h) node p al = (Some c, al')" and h: "h < 3" and ok: "lb_ok (Suc h) node" and p: "p < 256"
  shows "set al' \<subseteq> set al" "lb_ok h c" "x < span (Suc h) \<Longrightarrow> lb_mem (Suc h) node (p * span (Suc h) + x) \<longleftrightarrow> lb_mem h c x"
    "bits_mem (stBits node) p \<Longrightarrow> \<forall>k < span (Suc h). lb_mem h c k"
    "k div span (Suc h) = p \<Longrightarrow> lb_mem (Suc h) node k \<longleftrightarrow> lb_mem h c (k mod span (Suc h))"
proof -
  show "set al' \<subseteq> set al" using e set_mem_ask [of al] by (auto simp: enter_def split: option.splits prod.splits if_splits)
  have c: "apstNextLevel node p = Some c \<or> apstNextLevel node p = None \<and> c = lbitmap_AllocNode (LBITMAP_LEVEL_LEAF - Suc h + 1)"
    using e by (auto simp: enter_def split: option.splits prod.splits if_splits)
  then show "lb_ok h c" using lb_ok_child [OF ok] AllocNode_ok(1) [OF h] by blast
  show mem: "lb_mem (Suc h) node k \<longleftrightarrow> lb_mem h c (k mod span (Suc h))" if "k div span (Suc h) = p" for k
    using c AllocNode_ok(2) [OF h] that by auto
  from this [of "p * span (Suc h) + x"]
  show "x < span (Suc h) \<Longrightarrow> lb_mem (Suc h) node (p * span (Suc h) + x) \<longleftrightarrow> lb_mem h c x" by simp
  show "\<forall>k < span (Suc h). lb_mem h c k" if "bits_mem (stBits node) p" using lb_ok_full [OF ok that p] c by auto
qed

lemma stBits_set_bits [simp]: "stBits (set_bits node bits) = bits"
  by (simp add: set_bits_def split: lb_node.split)

lemma next_set_bits [simp]: "apstNextLevel (set_bits node bits) = apstNextLevel node"
  by (simp add: set_bits_def split: lb_node.split)

lemma lb_mem_set_bits: "lb_mem (Suc h) (set_bits node bits) = lb_mem (Suc h) node"
  by simp

lemma set_bits_ok:
  assumes "lb_ok (Suc h) node" "length bits = 8"
    and "\<And>p. p < 256 \<Longrightarrow> bits_mem bits p \<Longrightarrow> bits_mem (stBits node) p \<or>
      (\<exists>c. apstNextLevel node p = Some c \<and> (\<forall>k < span (Suc h). lb_mem h c k))"
  shows "lb_ok (Suc h) (set_bits node bits)"
  using assms by (fastforce simp: set_bits_def simp del: lb_mem.simps)

definition get_ok :: "nat \<Rightarrow> lb_get \<Rightarrow> bool" where
  "get_ok h get \<longleftrightarrow> (\<forall>c lo hi al ret idx c' al'. lb_ok h c \<longrightarrow> unat lo < span (Suc h) \<longrightarrow> unat hi < span (Suc h) \<longrightarrow>
     get c lo hi al = (ret, idx, c', al') \<longrightarrow>
     lb_ok h c' \<and> unat idx < span (Suc h) \<and> set al' \<subseteq> set al \<and>
     got (False \<notin> set al) (unat lo) (unat hi) (lb_mem h c) ret (unat idx) (lb_mem h c'))"

lemma GetSpec_got:
  assumes h: "h < 3" and ok: "lb_ok (Suc h) node" and p: "p < 256"
    and lo: "unat lo < span (Suc h)" and hi: "unat hi < span (Suc h)" and get: "get_ok h get"
    and g: "lbitmap_GetSpec (LBITMAP_LEVEL_LEAF - Suc h) get node p lo hi al = (ret, idx, node', al')"
  shows "lb_ok (Suc h) node' \<and> unat idx < span (Suc (Suc h)) \<and> set al' \<subseteq> set al \<and>
    got (False \<notin> set al) (p * span (Suc h) + unat lo) (p * span (Suc h) + unat hi) (lb_mem (Suc h) node) ret (unat idx)
      (lb_mem (Suc h) node')"
proof -
  let ?B = "span (Suc h)" and ?M = "lb_mem (Suc h) node"
  obtain co al1 where e: "enter (LBITMAP_LEVEL_LEAF - Suc h) node p al = (co, al1)" by (metis surj_pair)
  show ?thesis
  proof (cases co)
    case None
    then have "ret = BS_NO_RESOURCE" "idx = 0" "node' = node" "al' = al1" using g e by (auto simp: lbitmap_GetSpec_def)
    then show ?thesis using enter_None [of _ node p al al1] e None ok by (simp add: got_fail)
  next
    case (Some c)
    note c = enter_Some [OF e [unfolded Some] h ok p]
    let ?n1 = "set_next node p (Some c)"
    have n1: "lb_ok (Suc h) ?n1" using set_next_ok [OF ok p c(2)] c(4) by blast
    have m1: "lb_mem (Suc h) ?n1 = ?M" using c(5) lb_mem_set_next [of h node p c] by (simp add: fun_eq_iff)
    show ?thesis
    proof (cases "bits_mem (stBits node) p")
      case True
      then have "ret = BS_NOT_FOUND" "idx = 0" "node' = ?n1" "al' = al1"
        using g e Some p by (auto simp: lbitmap_GetSpec_def Let_def unat_of_nat_small split: prod.splits)
      moreover have "?M k" if k: "p * ?B + unat lo \<le> k" "k \<le> p * ?B + unat hi" for k
      proof -
        obtain x where x: "k = p * ?B + x" "x \<le> unat hi" using in_segment [OF k] by blast
        then show ?thesis using c(3) [of x] c(4) [OF True] hi by simp
      qed
      ultimately show ?thesis using n1 m1 c(1) by (simp add: got_fail)
    next
      case False
      obtain ret1 idx1 c' al2 where r: "get c lo hi al1 = (ret1, idx1, c', al2)" by (metis surj_pair)
      from get c(2) lo hi r have c': "lb_ok h c'" "unat idx1 < ?B" "set al2 \<subseteq> set al1"
        "got (False \<notin> set al1) (unat lo) (unat hi) (lb_mem h c) ret1 (unat idx1) (lb_mem h c')"
        unfolding get_ok_def by blast+
      let ?n2 = "set_next ?n1 p (Some c')"
      let ?n3 = "if lbitmap_IsAllSetted (stBits c') then set_bits ?n2 (lbitmap_SetBit (stBits ?n2) (of_nat p)) else ?n2"
      have n2: "lb_ok (Suc h) ?n2" using set_next_ok [OF n1 p c'(1)] False by simp
      have m2: "lb_mem (Suc h) ?n2 k \<longleftrightarrow> (if k div ?B = p then lb_mem h c' (k mod ?B) else ?M k)" for k
        unfolding lb_mem_set_next m1 ..
      have n3: "lb_ok (Suc h) ?n3"
      proof (cases "lbitmap_IsAllSetted (stBits c')")
        case True
        then have full: "\<forall>k < ?B. lb_mem h c' k" using lb_mem_full [OF c'(1)] by blast
        have "lb_ok (Suc h) (set_bits ?n2 (lbitmap_SetBit (stBits ?n2) (of_nat p)))"
        proof (rule set_bits_ok [OF n2])
          fix q assume "q < 256" "bits_mem (lbitmap_SetBit (stBits ?n2) (of_nat p)) q"
          then have "q = p \<or> bits_mem (stBits ?n2) q"
            using bits_mem_SetBit [of "stBits node" q "of_nat p"] lb_ok_length [OF ok] p by (simp add: unat_of_nat_small)
          then show "bits_mem (stBits ?n2) q \<or> (\<exists>c. apstNextLevel ?n2 q = Some c \<and> (\<forall>k < ?B. lb_mem h c k))"
            using full by auto
        qed (simp add: lb_ok_length [OF ok])
        then show ?thesis using True by (simp only: if_True)
      qed (simp only: n2 if_False)
      have m3: "lb_mem (Suc h) ?n3 = lb_mem (Suc h) ?n2" using lb_mem_set_bits by simp
      have shift: "got (False \<notin> set al1) (p * ?B + unat lo) (p * ?B + unat hi) ?M ret1 (p * ?B + unat idx1) (lb_mem (Suc h) ?n2)"
        using got_shift [OF c'(4) hi c(3) m2] .
      have weaken: "got (False \<notin> set al) l r M st i M'" if "got (False \<notin> set al1) l r M st i M'" for l r M st i M'
        using that c(1) by (auto simp: got_def)
      have desc: "lbitmap_GetLevelDesc (LBITMAP_LEVEL_LEAF - Suc h) = (8 * Suc h, mask (8 * Suc h))" by (rule GetLevelDesc [OF h])
      show ?thesis
      proof (cases "ret1 = BS_OK")
        case True
        have "ret = BS_OK" "idx = idx1 OR push_bit (8 * Suc h) (of_nat p)" "node' = ?n3" "al' = al2"
          using g e Some False r True desc p by (auto simp: lbitmap_GetSpec_def Let_def unat_of_nat_small)
        moreover have "unat (idx1 OR push_bit (8 * Suc h) (of_nat p)) = p * ?B + unat idx1"
          using join_index [of idx1 "8 * Suc h" p] c'(2) p h by (simp add: span_def)
        moreover have "p * ?B + unat idx1 < span (Suc (Suc h))"
        proof -
          have "p * ?B + unat idx1 < Suc p * ?B" using c'(2) by simp
          also have "\<dots> \<le> 256 * ?B" using p by (intro mult_le_mono1) simp
          finally show ?thesis by (simp add: span_Suc [of "Suc h"])
        qed
        moreover have "got (False \<notin> set al) (p * ?B + unat lo) (p * ?B + unat hi) ?M BS_OK (p * ?B + unat idx1) (lb_mem (Suc h) ?n3)"
          using weaken [OF shift] unfolding m3 True .
        ultimately show ?thesis using n3 c(1) c'(3) by (simp del: lb_ok.simps lb_mem.simps)
      next
        case fail: False
        have "ret = ret1" "idx = 0" "node' = ?n2" "al' = al2"
          using g e Some False r fail desc p by (auto simp: lbitmap_GetSpec_def Let_def unat_of_nat_small)
        moreover have "got (False \<notin> set al) (p * ?B + unat lo) (p * ?B + unat hi) ?M ret1 (unat (0 :: UINT)) (lb_mem (Suc h) ?n2)"
          using weaken [OF shift] unfolding got_fail [OF fail] .
        ultimately show ?thesis using n2 c(1) c'(3) by (simp del: lb_ok.simps lb_mem.simps)
      qed
    qed
  qed
qed

lemma level_loop_got:
  assumes B: "0 < B" and p: "lo div B \<le> p" "p \<le> Suc (hi div B)"
    and spec: "\<And>node p al ret idx node' al'. Q node \<Longrightarrow> lo div B \<le> p \<Longrightarrow> p \<le> hi div B \<Longrightarrow> spec node p al = (ret, idx, node', al') \<Longrightarrow>
      Q node' \<and> unat idx < N \<and> set al' \<subseteq> set al \<and>
      got (False \<notin> set al) (p * B + seg_lo B lo p) (p * B + seg_hi B hi p) (mem node) ret (unat idx) (mem node')"
    and "0 < N" "Q node" "level_loop spec node [p..<Suc (hi div B)] al = (ret, idx, node', al')"
  shows "Q node' \<and> unat idx < N \<and> set al' \<subseteq> set al \<and>
    got (False \<notin> set al) (p * B + seg_lo B lo p) hi (mem node) ret (unat idx) (mem node')"
  using p assms(5-)
proof (induction "Suc (hi div B) - p" arbitrary: p node al)
  case 0
  then have "p = Suc (hi div B)" by simp
  then have "ret = BS_ERR" "idx = 0" "node' = node" "al' = al" using 0(6) by simp_all
  then show ?case using 0 seg_past [OF B, of hi lo] \<open>p = Suc (hi div B)\<close> by (simp add: got_fail)
next
  case (Suc n)
  then have p: "p \<le> hi div B" by simp
  have up: "[p..<Suc (hi div B)] = p # [Suc p..<Suc (hi div B)]" using p by (simp add: upt_conv_Cons)
  obtain ret1 idx1 node1 al1 where s: "spec node p al = (ret1, idx1, node1, al1)" by (metis surj_pair)
  note s1 = spec [OF Suc.prems(4) Suc.prems(1) p s]
  show ?case
  proof (cases "ret1 = BS_OK")
    case True
    then have "ret = BS_OK" "idx = idx1" "node' = node1" "al' = al1"
      using Suc.prems(5) s unfolding up by simp_all
    then show ?thesis using s1 True seg_top [OF B p] by (auto simp: got_def)
  next
    case False
    then have rest: "level_loop spec node1 [Suc p..<Suc (hi div B)] al1 = (ret, idx, node', al')"
      using Suc.prems(5) s unfolding up by (simp del: upt_Suc)
    have IH: "Q node' \<and> unat idx < N \<and> set al' \<subseteq> set al1 \<and>
        got (False \<notin> set al1) (Suc p * B + seg_lo B lo (Suc p)) hi (mem node1) ret (unat idx) (mem node')"
      by (rule Suc.hyps(1)) (use Suc.hyps(2) Suc.prems p s1 rest in auto)
    then have IH': "got (False \<notin> set al) (Suc p * B + seg_lo B lo (Suc p)) hi (mem node1) ret (unat idx) (mem node')"
      using s1 by (auto simp: got_def)
    have "got (False \<notin> set al) (p * B + seg_lo B lo p) hi (mem node) ret (unat idx) (mem node')"
    proof (cases "p = hi div B")
      case True
      then show ?thesis using rest s1 False seg_last [of hi B] by (auto simp: got_def)
    next
      case last: False
      then have e: "Suc (p * B + seg_hi B hi p) = Suc p * B + seg_lo B lo (Suc p)" using seg_next [OF B _ Suc.prems(1)] p by simp
      show ?thesis
        by (rule got_seq [OF _ False IH' [folded e]]) (use s1 seg_bounds(1) [OF B, of lo p] e in auto)
    qed
    then show ?thesis using IH s1 by blast
  qed
qed

lemma index_digit:
  assumes "unat x < span (Suc (Suc h))"
  shows "unat x div span (Suc h) < 256"
    and "unat (drop_bit (8 * Suc h) x AND 0xff :: UINT) = unat x div span (Suc h)"
    and "unat (ucast (drop_bit (8 * Suc h) x :: UINT) :: UCHAR) = unat x div span (Suc h)"
proof -
  show d: "unat x div span (Suc h) < 256" using assms by (simp add: span_Suc [of "Suc h"] less_mult_imp_div_less)
  then show "unat (drop_bit (8 * Suc h) x AND 0xff :: UINT) = unat x div span (Suc h)"
    unfolding unat_digit by (simp add: span_def)
  show "unat (ucast (drop_bit (8 * Suc h) x :: UINT) :: UCHAR) = unat x div span (Suc h)"
    using d unfolding unat_uchar by (simp add: span_def)
qed

lemma index_low: "unat (x AND mask (8 * Suc h) :: UINT) = unat x mod span (Suc h)"
  unfolding unat_low_bits span_def ..

lemma index_mask: "h < 3 \<Longrightarrow> unat (mask (8 * Suc h) :: UINT) = span (Suc h) - 1"
  by (auto simp: span_def mask_eq_exp_minus_1 less_Suc_eq numeral_3_eq_3)

lemma index_mod: "unat x mod span (Suc h) mod 256 = unat x mod 256"
  by (simp add: mod_mod_cancel span_Suc)

lemma lbitmap_Get_ok: "h \<le> 3 \<Longrightarrow> get_ok h (lbitmap_Get h)"
proof (induction h)
  case 0
  show ?case
    unfolding get_ok_def
  proof (intro allI impI)
    fix c lo hi al ret idx c' al'
    assume a: "lb_ok 0 c" "unat lo < span (Suc 0)" "unat hi < span (Suc 0)" "lbitmap_Get 0 c lo hi al = (ret, idx, c', al')"
    obtain ret1 idx1 c1 where g: "lbitmap_GetInLeaf c lo hi = (ret1, idx1, c1)" by (metis surj_pair)
    then have "ret = ret1" "idx = idx1" "c' = c1" "al' = al" using a(4) by simp_all
    then show "lb_ok 0 c' \<and> unat idx < span (Suc 0) \<and> set al' \<subseteq> set al \<and>
        got (False \<notin> set al) (unat lo) (unat hi) (lb_mem 0 c) ret (unat idx) (lb_mem 0 c')"
      using GetInLeaf_got [OF a(1) _ _ g] a(2,3) by simp
  qed
next
  case (Suc h)
  then have h: "h < 3" and IH: "get_ok h (lbitmap_Get h)" by simp_all
  let ?B = "span (Suc h)"
  note desc = GetLevelDesc [OF h]
  show ?case
    unfolding get_ok_def
  proof (intro allI impI)
    fix c lo hi al ret idx c' al'
    assume a: "lb_ok (Suc h) c" "unat lo < span (Suc (Suc h))" "unat hi < span (Suc (Suc h))"
      "lbitmap_Get (Suc h) c lo hi al = (ret, idx, c', al')"
    let ?spec = "\<lambda>node p al. lbitmap_GetSpec (LBITMAP_LEVEL_LEAF - Suc h) (lbitmap_Get h) node p
      (if p = unat lo div ?B then lo AND mask (8 * Suc h) else 0)
      (if p = unat hi div ?B then hi AND mask (8 * Suc h) else mask (8 * Suc h)) al"
    have loop: "level_loop ?spec c [unat lo div ?B..<Suc (unat hi div ?B)] al = (ret, idx, c', al')"
      using a(4) desc index_digit(2) [OF a(2)] index_digit(2) [OF a(3)] by (simp add: lbitmap_GetInLevel_def Let_def del: upt_Suc mult_Suc_right)
    have "lb_ok (Suc h) c' \<and> unat idx < span (Suc (Suc h)) \<and> set al' \<subseteq> set al \<and>
        got (False \<notin> set al) ((unat lo div ?B) * ?B + seg_lo ?B (unat lo) (unat lo div ?B)) (unat hi) (lb_mem (Suc h) c) ret
          (unat idx) (lb_mem (Suc h) c')"
      if le: "unat lo div ?B \<le> Suc (unat hi div ?B)"
    proof (rule level_loop_got [where Q = "lb_ok (Suc h)" and mem = "lb_mem (Suc h)" and spec = ?spec, OF _ _ le _ _ a(1) loop])
      fix node p al ret idx node' al'
      assume b: "lb_ok (Suc h) node" "unat lo div ?B \<le> p" "p \<le> unat hi div ?B" "?spec node p al = (ret, idx, node', al')"
      have p: "p < 256" using b(3) index_digit(1) [OF a(3)] by simp
      have lo': "unat (if p = unat lo div ?B then lo AND mask (8 * Suc h) else 0) = seg_lo ?B (unat lo) p"
        and hi': "unat (if p = unat hi div ?B then hi AND mask (8 * Suc h) else mask (8 * Suc h)) = seg_hi ?B (unat hi) p"
        using index_low index_mask [OF h] by (simp_all add: seg_lo_def seg_hi_def del: mult_Suc_right)
      show "lb_ok (Suc h) node' \<and> unat idx < span (Suc (Suc h)) \<and> set al' \<subseteq> set al \<and>
          got (False \<notin> set al) (p * ?B + seg_lo ?B (unat lo) p) (p * ?B + seg_hi ?B (unat hi) p) (lb_mem (Suc h) node) ret
            (unat idx) (lb_mem (Suc h) node')"
        using GetSpec_got [OF h b(1) p _ _ IH b(4)] unfolding lo' hi' by (simp only: seg_bounds span_pos simp_thms)
    qed simp_all
    moreover have "lb_ok (Suc h) c' \<and> unat idx < span (Suc (Suc h)) \<and> set al' \<subseteq> set al \<and>
        got (False \<notin> set al) (unat lo) (unat hi) (lb_mem (Suc h) c) ret (unat idx) (lb_mem (Suc h) c')"
      if le: "\<not> unat lo div ?B \<le> Suc (unat hi div ?B)"
    proof -
      have "\<not> unat lo \<le> unat hi" using le div_le_mono [of "unat lo" "unat hi" ?B] by linarith
      moreover have "ret = BS_ERR" "idx = 0" "c' = c" "al' = al" using loop le by auto
      ultimately show ?thesis using a(1) by (simp add: got_fail)
    qed
    ultimately show "lb_ok (Suc h) c' \<and> unat idx < span (Suc (Suc h)) \<and> set al' \<subseteq> set al \<and>
        got (False \<notin> set al) (unat lo) (unat hi) (lb_mem (Suc h) c) ret (unat idx) (lb_mem (Suc h) c')"
      unfolding seg_first by blast
  qed
qed

lemma GetIndexLeaf_mem:
  "h \<le> 3 \<Longrightarrow> lb_ok h node \<Longrightarrow> unat k < span (Suc h) \<Longrightarrow>
    (case lbitmap_GetIndexLeaf h node k of None \<Rightarrow> False | Some leaf \<Rightarrow> bits_mem (stBits leaf) (unat k mod 256)) \<longleftrightarrow>
    lb_mem h node (unat k)"
proof (induction h arbitrary: node k)
  case (Suc h)
  then have h: "h < 3" by simp
  have "unat (k AND mask (8 * Suc h)) < span (Suc h)" unfolding index_low by simp
  then have IH: "(case lbitmap_GetIndexLeaf h c (k AND mask (8 * Suc h)) of None \<Rightarrow> False
      | Some leaf \<Rightarrow> bits_mem (stBits leaf) (unat k mod 256)) \<longleftrightarrow> lb_mem h c (unat k mod span (Suc h))"
    if "apstNextLevel node (unat k div span (Suc h)) = Some c" for c
    using Suc.IH [of c "k AND mask (8 * Suc h)"] lb_ok_child [OF Suc.prems(2) that] h unfolding index_low index_mod by simp
  show ?case
    using GetLevelDesc [OF h] index_digit(2) [OF Suc.prems(3)] IH
    by (cases "apstNextLevel node (unat k div span (Suc h))") (simp_all add: Let_def del: mult_Suc_right)
qed simp

lemma SetIndexBit_ok:
  "h \<le> 3 \<Longrightarrow> lb_ok h node \<Longrightarrow> unat k < span (Suc h) \<Longrightarrow> lbitmap_SetIndexBit h node k al = (ret, node', al') \<Longrightarrow>
    lb_ok h node' \<and> set al' \<subseteq> set al \<and>
    (ret = BS_OK \<and> lb_mem h node' = (lb_mem h node)(unat k := True) \<or>
     ret = BS_NO_MEMORY \<and> lb_mem h node' = lb_mem h node \<and> False \<in> set al)"
proof (induction h arbitrary: node k al node' ret al')
  case 0
  then obtain bits where bits: "node = LBITMAP_LEAF bits" "length bits = 8" by auto
  have e: "ret = BS_OK" "node' = LBITMAP_LEAF (lbitmap_SetBit bits (ucast (k AND 0xff)))" "al' = al"
    using 0(4) bits(1) by (simp_all add: set_bits_def)
  have k: "unat k < 256" using 0(3) by simp
  have "lb_mem 0 node' = (lb_mem 0 node)(unat k := True)"
    using bits_mem_SetBit [OF bits(2)] k unfolding e bits(1) by (auto simp: fun_eq_iff unat_small_digits [OF k])
  then show ?case using e bits by simp
next
  case (Suc h)
  then have h: "h < 3" by simp
  let ?B = "span (Suc h)" and ?p = "unat k div span (Suc h)"
  note p = index_digit [OF Suc.prems(3)] and ok = Suc.prems(2)
  obtain co al1 where e: "enter (LBITMAP_LEVEL_LEAF - Suc h) node ?p al = (co, al1)" by (metis surj_pair)
  show ?case
  proof (cases co)
    case None
    then have "ret = BS_NO_MEMORY" "node' = node" "al' = al1"
      using Suc.prems(4) e p(2) GetLevelDesc [OF h] by (auto simp: Let_def simp del: mult_Suc_right)
    then show ?thesis using enter_None [of _ node ?p al al1] e None ok by simp
  next
    case (Some c)
    note c = enter_Some [OF e [unfolded Some] h ok p(1)]
    obtain ret1 c' al2 where r: "lbitmap_SetIndexBit h c (k AND mask (8 * Suc h)) al1 = (ret1, c', al2)" by (metis surj_pair)
    have n: "ret = ret1" "node' = set_next node ?p (Some c')" "al' = al2"
      using Suc.prems(4) e Some r p(2) GetLevelDesc [OF h] by (auto simp: Let_def simp del: mult_Suc_right)
    have low: "unat (k AND mask (8 * Suc h)) < ?B" unfolding index_low by simp
    have IH: "lb_ok h c' \<and> set al2 \<subseteq> set al1 \<and>
        (ret1 = BS_OK \<and> lb_mem h c' = (lb_mem h c)(unat k mod ?B := True) \<or>
         ret1 = BS_NO_MEMORY \<and> lb_mem h c' = lb_mem h c \<and> False \<in> set al1)"
      using Suc.IH [OF less_imp_le [OF h] c(2) low r] unfolding index_low .
    have ok': "lb_ok (Suc h) node'"
      unfolding n(2) by (rule set_next_ok [OF ok p(1)]) (use IH c(4) in auto)
    have mem: "lb_mem (Suc h) node' x \<longleftrightarrow> (if x div ?B = ?p then lb_mem h c' (x mod ?B) else lb_mem (Suc h) node x)" for x
      unfolding n(2) lb_mem_set_next ..
    have at_k: "x = unat k \<longleftrightarrow> x div ?B = ?p \<and> x mod ?B = unat k mod ?B" for x by (metis div_mult_mod_eq)
    have "lb_mem (Suc h) node' = (lb_mem (Suc h) node)(unat k := True)" if "lb_mem h c' = (lb_mem h c)(unat k mod ?B := True)"
      unfolding fun_eq_iff mem that using at_k c(5) by (simp del: lb_mem.simps)
    moreover have "lb_mem (Suc h) node' = lb_mem (Suc h) node" if "lb_mem h c' = lb_mem h c"
      unfolding fun_eq_iff mem that using c(5) by (simp del: lb_mem.simps)
    ultimately have "ret1 = BS_OK \<and> lb_mem (Suc h) node' = (lb_mem (Suc h) node)(unat k := True) \<or>
        ret1 = BS_NO_MEMORY \<and> lb_mem (Suc h) node' = lb_mem (Suc h) node \<and> False \<in> set al1"
      using IH by blast
    moreover have "set al' \<subseteq> set al" "False \<in> set al1 \<Longrightarrow> False \<in> set al" using IH c(1) n(3) by blast+
    ultimately show ?thesis using ok' n(1) by blast
  qed
qed

lemma ClearBit_ok:
  "h \<le> 3 \<Longrightarrow> lb_ok h node \<Longrightarrow> unat k < span (Suc h) \<Longrightarrow> lbitmap_ClearBit h node k = (e, node') \<Longrightarrow>
    lb_ok h node' \<and> lb_mem h node' = (lb_mem h node)(unat k := False) \<and> (e \<longrightarrow> lb_mem h node' = (\<lambda>_. False))"
proof (induction h arbitrary: node k e node')
  case 0
  then obtain bits where bits: "node = LBITMAP_LEAF bits" "length bits = 8" by auto
  let ?b = "lbitmap_ClrBit bits (ucast (k AND 0xff))"
  have e: "node' = LBITMAP_LEAF ?b" "e = lbitmap_IsAllCleared ?b"
    using 0(4) bits(1) by (simp_all add: set_bits_def Let_def)
  have k: "unat k < 256" using 0(3) by simp
  have "lb_mem 0 node' = (lb_mem 0 node)(unat k := False)"
    using bits_mem_ClrBit [OF bits(2)] k unfolding e bits(1) by (auto simp: fun_eq_iff unat_small_digits [OF k])
  moreover have "e \<longrightarrow> lb_mem 0 node' = (\<lambda>_. False)" unfolding e lbitmap_IsAllCleared by auto
  ultimately show ?case using e(1) bits by simp
next
  case (Suc h)
  then have h: "h < 3" by simp
  let ?B = "span (Suc h)" and ?p = "unat k div span (Suc h)"
  note p = index_digit [OF Suc.prems(3)] and ok = Suc.prems(2)
  let ?n1 = "set_bits node (lbitmap_ClrBit (stBits node) (of_nat ?p))"
  have len: "length (stBits node) = 8" by (rule lb_ok_length [OF ok])
  have bit1: "bits_mem (stBits ?n1) q \<longleftrightarrow> q \<noteq> ?p \<and> bits_mem (stBits node) q" if "q < 256" for q
    using bits_mem_ClrBit [OF len that] p(1) by (simp add: unat_of_nat_small)
  have n1: "lb_ok (Suc h) ?n1" by (rule set_bits_ok [OF ok]) (use bit1 len in auto)
  have same: "lb_mem (Suc h) ?n1 = lb_mem (Suc h) node" by (rule lb_mem_set_bits)
  have at_k: "x = unat k \<longleftrightarrow> x div ?B = ?p \<and> x mod ?B = unat k mod ?B" for x by (metis div_mult_mod_eq)
  show ?case
  proof (cases "apstNextLevel node ?p")
    case None
    then have n: "node' = ?n1" "\<not> e"
      using Suc.prems(4) p(2) GetLevelDesc [OF h] by (auto simp: Let_def simp del: mult_Suc_right)
    have "\<not> lb_mem (Suc h) node (unat k)" using None by simp
    then show ?thesis using n n1 unfolding n(1) same by (auto simp: fun_eq_iff simp del: lb_ok.simps lb_mem.simps)
  next
    case (Some c)
    obtain e1 c' where r: "lbitmap_ClearBit h c (k AND mask (8 * Suc h)) = (e1, c')" by (metis surj_pair)
    have low: "unat (k AND mask (8 * Suc h)) < ?B" unfolding index_low by simp
    have c: "lb_ok h c" using lb_ok_child [OF ok Some] ..
    have IH: "lb_ok h c'" "lb_mem h c' = (lb_mem h c)(unat k mod ?B := False)" "e1 \<Longrightarrow> lb_mem h c' = (\<lambda>_. False)"
      using Suc.IH [OF less_imp_le [OF h] c low r] unfolding index_low by blast+
    have mem: "(if x div ?B = ?p then lb_mem h c' (x mod ?B) else lb_mem (Suc h) node x) \<longleftrightarrow>
        ((lb_mem (Suc h) node)(unat k := False)) x" for x
      using at_k Some IH(2) by auto
    show ?thesis
    proof (cases e1)
      case True
      let ?n2 = "set_next ?n1 ?p None"
      have n: "node' = ?n2" "e = lbitmap_IsLevelEmpty ?n2"
        using Suc.prems(4) r True Some p(2) GetLevelDesc [OF h] by (auto simp: Let_def simp del: mult_Suc_right)
      have "lb_ok (Suc h) ?n2" by (rule clear_next_ok [OF n1]) (use bit1 in blast)
      moreover have "lb_mem (Suc h) ?n2 = (lb_mem (Suc h) node)(unat k := False)"
      proof
        fix x
        have "lb_mem (Suc h) ?n2 x \<longleftrightarrow> x div ?B \<noteq> ?p \<and> lb_mem (Suc h) node x" by simp
        then show "lb_mem (Suc h) ?n2 x = ((lb_mem (Suc h) node)(unat k := False)) x"
          using mem [of x] unfolding IH(3) [OF True] by argo
      qed
      moreover have "e \<longrightarrow> lb_mem (Suc h) ?n2 = (\<lambda>_. False)"
      proof
        assume e
        then have "\<forall>q<256. apstNextLevel ?n2 q = None" unfolding n(2) lbitmap_IsLevelEmpty_def list_all_iff lbitmap_levels by simp
        moreover have "apstNextLevel ?n2 q = None" if "\<not> q < 256" for q using lb_ok_child [OF \<open>lb_ok (Suc h) ?n2\<close>] that by (meson option.exhaust)
        ultimately have "apstNextLevel ?n2 q = None" for q by blast
        then show "lb_mem (Suc h) ?n2 = (\<lambda>_. False)" unfolding lb_mem.simps by (simp only: option.case)
      qed
      ultimately show ?thesis using n(1) by blast
    next
      case False
      have n: "node' = set_next ?n1 ?p (Some c')" "\<not> e"
        using Suc.prems(4) r False Some p(2) GetLevelDesc [OF h] by (auto simp: Let_def simp del: mult_Suc_right)
      have "lb_ok (Suc h) node'" unfolding n(1) by (rule set_next_ok [OF n1 p(1) IH(1)]) (use bit1 [OF p(1)] in simp)
      moreover have "lb_mem (Suc h) node' = (lb_mem (Suc h) node)(unat k := False)"
        unfolding n(1) fun_eq_iff lb_mem_set_next same mem by (rule allI, rule refl)
      ultimately show ?thesis using n(2) by blast
    qed
  qed
qed

text \<open>The busy bits that the search can see: below the last child of a node only the very last number.\<close>

primrec lb_seen :: "nat \<Rightarrow> nat \<Rightarrow> bool" where
  "lb_seen 0 k \<longleftrightarrow> True"
| "lb_seen (Suc h) k \<longleftrightarrow> (k div span (Suc h) = 255 \<longrightarrow> k mod span (Suc h) = span (Suc h) - 1) \<and> lb_seen h (k mod span (Suc h))"

lemma GetBusyInLeaf_first:
  assumes ok: "lb_ok 0 node" and lo: "unat lo < 256" and hi: "unat hi < 256"
  shows "first_in (lb_mem 0 node) (unat lo) (unat hi) (map_option unat (lbitmap_GetBusyInLeaf node lo hi))"
proof -
  obtain bits where bits: "node = LBITMAP_LEAF bits" "length bits = 8" using ok by auto
  let ?s = "leaf_scan (\<lambda>w. w = 0) (\<lambda>w b. w AND push_bit b 1 \<noteq> 0) bits lo hi
    [unat (drop_bit 5 lo AND 0x7)..<Suc (unat (drop_bit 5 hi AND 0x7))]"
  have "first_in (\<lambda>k. bits_mem bits k) (unat lo) (unat hi) (map_option (\<lambda>(u, b). u * 32 + b) ?s)"
    using leaf_scan_first [of "\<lambda>w. w = 0" "\<lambda>w b. w AND push_bit b 1 \<noteq> 0" lo hi bits, OF _ lo hi]
    unfolding and_push_bit bits_mem_def by (simp add: word_empty del: upt_Suc)
  then have first: "first_in (lb_mem 0 node) (unat lo) (unat hi) (map_option (\<lambda>(u, b). u * 32 + b) ?s)"
    using first_in_cong [of "unat lo" "unat hi" "\<lambda>k. bits_mem bits k" "lb_mem 0 node"] hi bits(1) by simp
  show ?thesis
  proof (cases ?s)
    case None
    then show ?thesis using first bits(1) by (simp add: lbitmap_GetBusyInLeaf_def del: upt_Suc lb_mem.simps)
  next
    case (Some ub)
    obtain u b where ub: "ub = (u, b)" by (metis surj_pair)
    have "u * 32 + b < 256" using first Some ub hi by (simp add: least_in_def)
    then have "unat (of_nat u * 32 + of_nat b :: UINT) = u * 32 + b"
      using unat_of_nat_small [of "u * 32 + b", where 'a = 32] by simp
    then show ?thesis using first Some ub bits(1) by (simp add: lbitmap_GetBusyInLeaf_def del: upt_Suc lb_mem.simps)
  qed
qed

lemma GetBusyBit_first:
  "h \<le> 3 \<Longrightarrow> lb_ok h node \<Longrightarrow> unat lo < span (Suc h) \<Longrightarrow> unat hi = span (Suc h) - 1 \<Longrightarrow>
    first_in (\<lambda>k. lb_mem h node k \<and> lb_seen h k) (unat lo) (span (Suc h) - 1) (map_option unat (lbitmap_GetBusyBit h node lo hi))"
proof (induction h arbitrary: node lo hi)
  case 0
  then show ?case using GetBusyInLeaf_first [of node lo hi] by simp
next
  case (Suc h)
  then have h: "h < 3" by simp
  let ?B = "span (Suc h)"
  let ?P = "\<lambda>k. lb_mem (Suc h) node k \<and> lb_seen (Suc h) k"
  have B: "0 < ?B" by simp
  have hi: "unat hi < span (Suc (Suc h))" using Suc.prems(4) by (simp add: span_Suc [of "Suc h"])
  have stop: "unat hi div ?B = 255" "unat hi mod ?B = ?B - 1"
  proof -
    have e: "unat hi = 255 * ?B + (?B - 1)" using Suc.prems(4) B unfolding span_Suc [of "Suc h"] by simp
    show "unat hi div ?B = 255" "unat hi mod ?B = ?B - 1" unfolding e using B by simp_all
  qed
  let ?f = "\<lambda>p. case apstNextLevel node p of None \<Rightarrow> None
    | Some c \<Rightarrow> map_option (\<lambda>idx. idx OR push_bit (8 * Suc h) (of_nat p))
        (lbitmap_GetBusyBit h c
          (if p = 255 then hi AND mask (8 * Suc h) else if p = unat lo div ?B then lo AND mask (8 * Suc h) else 0)
          (mask (8 * Suc h)))"
  have run: "lbitmap_GetBusyBit (Suc h) node lo hi = busy_loop ?f [unat lo div ?B..<Suc (unat hi div ?B)]"
    unfolding lbitmap_GetBusyBit.simps GetLevelDesc [OF h] Let_def prod.case index_digit(3) [OF Suc.prems(3)] index_digit(3) [OF hi] stop(1) ..
  have "first_in ?P (unat lo) (unat hi) (map_option unat (busy_loop ?f [unat lo div ?B..<Suc (unat hi div ?B)]))"
  proof (rule busy_loop_first [OF B])
    fix p assume p: "unat lo div ?B \<le> p" "p \<le> unat hi div ?B"
    have seg_hi: "seg_hi ?B (unat hi) p = ?B - 1" using stop(2) by (simp add: seg_hi_def)
    show "first_in ?P (p * ?B + seg_lo ?B (unat lo) p) (p * ?B + seg_hi ?B (unat hi) p) (map_option unat (?f p))"
    proof (cases "apstNextLevel node p")
      case None
      have "\<not> lb_mem (Suc h) node k" if "p * ?B + seg_lo ?B (unat lo) p \<le> k" "k \<le> p * ?B + seg_hi ?B (unat hi) p" for k
        using in_segment [OF that] seg_bounds(2) [OF B, of "unat hi" p] lb_mem_child [of _ h node p] None by auto
      then show ?thesis using None by (simp add: none_in_def del: lb_mem.simps)
    next
      case (Some c)
      let ?lo = "if p = 255 then hi AND mask (8 * Suc h) else if p = unat lo div ?B then lo AND mask (8 * Suc h) else 0"
      have lo': "unat ?lo = (if p = 255 then ?B - 1 else seg_lo ?B (unat lo) p)"
        using index_low [of hi h] index_low [of lo h] stop(2) by (simp add: seg_lo_def del: mult_Suc_right)
      have "unat ?lo < ?B" unfolding lo' using seg_bounds(1) [OF B] B by simp
      then have IH: "first_in (\<lambda>k. lb_mem h c k \<and> lb_seen h k) (unat ?lo) (?B - 1) (map_option unat (lbitmap_GetBusyBit h c ?lo (mask (8 * Suc h))))"
        using Suc.IH [of c ?lo "mask (8 * Suc h)"] lb_ok_child [OF Suc.prems(2) Some] index_mask [OF h] h by simp
      have P: "?P (p * ?B + r) \<longleftrightarrow> (p = 255 \<longrightarrow> r = ?B - 1) \<and> lb_mem h c r \<and> lb_seen h r" if "r < ?B" for r
        using that lb_mem_child [OF that, of node p] Some by (auto simp del: lb_mem.simps)
      have "first_in (\<lambda>r. ?P (p * ?B + r)) (seg_lo ?B (unat lo) p) (?B - 1) (map_option unat (lbitmap_GetBusyBit h c ?lo (mask (8 * Suc h))))"
      proof (cases "p = 255")
        case True
        have cong: "first_in (\<lambda>r. ?P (p * ?B + r)) (?B - 1) (?B - 1) x \<longleftrightarrow> first_in (\<lambda>r. lb_mem h c r \<and> lb_seen h r) (?B - 1) (?B - 1) x" for x
        proof (rule first_in_cong)
          fix r assume "?B - 1 \<le> r" "r \<le> ?B - 1"
          then have "r < ?B" "r = ?B - 1" using B by linarith+
          then show "?P (p * ?B + r) \<longleftrightarrow> lb_mem h c r \<and> lb_seen h r" using P [of r] by blast
        qed
        have low: "seg_lo ?B (unat lo) p \<le> ?B - 1" using seg_bounds(1) [OF B, of "unat lo" p] by simp
        have none: "\<not> ?P (p * ?B + r)" if "r < ?B - 1" for r using P [of r] that True by simp
        have "first_in (\<lambda>r. ?P (p * ?B + r)) (?B - 1) (?B - 1) (map_option unat (lbitmap_GetBusyBit h c ?lo (mask (8 * Suc h))))"
          using IH unfolding cong lo' by (simp only: True if_True simp_thms)
        then show ?thesis by (rule first_in_widen [OF _ low]) (use none in blast)
      next
        case False
        have "first_in (\<lambda>r. ?P (p * ?B + r)) l (?B - 1) x \<longleftrightarrow> first_in (\<lambda>r. lb_mem h c r \<and> lb_seen h r) l (?B - 1) x" for l x
        proof (rule first_in_cong)
          fix r assume "r \<le> ?B - 1"
          then have "r < ?B" using B by linarith
          then show "?P (p * ?B + r) \<longleftrightarrow> lb_mem h c r \<and> lb_seen h r" using P [of r] False by blast
        qed
        then show ?thesis using IH unfolding lo' by (simp only: False if_False)
      qed
      from first_in_shift [OF this]
      have "first_in ?P (p * ?B + seg_lo ?B (unat lo) p) (p * ?B + (?B - 1))
          (map_option ((+) (p * ?B)) (map_option unat (lbitmap_GetBusyBit h c ?lo (mask (8 * Suc h)))))" .
      moreover have "map_option unat (?f p) = map_option ((+) (p * ?B)) (map_option unat (lbitmap_GetBusyBit h c ?lo (mask (8 * Suc h))))"
      proof (cases "lbitmap_GetBusyBit h c ?lo (mask (8 * Suc h))")
        case found: (Some i)
        then have "unat i \<le> ?B - 1" using IH unfolding found by (simp add: least_in_def)
        then have "unat i < ?B" using B by linarith
        moreover have "p < 256" using p(2) stop(1) by simp
        ultimately show ?thesis
          using Some found join_index [of i "8 * Suc h" p] h by (simp add: span_def del: mult_Suc_right)
      qed (simp add: Some)
      ultimately show ?thesis unfolding seg_hi by (simp only:)
    qed
  qed
  then show ?case unfolding run using Suc.prems(4) by simp
qed

section \<open>The bitmap as a set\<close>

definition lb_inv :: "lb_node \<Rightarrow> bool" where
  [inv_defs]: "lb_inv level1 \<longleftrightarrow> lb_ok 3 level1"

definition lb_set :: "lb_node \<Rightarrow> UINT set" where
  "lb_set level1 = {k. lb_mem 3 level1 (unat k)}"

lemma lb_height: "LBITMAP_LEVEL_LEAF - LBITMAP_LEVEL_1 = 3"
  by (simp add: lbitmap_levels)

lemma span_4: "unat (k :: UINT) < span (Suc 3)"
  using unat_lt2p [of k] by (simp add: span_def)

lemma lb_set_upd: "lb_mem 3 node' = (lb_mem 3 node)(unat k := b) \<Longrightarrow>
    lb_set node' = (if b then insert k (lb_set node) else lb_set node - {k})"
  by (auto simp: lb_set_def simp del: lb_mem.simps dest: word_unat_eq_iff [THEN iffD2])

lemma Create_inv: "LBitMap_Create alloc = Some node \<Longrightarrow> lb_inv node \<and> lb_set node = {}"
  by (auto simp: LBitMap_Create_def lb_inv_def lb_set_def lbitmap_levels numeral_3_eq_3 split: if_splits)

lemma Alloc_laws:
  assumes "lb_inv node" "LBitMap_AllocByRange node lo hi al = (ret, i, node', al')"
  shows "lb_inv node'"
    and "ret = BS_OK \<Longrightarrow> lo \<le> i \<and> i \<le> hi \<and> i \<notin> lb_set node \<and> lb_set node' = insert i (lb_set node)"
    and "ret \<noteq> BS_OK \<Longrightarrow> lb_set node' = lb_set node"
    and "False \<notin> set al \<Longrightarrow> ret = BS_OK \<Longrightarrow> lo \<le> k \<Longrightarrow> k < i \<Longrightarrow> k \<in> lb_set node"
    and "False \<notin> set al \<Longrightarrow> ret \<noteq> BS_OK \<Longrightarrow> lo \<le> k \<Longrightarrow> k \<le> hi \<Longrightarrow> k \<in> lb_set node"
proof -
  have g: "lb_ok 3 node'"
    "got (False \<notin> set al) (unat lo) (unat hi) (lb_mem 3 node) ret (unat i) (lb_mem 3 node')"
    using lbitmap_Get_ok [of 3] assms span_4 [of lo] span_4 [of hi]
    unfolding get_ok_def LBitMap_AllocByRange_def lb_height lb_inv_def by blast+
  show "lb_inv node'" using g(1) by (simp add: lb_inv_def)
  show "lo \<le> i \<and> i \<le> hi \<and> i \<notin> lb_set node \<and> lb_set node' = insert i (lb_set node)" if "ret = BS_OK"
    using g(2) that lb_set_upd [of node' node i True] by (simp add: got_def word_le_nat_alt lb_set_def del: lb_mem.simps)
  show "lb_set node' = lb_set node" if "ret \<noteq> BS_OK"
    using g(2) that by (simp add: got_def lb_set_def del: lb_mem.simps)
  show "k \<in> lb_set node" if "False \<notin> set al" "ret = BS_OK" "lo \<le> k" "k < i"
    using g(2) that by (simp add: got_def lb_set_def word_le_nat_alt word_less_nat_alt del: lb_mem.simps)
  show "k \<in> lb_set node" if "False \<notin> set al" "ret \<noteq> BS_OK" "lo \<le> k" "k \<le> hi"
    using g(2) that by (simp add: got_def lb_set_def word_le_nat_alt word_less_nat_alt del: lb_mem.simps)
qed

lemma SetBit_laws:
  assumes "lb_inv node" "LBitMap_SetBit node k al = (ret, node', al')"
  shows "lb_inv node'" and "ret = BS_OK \<Longrightarrow> lb_set node' = insert k (lb_set node)"
    and "ret \<noteq> BS_OK \<Longrightarrow> ret = BS_NO_MEMORY \<and> lb_set node' = lb_set node \<and> False \<in> set al"
proof -
  have g: "lb_ok 3 node'" "ret = BS_OK \<and> lb_mem 3 node' = (lb_mem 3 node)(unat k := True) \<or>
     ret = BS_NO_MEMORY \<and> lb_mem 3 node' = lb_mem 3 node \<and> False \<in> set al"
    using SetIndexBit_ok [of 3 node k al ret node' al'] assms span_4 [of k] unfolding LBitMap_SetBit_def lb_height lb_inv_def by blast+
  show "lb_inv node'" using g(1) by (simp add: lb_inv_def)
  show "lb_set node' = insert k (lb_set node)" if "ret = BS_OK"
    using g(2) that lb_set_upd [of node' node k True] by simp
  show "ret = BS_NO_MEMORY \<and> lb_set node' = lb_set node \<and> False \<in> set al" if "ret \<noteq> BS_OK"
    using g(2) that by (simp add: lb_set_def del: lb_mem.simps)
qed

lemma ClrBit_laws:
  assumes "lb_inv node"
  shows "lb_inv (LBitMap_ClrBit node k)" "lb_set (LBitMap_ClrBit node k) = lb_set node - {k}"
proof -
  obtain e node' where r: "lbitmap_ClearBit 3 node k = (e, node')" by (metis surj_pair)
  have "lb_ok 3 node' \<and> lb_mem 3 node' = (lb_mem 3 node)(unat k := False)"
    using ClearBit_ok [OF _ _ span_4 r] assms by (simp add: lb_inv_def)
  then show "lb_inv (LBitMap_ClrBit node k)" "lb_set (LBitMap_ClrBit node k) = lb_set node - {k}"
    using lb_set_upd [of node' node k False] r by (simp_all add: LBitMap_ClrBit_def lb_height lb_inv_def)
qed

lemma IsBitSetted_law: "lb_inv node \<Longrightarrow> LBitMap_IsBitSetted node k \<longleftrightarrow> k \<in> lb_set node"
proof -
  assume "lb_inv node"
  moreover have "unat (ucast (k AND 0xff) :: UCHAR) = unat k mod 256"
  proof -
    have "(0xff :: UINT) = mask 8" by (simp add: mask_eq_exp_minus_1)
    then have "unat (k AND 0xff) = unat k mod 256" using unat_low_bits [of k 8] by simp
    then show ?thesis by (simp add: unsigned_ucast_eq take_bit_eq_mod)
  qed
  ultimately show ?thesis
    using GetIndexLeaf_mem [of 3 node k] span_4 [of k]
    by (simp add: LBitMap_IsBitSetted_def lb_height lb_inv_def lb_set_def del: lb_mem.simps split: option.splits)
qed

text \<open>The numbers that the search for busy bits can return.\<close>

definition lb_visible :: "UINT \<Rightarrow> bool" where
  "lb_visible k \<longleftrightarrow> lb_seen 3 (unat k)"

lemma busy_law:
  assumes "lb_inv node"
  shows "case lbitmap_GetBusyBit 3 node lo 0xffffffff of
      None \<Rightarrow> \<forall>k\<in>lb_set node. lo \<le> k \<longrightarrow> \<not> lb_visible k
    | Some i \<Rightarrow> i \<in> lb_set node \<and> lo \<le> i \<and> lb_visible i \<and> (\<forall>k\<in>lb_set node. lo \<le> k \<longrightarrow> k < i \<longrightarrow> \<not> lb_visible k)"
proof -
  have f: "first_in (\<lambda>k. lb_mem 3 node k \<and> lb_seen 3 k) (unat lo) (span (Suc 3) - 1)
      (map_option unat (lbitmap_GetBusyBit 3 node lo 0xffffffff))"
    by (rule GetBusyBit_first) (use assms span_4 in \<open>auto simp: lb_inv_def span_def\<close>)
  have "unat k \<le> span (Suc 3) - 1" for k :: UINT using span_4 [of k] by simp
  then show ?thesis
    using f by (cases "lbitmap_GetBusyBit 3 node lo 0xffffffff")
      (auto simp: none_in_def least_in_def lb_set_def lb_visible_def word_le_nat_alt word_less_nat_alt simp del: lb_mem.simps lb_seen.simps)
qed

lemma last_byte: "n mod 256 = 255 \<Longrightarrow> n < 65535 \<Longrightarrow> \<not> 65280 \<le> n" for n :: nat
proof
  assume "n mod 256 = 255" "n < 65535" "65280 \<le> n"
  moreover from this have "n = n div 256 * 256 + 255" by (metis div_mult_mod_eq)
  ultimately have "n div 256 * 256 < 255 * 256" "255 * 256 \<le> n div 256 * 256 + 255" by linarith+
  then show False by simp
qed

lemma TryByRange_laws:
  assumes "lb_inv node" "LBitMap_TryByRange node lo hi al = (r, node', al')"
  shows "lb_inv node'" "lb_set node' = lb_set node"
    and "r = Inr i \<Longrightarrow> lo \<le> i \<and> i \<le> hi \<and> i \<notin> lb_set node"
    and "r = Inl e \<Longrightarrow> e = BS_NOT_FOUND \<and> (False \<in> set al \<or> {lo..hi} \<subseteq> lb_set node)"
proof -
  obtain ret j node1 al1 where a: "LBitMap_AllocByRange node lo hi al = (ret, j, node1, al1)" by (metis surj_pair)
  note l = Alloc_laws [OF assms(1) a]
  have e: "if ret = BS_OK then r = Inr j \<and> node' = LBitMap_ClrBit node1 j else r = Inl BS_NOT_FOUND \<and> node' = node1"
    using assms(2) a by (auto simp: LBitMap_TryByRange_def)
  show "lb_inv node'" using e l(1) ClrBit_laws(1) [OF l(1)] by (auto split: if_splits)
  show "lb_set node' = lb_set node" using e l(2,3) ClrBit_laws(2) [OF l(1)] by (auto split: if_splits)
  show "r = Inr i \<Longrightarrow> lo \<le> i \<and> i \<le> hi \<and> i \<notin> lb_set node" using e l(2) by (auto split: if_splits)
  show "r = Inl e \<Longrightarrow> e = BS_NOT_FOUND \<and> (False \<in> set al \<or> {lo..hi} \<subseteq> lb_set node)" using e l(5) by (auto split: if_splits)
qed

text \<open>The bitmaps that the operations build, with the numbers that their answers promise.\<close>

inductive lb_reach :: "lb_node \<Rightarrow> UINT set \<Rightarrow> bool" where
  Create: "LBitMap_Create True = Some node \<Longrightarrow> lb_reach node {}"
| Alloc: "lb_reach node S \<Longrightarrow> LBitMap_AllocByRange node lo hi al = (ret, i, node', al') \<Longrightarrow>
    lb_reach node' (if ret = BS_OK then insert i S else S)"
| Set: "lb_reach node S \<Longrightarrow> LBitMap_SetBit node k al = (ret, node', al') \<Longrightarrow>
    lb_reach node' (if ret = BS_OK then insert k S else S)"
| Clr: "lb_reach node S \<Longrightarrow> lb_reach (LBitMap_ClrBit node k) (S - {k})"
| Try: "lb_reach node S \<Longrightarrow> LBitMap_TryByRange node lo hi al = (r, node', al') \<Longrightarrow> lb_reach node' S"

lemma lb_reach_set: "lb_reach node S \<Longrightarrow> lb_inv node \<and> lb_set node = S"
proof (induction rule: lb_reach.induct)
  case (Create node)
  then show ?case by (rule Create_inv)
next
  case (Alloc node S lo hi al ret i node' al')
  then show ?case using Alloc_laws(1-3) [of node lo hi al ret i node' al'] by auto
next
  case (Set node S k al ret node' al')
  then show ?case using SetBit_laws [of node k al ret node' al'] by auto
next
  case (Clr node S k)
  then show ?case using ClrBit_laws [of node k] by simp
next
  case (Try node S lo hi al r node' al')
  then show ?case using TryByRange_laws(1,2) [of node lo hi al r node' al'] by simp
qed

text \<open>A reset frees the nodes but keeps the marks of the first level: a block that was full stays unusable.\<close>

lemma LBitMap_Reset_keeps_marks:
  assumes mark: "bits_mem (stBits node) p" and p: "p < 256"
    and lo: "unat lo div 2 ^ 24 = p" and hi: "unat hi div 2 ^ 24 = p"
    and a: "LBitMap_AllocByRange (LBitMap_Reset node) lo hi al = (ret, i, node', al')"
  shows "ret \<noteq> BS_OK \<and> lb_set (LBitMap_Reset node) = {}"
proof
  let ?r = "LBITMAP_NODE (stBits node) Map.empty"
  have digits: "unat (drop_bit 24 lo AND 0xff) = p" "unat (drop_bit 24 hi AND 0xff) = p" using lo hi p by (simp_all add: unat_digit)
  have spec: "fst (lbitmap_GetSpec 1 get ?r p l h al) \<noteq> BS_OK" for get l h al
    using mark p by (auto simp: lbitmap_GetSpec_def Let_def unat_of_nat_small lbitmap_GetLevelDesc_def lbitmap_levels split: prod.split option.split)
  have one: "fst (level_loop f ?r [p] al) \<noteq> BS_OK" if "\<And>al. fst (f ?r p al) \<noteq> BS_OK" for f al
  proof (cases "f ?r p al")
    case (fields st idx n al1)
    then show ?thesis using that [of al] by simp
  qed
  have "lbitmap_GetLevelDesc 1 = (24, 0xffffff)" by (simp add: lbitmap_GetLevelDesc_def lbitmap_levels)
  then have "fst (lbitmap_GetInLevel 1 get ?r lo hi al) \<noteq> BS_OK" for get
    unfolding lbitmap_GetInLevel_def Let_def by (simp add: digits one spec del: level_loop.simps One_nat_def)
  moreover have "lbitmap_Get 3 = lbitmap_GetInLevel 1 (lbitmap_Get 2)"
    unfolding numeral_3_eq_3 lbitmap_Get.simps numeral_2_eq_2 by (simp add: lbitmap_levels)
  ultimately show "ret \<noteq> BS_OK"
    using a unfolding LBitMap_AllocByRange_def LBitMap_Reset_def lbitmap_Reset_def lb_height by (metis fst_conv)
  show "lb_set (LBitMap_Reset node) = {}" by (simp add: lb_set_def LBitMap_Reset_def lbitmap_Reset_def numeral_3_eq_3)
qed

text \<open>A small bitmap.\<close>

definition lb_example :: lb_node where
  "lb_example = fst (snd (LBitMap_SetBit (the (LBitMap_Create True)) 5 []))"

lemma lb_example_reach: "lb_reach lb_example {5}"
proof -
  have "fst (LBitMap_SetBit (the (LBitMap_Create True)) 5 []) = BS_OK" by code_simp
  then obtain al where s: "LBitMap_SetBit (the (LBitMap_Create True)) 5 [] = (BS_OK, lb_example, al)"
    by (metis lb_example_def prod.collapse)
  have "lb_reach (the (LBitMap_Create True)) {}" by (rule lb_reach.Create) (simp add: LBitMap_Create_def)
  from lb_reach.Set [OF this s] show ?thesis by simp
qed

lemma visible_below: "k < 0xff00 \<Longrightarrow> lb_visible k"
  by (auto simp: lb_visible_def word_less_nat_alt numeral_3_eq_3 span_def)

lemma after_word:
  fixes cur k :: UINT
  assumes "cur \<noteq> 0xffffffff"
  shows "cur + 1 \<le> k \<longleftrightarrow> cur < k"
proof -
  have "unat cur \<noteq> 0xffffffff" using assms by (simp add: word_unat_eq_iff)
  then have "unat cur < 2 ^ 32 - 1" using unat_lt2p [of cur] by simp
  then have "unat (cur + 1) = Suc (unat cur)" by (simp add: unat_Suc_word)
  then show ?thesis by (simp add: word_le_nat_alt word_less_nat_alt Suc_le_eq)
qed

section \<open>Properties\<close>



text \<open>C31: The search for busy bits, exactly as the code does it: it returns the least busy number above the current one among those it
  can see. It does not see a number with a byte \<open>0xff\<close> in front of a lower byte that is not \<open>0xff\<close>; all numbers below
  \<open>0xff00\<close> are seen, so a bitmap of such numbers is enumerated in order and completely.\<close>

theorem LBitMap_GetNextBusyBit_exact:
  assumes "lb_reach node S" and "cur \<noteq> 0xffffffff"
  shows "(case LBitMap_GetNextBusyBit node cur of
       None \<Rightarrow> \<forall>k\<in>S. cur < k \<longrightarrow> \<not> lb_visible k
     | Some i \<Rightarrow> i \<in> S \<and> cur < i \<and> lb_visible i \<and> (\<forall>k\<in>S. cur < k \<longrightarrow> k < i \<longrightarrow> \<not> lb_visible k)) \<and>
    (case LBitMap_GetFirstBusyBit node of
       None \<Rightarrow> \<forall>k\<in>S. \<not> lb_visible k
     | Some i \<Rightarrow> i \<in> S \<and> lb_visible i \<and> (\<forall>k\<in>S. k < i \<longrightarrow> \<not> lb_visible k)) \<and>
    (\<forall>k < 0xff00. lb_visible k) \<and> (\<forall>k. 0xff00 \<le> k \<and> k < 0xffff \<longrightarrow> \<not> lb_visible k)"
proof (intro conjI)
  have inv: "lb_inv node" and S: "lb_set node = S" using lb_reach_set [OF assms(1)] by simp_all
  show "case LBitMap_GetNextBusyBit node cur of
       None \<Rightarrow> \<forall>k\<in>S. cur < k \<longrightarrow> \<not> lb_visible k
     | Some i \<Rightarrow> i \<in> S \<and> cur < i \<and> lb_visible i \<and> (\<forall>k\<in>S. cur < k \<longrightarrow> k < i \<longrightarrow> \<not> lb_visible k)"
    using busy_law [OF inv, of "cur + 1"] unfolding LBitMap_GetNextBusyBit_def lb_height after_word [OF assms(2)] S .
  show "case LBitMap_GetFirstBusyBit node of
       None \<Rightarrow> \<forall>k\<in>S. \<not> lb_visible k
     | Some i \<Rightarrow> i \<in> S \<and> lb_visible i \<and> (\<forall>k\<in>S. k < i \<longrightarrow> \<not> lb_visible k)"
    using busy_law [OF inv, of 0] unfolding LBitMap_GetFirstBusyBit_def lb_height S by (simp split: option.splits)
  show "\<forall>k < 0xff00. lb_visible k" using visible_below by blast
  show "\<forall>k. 0xff00 \<le> k \<and> k < 0xffff \<longrightarrow> \<not> lb_visible k"
    by (auto simp: lb_visible_def word_less_nat_alt word_le_nat_alt numeral_3_eq_3 span_def dest!: last_byte)
qed

theorem LBitMap_GetNextBusyBit_exact_witness:
  "LBitMap_GetFirstBusyBit lb_example = Some 5 \<and> LBitMap_GetNextBusyBit lb_example 5 = None"
proof -
  have "(5 :: UINT) \<noteq> 0xffffffff" by simp
  note t = LBitMap_GetNextBusyBit_exact [OF lb_example_reach this]
  have "\<forall>k < 0xff00. lb_visible k" using t by simp
  then have v: "lb_visible 5" by simp
  have "case LBitMap_GetFirstBusyBit lb_example of
      None \<Rightarrow> \<forall>k\<in>{5}. \<not> lb_visible k
    | Some i \<Rightarrow> i \<in> {5} \<and> lb_visible i \<and> (\<forall>k\<in>{5}. k < i \<longrightarrow> \<not> lb_visible k)" using t by (elim conjE)
  then have first: "LBitMap_GetFirstBusyBit lb_example = Some 5" using v by (cases "LBitMap_GetFirstBusyBit lb_example") simp_all
  have "case LBitMap_GetNextBusyBit lb_example 5 of
      None \<Rightarrow> \<forall>k\<in>{5}. 5 < k \<longrightarrow> \<not> lb_visible k
    | Some i \<Rightarrow> i \<in> {5} \<and> 5 < i \<and> lb_visible i \<and> (\<forall>k\<in>{5}. 5 < k \<longrightarrow> k < i \<longrightarrow> \<not> lb_visible k)"
    using t by (elim conjE)
  then have "LBitMap_GetNextBusyBit lb_example 5 = None" by (cases "LBitMap_GetNextBusyBit lb_example 5") auto
  with first show ?thesis by simp
qed

end
