(* ===== verification/Nap.thy ===== *)
theory Nap
  imports LBitMap Hash Net
begin

text \<open>
  The pool of nodes with identifiers of \<^verbatim>\<open>nap/\<close>: a node lives at an index that the large bitmap (theory \<^theory_text>\<open>LBitMap\<close>) hands
  out and is found by its index or by its identifier, which carries the index and, when enabled, a sequence number. Three
  stores sit behind a table of functions: an array of nodes, an array of pointers and a hash table (theory \<^theory_text>\<open>Hash\<close>); the
  fourth one is over a third-party tree and not modelled. A node is its address; the hidden header of the nodes is the map
  \<open>ulID\<close> from addresses to identifiers, what the client keeps in a node is not modelled. An operation takes the address that
  \<^verbatim>\<open>MemCap_Malloc\<close> returns for the node (\<open>mem\<close>, \<open>None\<close> for NULL) and the script of the outcomes of the bitmap's
  allocations. \<open>NUM_NeedBits\<close> and \<^verbatim>\<open>HASH_CreateInstance\<close>, which have no source in the repository, and the contents of fresh
  memory are parameters.
\<close>

type_synonym nap_ptr = nat

definition NAP_INVALID_ID :: UINT where "NAP_INVALID_ID = 0"
definition NAP_INVALID_INDEX :: UINT where "NAP_INVALID_INDEX = 0xffffffff"

lemmas nap_invalid = NAP_INVALID_ID_def NAP_INVALID_INDEX_def

record nap_seq_opt =
  bEnable :: bool
  ulSeqMask :: UINT
  ucSeqStartIndex :: nat
  seq_array :: "USHORT list option"
  uiSeqArrayCount :: UINT

text \<open>\<open>pfDestory\<close> only frees.\<close>

record 's nap_func_tbl =
  pfAlloc :: "nap_ptr option \<Rightarrow> 's \<Rightarrow> UINT \<Rightarrow> nap_ptr option \<times> 's"
  pfFree :: "'s \<Rightarrow> nap_ptr \<Rightarrow> UINT \<Rightarrow> 's"
  pfGetNodeByIndex :: "'s \<Rightarrow> UINT \<Rightarrow> nap_ptr option"

text \<open>\<open>impl\<close>: what the store keeps behind the common head.\<close>

record 's nap =
  pstFuncTbl :: "'s nap_func_tbl"
  uiMaxNum :: UINT
  uiCount :: UINT
  ulIndexMask :: UINT
  hLBitmap :: lb_node
  stSeqOpt :: nap_seq_opt
  ulID :: "nap_ptr \<Rightarrow> UINT"
  impl :: 's

section \<open>The stores\<close>

text \<open>The array: what it keeps is the base address \<^verbatim>\<open>pucMem\<close> and the size of a node; the offset of a node is
  computed in 32 bits.\<close>

record nap_array =
  pucMem :: nap_ptr
  uiNapNodeSize :: UINT

definition nap_array_Alloc :: "nap_ptr option \<Rightarrow> nap_array \<Rightarrow> UINT \<Rightarrow> nap_ptr option \<times> nap_array" where
  "nap_array_Alloc mem pstHead uiIndex = (Some (pucMem pstHead + unat (uiIndex * uiNapNodeSize pstHead)), pstHead)"

definition nap_array_Free :: "nap_array \<Rightarrow> nap_ptr \<Rightarrow> UINT \<Rightarrow> nap_array" where
  "nap_array_Free pstHead pstNapNode uiIndex = pstHead"

definition nap_array_GetNodeByIndex :: "nap_array \<Rightarrow> UINT \<Rightarrow> nap_ptr option" where
  "nap_array_GetNodeByIndex pstHead uiIndex = Some (pucMem pstHead + unat (uiNapNodeSize pstHead * uiIndex))"

definition g_stNapStaticFuncTbl :: "nap_array nap_func_tbl" where
  "g_stNapStaticFuncTbl =
     \<lparr>pfAlloc = nap_array_Alloc, pfFree = nap_array_Free, pfGetNodeByIndex = nap_array_GetNodeByIndex\<rparr>"

text \<open>The array of pointers \<^verbatim>\<open>ppPrtArray\<close>.\<close>

definition nap_ptrarray_Alloc :: "nap_ptr option \<Rightarrow> nap_ptr option list \<Rightarrow> UINT \<Rightarrow> nap_ptr option \<times> nap_ptr option list" where
  "nap_ptrarray_Alloc mem ppPrtArray uiIndex = (mem, ppPrtArray[unat uiIndex := mem])"

definition nap_ptrarray_Free :: "nap_ptr option list \<Rightarrow> nap_ptr \<Rightarrow> UINT \<Rightarrow> nap_ptr option list" where
  "nap_ptrarray_Free ppPrtArray pstNapNode uiIndex =
     (if ppPrtArray ! unat uiIndex = None then ppPrtArray else ppPrtArray[unat uiIndex := None])"

definition nap_ptrarray_GetNodeByIndex :: "nap_ptr option list \<Rightarrow> UINT \<Rightarrow> nap_ptr option" where
  "nap_ptrarray_GetNodeByIndex ppPrtArray uiIndex = ppPrtArray ! unat uiIndex"

definition g_stNapPtrArrayFuncTbl :: "nap_ptr option list nap_func_tbl" where
  "g_stNapPtrArrayFuncTbl =
     \<lparr>pfAlloc = nap_ptrarray_Alloc, pfFree = nap_ptrarray_Free, pfGetNodeByIndex = nap_ptrarray_GetNodeByIndex\<rparr>"

text \<open>The hash table of nodes with their index. The node to find on the stack has no address of its own.\<close>

record nap_hash_node =
  uiIndex :: UINT
  addr :: "nap_ptr option"

definition NAP_HASH_MAX_BUCKET_NUM :: UINT where
  "NAP_HASH_MAX_BUCKET_NUM = 1024 * 16"

definition nap_hash_Index :: "nap_hash_node \<Rightarrow> UINT" where
  "nap_hash_Index pstNode = uiIndex pstNode"

definition nap_hash_Cmp :: "nap_hash_node \<Rightarrow> nap_hash_node \<Rightarrow> int" where
  "nap_hash_Cmp pstHashNode pstNodeToFind = sint (uiIndex pstHashNode - uiIndex pstNodeToFind)"

definition nap_hash_Find :: "nap_hash_node hash \<Rightarrow> UINT \<Rightarrow> nap_hash_node option" where
  "nap_hash_Find hHashTbl idx = HASH_Find hHashTbl nap_hash_Cmp \<lparr>uiIndex = idx, addr = None\<rparr>"

definition nap_hash_Alloc :: "nap_ptr option \<Rightarrow> nap_hash_node hash \<Rightarrow> UINT \<Rightarrow> nap_ptr option \<times> nap_hash_node hash" where
  "nap_hash_Alloc mem hHashTbl idx =
     (case mem of
        None \<Rightarrow> (None, hHashTbl)
      | Some p \<Rightarrow> (Some p, HASH_Add hHashTbl \<lparr>uiIndex = idx, addr = Some p\<rparr>))"

text \<open>The freed node is the one in front of the client's node, with the index that it was added with.\<close>

definition nap_hash_Free :: "nap_hash_node hash \<Rightarrow> nap_ptr \<Rightarrow> UINT \<Rightarrow> nap_hash_node hash" where
  "nap_hash_Free hHashTbl pstNapNode idx = HASH_Del hHashTbl \<lparr>uiIndex = idx, addr = Some pstNapNode\<rparr>"

definition nap_hash_GetNodeByIndex :: "nap_hash_node hash \<Rightarrow> UINT \<Rightarrow> nap_ptr option" where
  "nap_hash_GetNodeByIndex hHashTbl idx = (case nap_hash_Find hHashTbl idx of None \<Rightarrow> None | Some pstNode \<Rightarrow> addr pstNode)"

definition g_stNapHashFuncTbl :: "nap_hash_node hash nap_func_tbl" where
  "g_stNapHashFuncTbl =
     \<lparr>pfAlloc = nap_hash_Alloc, pfFree = nap_hash_Free, pfGetNodeByIndex = nap_hash_GetNodeByIndex\<rparr>"

section \<open>Indices and identifiers\<close>

definition nap_AllocIndex :: "'s nap \<Rightarrow> bool list \<Rightarrow> UINT \<times> 's nap" where
  "nap_AllocIndex h al =
     (case LBitMap_AllocByRange (hLBitmap h) 0 0x7fffffff al of
        (ret, idx, bm, _) \<Rightarrow> (if BS_OK \<noteq> ret then NAP_INVALID_INDEX else idx, h\<lparr>hLBitmap := bm\<rparr>))"

definition nap_AllocSpecIndex :: "'s nap \<Rightarrow> UINT \<Rightarrow> bool list \<Rightarrow> UINT \<times> 's nap" where
  "nap_AllocSpecIndex h uiSpecIndex al =
     (if LBitMap_IsBitSetted (hLBitmap h) uiSpecIndex then (NAP_INVALID_INDEX, h)
      else case LBitMap_SetBit (hLBitmap h) uiSpecIndex al of
        (ret, bm, _) \<Rightarrow> (if BS_OK \<noteq> ret then NAP_INVALID_INDEX else uiSpecIndex, h\<lparr>hLBitmap := bm\<rparr>))"

definition nap_FreeIndex :: "'s nap \<Rightarrow> UINT \<Rightarrow> 's nap" where
  "nap_FreeIndex h idx = h\<lparr>hLBitmap := LBitMap_ClrBit (hLBitmap h) idx\<rparr>"

definition nap_CacleIDByIndex :: "'s nap \<Rightarrow> UINT \<Rightarrow> UINT \<times> 's nap" where
  "nap_CacleIDByIndex h idx =
     (let opt = stSeqOpt h
      in if bEnable opt then
           let uiPos = unat (idx mod uiSeqArrayCount opt);
               seq = the (seq_array opt);
               ulTmp = push_bit (ucSeqStartIndex opt) (ucast (seq ! uiPos)) AND ulSeqMask opt;
               ulID = (idx AND NOT (ulSeqMask opt)) OR ulTmp
           in (ulID OR 0x80000000, h\<lparr>stSeqOpt := opt\<lparr>seq_array := Some (seq[uiPos := seq ! uiPos + 1])\<rparr>\<rparr>)
         else (idx OR 0x80000000, h))"

definition nap_CacleIndexByID :: "'s nap \<Rightarrow> UINT \<Rightarrow> UINT" where
  "nap_CacleIndexByID h uiID = uiID AND ulIndexMask h"

definition nap_IsIndexSetted :: "'s nap \<Rightarrow> UINT \<Rightarrow> bool" where
  "nap_IsIndexSetted h index = LBitMap_IsBitSetted (hLBitmap h) index"

definition nap_SetSeqMask :: "'s nap \<Rightarrow> UINT \<Rightarrow> bs_status \<times> 's nap" where
  "nap_SetSeqMask h seqMask =
     (let start = (case find (\<lambda>i. seqMask AND push_bit i 1 \<noteq> 0) [0..<32] of Some i \<Rightarrow> i | None \<Rightarrow> 0)
      in if start = 0 \<or> start = 63 then (BS_BAD_PARA, h)
         else (BS_OK, h\<lparr>stSeqOpt := (stSeqOpt h)\<lparr>ulSeqMask := seqMask, ucSeqStartIndex := start\<rparr>\<rparr>))"

text \<open>\<open>seq_mem\<close>: the memory that \<^verbatim>\<open>MemCap_Malloc\<close> returns for the sequence numbers; the code does not clear it.\<close>

definition NAP_EnableSeq :: "'s nap \<Rightarrow> UINT \<Rightarrow> UINT \<Rightarrow> USHORT list option \<Rightarrow> bs_status \<times> 's nap" where
  "NAP_EnableSeq h seqMask uiSeqCount seq_mem =
     (let seqMask = (if seqMask = 0 then NOT (ulIndexMask h) AND 0xffff0000 else seqMask)
      in if seqMask = 0 then (BS_ERR, h)
         else if uiSeqCount = 0 then (BS_BAD_PARA, h)
         else (case nap_SetSeqMask h seqMask of
                 (ret, h) \<Rightarrow>
                   if BS_OK \<noteq> ret then (BS_ERR, h)
                   else if seq_array (stSeqOpt h) = None then
                     (case seq_mem of
                        None \<Rightarrow> (BS_NO_MEMORY, h)
                      | Some seq \<Rightarrow> (BS_OK, h\<lparr>stSeqOpt := (stSeqOpt h)\<lparr>seq_array := Some seq, uiSeqArrayCount := uiSeqCount, bEnable := True\<rparr>\<rparr>))
                   else (BS_OK, h\<lparr>stSeqOpt := (stSeqOpt h)\<lparr>bEnable := True\<rparr>\<rparr>)))"

section \<open>Creation\<close>

text \<open>The two allocations of a store: the head, and the address of the nodes, which takes the number of bytes (computed in 32
  bits), or what the array of pointers contains when it is allocated.\<close>

definition NAP_ArrayCreate ::
  "UINT \<Rightarrow> UINT \<Rightarrow> bool \<Rightarrow> (UINT \<Rightarrow> nap_ptr option) \<Rightarrow> (nap_array nap_func_tbl \<times> nap_array) option" where
  "NAP_ArrayCreate max_num node_size alloc_head nodes_mem =
     (let uiNAPSize = node_size * max_num
      in if max_num = 0 then None
         else if \<not> alloc_head then None
         else case nodes_mem uiNAPSize of
                None \<Rightarrow> None
              | Some mem \<Rightarrow> Some (g_stNapStaticFuncTbl, \<lparr>pucMem = mem, uiNapNodeSize = node_size\<rparr>))"

definition NAP_PtrArrayCreate ::
  "UINT \<Rightarrow> bool \<Rightarrow> nap_ptr option list option \<Rightarrow> (nap_ptr option list nap_func_tbl \<times> nap_ptr option list) option" where
  "NAP_PtrArrayCreate max_num alloc_head ptr_mem =
     (if max_num = 0 then None
      else if \<not> alloc_head then None
      else case ptr_mem of None \<Rightarrow> None | Some ptrs \<Rightarrow> Some (g_stNapPtrArrayFuncTbl, ptrs))"

text \<open>\<open>create\<close>: \<^verbatim>\<open>HASH_CreateInstance\<close>.\<close>

definition NAP_HashCreate ::
  "(UINT \<Rightarrow> (nap_hash_node \<Rightarrow> UINT) \<Rightarrow> nap_hash_node hash option) \<Rightarrow> bool \<Rightarrow>
   (nap_hash_node hash nap_func_tbl \<times> nap_hash_node hash) option" where
  "NAP_HashCreate create alloc_head =
     (if \<not> alloc_head then None
      else case create NAP_HASH_MAX_BUCKET_NUM nap_hash_Index of
             None \<Rightarrow> None
           | Some hHashTbl \<Rightarrow> Some (g_stNapHashFuncTbl, hHashTbl))"

text \<open>The bitmap is the only allocation of the common part; on its failure the pool is destroyed again.\<close>

definition nap_CommonInit :: "(UINT \<Rightarrow> nat) \<Rightarrow> UINT \<Rightarrow> bool \<Rightarrow> 's nap_func_tbl \<times> 's \<Rightarrow> 's nap option" where
  "nap_CommonInit needbits max_num alloc_bitmap store =
     (let uiMax = (if max_num = 0 then 0x7fffffff else max_num);
          ucSpaceBits = 32 - needbits uiMax;
          uiSpaceMask = PREFIX_2_MASK ucSpaceBits
      in case LBitMap_Create alloc_bitmap of
           None \<Rightarrow> None
         | Some bm \<Rightarrow>
             Some \<lparr>pstFuncTbl = fst store, uiMaxNum = uiMax, uiCount = 0, ulIndexMask = NOT uiSpaceMask, hLBitmap = bm,
               stSeqOpt = \<lparr>bEnable = False, ulSeqMask = 0, ucSeqStartIndex = 0, seq_array = None, uiSeqArrayCount = 0\<rparr>,
               ulID = (\<lambda>_. 0), impl = snd store\<rparr>)"

definition NAP_Create :: "(UINT \<Rightarrow> nat) \<Rightarrow> UINT \<Rightarrow> bool \<Rightarrow> ('s nap_func_tbl \<times> 's) option \<Rightarrow> 's nap option" where
  "NAP_Create needbits max_num alloc_bitmap store =
     (if max_num > 0x7fffffff then None
      else case store of None \<Rightarrow> None | Some st \<Rightarrow> nap_CommonInit needbits max_num alloc_bitmap st)"

section \<open>Operations\<close>

text \<open>The common end of the three allocations: the node of the store, with the identifier that \<open>ident\<close> makes; \<open>counted\<close> says
  whether the operation counts it.\<close>

definition nap_place ::
  "('s nap \<Rightarrow> UINT \<times> 's nap) \<Rightarrow> bool \<Rightarrow> nap_ptr option \<Rightarrow> UINT \<times> 's nap \<Rightarrow> nap_ptr option \<times> 's nap" where
  "nap_place ident counted mem r =
     (case r of (idx, h) \<Rightarrow>
        if NAP_INVALID_INDEX = idx then (None, h)
        else case pfAlloc (pstFuncTbl h) mem (impl h) idx of
          (None, st) \<Rightarrow> (None, nap_FreeIndex (h\<lparr>impl := st\<rparr>) idx)
        | (Some node, st) \<Rightarrow>
            (case ident (h\<lparr>impl := st\<rparr>) of
               (uiID, h) \<Rightarrow>
                 (Some node, h\<lparr>ulID := (ulID h)(node := uiID), uiCount := (if counted then uiCount h + 1 else uiCount h)\<rparr>)))"

definition NAP_Alloc :: "'s nap \<Rightarrow> nap_ptr option \<Rightarrow> bool list \<Rightarrow> nap_ptr option \<times> 's nap" where
  "NAP_Alloc h mem al =
     (let r = nap_AllocIndex h al in nap_place (\<lambda>h. nap_CacleIDByIndex h (fst r)) True mem r)"

definition NAP_AllocByIndex :: "'s nap \<Rightarrow> UINT \<Rightarrow> nap_ptr option \<Rightarrow> bool list \<Rightarrow> nap_ptr option \<times> 's nap" where
  "NAP_AllocByIndex h uiSpecIndex mem al =
     (if uiSpecIndex = NAP_INVALID_ID then NAP_Alloc h mem al
      else let r = nap_AllocSpecIndex h uiSpecIndex al in nap_place (\<lambda>h. nap_CacleIDByIndex h (fst r)) True mem r)"

definition NAP_AllocByID :: "'s nap \<Rightarrow> UINT \<Rightarrow> nap_ptr option \<Rightarrow> bool list \<Rightarrow> nap_ptr option \<times> 's nap" where
  "NAP_AllocByID h ulSpecID mem al =
     (if ulSpecID = NAP_INVALID_ID then NAP_Alloc h mem al
      else nap_place (\<lambda>h. (ulSpecID, h)) False mem (nap_AllocSpecIndex h (nap_CacleIndexByID h ulSpecID) al))"

definition NAP_Free :: "'s nap \<Rightarrow> nap_ptr option \<Rightarrow> 's nap" where
  "NAP_Free h node =
     (case node of
        None \<Rightarrow> h
      | Some p \<Rightarrow>
          let idx = nap_CacleIndexByID h (ulID h p);
              h = nap_FreeIndex h idx;
              h = h\<lparr>impl := pfFree (pstFuncTbl h) (impl h) p idx\<rparr>
          in h\<lparr>uiCount := uiCount h - 1\<rparr>)"

definition NAP_GetNodeByIndex :: "'s nap \<Rightarrow> UINT \<Rightarrow> nap_ptr option" where
  "NAP_GetNodeByIndex h idx =
     (if \<not> nap_IsIndexSetted h idx then None else pfGetNodeByIndex (pstFuncTbl h) (impl h) idx)"

definition NAP_GetNodeByID :: "'s nap \<Rightarrow> UINT \<Rightarrow> nap_ptr option" where
  "NAP_GetNodeByID h uiID =
     (if uiID = NAP_INVALID_ID then None
      else let idx = nap_CacleIndexByID h uiID
           in if \<not> nap_IsIndexSetted h idx then None
              else case pfGetNodeByIndex (pstFuncTbl h) (impl h) idx of
                     None \<Rightarrow> None
                   | Some p \<Rightarrow> if ulID h p \<noteq> uiID then None else Some p)"

definition NAP_FreeByID :: "'s nap \<Rightarrow> UINT \<Rightarrow> 's nap" where
  "NAP_FreeByID h uiID = NAP_Free h (NAP_GetNodeByID h uiID)"

definition NAP_FreeByIndex :: "'s nap \<Rightarrow> UINT \<Rightarrow> 's nap" where
  "NAP_FreeByIndex h idx = NAP_Free h (NAP_GetNodeByIndex h idx)"

definition NAP_GetIDByNode :: "'s nap \<Rightarrow> nap_ptr option \<Rightarrow> UINT" where
  "NAP_GetIDByNode h node = (case node of None \<Rightarrow> NAP_INVALID_ID | Some p \<Rightarrow> ulID h p)"

definition NAP_GetIDByIndex :: "'s nap \<Rightarrow> UINT \<Rightarrow> UINT" where
  "NAP_GetIDByIndex h idx = NAP_GetIDByNode h (NAP_GetNodeByIndex h idx)"

definition NAP_GetIndexByID :: "'s nap \<Rightarrow> UINT \<Rightarrow> UINT" where
  "NAP_GetIndexByID h uiID = nap_CacleIndexByID h uiID"

definition NAP_GetIndexByNode :: "'s nap \<Rightarrow> nap_ptr option \<Rightarrow> UINT" where
  "NAP_GetIndexByNode h node =
     (let uiID = NAP_GetIDByNode h node in if uiID = NAP_INVALID_ID then NAP_INVALID_INDEX else NAP_GetIndexByID h uiID)"

definition NAP_ChangeNodeID :: "'s nap \<Rightarrow> nap_ptr option \<Rightarrow> UINT \<Rightarrow> bs_status \<times> 's nap" where
  "NAP_ChangeNodeID h node uiNewNodeID =
     (let uiOldNodeID = NAP_GetIDByNode h node
      in if uiOldNodeID = NAP_INVALID_ID then (BS_NO_SUCH, h)
         else if nap_CacleIndexByID h uiOldNodeID \<noteq> nap_CacleIndexByID h uiNewNodeID then (BS_NOT_SUPPORT, h)
         else (BS_OK, h\<lparr>ulID := (ulID h)(the node := uiNewNodeID)\<rparr>))"

definition NAP_GetNextIndex :: "'s nap \<Rightarrow> UINT \<Rightarrow> UINT" where
  "NAP_GetNextIndex h cur =
     (case (if cur = NAP_INVALID_INDEX then LBitMap_GetFirstBusyBit (hLBitmap h) else LBitMap_GetNextBusyBit (hLBitmap h) cur) of
        None \<Rightarrow> NAP_INVALID_INDEX
      | Some idx \<Rightarrow> idx)"

definition NAP_GetNextID :: "'s nap \<Rightarrow> UINT \<Rightarrow> UINT" where
  "NAP_GetNextID h curID =
     (let cur = (if curID = NAP_INVALID_ID then NAP_INVALID_INDEX else nap_CacleIndexByID h curID);
          idx = NAP_GetNextIndex h cur
      in if NAP_INVALID_INDEX = idx then NAP_INVALID_ID
         else case pfGetNodeByIndex (pstFuncTbl h) (impl h) idx of None \<Rightarrow> NAP_INVALID_ID | Some p \<Rightarrow> ulID h p)"

text \<open>The loop of \<^verbatim>\<open>NAP_FreeAll\<close>, which may not end.\<close>

partial_function (option) free_all :: "UINT \<Rightarrow> 's nap \<Rightarrow> 's nap option" where
  "free_all cur h =
     (let idx = NAP_GetNextIndex h cur
      in if idx = NAP_INVALID_INDEX then Some h
         else free_all idx (NAP_Free h (NAP_GetNodeByIndex h idx)))"

definition NAP_FreeAll :: "'s nap \<Rightarrow> 's nap option" where
  "NAP_FreeAll h = free_all NAP_INVALID_INDEX h"

definition NAP_GetCount :: "'s nap \<Rightarrow> UINT" where
  "NAP_GetCount h = uiCount h"

section \<open>What a store promises\<close>

text \<open>\<open>L\<close> is the map from the indices in use to their nodes. A store may rely on an index within the pool (\<open>room\<close>) and on
  memory that is not in use.\<close>

definition mem_ok :: "nap_ptr option \<Rightarrow> (UINT \<rightharpoonup> nap_ptr) \<Rightarrow> bool" where
  "mem_ok mem L \<longleftrightarrow> (\<forall>p. mem = Some p \<longrightarrow> p \<notin> ran L)"

text \<open>The identifier of every node in use carries its index; sequence numbers stay off the index.\<close>

definition nap_seq_ok :: "'s nap \<Rightarrow> bool" where
  "nap_seq_ok h \<longleftrightarrow>
     (seq_array (stSeqOpt h) \<noteq> None \<longrightarrow> uiSeqArrayCount (stSeqOpt h) \<noteq> 0 \<and>
       length (the (seq_array (stSeqOpt h))) = unat (uiSeqArrayCount (stSeqOpt h))) \<and>
     (bEnable (stSeqOpt h) \<longrightarrow> seq_array (stSeqOpt h) \<noteq> None \<and> ulSeqMask (stSeqOpt h) AND ulIndexMask h = 0) \<and>
     0x80000000 AND ulIndexMask h = 0"

definition nap_inv :: "('s \<Rightarrow> (UINT \<rightharpoonup> nap_ptr) \<Rightarrow> bool) \<Rightarrow> 's nap_func_tbl \<Rightarrow> 's nap \<Rightarrow> (UINT \<rightharpoonup> nap_ptr) \<Rightarrow> bool" where
  [inv_defs]: "nap_inv rep tbl h L \<longleftrightarrow> pstFuncTbl h = tbl \<and> rep (impl h) L \<and> lb_inv (hLBitmap h) \<and> lb_set (hLBitmap h) = dom L \<and>
     inj_on L (dom L) \<and> (\<forall>i p. L i = Some p \<longrightarrow> ulID h p AND ulIndexMask h = i \<and> ulID h p \<noteq> 0) \<and> nap_seq_ok h"

text \<open>The nodes in use by their identifiers.\<close>

definition nap_ids :: "'s nap \<Rightarrow> (UINT \<rightharpoonup> nap_ptr) \<Rightarrow> (UINT \<rightharpoonup> nap_ptr)" where
  "nap_ids h L u = (case L (u AND ulIndexMask h) of None \<Rightarrow> None | Some p \<Rightarrow> if ulID h p = u then Some p else None)"

lemma nap_ids_cong: "ulID h' = ulID h \<Longrightarrow> ulIndexMask h' = ulIndexMask h \<Longrightarrow> nap_ids h' L = nap_ids h L"
  by (rule ext) (simp add: nap_ids_def split: option.split)

lemma nap_invD:
  assumes "nap_inv rep tbl h L"
  shows "pstFuncTbl h = tbl" "rep (impl h) L" "lb_inv (hLBitmap h)" "lb_set (hLBitmap h) = dom L" "nap_seq_ok h"
    and "L i = Some p \<Longrightarrow> ulID h p AND ulIndexMask h = i" "L i = Some p \<Longrightarrow> ulID h p \<noteq> 0"
    and "L i = Some p \<Longrightarrow> L j = Some p \<Longrightarrow> i = j"
  using assms by (auto simp: nap_inv_def inj_on_def dom_def)

lemma nap_ids_iff:
  assumes "nap_inv rep tbl h L"
  shows "nap_ids h L u = Some p \<longleftrightarrow> (\<exists>i. L i = Some p \<and> ulID h p = u)"
  using nap_invD(6) [OF assms] by (auto simp: nap_ids_def split: option.split if_splits) (metis option.inject)

lemma nap_ids_ran: "nap_inv rep tbl h L \<Longrightarrow> ran (nap_ids h L) = ran L"
  using nap_ids_iff [of rep tbl h L] by (auto simp: ran_def)

lemma nap_ids_card: "nap_inv rep tbl h L \<Longrightarrow> card (dom (nap_ids h L)) = card (dom L)"
proof -
  assume i: "nap_inv rep tbl h L"
  have "dom (nap_ids h L) = (\<lambda>i. ulID h (the (L i))) ` dom L"
    using nap_ids_iff [OF i] by (auto simp: dom_def image_iff) (metis option.sel)+
  moreover have "inj_on (\<lambda>i. ulID h (the (L i))) (dom L)"
    using nap_invD(6) [OF i] by (auto simp: inj_on_def dom_def) (metis option.sel)
  ultimately show ?thesis by (simp add: card_image)
qed

locale nap_store =
  fixes tbl :: "'s nap_func_tbl"
    and rep :: "'s \<Rightarrow> (UINT \<rightharpoonup> nap_ptr) \<Rightarrow> bool"
    and room :: "UINT \<Rightarrow> bool"
  assumes get: "rep s L \<Longrightarrow> L i = Some p \<Longrightarrow> pfGetNodeByIndex tbl s i = Some p"
    and alloc_none: "rep s L \<Longrightarrow> L i = None \<Longrightarrow> room i \<Longrightarrow> mem_ok mem L \<Longrightarrow> pfAlloc tbl mem s i = (None, s') \<Longrightarrow> rep s' L"
    and alloc_some: "rep s L \<Longrightarrow> L i = None \<Longrightarrow> room i \<Longrightarrow> mem_ok mem L \<Longrightarrow> pfAlloc tbl mem s i = (Some p, s') \<Longrightarrow>
      rep s' (L(i \<mapsto> p)) \<and> p \<notin> ran L"
    and alloc_mem: "rep s L \<Longrightarrow> pfAlloc tbl mem s i = (None, s') \<Longrightarrow> mem = None"
    and free: "rep s L \<Longrightarrow> L i = Some p \<Longrightarrow> rep (pfFree tbl s p i) (L(i := None))"
begin

lemma GetNodeByIndex_law:
  assumes "nap_inv rep tbl h L"
  shows "NAP_GetNodeByIndex h i = L i"
proof (cases "L i")
  case None
  then have "i \<notin> lb_set (hLBitmap h)" using nap_invD(4) [OF assms] by auto
  then show ?thesis using None nap_invD(3) [OF assms] by (simp add: NAP_GetNodeByIndex_def nap_IsIndexSetted_def IsBitSetted_law)
next
  case (Some p)
  then have "i \<in> lb_set (hLBitmap h)" using nap_invD(4) [OF assms] by auto
  then show ?thesis
    using Some nap_invD(1-3) [OF assms] get by (simp add: NAP_GetNodeByIndex_def nap_IsIndexSetted_def IsBitSetted_law)
qed

lemma GetNodeByID_law:
  assumes "nap_inv rep tbl h L"
  shows "NAP_GetNodeByID h u = nap_ids h L u"
proof -
  have "NAP_GetNodeByID h u = (if u = 0 then None else case NAP_GetNodeByIndex h (u AND ulIndexMask h) of
      None \<Rightarrow> None | Some p \<Rightarrow> if ulID h p \<noteq> u then None else Some p)"
    by (auto simp: NAP_GetNodeByID_def NAP_GetNodeByIndex_def Let_def nap_CacleIndexByID_def nap_invalid split: option.split)
  moreover have "nap_ids h L 0 = None" using nap_invD(7) [OF assms] by (auto simp: nap_ids_def split: option.split)
  ultimately show ?thesis unfolding GetNodeByIndex_law [OF assms] by (auto simp: nap_ids_def split: option.split)
qed

lemma place_law:
  assumes inv: "nap_inv rep tbl h L" and bm: "lb_inv bm" "lb_set bm = insert idx (dom L)"
    and idx: "L idx = None" "room idx" "idx AND ulIndexMask h = idx" and mem: "mem_ok mem L"
    and ident: "\<And>h'. nap_seq_ok h' \<Longrightarrow> ulIndexMask h' = ulIndexMask h \<Longrightarrow> \<exists>uid opt. ident h' = (uid, h'\<lparr>stSeqOpt := opt\<rparr>) \<and>
      uid AND ulIndexMask h = idx \<and> uid \<noteq> 0 \<and> nap_seq_ok (h'\<lparr>stSeqOpt := opt\<rparr>)"
    and r: "nap_place ident counted mem (idx, h\<lparr>hLBitmap := bm\<rparr>) = (res, h')"
  shows "ulIndexMask h' = ulIndexMask h \<and> uiMaxNum h' = uiMaxNum h \<and>
    (case res of None \<Rightarrow> nap_inv rep tbl h' L \<and> ulID h' = ulID h
     | Some p \<Rightarrow> nap_inv rep tbl h' (L(idx \<mapsto> p)) \<and> p \<notin> ran L \<and> ulID h' p AND ulIndexMask h = idx \<and> ulID h' = (ulID h)(p := ulID h' p))"
proof (cases "idx = NAP_INVALID_INDEX")
  case True
  have "\<not> bit (0x80000000 AND ulIndexMask h) 31" using nap_invD(5) [OF inv] by (simp add: nap_seq_ok_def)
  moreover have "bit (0x80000000 :: UINT) 31" "bit (0xffffffff :: UINT) 31" by code_simp+
  ultimately have "\<not> bit (idx AND ulIndexMask h) 31" "bit idx 31" using True by (simp_all add: bit_and_iff NAP_INVALID_INDEX_def)
  then show ?thesis using idx(3) by simp
next
  case False
  note i = nap_invD [OF inv]
  obtain node st where a: "pfAlloc tbl mem (impl h) idx = (node, st)" by (metis surj_pair)
  show ?thesis
  proof (cases node)
    case None
    have e: "res = None" "h' = nap_FreeIndex (h\<lparr>hLBitmap := bm, impl := st\<rparr>) idx"
      using r False a None i(1) by (auto simp: nap_place_def)
    have "lb_set (LBitMap_ClrBit bm idx) = dom L" using ClrBit_laws(2) [OF bm(1)] bm(2) idx(1) by auto
    moreover have "rep st L" using alloc_none [OF i(2) idx(1,2) mem] a None by simp
    ultimately show ?thesis
      using inv ClrBit_laws(1) [OF bm(1)] unfolding e by (auto simp: nap_FreeIndex_def nap_inv_def nap_seq_ok_def)
  next
    case (Some p)
    have s: "rep st (L(idx \<mapsto> p))" "p \<notin> ran L" using alloc_some [OF i(2) idx(1,2) mem, of p st] a Some by simp_all
    let ?h1 = "h\<lparr>hLBitmap := bm, impl := st\<rparr>"
    have "nap_seq_ok ?h1" using i(5) by (simp add: nap_seq_ok_def)
    then obtain uid opt where u: "ident ?h1 = (uid, ?h1\<lparr>stSeqOpt := opt\<rparr>)" "uid AND ulIndexMask h = idx" "uid \<noteq> 0"
      "nap_seq_ok (?h1\<lparr>stSeqOpt := opt\<rparr>)" using ident [of ?h1] by auto
    have e: "res = Some p" "pstFuncTbl h' = tbl" "impl h' = st" "hLBitmap h' = bm" "ulID h' = (ulID h)(p := uid)"
      "ulIndexMask h' = ulIndexMask h" "uiMaxNum h' = uiMaxNum h" "stSeqOpt h' = opt"
      using r False a Some i(1) u(1) by (auto simp: nap_place_def)
    have "nap_seq_ok h'" using u(4) e(6,8) by (simp add: nap_seq_ok_def)
    moreover have "inj_on (L(idx \<mapsto> p)) (dom (L(idx \<mapsto> p)))"
      using s(2) i(8) by (auto simp: inj_on_def ran_def dom_def split: if_splits)
    moreover have "q \<noteq> p" if "L j = Some q" for j q using s(2) that by (auto simp: ran_def)
    ultimately have "nap_inv rep tbl h' (L(idx \<mapsto> p))"
      using e s(1) bm u(2,3) i(6,7) unfolding nap_inv_def by auto
    then show ?thesis using e s(2) u(2) by simp
  qed
qed

lemma place_ids:
  assumes "nap_inv rep tbl h L" "L idx = None" "p \<notin> ran L" "ulID h' p AND ulIndexMask h = idx" "ulID h' = (ulID h)(p := ulID h' p)"
    and "ulIndexMask h' = ulIndexMask h"
  shows "nap_ids h' (L(idx \<mapsto> p)) = (nap_ids h L)(ulID h' p \<mapsto> p)"
proof
  fix u
  have o: "ulID h' q = ulID h q" if "L j = Some q" for j q using that assms(3,5) by (metis fun_upd_other ranI)
  show "nap_ids h' (L(idx \<mapsto> p)) u = ((nap_ids h L)(ulID h' p \<mapsto> p)) u"
    using assms(2,4,6) o by (auto simp: nap_ids_def split: option.split)
qed

lemma Free_law:
  assumes inv: "nap_inv rep tbl h L" and p: "L i = Some p"
  shows "nap_inv rep tbl (NAP_Free h (Some p)) (L(i := None)) \<and> ulIndexMask (NAP_Free h (Some p)) = ulIndexMask h \<and>
    uiMaxNum (NAP_Free h (Some p)) = uiMaxNum h \<and> nap_ids (NAP_Free h (Some p)) (L(i := None)) = (nap_ids h L)(ulID h p := None)"
proof -
  note i = nap_invD [OF inv]
  let ?h = "NAP_Free h (Some p)"
  have idx: "ulID h p AND ulIndexMask h = i" by (rule i(6) [OF p])
  have e: "pstFuncTbl ?h = tbl" "impl ?h = pfFree tbl (impl h) p i" "hLBitmap ?h = LBitMap_ClrBit (hLBitmap h) i" "ulID ?h = ulID h"
    "ulIndexMask ?h = ulIndexMask h" "uiMaxNum ?h = uiMaxNum h" "stSeqOpt ?h = stSeqOpt h"
    using i(1) idx by (simp_all add: NAP_Free_def Let_def nap_FreeIndex_def nap_CacleIndexByID_def)
  have "nap_inv rep tbl ?h (L(i := None))"
    unfolding nap_inv_def e nap_seq_ok_def
    using free [OF i(2) p] ClrBit_laws [OF i(3), of i] i(4-8) by (auto simp: nap_seq_ok_def inj_on_def dom_def)
  moreover have "nap_ids ?h (L(i := None)) = (nap_ids h L)(ulID h p := None)"
    using idx p by (auto simp: nap_ids_def e fun_eq_iff split: option.split)
  ultimately show ?thesis using e(5,6) by simp
qed

end

section \<open>The three stores\<close>

definition array_rep :: "nat \<Rightarrow> nap_array \<Rightarrow> (UINT \<rightharpoonup> nap_ptr) \<Rightarrow> bool" where
  [inv_defs]: "array_rep n s L \<longleftrightarrow> uiNapNodeSize s \<noteq> 0 \<and> n * unat (uiNapNodeSize s) < 2 ^ 32 \<and>
     (\<forall>i p. L i = Some p \<longrightarrow> unat i < n \<and> p = pucMem s + unat i * unat (uiNapNodeSize s))"

definition ptr_rep :: "nat \<Rightarrow> nap_ptr option list \<Rightarrow> (UINT \<rightharpoonup> nap_ptr) \<Rightarrow> bool" where
  [inv_defs]: "ptr_rep n s L \<longleftrightarrow> length s = n \<and> (\<forall>i p. L i = Some p \<longrightarrow> unat i < n \<and> s ! unat i = Some p)"

definition hash_rep :: "nap_hash_node hash \<Rightarrow> (UINT \<rightharpoonup> nap_ptr) \<Rightarrow> bool" where
  [inv_defs]: "hash_rep s L \<longleftrightarrow> hash_for nap_hash_Index nap_hash_Cmp s \<and>
     set (hash_list s) = {\<lparr>uiIndex = i, addr = Some p\<rparr> |i p. L i = Some p}"

lemma array_offset:
  fixes i size :: UINT
  assumes "unat i < n" "n * unat size < 2 ^ 32"
  shows "unat (i * size) = unat i * unat size" "unat (size * i) = unat i * unat size"
proof -
  have "unat i * unat size \<le> n * unat size" using assms(1) by (intro mult_le_mono1) simp
  then have "unat i * unat size < 2 ^ 32" using assms(2) by (rule le_less_trans)
  then show "unat (i * size) = unat i * unat size" "unat (size * i) = unat i * unat size"
    by (simp_all add: unat_word_ariths mult.commute)
qed

interpretation array_store: nap_store g_stNapStaticFuncTbl "array_rep n" "\<lambda>i. unat i < n" for n
proof unfold_locales
  fix s s' :: nap_array and L and i :: UINT and mem p
  assume rep: "array_rep n s L"
  then have sz: "n * unat (uiNapNodeSize s) < 2 ^ 32" "uiNapNodeSize s \<noteq> 0" by (simp_all add: array_rep_def)
  note off = array_offset [OF _ sz(1)]
  show "pfGetNodeByIndex g_stNapStaticFuncTbl s i = Some p" if "L i = Some p"
    using rep that off [of i] by (auto simp: g_stNapStaticFuncTbl_def nap_array_GetNodeByIndex_def array_rep_def)
  show "array_rep n s' L" if "pfAlloc g_stNapStaticFuncTbl mem s i = (None, s')"
    using that by (simp add: g_stNapStaticFuncTbl_def nap_array_Alloc_def)
  show "mem = None" if "pfAlloc g_stNapStaticFuncTbl mem s i = (None, s')"
    using that by (simp add: g_stNapStaticFuncTbl_def nap_array_Alloc_def)
  show "array_rep n s' (L(i \<mapsto> p)) \<and> p \<notin> ran L"
    if "L i = None" "unat i < n" "pfAlloc g_stNapStaticFuncTbl mem s i = (Some p, s')"
  proof -
    have e: "s' = s" "p = pucMem s + unat i * unat (uiNapNodeSize s)"
      using that(3) off [OF that(2)] by (auto simp: g_stNapStaticFuncTbl_def nap_array_Alloc_def)
    have "L j \<noteq> Some p" for j
    proof
      assume j: "L j = Some p"
      then have "p = pucMem s + unat j * unat (uiNapNodeSize s)" using rep unfolding array_rep_def by blast
      then have "unat j * unat (uiNapNodeSize s) = unat i * unat (uiNapNodeSize s)" using e(2) by linarith
      moreover have "unat (uiNapNodeSize s) \<noteq> 0" using sz(2) by (simp add: unat_eq_0)
      ultimately have "j = i" using word_unat_eq_iff [of j i] by simp
      then show False using that(1) j by simp
    qed
    then show ?thesis using rep e that(2) by (auto simp: array_rep_def ran_def)
  qed
  show "array_rep n (pfFree g_stNapStaticFuncTbl s p i) (L(i := None))"
    using rep by (auto simp: array_rep_def g_stNapStaticFuncTbl_def nap_array_Free_def)
qed

interpretation ptr_store: nap_store g_stNapPtrArrayFuncTbl "ptr_rep n" "\<lambda>i. unat i < n" for n
proof unfold_locales
  fix s s' :: "nap_ptr option list" and L and i :: UINT and mem p
  assume rep: "ptr_rep n s L"
  have other: "unat i = unat j \<longleftrightarrow> i = j" for j using word_unat_eq_iff by blast
  show "pfGetNodeByIndex g_stNapPtrArrayFuncTbl s i = Some p" if "L i = Some p"
    using rep that by (simp add: g_stNapPtrArrayFuncTbl_def nap_ptrarray_GetNodeByIndex_def ptr_rep_def)
  have upd: "ptr_rep n (s[unat i := m]) (L(i := m))" if "unat i < n" for m
    using rep other that by (auto simp: ptr_rep_def nth_list_update)
  show "ptr_rep n s' L" if "L i = None" "unat i < n" "pfAlloc g_stNapPtrArrayFuncTbl mem s i = (None, s')"
    using upd [of None] that by (auto simp: g_stNapPtrArrayFuncTbl_def nap_ptrarray_Alloc_def fun_upd_idem)
  show "ptr_rep n s' (L(i \<mapsto> p)) \<and> p \<notin> ran L"
    if "unat i < n" "mem_ok mem L" "pfAlloc g_stNapPtrArrayFuncTbl mem s i = (Some p, s')"
    using upd [of "Some p"] that by (auto simp: g_stNapPtrArrayFuncTbl_def nap_ptrarray_Alloc_def mem_ok_def)
  show "mem = None" if "pfAlloc g_stNapPtrArrayFuncTbl mem s i = (None, s')"
    using that by (simp add: g_stNapPtrArrayFuncTbl_def nap_ptrarray_Alloc_def)
  show "ptr_rep n (pfFree g_stNapPtrArrayFuncTbl s p i) (L(i := None))" if "L i = Some p"
    using upd [of None] rep that by (auto simp: g_stNapPtrArrayFuncTbl_def nap_ptrarray_Free_def ptr_rep_def)
qed

lemma nap_hash_Cmp_0: "nap_hash_Cmp a b = 0 \<longleftrightarrow> uiIndex a = uiIndex b"
  by (simp add: nap_hash_Cmp_def)

interpretation hash_store: nap_store g_stNapHashFuncTbl hash_rep "\<lambda>i. unat i < n" for n
proof unfold_locales
  fix s s' :: "nap_hash_node hash" and L and i :: UINT and mem p
  assume rep: "hash_rep s L"
  then have h: "hash_for nap_hash_Index nap_hash_Cmp s"
    and el: "\<And>x. x \<in># mset (hash_list s) \<longleftrightarrow> (\<exists>i p. x = \<lparr>uiIndex = i, addr = Some p\<rparr> \<and> L i = Some p)"
    by (auto simp: hash_rep_def)
  show "pfGetNodeByIndex g_stNapHashFuncTbl s i = Some p" if "L i = Some p"
  proof (cases "HASH_Find s nap_hash_Cmp \<lparr>uiIndex = i, addr = None\<rparr>")
    case None
    then show ?thesis using hash_bag.search_none [OF h None, of "\<lparr>uiIndex = i, addr = Some p\<rparr>"] el that by (auto simp: nap_hash_Cmp_0)
  next
    case (Some x)
    then have "x = \<lparr>uiIndex = i, addr = Some p\<rparr>" using hash_bag.search_some [OF h Some] el that by (auto simp: nap_hash_Cmp_0)
    then show ?thesis using Some by (simp add: g_stNapHashFuncTbl_def nap_hash_GetNodeByIndex_def nap_hash_Find_def)
  qed
  show "hash_rep s' L" if "pfAlloc g_stNapHashFuncTbl mem s i = (None, s')"
    using rep that by (auto simp: g_stNapHashFuncTbl_def nap_hash_Alloc_def split: option.splits)
  show "mem = None" if "pfAlloc g_stNapHashFuncTbl mem s i = (None, s')"
    using that by (auto simp: g_stNapHashFuncTbl_def nap_hash_Alloc_def split: option.splits)
  show "hash_rep s' (L(i \<mapsto> p)) \<and> p \<notin> ran L"
    if "L i = None" "mem_ok mem L" "pfAlloc g_stNapHashFuncTbl mem s i = (Some p, s')"
  proof -
    let ?x = "\<lparr>uiIndex = i, addr = Some p\<rparr>"
    have e: "mem = Some p" "s' = HASH_Add s ?x"
      using that(3) by (auto simp: g_stNapHashFuncTbl_def nap_hash_Alloc_def split: option.splits)
    have "?x \<notin> set (hash_list s)" using el [of ?x] that(1) by auto
    note a = hash_bag.ins_inv [OF h this] hash_bag.ins_elems [OF h this]
    have "set (hash_list (HASH_Add s ?x)) = insert ?x (set (hash_list s))" using arg_cong [OF a(2), of set_mset] by simp
    then show ?thesis
      using a(1) rep that(1,2) e unfolding hash_rep_def mem_ok_def by (auto split: if_splits)
  qed
  show "hash_rep (pfFree g_stNapHashFuncTbl s p i) (L(i := None))" if "L i = Some p"
  proof -
    let ?x = "\<lparr>uiIndex = i, addr = Some p\<rparr>"
    have x: "?x \<in># mset (hash_list s)" using el [of ?x] that by auto
    note d = hash_bag.del_inv [OF h x] hash_bag.del_elems [OF h x]
    have "distinct (hash_list s)" using h by (simp add: hash_for_def hash_ok_def)
    moreover have "mset (hash_list (HASH_Del s ?x)) = mset (remove1 ?x (hash_list s))" using d(2) by simp
    then have "set (hash_list (HASH_Del s ?x)) = set (remove1 ?x (hash_list s))" by (metis set_mset_mset)
    ultimately have "set (hash_list (HASH_Del s ?x)) = set (hash_list s) - {?x}" by simp
    moreover have "{\<lparr>uiIndex = j, addr = Some q\<rparr> |j q. (L(i := None)) j = Some q} =
        {\<lparr>uiIndex = j, addr = Some q\<rparr> |j q. L j = Some q} - {?x}"
      using that by (auto split: if_splits) (metis option.inject)
    ultimately show ?thesis
      using d(1) rep unfolding hash_rep_def g_stNapHashFuncTbl_def nap_hash_Free_def nap_func_tbl.select_convs by metis
  qed
qed

section \<open>Identifiers\<close>

lemma top_bit: "bit (0x80000000 :: UINT) k \<longleftrightarrow> k = 31"
proof -
  have "(0x80000000 :: UINT) = push_bit 31 1" by (simp add: push_bit_eq_mult)
  then have "bit (0x80000000 :: UINT) k \<longleftrightarrow> bit (push_bit 31 (1 :: UINT)) k" by (rule arg_cong)
  also have "\<dots> \<longleftrightarrow> k = 31" unfolding bit_push_bit_iff bit_1_iff by auto
  finally show ?thesis .
qed

lemma index_fits:
  assumes "nb < 32" "unat idx < 2 ^ nb"
  shows "idx AND NOT (PREFIX_2_MASK (32 - nb)) = idx"
proof (rule bit_word_eqI)
  fix k assume "k < LENGTH(32)"
  have "bit idx k \<Longrightarrow> k < nb"
  proof (rule ccontr)
    assume "bit idx k" "\<not> k < nb"
    moreover have "take_bit nb (unat idx) = unat idx" using assms(2) by (rule take_bit_nat_eq_self)
    moreover have "bit (unat idx) k" using \<open>bit idx k\<close> \<open>k < LENGTH(32)\<close> by (simp add: bit_unsigned_iff)
    ultimately show False by (metis bit_take_bit_iff)
  qed
  then show "bit (idx AND NOT (PREFIX_2_MASK (32 - nb))) k \<longleftrightarrow> bit idx k"
    using assms(1) \<open>k < LENGTH(32)\<close> by (auto simp: bit_simps bit_PREFIX_2_MASK)
qed

lemma top_off: "nb < 32 \<Longrightarrow> 0x80000000 AND NOT (PREFIX_2_MASK (32 - nb)) = 0"
  by (rule bit_word_eqI) (simp only: bit_and_iff bit_not_iff top_bit, simp add: bit_PREFIX_2_MASK)

lemma id_index:
  fixes idx m sm t c :: UINT
  assumes "idx AND m = idx" "sm AND m = 0" "c AND m = 0"
  shows "((idx AND NOT sm) OR (t AND sm) OR c) AND m = idx"
proof (rule bit_word_eqI)
  fix k assume k: "k < LENGTH(32)"
  have "bit (idx AND m) k = bit idx k" "\<not> bit (sm AND m) k" "\<not> bit (c AND m) k" unfolding assms by simp_all
  then show "bit (((idx AND NOT sm) OR (t AND sm) OR c) AND m) k = bit idx k" using k by (auto simp: bit_simps)
qed

lemma or_top_neq_0: "x OR 0x80000000 \<noteq> (0 :: UINT)"
proof
  assume "x OR 0x80000000 = (0 :: UINT)"
  then have "\<not> bit (x OR 0x80000000 :: UINT) 31" by simp
  then show False by (simp add: bit_or_iff top_bit)
qed

lemma CacleID_law:
  assumes "nap_seq_ok h" "idx AND ulIndexMask h = idx"
  shows "\<exists>uid opt. nap_CacleIDByIndex h idx = (uid, h\<lparr>stSeqOpt := opt\<rparr>) \<and> uid AND ulIndexMask h = idx \<and> uid \<noteq> 0 \<and>
    nap_seq_ok (h\<lparr>stSeqOpt := opt\<rparr>)"
proof (cases "bEnable (stSeqOpt h)")
  case True
  let ?o = "stSeqOpt h" and ?p = "unat (idx mod uiSeqArrayCount (stSeqOpt h))"
  let ?seq = "the (seq_array ?o)"
  let ?t = "push_bit (ucSeqStartIndex ?o) (ucast (?seq ! ?p)) :: UINT"
  let ?opt = "?o\<lparr>seq_array := Some (?seq[?p := ?seq ! ?p + 1])\<rparr>"
  have m: "ulSeqMask ?o AND ulIndexMask h = 0" "0x80000000 AND ulIndexMask h = 0" using assms(1) True by (simp_all add: nap_seq_ok_def)
  have "nap_CacleIDByIndex h idx = ((idx AND NOT (ulSeqMask ?o)) OR (?t AND ulSeqMask ?o) OR 0x80000000, h\<lparr>stSeqOpt := ?opt\<rparr>)"
    using True by (simp add: nap_CacleIDByIndex_def Let_def or.assoc)
  moreover have "nap_seq_ok (h\<lparr>stSeqOpt := ?opt\<rparr>)" using assms(1) True by (auto simp: nap_seq_ok_def)
  moreover have "(idx AND NOT (ulSeqMask ?o)) OR (?t AND ulSeqMask ?o) OR 0x80000000 \<noteq> 0"
    using or_top_neq_0 [of "(idx AND NOT (ulSeqMask ?o)) OR (?t AND ulSeqMask ?o)"] by (simp only: or.assoc not_False_eq_True)
  ultimately show ?thesis using id_index [OF assms(2) m, of ?t] by blast
next
  case False
  have "(idx OR 0x80000000) AND ulIndexMask h = idx"
    using assms id_index [OF assms(2), of 0 "0x80000000" 0] by (simp add: nap_seq_ok_def)
  then show ?thesis
    using False assms by (intro exI [of _ "idx OR 0x80000000"] exI [of _ "stSeqOpt h"]) (simp add: nap_CacleIDByIndex_def or_top_neq_0)
qed

lemma EnableSeq_law:
  assumes ok: "nap_seq_ok h" and m: "seqMask = 0 \<or> seqMask AND ulIndexMask h = 0"
    and mem: "\<And>seq. seq_mem = Some seq \<Longrightarrow> length seq = unat uiSeqCount"
  shows "\<exists>opt. snd (NAP_EnableSeq h seqMask uiSeqCount seq_mem) = h\<lparr>stSeqOpt := opt\<rparr> \<and> nap_seq_ok (h\<lparr>stSeqOpt := opt\<rparr>)"
proof -
  let ?m = "if seqMask = 0 then NOT (ulIndexMask h) AND 0xffff0000 else seqMask"
  have "(NOT (ulIndexMask h) AND 0xffff0000) AND ulIndexMask h = 0" by (rule bit_word_eqI) (simp add: bit_and_iff bit_not_iff)
  then have m': "?m AND ulIndexMask h = 0" using m by auto
  obtain ret h1 where s: "nap_SetSeqMask h ?m = (ret, h1)" by (metis surj_pair)
  have same: "\<exists>opt. h = h\<lparr>stSeqOpt := opt\<rparr> \<and> nap_seq_ok (h\<lparr>stSeqOpt := opt\<rparr>)" using ok by (intro exI [of _ "stSeqOpt h"]) simp
  show ?thesis
  proof (cases "?m = 0 \<or> uiSeqCount = 0 \<or> ret \<noteq> BS_OK")
    case True
    have "snd (NAP_EnableSeq h seqMask uiSeqCount seq_mem) = h"
      using True s by (auto simp: NAP_EnableSeq_def Let_def nap_SetSeqMask_def split: if_splits)
    then show ?thesis using same by simp
  next
    case False
    then obtain st where h1: "h1 = h\<lparr>stSeqOpt := (stSeqOpt h)\<lparr>ulSeqMask := ?m, ucSeqStartIndex := st\<rparr>\<rparr>"
      using s by (auto simp: nap_SetSeqMask_def Let_def split: if_splits)
    have count: "uiSeqCount \<noteq> 0" "?m \<noteq> 0" "ret = BS_OK" using False by simp_all
    show ?thesis
    proof (cases "seq_array (stSeqOpt h)")
      case (Some seq)
      have "snd (NAP_EnableSeq h seqMask uiSeqCount seq_mem) = h\<lparr>stSeqOpt := (stSeqOpt h1)\<lparr>bEnable := True\<rparr>\<rparr>"
        using count s Some unfolding NAP_EnableSeq_def Let_def h1 by simp
      then show ?thesis using ok m' Some unfolding h1 by (auto simp: nap_seq_ok_def)
    next
      case None
      then have off: "\<not> bEnable (stSeqOpt h)" using ok by (auto simp: nap_seq_ok_def)
      show ?thesis
      proof (cases seq_mem)
        case none: None
        have "snd (NAP_EnableSeq h seqMask uiSeqCount seq_mem) = h\<lparr>stSeqOpt := stSeqOpt h1\<rparr>"
          using count s None none unfolding NAP_EnableSeq_def Let_def h1 by simp
        then show ?thesis using ok None off unfolding h1 by (auto simp: nap_seq_ok_def)
      next
        case (Some seq)
        have "snd (NAP_EnableSeq h seqMask uiSeqCount seq_mem) =
            h\<lparr>stSeqOpt := (stSeqOpt h1)\<lparr>seq_array := Some seq, uiSeqArrayCount := uiSeqCount, bEnable := True\<rparr>\<rparr>"
          using count s None Some unfolding NAP_EnableSeq_def Let_def h1 by simp
        then show ?thesis using ok m' count(1) mem [OF Some] unfolding h1 by (auto simp: nap_seq_ok_def)
      qed
    qed
  qed
qed

lemma ChangeNodeID_law:
  assumes inv: "nap_inv rep tbl h L" and u: "nap_ids h L u = Some p" and v: "v \<noteq> 0"
    and c: "NAP_ChangeNodeID h (Some p) v = (BS_OK, h')"
  shows "nap_inv rep tbl h' L \<and> ulIndexMask h' = ulIndexMask h \<and> uiMaxNum h' = uiMaxNum h \<and>
    nap_ids h' L = (nap_ids h L)(u := None, v \<mapsto> p)"
proof -
  note i = nap_invD [OF inv]
  obtain j where j: "L j = Some p" "ulID h p = u" using nap_ids_iff [OF inv] u by blast
  have h': "h' = h\<lparr>ulID := (ulID h)(p := v)\<rparr>" and same: "v AND ulIndexMask h = j"
    using c j i(6) [OF j(1)] i(7) [OF j(1)]
    by (auto simp: NAP_ChangeNodeID_def NAP_GetIDByNode_def nap_invalid nap_CacleIndexByID_def Let_def split: if_splits)
  have q: "L k = Some q \<Longrightarrow> q = p \<longleftrightarrow> k = j" for k q using i(8) j(1) by auto
  have inv': "nap_inv rep tbl h' L" using inv v same q unfolding h' nap_inv_def nap_seq_ok_def by auto
  have "nap_ids h' L = (nap_ids h L)(u := None, v \<mapsto> p)"
  proof
    fix x
    have u_at: "u AND ulIndexMask h = j" using i(6) [OF j(1)] j(2) by simp
    have other: "k \<noteq> j \<Longrightarrow> L k = Some r \<Longrightarrow> r \<noteq> p" for k r using q by blast
    show "nap_ids h' L x = ((nap_ids h L)(u := None, v \<mapsto> p)) x"
      using j same u_at other unfolding h' by (cases "x AND ulIndexMask h = j") (auto simp: nap_ids_def split: option.split)
  qed
  then show ?thesis using inv' h' by simp
qed

section \<open>Walking a pool\<close>

text \<open>The walks see the indices that the search for busy bits sees.\<close>

lemma masked_below: "nap_seq_ok h \<Longrightarrow> u AND ulIndexMask h \<noteq> NAP_INVALID_INDEX"
proof
  assume ok: "nap_seq_ok h" and i: "u AND ulIndexMask h = NAP_INVALID_INDEX"
  have "\<not> bit (0x80000000 AND ulIndexMask h) 31" using ok by (simp add: nap_seq_ok_def)
  moreover have "bit (0x80000000 :: UINT) 31" "bit NAP_INVALID_INDEX 31" by code_simp+
  ultimately show False using i by (metis bit_and_iff)
qed

lemma index_below: "nap_inv rep tbl h L \<Longrightarrow> L i = Some p \<Longrightarrow> i \<noteq> NAP_INVALID_INDEX"
  using masked_below [OF nap_invD(5)] nap_invD(6) by metis

lemma GetNextIndex_law:
  assumes inv: "nap_inv rep tbl h L" and r: "NAP_GetNextIndex h cur = i"
  shows "if i = NAP_INVALID_INDEX then \<forall>k\<in>dom L. cur = NAP_INVALID_INDEX \<or> cur < k \<longrightarrow> \<not> lb_visible k
    else i \<in> dom L \<and> lb_visible i \<and> (cur = NAP_INVALID_INDEX \<or> cur < i) \<and>
      (\<forall>k\<in>dom L. cur = NAP_INVALID_INDEX \<or> cur < k \<longrightarrow> k < i \<longrightarrow> \<not> lb_visible k)"
proof -
  note n = nap_invD(3,4) [OF inv]
  define lo where "lo = (if cur = NAP_INVALID_INDEX then 0 else cur + 1)"
  have above: "lo \<le> k \<longleftrightarrow> cur = NAP_INVALID_INDEX \<or> cur < k" for k
    using after_word [of cur k] by (simp add: lo_def NAP_INVALID_INDEX_def)
  have e: "i = (case lbitmap_GetBusyBit 3 (hLBitmap h) lo 0xffffffff of None \<Rightarrow> NAP_INVALID_INDEX | Some j \<Rightarrow> j)"
    using r unfolding NAP_GetNextIndex_def LBitMap_GetFirstBusyBit_def LBitMap_GetNextBusyBit_def lb_height lo_def by (simp split: if_splits)
  note b = busy_law [OF n(1), of lo, unfolded n(2) above]
  show ?thesis
  proof (cases "lbitmap_GetBusyBit 3 (hLBitmap h) lo 0xffffffff")
    case None
    then show ?thesis using b e by simp
  next
    case (Some j)
    then have "j \<in> dom L" using b by simp
    then have "j \<noteq> NAP_INVALID_INDEX" using index_below [OF inv] by auto
    then show ?thesis using b e Some by simp
  qed
qed

context nap_store
begin

lemma GetNextID_law:
  assumes inv: "nap_inv rep tbl h L"
  shows "NAP_GetNextID h u =
    (let i = NAP_GetNextIndex h (if u = 0 then NAP_INVALID_INDEX else u AND ulIndexMask h)
     in case L i of None \<Rightarrow> 0 | Some p \<Rightarrow> ulID h p)"
proof -
  let ?i = "NAP_GetNextIndex h (if u = 0 then NAP_INVALID_INDEX else u AND ulIndexMask h)"
  have "L NAP_INVALID_INDEX = None" using index_below [OF inv] by (metis not_Some_eq)
  moreover have "\<exists>p. L ?i = Some p \<and> pfGetNodeByIndex tbl (impl h) ?i = Some p" if "?i \<noteq> NAP_INVALID_INDEX"
  proof -
    have "?i \<in> dom L" using GetNextIndex_law [OF inv refl, of "if u = 0 then NAP_INVALID_INDEX else u AND ulIndexMask h"]
      unfolding if_not_P [OF that] by (elim conjE)
    then show ?thesis using get [OF nap_invD(2) [OF inv]] by blast
  qed
  ultimately show ?thesis
    using nap_invD(1) [OF inv] unfolding NAP_GetNextID_def Let_def nap_CacleIndexByID_def NAP_INVALID_ID_def
    by (cases "?i = NAP_INVALID_INDEX") auto
qed

lemma free_all_law:
  assumes "nap_inv rep tbl h L" "finite (dom L)" "\<And>k. k \<in> dom L \<Longrightarrow> lb_visible k \<Longrightarrow> cur = NAP_INVALID_INDEX \<or> cur < k"
  shows "\<exists>h'. free_all cur h = Some h' \<and> nap_inv rep tbl h' (\<lambda>k. if lb_visible k then None else L k) \<and>
    ulIndexMask h' = ulIndexMask h \<and> uiMaxNum h' = uiMaxNum h \<and> ulID h' = ulID h"
  using assms
proof (induction "card (dom L)" arbitrary: h L cur)
  case 0
  then have L: "L = Map.empty" by simp
  have "NAP_GetNextIndex h cur = NAP_INVALID_INDEX" using GetNextIndex_law [OF 0(2) refl, of cur] L by (simp split: if_splits)
  then have "free_all cur h = Some h" by (subst free_all.simps) simp
  moreover have "(\<lambda>k. if lb_visible k then None else L k) = L" using L by auto
  ultimately show ?case using 0(2) by simp
next
  case (Suc n)
  define i where "i = NAP_GetNextIndex h cur"
  note g = GetNextIndex_law [OF Suc.prems(1) i_def [symmetric]]
  show ?case
  proof (cases "i = NAP_INVALID_INDEX")
    case True
    then have "(\<lambda>k. if lb_visible k then None else L k) = L" using g Suc.prems(3) by (auto simp: fun_eq_iff) (metis domI not_None_eq)
    moreover have "free_all cur h = Some h" using True by (subst free_all.simps) (simp add: i_def)
    ultimately show ?thesis using Suc.prems(1) by simp
  next
    case False
    then obtain p where p: "L i = Some p" "lb_visible i" using g by auto
    let ?h = "NAP_Free h (Some p)" and ?L = "L(i := None)"
    have c: "n = card (dom ?L)" using Suc.hyps(2) Suc.prems(2) p(1) by (simp add: domIff)
    have "i < k" if "k \<in> dom ?L" "lb_visible k" for k
      using g that Suc.prems(3) [of k] False by (auto simp: not_less le_less split: if_splits)
    note IH = Suc.hyps(1) [OF c conjunct1 [OF Free_law [OF Suc.prems(1) p(1)]] _ disjI2 [OF this]]
    have "free_all cur h = free_all i ?h"
      using False by (subst free_all.simps) (simp add: i_def [symmetric] GetNodeByIndex_law [OF Suc.prems(1)] p(1))
    moreover have "(\<lambda>k. if lb_visible k then None else ?L k) = (\<lambda>k. if lb_visible k then None else L k)" using p(2) by auto
    moreover have "ulID ?h = ulID h" by (simp add: NAP_Free_def Let_def nap_FreeIndex_def)
    ultimately show ?thesis using IH Suc.prems(2) Free_law [OF Suc.prems(1) p(1)] by auto
  qed
qed

lemma FreeAll_law:
  assumes inv: "nap_inv rep tbl h L"
  shows "\<exists>h'. NAP_FreeAll h = Some h' \<and> nap_inv rep tbl h' (\<lambda>k. if lb_visible k then None else L k) \<and>
    ulIndexMask h' = ulIndexMask h \<and> uiMaxNum h' = uiMaxNum h \<and>
    nap_ids h' (\<lambda>k. if lb_visible k then None else L k) = (\<lambda>u. if lb_visible (u AND ulIndexMask h) then None else nap_ids h L u)"
proof -
  obtain h' where h': "free_all NAP_INVALID_INDEX h = Some h'" "nap_inv rep tbl h' (\<lambda>k. if lb_visible k then None else L k)"
    "ulIndexMask h' = ulIndexMask h" "uiMaxNum h' = uiMaxNum h" "ulID h' = ulID h"
    using free_all_law [OF inv, of NAP_INVALID_INDEX] by auto
  moreover have "nap_ids h' (\<lambda>k. if lb_visible k then None else L k) =
      (\<lambda>u. if lb_visible (u AND ulIndexMask h) then None else nap_ids h L u)"
    by (rule ext) (simp add: nap_ids_def h'(3,5) split: option.split)
  ultimately show ?thesis by (simp add: NAP_FreeAll_def)
qed

end

section \<open>Pools in use\<close>

text \<open>The indices that a pool may hand out: those below the number it was created for, and all of the range that
  \<^verbatim>\<open>nap_AllocIndex\<close> asks for when it was created without one. The code does not check this. An index of the range can be too
  large because the pool is full, or because an allocation inside the bitmap fails: the search then goes on with the next child,
  which begins at a higher index.\<close>

definition nap_fits :: "UINT \<Rightarrow> UINT \<Rightarrow> bool" where
  "nap_fits max_num i \<longleftrightarrow> (if max_num = 0 then i \<le> 0x7fffffff else i < max_num)"

definition no_index :: "'s nap \<Rightarrow> bool list \<Rightarrow> bool" where
  "no_index h al \<longleftrightarrow> fst (nap_AllocIndex h al) = NAP_INVALID_INDEX"

definition alloc_fits :: "UINT \<Rightarrow> 's nap \<Rightarrow> bool list \<Rightarrow> bool" where
  "alloc_fits max_num h al \<longleftrightarrow> no_index h al \<or> nap_fits max_num (fst (nap_AllocIndex h al))"

text \<open>The pools that the operations build from a store, with the nodes by the identifiers that were handed out, for every outcome of
  every allocation. The client keeps the indices within the pool, its sequence mask off the index, frees nodes of the pool and
  changes no identifier to 0; fresh memory is not in use.\<close>

inductive nap_reach ::
  "(UINT \<Rightarrow> nat) \<Rightarrow> UINT \<Rightarrow> ('s nap_func_tbl \<times> 's) option \<Rightarrow> 's nap \<Rightarrow> (UINT \<rightharpoonup> nap_ptr) \<Rightarrow> bool"
  for needbits :: "UINT \<Rightarrow> nat" and max_num :: UINT and store :: "('s nap_func_tbl \<times> 's) option" where
  Create: "NAP_Create needbits max_num True store = Some h \<Longrightarrow> nap_reach needbits max_num store h Map.empty"
| Alloc: "nap_reach needbits max_num store h M \<Longrightarrow> mem_ok mem M \<Longrightarrow> alloc_fits max_num h al \<Longrightarrow>
    NAP_Alloc h mem al = (res, h') \<Longrightarrow>
    nap_reach needbits max_num store h' (case res of None \<Rightarrow> M | Some p \<Rightarrow> M(ulID h' p \<mapsto> p))"
| AllocByIndex: "nap_reach needbits max_num store h M \<Longrightarrow> mem_ok mem M \<Longrightarrow>
    (if i = 0 then alloc_fits max_num h al else nap_fits max_num i) \<Longrightarrow>
    NAP_AllocByIndex h i mem al = (res, h') \<Longrightarrow>
    nap_reach needbits max_num store h' (case res of None \<Rightarrow> M | Some p \<Rightarrow> M(ulID h' p \<mapsto> p))"
| AllocByID: "nap_reach needbits max_num store h M \<Longrightarrow> mem_ok mem M \<Longrightarrow>
    (if u = 0 then alloc_fits max_num h al else nap_fits max_num (u AND ulIndexMask h)) \<Longrightarrow>
    NAP_AllocByID h u mem al = (res, h') \<Longrightarrow>
    nap_reach needbits max_num store h' (case res of None \<Rightarrow> M | Some p \<Rightarrow> M((if u = 0 then ulID h' p else u) \<mapsto> p))"
| Free: "nap_reach needbits max_num store h M \<Longrightarrow> M u = Some p \<Longrightarrow>
    nap_reach needbits max_num store (NAP_Free h (Some p)) (M(u := None))"
| FreeByID: "nap_reach needbits max_num store h M \<Longrightarrow>
    nap_reach needbits max_num store (NAP_FreeByID h u) (M(u := None))"
| FreeByIndex: "nap_reach needbits max_num store h M \<Longrightarrow>
    nap_reach needbits max_num store (NAP_FreeByIndex h i) (M(NAP_GetIDByIndex h i := None))"
| ChangeNodeID: "nap_reach needbits max_num store h M \<Longrightarrow> M u = Some p \<Longrightarrow> v \<noteq> 0 \<Longrightarrow>
    NAP_ChangeNodeID h (Some p) v = (BS_OK, h') \<Longrightarrow>
    nap_reach needbits max_num store h' (M(u := None, v \<mapsto> p))"
| EnableSeq: "nap_reach needbits max_num store h M \<Longrightarrow> seqMask = 0 \<or> seqMask AND ulIndexMask h = 0 \<Longrightarrow>
    (\<And>seq. seq_mem = Some seq \<Longrightarrow> length seq = unat uiSeqCount) \<Longrightarrow>
    nap_reach needbits max_num store (snd (NAP_EnableSeq h seqMask uiSeqCount seq_mem)) M"
| FreeAll: "nap_reach needbits max_num store h M \<Longrightarrow> NAP_FreeAll h = Some h' \<Longrightarrow>
    nap_reach needbits max_num store h' (\<lambda>u. if lb_visible (u AND ulIndexMask h) then None else M u)"

text \<open>What is documented of \<^verbatim>\<open>NUM_NeedBits\<close>: a number below the given one fits.\<close>

definition needs :: "(UINT \<Rightarrow> nat) \<Rightarrow> bool" where
  "needs needbits \<longleftrightarrow> (\<forall>n. n \<le> 0x7fffffff \<longrightarrow> needbits n < 32 \<and> unat n \<le> 2 ^ needbits n)"

definition nap_max :: "UINT \<Rightarrow> UINT" where
  "nap_max max_num = (if max_num = 0 then 0x7fffffff else max_num)"

definition nap_good ::
  "('s \<Rightarrow> (UINT \<rightharpoonup> nap_ptr) \<Rightarrow> bool) \<Rightarrow> 's nap_func_tbl \<Rightarrow> (UINT \<Rightarrow> nat) \<Rightarrow> UINT \<Rightarrow> 's nap \<Rightarrow> (UINT \<rightharpoonup> nap_ptr) \<Rightarrow> bool" where
  [inv_defs]: "nap_good rep tbl needbits max_num h M \<longleftrightarrow> max_num \<le> 0x7fffffff \<and> uiMaxNum h = nap_max max_num \<and>
     ulIndexMask h = NOT (PREFIX_2_MASK (32 - needbits (nap_max max_num))) \<and>
     (\<exists>L. nap_inv rep tbl h L \<and> M = nap_ids h L)"

lemma good_step:
  assumes "nap_good rep tbl needbits max_num h M"
    and "uiMaxNum h' = uiMaxNum h" "ulIndexMask h' = ulIndexMask h" "nap_inv rep tbl h' L" "M' = nap_ids h' L"
  shows "nap_good rep tbl needbits max_num h' M'"
  using assms unfolding nap_good_def by auto

lemma good_fits:
  assumes "needs needbits" "nap_good rep tbl needbits max_num h M" "nap_fits max_num i"
  shows "i AND ulIndexMask h = i"
proof -
  let ?n = "needbits (nap_max max_num)"
  have m: "nap_max max_num \<le> 0x7fffffff" using assms(2) by (simp add: nap_max_def nap_good_def)
  then have n: "?n < 32" "unat (nap_max max_num) \<le> 2 ^ ?n" using assms(1) by (simp_all add: needs_def)
  have "unat i < 2 ^ ?n"
  proof (cases "max_num = 0")
    case True
    have "\<not> ?n \<le> 30"
    proof
      assume "?n \<le> 30"
      then have "(2 :: nat) ^ ?n \<le> 2 ^ 30" by (rule power_increasing) simp
      then show False using n(2) True by (simp add: nap_max_def)
    qed
    then have "?n = 31" using n(1) by linarith
    then show ?thesis using assms(3) True by (simp add: nap_fits_def word_le_nat_alt)
  next
    case False
    then show ?thesis using assms(3) n(2) by (simp add: nap_fits_def nap_max_def word_less_nat_alt)
  qed
  then show ?thesis using index_fits [OF n(1)] assms(2) by (simp add: nap_good_def)
qed

lemma card_word_below: "card {0..<j :: UINT} = unat j"
proof -
  have "n \<in> unat ` {0..<j}" if "n < unat j" for n
  proof -
    have "n < 2 ^ 32" using that unat_lt2p [of j] by simp
    then have "n = unat (of_nat n :: UINT)" by (simp add: unat_of_nat_small)
    then show ?thesis using that by (intro image_eqI [of _ _ "of_nat n"]) (simp_all add: word_less_nat_alt)
  qed
  then have "unat ` {0..<j} = {0..<unat j}" by (auto simp: word_less_nat_alt)
  moreover have "inj_on unat {0..<j}" by (intro inj_onI) (rule word_unat_eq_iff [THEN iffD2])
  ultimately show ?thesis using card_image [of unat "{0..<j}"] by simp
qed

lemma AllocIndex_found:
  assumes inv: "nap_inv rep tbl h L" and r: "nap_AllocIndex h al = (idx, h1)"
    and few: "card (dom L) < 0x7fffffff" and al: "False \<notin> set al"
  shows "idx \<noteq> NAP_INVALID_INDEX"
proof -
  note i = nap_invD [OF inv]
  obtain ret j bm al' where a: "LBitMap_AllocByRange (hLBitmap h) 0 0x7fffffff al = (ret, j, bm, al')" by (metis surj_pair)
  note l = Alloc_laws [OF i(3) a]
  have "ret = BS_OK"
  proof (rule ccontr)
    assume f: "ret \<noteq> BS_OK"
    have "{0..<0x7fffffff} \<subseteq> dom L"
    proof
      fix k :: UINT assume "k \<in> {0..<0x7fffffff}"
      then show "k \<in> dom L" using l(5) [OF al f, of k] unfolding i(4) by simp
    qed
    then have "card {0..<0x7fffffff :: UINT} \<le> card (dom L)" by (intro card_mono) simp_all
    then show False using few by (simp add: card_word_below)
  qed
  then have "idx = j" "j \<le> 0x7fffffff" using r a l(2) by (auto simp: nap_AllocIndex_def)
  then show ?thesis by (auto simp: NAP_INVALID_INDEX_def)
qed

lemma AllocIndex_law:
  assumes inv: "nap_inv rep tbl h L" and r: "nap_AllocIndex h al = (idx, h1)"
  shows "\<exists>bm. h1 = h\<lparr>hLBitmap := bm\<rparr> \<and> lb_inv bm \<and>
    (if idx = NAP_INVALID_INDEX then lb_set bm = dom L else L idx = None \<and> idx \<le> 0x7fffffff \<and> lb_set bm = insert idx (dom L))"
proof -
  note i = nap_invD [OF inv]
  obtain ret j bm al' where a: "LBitMap_AllocByRange (hLBitmap h) 0 0x7fffffff al = (ret, j, bm, al')" by (metis surj_pair)
  note l = Alloc_laws [OF i(3) a]
  have h1: "h1 = h\<lparr>hLBitmap := bm\<rparr>" "idx = (if ret = BS_OK then j else NAP_INVALID_INDEX)"
    using r a by (auto simp: nap_AllocIndex_def split: if_splits)
  show ?thesis
  proof (cases "ret = BS_OK")
    case True
    have "j \<le> 0x7fffffff" using l(2) [OF True] by simp
    then have n: "idx \<noteq> NAP_INVALID_INDEX" using h1(2) True by (auto simp: NAP_INVALID_INDEX_def)
    then show ?thesis using h1 l(1) l(2) [OF True] True i(4) by auto
  next
    case False
    then show ?thesis using h1 l(1,3) i(4) by auto
  qed
qed

lemma alloc_fits_0: "nap_inv rep tbl h L \<Longrightarrow> alloc_fits 0 h al"
  using AllocIndex_law [of rep tbl h L al] by (cases "nap_AllocIndex h al") (auto simp: alloc_fits_def no_index_def nap_fits_def split: if_splits)

lemma alloc_fits_below:
  assumes inv: "nap_inv rep tbl h L" and few: "card (dom L) < unat max_num" and al: "False \<notin> set al"
  shows "alloc_fits max_num h al"
proof (cases "no_index h al")
  case False
  obtain ret j bm al' where a: "LBitMap_AllocByRange (hLBitmap h) 0 0x7fffffff al = (ret, j, bm, al')" by (metis surj_pair)
  have ret: "ret = BS_OK" "fst (nap_AllocIndex h al) = j"
    using False a by (auto simp: no_index_def nap_AllocIndex_def split: if_splits)
  have "{0..<j} \<subseteq> dom L"
  proof
    fix k assume "k \<in> {0..<j}"
    then show "k \<in> dom L" using Alloc_laws(4) [OF nap_invD(3) [OF inv] a al ret(1), of k] unfolding nap_invD(4) [OF inv] by simp
  qed
  then have "unat j \<le> card (dom L)" using card_mono [of "dom L" "{0..<j}"] by (simp add: card_word_below)
  then have "nap_fits max_num j" using few by (auto simp: nap_fits_def word_less_nat_alt)
  then show ?thesis using ret(2) by (simp add: alloc_fits_def)
qed (simp add: alloc_fits_def)

lemma AllocSpecIndex_law:
  assumes inv: "nap_inv rep tbl h L" and r: "nap_AllocSpecIndex h i al = (idx, h1)" and i: "i \<noteq> NAP_INVALID_INDEX"
  shows "\<exists>bm. h1 = h\<lparr>hLBitmap := bm\<rparr> \<and> lb_inv bm \<and>
    (if idx = NAP_INVALID_INDEX then lb_set bm = dom L else idx = i \<and> L idx = None \<and> lb_set bm = insert idx (dom L))"
proof (cases "LBitMap_IsBitSetted (hLBitmap h) i")
  case True
  then show ?thesis using r nap_invD(3,4) [OF inv] by (intro exI [of _ "hLBitmap h"]) (auto simp: nap_AllocSpecIndex_def)
next
  case False
  obtain ret bm al' where a: "LBitMap_SetBit (hLBitmap h) i al = (ret, bm, al')" by (metis surj_pair)
  note l = SetBit_laws [OF nap_invD(3) [OF inv] a]
  have "L i = None" using False IsBitSetted_law [OF nap_invD(3) [OF inv]] nap_invD(4) [OF inv] by auto
  then show ?thesis
    using r False a l nap_invD(4) [OF inv] i by (intro exI [of _ bm]) (auto simp: nap_AllocSpecIndex_def split: if_splits)
qed

context nap_store
begin

lemma place_good:
  assumes nb: "needs needbits" and good: "nap_good rep tbl needbits max_num h M" and inv: "nap_inv rep tbl h L" and M: "M = nap_ids h L"
    and room: "\<And>i. nap_fits max_num i \<Longrightarrow> room i" and mem: "mem_ok mem M" and bm: "lb_inv bm"
    and idx: "if idx = NAP_INVALID_INDEX then lb_set bm = dom L else L idx = None \<and> nap_fits max_num idx \<and> lb_set bm = insert idx (dom L)"
    and ident: "\<And>h'. nap_seq_ok h' \<Longrightarrow> ulIndexMask h' = ulIndexMask h \<Longrightarrow> idx AND ulIndexMask h = idx \<Longrightarrow>
      \<exists>uid opt. ident h' = (uid, h'\<lparr>stSeqOpt := opt\<rparr>) \<and> uid AND ulIndexMask h = idx \<and> uid \<noteq> 0 \<and> nap_seq_ok (h'\<lparr>stSeqOpt := opt\<rparr>)"
    and r: "nap_place ident counted mem (idx, h\<lparr>hLBitmap := bm\<rparr>) = (res, h')"
  shows "nap_good rep tbl needbits max_num h' (case res of None \<Rightarrow> M | Some p \<Rightarrow> M(ulID h' p \<mapsto> p)) \<and>
    (\<forall>p. res = Some p \<longrightarrow> p \<notin> ran M \<and> ulID h' p \<notin> dom M)"
proof (cases "idx = NAP_INVALID_INDEX")
  case True
  then have "res = None" "h' = h\<lparr>hLBitmap := bm\<rparr>" using r by (simp_all add: nap_place_def)
  moreover have "nap_inv rep tbl (h\<lparr>hLBitmap := bm\<rparr>) L" using inv bm idx True by (simp add: nap_inv_def nap_seq_ok_def)
  moreover have "nap_ids (h\<lparr>hLBitmap := bm\<rparr>) L = nap_ids h L" by (rule nap_ids_cong) simp_all
  ultimately show ?thesis using good M by (auto simp: nap_good_def)
next
  case False
  have i: "L idx = None" "nap_fits max_num idx" "lb_set bm = insert idx (dom L)" using idx False by simp_all
  have fits: "idx AND ulIndexMask h = idx" by (rule good_fits [OF nb good i(2)])
  have mem': "mem_ok mem L" using mem nap_ids_ran [OF inv] M by (simp add: mem_ok_def)
  have room': "room idx" using room i(2) by simp
  note p = place_law [OF inv bm i(3,1) room' fits mem' ident [OF _ _ fits] r]
  show ?thesis
  proof (cases res)
    case None
    then have n: "nap_inv rep tbl h' L" "ulID h' = ulID h" "ulIndexMask h' = ulIndexMask h" using p by simp_all
    then have "nap_ids h' L = nap_ids h L" by (intro nap_ids_cong)
    then show ?thesis using None n(1) p good M by (auto simp: nap_good_def)
  next
    case (Some q)
    then have a: "nap_inv rep tbl h' (L(idx \<mapsto> q))" "q \<notin> ran L" "ulID h' q AND ulIndexMask h = idx" "ulID h' = (ulID h)(q := ulID h' q)"
      "ulIndexMask h' = ulIndexMask h" "uiMaxNum h' = uiMaxNum h" using p by simp_all
    have "nap_ids h' (L(idx \<mapsto> q)) = M(ulID h' q \<mapsto> q)" unfolding M by (rule place_ids [OF inv i(1) a(2,3,4,5)])
    moreover have "ulID h' q \<notin> dom M" using a(3) i(1) unfolding M by (simp add: nap_ids_def domIff)
    ultimately show ?thesis using Some a good nap_ids_ran [OF inv] M by (auto simp: nap_good_def)
  qed
qed

lemma Alloc_good:
  assumes nb: "needs needbits" and good: "nap_good rep tbl needbits max_num h M" and room: "\<And>i. nap_fits max_num i \<Longrightarrow> room i"
    and mem: "mem_ok mem M" and fits: "alloc_fits max_num h al" and r: "NAP_Alloc h mem al = (res, h')"
  shows "nap_good rep tbl needbits max_num h' (case res of None \<Rightarrow> M | Some p \<Rightarrow> M(ulID h' p \<mapsto> p)) \<and>
    (\<forall>p. res = Some p \<longrightarrow> p \<notin> ran M \<and> ulID h' p \<notin> dom M) \<and> (res = None \<longrightarrow> mem = None \<or> no_index h al)"
proof -
  obtain L where L: "nap_inv rep tbl h L" "M = nap_ids h L" using good by (auto simp: nap_good_def)
  obtain idx h1 where a: "nap_AllocIndex h al = (idx, h1)" by (metis surj_pair)
  obtain bm where bm: "h1 = h\<lparr>hLBitmap := bm\<rparr>" "lb_inv bm"
    "if idx = NAP_INVALID_INDEX then lb_set bm = dom L else L idx = None \<and> nap_fits max_num idx \<and> lb_set bm = insert idx (dom L)"
    using AllocIndex_law [OF L(1) a] fits a by (auto simp: alloc_fits_def no_index_def split: if_splits)
  obtain node st where st: "pfAlloc (pstFuncTbl h) mem (impl h) idx = (node, st)" by (metis surj_pair)
  have "mem = None \<or> no_index h al" if "res = None"
    using r that a st bm(1) alloc_mem [OF nap_invD(2) [OF L(1)]] nap_invD(1) [OF L(1)]
    by (cases node) (auto simp: NAP_Alloc_def nap_place_def no_index_def Let_def split: prod.splits if_splits)
  moreover have "nap_good rep tbl needbits max_num h' (case res of None \<Rightarrow> M | Some p \<Rightarrow> M(ulID h' p \<mapsto> p)) \<and>
    (\<forall>p. res = Some p \<longrightarrow> p \<notin> ran M \<and> ulID h' p \<notin> dom M)"
    by (rule place_good [OF nb good L room mem bm(2,3), where ident = "\<lambda>h. nap_CacleIDByIndex h idx" and counted = True])
      (use CacleID_law r a bm(1) in \<open>force simp: NAP_Alloc_def Let_def\<close>)+
  ultimately show ?thesis by blast
qed

lemma spec_good:
  assumes nb: "needs needbits" and good: "nap_good rep tbl needbits max_num h M" and room: "\<And>i. nap_fits max_num i \<Longrightarrow> room i"
    and mem: "mem_ok mem M" and i: "nap_fits max_num i" and a: "nap_AllocSpecIndex h i al = (idx, h1)"
    and ident: "\<And>h'. nap_seq_ok h' \<Longrightarrow> ulIndexMask h' = ulIndexMask h \<Longrightarrow> idx = i \<Longrightarrow> i AND ulIndexMask h = i \<Longrightarrow>
      \<exists>uid opt. ident h' = (uid, h'\<lparr>stSeqOpt := opt\<rparr>) \<and> uid AND ulIndexMask h = i \<and> uid \<noteq> 0 \<and> nap_seq_ok (h'\<lparr>stSeqOpt := opt\<rparr>)"
    and r: "nap_place ident counted mem (idx, h1) = (res, h')"
  shows "nap_good rep tbl needbits max_num h' (case res of None \<Rightarrow> M | Some p \<Rightarrow> M(ulID h' p \<mapsto> p))"
proof -
  obtain L where L: "nap_inv rep tbl h L" "M = nap_ids h L" using good by (auto simp: nap_good_def)
  have "max_num \<le> 0x7fffffff" using good by (simp add: nap_good_def)
  then have n: "i \<noteq> NAP_INVALID_INDEX"
    using i by (auto simp: nap_fits_def NAP_INVALID_INDEX_def word_less_nat_alt word_le_nat_alt split: if_splits)
  obtain bm where bm: "h1 = h\<lparr>hLBitmap := bm\<rparr>" "lb_inv bm"
    "if idx = NAP_INVALID_INDEX then lb_set bm = dom L else idx = i \<and> L idx = None \<and> lb_set bm = insert idx (dom L)"
    using AllocSpecIndex_law [OF L(1) a n] by auto
  show ?thesis
  proof (cases "idx = NAP_INVALID_INDEX")
    case True
    then have "res = None" "h' = h1" using r by (simp_all add: nap_place_def)
    moreover have "nap_inv rep tbl h1 L" using L(1) bm True by (simp add: nap_inv_def nap_seq_ok_def)
    moreover have "nap_ids h1 L = nap_ids h L" by (rule nap_ids_cong) (simp_all add: bm(1))
    ultimately show ?thesis using good L(2) bm(1) by (auto simp: nap_good_def)
  next
    case False
    then have e: "idx = i" using bm(3) by simp
    have idx: "if idx = NAP_INVALID_INDEX then lb_set bm = dom L else L idx = None \<and> nap_fits max_num idx \<and> lb_set bm = insert idx (dom L)"
      using bm(3) False i unfolding e by auto
    show ?thesis
    proof (rule conjunct1 [OF place_good [OF nb good L room mem bm(2) idx _ r [unfolded bm(1)]]])
      fix h'' :: "'s nap"
      assume "nap_seq_ok h''" "ulIndexMask h'' = ulIndexMask h" "idx AND ulIndexMask h = idx"
      then show "\<exists>uid opt. ident h'' = (uid, h''\<lparr>stSeqOpt := opt\<rparr>) \<and> uid AND ulIndexMask h = idx \<and> uid \<noteq> 0 \<and> nap_seq_ok (h''\<lparr>stSeqOpt := opt\<rparr>)"
        using ident [of h''] unfolding e by blast
    qed
  qed
qed

end

text \<open>Every pool in use is good for its store.\<close>

context nap_store
begin

lemma reach_good:
  assumes nb: "needs needbits" and rep: "rep s0 Map.empty" and room: "\<And>i. nap_fits max_num i \<Longrightarrow> room i"
  shows "nap_reach needbits max_num (Some (tbl, s0)) h M \<Longrightarrow> nap_good rep tbl needbits max_num h M"
proof (induction rule: nap_reach.induct)
  case (Create h)
  have m: "max_num \<le> 0x7fffffff" using Create by (simp add: NAP_Create_def split: if_splits)
  then obtain bm where bm: "LBitMap_Create True = Some bm" "h = \<lparr>pstFuncTbl = tbl, uiMaxNum = nap_max max_num, uiCount = 0,
      ulIndexMask = NOT (PREFIX_2_MASK (32 - needbits (nap_max max_num))), hLBitmap = bm,
      stSeqOpt = \<lparr>bEnable = False, ulSeqMask = 0, ucSeqStartIndex = 0, seq_array = None, uiSeqArrayCount = 0\<rparr>, ulID = (\<lambda>_. 0), impl = s0\<rparr>"
    using Create by (auto simp: NAP_Create_def nap_CommonInit_def Let_def nap_max_def split: if_splits option.splits)
  have "needbits (nap_max max_num) < 32" using nb m by (simp add: needs_def nap_max_def)
  then have "nap_inv rep tbl h Map.empty"
    using rep Create_inv [OF bm(1)] unfolding bm(2) by (simp add: nap_inv_def nap_seq_ok_def top_off)
  moreover have "nap_ids h Map.empty = Map.empty" by (simp add: nap_ids_def fun_eq_iff)
  ultimately show ?case using m bm(2) by (auto simp: nap_good_def intro!: exI [of _ Map.empty])
next
  case (Alloc h M mem al res h')
  then show ?case using Alloc_good [OF nb Alloc.IH room Alloc.hyps(2-4)] by blast
next
  case (AllocByIndex h M mem i al res h')
  show ?case
  proof (cases "i = 0")
    case True
    then have "NAP_Alloc h mem al = (res, h')" "alloc_fits max_num h al"
      using AllocByIndex.hyps(3,4) by (simp_all add: NAP_AllocByIndex_def nap_invalid)
    then show ?thesis using Alloc_good [OF nb AllocByIndex.IH room AllocByIndex.hyps(2)] by blast
  next
    case False
    then have i: "nap_fits max_num i" using AllocByIndex.hyps(3) by simp
    obtain idx h1 where a: "nap_AllocSpecIndex h i al = (idx, h1)" by (metis surj_pair)
    show ?thesis
      by (rule spec_good [OF nb AllocByIndex.IH room AllocByIndex.hyps(2) i a, where ident = "\<lambda>h. nap_CacleIDByIndex h idx" and counted = True])
        (use CacleID_law AllocByIndex.hyps(4) False a in \<open>force simp: NAP_AllocByIndex_def nap_invalid Let_def\<close>)+
  qed
next
  case (AllocByID h M mem u al res h')
  show ?case
  proof (cases "u = 0")
    case True
    then have "NAP_Alloc h mem al = (res, h')" "alloc_fits max_num h al"
      using AllocByID.hyps(3,4) by (simp_all add: NAP_AllocByID_def nap_invalid)
    then have "nap_good rep tbl needbits max_num h' (case res of None \<Rightarrow> M | Some p \<Rightarrow> M(ulID h' p \<mapsto> p))"
      using Alloc_good [OF nb AllocByID.IH room AllocByID.hyps(2)] by blast
    then show ?thesis unfolding if_P [OF True] .
  next
    case False
    then have i: "nap_fits max_num (u AND ulIndexMask h)" using AllocByID.hyps(3) by simp
    obtain idx h1 where a: "nap_AllocSpecIndex h (u AND ulIndexMask h) al = (idx, h1)" by (metis surj_pair)
    have r: "nap_place (\<lambda>h. (u, h)) False mem (idx, h1) = (res, h')"
      using False AllocByID.hyps(4) a by (simp add: NAP_AllocByID_def nap_invalid nap_CacleIndexByID_def)
    have "ulID h' p = u" if "res = Some p" for p
      using r that by (auto simp: nap_place_def split: if_splits prod.splits option.splits)
    moreover have "nap_good rep tbl needbits max_num h' (case res of None \<Rightarrow> M | Some p \<Rightarrow> M(ulID h' p \<mapsto> p))"
    proof (rule spec_good [OF nb AllocByID.IH room AllocByID.hyps(2) i a _ r])
      fix h'' :: "'s nap" assume "nap_seq_ok h''"
      then show "\<exists>uid opt. (u, h'') = (uid, h''\<lparr>stSeqOpt := opt\<rparr>) \<and> uid AND ulIndexMask h = u AND ulIndexMask h \<and> uid \<noteq> 0 \<and>
          nap_seq_ok (h''\<lparr>stSeqOpt := opt\<rparr>)"
        using False by (intro exI [of _ u] exI [of _ "stSeqOpt h''"]) simp
    qed
    ultimately show ?thesis using False by (cases res) (simp_all only: option.case if_False)
  qed
next
  case (Free h M u p)
  obtain L where L: "nap_inv rep tbl h L" "M = nap_ids h L" using Free.IH by (auto simp: nap_good_def)
  then obtain i where i: "L i = Some p" "ulID h p = u" using nap_ids_iff [OF L(1)] Free.hyps(2) by blast
  show ?case by (rule good_step [OF Free.IH]) (use Free_law [OF L(1) i(1)] L(2) i(2) in auto)
next
  case (FreeByID h M u)
  obtain L where L: "nap_inv rep tbl h L" "M = nap_ids h L" using FreeByID.IH by (auto simp: nap_good_def)
  have e: "NAP_FreeByID h u = NAP_Free h (M u)" unfolding NAP_FreeByID_def GetNodeByID_law [OF L(1)] L(2) ..
  show ?case
  proof (cases "M u")
    case None
    then show ?thesis using FreeByID.IH e by (simp add: NAP_Free_def fun_upd_idem)
  next
    case (Some p)
    then obtain i where i: "L i = Some p" "ulID h p = u" using nap_ids_iff [OF L(1)] L(2) by blast
    show ?thesis by (rule good_step [OF FreeByID.IH]) (use Free_law [OF L(1) i(1)] L(2) Some e i(2) in auto)
  qed
next
  case (FreeByIndex h M i)
  obtain L where L: "nap_inv rep tbl h L" "M = nap_ids h L" using FreeByIndex.IH by (auto simp: nap_good_def)
  note g = GetNodeByIndex_law [OF L(1), of i]
  have e: "NAP_FreeByIndex h i = NAP_Free h (L i)" "NAP_GetIDByIndex h i = (case L i of None \<Rightarrow> 0 | Some p \<Rightarrow> ulID h p)"
    unfolding NAP_FreeByIndex_def NAP_GetIDByIndex_def NAP_GetIDByNode_def g NAP_INVALID_ID_def by (rule refl)+
  show ?case
  proof (cases "L i")
    case None
    have "M 0 = None" using nap_ids_iff [OF L(1), of 0] nap_invD(7) [OF L(1)] L(2) by (metis not_None_eq)
    then show ?thesis using FreeByIndex.IH e None by (simp add: NAP_Free_def fun_upd_idem)
  next
    case (Some p)
    show ?thesis by (rule good_step [OF FreeByIndex.IH]) (use Free_law [OF L(1) Some] L(2) Some e in auto)
  qed
next
  case (ChangeNodeID h M u p v h')
  obtain L where L: "nap_inv rep tbl h L" "M = nap_ids h L" using ChangeNodeID.IH by (auto simp: nap_good_def)
  have "nap_ids h L u = Some p" using ChangeNodeID.hyps(2) L(2) by simp
  note c = ChangeNodeID_law [OF L(1) this ChangeNodeID.hyps(3,4)]
  show ?case by (rule good_step [OF ChangeNodeID.IH]) (use c L(2) in auto)
next
  case (EnableSeq h M seqMask seq_mem uiSeqCount)
  obtain L where L: "nap_inv rep tbl h L" "M = nap_ids h L" using EnableSeq.IH by (auto simp: nap_good_def)
  obtain opt where o: "snd (NAP_EnableSeq h seqMask uiSeqCount seq_mem) = h\<lparr>stSeqOpt := opt\<rparr>" "nap_seq_ok (h\<lparr>stSeqOpt := opt\<rparr>)"
    using EnableSeq_law [OF nap_invD(5) [OF L(1)] EnableSeq.hyps(2,3)] by blast
  have "nap_ids (h\<lparr>stSeqOpt := opt\<rparr>) L = nap_ids h L" by (rule nap_ids_cong) simp_all
  moreover have "nap_inv rep tbl (h\<lparr>stSeqOpt := opt\<rparr>) L" using L(1) o(2) by (simp add: nap_inv_def)
  ultimately show ?case unfolding o(1) by (intro good_step [OF EnableSeq.IH]) (use L(2) in auto)
next
  case (FreeAll h M h')
  obtain L where L: "nap_inv rep tbl h L" "M = nap_ids h L" using FreeAll.IH by (auto simp: nap_good_def)
  show ?case using FreeAll_law [OF L(1)] FreeAll.hyps(2) L(2) by (intro good_step [OF FreeAll.IH]) auto
qed

end

section \<open>The pool as a map\<close>

text \<open>What a pool over a store promises: the nodes are found by the identifiers that were handed out and by their indices, and an
  allocation under the client's conditions hands out a new node with a new identifier and leaves the others alone.\<close>

definition nap_correct :: "(UINT \<Rightarrow> nat) \<Rightarrow> UINT \<Rightarrow> ('s nap_func_tbl \<times> 's) option \<Rightarrow> bool" where
  "nap_correct needbits max_num store \<longleftrightarrow> (\<forall>h M. nap_reach needbits max_num store h M \<longrightarrow>
     (\<forall>u. NAP_GetNodeByID h u = M u) \<and>
     (\<forall>u p. M u = Some p \<longrightarrow> u \<noteq> NAP_INVALID_ID \<and> NAP_GetIDByNode h (Some p) = u \<and> NAP_GetNodeByIndex h (NAP_GetIndexByID h u) = Some p \<and>
       NAP_GetIDByIndex h (NAP_GetIndexByID h u) = u \<and> NAP_GetIndexByNode h (Some p) = NAP_GetIndexByID h u) \<and>
     (\<forall>i p. NAP_GetNodeByIndex h i = Some p \<longrightarrow> NAP_GetIndexByNode h (Some p) = i \<and> M (NAP_GetIDByIndex h i) = Some p) \<and>
     (\<forall>mem al. mem_ok mem M \<longrightarrow> alloc_fits max_num h al \<longrightarrow>
       (case NAP_Alloc h mem al of
          (None, h') \<Rightarrow> (mem = None \<or> no_index h al) \<and> (\<forall>u. NAP_GetNodeByID h' u = M u)
        | (Some p, h') \<Rightarrow> p \<notin> ran M \<and> ulID h' p \<notin> dom M \<and> (\<forall>u. NAP_GetNodeByID h' u = (M(ulID h' p \<mapsto> p)) u))) \<and>
     (\<forall>al. (max_num = 0 \<longrightarrow> alloc_fits max_num h al) \<and>
       (card (dom M) < unat (uiMaxNum h) \<and> False \<notin> set al \<longrightarrow> alloc_fits max_num h al \<and> \<not> no_index h al)))"

lemma nap_correctD:
  assumes "nap_correct needbits max_num store" "nap_reach needbits max_num store h M"
  shows "NAP_GetNodeByID h u = M u"
    and "mem_ok mem M \<Longrightarrow> alloc_fits max_num h al \<Longrightarrow>
      case NAP_Alloc h mem al of
        (None, h') \<Rightarrow> (mem = None \<or> no_index h al) \<and> (\<forall>u. NAP_GetNodeByID h' u = M u)
      | (Some p, h') \<Rightarrow> p \<notin> ran M \<and> ulID h' p \<notin> dom M \<and> (\<forall>u. NAP_GetNodeByID h' u = (M(ulID h' p \<mapsto> p)) u)"
    and "M u = Some p \<Longrightarrow> u \<noteq> NAP_INVALID_ID \<and> NAP_GetIDByNode h (Some p) = u \<and> NAP_GetNodeByIndex h (NAP_GetIndexByID h u) = Some p \<and>
      NAP_GetIDByIndex h (NAP_GetIndexByID h u) = u \<and> NAP_GetIndexByNode h (Some p) = NAP_GetIndexByID h u"
    and "max_num = 0 \<Longrightarrow> alloc_fits max_num h al"
    and "card (dom M) < unat (uiMaxNum h) \<Longrightarrow> False \<notin> set al \<Longrightarrow> alloc_fits max_num h al \<and> \<not> no_index h al"
proof -
  note a = assms(1) [unfolded nap_correct_def, THEN spec [of _ h], THEN spec [of _ M], THEN mp [OF _ assms(2)]]
  note al = conjunct2 [OF conjunct2 [OF conjunct2 [OF a]]]
  show "NAP_GetNodeByID h u = M u" by (rule conjunct1 [OF a, THEN spec])
  show "case NAP_Alloc h mem al of
        (None, h') \<Rightarrow> (mem = None \<or> no_index h al) \<and> (\<forall>u. NAP_GetNodeByID h' u = M u)
      | (Some p, h') \<Rightarrow> p \<notin> ran M \<and> ulID h' p \<notin> dom M \<and> (\<forall>u. NAP_GetNodeByID h' u = (M(ulID h' p \<mapsto> p)) u)"
    if "mem_ok mem M" "alloc_fits max_num h al"
    by (rule conjunct1 [OF al, rule_format, OF that])
  show "u \<noteq> NAP_INVALID_ID \<and> NAP_GetIDByNode h (Some p) = u \<and> NAP_GetNodeByIndex h (NAP_GetIndexByID h u) = Some p \<and>
      NAP_GetIDByIndex h (NAP_GetIndexByID h u) = u \<and> NAP_GetIndexByNode h (Some p) = NAP_GetIndexByID h u" if "M u = Some p"
    by (rule conjunct1 [OF conjunct2 [OF a], rule_format, OF that])
  show "alloc_fits max_num h al" if "max_num = 0"
    by (rule conjunct1 [OF conjunct2 [OF al, THEN spec [of _ al]], THEN mp, OF that])
  show "alloc_fits max_num h al \<and> \<not> no_index h al" if "card (dom M) < unat (uiMaxNum h)" "False \<notin> set al"
    by (rule conjunct2 [OF conjunct2 [OF al, THEN spec [of _ al]], THEN mp, OF conjI [OF that]])
qed

text \<open>The walk over the identifiers, in the order of their indices, and the loop that frees every node.\<close>

definition nap_walk :: "(UINT \<Rightarrow> nat) \<Rightarrow> UINT \<Rightarrow> ('s nap_func_tbl \<times> 's) option \<Rightarrow> bool" where
  "nap_walk needbits max_num store \<longleftrightarrow> (\<forall>h M u. nap_reach needbits max_num store h M \<longrightarrow>
     (let idx = NAP_GetIndexByID h; v = NAP_GetNextID h u; after = (\<lambda>w. u = NAP_INVALID_ID \<or> idx u < idx w)
      in (if v = NAP_INVALID_ID then \<forall>w\<in>dom M. after w \<longrightarrow> \<not> lb_visible (idx w)
          else v \<in> dom M \<and> after v \<and> lb_visible (idx v) \<and> (\<forall>w\<in>dom M. after w \<longrightarrow> idx w < idx v \<longrightarrow> \<not> lb_visible (idx w))) \<and>
         (\<exists>h'. NAP_FreeAll h = Some h' \<and> (\<forall>w. NAP_GetNodeByID h' w = (if lb_visible (idx w) then None else M w)))))"

context nap_store
begin

lemma good_GetNodeByID: "nap_good rep tbl needbits max_num h M \<Longrightarrow> NAP_GetNodeByID h u = M u"
  using GetNodeByID_law by (auto simp: nap_good_def)

lemma store_correct:
  assumes nb: "needs needbits" and rep: "rep s0 Map.empty" and room: "\<And>i. nap_fits max_num i \<Longrightarrow> room i"
  shows "nap_correct needbits max_num (Some (tbl, s0))"
  unfolding nap_correct_def
proof (intro allI impI conjI)
  fix h M assume reach: "nap_reach needbits max_num (Some (tbl, s0)) h M"
  then have good: "nap_good rep tbl needbits max_num h M" using reach_good [OF nb rep room] by blast
  then obtain L where L: "nap_inv rep tbl h L" "M = nap_ids h L" by (auto simp: nap_good_def)
  note inv = nap_invD [OF L(1)] and ids = nap_ids_iff [OF L(1)]
  note d = NAP_GetIDByNode_def NAP_GetIDByIndex_def NAP_GetIndexByID_def NAP_GetIndexByNode_def nap_CacleIndexByID_def nap_invalid Let_def
    GetNodeByIndex_law [OF L(1)]
  show "NAP_GetNodeByID h u = M u" for u by (rule good_GetNodeByID [OF good])
  fix p
  show "u \<noteq> NAP_INVALID_ID" "NAP_GetIDByNode h (Some p) = u" "NAP_GetNodeByIndex h (NAP_GetIndexByID h u) = Some p"
    "NAP_GetIDByIndex h (NAP_GetIndexByID h u) = u" "NAP_GetIndexByNode h (Some p) = NAP_GetIndexByID h u" if u: "M u = Some p" for u
  proof -
    obtain i where i: "L i = Some p" "ulID h p = u" using ids u L(2) by blast
    show "u \<noteq> NAP_INVALID_ID" "NAP_GetIDByNode h (Some p) = u" "NAP_GetNodeByIndex h (NAP_GetIndexByID h u) = Some p"
      "NAP_GetIDByIndex h (NAP_GetIndexByID h u) = u" "NAP_GetIndexByNode h (Some p) = NAP_GetIndexByID h u"
      using i inv(6,7) [OF i(1)] by (auto simp: d)
  qed
  show "NAP_GetIndexByNode h (Some p) = i" "M (NAP_GetIDByIndex h i) = Some p" if i: "NAP_GetNodeByIndex h i = Some p" for i
    using i inv(6,7) [of i p] ids L(2) by (auto simp: d)
  show "case NAP_Alloc h mem al of
      (None, h') \<Rightarrow> (mem = None \<or> no_index h al) \<and> (\<forall>u. NAP_GetNodeByID h' u = M u)
    | (Some p, h') \<Rightarrow> p \<notin> ran M \<and> ulID h' p \<notin> dom M \<and> (\<forall>u. NAP_GetNodeByID h' u = (M(ulID h' p \<mapsto> p)) u)"
    if m: "mem_ok mem M" "alloc_fits max_num h al" for mem al
  proof -
    obtain res h' where r: "NAP_Alloc h mem al = (res, h')" by (metis surj_pair)
    note a = Alloc_good [OF nb good room m r]
    then show ?thesis using r good_GetNodeByID by (cases res) auto
  qed
  show "alloc_fits max_num h al" if "max_num = 0" for al unfolding that by (rule alloc_fits_0 [OF L(1)])
  show "alloc_fits max_num h al" "\<not> no_index h al" if few: "card (dom M) < unat (uiMaxNum h) \<and> False \<notin> set al" for al
  proof -
    have c: "card (dom L) < unat (nap_max max_num)" "nap_max max_num \<le> 0x7fffffff"
      using few good nap_ids_card [OF L(1)] L(2) by (auto simp: nap_good_def nap_max_def)
    show "alloc_fits max_num h al"
    proof (cases "max_num = 0")
      case True
      show ?thesis unfolding True by (rule alloc_fits_0 [OF L(1)])
    next
      case False
      then show ?thesis using alloc_fits_below [OF L(1), of max_num al] c(1) few by (simp add: nap_max_def)
    qed
    have "card (dom L) < 0x7fffffff" using c by (simp add: word_le_nat_alt)
    then show "\<not> no_index h al" using AllocIndex_found [OF L(1), of al] few by (auto simp: no_index_def) (metis prod.collapse)
  qed
qed

lemma store_walk:
  assumes nb: "needs needbits" and rep: "rep s0 Map.empty" and room: "\<And>i. nap_fits max_num i \<Longrightarrow> room i"
  shows "nap_walk needbits max_num (Some (tbl, s0))"
proof -
  have "(let idx = NAP_GetIndexByID h; v = NAP_GetNextID h u; after = (\<lambda>w. u = NAP_INVALID_ID \<or> idx u < idx w)
      in (if v = NAP_INVALID_ID then \<forall>w\<in>dom M. after w \<longrightarrow> \<not> lb_visible (idx w)
          else v \<in> dom M \<and> after v \<and> lb_visible (idx v) \<and> (\<forall>w\<in>dom M. after w \<longrightarrow> idx w < idx v \<longrightarrow> \<not> lb_visible (idx w))) \<and>
         (\<exists>h'. NAP_FreeAll h = Some h' \<and> (\<forall>w. NAP_GetNodeByID h' w = (if lb_visible (idx w) then None else M w))))"
    if reach: "nap_reach needbits max_num (Some (tbl, s0)) h M" for h M u
  proof -
    obtain L where L: "nap_inv rep tbl h L" "M = nap_ids h L" using reach_good [OF nb rep room reach] by (auto simp: nap_good_def)
    note inv = nap_invD [OF L(1)] and ids = nap_ids_iff [OF L(1)]
    define cur where "cur = (if u = 0 then NAP_INVALID_INDEX else u AND ulIndexMask h)"
    have cur: "cur = NAP_INVALID_INDEX \<or> cur < k \<longleftrightarrow> u = 0 \<or> u AND ulIndexMask h < k" for k
      using masked_below [OF inv(5), of u] by (simp add: cur_def)
    have dom: "w AND ulIndexMask h \<in> dom L" if "w \<in> dom M" for w
      using that unfolding L(2) by (auto simp: nap_ids_def domIff split: option.splits)
    define i where "i = NAP_GetNextIndex h cur"
    note g = GetNextIndex_law [OF L(1) i_def [symmetric], unfolded cur]
    have n: "NAP_GetNextID h u = (case L i of None \<Rightarrow> 0 | Some p \<Rightarrow> ulID h p)"
      unfolding GetNextID_law [OF L(1)] i_def cur_def Let_def ..
    have walk: "if NAP_GetNextID h u = 0 then \<forall>w\<in>dom M. u = 0 \<or> u AND ulIndexMask h < w AND ulIndexMask h \<longrightarrow> \<not> lb_visible (w AND ulIndexMask h)
        else NAP_GetNextID h u \<in> dom M \<and> (u = 0 \<or> u AND ulIndexMask h < NAP_GetNextID h u AND ulIndexMask h) \<and>
          lb_visible (NAP_GetNextID h u AND ulIndexMask h) \<and>
          (\<forall>w\<in>dom M. u = 0 \<or> u AND ulIndexMask h < w AND ulIndexMask h \<longrightarrow>
             w AND ulIndexMask h < NAP_GetNextID h u AND ulIndexMask h \<longrightarrow> \<not> lb_visible (w AND ulIndexMask h))"
    proof (cases "i = NAP_INVALID_INDEX")
      case True
      have "L i = None" using index_below [OF L(1)] True by (metis not_Some_eq)
      then show ?thesis using g dom n True by auto
    next
      case False
      then obtain p where p: "L i = Some p" using g by auto
      have v: "NAP_GetNextID h u = ulID h p" using n p by simp
      have "ulID h p \<in> dom M" using p ids L(2) by blast
      then show ?thesis using g dom False inv(6,7) [OF p] unfolding v by auto
    qed
    obtain h' where h': "NAP_FreeAll h = Some h'" "nap_inv rep tbl h' (\<lambda>k. if lb_visible k then None else L k)"
      "nap_ids h' (\<lambda>k. if lb_visible k then None else L k) = (\<lambda>u. if lb_visible (u AND ulIndexMask h) then None else M u)"
      using FreeAll_law [OF L(1)] L(2) by auto
    show ?thesis
      unfolding Let_def NAP_GetIndexByID_def nap_CacleIndexByID_def NAP_INVALID_ID_def
      using walk h'(1) GetNodeByID_law [OF h'(2)] unfolding h'(3) by auto
  qed
  then show ?thesis unfolding nap_walk_def by blast
qed

end

lemma no_pool: "nap_reach needbits max_num None h M \<Longrightarrow> False"
  by (induction rule: nap_reach.induct) (simp_all add: NAP_Create_def split: if_splits)

lemma store_None: "nap_correct needbits max_num None" "nap_walk needbits max_num None"
  unfolding nap_correct_def nap_walk_def using no_pool by blast+

text \<open>What holds for the pools over every store that promises the contract holds for the three creations.\<close>

definition creates_table :: "(UINT \<Rightarrow> (nap_hash_node \<Rightarrow> UINT) \<Rightarrow> nap_hash_node hash option) \<Rightarrow> bool" where
  "creates_table create \<longleftrightarrow> (\<forall>t. create NAP_HASH_MAX_BUCKET_NUM nap_hash_Index = Some t \<longrightarrow>
     hash_for nap_hash_Index nap_hash_Cmp t \<and> hash_list t = [])"

lemma store_rooms:
  assumes "max_num \<noteq> 0" "nap_fits max_num i"
  shows "unat i < unat max_num"
  using assms by (simp add: nap_fits_def word_less_nat_alt)

lemma hash_pool:
  assumes nb: "needs needbits" and cr: "creates_table create"
  shows "nap_correct needbits max_num (NAP_HashCreate create alloc_head)"
    and "nap_walk needbits max_num (NAP_HashCreate create alloc_head)"
    and "nap_reach needbits max_num (NAP_HashCreate create alloc_head) h M \<Longrightarrow>
      nap_good hash_rep g_stNapHashFuncTbl needbits max_num h M"
proof -
  show "nap_correct needbits max_num (NAP_HashCreate create alloc_head)"
    using cr hash_store.store_correct [OF nb, of _ max_num "2 ^ 32"] unat_lt2p [where 'a = 32] store_None
    by (auto simp: NAP_HashCreate_def hash_rep_def creates_table_def split: option.split)
  show "nap_walk needbits max_num (NAP_HashCreate create alloc_head)"
    using cr hash_store.store_walk [OF nb, of _ max_num "2 ^ 32"] unat_lt2p [where 'a = 32] store_None
    by (auto simp: NAP_HashCreate_def hash_rep_def creates_table_def split: option.split)
  show "nap_good hash_rep g_stNapHashFuncTbl needbits max_num h M" if r: "nap_reach needbits max_num (NAP_HashCreate create alloc_head) h M"
  proof (cases "NAP_HashCreate create alloc_head")
    case None
    then show ?thesis using r no_pool by metis
  next
    case (Some st)
    then obtain t where t: "st = (g_stNapHashFuncTbl, t)" "hash_rep t Map.empty"
      using cr by (auto simp: NAP_HashCreate_def hash_rep_def creates_table_def split: if_splits option.splits)
    show ?thesis
      using r hash_store.reach_good [OF nb t(2), of max_num "2 ^ 32"] unat_lt2p [where 'a = 32] unfolding Some t(1) by simp
  qed
qed

text \<open>The walk over the indices, by the identifiers.\<close>

lemma good_GetNextIndex:
  assumes good: "nap_good rep tbl needbits max_num h M" and r: "NAP_GetNextIndex h cur = i"
  shows "if i = NAP_INVALID_INDEX
    then \<forall>u\<in>dom M. cur = NAP_INVALID_INDEX \<or> cur < NAP_GetIndexByID h u \<longrightarrow> \<not> lb_visible (NAP_GetIndexByID h u)
    else lb_visible i \<and> (cur = NAP_INVALID_INDEX \<or> cur < i) \<and> (\<exists>u\<in>dom M. NAP_GetIndexByID h u = i) \<and>
      (\<forall>u\<in>dom M. cur = NAP_INVALID_INDEX \<or> cur < NAP_GetIndexByID h u \<longrightarrow> NAP_GetIndexByID h u < i \<longrightarrow>
         \<not> lb_visible (NAP_GetIndexByID h u))"
proof -
  obtain L where L: "nap_inv rep tbl h L" "M = nap_ids h L" using good by (auto simp: nap_good_def)
  note inv = nap_invD [OF L(1)] and ids = nap_ids_iff [OF L(1)] and g = GetNextIndex_law [OF L(1) r]
  have dom: "u AND ulIndexMask h \<in> dom L" if "u \<in> dom M" for u
    using that unfolding L(2) by (auto simp: nap_ids_def domIff split: option.splits)
  have from_dom: "\<exists>u\<in>dom M. u AND ulIndexMask h = i" if i: "i \<in> dom L"
  proof -
    obtain p where p: "L i = Some p" using i by blast
    then have "ulID h p \<in> dom M" using ids L(2) by blast
    then show ?thesis using inv(6) [OF p] by blast
  qed
  show ?thesis
    unfolding NAP_GetIndexByID_def nap_CacleIndexByID_def using g dom from_dom by (auto split: if_splits)
qed

text \<open>C32: A pool over each of the three stores is a map from identifiers to nodes under every sequence of operations whose indices
  stay within the pool, failed allocations included: the lookups by identifier, by index and by node agree with the map of what was
  handed out and not freed; an allocation hands out a new node under a new identifier, or fails without effect when there is no
  memory for the node or the bitmap gives no index. The index stays within the pool when the pool is not full and no allocation
  inside the bitmap fails, and then there is one; in a pool created without a maximum it always does. Otherwise the index that
  the code takes may lie past the maximum (\<open>alloc_fits\<close> excludes that; a finding records it). What the code leaves to its caller:
  \<open>NUM_NeedBits\<close> counts bits, the sizes do not overflow, fresh memory is not in use, nodes of the pool are freed,
  a sequence mask stays off the index, no identifier is changed to 0, \<^verbatim>\<open>HASH_CreateInstance\<close> returns an empty table.\<close>

theorem NAP_is_map:
  assumes "needs needbits"
    and "node_size \<noteq> 0" and "unat max_num * unat node_size < 2 ^ 32"
    and "\<And>ptrs. ptr_mem = Some ptrs \<Longrightarrow> length ptrs = unat max_num"
    and "creates_table create"
  shows "nap_correct needbits max_num (NAP_ArrayCreate max_num node_size alloc_head nodes_mem) \<and>
    nap_correct needbits max_num (NAP_PtrArrayCreate max_num alloc_head ptr_mem) \<and>
    nap_correct needbits max_num (NAP_HashCreate create alloc_head)"
proof (intro conjI)
  show "nap_correct needbits max_num (NAP_ArrayCreate max_num node_size alloc_head nodes_mem)"
    using assms(2,3) array_store.store_correct [OF assms(1), of "unat max_num" _ max_num] store_rooms store_None
    by (auto simp: NAP_ArrayCreate_def Let_def array_rep_def split: option.split)
  show "nap_correct needbits max_num (NAP_PtrArrayCreate max_num alloc_head ptr_mem)"
    using assms(4) ptr_store.store_correct [OF assms(1), of "unat max_num" _ max_num] store_rooms store_None
    by (auto simp: NAP_PtrArrayCreate_def ptr_rep_def split: option.split)
  show "nap_correct needbits max_num (NAP_HashCreate create alloc_head)"
    by (rule hash_pool(1) [OF assms(1,5)])
qed

text \<open>C33: Walking a pool over each of the three stores: \<open>NAP_GetNextID\<close> goes through the identifiers in the order of their
  indices, and the loop of \<open>NAP_FreeAll\<close> returns and frees the nodes; both skip the nodes whose indices the bitmap's search
  does not see, so that \<open>NAP_FreeAll\<close> leaves exactly those allocated. A pool of at most \<open>0xff00\<close> nodes has none.\<close>

theorem NAP_FreeAll_returns:
  assumes "needs needbits"
    and "node_size \<noteq> 0" and "unat max_num * unat node_size < 2 ^ 32"
    and "\<And>ptrs. ptr_mem = Some ptrs \<Longrightarrow> length ptrs = unat max_num"
    and "creates_table create"
  shows "nap_walk needbits max_num (NAP_ArrayCreate max_num node_size alloc_head nodes_mem) \<and>
    nap_walk needbits max_num (NAP_PtrArrayCreate max_num alloc_head ptr_mem) \<and>
    nap_walk needbits max_num (NAP_HashCreate create alloc_head) \<and> (\<forall>k < 0xff00. lb_visible k)"
proof (intro conjI)
  show "nap_walk needbits max_num (NAP_ArrayCreate max_num node_size alloc_head nodes_mem)"
    using assms(2,3) array_store.store_walk [OF assms(1), of "unat max_num" _ max_num] store_rooms store_None
    by (auto simp: NAP_ArrayCreate_def Let_def array_rep_def split: option.split)
  show "nap_walk needbits max_num (NAP_PtrArrayCreate max_num alloc_head ptr_mem)"
    using assms(4) ptr_store.store_walk [OF assms(1), of "unat max_num" _ max_num] store_rooms store_None
    by (auto simp: NAP_PtrArrayCreate_def ptr_rep_def split: option.split)
  show "nap_walk needbits max_num (NAP_HashCreate create alloc_head)"
    by (rule hash_pool(2) [OF assms(1,5)])
  show "\<forall>k < 0xff00. lb_visible k" using visible_below by blast
qed

text \<open>An array of three nodes of eight bytes: the node handed out first is found under its identifier.\<close>

definition nap_example :: "nap_array nap" where
  "nap_example = the (NAP_Create (\<lambda>_. 31) 3 True (NAP_ArrayCreate 3 8 True (\<lambda>n. Some (unat n))))"

abbreviation nap_example_table :: "nap_hash_node hash" where
  "nap_example_table \<equiv> HASH_Init NAP_HASH_MAX_BUCKET_NUM nap_hash_Index
     \<lparr>mask = 0, uiNodeCount = 0, pfHashIndexFunc = nap_hash_Index, pstBuckets = []\<rparr>"

lemma nap_example_facts:
  "needs (\<lambda>_. 31)"
  "hash_for nap_hash_Index nap_hash_Cmp nap_example_table \<and> hash_list nap_example_table = []"
  "nap_reach (\<lambda>_. 31) 3 (NAP_ArrayCreate 3 8 True (\<lambda>n. Some (unat n))) nap_example Map.empty"
  "uiMaxNum nap_example = 3"
  "alloc_fits 3 nap_example []"
proof -
  show n: "needs (\<lambda>_. 31)" by (simp add: needs_def word_le_nat_alt)
  show "hash_for nap_hash_Index nap_hash_Cmp nap_example_table \<and> hash_list nap_example_table = []"
    using HASH_Init_ok [of NAP_HASH_MAX_BUCKET_NUM "\<lparr>mask = 0, uiNodeCount = 0, pfHashIndexFunc = nap_hash_Index, pstBuckets = []\<rparr>"
      nap_hash_Index]
    by (simp add: hash_for_def cmp_hashes_def nap_hash_Cmp_0 nap_hash_Index_def HASH_Init_def NAP_HASH_MAX_BUCKET_NUM_def)
  have "NAP_Create (\<lambda>_. 31) 3 True (NAP_ArrayCreate 3 8 True (\<lambda>n. Some (unat n))) = Some nap_example"
    by (simp add: nap_example_def NAP_Create_def NAP_ArrayCreate_def nap_CommonInit_def LBitMap_Create_def Let_def)
  then show r: "nap_reach (\<lambda>_. 31) 3 (NAP_ArrayCreate 3 8 True (\<lambda>n. Some (unat n))) nap_example Map.empty" by (rule nap_reach.Create)
  show m: "uiMaxNum nap_example = 3"
    by (simp add: nap_example_def NAP_Create_def NAP_ArrayCreate_def nap_CommonInit_def LBitMap_Create_def Let_def)
  have "nap_correct (\<lambda>_. 31) 3 (NAP_ArrayCreate 3 8 True (\<lambda>n. Some (unat n)))"
    using array_store.store_correct [OF n, of 3 "\<lparr>pucMem = 24, uiNapNodeSize = 8\<rparr>" 3] store_rooms [of 3]
    by (simp add: NAP_ArrayCreate_def array_rep_def)
  then show "alloc_fits 3 nap_example []" using nap_correctD(5) [OF _ r, of "[]"] m by simp
qed

text \<open>Why \<open>alloc_fits\<close> is needed: when the first leaf of the bitmap cannot be allocated, the empty pool of three nodes takes index
  256, and the array store hands out memory past its end.\<close>

lemma nap_index_beyond: "fst (nap_AllocIndex nap_example [True, True, False, True]) = 256"
  by (simp add: nap_AllocIndex_def nap_example_def NAP_Create_def NAP_ArrayCreate_def nap_CommonInit_def LBitMap_Create_def Let_def)
    code_simp

theorem NAP_is_map_witness:
  "case NAP_Alloc nap_example (Some 0) [] of
     (None, h) \<Rightarrow> False
   | (Some p, h) \<Rightarrow> NAP_GetNodeByID h (ulID h p) = Some p \<and> NAP_GetNodeByID nap_example (ulID h p) = None"
proof -
  have "nap_correct (\<lambda>_. 31) 3 (NAP_ArrayCreate 3 8 True (\<lambda>n. Some (unat n)))"
    by (rule conjunct1 [OF NAP_is_map [OF nap_example_facts(1), of 8 3 "Some [None, None, None]" "\<lambda>_ _. Some nap_example_table"]])
      (use nap_example_facts(2) in \<open>auto simp: creates_table_def\<close>)
  note d = nap_correctD [OF this nap_example_facts(3)]
  obtain res h where r: "NAP_Alloc nap_example (Some 0) [] = (res, h)" by (metis surj_pair)
  show ?thesis using d(2) [of "Some 0" "[]"] d(5) [of "[]"] d(1) unfolding r by (cases res) (simp_all add: mem_ok_def nap_example_facts(4))
qed

theorem NAP_FreeAll_returns_witness:
  "case NAP_Alloc nap_example (Some 0) [] of (res, h) \<Rightarrow> \<exists>h'. NAP_FreeAll h = Some h'"
proof -
  have w: "nap_walk (\<lambda>_. 31) 3 (NAP_ArrayCreate 3 8 True (\<lambda>n. Some (unat n)))"
    by (rule conjunct1 [OF NAP_FreeAll_returns [OF nap_example_facts(1), of 8 3 "Some [None, None, None]" "\<lambda>_ _. Some nap_example_table"]])
      (use nap_example_facts(2) in \<open>auto simp: creates_table_def\<close>)
  obtain res h where r: "NAP_Alloc nap_example (Some 0) [] = (res, h)" by (metis surj_pair)
  obtain M where "nap_reach (\<lambda>_. 31) 3 (NAP_ArrayCreate 3 8 True (\<lambda>n. Some (unat n))) h M"
    using nap_reach.Alloc [OF nap_example_facts(3) _ nap_example_facts(5) r] by (auto simp: mem_ok_def)
  then have "\<exists>h'. NAP_FreeAll h = Some h'" using w unfolding nap_walk_def Let_def by blast
  then show ?thesis by (simp add: r)
qed

end
