(* ===== verification/ListRule.thy ===== *)
theory ListRule
  imports Nap RuleList
begin

text \<open>
  The table of rule lists of \<^verbatim>\<open>list_rule/list_rule.c\<close>: lists with a name, a default action and a reference count, each the ordered
  rule list of theory \<^theory_text>\<open>RuleList\<close>, found by an identifier that a pool of theory \<^theory_text>\<open>Nap\<close> hands out. The head of a list is a node of
  the pool that holds a pointer to the list; lists are objects of their own, which a client may create, attach, detach, replace
  and destroy. The heap of the lists is a map from addresses (\<open>None\<close>: not allocated); what the client keeps behind a list is not
  modelled. A pointer that the code follows without a test is read with \<open>the\<close>; the lemmas show that it is not NULL. The
  functions that destroy a list also return the rules that were handed to the free callback, if there is one (\<open>has_free\<close>).
\<close>

datatype bs_action = BS_ACTION_UNDEF | BS_ACTION_DENY | BS_ACTION_PERMIT | BS_ACTION_MAX

type_synonym list_ptr = nat

definition LIST_RULE_LIST_NAME_SIZE :: nat where
  "LIST_RULE_LIST_NAME_SIZE = 64"

record 'r list_rule_list =
  list_name :: string
  default_action :: bs_action
  list_id :: UINT
  uiRefCount :: UINT
  stRuleList :: "'r rule_list"

text \<open>\<open>pstListRule\<close>: the field of a head, by the address of the node.\<close>

record 'r list_rule_ctrl =
  hListNap :: "nap_hash_node hash nap"
  pstListRule :: "nap_ptr \<Rightarrow> list_ptr option"
  lists :: "list_ptr \<rightharpoonup> 'r list_rule_list"

section \<open>Lists\<close>

definition ListRule_Init ::
  "(UINT \<Rightarrow> nat) \<Rightarrow> (UINT \<Rightarrow> (nap_hash_node \<Rightarrow> UINT) \<Rightarrow> nap_hash_node hash option) \<Rightarrow> bool \<Rightarrow> bool \<Rightarrow>
   (list_ptr \<rightharpoonup> 'r list_rule_list) \<Rightarrow> bs_status \<times> 'r list_rule_ctrl option" where
  "ListRule_Init needbits create alloc_head alloc_bitmap heap =
     (case NAP_Create needbits 0 alloc_bitmap (NAP_HashCreate create alloc_head) of
        None \<Rightarrow> (BS_NO_MEMORY, None)
      | Some h \<Rightarrow> (BS_OK, Some \<lparr>hListNap = h, pstListRule = (\<lambda>_. None), lists = heap\<rparr>))"

definition ListRule_Create ::
  "(UINT \<Rightarrow> nat) \<Rightarrow> (UINT \<Rightarrow> (nap_hash_node \<Rightarrow> UINT) \<Rightarrow> nap_hash_node hash option) \<Rightarrow> bool \<Rightarrow> bool \<Rightarrow> bool \<Rightarrow>
   (list_ptr \<rightharpoonup> 'r list_rule_list) \<Rightarrow> 'r list_rule_ctrl option" where
  "ListRule_Create needbits create alloc_ctrl alloc_head alloc_bitmap heap =
     (if \<not> alloc_ctrl then None
      else case ListRule_Init needbits create alloc_head alloc_bitmap heap of
             (ret, ctx) \<Rightarrow> if BS_OK \<noteq> ret then None else ctx)"

definition ListRule_CreateList :: "'r list_rule_ctrl \<Rightarrow> string \<Rightarrow> list_ptr option \<Rightarrow> list_ptr option \<times> 'r list_rule_ctrl" where
  "ListRule_CreateList ctx name mem =
     (case mem of
        None \<Rightarrow> (None, ctx)
      | Some l \<Rightarrow>
          (Some l, ctx\<lparr>lists := (lists ctx)(l \<mapsto>
             \<lparr>list_name = take (LIST_RULE_LIST_NAME_SIZE - 1) name, default_action = BS_ACTION_UNDEF, list_id = 0, uiRefCount = 0,
               stRuleList = RuleList_Init\<rparr>)\<rparr>))"

definition ListRule_DestroyList ::
  "'r list_rule_ctrl \<Rightarrow> list_ptr option \<Rightarrow> bool \<Rightarrow> 'r rule_node list \<times> 'r list_rule_ctrl" where
  "ListRule_DestroyList ctx pstList has_free =
     (case pstList of
        None \<Rightarrow> ([], ctx)
      | Some l \<Rightarrow> (fst (RuleList_Finit has_free (stRuleList (the (lists ctx l)))), ctx\<lparr>lists := (lists ctx)(l := None)\<rparr>))"

text \<open>A field of a list changes through its pointer.\<close>

definition upd_list :: "'r list_rule_ctrl \<Rightarrow> list_ptr \<Rightarrow> ('r list_rule_list \<Rightarrow> 'r list_rule_list) \<Rightarrow> 'r list_rule_ctrl" where
  "upd_list ctx l f = ctx\<lparr>lists := (lists ctx)(l := map_option f (lists ctx l))\<rparr>"

definition ListRule_AttachList ::
  "'r list_rule_ctrl \<Rightarrow> list_ptr \<Rightarrow> nap_ptr option \<Rightarrow> bool list \<Rightarrow> UINT \<times> 'r list_rule_ctrl" where
  "ListRule_AttachList ctx l mem al =
     (case NAP_Alloc (hListNap ctx) mem al of
        (None, h) \<Rightarrow> (0, ctx\<lparr>hListNap := h\<rparr>)
      | (Some node, h) \<Rightarrow>
          (let lid = NAP_GetIDByNode h (Some node);
               ctx = ctx\<lparr>hListNap := h, pstListRule := (pstListRule ctx)(node \<mapsto> l)\<rparr>
           in (lid, upd_list ctx l (\<lambda>r. r\<lparr>list_id := lid\<rparr>))))"

definition ListRule_DetachList :: "'r list_rule_ctrl \<Rightarrow> UINT \<Rightarrow> list_ptr option \<times> 'r list_rule_ctrl" where
  "ListRule_DetachList ctx lid =
     (case NAP_GetNodeByID (hListNap ctx) lid of
        None \<Rightarrow> (None, ctx)
      | Some node \<Rightarrow>
          (let l = pstListRule ctx node;
               ctx = ctx\<lparr>pstListRule := (pstListRule ctx)(node := None), hListNap := NAP_Free (hListNap ctx) (Some node)\<rparr>
           in (l, upd_list ctx (the l) (\<lambda>r. r\<lparr>list_id := NAP_INVALID_ID\<rparr>))))"

definition ListRule_AddList ::
  "'r list_rule_ctrl \<Rightarrow> string \<Rightarrow> list_ptr option \<Rightarrow> nap_ptr option \<Rightarrow> bool list \<Rightarrow> UINT \<times> 'r list_rule_ctrl" where
  "ListRule_AddList ctx name list_mem mem al =
     (case ListRule_CreateList ctx name list_mem of
        (None, ctx) \<Rightarrow> (NAP_INVALID_ID, ctx)
      | (Some l, ctx) \<Rightarrow>
          (case ListRule_AttachList ctx l mem al of
             (lid, ctx) \<Rightarrow>
               if lid = 0 then (NAP_INVALID_ID, snd (ListRule_DestroyList ctx (Some l) False)) else (lid, ctx)))"

definition listrule_DelListNode :: "'r list_rule_ctrl \<Rightarrow> nap_ptr \<Rightarrow> bool \<Rightarrow> 'r rule_node list \<times> 'r list_rule_ctrl" where
  "listrule_DelListNode ctx node has_free =
     (case (case pstListRule ctx node of
              None \<Rightarrow> ([], ctx)
            | Some l \<Rightarrow>
                (case ListRule_DestroyList ctx (Some l) has_free of
                   (freed, ctx) \<Rightarrow> (freed, ctx\<lparr>pstListRule := (pstListRule ctx)(node := None)\<rparr>))) of
        (freed, ctx) \<Rightarrow> (freed, ctx\<lparr>hListNap := NAP_Free (hListNap ctx) (Some node)\<rparr>))"

definition ListRule_DelListID :: "'r list_rule_ctrl \<Rightarrow> UINT \<Rightarrow> bool \<Rightarrow> 'r rule_node list \<times> 'r list_rule_ctrl" where
  "ListRule_DelListID ctx lid has_free =
     (case NAP_GetNodeByID (hListNap ctx) lid of
        None \<Rightarrow> ([], ctx)
      | Some node \<Rightarrow> listrule_DelListNode ctx node has_free)"

definition ListRule_DelList :: "'r list_rule_ctrl \<Rightarrow> list_ptr \<Rightarrow> bool \<Rightarrow> 'r rule_node list \<times> 'r list_rule_ctrl" where
  "ListRule_DelList ctx l has_free = ListRule_DelListID ctx (list_id (the (lists ctx l))) has_free"

definition ListRule_GetListByID :: "'r list_rule_ctrl \<Rightarrow> UINT \<Rightarrow> list_ptr option" where
  "ListRule_GetListByID ctx lid =
     (case NAP_GetNodeByID (hListNap ctx) lid of None \<Rightarrow> None | Some node \<Rightarrow> pstListRule ctx node)"

definition ListRule_ReplaceList ::
  "'r list_rule_ctrl \<Rightarrow> UINT \<Rightarrow> bool \<Rightarrow> list_ptr \<Rightarrow> bs_status \<times> 'r rule_node list \<times> 'r list_rule_ctrl" where
  "ListRule_ReplaceList ctx lid has_free l_new =
     (case NAP_GetNodeByID (hListNap ctx) lid of
        None \<Rightarrow> (BS_NOT_FOUND, [], ctx)
      | Some node \<Rightarrow>
          (case pstListRule ctx node of
             None \<Rightarrow> (BS_OK, [], ctx\<lparr>pstListRule := (pstListRule ctx)(node \<mapsto> l_new)\<rparr>)
           | Some l_old \<Rightarrow>
               (let old = the (lists ctx l_old);
                    ctx = upd_list ctx l_new (\<lambda>r. r\<lparr>uiRefCount := uiRefCount old, default_action := default_action old\<rparr>);
                    ctx = ctx\<lparr>pstListRule := (pstListRule ctx)(node \<mapsto> l_new)\<rparr>
                in (BS_OK, ListRule_DestroyList ctx (Some l_old) has_free))))"

text \<open>The loop of \<^verbatim>\<open>_listrule_reset\<close>; not returning is \<open>None\<close>.\<close>

partial_function (option) reset_loop ::
  "bool \<Rightarrow> 'r rule_node list \<Rightarrow> UINT \<Rightarrow> 'r list_rule_ctrl \<Rightarrow> ('r rule_node list \<times> 'r list_rule_ctrl) option" where
  "reset_loop has_free freed cur ctx =
     (let idx = NAP_GetNextIndex (hListNap ctx) cur
      in if idx = NAP_INVALID_INDEX then Some (freed, ctx)
         else let r = listrule_DelListNode ctx (the (NAP_GetNodeByIndex (hListNap ctx) idx)) has_free
              in reset_loop has_free (freed @ fst r) idx (snd r))"

definition ListRule_Reset :: "'r list_rule_ctrl \<Rightarrow> bool \<Rightarrow> ('r rule_node list \<times> 'r list_rule_ctrl) option" where
  "ListRule_Reset ctx has_free = reset_loop has_free [] NAP_INVALID_INDEX ctx"

text \<open>The rules handed to the callback and the lists left on the heap once the control block is gone.\<close>

definition ListRule_Finit :: "'r list_rule_ctrl \<Rightarrow> bool \<Rightarrow> ('r rule_node list \<times> (list_ptr \<rightharpoonup> 'r list_rule_list)) option" where
  "ListRule_Finit ctx has_free = map_option (\<lambda>(freed, ctx). (freed, lists ctx)) (reset_loop has_free [] NAP_INVALID_INDEX ctx)"

definition ListRule_Destroy :: "'r list_rule_ctrl \<Rightarrow> bool \<Rightarrow> ('r rule_node list \<times> (list_ptr \<rightharpoonup> 'r list_rule_list)) option" where
  "ListRule_Destroy ctx has_free = ListRule_Finit ctx has_free"

section \<open>Reference counts, actions and names\<close>

definition ListRule_IncListRef :: "'r list_rule_ctrl \<Rightarrow> UINT \<Rightarrow> bs_status \<times> 'r list_rule_ctrl" where
  "ListRule_IncListRef ctx lid =
     (case ListRule_GetListByID ctx lid of
        None \<Rightarrow> (BS_NOT_FOUND, ctx)
      | Some l \<Rightarrow> (BS_OK, upd_list ctx l (\<lambda>r. r\<lparr>uiRefCount := uiRefCount r + 1\<rparr>)))"

definition ListRule_DecListRef :: "'r list_rule_ctrl \<Rightarrow> UINT \<Rightarrow> bs_status \<times> 'r list_rule_ctrl" where
  "ListRule_DecListRef ctx lid =
     (case ListRule_GetListByID ctx lid of
        None \<Rightarrow> (BS_NOT_FOUND, ctx)
      | Some l \<Rightarrow> (BS_OK, upd_list ctx l (\<lambda>r. r\<lparr>uiRefCount := uiRefCount r - 1\<rparr>)))"

definition ListRule_GetListRef :: "'r list_rule_ctrl \<Rightarrow> UINT \<Rightarrow> UINT" where
  "ListRule_GetListRef ctx lid =
     (case ListRule_GetListByID ctx lid of None \<Rightarrow> 0 | Some l \<Rightarrow> uiRefCount (the (lists ctx l)))"

definition ListRule_GetDefaultActionByID :: "'r list_rule_ctrl \<Rightarrow> UINT \<Rightarrow> bs_action" where
  "ListRule_GetDefaultActionByID ctx lid =
     (case ListRule_GetListByID ctx lid of None \<Rightarrow> BS_ACTION_UNDEF | Some l \<Rightarrow> default_action (the (lists ctx l)))"

definition ListRule_SetDefaultActionByID :: "'r list_rule_ctrl \<Rightarrow> UINT \<Rightarrow> bs_action \<Rightarrow> bs_status \<times> 'r list_rule_ctrl" where
  "ListRule_SetDefaultActionByID ctx lid action =
     (case ListRule_GetListByID ctx lid of
        None \<Rightarrow> (BS_NO_SUCH, ctx)
      | Some l \<Rightarrow> (BS_OK, upd_list ctx l (\<lambda>r. r\<lparr>default_action := action\<rparr>)))"

partial_function (option) name_loop :: "'r list_rule_ctrl \<Rightarrow> string \<Rightarrow> UINT \<Rightarrow> nap_ptr option option" where
  "name_loop ctx name cur =
     (let idx = NAP_GetNextIndex (hListNap ctx) cur
      in if idx = NAP_INVALID_INDEX then Some None
         else let node = the (NAP_GetNodeByIndex (hListNap ctx) idx)
              in if pstListRule ctx node \<noteq> None \<and> list_name (the (lists ctx (the (pstListRule ctx node)))) = name
                 then Some (Some node)
                 else name_loop ctx name idx)"

definition listrule_GetListHeadByName :: "'r list_rule_ctrl \<Rightarrow> string \<Rightarrow> nap_ptr option option" where
  "listrule_GetListHeadByName ctx name = name_loop ctx name NAP_INVALID_INDEX"

definition ListRule_GetListIDByName :: "'r list_rule_ctrl \<Rightarrow> string \<Rightarrow> UINT option" where
  "ListRule_GetListIDByName ctx name =
     map_option (\<lambda>head. case head of None \<Rightarrow> 0 | Some node \<Rightarrow> NAP_GetIDByNode (hListNap ctx) (Some node))
       (listrule_GetListHeadByName ctx name)"

definition ListRule_GetListByName :: "'r list_rule_ctrl \<Rightarrow> string \<Rightarrow> list_ptr option option" where
  "ListRule_GetListByName ctx name =
     map_option (\<lambda>head. case head of None \<Rightarrow> None | Some node \<Rightarrow> pstListRule ctx node) (listrule_GetListHeadByName ctx name)"

definition ListRule_GetNextList :: "'r list_rule_ctrl \<Rightarrow> nap_ptr option \<Rightarrow> nap_ptr option" where
  "ListRule_GetNextList ctx curr_head =
     (let start = (case curr_head of None \<Rightarrow> NAP_INVALID_INDEX | Some n \<Rightarrow> NAP_GetIndexByNode (hListNap ctx) (Some n))
      in if curr_head \<noteq> None \<and> start = NAP_INVALID_INDEX then None
         else let idx = NAP_GetNextIndex (hListNap ctx) start
              in if idx = NAP_INVALID_INDEX then None else NAP_GetNodeByIndex (hListNap ctx) idx)"

definition ListRule_GetNextListID :: "'r list_rule_ctrl \<Rightarrow> UINT \<Rightarrow> UINT" where
  "ListRule_GetNextListID ctx cur = NAP_GetNextID (hListNap ctx) cur"

definition ListRule_GetListNameByID :: "'r list_rule_ctrl \<Rightarrow> UINT \<Rightarrow> string option" where
  "ListRule_GetListNameByID ctx lid =
     (case ListRule_GetListByID ctx lid of None \<Rightarrow> None | Some l \<Rightarrow> Some (list_name (the (lists ctx l))))"

text \<open>The loops over \<open>ListRule_GetNextList\<close>; a step says whether the loop goes on.\<close>

partial_function (option) list_loop ::
  "'r list_rule_ctrl \<Rightarrow> ('r list_rule_list \<Rightarrow> 's \<Rightarrow> bool \<times> 's) \<Rightarrow> nap_ptr option \<Rightarrow> 's \<Rightarrow> 's option" where
  "list_loop ctx f head s =
     (case ListRule_GetNextList ctx head of
        None \<Rightarrow> Some s
      | Some node \<Rightarrow>
          (let r = f (the (lists ctx (the (pstListRule ctx node)))) s
           in if fst r then list_loop ctx f (Some node) (snd r) else Some (snd r)))"

definition ListRule_IsAnyListRefed :: "'r list_rule_ctrl \<Rightarrow> bool option" where
  "ListRule_IsAnyListRefed ctx = list_loop ctx (\<lambda>l s. if uiRefCount l > 0 then (False, True) else (True, s)) None False"

definition ListRule_WalkList :: "'r list_rule_ctrl \<Rightarrow> ('r list_rule_list \<Rightarrow> 's \<Rightarrow> 's) \<Rightarrow> 's \<Rightarrow> 's option" where
  "ListRule_WalkList ctx walk_list s = list_loop ctx (\<lambda>l s. (True, walk_list l s)) None s"

definition ListRule_WalkRule ::
  "'r list_rule_list \<Rightarrow> ('r list_rule_list \<Rightarrow> 'r rule_node \<Rightarrow> 's \<Rightarrow> 's) \<Rightarrow> 's \<Rightarrow> 's" where
  "ListRule_WalkRule l walk_rule s = fold (walk_rule l) (stRuleList l) s"

definition ListRule_Walk ::
  "'r list_rule_ctrl \<Rightarrow> ('r list_rule_list \<Rightarrow> 's \<Rightarrow> 's) option \<Rightarrow> ('r list_rule_list \<Rightarrow> 'r rule_node \<Rightarrow> 's \<Rightarrow> 's) option \<Rightarrow>
   's \<Rightarrow> 's option" where
  "ListRule_Walk ctx walk_list walk_rule s =
     list_loop ctx (\<lambda>l s.
       let s = (case walk_list of None \<Rightarrow> s | Some f \<Rightarrow> f l s)
       in (True, case walk_rule of None \<Rightarrow> s | Some g \<Rightarrow> fold (g l) (stRuleList l) s)) None s"

section \<open>Rules\<close>

definition ListRule_AddRule2List ::
  "'r list_rule_ctrl \<Rightarrow> list_ptr \<Rightarrow> UINT \<Rightarrow> 'r rule_node \<Rightarrow> bs_status \<times> 'r list_rule_ctrl" where
  "ListRule_AddRule2List ctx l rid rule =
     (if rid = 0 then (BS_BAD_PARA, ctx)
      else (BS_OK, upd_list ctx l (\<lambda>r. r\<lparr>stRuleList := RuleList_Add (stRuleList r) rid rule\<rparr>)))"

definition ListRule_AddRule ::
  "'r list_rule_ctrl \<Rightarrow> UINT \<Rightarrow> UINT \<Rightarrow> 'r rule_node \<Rightarrow> bs_status \<times> 'r list_rule_ctrl" where
  "ListRule_AddRule ctx lid rid rule =
     (case ListRule_GetListByID ctx lid of
        None \<Rightarrow> (BS_NO_SUCH, ctx)
      | Some l \<Rightarrow> ListRule_AddRule2List ctx l rid rule)"

definition ListRule_DelRule :: "'r list_rule_ctrl \<Rightarrow> UINT \<Rightarrow> UINT \<Rightarrow> 'r rule_node option \<times> 'r list_rule_ctrl" where
  "ListRule_DelRule ctx lid rid =
     (case ListRule_GetListByID ctx lid of
        None \<Rightarrow> (None, ctx)
      | Some l \<Rightarrow>
          (fst (RuleList_Del (stRuleList (the (lists ctx l))) rid),
           upd_list ctx l (\<lambda>r. r\<lparr>stRuleList := snd (RuleList_Del (stRuleList r) rid)\<rparr>)))"

definition ListRule_ResetRuleID :: "'r list_rule_ctrl \<Rightarrow> UINT \<Rightarrow> UINT \<Rightarrow> 'r list_rule_ctrl" where
  "ListRule_ResetRuleID ctx lid step0 =
     (let step = (if step0 = 0 then 1 else step0)
      in case ListRule_GetListByID ctx lid of
           None \<Rightarrow> ctx
         | Some l \<Rightarrow> upd_list ctx l (\<lambda>r. r\<lparr>stRuleList := RuleList_ResetRuleID (stRuleList r) step\<rparr>))"

definition ListRule_GetRule :: "'r list_rule_ctrl \<Rightarrow> UINT \<Rightarrow> UINT \<Rightarrow> 'r rule_node option" where
  "ListRule_GetRule ctx lid rid =
     (case ListRule_GetListByID ctx lid of None \<Rightarrow> None | Some l \<Rightarrow> RuleList_GetRule (stRuleList (the (lists ctx l))) rid)"

definition ListRule_GetLastRule :: "'r list_rule_ctrl \<Rightarrow> UINT \<Rightarrow> 'r rule_node option" where
  "ListRule_GetLastRule ctx lid =
     (case ListRule_GetListByID ctx lid of None \<Rightarrow> None | Some l \<Rightarrow> RuleList_GetLastRule (stRuleList (the (lists ctx l))))"

definition ListRule_IncreaseID :: "'r list_rule_ctrl \<Rightarrow> UINT \<Rightarrow> UINT \<Rightarrow> UINT \<Rightarrow> UINT \<Rightarrow> bs_status \<times> 'r list_rule_ctrl" where
  "ListRule_IncreaseID ctx lid s e step =
     (case ListRule_GetListByID ctx lid of
        None \<Rightarrow> (BS_NOT_FOUND, ctx)
      | Some l \<Rightarrow>
          (fst (RuleList_IncreaseID (stRuleList (the (lists ctx l))) s e step),
           upd_list ctx l (\<lambda>r. r\<lparr>stRuleList := snd (RuleList_IncreaseID (stRuleList r) s e step)\<rparr>)))"

definition ListRule_MoveRule :: "'r list_rule_ctrl \<Rightarrow> UINT \<Rightarrow> UINT \<Rightarrow> UINT \<Rightarrow> bs_status \<times> 'r list_rule_ctrl" where
  "ListRule_MoveRule ctx lid oid nid =
     (case ListRule_GetListByID ctx lid of
        None \<Rightarrow> (BS_NOT_FOUND, ctx)
      | Some l \<Rightarrow>
          (fst (RuleList_MoveRule (stRuleList (the (lists ctx l))) oid nid),
           upd_list ctx l (\<lambda>r. r\<lparr>stRuleList := snd (RuleList_MoveRule (stRuleList r) oid nid)\<rparr>)))"

definition ListRule_GetNextRule :: "'r list_rule_ctrl \<Rightarrow> UINT \<Rightarrow> UINT \<Rightarrow> 'r rule_node option" where
  "ListRule_GetNextRule ctx lid rid =
     (case ListRule_GetListByID ctx lid of None \<Rightarrow> None | Some l \<Rightarrow> RuleList_GetNextByID (stRuleList (the (lists ctx l))) rid)"

definition ListRule_ResetID :: "'r list_rule_ctrl \<Rightarrow> UINT \<Rightarrow> UINT \<Rightarrow> bs_status \<times> 'r list_rule_ctrl" where
  "ListRule_ResetID ctx lid step =
     (case ListRule_GetListByID ctx lid of
        None \<Rightarrow> (BS_NOT_FOUND, ctx)
      | Some l \<Rightarrow>
          (fst (RuleList_ResetID (stRuleList (the (lists ctx l))) step),
           upd_list ctx l (\<lambda>r. r\<lparr>stRuleList := snd (RuleList_ResetID (stRuleList r) step)\<rparr>)))"

section \<open>What the table asks of its pool\<close>

locale node_pool =
  fixes pool :: "nap_hash_node hash nap \<Rightarrow> (UINT \<rightharpoonup> nap_ptr) \<Rightarrow> bool"
  assumes get: "pool h M \<Longrightarrow> NAP_GetNodeByID h u = M u"
    and ident: "pool h M \<Longrightarrow> M u = Some n \<Longrightarrow> u \<noteq> 0 \<and> NAP_GetIDByNode h (Some n) = u \<and>
      NAP_GetNodeByIndex h (NAP_GetIndexByID h u) = Some n \<and> NAP_GetIndexByNode h (Some n) = NAP_GetIndexByID h u"
    and alloc: "pool h M \<Longrightarrow> mem_ok mem M \<Longrightarrow> NAP_Alloc h mem al = (res, h') \<Longrightarrow>
      (case res of None \<Rightarrow> (mem = None \<or> no_index h al) \<and> pool h' M
       | Some n \<Rightarrow> n \<notin> ran M \<and> ulID h' n \<notin> dom M \<and> pool h' (M(ulID h' n \<mapsto> n)))"
    and index: "pool h M \<Longrightarrow> card (dom M) < 0x7fffffff \<Longrightarrow> False \<notin> set al \<Longrightarrow> \<not> no_index h al"
    and free: "pool h M \<Longrightarrow> M u = Some n \<Longrightarrow> pool (NAP_Free h (Some n)) (M(u := None))"
    and nxt: "pool h M \<Longrightarrow> NAP_GetNextIndex h cur = i \<Longrightarrow>
      if i = NAP_INVALID_INDEX
      then \<forall>u\<in>dom M. cur = NAP_INVALID_INDEX \<or> cur < NAP_GetIndexByID h u \<longrightarrow> \<not> lb_visible (NAP_GetIndexByID h u)
      else lb_visible i \<and> (cur = NAP_INVALID_INDEX \<or> cur < i) \<and> (\<exists>u\<in>dom M. NAP_GetIndexByID h u = i) \<and>
        (\<forall>u\<in>dom M. cur = NAP_INVALID_INDEX \<or> cur < NAP_GetIndexByID h u \<longrightarrow> NAP_GetIndexByID h u < i \<longrightarrow>
           \<not> lb_visible (NAP_GetIndexByID h u))"

interpretation rule_pool: node_pool
  "\<lambda>h M. needs needbits \<and> creates_table create \<and> nap_reach needbits 0 (NAP_HashCreate create alloc_head) h M"
  for needbits create alloc_head
proof unfold_locales
  fix h M
  assume "needs needbits \<and> creates_table create \<and> nap_reach needbits 0 (NAP_HashCreate create alloc_head) h M"
  then have p: "needs needbits" "creates_table create" "nap_reach needbits 0 (NAP_HashCreate create alloc_head) h M" by simp_all
  note c = nap_correctD [OF hash_pool(1) [OF p(1,2)] p(3)] and good = hash_pool(3) [OF p]
  have m: "uiMaxNum h = 0x7fffffff" using good by (simp add: nap_good_def nap_max_def)
  show "NAP_GetNodeByID h u = M u" for u by (rule c(1))
  show "u \<noteq> 0 \<and> NAP_GetIDByNode h (Some n) = u \<and> NAP_GetNodeByIndex h (NAP_GetIndexByID h u) = Some n \<and>
      NAP_GetIndexByNode h (Some n) = NAP_GetIndexByID h u" if "M u = Some n" for u n
    using c(3) [OF that] by (simp add: NAP_INVALID_ID_def)
  show "case res of None \<Rightarrow> (mem = None \<or> no_index h al) \<and> (needs needbits \<and> creates_table create \<and> nap_reach needbits 0 (NAP_HashCreate create alloc_head) h' M)
      | Some n \<Rightarrow> n \<notin> ran M \<and> ulID h' n \<notin> dom M \<and>
          (needs needbits \<and> creates_table create \<and> nap_reach needbits 0 (NAP_HashCreate create alloc_head) h' (M(ulID h' n \<mapsto> n)))"
    if a: "mem_ok mem M" "NAP_Alloc h mem al = (res, h')" for mem al res h'
    using c(2) [OF a(1) c(4) [OF refl, of al]] nap_reach.Alloc [OF p(3) a(1) c(4) [OF refl, of al] a(2)] a p(1,2) by (cases res) auto
  show "\<not> no_index h al" if "card (dom M) < 0x7fffffff" "False \<notin> set al" for al using c(5) [OF _ that(2)] that(1) m by simp
  show "needs needbits \<and> creates_table create \<and> nap_reach needbits 0 (NAP_HashCreate create alloc_head) (NAP_Free h (Some n)) (M(u := None))"
    if "M u = Some n" for u n using nap_reach.Free [OF p(3) that] p(1,2) by simp
  show "if i = NAP_INVALID_INDEX
      then \<forall>u\<in>dom M. cur = NAP_INVALID_INDEX \<or> cur < NAP_GetIndexByID h u \<longrightarrow> \<not> lb_visible (NAP_GetIndexByID h u)
      else lb_visible i \<and> (cur = NAP_INVALID_INDEX \<or> cur < i) \<and> (\<exists>u\<in>dom M. NAP_GetIndexByID h u = i) \<and>
        (\<forall>u\<in>dom M. cur = NAP_INVALID_INDEX \<or> cur < NAP_GetIndexByID h u \<longrightarrow> NAP_GetIndexByID h u < i \<longrightarrow>
           \<not> lb_visible (NAP_GetIndexByID h u))" if "NAP_GetNextIndex h cur = i" for cur i
    by (rule good_GetNextIndex [OF good that])
qed

text \<open>Every head in use points to a list of its own; \<open>lr_tab\<close> is the table, the lists by their identifiers.\<close>

definition lr_ok :: "(nap_hash_node hash nap \<Rightarrow> (UINT \<rightharpoonup> nap_ptr) \<Rightarrow> bool) \<Rightarrow> 'r list_rule_ctrl \<Rightarrow> (UINT \<rightharpoonup> nap_ptr) \<Rightarrow> bool" where
  [inv_defs]: "lr_ok pool ctx M \<longleftrightarrow> pool (hListNap ctx) M \<and>
     (\<forall>u n. M u = Some n \<longrightarrow> pstListRule ctx n \<noteq> None \<and> lists ctx (the (pstListRule ctx n)) \<noteq> None) \<and>
     (\<forall>u v n m. M u = Some n \<longrightarrow> M v = Some m \<longrightarrow> pstListRule ctx n = pstListRule ctx m \<longrightarrow> u = v)"

definition lr_tab :: "'r list_rule_ctrl \<Rightarrow> (UINT \<rightharpoonup> nap_ptr) \<Rightarrow> (UINT \<rightharpoonup> 'r list_rule_list)" where
  "lr_tab ctx M u = (case M u of None \<Rightarrow> None | Some n \<Rightarrow> lists ctx (the (pstListRule ctx n)))"

definition unattached :: "'r list_rule_ctrl \<Rightarrow> list_ptr \<Rightarrow> bool" where
  "unattached ctx l \<longleftrightarrow> lists ctx l \<noteq> None \<and> (\<forall>u. ListRule_GetListByID ctx u \<noteq> Some l)"

lemma lr_okD:
  assumes "lr_ok pool ctx M"
  shows "pool (hListNap ctx) M"
    and "M u = Some n \<Longrightarrow> \<exists>l r. pstListRule ctx n = Some l \<and> lists ctx l = Some r"
    and "M u = Some n \<Longrightarrow> M v = Some m \<Longrightarrow> pstListRule ctx n = pstListRule ctx m \<Longrightarrow> u = v"
proof -
  show "pool (hListNap ctx) M" using assms by (simp add: lr_ok_def)
  show "\<exists>l r. pstListRule ctx n = Some l \<and> lists ctx l = Some r" if "M u = Some n"
  proof -
    have "pstListRule ctx n \<noteq> None" "lists ctx (the (pstListRule ctx n)) \<noteq> None" using assms that by (simp_all add: lr_ok_def)
    then show ?thesis by auto
  qed
  show "u = v" if "M u = Some n" "M v = Some m" "pstListRule ctx n = pstListRule ctx m" using assms that unfolding lr_ok_def by blast
qed

lemma lr_dom: "lr_ok pool ctx M \<Longrightarrow> dom (lr_tab ctx M) = dom M"
  using lr_okD(2) [of pool ctx M] by (fastforce simp: lr_tab_def split: option.splits)

lemma GetListByID_cong:
  "hListNap ctx' = hListNap ctx \<Longrightarrow> pstListRule ctx' = pstListRule ctx \<Longrightarrow> ListRule_GetListByID ctx' u = ListRule_GetListByID ctx u"
  by (simp add: ListRule_GetListByID_def split: option.split)

text \<open>A change of an attached list shows in the table at its identifier, a change of another object does not.\<close>

lemma lr_upd:
  assumes ok: "lr_ok pool ctx M" and n: "M u = Some n" "pstListRule ctx n = Some l"
  shows "lr_ok pool (upd_list ctx l f) M \<and> lr_tab (upd_list ctx l f) M = (lr_tab ctx M)(u := map_option f (lr_tab ctx M u))"
proof
  have other: "pstListRule ctx m \<noteq> Some l" if "M v = Some m" "v \<noteq> u" for v m
    using lr_okD(3) [OF ok n(1) that(1)] n(2) that(2) by auto
  show "lr_ok pool (upd_list ctx l f) M" using ok unfolding lr_ok_def by (auto simp: upd_list_def)
  show "lr_tab (upd_list ctx l f) M = (lr_tab ctx M)(u := map_option f (lr_tab ctx M u))"
  proof
    fix v
    show "lr_tab (upd_list ctx l f) M v = ((lr_tab ctx M)(u := map_option f (lr_tab ctx M u))) v"
    proof (cases "M v")
      case (Some m)
      then obtain l' where l': "pstListRule ctx m = Some l'" using lr_okD(2) [OF ok] by blast
      then have "v \<noteq> u \<Longrightarrow> l' \<noteq> l" using other [OF Some] by auto
      then show ?thesis using Some l' n by (auto simp: lr_tab_def upd_list_def)
    qed (auto simp: lr_tab_def n)
  qed
qed

lemma lr_other:
  assumes ok: "lr_ok pool ctx M" and l: "\<And>u n. M u = Some n \<Longrightarrow> pstListRule ctx n \<noteq> Some l"
  shows "lr_ok pool (ctx\<lparr>lists := (lists ctx)(l := x)\<rparr>) M \<and> lr_tab (ctx\<lparr>lists := (lists ctx)(l := x)\<rparr>) M = lr_tab ctx M"
proof
  show "lr_ok pool (ctx\<lparr>lists := (lists ctx)(l := x)\<rparr>) M" using ok l unfolding lr_ok_def by fastforce
  show "lr_tab (ctx\<lparr>lists := (lists ctx)(l := x)\<rparr>) M = lr_tab ctx M"
    using l lr_okD(2) [OF ok] by (fastforce simp: lr_tab_def split: option.splits)
qed

definition lr_good :: "(nap_hash_node hash nap \<Rightarrow> (UINT \<rightharpoonup> nap_ptr) \<Rightarrow> bool) \<Rightarrow> 'r list_rule_ctrl \<Rightarrow> (UINT \<rightharpoonup> 'r list_rule_list) \<Rightarrow> bool" where
  [inv_defs]: "lr_good pool ctx T \<longleftrightarrow> (\<exists>M. lr_ok pool ctx M \<and> T = lr_tab ctx M)"

text \<open>Memory for a head that no head in use has.\<close>

definition head_mem_ok :: "nap_ptr option \<Rightarrow> 'r list_rule_ctrl \<Rightarrow> bool" where
  "head_mem_ok mem ctx \<longleftrightarrow> (\<forall>n u. mem = Some n \<longrightarrow> NAP_GetNodeByID (hListNap ctx) u \<noteq> Some n)"

context node_pool
begin

lemma get_ctx: "lr_ok pool ctx M \<Longrightarrow> NAP_GetNodeByID (hListNap ctx) u = M u"
  by (rule get) (erule lr_okD(1))

lemma found: "lr_ok pool ctx M \<Longrightarrow> ListRule_GetListByID ctx u = Some l \<longleftrightarrow> (\<exists>n. M u = Some n \<and> pstListRule ctx n = Some l)"
  by (auto simp: ListRule_GetListByID_def get_ctx split: option.split)

lemma found_tab: "lr_ok pool ctx M \<Longrightarrow> ListRule_GetListByID ctx u = Some l \<Longrightarrow> lr_tab ctx M u = lists ctx l \<and> lists ctx l \<noteq> None"
  using lr_okD(2) [of pool ctx M u] by (fastforce simp: found lr_tab_def)

lemma not_found: "lr_ok pool ctx M \<Longrightarrow> ListRule_GetListByID ctx u = None \<longleftrightarrow> lr_tab ctx M u = None"
  using lr_okD(2) [of pool ctx M u] by (cases "M u") (fastforce simp: ListRule_GetListByID_def lr_tab_def get_ctx)+

lemma by_id:
  assumes "lr_good pool ctx T"
  shows "(case ListRule_GetListByID ctx u of None \<Rightarrow> d | Some l \<Rightarrow> f (the (lists ctx l))) = (case T u of None \<Rightarrow> d | Some r \<Rightarrow> f r)"
proof -
  obtain M where M: "lr_ok pool ctx M" "T = lr_tab ctx M" using assms by (auto simp: lr_good_def)
  show ?thesis
  proof (cases "ListRule_GetListByID ctx u")
    case None
    then have "T u = None" using not_found [OF M(1), of u] M(2) by simp
    then show ?thesis using None by simp
  next
    case (Some l)
    then show ?thesis using found_tab [OF M(1) Some] M(2) by auto
  qed
qed

lemma bind_id: "lr_good pool ctx T \<Longrightarrow> Option.bind (ListRule_GetListByID ctx u) (lists ctx) = T u"
proof -
  assume "lr_good pool ctx T"
  then obtain M where M: "lr_ok pool ctx M" "T = lr_tab ctx M" by (auto simp: lr_good_def)
  show ?thesis
    using not_found [OF M(1), of u] found_tab [OF M(1), of u] M(2) by (cases "ListRule_GetListByID ctx u") auto
qed

lemma upd_good:
  assumes "lr_good pool ctx T" "ListRule_GetListByID ctx u = Some l"
  shows "lr_good pool (upd_list ctx l f) (T(u := map_option f (T u)))"
proof -
  obtain M where M: "lr_ok pool ctx M" "T = lr_tab ctx M" using assms by (auto simp: lr_good_def)
  then obtain n where "M u = Some n" "pstListRule ctx n = Some l" using found [OF M(1)] assms(2) by blast
  then show ?thesis using lr_upd [OF M(1)] M(2) unfolding lr_good_def by metis
qed

lemma by_id_upd:
  assumes "lr_good pool ctx T"
  shows "lr_good pool (case ListRule_GetListByID ctx u of None \<Rightarrow> ctx | Some l \<Rightarrow> upd_list ctx l f) (T(u := map_option f (T u)))"
proof (cases "ListRule_GetListByID ctx u")
  case None
  then have "T u = None" using bind_id [OF assms, of u] by simp
  then show ?thesis using assms None by (simp add: fun_upd_idem)
qed (use upd_good [OF assms] in simp)

lemma unattached_iff: "lr_ok pool ctx M \<Longrightarrow> unattached ctx l \<longleftrightarrow> lists ctx l \<noteq> None \<and> (\<forall>u n. M u = Some n \<longrightarrow> pstListRule ctx n \<noteq> Some l)"
  by (auto simp: unattached_def found)

lemma other_good:
  assumes "lr_good pool ctx T" "lists ctx l = None \<or> unattached ctx l"
  shows "lr_good pool (ctx\<lparr>lists := (lists ctx)(l := x)\<rparr>) T"
proof -
  obtain M where M: "lr_ok pool ctx M" "T = lr_tab ctx M" using assms by (auto simp: lr_good_def)
  have "pstListRule ctx n \<noteq> Some l" if "M u = Some n" for u n
    using assms(2) lr_okD(2) [OF M(1) that] that unattached_iff [OF M(1), of l] by auto
  then show ?thesis using lr_other [OF M(1)] M(2) unfolding lr_good_def by metis
qed

lemma Attach_good:
  assumes good: "lr_good pool ctx T" and l: "unattached ctx l" and mem: "head_mem_ok mem ctx"
    and r: "ListRule_AttachList ctx l mem al = (lid, ctx')"
  shows "if lid = 0 then (mem = None \<or> no_index (hListNap ctx) al) \<and> lr_good pool ctx' T \<and> unattached ctx' l
    else T lid = None \<and> lr_good pool ctx' (T(lid \<mapsto> (the (lists ctx l))\<lparr>list_id := lid\<rparr>))"
proof -
  obtain M where M: "lr_ok pool ctx M" "T = lr_tab ctx M" using good by (auto simp: lr_good_def)
  note p = lr_okD(1) [OF M(1)]
  have mem': "mem_ok mem M" using mem get [OF p] by (auto simp: mem_ok_def head_mem_ok_def ran_def)
  obtain res h where a: "NAP_Alloc (hListNap ctx) mem al = (res, h)" by (metis surj_pair)
  note c = alloc [OF p mem' a]
  have l': "pstListRule ctx n \<noteq> Some l" if "M u = Some n" for u n using l unattached_iff [OF M(1)] that by blast
  show ?thesis
  proof (cases res)
    case None
    then have e: "lid = 0" "ctx' = ctx\<lparr>hListNap := h\<rparr>" using r a by (simp_all add: ListRule_AttachList_def)
    have "lr_ok pool ctx' M \<and> lr_tab ctx' M = T"
      using M c None unfolding e(2) by (auto simp: lr_ok_def lr_tab_def fun_eq_iff split: option.split)
    moreover from this have "unattached ctx' l" using l' l unattached_iff [of ctx' M l] by (simp add: e(2) unattached_def)
    ultimately show ?thesis using e(1) c None unfolding lr_good_def by auto
  next
    case (Some n)
    then have n: "n \<notin> ran M" "ulID h n \<notin> dom M" "pool h (M(ulID h n \<mapsto> n))" using c by simp_all
    have "ulID h n \<noteq> 0" using ident [OF n(3), of "ulID h n" n] by simp
    define ctx1 where "ctx1 = ctx\<lparr>hListNap := h, pstListRule := (pstListRule ctx)(n \<mapsto> l)\<rparr>"
    have e: "lid = ulID h n" "ctx' = upd_list ctx1 l (\<lambda>r. r\<lparr>list_id := lid\<rparr>)"
      using r a Some by (auto simp: ListRule_AttachList_def Let_def NAP_GetIDByNode_def ctx1_def)
    have o: "m \<noteq> n" if "M u = Some m" for u m using n(1) that by (auto simp: ran_def)
    have ok: "lr_ok pool ctx1 (M(lid \<mapsto> n))"
      using M(1) n(3) o l l' unfolding lr_ok_def ctx1_def e(1) unattached_def by (simp add: if_splits) metis
    have "lr_tab ctx1 (M(lid \<mapsto> n)) = T(lid := lists ctx l)"
      using o unfolding M(2) ctx1_def by (auto simp: lr_tab_def fun_eq_iff split: option.split)
    then have "lr_good pool ctx' (T(lid \<mapsto> (the (lists ctx l))\<lparr>list_id := lid\<rparr>))"
      using lr_upd [OF ok, of lid n l "\<lambda>r. r\<lparr>list_id := lid\<rparr>"] l unfolding e(2) lr_good_def unattached_def
      by (auto simp: ctx1_def intro!: exI [of _ "M(lid \<mapsto> n)"])
    moreover have "T lid = None" using n(2) M(2) by (simp add: lr_tab_def e(1) domIff)
    ultimately show ?thesis using \<open>ulID h n \<noteq> 0\<close> e(1) by simp
  qed
qed

lemma free_ok:
  assumes ok: "lr_ok pool ctx M" and n: "M u = Some n"
  shows "lr_ok pool (ctx\<lparr>hListNap := NAP_Free (hListNap ctx) (Some n), pstListRule := (pstListRule ctx)(n := x)\<rparr>) (M(u := None)) \<and>
    lr_tab (ctx\<lparr>hListNap := NAP_Free (hListNap ctx) (Some n), pstListRule := (pstListRule ctx)(n := x)\<rparr>) (M(u := None)) =
      (lr_tab ctx M)(u := None)"
proof -
  have p: "pool (hListNap ctx) M" by (rule lr_okD(1) [OF ok])
  have o: "m \<noteq> n" if "M v = Some m" "v \<noteq> u" for v m using lr_okD(3) [OF ok that(1) n] that(2) by auto
  show ?thesis
  proof
    show "lr_ok pool (ctx\<lparr>hListNap := NAP_Free (hListNap ctx) (Some n), pstListRule := (pstListRule ctx)(n := x)\<rparr>) (M(u := None))"
      using ok free [OF p n] o unfolding lr_ok_def by (simp split: if_splits)
    show "lr_tab (ctx\<lparr>hListNap := NAP_Free (hListNap ctx) (Some n), pstListRule := (pstListRule ctx)(n := x)\<rparr>) (M(u := None)) =
        (lr_tab ctx M)(u := None)"
      using o by (auto simp: lr_tab_def fun_eq_iff split: option.split)
  qed
qed

lemma DelListNode_ok:
  assumes ok: "lr_ok pool ctx M" and n: "M u = Some n"
  shows "lr_ok pool (snd (listrule_DelListNode ctx n has_free)) (M(u := None)) \<and>
    lr_tab (snd (listrule_DelListNode ctx n has_free)) (M(u := None)) = (lr_tab ctx M)(u := None) \<and>
    fst (listrule_DelListNode ctx n has_free) = fst (RuleList_Finit has_free (stRuleList (the (lr_tab ctx M u))))"
proof -
  obtain l r where l: "pstListRule ctx n = Some l" "lists ctx l = Some r" using lr_okD(2) [OF ok n] by blast
  define ctx1 where "ctx1 = ctx\<lparr>hListNap := NAP_Free (hListNap ctx) (Some n), pstListRule := (pstListRule ctx)(n := None)\<rparr>"
  note f = free_ok [OF ok n, of None, folded ctx1_def]
  have e: "snd (listrule_DelListNode ctx n has_free) = ctx1\<lparr>lists := (lists ctx1)(l := None)\<rparr>"
    by (simp add: listrule_DelListNode_def ListRule_DestroyList_def l ctx1_def)
  have "pstListRule ctx1 m \<noteq> Some l" if "(M(u := None)) v = Some m" for v m
    using that lr_okD(3) [OF ok _ n, of v m] l(1) by (auto simp: ctx1_def split: if_splits)
  note o = lr_other [OF conjunct1 [OF f] this]
  have "fst (listrule_DelListNode ctx n has_free) = fst (RuleList_Finit has_free (stRuleList (the (lr_tab ctx M u))))"
    by (simp add: listrule_DelListNode_def ListRule_DestroyList_def l lr_tab_def n)
  then show ?thesis using o f unfolding e by simp
qed

lemma DelListID_good:
  assumes "lr_good pool ctx T"
  shows "lr_good pool (snd (ListRule_DelListID ctx u has_free)) (T(u := None)) \<and>
    fst (ListRule_DelListID ctx u has_free) = (case T u of None \<Rightarrow> [] | Some r \<Rightarrow> fst (RuleList_Finit has_free (stRuleList r)))"
proof -
  obtain M where M: "lr_ok pool ctx M" "T = lr_tab ctx M" using assms by (auto simp: lr_good_def)
  show ?thesis
  proof (cases "M u")
    case None
    then show ?thesis using assms M(2) by (simp add: ListRule_DelListID_def get_ctx [OF M(1)] lr_tab_def fun_upd_idem)
  next
    case (Some n)
    note d = DelListNode_ok [OF M(1) Some, of has_free]
    have "T u \<noteq> None" using Some M lr_dom [OF M(1)] by blast
    then show ?thesis
      using d M(2) Some unfolding lr_good_def by (auto simp: ListRule_DelListID_def get_ctx [OF M(1)])
  qed
qed

lemma Detach_good:
  assumes good: "lr_good pool ctx T" and r: "ListRule_DetachList ctx u = (res, ctx')"
  shows "lr_good pool ctx' (T(u := None)) \<and> (res = None \<longleftrightarrow> T u = None) \<and>
    (\<forall>l. res = Some l \<longrightarrow> unattached ctx' l \<and> lists ctx' l = map_option (\<lambda>r. r\<lparr>list_id := 0\<rparr>) (T u))"
proof -
  obtain M where M: "lr_ok pool ctx M" "T = lr_tab ctx M" using good by (auto simp: lr_good_def)
  show ?thesis
  proof (cases "M u")
    case None
    then show ?thesis using good M(2) r by (simp add: ListRule_DetachList_def get_ctx [OF M(1)] lr_tab_def fun_upd_idem)
  next
    case (Some n)
    obtain l q where l: "pstListRule ctx n = Some l" "lists ctx l = Some q" using lr_okD(2) [OF M(1) Some] by blast
    define ctx1 where "ctx1 = ctx\<lparr>hListNap := NAP_Free (hListNap ctx) (Some n), pstListRule := (pstListRule ctx)(n := None)\<rparr>"
    note f = free_ok [OF M(1) Some, of None, folded ctx1_def]
    have e: "res = Some l" "ctx' = ctx1\<lparr>lists := (lists ctx1)(l \<mapsto> q\<lparr>list_id := 0\<rparr>)\<rparr>"
      using r l by (auto simp: ListRule_DetachList_def get_ctx [OF M(1)] Some upd_list_def ctx1_def NAP_INVALID_ID_def)
    have no: "pstListRule ctx1 m \<noteq> Some l" if "(M(u := None)) v = Some m" for v m
      using that lr_okD(3) [OF M(1) _ Some, of v m] l(1) by (auto simp: ctx1_def split: if_splits)
    have o: "lr_ok pool ctx' (M(u := None)) \<and> lr_tab ctx' (M(u := None)) = lr_tab ctx1 (M(u := None))"
      unfolding e(2) by (rule lr_other [OF conjunct1 [OF f]]) (rule no)
    have "unattached ctx' l" using no unattached_iff [OF conjunct1 [OF o], where l = l] by (simp add: e(2))
    moreover have "T u = Some q" using Some l M(2) by (simp add: lr_tab_def)
    ultimately show ?thesis using o f M(2) e unfolding lr_good_def by auto
  qed
qed

lemma Replace_good:
  assumes good: "lr_good pool ctx T" and l: "unattached ctx l" and r: "ListRule_ReplaceList ctx u has_free l = (ret, freed, ctx')"
  shows "case T u of
      None \<Rightarrow> ret = BS_NOT_FOUND \<and> freed = [] \<and> ctx' = ctx
    | Some old \<Rightarrow> ret = BS_OK \<and> freed = fst (RuleList_Finit has_free (stRuleList old)) \<and>
        lr_good pool ctx' (T(u \<mapsto> (the (lists ctx l))\<lparr>uiRefCount := uiRefCount old, default_action := default_action old\<rparr>))"
proof -
  obtain M where M: "lr_ok pool ctx M" "T = lr_tab ctx M" using good by (auto simp: lr_good_def)
  show ?thesis
  proof (cases "M u")
    case None
    then show ?thesis using r M(2) by (simp add: ListRule_ReplaceList_def get_ctx [OF M(1)] lr_tab_def)
  next
    case (Some n)
    obtain lo old where lo: "pstListRule ctx n = Some lo" "lists ctx lo = Some old" using lr_okD(2) [OF M(1) Some] by blast
    obtain q where q: "lists ctx l = Some q" and free_l: "\<And>v m. M v = Some m \<Longrightarrow> pstListRule ctx m \<noteq> Some l"
      using l unattached_iff [OF M(1)] by auto
    have ne: "lo \<noteq> l" using free_l [OF Some] lo(1) by auto
    let ?new = "q\<lparr>uiRefCount := uiRefCount old, default_action := default_action old\<rparr>"
    have e: "ret = BS_OK" "freed = fst (RuleList_Finit has_free (stRuleList old))"
      "ctx' = ctx\<lparr>pstListRule := (pstListRule ctx)(n \<mapsto> l), lists := (lists ctx)(l \<mapsto> ?new, lo := None)\<rparr>"
      using r lo q ne by (simp_all add: ListRule_ReplaceList_def get_ctx [OF M(1)] Some upd_list_def Let_def ListRule_DestroyList_def)
    have o: "m \<noteq> n \<and> pstListRule ctx m \<noteq> Some lo" if "M v = Some m" "v \<noteq> u" for v m
      using lr_okD(3) [OF M(1) that(1) Some] that(2) lo(1) by auto
    have "lr_ok pool ctx' M"
      unfolding lr_ok_def
    proof (intro conjI allI impI)
      show "pool (hListNap ctx') M" using lr_okD(1) [OF M(1)] by (simp add: e(3))
      fix v m assume m: "M v = Some m"
      show "pstListRule ctx' m \<noteq> None" using lr_okD(2) [OF M(1) m] by (auto simp: e(3))
      show "lists ctx' (the (pstListRule ctx' m)) \<noteq> None"
        using lr_okD(2) [OF M(1) m] o [OF m] ne Some m by (cases "v = u") (auto simp: e(3))
      fix v' m' assume m': "M v' = Some m'" "pstListRule ctx' m = pstListRule ctx' m'"
      show "v = v'"
      proof (cases "v = u \<or> v' = u")
        case True
        then show ?thesis using m m' Some free_l [OF m] free_l [OF m'(1)] o [OF m] o [OF m'(1)] by (auto simp: e(3) split: if_splits)
      next
        case False
        then have "pstListRule ctx m = pstListRule ctx m'" using m'(2) o [OF m] o [OF m'(1)] by (simp add: e(3))
        then show ?thesis by (rule lr_okD(3) [OF M(1) m m'(1)])
      qed
    qed
    moreover have "lr_tab ctx' M = T(u \<mapsto> ?new)"
    proof
      fix v
      show "lr_tab ctx' M v = (T(u \<mapsto> ?new)) v"
      proof (cases "M v")
        case None
        then show ?thesis using Some M(2) by (auto simp: lr_tab_def)
      next
        case m: (Some m)
        obtain l' where "pstListRule ctx m = Some l'" using lr_okD(2) [OF M(1) m] by blast
        then show ?thesis using m Some o [OF m] free_l [OF m] M(2) ne by (cases "v = u") (auto simp: lr_tab_def e(3))
      qed
    qed
    moreover have "T u = Some old" using Some lo M(2) by (simp add: lr_tab_def)
    ultimately show ?thesis using e q unfolding lr_good_def by auto
  qed
qed

end

section \<open>The rules of a table\<close>

text \<open>All rules of the table, to say that an operation loses none.\<close>

definition rules_of :: "(UINT \<rightharpoonup> 'r list_rule_list) \<Rightarrow> 'r rule_node multiset" where
  "rules_of T = (\<Sum>u\<in>dom T. mset (stRuleList (the (T u))))"

definition rules_at :: "'r list_rule_list option \<Rightarrow> 'r rule_node multiset" where
  "rules_at x = (case x of None \<Rightarrow> {#} | Some r \<Rightarrow> mset (stRuleList r))"

lemma rules_at_simps [simp]: "rules_at None = {#}" "rules_at (Some r) = mset (stRuleList r)"
  by (simp_all add: rules_at_def)

lemma rules_of_sum: "rules_of T = (\<Sum>u\<in>UNIV. rules_at (T u))"
  unfolding rules_of_def by (rule sum.mono_neutral_cong_left) (auto simp: domIff)

lemma rules_of_upd: "rules_of (T(u := x)) + rules_at (T u) = rules_of T + rules_at x"
proof -
  have "(\<Sum>v\<in>UNIV - {u}. rules_at ((T(u := x)) v)) = (\<Sum>v\<in>UNIV - {u}. rules_at (T v))" by (rule sum.cong) simp_all
  then show ?thesis
    unfolding rules_of_sum sum.remove [OF finite UNIV_I, of _ u] by (simp add: ac_simps)
qed

lemma Finit_freed: "fst (RuleList_Finit has_free l) = (if has_free then l else [])"
  by (induction l) (auto simp: Let_def split: prod.split)

section \<open>Loops over the table\<close>

definition after_index :: "'r list_rule_ctrl \<Rightarrow> UINT \<Rightarrow> UINT \<Rightarrow> bool" where
  "after_index ctx cur u \<longleftrightarrow> cur = NAP_INVALID_INDEX \<or> cur < NAP_GetIndexByID (hListNap ctx) u"

definition seen :: "'r list_rule_ctrl \<Rightarrow> UINT \<Rightarrow> bool" where
  "seen ctx u \<longleftrightarrow> lb_visible (NAP_GetIndexByID (hListNap ctx) u)"

context node_pool
begin

lemma next_node:
  assumes ok: "lr_ok pool ctx M" and i: "i = NAP_GetNextIndex (hListNap ctx) cur" "i \<noteq> NAP_INVALID_INDEX"
  obtains u n where "M u = Some n" "NAP_GetIndexByID (hListNap ctx) u = i" "NAP_GetNodeByIndex (hListNap ctx) i = Some n"
    "seen ctx u" "after_index ctx cur u" "\<forall>v. M v \<noteq> None \<longrightarrow> v \<noteq> u \<longrightarrow> seen ctx v \<longrightarrow> after_index ctx cur v = after_index ctx i v"
proof -
  note p = lr_okD(1) [OF ok] and g = nxt [OF lr_okD(1) [OF ok] i(1) [symmetric]]
  obtain u n where u: "M u = Some n" "NAP_GetIndexByID (hListNap ctx) u = i" using g i(2) by auto
  note n = ident [OF p u(1)]
  have "seen ctx u" "after_index ctx cur u" using g i(2) u(2) by (simp_all add: seen_def after_index_def)
  moreover have "after_index ctx cur v \<longleftrightarrow> after_index ctx i v" if v: "M v \<noteq> None" "v \<noteq> u" "seen ctx v" for v
  proof -
    have "NAP_GetIndexByID (hListNap ctx) v \<noteq> i"
    proof
      assume e: "NAP_GetIndexByID (hListNap ctx) v = i"
      obtain m where m: "M v = Some m" using v(1) by blast
      then have "m = n" using ident [OF p m] n u(2) e by simp
      then show False using ident [OF p m] n v(2) by simp
    qed
    moreover have "\<not> (after_index ctx cur v \<and> NAP_GetIndexByID (hListNap ctx) v < i)"
      using g i(2) v(1,3) by (auto simp: after_index_def seen_def)
    ultimately show ?thesis using g i(2) by (auto simp: after_index_def)
  qed
  ultimately show ?thesis using that [of u n] u n by simp
qed

lemma next_none:
  assumes ok: "lr_ok pool ctx M" and i: "NAP_GetNextIndex (hListNap ctx) cur = NAP_INVALID_INDEX" and v: "M v \<noteq> None" "seen ctx v"
  shows "\<not> after_index ctx cur v"
  using nxt [OF lr_okD(1) [OF ok] i] v by (auto simp: after_index_def seen_def)

lemma reset_ok:
  assumes "lr_ok pool ctx M" "\<And>v. M v \<noteq> None \<Longrightarrow> seen ctx v \<Longrightarrow> after_index ctx cur v"
  shows "\<exists>freed' ctx'. reset_loop has_free freed cur ctx = Some (freed @ freed', ctx') \<and>
    lr_good pool ctx' (\<lambda>v. if seen ctx v then None else lr_tab ctx M v) \<and>
    (has_free \<longrightarrow> mset freed' + rules_of (\<lambda>v. if seen ctx v then None else lr_tab ctx M v) = rules_of (lr_tab ctx M))"
  using assms
proof (induction "card (dom M)" arbitrary: ctx M cur freed rule: less_induct)
  case less
  define i where "i = NAP_GetNextIndex (hListNap ctx) cur"
  show ?case
  proof (cases "i = NAP_INVALID_INDEX")
    case True
    have "M v = None" if "seen ctx v" for v using next_none [OF less.prems(1) _ _ that, of cur] less.prems(2) [OF _ that] True i_def by (cases "M v") auto
    then have "(\<lambda>v. if seen ctx v then None else lr_tab ctx M v) = lr_tab ctx M" by (auto simp: lr_tab_def)
    moreover have "reset_loop has_free freed cur ctx = Some (freed, ctx)" using True by (subst reset_loop.simps) (simp add: i_def)
    ultimately show ?thesis using less.prems(1) by (auto simp: lr_good_def)
  next
    case False
    obtain u n where u: "M u = Some n" "NAP_GetIndexByID (hListNap ctx) u = i" "NAP_GetNodeByIndex (hListNap ctx) i = Some n"
      "seen ctx u" "\<forall>v. M v \<noteq> None \<longrightarrow> v \<noteq> u \<longrightarrow> seen ctx v \<longrightarrow> after_index ctx cur v = after_index ctx i v"
      using next_node [OF less.prems(1) i_def False] by metis
    define freed1 ctx1 where "freed1 = fst (listrule_DelListNode ctx n has_free)" "ctx1 = snd (listrule_DelListNode ctx n has_free)"
    note d = DelListNode_ok [OF less.prems(1) u(1), of has_free, folded freed1_ctx1_def]
    have same: "NAP_GetIndexByID (hListNap ctx1) v = NAP_GetIndexByID (hListNap ctx) v" for v
      unfolding freed1_ctx1_def
      by (simp add: listrule_DelListNode_def NAP_Free_def nap_FreeIndex_def Let_def NAP_GetIndexByID_def nap_CacleIndexByID_def
          ListRule_DestroyList_def split: option.split)
    have s: "seen ctx1 = seen ctx" "after_index ctx1 = after_index ctx" by (auto simp: seen_def after_index_def same fun_eq_iff)
    have "card (dom (M(u := None))) < card (dom M)" using u(1) by (intro psubset_card_mono) auto
    moreover have "after_index ctx1 i v" if "(M(u := None)) v \<noteq> None" "seen ctx1 v" for v
    proof -
      have "M v \<noteq> None" "v \<noteq> u" using that(1) by (auto split: if_splits)
      then show ?thesis using u(5) less.prems(2) that(2) unfolding s by blast
    qed
    ultimately have "\<exists>freed' ctx'. reset_loop has_free (freed @ freed1) i ctx1 = Some ((freed @ freed1) @ freed', ctx') \<and>
        lr_good pool ctx' (\<lambda>v. if seen ctx1 v then None else lr_tab ctx1 (M(u := None)) v) \<and>
        (has_free \<longrightarrow> mset freed' + rules_of (\<lambda>v. if seen ctx1 v then None else lr_tab ctx1 (M(u := None)) v) =
           rules_of (lr_tab ctx1 (M(u := None))))"
      by (rule less.hyps [OF _ conjunct1 [OF d]])
    then
    obtain freed' ctx' where IH: "reset_loop has_free (freed @ freed1) i ctx1 = Some ((freed @ freed1) @ freed', ctx')"
      "lr_good pool ctx' (\<lambda>v. if seen ctx v then None else lr_tab ctx1 (M(u := None)) v)"
      "has_free \<longrightarrow> mset freed' + rules_of (\<lambda>v. if seen ctx v then None else lr_tab ctx1 (M(u := None)) v) = rules_of (lr_tab ctx1 (M(u := None)))"
      unfolding s by blast
    have t: "(\<lambda>v. if seen ctx v then None else lr_tab ctx1 (M(u := None)) v) = (\<lambda>v. if seen ctx v then None else lr_tab ctx M v)"
      using d u(4) by auto
    have "reset_loop has_free freed cur ctx = reset_loop has_free (freed @ freed1) i ctx1"
      using False u(3) by (subst reset_loop.simps) (simp add: i_def [symmetric] freed1_ctx1_def Let_def)
    moreover have "mset freed1 + rules_of ((lr_tab ctx M)(u := None)) = rules_of (lr_tab ctx M)" if has_free
      using rules_of_upd [of "lr_tab ctx M" u None] d that lr_okD(2) [OF less.prems(1) u(1)] u(1)
      by (auto simp: Finit_freed lr_tab_def add.commute)
    ultimately show ?thesis
      using IH d unfolding t by (intro exI [of _ "freed1 @ freed'"] exI [of _ ctx']) (auto simp: add.assoc)
  qed
qed

lemma name_ok:
  assumes ok: "lr_ok pool ctx M"
  shows "\<exists>head. name_loop ctx name cur = Some head \<and>
    (case head of
       None \<Rightarrow> \<forall>u r. lr_tab ctx M u = Some r \<longrightarrow> list_name r = name \<longrightarrow> after_index ctx cur u \<longrightarrow> \<not> seen ctx u
     | Some n \<Rightarrow> \<exists>u r. M u = Some n \<and> lr_tab ctx M u = Some r \<and> list_name r = name \<and> after_index ctx cur u \<and> seen ctx u \<and>
         (\<forall>v q. lr_tab ctx M v = Some q \<longrightarrow> list_name q = name \<longrightarrow> after_index ctx cur v \<longrightarrow> seen ctx v \<longrightarrow>
            NAP_GetIndexByID (hListNap ctx) u \<le> NAP_GetIndexByID (hListNap ctx) v))"
proof (induction "card {u\<in>dom M. seen ctx u \<and> after_index ctx cur u}" arbitrary: cur rule: less_induct)
  case less
  define i where "i = NAP_GetNextIndex (hListNap ctx) cur"
  have dom: "M v \<noteq> None" if "lr_tab ctx M v = Some q" for v q using that by (auto simp: lr_tab_def split: option.splits)
  show ?case
  proof (cases "i = NAP_INVALID_INDEX")
    case True
    then show ?thesis using next_none [OF ok _ dom] by (subst name_loop.simps) (auto simp: i_def)
  next
    case False
    obtain u n where u: "M u = Some n" "NAP_GetIndexByID (hListNap ctx) u = i" "NAP_GetNodeByIndex (hListNap ctx) i = Some n"
      "seen ctx u" "after_index ctx cur u"
      and same_after: "\<forall>v. M v \<noteq> None \<longrightarrow> v \<noteq> u \<longrightarrow> seen ctx v \<longrightarrow> after_index ctx cur v = after_index ctx i v"
      by (rule next_node [OF ok i_def False])
    have same: "after_index ctx cur v = after_index ctx i v" if "M v \<noteq> None" "v \<noteq> u" "seen ctx v" for v
      using same_after that by blast
    obtain l r where l: "pstListRule ctx n = Some l" "lists ctx l = Some r" using lr_okD(2) [OF ok u(1)] by blast
    have t: "lr_tab ctx M u = Some r" using u(1) l by (simp add: lr_tab_def)
    have step: "name_loop ctx name cur = (if list_name r = name then Some (Some n) else name_loop ctx name i)"
      using False u(3) l by (subst name_loop.simps) (simp add: i_def [symmetric] Let_def)
    show ?thesis
    proof (cases "list_name r = name")
      case True
      have "i \<le> NAP_GetIndexByID (hListNap ctx) v" if v: "lr_tab ctx M v = Some q" "after_index ctx cur v" "seen ctx v" for v q
        using u(2) same [OF dom [OF v(1)] _ v(3)] v(2) False by (cases "v = u") (auto simp: after_index_def)
      then have "\<exists>u r. M u = Some n \<and> lr_tab ctx M u = Some r \<and> list_name r = name \<and> after_index ctx cur u \<and> seen ctx u \<and>
         (\<forall>v q. lr_tab ctx M v = Some q \<longrightarrow> list_name q = name \<longrightarrow> after_index ctx cur v \<longrightarrow> seen ctx v \<longrightarrow>
            NAP_GetIndexByID (hListNap ctx) u \<le> NAP_GetIndexByID (hListNap ctx) v)"
        using True u(1,2,4,5) t by blast
      then show ?thesis unfolding step if_P [OF True] by (intro exI [of _ "Some n"] conjI refl) (simp only: option.case)
    next
      case no: False
      have "\<not> after_index ctx i u" using u(2) False by (simp add: after_index_def)
      moreover have "after_index ctx cur v" if "M v \<noteq> None" "seen ctx v" "after_index ctx i v" for v
        using same [OF that(1) _ that(2)] that(3) u(5) by (cases "v = u") auto
      ultimately have "{v\<in>dom M. seen ctx v \<and> after_index ctx i v} \<subset> {v\<in>dom M. seen ctx v \<and> after_index ctx cur v}"
        using u(1,4,5) by auto
      then have "card {v\<in>dom M. seen ctx v \<and> after_index ctx i v} < card {v\<in>dom M. seen ctx v \<and> after_index ctx cur v}"
        by (intro psubset_card_mono) simp_all
      from less.hyps [OF this] obtain head where head: "name_loop ctx name i = Some head"
        "case head of
           None \<Rightarrow> \<forall>u r. lr_tab ctx M u = Some r \<longrightarrow> list_name r = name \<longrightarrow> after_index ctx i u \<longrightarrow> \<not> seen ctx u
         | Some n \<Rightarrow> \<exists>u r. M u = Some n \<and> lr_tab ctx M u = Some r \<and> list_name r = name \<and> after_index ctx i u \<and> seen ctx u \<and>
             (\<forall>v q. lr_tab ctx M v = Some q \<longrightarrow> list_name q = name \<longrightarrow> after_index ctx i v \<longrightarrow> seen ctx v \<longrightarrow>
                NAP_GetIndexByID (hListNap ctx) u \<le> NAP_GetIndexByID (hListNap ctx) v)"
        by blast
      have named: "after_index ctx cur v \<longleftrightarrow> after_index ctx i v" if "lr_tab ctx M v = Some q" "list_name q = name" "seen ctx v" for v q
        using same [OF dom [OF that(1)] _ that(3)] that t no by (cases "v = u") auto
      show ?thesis
      proof (cases head)
        case None
        then have "\<forall>u r. lr_tab ctx M u = Some r \<longrightarrow> list_name r = name \<longrightarrow> after_index ctx cur u \<longrightarrow> \<not> seen ctx u"
          using head(2) named by auto
        then show ?thesis
          unfolding step if_not_P [OF no] head(1) None by (intro exI [of _ None] conjI refl) (simp only: option.case)
      next
        case (Some m)
        then obtain w q where w: "M w = Some m" "lr_tab ctx M w = Some q" "list_name q = name" "after_index ctx i w" "seen ctx w"
          "\<And>v q. lr_tab ctx M v = Some q \<Longrightarrow> list_name q = name \<Longrightarrow> after_index ctx i v \<Longrightarrow> seen ctx v \<Longrightarrow>
             NAP_GetIndexByID (hListNap ctx) w \<le> NAP_GetIndexByID (hListNap ctx) v"
          using head(2) by auto
        have "after_index ctx cur w" using named w by blast
        moreover have "NAP_GetIndexByID (hListNap ctx) w \<le> NAP_GetIndexByID (hListNap ctx) v"
          if "lr_tab ctx M v = Some q" "list_name q = name" "after_index ctx cur v" "seen ctx v" for v q
          by (rule w(6) [OF that(1,2) _ that(4)]) (use named that in blast)
        ultimately have "\<exists>u r. M u = Some m \<and> lr_tab ctx M u = Some r \<and> list_name r = name \<and> after_index ctx cur u \<and> seen ctx u \<and>
           (\<forall>v q. lr_tab ctx M v = Some q \<longrightarrow> list_name q = name \<longrightarrow> after_index ctx cur v \<longrightarrow> seen ctx v \<longrightarrow>
              NAP_GetIndexByID (hListNap ctx) u \<le> NAP_GetIndexByID (hListNap ctx) v)"
          using w(1,2,3,5) by blast
        then show ?thesis
          unfolding step if_not_P [OF no] head(1) Some by (intro exI [of _ "Some m"] conjI refl) (simp only: option.case)
      qed
    qed
  qed
qed

end

text \<open>What a loop over \<open>ListRule_GetNextList\<close> computes: the step on the lists in turn, until it stops.\<close>

fun run_lists :: "('l \<Rightarrow> 's \<Rightarrow> bool \<times> 's) \<Rightarrow> 'l list \<Rightarrow> 's \<Rightarrow> 's" where
  "run_lists f [] s = s"
| "run_lists f (l # ls) s = (if fst (f l s) then run_lists f ls (snd (f l s)) else snd (f l s))"

definition index_order :: "'r list_rule_ctrl \<Rightarrow> UINT list \<Rightarrow> bool" where
  "index_order ctx us \<longleftrightarrow> sorted_wrt (\<lambda>u v. NAP_GetIndexByID (hListNap ctx) u < NAP_GetIndexByID (hListNap ctx) v) us"

context node_pool
begin

lemma list_loop_ok:
  assumes ok: "lr_ok pool ctx M"
    and start: "head = None \<and> cur = NAP_INVALID_INDEX \<or>
      (\<exists>w n. head = Some n \<and> M w = Some n \<and> cur = NAP_GetIndexByID (hListNap ctx) w \<and> cur \<noteq> NAP_INVALID_INDEX)"
  shows "\<exists>us. index_order ctx us \<and> set us = {u\<in>dom M. seen ctx u \<and> after_index ctx cur u} \<and>
    (\<forall>s. list_loop ctx f head s = Some (run_lists f (map (\<lambda>u. the (lr_tab ctx M u)) us) s))"
  using start
proof (induction "card {u\<in>dom M. seen ctx u \<and> after_index ctx cur u}" arbitrary: cur head rule: less_induct)
  case less
  define i where "i = NAP_GetNextIndex (hListNap ctx) cur"
  have g: "ListRule_GetNextList ctx head = (if i = NAP_INVALID_INDEX then None else NAP_GetNodeByIndex (hListNap ctx) i)"
    using less.prems ident [OF lr_okD(1) [OF ok]] by (auto simp: ListRule_GetNextList_def i_def Let_def)
  show ?case
  proof (cases "i = NAP_INVALID_INDEX")
    case True
    then have "{u\<in>dom M. seen ctx u \<and> after_index ctx cur u} = {}" using next_none [OF ok] i_def by auto
    moreover have "list_loop ctx f head s = Some s" for s using True g by (subst list_loop.simps) simp
    ultimately show ?thesis by (intro exI [of _ "[]"]) (simp add: index_order_def)
  next
    case False
    obtain u n where u: "M u = Some n" "NAP_GetIndexByID (hListNap ctx) u = i" "NAP_GetNodeByIndex (hListNap ctx) i = Some n"
      "seen ctx u" "after_index ctx cur u"
      and same: "\<forall>v. M v \<noteq> None \<longrightarrow> v \<noteq> u \<longrightarrow> seen ctx v \<longrightarrow> after_index ctx cur v = after_index ctx i v"
      by (rule next_node [OF ok i_def False])
    obtain l r where l: "pstListRule ctx n = Some l" "lists ctx l = Some r" using lr_okD(2) [OF ok u(1)] by blast
    have "\<not> after_index ctx i u" using u(2) False by (simp add: after_index_def)
    then have step: "{v\<in>dom M. seen ctx v \<and> after_index ctx cur v} = insert u {v\<in>dom M. seen ctx v \<and> after_index ctx i v}"
      and new: "u \<notin> {v\<in>dom M. seen ctx v \<and> after_index ctx i v}"
      using u(1,4,5) same by auto
    have "card {v\<in>dom M. seen ctx v \<and> after_index ctx i v} < card {v\<in>dom M. seen ctx v \<and> after_index ctx cur v}"
      unfolding step by (subst card_insert_disjoint [OF _ new]) simp_all
    from less.hyps [OF this, of "Some n"] obtain us where us: "index_order ctx us" "set us = {v\<in>dom M. seen ctx v \<and> after_index ctx i v}"
      "\<And>s. list_loop ctx f (Some n) s = Some (run_lists f (map (\<lambda>u. the (lr_tab ctx M u)) us) s)"
      using u(1,2) False by blast
    have "index_order ctx (u # us)" using us(1,2) u(2) False by (auto simp: index_order_def after_index_def)
    moreover have "list_loop ctx f head s = Some (run_lists f (map (\<lambda>u. the (lr_tab ctx M u)) (u # us)) s)" for s
      using us(3) g False u(1,3) l by (subst list_loop.simps) (simp add: lr_tab_def Let_def)
    ultimately show ?thesis unfolding step by (intro exI [of _ "u # us"]) (use us(2) in auto)
  qed
qed

end

section \<open>Tables in use\<close>

abbreviation lr_pool ::
  "(UINT \<Rightarrow> nat) \<Rightarrow> (UINT \<Rightarrow> (nap_hash_node \<Rightarrow> UINT) \<Rightarrow> nap_hash_node hash option) \<Rightarrow> nap_hash_node hash nap \<Rightarrow>
   (UINT \<rightharpoonup> nap_ptr) \<Rightarrow> bool" where
  "lr_pool needbits create h M \<equiv> needs needbits \<and> creates_table create \<and> nap_reach needbits 0 (NAP_HashCreate create True) h M"

lemma Create_good:
  assumes "needs needbits" "creates_table create" "ListRule_Create needbits create ac ah ab heap = Some ctx"
  shows "lr_good (lr_pool needbits create) ctx Map.empty"
proof -
  obtain h where h: "NAP_Create needbits 0 ab (NAP_HashCreate create ah) = Some h" "ctx = \<lparr>hListNap = h, pstListRule = (\<lambda>_. None), lists = heap\<rparr>"
    using assms(3) by (auto simp: ListRule_Create_def ListRule_Init_def split: if_splits option.splits)
  have ah: ah "ab" using h(1)
    by (auto simp: NAP_Create_def NAP_HashCreate_def nap_CommonInit_def LBitMap_Create_def Let_def split: option.splits if_splits)
  then have "nap_reach needbits 0 (NAP_HashCreate create True) h Map.empty" using h(1) by (intro nap_reach.Create) simp
  then have "lr_ok (lr_pool needbits create) ctx Map.empty" using assms(1,2) h(2) by (simp add: lr_ok_def)
  moreover have "lr_tab ctx Map.empty = Map.empty" by (simp add: lr_tab_def fun_eq_iff)
  ultimately show ?thesis unfolding lr_good_def by metis
qed

definition new_list :: "string \<Rightarrow> 'r list_rule_list" where
  "new_list name = \<lparr>list_name = take (LIST_RULE_LIST_NAME_SIZE - 1) name, default_action = BS_ACTION_UNDEF, list_id = 0, uiRefCount = 0,
     stRuleList = RuleList_Init\<rparr>"

text \<open>Memory for a list that no list has.\<close>

definition list_mem_ok :: "list_ptr option \<Rightarrow> 'r list_rule_ctrl \<Rightarrow> bool" where
  "list_mem_ok mem ctx \<longleftrightarrow> (\<forall>l. mem = Some l \<longrightarrow> lists ctx l = None)"

context node_pool
begin

lemma CreateList_good:
  assumes "lr_good pool ctx T" "list_mem_ok mem ctx" "ListRule_CreateList ctx name mem = (res, ctx')"
  shows "lr_good pool ctx' T \<and> hListNap ctx' = hListNap ctx \<and> res = mem \<and>
    (\<forall>l. res = Some l \<longrightarrow> unattached ctx' l \<and> lists ctx' l = Some (new_list name))"
proof (cases mem)
  case None
  then show ?thesis using assms by (simp add: ListRule_CreateList_def)
next
  case (Some l)
  then have e: "res = Some l" "ctx' = ctx\<lparr>lists := (lists ctx)(l := Some (new_list name))\<rparr>"
    using assms(3) by (auto simp: ListRule_CreateList_def new_list_def)
  have none: "lists ctx l = None" using assms(2) Some by (simp add: list_mem_ok_def)
  obtain M where M: "lr_ok pool ctx M" using assms(1) by (auto simp: lr_good_def)
  have "ListRule_GetListByID ctx u \<noteq> Some l" for u using found_tab [OF M, of u l] none by auto
  moreover have "ListRule_GetListByID ctx' u = ListRule_GetListByID ctx u" for u by (rule GetListByID_cong) (simp_all add: e(2))
  ultimately have "unattached ctx' l" by (simp add: unattached_def e(2))
  then show ?thesis using other_good [OF assms(1), of l] none e Some by simp
qed

lemma AddList_good:
  assumes good: "lr_good pool ctx T" and lm: "list_mem_ok list_mem ctx" and hm: "head_mem_ok mem ctx"
    and r: "ListRule_AddList ctx name list_mem mem al = (lid, ctx')"
  shows "if lid = 0 then (list_mem = None \<or> mem = None \<or> no_index (hListNap ctx) al) \<and> lr_good pool ctx' T
    else T lid = None \<and> lr_good pool ctx' (T(lid \<mapsto> (new_list name)\<lparr>list_id := lid\<rparr>))"
proof -
  obtain res ctx1 where c: "ListRule_CreateList ctx name list_mem = (res, ctx1)" by (metis surj_pair)
  note g = CreateList_good [OF good lm c]
  show ?thesis
  proof (cases res)
    case None
    then show ?thesis using r c g by (simp add: ListRule_AddList_def NAP_INVALID_ID_def)
  next
    case (Some l)
    obtain lid1 ctx2 where a: "ListRule_AttachList ctx1 l mem al = (lid1, ctx2)" by (metis surj_pair)
    have u: "unattached ctx1 l" "lists ctx1 l = Some (new_list name)" "lr_good pool ctx1 T" using g Some by simp_all
    have "head_mem_ok mem ctx1" using hm g by (simp add: head_mem_ok_def)
    note t = Attach_good [OF u(3,1) this a]
    show ?thesis
    proof (cases "lid1 = 0")
      case True
      then have "lid = 0" "ctx' = ctx2\<lparr>lists := (lists ctx2)(l := None)\<rparr>"
        using r c a Some by (simp_all add: ListRule_AddList_def NAP_INVALID_ID_def ListRule_DestroyList_def)
      then show ?thesis using t True g other_good [of ctx2 T l None] by auto
    next
      case False
      then have "lid = lid1" "ctx' = ctx2" using r c a Some by (simp_all add: ListRule_AddList_def)
      then show ?thesis using t False u(2) by simp
    qed
  qed
qed

end

text \<open>The tables that the operations build, with the lists by their identifiers, for every outcome of every allocation. The client
  gives memory that is not in use, attaches, destroys and replaces with lists that are not attached, and names lists that exist.
  A rule goes to a list by its pointer, attached or not, or by its identifier.\<close>

inductive lr_reach ::
  "(UINT \<Rightarrow> nat) \<Rightarrow> (UINT \<Rightarrow> (nap_hash_node \<Rightarrow> UINT) \<Rightarrow> nap_hash_node hash option) \<Rightarrow> 'r list_rule_ctrl \<Rightarrow>
   (UINT \<rightharpoonup> 'r list_rule_list) \<Rightarrow> bool"
  for needbits :: "UINT \<Rightarrow> nat" and create :: "UINT \<Rightarrow> (nap_hash_node \<Rightarrow> UINT) \<Rightarrow> nap_hash_node hash option" where
  Create: "ListRule_Create needbits create ac ah ab heap = Some ctx \<Longrightarrow> lr_reach needbits create ctx Map.empty"
| CreateList: "lr_reach needbits create ctx T \<Longrightarrow> list_mem_ok mem ctx \<Longrightarrow> ListRule_CreateList ctx name mem = (res, ctx') \<Longrightarrow>
    lr_reach needbits create ctx' T"
| DestroyList: "lr_reach needbits create ctx T \<Longrightarrow> unattached ctx l \<Longrightarrow>
    lr_reach needbits create (snd (ListRule_DestroyList ctx (Some l) has_free)) T"
| AttachList: "lr_reach needbits create ctx T \<Longrightarrow> unattached ctx l \<Longrightarrow> head_mem_ok mem ctx \<Longrightarrow>
    ListRule_AttachList ctx l mem al = (lid, ctx') \<Longrightarrow>
    lr_reach needbits create ctx' (if lid = 0 then T else T(lid \<mapsto> (the (lists ctx l))\<lparr>list_id := lid\<rparr>))"
| DetachList: "lr_reach needbits create ctx T \<Longrightarrow> lr_reach needbits create (snd (ListRule_DetachList ctx u)) (T(u := None))"
| AddList: "lr_reach needbits create ctx T \<Longrightarrow> list_mem_ok list_mem ctx \<Longrightarrow> head_mem_ok mem ctx \<Longrightarrow>
    ListRule_AddList ctx name list_mem mem al = (lid, ctx') \<Longrightarrow>
    lr_reach needbits create ctx' (if lid = 0 then T else T(lid \<mapsto> (new_list name)\<lparr>list_id := lid\<rparr>))"
| DelListID: "lr_reach needbits create ctx T \<Longrightarrow> lr_reach needbits create (snd (ListRule_DelListID ctx u has_free)) (T(u := None))"
| DelList: "lr_reach needbits create ctx T \<Longrightarrow> lists ctx l = Some r \<Longrightarrow>
    lr_reach needbits create (snd (ListRule_DelList ctx l has_free)) (T(list_id r := None))"
| ReplaceList: "lr_reach needbits create ctx T \<Longrightarrow> unattached ctx l \<Longrightarrow>
    lr_reach needbits create (snd (snd (ListRule_ReplaceList ctx u has_free l)))
      (case T u of None \<Rightarrow> T
       | Some old \<Rightarrow> T(u \<mapsto> (the (lists ctx l))\<lparr>uiRefCount := uiRefCount old, default_action := default_action old\<rparr>))"
| IncListRef: "lr_reach needbits create ctx T \<Longrightarrow>
    lr_reach needbits create (snd (ListRule_IncListRef ctx u)) (T(u := map_option (\<lambda>r. r\<lparr>uiRefCount := uiRefCount r + 1\<rparr>) (T u)))"
| DecListRef: "lr_reach needbits create ctx T \<Longrightarrow>
    lr_reach needbits create (snd (ListRule_DecListRef ctx u)) (T(u := map_option (\<lambda>r. r\<lparr>uiRefCount := uiRefCount r - 1\<rparr>) (T u)))"
| SetDefaultAction: "lr_reach needbits create ctx T \<Longrightarrow>
    lr_reach needbits create (snd (ListRule_SetDefaultActionByID ctx u a)) (T(u := map_option (\<lambda>r. r\<lparr>default_action := a\<rparr>) (T u)))"
| AddRule2Detached: "lr_reach needbits create ctx T \<Longrightarrow> unattached ctx l \<Longrightarrow>
    lr_reach needbits create (snd (ListRule_AddRule2List ctx l rid rule)) T"
| AddRule2Attached: "lr_reach needbits create ctx T \<Longrightarrow> ListRule_GetListByID ctx u = Some l \<Longrightarrow>
    lr_reach needbits create (snd (ListRule_AddRule2List ctx l rid rule))
      (if rid = 0 then T else T(u := map_option (\<lambda>r. r\<lparr>stRuleList := RuleList_Add (stRuleList r) rid rule\<rparr>) (T u)))"
| AddRule: "lr_reach needbits create ctx T \<Longrightarrow>
    lr_reach needbits create (snd (ListRule_AddRule ctx u rid rule))
      (if rid = 0 then T else T(u := map_option (\<lambda>r. r\<lparr>stRuleList := RuleList_Add (stRuleList r) rid rule\<rparr>) (T u)))"
| DelRule: "lr_reach needbits create ctx T \<Longrightarrow>
    lr_reach needbits create (snd (ListRule_DelRule ctx u rid))
      (T(u := map_option (\<lambda>r. r\<lparr>stRuleList := snd (RuleList_Del (stRuleList r) rid)\<rparr>) (T u)))"
| ResetRuleID: "lr_reach needbits create ctx T \<Longrightarrow>
    lr_reach needbits create (ListRule_ResetRuleID ctx u step)
      (T(u := map_option (\<lambda>r. r\<lparr>stRuleList := RuleList_ResetRuleID (stRuleList r) step\<rparr>) (T u)))"
| IncreaseID: "lr_reach needbits create ctx T \<Longrightarrow>
    lr_reach needbits create (snd (ListRule_IncreaseID ctx u s e step))
      (T(u := map_option (\<lambda>r. r\<lparr>stRuleList := snd (RuleList_IncreaseID (stRuleList r) s e step)\<rparr>) (T u)))"
| MoveRule: "lr_reach needbits create ctx T \<Longrightarrow>
    lr_reach needbits create (snd (ListRule_MoveRule ctx u oid nid))
      (T(u := map_option (\<lambda>r. r\<lparr>stRuleList := snd (RuleList_MoveRule (stRuleList r) oid nid)\<rparr>) (T u)))"
| ResetID: "lr_reach needbits create ctx T \<Longrightarrow>
    lr_reach needbits create (snd (ListRule_ResetID ctx u step))
      (T(u := map_option (\<lambda>r. r\<lparr>stRuleList := snd (RuleList_ResetID (stRuleList r) step)\<rparr>) (T u)))"
| Reset: "lr_reach needbits create ctx T \<Longrightarrow> ListRule_Reset ctx has_free = Some (freed, ctx') \<Longrightarrow>
    lr_reach needbits create ctx' (\<lambda>u. if seen ctx u then None else T u)"

lemmas list_upd_defs = ListRule_IncListRef_def ListRule_DecListRef_def ListRule_SetDefaultActionByID_def ListRule_AddRule_def
  ListRule_AddRule2List_def ListRule_DelRule_def ListRule_ResetRuleID_def ListRule_IncreaseID_def ListRule_MoveRule_def
  ListRule_ResetID_def

context node_pool
begin

lemma upd_goods:
  assumes "lr_good pool ctx T"
  shows "lr_good pool (snd (ListRule_IncListRef ctx u)) (T(u := map_option (\<lambda>r. r\<lparr>uiRefCount := uiRefCount r + 1\<rparr>) (T u)))"
    and "lr_good pool (snd (ListRule_DecListRef ctx u)) (T(u := map_option (\<lambda>r. r\<lparr>uiRefCount := uiRefCount r - 1\<rparr>) (T u)))"
    and "lr_good pool (snd (ListRule_SetDefaultActionByID ctx u a)) (T(u := map_option (\<lambda>r. r\<lparr>default_action := a\<rparr>) (T u)))"
    and "lr_good pool (snd (ListRule_AddRule ctx u rid rule))
      (if rid = 0 then T else T(u := map_option (\<lambda>r. r\<lparr>stRuleList := RuleList_Add (stRuleList r) rid rule\<rparr>) (T u)))"
    and "lr_good pool (snd (ListRule_DelRule ctx u rid)) (T(u := map_option (\<lambda>r. r\<lparr>stRuleList := snd (RuleList_Del (stRuleList r) rid)\<rparr>) (T u)))"
    and "lr_good pool (ListRule_ResetRuleID ctx u step) (T(u := map_option (\<lambda>r. r\<lparr>stRuleList := RuleList_ResetRuleID (stRuleList r) step\<rparr>) (T u)))"
    and "lr_good pool (snd (ListRule_IncreaseID ctx u s e step))
      (T(u := map_option (\<lambda>r. r\<lparr>stRuleList := snd (RuleList_IncreaseID (stRuleList r) s e step)\<rparr>) (T u)))"
    and "lr_good pool (snd (ListRule_MoveRule ctx u oid nid))
      (T(u := map_option (\<lambda>r. r\<lparr>stRuleList := snd (RuleList_MoveRule (stRuleList r) oid nid)\<rparr>) (T u)))"
    and "lr_good pool (snd (ListRule_ResetID ctx u step))
      (T(u := map_option (\<lambda>r. r\<lparr>stRuleList := snd (RuleList_ResetID (stRuleList r) step)\<rparr>) (T u)))"
proof -
  note u = by_id_upd [OF assms, where u = u]
  have push: "snd (case x of None \<Rightarrow> (c, ctx) | Some l \<Rightarrow> (d l, f l)) = (case x of None \<Rightarrow> ctx | Some l \<Rightarrow> f l)" for x :: "'x option" and c and d :: "'x \<Rightarrow> 'y" and f
    by (cases x) simp_all
  show "lr_good pool (snd (ListRule_IncListRef ctx u)) (T(u := map_option (\<lambda>r. r\<lparr>uiRefCount := uiRefCount r + 1\<rparr>) (T u)))"
    unfolding list_upd_defs push by (rule u)
  show "lr_good pool (snd (ListRule_DecListRef ctx u)) (T(u := map_option (\<lambda>r. r\<lparr>uiRefCount := uiRefCount r - 1\<rparr>) (T u)))"
    unfolding list_upd_defs push by (rule u)
  show "lr_good pool (snd (ListRule_SetDefaultActionByID ctx u a)) (T(u := map_option (\<lambda>r. r\<lparr>default_action := a\<rparr>) (T u)))"
    unfolding list_upd_defs push by (rule u)
  show "lr_good pool (snd (ListRule_AddRule ctx u rid rule))
      (if rid = 0 then T else T(u := map_option (\<lambda>r. r\<lparr>stRuleList := RuleList_Add (stRuleList r) rid rule\<rparr>) (T u)))"
  proof (cases "rid = 0")
    case True
    then show ?thesis using assms by (simp add: list_upd_defs split: option.split)
  next
    case False
    show ?thesis unfolding list_upd_defs if_not_P [OF False] push by (rule u)
  qed
  show "lr_good pool (snd (ListRule_DelRule ctx u rid)) (T(u := map_option (\<lambda>r. r\<lparr>stRuleList := snd (RuleList_Del (stRuleList r) rid)\<rparr>) (T u)))"
    unfolding list_upd_defs push by (rule u)
  have same: "(\<lambda>r :: 'a list_rule_list. r\<lparr>stRuleList := RuleList_ResetRuleID (stRuleList r) (if step = 0 then 1 else step)\<rparr>) =
      (\<lambda>r. r\<lparr>stRuleList := RuleList_ResetRuleID (stRuleList r) step\<rparr>)"
    by (simp add: RuleList_ResetRuleID_def fun_eq_iff)
  show "lr_good pool (ListRule_ResetRuleID ctx u step) (T(u := map_option (\<lambda>r. r\<lparr>stRuleList := RuleList_ResetRuleID (stRuleList r) step\<rparr>) (T u)))"
    unfolding list_upd_defs Let_def same by (rule u)
  show "lr_good pool (snd (ListRule_IncreaseID ctx u s e step))
      (T(u := map_option (\<lambda>r. r\<lparr>stRuleList := snd (RuleList_IncreaseID (stRuleList r) s e step)\<rparr>) (T u)))"
    unfolding list_upd_defs push by (rule u)
  show "lr_good pool (snd (ListRule_MoveRule ctx u oid nid))
      (T(u := map_option (\<lambda>r. r\<lparr>stRuleList := snd (RuleList_MoveRule (stRuleList r) oid nid)\<rparr>) (T u)))"
    unfolding list_upd_defs push by (rule u)
  show "lr_good pool (snd (ListRule_ResetID ctx u step))
      (T(u := map_option (\<lambda>r. r\<lparr>stRuleList := snd (RuleList_ResetID (stRuleList r) step)\<rparr>) (T u)))"
    unfolding list_upd_defs push by (rule u)
qed

lemma Reset_good:
  assumes "lr_good pool ctx T"
  shows "\<exists>freed ctx'. ListRule_Reset ctx has_free = Some (freed, ctx') \<and> lr_good pool ctx' (\<lambda>v. if seen ctx v then None else T v) \<and>
    (has_free \<longrightarrow> mset freed + rules_of (\<lambda>v. if seen ctx v then None else T v) = rules_of T)"
proof -
  obtain M where M: "lr_ok pool ctx M" "T = lr_tab ctx M" using assms by (auto simp: lr_good_def)
  show ?thesis
    using reset_ok [OF M(1), of NAP_INVALID_INDEX has_free "[]"] unfolding M(2) ListRule_Reset_def by (auto simp: after_index_def)
qed

end

lemma lr_reach_good:
  assumes nb: "needs needbits" and cr: "creates_table create"
  shows "lr_reach needbits create ctx T \<Longrightarrow> lr_good (lr_pool needbits create) ctx T"
proof (induction rule: lr_reach.induct)
  case (Create ac ah ab heap ctx)
  then show ?case by (rule Create_good [OF nb cr])
next
  case (CreateList ctx T mem name res ctx')
  then show ?case using rule_pool.CreateList_good by blast
next
  case (DestroyList ctx T l has_free)
  then show ?case using rule_pool.other_good [OF DestroyList.IH, of l None] by (simp add: ListRule_DestroyList_def)
next
  case (AttachList ctx T l mem al lid ctx')
  then show ?case using rule_pool.Attach_good [OF AttachList.IH AttachList.hyps(2-4)] by (simp split: if_splits)
next
  case (DetachList ctx T u)
  then show ?case using rule_pool.Detach_good [OF DetachList.IH] by (metis prod.collapse)
next
  case (AddList ctx T list_mem mem name al lid ctx')
  then show ?case using rule_pool.AddList_good [OF AddList.IH AddList.hyps(2-4)] by (simp split: if_splits)
next
  case (DelListID ctx T u has_free)
  then show ?case using rule_pool.DelListID_good by blast
next
  case (DelList ctx T l r has_free)
  show ?case
    using conjunct1 [OF rule_pool.DelListID_good [OF DelList.IH]] unfolding ListRule_DelList_def DelList.hyps(2) option.sel .
next
  case (ReplaceList ctx T l u has_free)
  obtain ret freed ctx' where r: "ListRule_ReplaceList ctx u has_free l = (ret, freed, ctx')" by (metis surj_pair)
  show ?case using rule_pool.Replace_good [OF ReplaceList.IH ReplaceList.hyps(2) r] ReplaceList.IH r
    by (cases "T u") (simp_all del: fun_upd_apply)
next
  case (AddRule2Detached ctx T l rid rule)
  then show ?case
    using rule_pool.other_good [OF AddRule2Detached.IH, of l] by (simp add: ListRule_AddRule2List_def upd_list_def)
next
  case (AddRule2Attached ctx T u l rid rule)
  then show ?case
    using rule_pool.upd_good [OF AddRule2Attached.IH AddRule2Attached.hyps(2)] by (simp add: ListRule_AddRule2List_def)
next
  case (Reset ctx T has_free freed ctx')
  then show ?case using rule_pool.Reset_good [OF Reset.IH, of has_free] by auto
qed (rule rule_pool.upd_goods, assumption)+

lemma run_lists_any: "run_lists (\<lambda>l s. if uiRefCount l > 0 then (False, True) else (True, s)) ls s \<longleftrightarrow> s \<or> (\<exists>l\<in>set ls. uiRefCount l > 0)"
  by (induction ls arbitrary: s) auto

lemma run_lists_fold: "run_lists (\<lambda>l s. (True, f l s)) ls s = fold f ls s"
  by (induction ls arbitrary: s) auto

section \<open>Property\<close>

text \<open>C34: The table of rule lists is a map from identifiers to lists under every sequence of operations, failed allocations and rules
  added to detached lists included: the queries by identifier answer from the map; adding a list enters it under a new
  identifier, or fails without effect when there is no memory for it or its head or the bitmap gives no index, which takes a failed
  allocation or a full pool; the search by name returns the list of that name with the least index; the loops over the lists visit each once in the order of their indices; and a reset returns, frees
  the lists and hands every rule of theirs to the free callback exactly once. The loops see the lists whose indices the
  bitmap's search sees (\<open>seen\<close>). The client gives memory that is not in use, and attaches, destroys and replaces with
  lists that are not attached.\<close>

theorem ListRule_is_table:
  assumes "needs needbits" "creates_table create" "lr_reach needbits create ctx T"
  shows "(\<forall>u. Option.bind (ListRule_GetListByID ctx u) (lists ctx) = T u \<and>
      ListRule_GetListRef ctx u = (case T u of None \<Rightarrow> 0 | Some r \<Rightarrow> uiRefCount r) \<and>
      ListRule_GetDefaultActionByID ctx u = (case T u of None \<Rightarrow> BS_ACTION_UNDEF | Some r \<Rightarrow> default_action r) \<and>
      ListRule_GetListNameByID ctx u = map_option list_name (T u) \<and>
      (\<forall>rid. ListRule_GetRule ctx u rid = (case T u of None \<Rightarrow> None | Some r \<Rightarrow> RuleList_GetRule (stRuleList r) rid) \<and>
         ListRule_GetNextRule ctx u rid = (case T u of None \<Rightarrow> None | Some r \<Rightarrow> RuleList_GetNextByID (stRuleList r) rid))) \<and>
    (list_mem_ok list_mem ctx \<and> head_mem_ok mem ctx \<longrightarrow>
      (case ListRule_AddList ctx name list_mem mem al of
         (lid, ctx') \<Rightarrow>
           if lid = 0
           then (list_mem = None \<or> mem = None \<or> no_index (hListNap ctx) al) \<and>
             (\<forall>u. Option.bind (ListRule_GetListByID ctx' u) (lists ctx') = T u)
           else T lid = None \<and>
             (\<forall>u. Option.bind (ListRule_GetListByID ctx' u) (lists ctx') = (T(lid \<mapsto> (new_list name)\<lparr>list_id := lid\<rparr>)) u))) \<and>
    (card (dom T) < 0x7fffffff \<and> False \<notin> set al \<longrightarrow> \<not> no_index (hListNap ctx) al) \<and>
    (\<exists>lid. ListRule_GetListIDByName ctx name = Some lid \<and>
      (if lid = 0 then \<forall>u r. T u = Some r \<longrightarrow> list_name r = name \<longrightarrow> \<not> seen ctx u
       else \<exists>r. T lid = Some r \<and> list_name r = name \<and> seen ctx lid \<and>
         (\<forall>u q. T u = Some q \<longrightarrow> list_name q = name \<longrightarrow> seen ctx u \<longrightarrow>
            NAP_GetIndexByID (hListNap ctx) lid \<le> NAP_GetIndexByID (hListNap ctx) u))) \<and>
    (\<exists>us. index_order ctx us \<and> set us = {u\<in>dom T. seen ctx u} \<and>
      ListRule_IsAnyListRefed ctx = Some (\<exists>u\<in>set us. uiRefCount (the (T u)) > 0) \<and>
      ListRule_WalkList ctx f s = Some (fold f (map (\<lambda>u. the (T u)) us) s)) \<and>
    (\<exists>freed ctx'. ListRule_Reset ctx has_free = Some (freed, ctx') \<and>
      (\<forall>u. Option.bind (ListRule_GetListByID ctx' u) (lists ctx') = (if seen ctx u then None else T u)) \<and>
      (has_free \<longrightarrow> mset freed + rules_of (\<lambda>u. if seen ctx u then None else T u) = rules_of T))"
proof (intro conjI allI impI)
  have good: "lr_good (lr_pool needbits create) ctx T" by (rule lr_reach_good [OF assms])
  note q = rule_pool.by_id [OF good]
  show "Option.bind (ListRule_GetListByID ctx u) (lists ctx) = T u" for u by (rule rule_pool.bind_id [OF good])
  show "ListRule_GetListRef ctx u = (case T u of None \<Rightarrow> 0 | Some r \<Rightarrow> uiRefCount r)" for u
    unfolding ListRule_GetListRef_def by (rule q)
  show "ListRule_GetDefaultActionByID ctx u = (case T u of None \<Rightarrow> BS_ACTION_UNDEF | Some r \<Rightarrow> default_action r)" for u
    unfolding ListRule_GetDefaultActionByID_def by (rule q)
  show "ListRule_GetListNameByID ctx u = map_option list_name (T u)" for u
    unfolding ListRule_GetListNameByID_def map_option_case by (rule q)
  show "ListRule_GetRule ctx u rid = (case T u of None \<Rightarrow> None | Some r \<Rightarrow> RuleList_GetRule (stRuleList r) rid)" for u rid
    unfolding ListRule_GetRule_def by (rule q)
  show "ListRule_GetNextRule ctx u rid = (case T u of None \<Rightarrow> None | Some r \<Rightarrow> RuleList_GetNextByID (stRuleList r) rid)" for u rid
    unfolding ListRule_GetNextRule_def by (rule q)
  show "case ListRule_AddList ctx name list_mem mem al of
      (lid, ctx') \<Rightarrow>
        if lid = 0
        then (list_mem = None \<or> mem = None \<or> no_index (hListNap ctx) al) \<and>
          (\<forall>u. Option.bind (ListRule_GetListByID ctx' u) (lists ctx') = T u)
        else T lid = None \<and>
          (\<forall>u. Option.bind (ListRule_GetListByID ctx' u) (lists ctx') = (T(lid \<mapsto> (new_list name)\<lparr>list_id := lid\<rparr>)) u)"
    if m: "list_mem_ok list_mem ctx \<and> head_mem_ok mem ctx"
  proof -
    obtain lid ctx' where r: "ListRule_AddList ctx name list_mem mem al = (lid, ctx')" by (metis surj_pair)
    note a = rule_pool.AddList_good [OF good conjunct1 [OF m] conjunct2 [OF m] r]
    show ?thesis
    proof (cases "lid = 0")
      case True
      then have g: "lr_good (lr_pool needbits create) ctx' T" using a by simp
      show ?thesis using a r True rule_pool.bind_id [OF g] by simp
    next
      case False
      then have g: "lr_good (lr_pool needbits create) ctx' (T(lid \<mapsto> (new_list name)\<lparr>list_id := lid\<rparr>))" using a by simp
      show ?thesis using a r False rule_pool.bind_id [OF g] by (simp del: fun_upd_apply)
    qed
  qed
  obtain M where M: "lr_ok (lr_pool needbits create) ctx M" "T = lr_tab ctx M" using good by (auto simp: lr_good_def)
  show "\<not> no_index (hListNap ctx) al" if "card (dom T) < 0x7fffffff \<and> False \<notin> set al"
    using rule_pool.index [OF lr_okD(1) [OF M(1)]] that lr_dom [OF M(1)] M(2) by simp
  have after: "after_index ctx NAP_INVALID_INDEX u = True" for u by (simp add: after_index_def)
  obtain head where head: "name_loop ctx name NAP_INVALID_INDEX = Some head"
    "case head of
       None \<Rightarrow> \<forall>u r. T u = Some r \<longrightarrow> list_name r = name \<longrightarrow> \<not> seen ctx u
     | Some n \<Rightarrow> \<exists>u r. M u = Some n \<and> T u = Some r \<and> list_name r = name \<and> seen ctx u \<and>
         (\<forall>v q. T v = Some q \<longrightarrow> list_name q = name \<longrightarrow> seen ctx v \<longrightarrow>
            NAP_GetIndexByID (hListNap ctx) u \<le> NAP_GetIndexByID (hListNap ctx) v)"
    using rule_pool.name_ok [OF M(1), of name NAP_INVALID_INDEX]
    unfolding M(2) [symmetric] after simp_thms by (elim exE conjE)
  show "\<exists>lid. ListRule_GetListIDByName ctx name = Some lid \<and>
      (if lid = 0 then \<forall>u r. T u = Some r \<longrightarrow> list_name r = name \<longrightarrow> \<not> seen ctx u
       else \<exists>r. T lid = Some r \<and> list_name r = name \<and> seen ctx lid \<and>
         (\<forall>u q. T u = Some q \<longrightarrow> list_name q = name \<longrightarrow> seen ctx u \<longrightarrow>
            NAP_GetIndexByID (hListNap ctx) lid \<le> NAP_GetIndexByID (hListNap ctx) u))"
  proof (cases head)
    case None
    then show ?thesis
      using head by (intro exI [of _ 0]) (simp add: ListRule_GetListIDByName_def listrule_GetListHeadByName_def)
  next
    case (Some n)
    then obtain u r where u: "M u = Some n" "T u = Some r \<and> list_name r = name \<and> seen ctx u \<and>
         (\<forall>v q. T v = Some q \<longrightarrow> list_name q = name \<longrightarrow> seen ctx v \<longrightarrow>
            NAP_GetIndexByID (hListNap ctx) u \<le> NAP_GetIndexByID (hListNap ctx) v)" using head(2) by auto
    note i = rule_pool.ident [OF lr_okD(1) [OF M(1)] u(1)]
    have "ListRule_GetListIDByName ctx name = Some u"
      using head(1) Some i by (simp add: ListRule_GetListIDByName_def listrule_GetListHeadByName_def)
    then show ?thesis using i u(2) by auto
  qed
  obtain us where us: "index_order ctx us" "set us = {u\<in>dom M. seen ctx u \<and> after_index ctx NAP_INVALID_INDEX u}"
    "\<And>s. list_loop ctx (\<lambda>l s. (True, f l s)) None s = Some (run_lists (\<lambda>l s. (True, f l s)) (map (\<lambda>u. the (T u)) us) s)"
    using rule_pool.list_loop_ok [OF M(1), of None NAP_INVALID_INDEX] unfolding M(2) by blast
  obtain vs where vs: "set vs = {u\<in>dom M. seen ctx u \<and> after_index ctx NAP_INVALID_INDEX u}"
    "ListRule_IsAnyListRefed ctx = Some (\<exists>u\<in>set vs. uiRefCount (the (T u)) > 0)"
    using rule_pool.list_loop_ok [OF M(1), of None NAP_INVALID_INDEX "\<lambda>l s. if uiRefCount l > 0 then (False, True) else (True, s)"]
    unfolding M(2) ListRule_IsAnyListRefed_def run_lists_any by auto
  have "set us = {u\<in>dom T. seen ctx u}" using us(2) after lr_dom [OF M(1)] M(2) by simp
  then show "\<exists>us. index_order ctx us \<and> set us = {u\<in>dom T. seen ctx u} \<and>
      ListRule_IsAnyListRefed ctx = Some (\<exists>u\<in>set us. uiRefCount (the (T u)) > 0) \<and>
      ListRule_WalkList ctx f s = Some (fold f (map (\<lambda>u. the (T u)) us) s)"
    using us vs unfolding ListRule_WalkList_def run_lists_fold by (intro exI [of _ us]) simp
  obtain freed ctx' where r: "ListRule_Reset ctx has_free = Some (freed, ctx')"
    "lr_good (lr_pool needbits create) ctx' (\<lambda>v. if seen ctx v then None else T v)"
    "has_free \<longrightarrow> mset freed + rules_of (\<lambda>v. if seen ctx v then None else T v) = rules_of T"
    using rule_pool.Reset_good [OF good] by blast
  then show "\<exists>freed ctx'. ListRule_Reset ctx has_free = Some (freed, ctx') \<and>
      (\<forall>u. Option.bind (ListRule_GetListByID ctx' u) (lists ctx') = (if seen ctx u then None else T u)) \<and>
      (has_free \<longrightarrow> mset freed + rules_of (\<lambda>u. if seen ctx u then None else T u) = rules_of T)"
    using rule_pool.bind_id [OF r(2)] by blast
qed

text \<open>A table with one list, named \<open>acl\<close>: its name leads to its identifier, and a reset gives the identifier up.\<close>

definition listrule_example :: "'r list_rule_ctrl" where
  "listrule_example = the (ListRule_Create (\<lambda>_. 31) (\<lambda>_ _. Some nap_example_table) True True True Map.empty)"

lemma listrule_example_facts:
  "ListRule_Create (\<lambda>_. 31) (\<lambda>_ _. Some nap_example_table) True True True Map.empty = Some listrule_example"
  "lr_reach (\<lambda>_. 31) (\<lambda>_ _. Some nap_example_table) listrule_example Map.empty"
  "lists listrule_example = Map.empty" "NAP_GetNodeByID (hListNap listrule_example) u = None"
proof -
  have cr: "creates_table (\<lambda>_ _. Some nap_example_table)" using nap_example_facts(2) by (simp add: creates_table_def)
  obtain h where h: "NAP_Create (\<lambda>_. 31) 0 True (NAP_HashCreate (\<lambda>_ _. Some nap_example_table) True) = Some h"
    by (simp add: NAP_Create_def NAP_HashCreate_def nap_CommonInit_def LBitMap_Create_def Let_def)
  have c: "ListRule_Create (\<lambda>_. 31) (\<lambda>_ _. Some nap_example_table) True True True Map.empty = Some listrule_example"
    and e: "listrule_example = \<lparr>hListNap = h, pstListRule = (\<lambda>_. None), lists = Map.empty\<rparr>"
    by (simp_all add: listrule_example_def ListRule_Create_def ListRule_Init_def h del: fun_upd_apply)
  show "ListRule_Create (\<lambda>_. 31) (\<lambda>_ _. Some nap_example_table) True True True Map.empty = Some listrule_example" by (rule c)
  show "lr_reach (\<lambda>_. 31) (\<lambda>_ _. Some nap_example_table) listrule_example Map.empty" by (rule lr_reach.Create [OF c])
  show "lists listrule_example = Map.empty" by (simp add: e)
  show "NAP_GetNodeByID (hListNap listrule_example) u = None"
    using nap_correctD(1) [OF hash_pool(1) [OF nap_example_facts(1) cr] nap_reach.Create [OF h]] by (simp add: e)
qed

theorem ListRule_is_table_witness:
  "case ListRule_AddList (listrule_example :: unit list_rule_ctrl) ''acl'' (Some 5) (Some 7) [] of
     (lid, ctx) \<Rightarrow> lid \<noteq> 0 \<and> ListRule_GetListNameByID ctx lid = Some ''acl'' \<and> (\<exists>freed ctx'. ListRule_Reset ctx True = Some (freed, ctx'))"
proof -
  have cr: "creates_table (\<lambda>_ _. Some nap_example_table)" using nap_example_facts(2) by (simp add: creates_table_def)
  note t = ListRule_is_table [OF nap_example_facts(1) cr]
  have r0: "lr_reach (\<lambda>_. 31) (\<lambda>_ _. Some nap_example_table) (listrule_example :: unit list_rule_ctrl) Map.empty"
    by (rule listrule_example_facts(2))
  obtain lid ctx where a: "ListRule_AddList (listrule_example :: unit list_rule_ctrl) ''acl'' (Some 5) (Some 7) [] = (lid, ctx)" by (metis surj_pair)
  have m: "list_mem_ok (Some 5) (listrule_example :: unit list_rule_ctrl)" "head_mem_ok (Some 7) (listrule_example :: unit list_rule_ctrl)"
    by (simp_all add: list_mem_ok_def head_mem_ok_def listrule_example_facts)
  have lid: "lid \<noteq> 0"
    using conjunct1 [OF conjunct2 [OF t [OF r0, of "Some 5" "Some 7" "[]" "''acl''"]]]
      conjunct1 [OF conjunct2 [OF conjunct2 [OF t [OF r0, of _ _ "[]"]]]] m a by (simp split: if_splits)
  have r1: "lr_reach (\<lambda>_. 31) (\<lambda>_ _. Some nap_example_table) ctx [lid \<mapsto> (new_list ''acl'')\<lparr>list_id := lid\<rparr>]"
    using lr_reach.AddList [OF r0 m a] lid by simp
  have "ListRule_GetListNameByID ctx lid = Some ''acl''"
    using conjunct1 [OF t [OF r1], rule_format, of lid] by (simp add: new_list_def LIST_RULE_LIST_NAME_SIZE_def)
  moreover have "\<exists>freed ctx'. ListRule_Reset ctx True = Some (freed, ctx')"
    using conjunct2 [OF conjunct2 [OF conjunct2 [OF conjunct2 [OF conjunct2 [OF t [OF r1]]]]]] by blast
  ultimately show ?thesis using lid by (simp add: a)
qed

end
