(* ===== verification/QSort.thy ===== *)
theory QSort
  imports Dll
begin

text \<open>
  Sorting and searching of arrays: \<^verbatim>\<open>array/qsort_utl.c\<close> (a quicksort with its own stack, median of three and
  a selection sort for short pieces) and \<^verbatim>\<open>array/bsearch_utl.c\<close>. A pointer into the array is its position, an \<open>int\<close>,
  because the loops step below and above the array. An access outside the array, a push on a full stack and a loop that does not
  return are \<open>None\<close>.
\<close>

section \<open>The array\<close>

definition inb :: "'a list \<Rightarrow> int \<Rightarrow> bool" where
  "inb xs i \<longleftrightarrow> 0 \<le> i \<and> i < int (length xs)"

definition cmp_at :: "('a \<Rightarrow> 'a \<Rightarrow> int) \<Rightarrow> 'a list \<Rightarrow> int \<Rightarrow> int \<Rightarrow> int option" where
  "cmp_at cmp xs i j = (if inb xs i \<and> inb xs j then Some (cmp (xs ! nat i) (xs ! nat j)) else None)"

definition MEM_Swap :: "'a list \<Rightarrow> int \<Rightarrow> int \<Rightarrow> 'a list option" where
  "MEM_Swap xs i j = (if inb xs i \<and> inb xs j then Some (xs[nat i := xs ! nat j, nat j := xs ! nat i]) else None)"

section \<open>Short pieces\<close>

function max_loop :: "('a \<Rightarrow> 'a \<Rightarrow> int) \<Rightarrow> 'a list \<Rightarrow> int \<Rightarrow> int \<Rightarrow> int \<Rightarrow> int option" where
  "max_loop cmp xs hi p mx =
     (if p \<le> hi then
        (case cmp_at cmp xs p mx of
           None \<Rightarrow> None
         | Some c \<Rightarrow> max_loop cmp xs hi (p + 1) (if c > 0 then p else mx))
      else Some mx)"
  by pat_completeness auto
termination by (relation "measure (\<lambda>(cmp, xs, hi, p, mx). nat (hi - p + 1))") auto

function qsort_shortsort :: "('a \<Rightarrow> 'a \<Rightarrow> int) \<Rightarrow> int \<Rightarrow> int \<Rightarrow> 'a list \<Rightarrow> 'a list option" where
  "qsort_shortsort cmp lo hi xs =
     (if hi > lo then
        (case max_loop cmp xs hi (lo + 1) lo of
           None \<Rightarrow> None
         | Some mx \<Rightarrow>
             (case MEM_Swap xs mx hi of
                None \<Rightarrow> None
              | Some xs \<Rightarrow> qsort_shortsort cmp lo (hi - 1) xs))
      else Some xs)"
  by pat_completeness auto
termination by (relation "measure (\<lambda>(cmp, lo, hi, xs). nat (hi - lo))") auto

declare max_loop.simps [simp del] qsort_shortsort.simps [simp del]

section \<open>Partition\<close>

text \<open>The \<^verbatim>\<open>do\<close> loops of the partition: step by \<open>d\<close> while the position is within the limit and the test holds.\<close>

partial_function (option) do_scan :: "int \<Rightarrow> (int \<Rightarrow> bool) \<Rightarrow> (int \<Rightarrow> bool option) \<Rightarrow> int \<Rightarrow> int option" where
  "do_scan d within test i =
     (if within (i + d) then
        (case test (i + d) of
           None \<Rightarrow> None
         | Some go \<Rightarrow> if go then do_scan d within test (i + d) else Some (i + d))
      else Some (i + d))"

definition swap_if :: "('a \<Rightarrow> 'a \<Rightarrow> int) \<Rightarrow> int \<Rightarrow> int \<Rightarrow> 'a list \<Rightarrow> 'a list option" where
  "swap_if cmp i j xs =
     (case cmp_at cmp xs i j of None \<Rightarrow> None | Some c \<Rightarrow> if c > 0 then MEM_Swap xs i j else Some xs)"

definition median3 :: "('a \<Rightarrow> 'a \<Rightarrow> int) \<Rightarrow> int \<Rightarrow> int \<Rightarrow> int \<Rightarrow> 'a list \<Rightarrow> 'a list option" where
  "median3 cmp lo mid hi xs =
     Option.bind (swap_if cmp lo mid xs) (\<lambda>xs. Option.bind (swap_if cmp lo hi xs) (swap_if cmp mid hi))"

definition test_at :: "('a \<Rightarrow> 'a \<Rightarrow> int) \<Rightarrow> (int \<Rightarrow> bool) \<Rightarrow> 'a list \<Rightarrow> int \<Rightarrow> int \<Rightarrow> bool option" where
  "test_at cmp P xs mid i = map_option P (cmp_at cmp xs i mid)"

definition up_scan :: "('a \<Rightarrow> 'a \<Rightarrow> int) \<Rightarrow> int \<Rightarrow> 'a list \<Rightarrow> int \<Rightarrow> int \<Rightarrow> int option" where
  "up_scan cmp hi xs mid loguy =
     Option.bind
       (if mid > loguy then do_scan 1 (\<lambda>i. i < mid) (test_at cmp (\<lambda>c. c \<le> 0) xs mid) loguy else Some loguy)
       (\<lambda>loguy.
          if mid \<le> loguy then do_scan 1 (\<lambda>i. i \<le> hi) (test_at cmp (\<lambda>c. c \<le> 0) xs mid) loguy else Some loguy)"

partial_function (option) part_loop ::
  "('a \<Rightarrow> 'a \<Rightarrow> int) \<Rightarrow> int \<Rightarrow> 'a list \<Rightarrow> int \<Rightarrow> int \<Rightarrow> int \<Rightarrow> ('a list \<times> int \<times> int \<times> int) option" where
  "part_loop cmp hi xs mid loguy higuy =
     (case up_scan cmp hi xs mid loguy of
        None \<Rightarrow> None
      | Some loguy \<Rightarrow>
          (case do_scan (- 1) (\<lambda>i. i > mid) (test_at cmp (\<lambda>c. c > 0) xs mid) higuy of
             None \<Rightarrow> None
           | Some higuy \<Rightarrow>
               if higuy < loguy then Some (xs, mid, loguy, higuy)
               else (case MEM_Swap xs loguy higuy of
                       None \<Rightarrow> None
                     | Some xs \<Rightarrow> part_loop cmp hi xs (if mid = higuy then loguy else mid) loguy higuy)))"

text \<open>Elements equal to the pivot next to the border.\<close>

definition eq_scan :: "('a \<Rightarrow> 'a \<Rightarrow> int) \<Rightarrow> int \<Rightarrow> 'a list \<Rightarrow> int \<Rightarrow> int \<Rightarrow> int option" where
  "eq_scan cmp lo xs mid higuy =
     Option.bind
       (if mid < higuy + 1 then do_scan (- 1) (\<lambda>i. i > mid) (test_at cmp (\<lambda>c. c = 0) xs mid) (higuy + 1) else Some (higuy + 1))
       (\<lambda>higuy.
          if mid \<ge> higuy then do_scan (- 1) (\<lambda>i. i > lo) (test_at cmp (\<lambda>c. c = 0) xs mid) higuy else Some higuy)"

text \<open>One partition of the piece from \<open>lo\<close> to \<open>hi\<close>: the array, the end of the lower part and the start of the upper one.\<close>

definition qsort_split :: "('a \<Rightarrow> 'a \<Rightarrow> int) \<Rightarrow> int \<Rightarrow> int \<Rightarrow> int \<Rightarrow> 'a list \<Rightarrow> ('a list \<times> int \<times> int) option" where
  "qsort_split cmp sz lo hi xs =
     (let mid = lo + sz div 2
      in Option.bind (median3 cmp lo mid hi xs) (\<lambda>xs.
         Option.bind (part_loop cmp hi xs mid lo hi) (\<lambda>(xs, mid, loguy, higuy).
         Option.bind (eq_scan cmp lo xs mid higuy) (\<lambda>higuy. Some (xs, higuy, loguy)))))"

section \<open>The sort\<close>

definition CUTOFF :: int where
  "CUTOFF = 8"

text \<open>\<^verbatim>\<open>8*sizeof(void*) - 2\<close> with pointers of eight bytes.\<close>

definition STKSIZ :: nat where
  "STKSIZ = 62"

definition qsort_push :: "int \<times> int \<Rightarrow> (int \<times> int) list \<Rightarrow> (int \<times> int) list option" where
  "qsort_push p stk = (if length stk < STKSIZ then Some (p # stk) else None)"

text \<open>What happens to one piece: sorted at once, or split, with the larger part pushed and the smaller one next.\<close>

definition qsort_piece ::
  "('a \<Rightarrow> 'a \<Rightarrow> int) \<Rightarrow> int \<Rightarrow> 'a list \<Rightarrow> int \<Rightarrow> int \<Rightarrow> (int \<times> int) list \<Rightarrow>
   ('a list \<times> (int \<times> int) option \<times> (int \<times> int) list) option" where
  "qsort_piece cmp width xs lo hi stk =
     (let sz = ((hi - lo) * width) mod 2 ^ 32 div width + 1
      in if sz \<le> CUTOFF then Option.bind (qsort_shortsort cmp lo hi xs) (\<lambda>xs. Some (xs, None, stk))
         else Option.bind (qsort_split cmp sz lo hi xs) (\<lambda>(xs, higuy, loguy).
           if higuy - lo \<ge> hi - loguy then
             Option.bind (if lo < higuy then qsort_push (lo, higuy) stk else Some stk) (\<lambda>stk.
               Some (xs, if loguy < hi then Some (loguy, hi) else None, stk))
           else
             Option.bind (if loguy < hi then qsort_push (loguy, hi) stk else Some stk) (\<lambda>stk.
               Some (xs, if lo < higuy then Some (lo, higuy) else None, stk))))"

partial_function (option) qsort_loop ::
  "('a \<Rightarrow> 'a \<Rightarrow> int) \<Rightarrow> int \<Rightarrow> 'a list \<Rightarrow> int \<Rightarrow> int \<Rightarrow> (int \<times> int) list \<Rightarrow> 'a list option" where
  "qsort_loop cmp width xs lo hi stk =
     (case qsort_piece cmp width xs lo hi stk of
        None \<Rightarrow> None
      | Some (xs, piece, stk) \<Rightarrow>
          (case piece of
             Some (lo, hi) \<Rightarrow> qsort_loop cmp width xs lo hi stk
           | None \<Rightarrow>
               (case stk of
                  [] \<Rightarrow> Some xs
                | (lo, hi) # stk \<Rightarrow> qsort_loop cmp width xs lo hi stk)))"

definition QSORT_Do :: "('a \<Rightarrow> 'a \<Rightarrow> int) \<Rightarrow> 'a list \<Rightarrow> int \<Rightarrow> int \<Rightarrow> 'a list option" where
  "QSORT_Do cmp xs num width =
     (if num < 2 \<or> width = 0 then Some xs else qsort_loop cmp width xs 0 (num - 1) [])"

section \<open>Binary search\<close>

function bsearch_loop :: "('a \<Rightarrow> 'a \<Rightarrow> int) \<Rightarrow> 'a list \<Rightarrow> 'a \<Rightarrow> int \<Rightarrow> int \<Rightarrow> int option" where
  "bsearch_loop cmp xs key low high =
     (if low \<le> high then
        (let mid = low + (high - low) div 2;
             pmid = xs ! nat mid
         in if cmp key pmid < 0 then bsearch_loop cmp xs key (mid + 1) high
            else if cmp key pmid > 0 then bsearch_loop cmp xs key low (mid - 1)
            else Some mid)
      else None)"
  by pat_completeness auto
termination by (relation "measure (\<lambda>(cmp, xs, key, low, high). nat (high - low + 1))") (auto simp: Let_def)

declare bsearch_loop.simps [simp del]

definition BSEARCH_Do :: "('a \<Rightarrow> 'a \<Rightarrow> int) \<Rightarrow> 'a list \<Rightarrow> int \<Rightarrow> 'a \<Rightarrow> int option" where
  "BSEARCH_Do cmp xs items_num key = bsearch_loop cmp xs key 0 (items_num - 1)"

section \<open>Swaps and permutations of a piece\<close>

abbreviation el :: "'a list \<Rightarrow> int \<Rightarrow> 'a" where
  "el xs i \<equiv> xs ! nat i"

definition seg_perm :: "int \<Rightarrow> int \<Rightarrow> 'a list \<Rightarrow> 'a list \<Rightarrow> bool" where
  "seg_perm lo hi xs ys \<longleftrightarrow> length ys = length xs \<and> mset ys = mset xs \<and>
     (\<forall>k\<ge>0. (k < lo \<or> hi < k) \<longrightarrow> el ys k = el xs k) \<and>
     (\<forall>k. lo \<le> k \<longrightarrow> k \<le> hi \<longrightarrow> (\<exists>j. lo \<le> j \<and> j \<le> hi \<and> el ys k = el xs j))"

lemma seg_perm_refl [simp]: "seg_perm lo hi xs xs"
  by (auto simp: seg_perm_def)

lemma seg_perm_trans: "seg_perm lo hi xs ys \<Longrightarrow> seg_perm lo hi ys zs \<Longrightarrow> seg_perm lo hi xs zs"
  unfolding seg_perm_def by (metis (no_types, lifting))

lemma seg_permD:
  assumes "seg_perm lo hi xs ys"
  shows "length ys = length xs" "mset ys = mset xs"
    "0 \<le> k \<Longrightarrow> k < lo \<or> hi < k \<Longrightarrow> el ys k = el xs k"
    "lo \<le> k \<Longrightarrow> k \<le> hi \<Longrightarrow> \<exists>j. lo \<le> j \<and> j \<le> hi \<and> el ys k = el xs j"
  using assms by (auto simp: seg_perm_def)

lemma seg_perm_widen:
  assumes "seg_perm a b xs ys" "lo \<le> a" "b \<le> hi" "0 \<le> lo"
  shows "seg_perm lo hi xs ys"
  unfolding seg_perm_def
proof (intro conjI allI impI)
  fix k assume k: "lo \<le> k" "k \<le> hi"
  show "\<exists>j. lo \<le> j \<and> j \<le> hi \<and> el ys k = el xs j"
  proof (cases "a \<le> k \<and> k \<le> b")
    case True
    then show ?thesis using seg_permD(4) [OF assms(1), of k] assms(2,3) by (meson order_trans)
  next
    case False
    then show ?thesis using seg_permD(3) [OF assms(1), of k] assms(2-4) k by (intro exI [of _ k]) auto
  qed
qed (use assms in \<open>auto simp: seg_perm_def\<close>)

lemma MEM_Swap_ok:
  assumes "0 \<le> i" "i < int (length xs)" "0 \<le> j" "j < int (length xs)"
  obtains ys where "MEM_Swap xs i j = Some ys" "\<And>lo hi. lo \<le> i \<Longrightarrow> i \<le> hi \<Longrightarrow> lo \<le> j \<Longrightarrow> j \<le> hi \<Longrightarrow> 0 \<le> lo \<Longrightarrow> seg_perm lo hi xs ys"
    "\<And>k. 0 \<le> k \<Longrightarrow> el ys k = (if k = i then el xs j else if k = j then el xs i else el xs k)" "length ys = length xs"
proof -
  define ys where "ys = xs[nat i := xs ! nat j, nat j := xs ! nat i]"
  have s: "MEM_Swap xs i j = Some ys" using assms by (simp add: MEM_Swap_def inb_def ys_def)
  have e: "el ys k = (if k = i then el xs j else if k = j then el xs i else el xs k)" if "0 \<le> k" for k
    using assms that by (auto simp: ys_def nth_list_update eq_nat_nat_iff nat_less_iff)
  have m: "mset ys = mset xs" using assms unfolding ys_def by (intro mset_swap) (simp_all add: nat_less_iff)
  have p: "seg_perm lo hi xs ys" if "lo \<le> i" "i \<le> hi" "lo \<le> j" "j \<le> hi" "0 \<le> lo" for lo hi
    unfolding seg_perm_def using m e that by (auto simp: ys_def)
  show ?thesis by (rule that [OF s p e]) (simp_all add: ys_def)
qed

lemma cmp_at_ok: "0 \<le> i \<Longrightarrow> i < int (length xs) \<Longrightarrow> 0 \<le> j \<Longrightarrow> j < int (length xs) \<Longrightarrow> cmp_at cmp xs i j = Some (cmp (el xs i) (el xs j))"
  by (simp add: cmp_at_def inb_def)

section \<open>Short pieces are sorted\<close>

definition seg_sorted :: "('a \<Rightarrow> 'a \<Rightarrow> int) \<Rightarrow> int \<Rightarrow> int \<Rightarrow> 'a list \<Rightarrow> bool" where
  "seg_sorted cmp lo hi xs \<longleftrightarrow> (\<forall>i j. lo \<le> i \<longrightarrow> i < j \<longrightarrow> j \<le> hi \<longrightarrow> cmp (el xs i) (el xs j) \<le> 0)"

lemma max_loop_ok:
  assumes "cmp_order cmp" "0 \<le> lo" "lo \<le> mx" "mx < p" "p \<le> hi + 1" "hi < int (length xs)"
    "\<forall>k. lo \<le> k \<longrightarrow> k < p \<longrightarrow> cmp (el xs k) (el xs mx) \<le> 0"
  shows "\<exists>m. max_loop cmp xs hi p mx = Some m \<and> lo \<le> m \<and> m \<le> hi \<and> (\<forall>k. lo \<le> k \<longrightarrow> k \<le> hi \<longrightarrow> cmp (el xs k) (el xs m) \<le> 0)"
  using assms
proof (induction cmp xs hi p mx rule: max_loop.induct)
  case (1 cmp xs hi p mx)
  show ?case
  proof (cases "p \<le> hi")
    case False
    then show ?thesis using "1.prems" by (subst max_loop.simps) auto
  next
    case True
    define c where "c = cmp (el xs p) (el xs mx)"
    have c: "cmp_at cmp xs p mx = Some c" using "1.prems" True unfolding c_def by (intro cmp_at_ok) auto
    define mx' where "mx' = (if c > 0 then p else mx)"
    have "cmp (el xs k) (el xs mx') \<le> 0" if k: "lo \<le> k" "k < p + 1" for k
    proof (cases "k = p")
      case True
      then show ?thesis using cmp_refl [OF "1.prems"(1)] by (auto simp: mx'_def c_def)
    next
      case False
      then have le: "cmp (el xs k) (el xs mx) \<le> 0" using "1.prems"(7) k by simp
      have "cmp (el xs mx) (el xs mx') \<le> 0"
        using cmp_refl [OF "1.prems"(1)] cmp_flip [OF "1.prems"(1), of "el xs p" "el xs mx"] by (simp add: mx'_def c_def)
      then show ?thesis using le cmp_trans [OF "1.prems"(1)] by blast
    qed
    then have "\<exists>m. max_loop cmp xs hi (p + 1) mx' = Some m \<and> lo \<le> m \<and> m \<le> hi \<and>
        (\<forall>k. lo \<le> k \<longrightarrow> k \<le> hi \<longrightarrow> cmp (el xs k) (el xs m) \<le> 0)"
      unfolding mx'_def by (intro "1.IH" [OF True c]) (use "1.prems" True in auto)
    then show ?thesis using True c by (subst max_loop.simps) (simp add: mx'_def)
  qed
qed

lemma qsort_shortsort_ok:
  assumes "cmp_order cmp" "0 \<le> lo" "hi < int (length xs)"
  shows "\<exists>ys. qsort_shortsort cmp lo hi xs = Some ys \<and> seg_perm lo hi xs ys \<and> seg_sorted cmp lo hi ys"
  using assms
proof (induction cmp lo hi xs rule: qsort_shortsort.induct)
  case (1 cmp lo hi xs)
  show ?case
  proof (cases "hi > lo")
    case False
    then show ?thesis by (subst qsort_shortsort.simps) (auto simp: seg_sorted_def)
  next
    case True
    obtain m where m: "max_loop cmp xs hi (lo + 1) lo = Some m" "lo \<le> m" "m \<le> hi"
      "\<forall>k. lo \<le> k \<longrightarrow> k \<le> hi \<longrightarrow> cmp (el xs k) (el xs m) \<le> 0"
      using max_loop_ok [OF "1.prems"(1,2), of lo "lo + 1" hi xs] "1.prems" True cmp_refl [OF "1.prems"(1)] by auto
    obtain zs where zs: "MEM_Swap xs m hi = Some zs" "seg_perm lo hi xs zs"
      "\<And>k. 0 \<le> k \<Longrightarrow> el zs k = (if k = m then el xs hi else if k = hi then el xs m else el xs k)" "length zs = length xs"
      by (rule MEM_Swap_ok [of m xs hi]) (use m "1.prems" True in auto)
    obtain ys where ys: "qsort_shortsort cmp lo (hi - 1) zs = Some ys" "seg_perm lo (hi - 1) zs ys" "seg_sorted cmp lo (hi - 1) ys"
      using "1.IH" [OF True m(1) zs(1)] "1.prems" zs(4) by auto
    have "seg_perm lo hi xs ys" by (rule seg_perm_trans [OF zs(2) seg_perm_widen [OF ys(2)]]) (use "1.prems" in auto)
    moreover have "seg_sorted cmp lo hi ys"
      unfolding seg_sorted_def
    proof (intro allI impI)
      fix i j assume ij: "lo \<le> i" "i < j" "j \<le> hi"
      show "cmp (el ys i) (el ys j) \<le> 0"
      proof (cases "j = hi")
        case False
        then show ?thesis using ys(3) ij by (simp add: seg_sorted_def)
      next
        case j: True
        obtain i' where i': "lo \<le> i'" "i' \<le> hi - 1" "el ys i = el zs i'" using seg_permD(4) [OF ys(2), of i] ij j by auto
        have "el ys hi = el xs m" using seg_permD(3) [OF ys(2), of hi] zs(3) [of hi] "1.prems" True m by auto
        moreover have "\<exists>k. lo \<le> k \<and> k \<le> hi \<and> el zs i' = el xs k" using seg_permD(4) [OF zs(2), of i'] i' by auto
        ultimately show ?thesis using m(4) i'(3) j by auto
      qed
    qed
    ultimately show ?thesis using True m(1) zs(1) ys(1) by (subst qsort_shortsort.simps) simp
  qed
qed

section \<open>A partition separates its piece\<close>

lemma do_scan_ok:
  assumes "0 < N" "\<not> within (i + d * int N)" "\<And>k. 0 < k \<Longrightarrow> k < N \<Longrightarrow> within (i + d * int k) \<Longrightarrow> test (i + d * int k) \<noteq> None"
  shows "\<exists>n. 0 < n \<and> n \<le> N \<and> do_scan d within test i = Some (i + d * int n) \<and>
    (\<forall>k. 0 < k \<longrightarrow> k < n \<longrightarrow> within (i + d * int k) \<and> test (i + d * int k) = Some True) \<and>
    (\<not> within (i + d * int n) \<or> within (i + d * int n) \<and> test (i + d * int n) = Some False)"
  using assms
proof (induction N arbitrary: i)
  case (Suc N)
  show ?case
  proof (cases "within (i + d) \<and> test (i + d) = Some True")
    case False
    then have "within (i + d) \<Longrightarrow> test (i + d) = Some False"
      using Suc.prems(2) Suc.prems(3) [of 1] by (cases "N = 0") auto
    then show ?thesis using False by (intro exI [of _ 1]) (subst do_scan.simps, auto)
  next
    case True
    then have N: "0 < N" using Suc.prems(2) by (cases N) auto
    have "\<exists>n. 0 < n \<and> n \<le> N \<and> do_scan d within test (i + d) = Some (i + d + d * int n) \<and>
      (\<forall>k. 0 < k \<longrightarrow> k < n \<longrightarrow> within (i + d + d * int k) \<and> test (i + d + d * int k) = Some True) \<and>
      (\<not> within (i + d + d * int n) \<or> within (i + d + d * int n) \<and> test (i + d + d * int n) = Some False)"
    proof (rule Suc.IH [OF N])
      show "\<not> within (i + d + d * int N)" using Suc.prems(2) by (simp add: algebra_simps)
      show "test (i + d + d * int k) \<noteq> None" if "0 < k" "k < N" "within (i + d + d * int k)" for k
        using Suc.prems(3) [of "Suc k"] that by (simp add: algebra_simps)
    qed
    then obtain n where n: "0 < n" "n \<le> N" "do_scan d within test (i + d) = Some (i + d + d * int n)"
      "\<forall>k. 0 < k \<longrightarrow> k < n \<longrightarrow> within (i + d + d * int k) \<and> test (i + d + d * int k) = Some True"
      "\<not> within (i + d + d * int n) \<or> within (i + d + d * int n) \<and> test (i + d + d * int n) = Some False" by blast
    have "within (i + d * int k) \<and> test (i + d * int k) = Some True" if k: "0 < k" "k < Suc n" for k
    proof (cases "k = 1")
      case False
      then show ?thesis using n(4) k by (auto dest!: spec [of _ "k - 1"] simp: algebra_simps of_nat_diff)
    qed (use True in simp)
    moreover have "do_scan d within test i = Some (i + d * int (Suc n))"
      using True n(3) by (subst do_scan.simps) (simp add: algebra_simps)
    ultimately show ?thesis using n(2,5) by (intro exI [of _ "Suc n"]) (simp add: algebra_simps)
  qed
qed simp

lemma scan_up:
  assumes "i < lim" "\<And>k. i < k \<Longrightarrow> k < lim \<Longrightarrow> test k \<noteq> None"
  shows "\<exists>l. do_scan 1 (\<lambda>k. k < lim) test i = Some l \<and> i < l \<and> l \<le> lim \<and>
    (\<forall>k. i < k \<longrightarrow> k < l \<longrightarrow> test k = Some True) \<and> (l = lim \<or> test l = Some False)"
proof -
  have "\<exists>n. 0 < n \<and> n \<le> nat (lim - i) \<and> do_scan 1 (\<lambda>k. k < lim) test i = Some (i + 1 * int n) \<and>
      (\<forall>k. 0 < k \<longrightarrow> k < n \<longrightarrow> i + 1 * int k < lim \<and> test (i + 1 * int k) = Some True) \<and>
      (\<not> i + 1 * int n < lim \<or> i + 1 * int n < lim \<and> test (i + 1 * int n) = Some False)"
    by (rule do_scan_ok) (use assms in auto)
  then obtain n where n: "0 < n" "n \<le> nat (lim - i)" "do_scan 1 (\<lambda>k. k < lim) test i = Some (i + int n)"
    "\<forall>k. 0 < k \<longrightarrow> k < n \<longrightarrow> test (i + int k) = Some True" "\<not> i + int n < lim \<or> test (i + int n) = Some False" by auto
  have "test k = Some True" if "i < k" "k < i + int n" for k
    using n(4) [rule_format, of "nat (k - i)"] that by auto
  then show ?thesis using n assms(1) by (intro exI [of _ "i + int n"]) auto
qed

lemma scan_down:
  assumes "lim < i" "\<And>k. lim < k \<Longrightarrow> k < i \<Longrightarrow> test k \<noteq> None"
  shows "\<exists>l. do_scan (- 1) (\<lambda>k. k > lim) test i = Some l \<and> lim \<le> l \<and> l < i \<and>
    (\<forall>k. l < k \<longrightarrow> k < i \<longrightarrow> test k = Some True) \<and> (l = lim \<or> test l = Some False)"
proof -
  have "\<exists>n. 0 < n \<and> n \<le> nat (i - lim) \<and> do_scan (- 1) (\<lambda>k. k > lim) test i = Some (i + - 1 * int n) \<and>
      (\<forall>k. 0 < k \<longrightarrow> k < n \<longrightarrow> i + - 1 * int k > lim \<and> test (i + - 1 * int k) = Some True) \<and>
      (\<not> i + - 1 * int n > lim \<or> i + - 1 * int n > lim \<and> test (i + - 1 * int n) = Some False)"
    by (rule do_scan_ok) (use assms in auto)
  then obtain n where n: "0 < n" "n \<le> nat (i - lim)" "do_scan (- 1) (\<lambda>k. k > lim) test i = Some (i - int n)"
    "\<forall>k. 0 < k \<longrightarrow> k < n \<longrightarrow> test (i - int k) = Some True" "\<not> i - int n > lim \<or> test (i - int n) = Some False" by auto
  have "test k = Some True" if "i - int n < k" "k < i" for k
    using n(4) [rule_format, of "nat (i - k)"] that by auto
  then show ?thesis using n assms(1) by (intro exI [of _ "i - int n"]) auto
qed

lemma test_at_ok:
  "0 \<le> i \<Longrightarrow> i < int (length xs) \<Longrightarrow> 0 \<le> mid \<Longrightarrow> mid < int (length xs) \<Longrightarrow>
    test_at cmp P xs mid i = Some (P (cmp (el xs i) (el xs mid)))"
  by (simp add: test_at_def cmp_at_ok)

lemma up_scan_ok:
  assumes "0 \<le> lo" "lo \<le> loguy" "loguy < hi" "0 \<le> mid" "mid < hi" "hi < int (length xs)"
    "\<forall>k. lo \<le> k \<longrightarrow> k \<le> loguy \<longrightarrow> cmp (el xs k) (el xs mid) \<le> 0" "cmp (el xs mid) (el xs mid) \<le> 0"
  shows "\<exists>l. up_scan cmp hi xs mid loguy = Some l \<and> loguy < l \<and> l \<le> hi + 1 \<and>
    (\<forall>k. lo \<le> k \<longrightarrow> k < l \<longrightarrow> cmp (el xs k) (el xs mid) \<le> 0) \<and> (hi < l \<or> 0 < cmp (el xs l) (el xs mid))"
proof -
  define t where "t = test_at cmp (\<lambda>c. c \<le> 0) xs mid"
  have t: "t k = Some (cmp (el xs k) (el xs mid) \<le> 0)" if "loguy < k" "k \<le> hi" for k
    unfolding t_def by (rule test_at_ok) (use assms that in auto)
  have le: "(\<lambda>i. i \<le> hi) = (\<lambda>i. i < hi + 1)" by auto
  have second: "\<exists>l'. do_scan 1 (\<lambda>i. i \<le> hi) t l = Some l' \<and> loguy < l' \<and> l' \<le> hi + 1 \<and>
      (\<forall>k. lo \<le> k \<longrightarrow> k < l' \<longrightarrow> cmp (el xs k) (el xs mid) \<le> 0) \<and> (hi < l' \<or> 0 < cmp (el xs l') (el xs mid))"
    if l: "loguy \<le> l" "l \<le> hi" "\<forall>k. lo \<le> k \<longrightarrow> k \<le> l \<longrightarrow> cmp (el xs k) (el xs mid) \<le> 0" for l
  proof -
    obtain l' where l': "do_scan 1 (\<lambda>i. i < hi + 1) t l = Some l'" "l < l'" "l' \<le> hi + 1"
      "\<forall>k. l < k \<longrightarrow> k < l' \<longrightarrow> t k = Some True" "l' = hi + 1 \<or> t l' = Some False"
      using scan_up [of l "hi + 1" t] l(1,2) t by auto
    have "cmp (el xs k) (el xs mid) \<le> 0" if "lo \<le> k" "k < l'" for k
      using l(3) l'(3,4) that t [of k] l(1) by (cases "k \<le> l") auto
    moreover have "hi < l' \<or> 0 < cmp (el xs l') (el xs mid)" using l'(2,3,5) t [of l'] l(1) by (cases "hi < l'") auto
    ultimately show ?thesis unfolding le using l' l(1) by auto
  qed
  show ?thesis
  proof (cases "mid > loguy")
    case False
    then have "up_scan cmp hi xs mid loguy = do_scan 1 (\<lambda>i. i \<le> hi) t loguy" by (simp add: up_scan_def t_def)
    then show ?thesis using second [of loguy] assms(3,7) by simp
  next
    case True
    obtain l where l: "do_scan 1 (\<lambda>i. i < mid) t loguy = Some l" "loguy < l" "l \<le> mid"
      "\<forall>k. loguy < k \<longrightarrow> k < l \<longrightarrow> t k = Some True" "l = mid \<or> t l = Some False"
      using scan_up [of loguy mid t] True t assms(5) by auto
    have low: "cmp (el xs k) (el xs mid) \<le> 0" if "lo \<le> k" "k < l" for k
      using assms(7) l(3,4) that t [of k] assms(5) by (cases "k \<le> loguy") auto
    have u: "up_scan cmp hi xs mid loguy = (if mid \<le> l then do_scan 1 (\<lambda>i. i \<le> hi) t l else Some l)"
      using True l(1) by (simp add: up_scan_def t_def)
    show ?thesis
    proof (cases "mid \<le> l")
      case mid: True
      then have "\<forall>k. lo \<le> k \<longrightarrow> k \<le> l \<longrightarrow> cmp (el xs k) (el xs mid) \<le> 0" using low assms(8) l(3) by (metis order_antisym order_le_less)
      then show ?thesis using second [of l] l(2,3) mid assms(5) u by simp
    next
      case False
      then have "0 < cmp (el xs l) (el xs mid)" using l(2,5) t [of l] assms(5) by auto
      then show ?thesis using False u low l(2,3) assms(5) by auto
    qed
  qed
qed

text \<open>What the partition loop keeps, and what it ends with.\<close>

definition part_inv :: "('a \<Rightarrow> 'a \<Rightarrow> int) \<Rightarrow> int \<Rightarrow> int \<Rightarrow> 'a list \<Rightarrow> int \<Rightarrow> int \<Rightarrow> int \<Rightarrow> bool" where
  "part_inv cmp lo hi xs mid loguy higuy \<longleftrightarrow> 0 \<le> lo \<and> lo \<le> loguy \<and> loguy < hi \<and> higuy \<le> hi \<and> lo < mid \<and> mid < hi \<and>
     mid < higuy \<and> hi < int (length xs) \<and>
     (\<forall>k. lo \<le> k \<longrightarrow> k \<le> loguy \<longrightarrow> cmp (el xs k) (el xs mid) \<le> 0) \<and>
     (\<forall>k. higuy \<le> k \<longrightarrow> k < hi \<longrightarrow> 0 < cmp (el xs k) (el xs mid)) \<and> cmp (el xs mid) (el xs hi) \<le> 0"

definition part_end :: "('a \<Rightarrow> 'a \<Rightarrow> int) \<Rightarrow> int \<Rightarrow> int \<Rightarrow> 'a list \<Rightarrow> int \<Rightarrow> int \<Rightarrow> int \<Rightarrow> bool" where
  "part_end cmp lo hi xs mid loguy higuy \<longleftrightarrow> lo < loguy \<and> loguy \<le> hi + 1 \<and> lo < mid \<and> mid \<le> higuy \<and> higuy < hi \<and> higuy < loguy \<and>
     (\<forall>k. lo \<le> k \<longrightarrow> k < loguy \<longrightarrow> cmp (el xs k) (el xs mid) \<le> 0) \<and>
     (\<forall>k. higuy < k \<longrightarrow> k < hi \<longrightarrow> 0 < cmp (el xs k) (el xs mid)) \<and> cmp (el xs mid) (el xs hi) \<le> 0"

lemma part_loop_ok:
  assumes ord: "cmp_order cmp" and inv: "part_inv cmp lo hi xs mid loguy higuy"
  shows "\<exists>ys m l h. part_loop cmp hi xs mid loguy higuy = Some (ys, m, l, h) \<and> seg_perm lo hi xs ys \<and> part_end cmp lo hi ys m l h"
  using inv
proof (induction "nat (higuy - lo)" arbitrary: xs mid loguy higuy rule: less_induct)
  case less
  note i = less.prems [unfolded part_inv_def]
  have mid0: "cmp (el xs mid) (el xs mid) \<le> 0" by (rule cmp_refl [OF ord])
  obtain l where l: "up_scan cmp hi xs mid loguy = Some l" "loguy < l" "l \<le> hi + 1"
    "\<forall>k. lo \<le> k \<longrightarrow> k < l \<longrightarrow> cmp (el xs k) (el xs mid) \<le> 0" "hi < l \<or> 0 < cmp (el xs l) (el xs mid)"
    using up_scan_ok [of lo loguy hi mid xs cmp] i mid0 by auto
  define t where "t = test_at cmp (\<lambda>c. c > 0) xs mid"
  have t: "t k = Some (0 < cmp (el xs k) (el xs mid))" if "mid < k" "k \<le> hi" for k
    unfolding t_def by (rule test_at_ok) (use i that in auto)
  obtain h where h: "do_scan (- 1) (\<lambda>k. k > mid) t higuy = Some h" "mid \<le> h" "h < higuy"
    "\<forall>k. h < k \<longrightarrow> k < higuy \<longrightarrow> t k = Some True" "h = mid \<or> t h = Some False"
    using scan_down [of mid higuy t] i t by auto
  have up: "0 < cmp (el xs k) (el xs mid)" if "h < k" "k < hi" for k
    using i h(2,4) t [of k] that by (cases "higuy \<le> k") auto
  have low: "cmp (el xs h) (el xs mid) \<le> 0" using h(2,3,5) t [of h] i mid0 by (cases "h = mid") auto
  have step: "part_loop cmp hi xs mid loguy higuy =
      (if h < l then Some (xs, mid, l, h)
       else case MEM_Swap xs l h of None \<Rightarrow> None | Some ys \<Rightarrow> part_loop cmp hi ys (if mid = h then l else mid) l h)"
    by (subst part_loop.simps) (simp add: l(1) h(1) [unfolded t_def])
  show ?case
  proof (cases "h < l")
    case True
    then have "part_end cmp lo hi xs mid l h" using i l h up by (auto simp: part_end_def)
    then show ?thesis using step True by auto
  next
    case False
    then have l5: "0 < cmp (el xs l) (el xs mid)" using l(5) h(3) i by auto
    then have "l \<noteq> h" "l \<noteq> mid" using low mid0 by force+
    then have ne: "l < h" "l \<noteq> mid" using False by simp_all
    obtain ys where ys: "MEM_Swap xs l h = Some ys" "seg_perm lo hi xs ys"
      "\<And>k. 0 \<le> k \<Longrightarrow> el ys k = (if k = l then el xs h else if k = h then el xs l else el xs k)" "length ys = length xs"
      by (rule MEM_Swap_ok [of l xs h]) (use i l h ne in auto)
    define m where "m = (if mid = h then l else mid)"
    have m: "el ys m = el xs mid" using ys(3) [of m] i l(2) ne by (auto simp: m_def)
    have "part_inv cmp lo hi ys m l h"
      unfolding part_inv_def m
    proof (intro conjI allI impI)
      show "cmp (el ys k) (el xs mid) \<le> 0" if "lo \<le> k" "k \<le> l" for k
        using ys(3) [of k] l(4) low that i ne by auto
      show "0 < cmp (el ys k) (el xs mid)" if "h \<le> k" "k < hi" for k
        using ys(3) [of k] up [of k] l5 that i h(2) ne by auto
      show "cmp (el xs mid) (el ys hi) \<le> 0" using ys(3) [of hi] i h(3) ne by auto
    qed (use i l(2) h ne ys(4) in \<open>auto simp: m_def\<close>)
    moreover have "nat (h - lo) < nat (higuy - lo)" using h i by auto
    ultimately obtain zs m' l' h' where z: "part_loop cmp hi ys m l h = Some (zs, m', l', h')" "seg_perm lo hi ys zs"
      "part_end cmp lo hi zs m' l' h'" using less.hyps by blast
    then show ?thesis using step False ys(1) seg_perm_trans [OF ys(2) z(2)] by (auto simp: m_def)
  qed
qed

lemma swap_if_ok:
  assumes ord: "cmp_order cmp" and b: "0 \<le> lo" "lo \<le> i" "i < j" "j \<le> hi" "hi < int (length xs)"
  shows "\<exists>ys. swap_if cmp i j xs = Some ys \<and> seg_perm lo hi xs ys \<and> cmp (el ys i) (el ys j) \<le> 0 \<and>
    (\<forall>k\<ge>0. k \<noteq> i \<longrightarrow> k \<noteq> j \<longrightarrow> el ys k = el xs k) \<and> cmp (el ys i) (el xs i) \<le> 0 \<and>
    (el ys i = el xs i \<or> el ys i = el xs j) \<and> (el ys j = el xs i \<or> el ys j = el xs j)"
proof -
  have c: "cmp_at cmp xs i j = Some (cmp (el xs i) (el xs j))" by (rule cmp_at_ok) (use b in auto)
  show ?thesis
  proof (cases "cmp (el xs i) (el xs j) > 0")
    case False
    then show ?thesis using c cmp_refl [OF ord] by (intro exI [of _ xs]) (auto simp: swap_if_def)
  next
    case True
    obtain ys where ys: "MEM_Swap xs i j = Some ys" "seg_perm lo hi xs ys"
      "\<And>k. 0 \<le> k \<Longrightarrow> el ys k = (if k = i then el xs j else if k = j then el xs i else el xs k)"
      by (rule MEM_Swap_ok [of i xs j]) (use b in auto)
    have "cmp (el xs j) (el xs i) \<le> 0" using True cmp_flip [OF ord, of "el xs i" "el xs j"] by simp
    then show ?thesis using True c ys b by (intro exI [of _ ys]) (auto simp: swap_if_def)
  qed
qed

lemma median3_ok:
  assumes ord: "cmp_order cmp" and b: "0 \<le> lo" "lo < mid" "mid < hi" "hi < int (length xs)"
  shows "\<exists>ys. median3 cmp lo mid hi xs = Some ys \<and> seg_perm lo hi xs ys \<and> cmp (el ys lo) (el ys mid) \<le> 0 \<and>
    cmp (el ys mid) (el ys hi) \<le> 0"
proof -
  obtain x where x: "swap_if cmp lo mid xs = Some x" "seg_perm lo hi xs x" "cmp (el x lo) (el x mid) \<le> 0"
    using swap_if_ok [OF ord b(1) order_refl b(2), of hi xs] b(3,4) by auto
  obtain y where y: "swap_if cmp lo hi x = Some y" "seg_perm lo hi x y" "cmp (el y lo) (el y hi) \<le> 0" "el y mid = el x mid"
    "cmp (el y lo) (el x lo) \<le> 0"
    using swap_if_ok [OF ord b(1) order_refl, of hi hi x] b seg_permD(1) [OF x(2)] by auto
  have lm: "cmp (el y lo) (el y mid) \<le> 0" using cmp_trans [OF ord y(5) x(3)] y(4) by simp
  obtain z where z: "swap_if cmp mid hi y = Some z" "seg_perm lo hi y z" "cmp (el z mid) (el z hi) \<le> 0" "el z lo = el y lo"
    "el z mid = el y mid \<or> el z mid = el y hi"
    using swap_if_ok [OF ord b(1) less_imp_le [OF b(2)] b(3) order_refl, of y] b seg_permD(1) [OF x(2)] seg_permD(1) [OF y(2)] by auto
  have "cmp (el z lo) (el z mid) \<le> 0" using z(4,5) lm y(3) by auto
  then show ?thesis using x(1) y(1) z(1,3) seg_perm_trans [OF seg_perm_trans [OF x(2) y(2)] z(2)] by (auto simp: median3_def)
qed

lemma eq_scan_ok:
  assumes "part_end cmp lo hi xs mid loguy higuy" "0 \<le> lo" "hi < int (length xs)"
  shows "\<exists>h. eq_scan cmp lo xs mid higuy = Some h \<and> lo \<le> h \<and> h \<le> higuy \<and> (\<forall>k. h < k \<longrightarrow> k \<le> higuy \<longrightarrow> k \<noteq> mid \<longrightarrow> cmp (el xs k) (el xs mid) = 0)"
proof -
  note e = assms(1) [unfolded part_end_def]
  define t where "t = test_at cmp (\<lambda>c. c = 0) xs mid"
  have t: "t k = Some (cmp (el xs k) (el xs mid) = 0)" if "lo < k" "k \<le> higuy" for k
    unfolding t_def by (rule test_at_ok) (use e assms(2,3) that in auto)
  obtain h1 where h1: "do_scan (- 1) (\<lambda>k. k > mid) t (higuy + 1) = Some h1" "mid \<le> h1" "h1 < higuy + 1"
    "\<forall>k. h1 < k \<longrightarrow> k < higuy + 1 \<longrightarrow> t k = Some True"
    using scan_down [of mid "higuy + 1" t] e t by auto
  have eq: "eq_scan cmp lo xs mid higuy = (if mid \<ge> h1 then do_scan (- 1) (\<lambda>k. k > lo) t h1 else Some h1)"
    using e h1(1) by (simp add: eq_scan_def t_def)
  have z1: "cmp (el xs k) (el xs mid) = 0" if "h1 < k" "k \<le> higuy" for k
    using h1(2,4) t [of k] e that by auto
  show ?thesis
  proof (cases "mid \<ge> h1")
    case False
    then show ?thesis using eq h1(3) z1 e by auto
  next
    case True
    obtain h2 where h2: "do_scan (- 1) (\<lambda>k. k > lo) t h1 = Some h2" "lo \<le> h2" "h2 < h1" "\<forall>k. h2 < k \<longrightarrow> k < h1 \<longrightarrow> t k = Some True"
      using scan_down [of lo h1 t] e h1(2,3) t by auto
    have "cmp (el xs k) (el xs mid) = 0" if "h2 < k" "k \<le> higuy" "k \<noteq> mid" for k
      using h2(2,4) t [of k] z1 [of k] True h1(2,3) that by (cases "h1 < k") auto
    then show ?thesis using eq True h2 h1(3) by auto
  qed
qed

lemma cmp_zero_sym: "cmp_order cmp \<Longrightarrow> cmp a b = 0 \<Longrightarrow> cmp b a = 0"
  unfolding cmp_order_def by (metis less_irrefl linorder_neqE)

lemma qsort_split_ok:
  assumes ord: "cmp_order cmp" and b: "0 \<le> lo" "hi < int (length xs)" and sz: "sz = hi - lo + 1" "8 < sz"
  shows "\<exists>ys h l. qsort_split cmp sz lo hi xs = Some (ys, h, l) \<and> seg_perm lo hi xs ys \<and> lo \<le> h \<and> h < hi \<and> h < l \<and> lo < l \<and> l \<le> hi + 1 \<and>
    (\<forall>i j. lo \<le> i \<longrightarrow> i < j \<longrightarrow> j \<le> hi \<longrightarrow> cmp (el ys i) (el ys j) \<le> 0 \<or> j \<le> h \<or> l \<le> i)"
proof -
  define mid where "mid = lo + sz div 2"
  have mid: "lo < mid" "mid < hi" using sz by (simp_all add: mid_def)
  obtain x where x: "median3 cmp lo mid hi xs = Some x" "seg_perm lo hi xs x" "cmp (el x lo) (el x mid) \<le> 0" "cmp (el x mid) (el x hi) \<le> 0"
    using median3_ok [OF ord b(1) mid b(2)] by blast
  have "part_inv cmp lo hi x mid lo hi"
    unfolding part_inv_def using x(3,4) mid b seg_permD(1) [OF x(2)] by auto
  then obtain ys m l h0 where p: "part_loop cmp hi x mid lo hi = Some (ys, m, l, h0)" "seg_perm lo hi x ys" "part_end cmp lo hi ys m l h0"
    using part_loop_ok [OF ord] by blast
  obtain h where h: "eq_scan cmp lo ys m h0 = Some h" "lo \<le> h" "h \<le> h0"
    "\<forall>k. h < k \<longrightarrow> k \<le> h0 \<longrightarrow> k \<noteq> m \<longrightarrow> cmp (el ys k) (el ys m) = 0"
    using eq_scan_ok [OF p(3) b(1)] b(2) seg_permD(1) [OF x(2)] seg_permD(1) [OF p(2)] by auto
  note e = p(3) [unfolded part_end_def]
  have above: "cmp (el ys m) (el ys k) \<le> 0" if k: "h < k" "k \<le> hi" for k
  proof -
    consider "k = m" | "k \<le> h0" "k \<noteq> m" | "h0 < k" "k < hi" | "k = hi"
      using k(2) by (cases "k = m"; cases "k \<le> h0"; cases "k = hi") auto
    then show ?thesis
    proof cases
      case 1 then show ?thesis using cmp_refl [OF ord] by simp
    next
      case 2 then show ?thesis using h(4) k cmp_zero_sym [OF ord] by auto
    next
      case 3 then show ?thesis using e cmp_flip [OF ord, of "el ys k" "el ys m"] by force
    next
      case 4 then show ?thesis using e by simp
    qed
  qed
  have "cmp (el ys i) (el ys j) \<le> 0 \<or> j \<le> h \<or> l \<le> i" if "lo \<le> i" "i < j" "j \<le> hi" for i j
  proof (cases "j \<le> h \<or> l \<le> i")
    case False
    then have "cmp (el ys i) (el ys m) \<le> 0" using e that by simp
    then show ?thesis using cmp_trans [OF ord _ above [of j]] False that by auto
  qed simp
  moreover have "qsort_split cmp sz lo hi xs = Some (ys, h, l)"
    using x(1) p(1) h(1) by (simp add: qsort_split_def Let_def mid_def)
  ultimately show ?thesis using seg_perm_trans [OF x(2) p(2)] h e by auto
qed

section \<open>The pieces that are left\<close>

text \<open>Elements in different pieces are in order already; the pieces are disjoint; their sizes halve on the stack.\<close>

fun depth_ok :: "int \<Rightarrow> (int \<times> int) list \<Rightarrow> bool" where
  "depth_ok n [] = True"
| "depth_ok n ((l, h) # stk) = ((h - l + 1) * 2 ^ length stk \<le> n \<and> depth_ok n stk)"

definition in_piece :: "(int \<times> int) list \<Rightarrow> int \<Rightarrow> int \<Rightarrow> bool" where
  "in_piece ps i j \<longleftrightarrow> (\<exists>(l, h)\<in>set ps. l \<le> i \<and> j \<le> h)"

definition apart :: "int \<times> int \<Rightarrow> int \<times> int \<Rightarrow> bool" where
  "apart p q \<longleftrightarrow> snd p < fst q \<or> snd q < fst p"

definition pieces_ok :: "('a \<Rightarrow> 'a \<Rightarrow> int) \<Rightarrow> int \<Rightarrow> 'a list \<Rightarrow> (int \<times> int) list \<Rightarrow> bool" where
  "pieces_ok cmp n xs ps \<longleftrightarrow> (\<forall>(l, h)\<in>set ps. 0 \<le> l \<and> l \<le> h \<and> h < n) \<and> sorted_wrt apart ps \<and>
     (\<forall>i j. 0 \<le> i \<longrightarrow> i < j \<longrightarrow> j < n \<longrightarrow> cmp (el xs i) (el xs j) \<le> 0 \<or> in_piece ps i j)"

definition pieces_size :: "(int \<times> int) list \<Rightarrow> nat" where
  "pieces_size ps = (\<Sum>(l, h)\<leftarrow>ps. nat (2 * (h - l) + 1))"

lemma pieces_ok_step:
  assumes ok: "pieces_ok cmp n xs ((lo, hi) # stk)" and p: "seg_perm lo hi xs ys"
    and new: "\<forall>(l, h)\<in>set new. lo \<le> l \<and> l \<le> h \<and> h \<le> hi" "sorted_wrt apart new"
    and ord: "\<forall>i j. lo \<le> i \<longrightarrow> i < j \<longrightarrow> j \<le> hi \<longrightarrow> cmp (el ys i) (el ys j) \<le> 0 \<or> in_piece new i j"
  shows "pieces_ok cmp n ys (new @ stk)"
proof -
  have seg: "0 \<le> lo" "lo \<le> hi" "hi < n" and stk: "\<forall>(l, h)\<in>set stk. 0 \<le> l \<and> l \<le> h \<and> h < n" "sorted_wrt apart stk"
    and far: "\<forall>(l, h)\<in>set stk. hi < l \<or> h < lo"
    and before: "\<And>i j. 0 \<le> i \<Longrightarrow> i < j \<Longrightarrow> j < n \<Longrightarrow> cmp (el xs i) (el xs j) \<le> 0 \<or> lo \<le> i \<and> j \<le> hi \<or> in_piece stk i j"
    using ok by (auto simp: pieces_ok_def apart_def in_piece_def)
  have "\<forall>(l, h)\<in>set (new @ stk). 0 \<le> l \<and> l \<le> h \<and> h < n" using new(1) stk(1) seg by auto
  moreover have "sorted_wrt apart (new @ stk)"
    unfolding sorted_wrt_append using new stk(2) far by (fastforce simp: apart_def)
  moreover have "cmp (el ys i) (el ys j) \<le> 0 \<or> in_piece (new @ stk) i j" if ij: "0 \<le> i" "i < j" "j < n" for i j
  proof -
    define i' where "i' = (if lo \<le> i \<and> i \<le> hi then SOME k. lo \<le> k \<and> k \<le> hi \<and> el ys i = el xs k else i)"
    define j' where "j' = (if lo \<le> j \<and> j \<le> hi then SOME k. lo \<le> k \<and> k \<le> hi \<and> el ys j = el xs k else j)"
    have i': "el ys i = el xs i'" "lo \<le> i \<and> i \<le> hi \<longrightarrow> lo \<le> i' \<and> i' \<le> hi"
      using someI_ex [OF seg_permD(4) [OF p, of i]] seg_permD(3) [OF p ij(1)] unfolding i'_def by (auto split: if_splits)
    have j': "el ys j = el xs j'" "lo \<le> j \<and> j \<le> hi \<longrightarrow> lo \<le> j' \<and> j' \<le> hi"
      using someI_ex [OF seg_permD(4) [OF p, of j]] seg_permD(3) [OF p, of j] ij unfolding j'_def by (auto split: if_splits)
    show ?thesis
    proof (cases "lo \<le> i \<and> j \<le> hi")
      case True
      then show ?thesis using ord ij by (auto simp: in_piece_def)
    next
      case False
      then have b: "0 \<le> i'" "i' < j'" "j' < n" "\<not> (lo \<le> i' \<and> j' \<le> hi)"
        using i'(2) j'(2) ij seg unfolding i'_def j'_def by (auto split: if_splits)
      consider "cmp (el xs i') (el xs j') \<le> 0" | l h where "(l, h) \<in> set stk" "l \<le> i'" "j' \<le> h"
        using before [OF b(1-3)] b(4) by (auto simp: in_piece_def)
      then show ?thesis
      proof cases
        case 1
        then show ?thesis using i'(1) j'(1) by simp
      next
        case 2
        then have "hi < l \<or> h < lo" using far by auto
        then have "i' = i" "j' = j" using 2 b(2) i'(2) j'(2) unfolding i'_def j'_def by (auto split: if_splits)
        then show ?thesis using 2 by (auto simp: in_piece_def)
      qed
    qed
  qed
  ultimately show ?thesis by (auto simp: pieces_ok_def)
qed

lemma pieces_ok_sorted: "pieces_ok cmp n xs [] \<Longrightarrow> 0 \<le> i \<Longrightarrow> i < j \<Longrightarrow> j < n \<Longrightarrow> cmp (el xs i) (el xs j) \<le> 0"
  by (auto simp: pieces_ok_def in_piece_def)

lemma piece_size:
  assumes "lo \<le> hi" "0 < width" "(hi - lo) * width < 2 ^ 32"
  shows "((hi - lo) * width) mod 2 ^ 32 div width + 1 = hi - lo + (1 :: int)"
  using assms by simp

lemma qsort_push_ok:
  assumes "depth_ok n ((lo, hi) # stk)" "n < 2 ^ 31" "lo \<le> hi"
  shows "qsort_push p stk = Some (p # stk)"
proof -
  have "2 ^ length stk \<le> (hi - lo + 1) * 2 ^ length stk" using assms(3) by (simp add: mult_le_cancel_right1)
  moreover have "(hi - lo + 1) * 2 ^ length stk \<le> n" using assms(1) by simp
  ultimately have "(2 :: int) ^ length stk < 2 ^ 31" using assms(2) by linarith
  then have "length stk < 31" by (rule power_less_imp_less_exp [rotated]) simp
  then show ?thesis by (simp add: qsort_push_def STKSIZ_def)
qed

text \<open>One piece, taken from the top: it is sorted, or split into at most two pieces that keep the invariants.\<close>

lemma qsort_piece_ok:
  assumes ord: "cmp_order cmp" and w: "0 < width" "n * width < 2 ^ 31" "n \<le> int (length xs)"
    and ok: "pieces_ok cmp n xs ((lo, hi) # stk)" and d: "depth_ok n ((lo, hi) # stk)"
  shows "\<exists>ys piece stk'. qsort_piece cmp width xs lo hi stk = Some (ys, piece, stk') \<and> seg_perm 0 (n - 1) xs ys \<and>
    pieces_ok cmp n ys (case piece of None \<Rightarrow> stk' | Some p \<Rightarrow> p # stk') \<and>
    depth_ok n (case piece of None \<Rightarrow> stk' | Some p \<Rightarrow> p # stk') \<and>
    pieces_size (case piece of None \<Rightarrow> stk' | Some p \<Rightarrow> p # stk') < pieces_size ((lo, hi) # stk)"
proof -
  have b: "0 \<le> lo" "lo \<le> hi" "hi < n" using ok by (auto simp: pieces_ok_def)
  have "n \<le> n * width" using w(1) b by (simp add: mult_le_cancel_left1)
  then have n31: "n < 2 ^ 31" using w(2) by linarith
  have "(hi - lo) * width \<le> n * width" using w(1) b by (intro mult_right_mono) auto
  then have "(hi - lo) * width < 2 ^ 32" by (rule order_le_less_trans) (rule less_trans [OF w(2)], simp)
  note sz = piece_size [OF b(2) w(1) this]
  have push: "qsort_push p stk = Some (p # stk)" for p by (rule qsort_push_ok [OF d n31 b(2)])
  have widen: "seg_perm 0 (n - 1) xs ys" if "seg_perm lo hi xs ys" for ys by (rule seg_perm_widen [OF that]) (use b in auto)
  have d': "(hi - lo + 1) * 2 ^ length stk \<le> n" "depth_ok n stk" using d by simp_all
  show ?thesis
  proof (cases "hi - lo + 1 \<le> CUTOFF")
    case True
    obtain ys where ys: "qsort_shortsort cmp lo hi xs = Some ys" "seg_perm lo hi xs ys" "seg_sorted cmp lo hi ys"
      using qsort_shortsort_ok [OF ord b(1), of hi xs] b w(3) by auto
    have "pieces_ok cmp n ys ([] @ stk)"
      by (rule pieces_ok_step [OF ok ys(2)]) (use ys(3) in \<open>auto simp: seg_sorted_def\<close>)
    moreover have "qsort_piece cmp width xs lo hi stk = Some (ys, None, stk)"
      using True ys(1) unfolding qsort_piece_def Let_def sz by simp
    ultimately show ?thesis using widen [OF ys(2)] d'(2) b(2) by (auto simp: pieces_size_def)
  next
    case False
    then have "8 < hi - lo + 1" by (simp add: CUTOFF_def)
    then obtain ys h l where s: "qsort_split cmp (hi - lo + 1) lo hi xs = Some (ys, h, l)" "seg_perm lo hi xs ys"
      "lo \<le> h" "h < hi" "h < l" "lo < l" "l \<le> hi + 1"
      "\<forall>i j. lo \<le> i \<longrightarrow> i < j \<longrightarrow> j \<le> hi \<longrightarrow> cmp (el ys i) (el ys j) \<le> 0 \<or> j \<le> h \<or> l \<le> i"
      using qsort_split_ok [OF ord b(1), of hi xs] b(3) w(3) by auto
    define lower upper where "lower = (if lo < h then [(lo, h)] else [])" and "upper = (if l < hi then [(l, hi)] else [])"
    have q: "qsort_piece cmp width xs lo hi stk =
        (if h - lo \<ge> hi - l then
           Some (ys, if l < hi then Some (l, hi) else None, lower @ stk)
         else Some (ys, if lo < h then Some (lo, h) else None, upper @ stk))"
      using False s(1) push unfolding qsort_piece_def Let_def sz by (simp add: lower_def upper_def)
    have "pieces_ok cmp n ys ((upper @ lower) @ stk)" "pieces_ok cmp n ys ((lower @ upper) @ stk)"
      by (rule pieces_ok_step [OF ok s(2)]; use s(3-8) in \<open>force simp: lower_def upper_def apart_def in_piece_def\<close>)+
    note pieces = this
    have half: "(m :: int) * (2 * 2 ^ length stk) \<le> n" if "2 * m \<le> hi - lo + 1" for m
      using order_trans [OF mult_right_mono [OF that] d'(1)] by (simp add: ac_simps)
    have one: "(m :: int) * 2 ^ length stk \<le> n" if "m \<le> hi - lo + 1" for m
      using order_trans [OF mult_right_mono [OF that] d'(1)] by simp
    show ?thesis
    proof (cases "h - lo \<ge> hi - l")
      case True
      have "depth_ok n (upper @ lower @ stk)"
        using d'(2) one [of "h - lo + 1"] one [of "hi - l + 1"] half [of "hi - l + 1"] s(3-7) True
        by (auto simp: lower_def upper_def)
      moreover have "pieces_size (upper @ lower @ stk) < pieces_size ((lo, hi) # stk)"
        using s(3-7) b(2) by (auto simp: pieces_size_def lower_def upper_def)
      ultimately show ?thesis using q True pieces(1) widen [OF s(2)] by (auto simp: upper_def)
    next
      case False
      have "depth_ok n (lower @ upper @ stk)"
        using d'(2) one [of "h - lo + 1"] one [of "hi - l + 1"] half [of "h - lo + 1"] s(3-7) False
        by (auto simp: lower_def upper_def)
      moreover have "pieces_size (lower @ upper @ stk) < pieces_size ((lo, hi) # stk)"
        using s(3-7) b(2) by (auto simp: pieces_size_def lower_def upper_def)
      ultimately show ?thesis using q False pieces(2) widen [OF s(2)] by (auto simp: lower_def)
    qed
  qed
qed

lemma qsort_loop_ok:
  assumes ord: "cmp_order cmp" and w: "0 < width" "n * width < 2 ^ 31"
  shows "n \<le> int (length xs) \<Longrightarrow> pieces_ok cmp n xs ((lo, hi) # stk) \<Longrightarrow> depth_ok n ((lo, hi) # stk) \<Longrightarrow>
    \<exists>ys. qsort_loop cmp width xs lo hi stk = Some ys \<and> seg_perm 0 (n - 1) xs ys \<and> pieces_ok cmp n ys []"
proof (induction "pieces_size ((lo, hi) # stk)" arbitrary: xs lo hi stk rule: less_induct)
  case less
  obtain ys piece stk' where p: "qsort_piece cmp width xs lo hi stk = Some (ys, piece, stk')" "seg_perm 0 (n - 1) xs ys"
    "pieces_ok cmp n ys (case piece of None \<Rightarrow> stk' | Some p \<Rightarrow> p # stk')"
    "depth_ok n (case piece of None \<Rightarrow> stk' | Some p \<Rightarrow> p # stk')"
    "pieces_size (case piece of None \<Rightarrow> stk' | Some p \<Rightarrow> p # stk') < pieces_size ((lo, hi) # stk)"
    using qsort_piece_ok [OF ord w less.prems] by blast
  have len: "n \<le> int (length ys)" using less.prems(1) seg_permD(1) [OF p(2)] by simp
  show ?case
  proof (cases "(case piece of None \<Rightarrow> stk' | Some p \<Rightarrow> p # stk')")
    case Nil
    then have "qsort_loop cmp width xs lo hi stk = Some ys"
      using p(1) by (subst qsort_loop.simps) (simp split: option.splits)
    then show ?thesis using p(2,3) Nil by auto
  next
    case (Cons q stk2)
    obtain l h where q: "q = (l, h)" by force
    have "qsort_loop cmp width xs lo hi stk = qsort_loop cmp width ys l h stk2"
      using p(1) Cons q by (subst qsort_loop.simps) (auto split: option.splits)
    moreover have "\<exists>zs. qsort_loop cmp width ys l h stk2 = Some zs \<and> seg_perm 0 (n - 1) ys zs \<and> pieces_ok cmp n zs []"
      by (rule less.hyps [OF _ len]) (use p(3-5) Cons q in simp_all)
    ultimately show ?thesis using seg_perm_trans [OF p(2)] by auto
  qed
qed

lemma QSORT_Do_ok:
  assumes "cmp_order cmp" "0 < width" "num * width < 2 ^ 31" "0 \<le> num" "num \<le> int (length xs)"
  shows "\<exists>ys. QSORT_Do cmp xs num width = Some ys \<and> mset ys = mset xs \<and> sorted_cmp cmp (take (nat num) ys) \<and>
    drop (nat num) ys = drop (nat num) xs"
proof (cases "num < 2")
  case True
  then have "length (take (nat num) xs) \<le> 1" by simp
  then have "sorted_cmp cmp (take (nat num) xs)" by (cases "take (nat num) xs") auto
  then show ?thesis using True by (simp add: QSORT_Do_def)
next
  case False
  have "pieces_ok cmp num xs [(0, num - 1)]" using False by (auto simp: pieces_ok_def in_piece_def)
  then obtain ys where ys: "qsort_loop cmp width xs 0 (num - 1) [] = Some ys" "seg_perm 0 (num - 1) xs ys" "pieces_ok cmp num ys []"
    using qsort_loop_ok [OF assms(1-3,5), of 0 "num - 1" "[]"] by auto
  note p = seg_permD [OF ys(2)]
  have "sorted_cmp cmp (take (nat num) ys)"
    unfolding sorted_wrt_iff_nth_less
  proof (intro allI impI)
    fix i j assume ij: "i < j" "j < length (take (nat num) ys)"
    then have "cmp (el ys (int i)) (el ys (int j)) \<le> 0" using ij False by (intro pieces_ok_sorted [OF ys(3)]) auto
    then show "cmp (take (nat num) ys ! i) (take (nat num) ys ! j) \<le> 0" using ij by simp
  qed
  moreover have "drop (nat num) ys = drop (nat num) xs"
  proof (rule nth_equalityI)
    show "drop (nat num) ys ! i = drop (nat num) xs ! i" if "i < length (drop (nat num) ys)" for i
      using p(3) [of "int (nat num + i)"] False that p(1) by (simp add: nat_add_distrib)
  qed (simp add: p(1))
  ultimately show ?thesis using ys(1) p(2) False assms(2) by (auto simp: QSORT_Do_def)
qed

section \<open>What the search finds\<close>

text \<open>The search turns to the upper half where the key is smaller: it is right on descending arrays.\<close>

lemma bsearch_loop_sound:
  "bsearch_loop cmp xs key low high = Some m \<Longrightarrow> low \<le> m \<and> m \<le> high \<and> cmp key (el xs m) = 0"
proof (induction cmp xs key low high rule: bsearch_loop.induct)
  case (1 cmp xs key low high)
  define mid where "mid = low + (high - low) div 2"
  show ?case
  proof (cases "low \<le> high")
    case False
    then show ?thesis using "1.prems" by (subst (asm) bsearch_loop.simps) simp
  next
    case True
    then have "low \<le> mid" "mid \<le> high" by (simp_all add: mid_def)
    then show ?thesis
      using "1.prems" True "1.IH" [OF True mid_def refl]
      by (subst (asm) bsearch_loop.simps) (auto simp: Let_def mid_def [symmetric] split: if_splits)
  qed
qed

lemma bsearch_loop_descending:
  assumes "cmp_order cmp" "\<forall>i j. low \<le> i \<longrightarrow> i \<le> j \<longrightarrow> j \<le> high \<longrightarrow> cmp (el xs j) (el xs i) \<le> 0"
    "low \<le> m" "m \<le> high" "cmp key (el xs m) = 0"
  shows "bsearch_loop cmp xs key low high \<noteq> None"
  using assms
proof (induction cmp xs key low high rule: bsearch_loop.induct)
  case (1 cmp xs key low high)
  define mid where "mid = low + (high - low) div 2"
  have le: "low \<le> high" using "1.prems"(3,4) by simp
  have mid: "low \<le> mid" "mid \<le> high" using le by (simp_all add: mid_def)
  have step: "bsearch_loop cmp xs key low high =
      (if cmp key (el xs mid) < 0 then bsearch_loop cmp xs key (mid + 1) high
       else if cmp key (el xs mid) > 0 then bsearch_loop cmp xs key low (mid - 1) else Some mid)"
    using le by (subst bsearch_loop.simps) (simp add: mid_def Let_def)
  note key = cmp_zero_sym [OF "1.prems"(1,5)]
  show ?case
  proof (cases "cmp key (el xs mid) = 0")
    case True
    then show ?thesis using step by simp
  next
    case False
    show ?thesis
    proof (cases "cmp key (el xs mid) < 0")
      case lt: True
      have "mid < m"
      proof (rule ccontr)
        assume "\<not> mid < m"
        then have "cmp (el xs mid) (el xs m) \<le> 0" using "1.prems"(2,3) mid by simp
        then have "cmp (el xs mid) key \<le> 0" using cmp_trans [OF "1.prems"(1)] key by (metis order_refl)
        then show False using lt "1.prems"(1) unfolding cmp_order_def by (metis not_less)
      qed
      then show ?thesis using "1.IH"(1) [OF le mid_def refl lt] "1.prems" mid step lt by auto
    next
      case gt: False
      then have gt: "cmp key (el xs mid) > 0" using False by simp
      have "m < mid"
      proof (rule ccontr)
        assume "\<not> m < mid"
        then have "cmp (el xs m) (el xs mid) \<le> 0" using "1.prems"(2,4) mid by simp
        then have "cmp key (el xs mid) \<le> 0" using cmp_trans [OF "1.prems"(1)] "1.prems"(5) by (metis order_refl)
        then show False using gt by simp
      qed
      then show ?thesis using "1.IH"(2) [OF le mid_def refl _ gt] "1.prems" mid step gt by auto
    qed
  qed
qed

text \<open>On an ascending array it leaves the key behind with the first step, unless the middle element is the key.\<close>

lemma bsearch_loop_outside:
  assumes "\<forall>i. low \<le> i \<longrightarrow> i \<le> high \<longrightarrow> cmp key (el xs i) \<noteq> 0"
  shows "bsearch_loop cmp xs key low high = None"
  using assms bsearch_loop_sound [of cmp xs key low high] by (cases "bsearch_loop cmp xs key low high") auto

lemma BSEARCH_Do_ascending:
  assumes ord: "cmp_order cmp" and asc: "sorted_cmp cmp (take (nat num) xs)" and n: "0 < num" "num \<le> int (length xs)"
  shows "BSEARCH_Do cmp xs num key = (if cmp key (el xs ((num - 1) div 2)) = 0 then Some ((num - 1) div 2) else None)"
proof -
  define mid where "mid = (num - 1) div 2"
  have mid: "0 \<le> mid" "mid < num" using n by (simp_all add: mid_def)
  have le: "cmp (el xs i) (el xs j) \<le> 0" if "0 \<le> i" "i < j" "j < num" for i j
    using asc that n(2) unfolding sorted_wrt_iff_nth_less by (auto dest!: spec [of _ "nat i"] spec [of _ "nat j"] simp: nat_less_iff)
  have step: "BSEARCH_Do cmp xs num key =
      (if cmp key (el xs mid) < 0 then bsearch_loop cmp xs key (mid + 1) (num - 1)
       else if cmp key (el xs mid) > 0 then bsearch_loop cmp xs key 0 (mid - 1) else Some mid)"
    using n by (simp add: BSEARCH_Do_def bsearch_loop.simps [of cmp xs key 0] mid_def Let_def)
  consider "cmp key (el xs mid) = 0" | "cmp key (el xs mid) < 0" | "cmp key (el xs mid) > 0" by linarith
  then show ?thesis
  proof cases
    case 1
    then show ?thesis using step by (simp add: mid_def)
  next
    case 2
    have "cmp key (el xs i) \<noteq> 0" if "mid + 1 \<le> i" "i \<le> num - 1" for i
    proof
      assume "cmp key (el xs i) = 0"
      then have "cmp (el xs i) key \<le> 0" using cmp_zero_sym [OF ord] by simp
      then have "cmp (el xs mid) key \<le> 0" using cmp_trans [OF ord le [of mid i]] that mid by simp
      then show False using 2 ord unfolding cmp_order_def by (metis not_less)
    qed
    then show ?thesis using step 2 bsearch_loop_outside [of "mid + 1" "num - 1" cmp key xs] by (simp add: mid_def)
  next
    case 3
    have "cmp key (el xs i) \<noteq> 0" if "0 \<le> i" "i \<le> mid - 1" for i
      using cmp_trans [OF ord, of key "el xs i" "el xs mid"] le [of i mid] 3 that mid by auto
    then show ?thesis using step 3 bsearch_loop_outside [of 0 "mid - 1" cmp key xs] by (simp add: mid_def)
  qed
qed

section \<open>Properties\<close>

text \<open>C35: The sort returns: it stays within the array, its stack of 62 entries never overflows, and afterwards the first \<open>num\<close>
  elements are in order, none is lost or made up, and the elements behind them are untouched.\<close>

theorem QSORT_Do_sorts:
  assumes "cmp_order cmp" "0 < width" "num * width < 2 ^ 31" "0 \<le> num" "num \<le> int (length xs)"
  shows "\<exists>ys. QSORT_Do cmp xs num width = Some ys \<and> mset ys = mset xs \<and> sorted_cmp cmp (take (nat num) ys) \<and>
    drop (nat num) ys = drop (nat num) xs"
  by (rule QSORT_Do_ok [OF assms])

theorem QSORT_Do_sorts_witness:
  "\<exists>ys. QSORT_Do (\<lambda>a b. int a - int b) [9, 4, 7, 4, 1, 8, 2, 6, 3, 5, 0, 0] 10 4 = Some ys \<and>
    mset ys = mset [9, 4, 7, 4, 1, 8, 2, 6, 3, 5, 0, 0] \<and> sorted_cmp (\<lambda>a b. int a - int b) (take 10 ys)"
  using QSORT_Do_sorts [of "\<lambda>a b. int a - int b" 4 10 "[9, 4, 7, 4, 1, 8, 2, 6, 3, 5, 0, 0]"] cmp_order_diff [of int] by auto

text \<open>C36: The binary search never returns an element that differs from the key; it finds a key of a descending array; and of
  an ascending one it finds nothing but the element in the middle.\<close>

theorem BSEARCH_Do_finds:
  assumes "cmp_order cmp" "0 < num" "num \<le> int (length xs)"
  shows "(\<forall>m. BSEARCH_Do cmp xs num key = Some m \<longrightarrow> 0 \<le> m \<and> m < num \<and> cmp key (el xs m) = 0) \<and>
    (sorted_cmp (\<lambda>a b. cmp b a) (take (nat num) xs) \<longrightarrow>
       (BSEARCH_Do cmp xs num key \<noteq> None \<longleftrightarrow> (\<exists>x\<in>set (take (nat num) xs). cmp key x = 0))) \<and>
    (sorted_cmp cmp (take (nat num) xs) \<longrightarrow>
       BSEARCH_Do cmp xs num key = (if cmp key (el xs ((num - 1) div 2)) = 0 then Some ((num - 1) div 2) else None))"
proof (intro conjI allI impI)
  show sound: "0 \<le> m" "m < num" "cmp key (el xs m) = 0" if "BSEARCH_Do cmp xs num key = Some m" for m
    using bsearch_loop_sound [of cmp xs key 0 "num - 1" m] that by (auto simp: BSEARCH_Do_def)
  show "BSEARCH_Do cmp xs num key = (if cmp key (el xs ((num - 1) div 2)) = 0 then Some ((num - 1) div 2) else None)"
    if "sorted_cmp cmp (take (nat num) xs)" by (rule BSEARCH_Do_ascending [OF assms(1) that assms(2,3)])
  assume desc: "sorted_cmp (\<lambda>a b. cmp b a) (take (nat num) xs)"
  have el: "el xs m = take (nat num) xs ! nat m" if "0 \<le> m" "m < num" for m using that by (simp add: nat_less_iff)
  have le: "cmp (el xs j) (el xs i) \<le> 0" if "0 \<le> i" "i \<le> j" "j \<le> num - 1" for i j
  proof (cases "i = j")
    case False
    have "cmp (take (nat num) xs ! nat j) (take (nat num) xs ! nat i) \<le> 0"
      by (rule sorted_wrt_nth_less [OF desc]) (use False that assms(3) in auto)
    then show ?thesis using that by (simp only: el [of i] el [of j])
  qed (simp add: cmp_refl [OF assms(1)])
  show "(BSEARCH_Do cmp xs num key \<noteq> None) = (\<exists>x\<in>set (take (nat num) xs). cmp key x = 0)"
  proof
    assume "BSEARCH_Do cmp xs num key \<noteq> None"
    then obtain m where "0 \<le> m" "m < num" "cmp key (el xs m) = 0" using sound by blast
    moreover have "take (nat num) xs ! nat m \<in> set (take (nat num) xs)" by (rule nth_mem) (use calculation assms(3) in auto)
    ultimately show "\<exists>x\<in>set (take (nat num) xs). cmp key x = 0" by (intro bexI) (simp_all only: el)
  next
    assume "\<exists>x\<in>set (take (nat num) xs). cmp key x = 0"
    then obtain i where i: "i < length (take (nat num) xs)" "cmp key (take (nat num) xs ! i) = 0" by (auto simp: in_set_conv_nth)
    then show "BSEARCH_Do cmp xs num key \<noteq> None"
      unfolding BSEARCH_Do_def
      by (intro bsearch_loop_descending [OF assms(1), of 0 "num - 1" xs "int i"]) (use le in auto)
  qed
qed

theorem BSEARCH_Do_finds_witness:
  "BSEARCH_Do (\<lambda>a b. int a - int b) [1, 2, 3] 3 1 = None \<and> BSEARCH_Do (\<lambda>a b. int a - int b) [3, 2, 1] 3 1 \<noteq> None"
proof
  note t = BSEARCH_Do_finds [OF cmp_order_diff [of int], of 3]
  have n: "nat 3 = Suc (Suc (Suc 0))" by simp
  show "BSEARCH_Do (\<lambda>a b. int a - int b) [1, 2, 3] 3 1 = None"
    using conjunct2 [OF conjunct2 [OF t [of "[1, 2, 3]" 1]]] by (simp add: n)
  show "BSEARCH_Do (\<lambda>a b. int a - int b) [3, 2, 1] 3 1 \<noteq> None"
    using conjunct1 [OF conjunct2 [OF t [of "[3, 2, 1]" 1]]] by (simp add: n del: not_None_eq)
qed

end
