(* ===== verification/Vector.thy ===== *)
theory Vector
  imports QSort
begin

text \<open>
  The growing array of elements of a fixed size, \<^verbatim>\<open>vector/vector_utl.c\<close>, and its use for integers,
  \<^verbatim>\<open>dynamic_array/dynamic_array_int.c\<close>. An element is its list of bytes; the memory block is the list of the elements that fit
  into it, with whatever bytes the allocator left behind the elements in use.
\<close>

section \<open>State\<close>

type_synonym elem = "UCHAR list"

record vector =
  varray :: "elem list option"
  count :: UINT
  vsize :: UINT
  ele_size :: UINT
  resize_factor :: UINT
  vsorted :: bool

record vector_param =
  p_ele_size :: UINT
  p_resize_factor :: UINT
  p_init_size :: UINT

definition VECTOR_DEFAULT_RESIZE_FACTOR :: UINT where
  "VECTOR_DEFAULT_RESIZE_FACTOR = 50"

text \<open>\<open>alloc\<close> is \<^verbatim>\<open>MemCap_Malloc\<close>: the block for a number of bytes, or nothing.\<close>

definition vector_make_room :: "(UINT \<Rightarrow> elem list option) \<Rightarrow> vector \<Rightarrow> UINT \<Rightarrow> bs_status \<times> vector" where
  "vector_make_room alloc vec sz =
     (if vsize vec \<ge> sz then (BS_OK, vec)
      else
        (let new_size = sz * (100 + resize_factor vec) div 100;
             bytes = new_size * ele_size vec
         in case alloc bytes of
              None \<Rightarrow> (BS_NO_MEMORY, vec)
            | Some new_array \<Rightarrow>
                (let new_array =
                       (case varray vec of
                          None \<Rightarrow> new_array
                        | Some old \<Rightarrow>
                            (let copied = unat (count vec * ele_size vec) div unat (ele_size vec)
                             in take copied old @ drop copied new_array))
                 in (BS_OK, vec\<lparr>varray := Some new_array, vsize := new_size\<rparr>))))"

definition zero_vector :: vector where
  "zero_vector = \<lparr>varray = None, count = 0, vsize = 0, ele_size = 0, resize_factor = 0, vsorted = False\<rparr>"

definition VECTOR_Finit :: "vector \<Rightarrow> vector" where
  "VECTOR_Finit vec = zero_vector"

definition VECTOR_Init :: "(UINT \<Rightarrow> elem list option) \<Rightarrow> vector_param \<Rightarrow> bs_status \<times> vector" where
  "VECTOR_Init alloc p =
     (let vec = zero_vector\<lparr>ele_size := p_ele_size p,
            resize_factor := (if p_resize_factor p \<noteq> 0 then p_resize_factor p else VECTOR_DEFAULT_RESIZE_FACTOR)\<rparr>
      in case vector_make_room alloc vec (p_init_size p) of
           (ret, vec) \<Rightarrow> if ret \<noteq> BS_OK then (BS_NO_MEMORY, VECTOR_Finit vec) else (BS_OK, vec))"

definition VECTOR_Create :: "bool \<Rightarrow> (UINT \<Rightarrow> elem list option) \<Rightarrow> vector_param \<Rightarrow> vector option" where
  "VECTOR_Create alloc_vec alloc p =
     (if \<not> alloc_vec then None
      else case VECTOR_Init alloc p of (ret, vec) \<Rightarrow> if ret \<noteq> BS_OK then None else Some vec)"

section \<open>Adding and removing\<close>

definition VECTOR_AddBySize :: "(UINT \<Rightarrow> elem list option) \<Rightarrow> vector \<Rightarrow> UCHAR list \<Rightarrow> bs_status \<times> vector" where
  "VECTOR_AddBySize alloc vec val =
     (if unat (ele_size vec) < length val then (BS_OUT_OF_RANGE, vec)
      else
        (case vector_make_room alloc vec (count vec + 1) of
           (ret, vec) \<Rightarrow>
             if ret \<noteq> BS_OK then (ret, vec)
             else
               (let node = val @ replicate (unat (ele_size vec) - length val) 0
                in (BS_OK, vec\<lparr>varray := map_option (\<lambda>a. a[unat (count vec) := node]) (varray vec),
                     count := count vec + 1, vsorted := False\<rparr>))))"

definition VECTOR_Add :: "(UINT \<Rightarrow> elem list option) \<Rightarrow> vector \<Rightarrow> elem \<Rightarrow> bs_status \<times> vector" where
  "VECTOR_Add alloc vec val = VECTOR_AddBySize alloc vec (take (unat (ele_size vec)) val)"

definition VECTOR_AddN :: "(UINT \<Rightarrow> elem list option) \<Rightarrow> vector \<Rightarrow> elem list \<Rightarrow> UINT \<Rightarrow> bs_status \<times> vector" where
  "VECTOR_AddN alloc vec vals num =
     (case vector_make_room alloc vec (count vec + num) of
        (ret, vec) \<Rightarrow>
          if ret \<noteq> BS_OK then (BS_ERR, vec)
          else
            (let c = unat (count vec);
                 n = unat (ele_size vec * num) div unat (ele_size vec)
             in (BS_OK, vec\<lparr>varray := map_option (\<lambda>a. take c a @ take n vals @ drop (c + n) a) (varray vec),
                  count := count vec + num, vsorted := False\<rparr>)))"

text \<open>The two vectors are different objects; appending a vector to itself is not represented.\<close>

definition VECTOR_Append :: "(UINT \<Rightarrow> elem list option) \<Rightarrow> vector option \<Rightarrow> vector option \<Rightarrow> bs_status \<times> vector option" where
  "VECTOR_Append alloc vec_dst vec_src =
     (case (vec_dst, vec_src) of
        (Some d, Some s) \<Rightarrow>
          (case VECTOR_AddN alloc d (case varray s of None \<Rightarrow> [] | Some a \<Rightarrow> a) (count s) of (ret, d) \<Rightarrow> (ret, Some d))
      | _ \<Rightarrow> (BS_BAD_PARA, vec_dst))"

definition VECTOR_Remove :: "vector \<Rightarrow> UINT \<Rightarrow> vector" where
  "VECTOR_Remove vec pos =
     (if pos \<ge> count vec then vec
      else if pos = count vec - 1 then vec\<lparr>count := count vec - 1\<rparr>
      else
        (let p = unat pos;
             n = unat (ele_size vec * (count vec - pos - 1)) div unat (ele_size vec)
         in vec\<lparr>varray := map_option (\<lambda>a. take p a @ take n (drop (p + 1) a) @ drop (p + n) a) (varray vec),
              count := count vec - 1\<rparr>))"

section \<open>Sorting and searching\<close>

abbreviation vector_elems :: "vector \<Rightarrow> elem list" where
  "vector_elems vec \<equiv> (case varray vec of None \<Rightarrow> [] | Some a \<Rightarrow> a)"

definition VECTOR_Sort :: "(elem \<Rightarrow> elem \<Rightarrow> int) \<Rightarrow> vector \<Rightarrow> vector option" where
  "VECTOR_Sort cmp vec =
     (case QSORT_Do cmp (vector_elems vec) (sint (count vec)) (sint (ele_size vec)) of
        None \<Rightarrow> None
      | Some a \<Rightarrow> Some (vec\<lparr>varray := map_option (\<lambda>_. a) (varray vec), vsorted := True\<rparr>))"

function find_slow_loop :: "(elem \<Rightarrow> elem \<Rightarrow> int) \<Rightarrow> elem list \<Rightarrow> nat \<Rightarrow> elem \<Rightarrow> nat \<Rightarrow> int" where
  "find_slow_loop cmp a n value pos =
     (if pos < n then (if cmp (a ! pos) value = 0 then int pos else find_slow_loop cmp a n value (pos + 1)) else - 1)"
  by pat_completeness auto
termination by (relation "measure (\<lambda>(cmp, a, n, value, pos). n - pos)") auto

declare find_slow_loop.simps [simp del]

definition vector_find_slow :: "vector \<Rightarrow> elem \<Rightarrow> (elem \<Rightarrow> elem \<Rightarrow> int) \<Rightarrow> int" where
  "vector_find_slow vec value cmp = find_slow_loop cmp (vector_elems vec) (unat (count vec)) value 0"

definition vector_find_fast :: "vector \<Rightarrow> elem \<Rightarrow> (elem \<Rightarrow> elem \<Rightarrow> int) \<Rightarrow> int" where
  "vector_find_fast vec value cmp =
     (case BSEARCH_Do cmp (vector_elems vec) (sint (count vec)) value of None \<Rightarrow> - 1 | Some node \<Rightarrow> node)"

definition VECTOR_Find :: "vector \<Rightarrow> elem \<Rightarrow> (elem \<Rightarrow> elem \<Rightarrow> int) \<Rightarrow> int" where
  "VECTOR_Find vec value cmp = (if vsorted vec then vector_find_fast vec value cmp else vector_find_slow vec value cmp)"

definition VECTOR_Delete :: "vector \<Rightarrow> elem \<Rightarrow> (elem \<Rightarrow> elem \<Rightarrow> int) \<Rightarrow> vector" where
  "VECTOR_Delete vec value cmp =
     (let pos = VECTOR_Find vec value cmp in if pos < 0 then vec else VECTOR_Remove vec (of_int pos))"

definition VECTOR_Get :: "vector \<Rightarrow> int \<Rightarrow> elem option" where
  "VECTOR_Get vec idx =
     (if idx < 0 \<or> (of_int idx :: UINT) \<ge> count vec then None else Some (vector_elems vec ! nat idx))"

definition VECTOR_Copy :: "vector \<Rightarrow> int \<Rightarrow> bs_status \<times> elem option" where
  "VECTOR_Copy vec idx =
     (if idx < 0 \<or> (of_int idx :: UINT) \<ge> count vec then (BS_ERR, None) else (BS_OK, Some (vector_elems vec ! nat idx)))"

definition VECTOR_Count :: "vector option \<Rightarrow> UINT" where
  "VECTOR_Count vec = (case vec of None \<Rightarrow> 0 | Some vec \<Rightarrow> count vec)"

section \<open>Integers\<close>

text \<open>An integer in memory: four bytes, the low one first.\<close>

definition int_bytes :: "UINT \<Rightarrow> elem" where
  "int_bytes w = [ucast w, ucast (drop_bit 8 w), ucast (drop_bit 16 w), ucast (drop_bit 24 w)]"

definition bytes_int :: "elem \<Rightarrow> UINT" where
  "bytes_int bs = ucast (bs ! 0) OR push_bit 8 (ucast (bs ! 1)) OR push_bit 16 (ucast (bs ! 2)) OR push_bit 24 (ucast (bs ! 3))"

text \<open>The subtraction of \<^verbatim>\<open>int\<close> is taken to wrap.\<close>

definition dynamic_array_int_compare :: "elem \<Rightarrow> elem \<Rightarrow> int" where
  "dynamic_array_int_compare a b = sint (bytes_int a - bytes_int b)"

definition VectorInt_Create :: "bool \<Rightarrow> (UINT \<Rightarrow> elem list option) \<Rightarrow> int \<Rightarrow> vector option" where
  "VectorInt_Create alloc_vec alloc isize =
     VECTOR_Create alloc_vec alloc \<lparr>p_ele_size = 4, p_resize_factor = 32, p_init_size = (if isize \<noteq> 0 then of_int isize else 16)\<rparr>"

definition VectorInt_Append :: "(UINT \<Rightarrow> elem list option) \<Rightarrow> vector \<Rightarrow> UINT \<Rightarrow> bs_status \<times> vector" where
  "VectorInt_Append alloc vec val = VECTOR_Add alloc vec (int_bytes val)"

definition VectorInt_Get :: "vector \<Rightarrow> int \<Rightarrow> UINT" where
  "VectorInt_Get vec pos = (case VECTOR_Copy vec pos of (ret, None) \<Rightarrow> 0 | (ret, Some bs) \<Rightarrow> bytes_int bs)"

definition VectorInt_IsExist :: "vector \<Rightarrow> UINT \<Rightarrow> bool" where
  "VectorInt_IsExist vec val = (\<not> VECTOR_Find vec (int_bytes val) dynamic_array_int_compare < 0)"

definition VectorInt_Sort :: "vector \<Rightarrow> vector option" where
  "VectorInt_Sort vec = VECTOR_Sort dynamic_array_int_compare vec"

definition VectorInt_DelByVal :: "vector \<Rightarrow> UINT \<Rightarrow> int \<times> vector" where
  "VectorInt_DelByVal vec val =
     (let index = VECTOR_Find vec (int_bytes val) dynamic_array_int_compare
      in if index < 0 then (index, vec) else (0, VECTOR_Remove vec (of_int index)))"

section \<open>The invariant\<close>

definition vec_list :: "vector \<Rightarrow> elem list" where
  "vec_list v = take (unat (count v)) (vector_elems v)"

text \<open>The block holds \<open>vsize\<close> elements, all of those in use have the element size.\<close>

definition vec_ok :: "vector \<Rightarrow> bool" where
  [inv_defs]: "vec_ok v \<longleftrightarrow> ele_size v \<noteq> 0 \<and> count v \<le> vsize v \<and> unat (vsize v) \<le> length (vector_elems v) \<and>
     unat (vsize v) * unat (ele_size v) < 2 ^ 32 \<and> (\<forall>x\<in>set (vec_list v). length x = unat (ele_size v))"

text \<open>The allocator returns a block at least as long as asked for; \<open>room\<close> is the bound under which the sizes do not wrap.\<close>

definition mallocs :: "(UINT \<Rightarrow> elem list option) \<Rightarrow> UINT \<Rightarrow> bool" where
  "mallocs alloc es \<longleftrightarrow> (\<forall>bytes m. alloc bytes = Some m \<longrightarrow> unat bytes div unat es \<le> length m)"

definition room :: "UINT \<Rightarrow> UINT \<Rightarrow> nat \<Rightarrow> bool" where
  "room es rf k \<longleftrightarrow> k * (100 + unat rf) < 2 ^ 32 \<and> k * (100 + unat rf) div 100 * unat es < 2 ^ 32"

lemma unat_mult_small: "unat a * unat b < 2 ^ LENGTH('a) \<Longrightarrow> unat (a * b :: 'a :: len word) = unat a * unat b"
  by (simp add: unat_word_ariths(2))

lemma vec_okD:
  assumes "vec_ok v"
  shows "0 < unat (ele_size v)" "unat (count v) \<le> unat (vsize v)" "unat (vsize v) \<le> length (vector_elems v)"
    "unat (count v) * unat (ele_size v) < 2 ^ 32" "length (vec_list v) = unat (count v)"
    "varray v = None \<Longrightarrow> vsize v = 0 \<and> count v = 0"
proof -
  show "0 < unat (ele_size v)" using assms by (simp add: vec_ok_def unat_gt_0)
  show c: "unat (count v) \<le> unat (vsize v)" using assms by (simp add: vec_ok_def word_le_nat_alt)
  show s: "unat (vsize v) \<le> length (vector_elems v)" using assms by (simp add: vec_ok_def)
  have "unat (count v) * unat (ele_size v) \<le> unat (vsize v) * unat (ele_size v)" using c by (rule mult_le_mono1)
  then show "unat (count v) * unat (ele_size v) < 2 ^ 32" using assms unfolding vec_ok_def by linarith
  show "length (vec_list v) = unat (count v)" using c s by (simp add: vec_list_def)
  show "varray v = None \<Longrightarrow> vsize v = 0 \<and> count v = 0" using c s by simp
qed

lemma make_room_ok:
  assumes ok: "vec_ok v" and al: "mallocs alloc (ele_size v)" and r: "room (ele_size v) (resize_factor v) (unat sz)"
    and res: "vector_make_room alloc v sz = (ret, v')"
  shows "vec_ok v' \<and> vec_list v' = vec_list v \<and> v' = v\<lparr>varray := varray v', vsize := vsize v'\<rparr> \<and>
    (if ret = BS_OK then sz \<le> vsize v' else ret = BS_NO_MEMORY \<and> v' = v)"
proof (cases "vsize v \<ge> sz \<or> alloc (sz * (100 + resize_factor v) div 100 * ele_size v) = None")
  case True
  then show ?thesis using res ok by (auto simp: vector_make_room_def Let_def split: if_splits)
next
  case False
  note d = vec_okD [OF ok]
  obtain m where m: "alloc (sz * (100 + resize_factor v) div 100 * ele_size v) = Some m" using False by auto
  define new_size where "new_size = sz * (100 + resize_factor v) div 100"
  have sz: "0 < unat sz" using False by (cases "sz = 0") (auto simp: unat_gt_0)
  have "100 + unat (resize_factor v) \<le> unat sz * (100 + unat (resize_factor v))" using sz by simp
  then have "100 + unat (resize_factor v) < 2 ^ 32" using r unfolding room_def by linarith
  then have rf: "unat (100 + resize_factor v) = 100 + unat (resize_factor v)" by (simp add: unat_word_ariths(1))
  have "unat (sz * (100 + resize_factor v)) = unat sz * (100 + unat (resize_factor v))"
    using r by (simp add: unat_word_ariths(2) rf room_def)
  then have ns: "unat new_size = unat sz * (100 + unat (resize_factor v)) div 100" by (simp add: new_size_def unat_div)
  have "unat sz * 100 \<le> unat sz * (100 + unat (resize_factor v))" by simp
  then have ge: "unat sz \<le> unat new_size" unfolding ns by (simp add: less_eq_div_iff_mult_less_eq)
  have nb: "unat new_size * unat (ele_size v) < 2 ^ 32" using r unfolding room_def ns by simp
  have bytes: "unat (new_size * ele_size v) div unat (ele_size v) = unat new_size"
    using nb d(1) by (simp add: unat_mult_small)
  have lm: "unat new_size \<le> length m" using al m bytes unfolding mallocs_def new_size_def [symmetric] by metis
  have copied: "unat (count v * ele_size v) div unat (ele_size v) = unat (count v)"
    using d(1,4) by (simp add: unat_mult_small)
  define b where "b = (case varray v of None \<Rightarrow> m | Some old \<Rightarrow> take (unat (count v)) old @ drop (unat (count v)) m)"
  have e: "ret = BS_OK" "v' = v\<lparr>varray := Some b, vsize := new_size\<rparr>"
    using res False m unfolding vector_make_room_def Let_def copied by (auto simp: new_size_def b_def)
  have lt: "unat (count v) < unat sz" using False d(2) by (simp add: word_le_nat_alt)
  have lb: "unat new_size \<le> length b" using lm d(2,3) lt ge by (auto simp: b_def split: option.splits)
  have tb: "take (unat (count v)) b = vec_list v"
    using d(2,3) d(6) by (cases "varray v") (auto simp: b_def vec_list_def)
  have "vec_list v' = vec_list v" using tb by (simp add: e vec_list_def)
  moreover have "vec_ok v'"
    using ok tb lb nb lt ge by (simp add: vec_ok_def e vec_list_def [of v'] word_le_nat_alt)
      (simp add: vec_list_def e)
  ultimately show ?thesis using e ge by (simp add: word_le_nat_alt)
qed

section \<open>The operations on the list\<close>

lemma VECTOR_Init_ok:
  assumes al: "mallocs alloc (p_ele_size p)" and es: "p_ele_size p \<noteq> 0"
    and r: "\<forall>rf. rf = p_resize_factor p \<or> rf = VECTOR_DEFAULT_RESIZE_FACTOR \<longrightarrow> room (p_ele_size p) rf (unat (p_init_size p))"
    and res: "VECTOR_Init alloc p = (ret, v)"
  shows "if ret = BS_OK then vec_ok v \<and> vec_list v = [] \<and> \<not> vsorted v \<and> ele_size v = p_ele_size p \<and> p_init_size p \<le> vsize v
    else ret = BS_NO_MEMORY \<and> v = zero_vector"
proof -
  define rf where "rf = (if p_resize_factor p \<noteq> 0 then p_resize_factor p else VECTOR_DEFAULT_RESIZE_FACTOR)"
  define v0 where "v0 = zero_vector\<lparr>ele_size := p_ele_size p, resize_factor := rf\<rparr>"
  obtain r1 v1 where m: "vector_make_room alloc v0 (p_init_size p) = (r1, v1)" by (metis surj_pair)
  have ok0: "vec_ok v0" using es by (simp add: vec_ok_def v0_def zero_vector_def vec_list_def)
  have "vec_ok v1 \<and> vec_list v1 = vec_list v0 \<and> v1 = v0\<lparr>varray := varray v1, vsize := vsize v1\<rparr> \<and>
      (if r1 = BS_OK then p_init_size p \<le> vsize v1 else r1 = BS_NO_MEMORY \<and> v1 = v0)"
    by (rule make_room_ok [OF ok0 _ _ m]) (use al r in \<open>auto simp: v0_def rf_def\<close>)
  moreover have "ret = (if r1 \<noteq> BS_OK then BS_NO_MEMORY else BS_OK)" "v = (if r1 \<noteq> BS_OK then zero_vector else v1)"
    using res m by (auto simp: VECTOR_Init_def Let_def VECTOR_Finit_def v0_def rf_def split: if_splits)
  moreover have "vec_list v0 = []" "\<not> vsorted v0" "ele_size v0 = p_ele_size p" by (simp_all add: v0_def vec_list_def zero_vector_def)
  ultimately show ?thesis
    by (smt (verit) vector.select_convs vector.surjective vector.update_convs)
qed

lemma vec_ok_upd:
  assumes "vec_ok v" "length xs = unat n" "unat n \<le> unat (vsize v)" "unat (vsize v) \<le> length a" "take (unat n) a = xs"
    "\<forall>x\<in>set xs. length x = unat (ele_size v)"
  shows "vec_ok (v\<lparr>varray := Some a, count := n, vsorted := s\<rparr>)" "vec_list (v\<lparr>varray := Some a, count := n, vsorted := s\<rparr>) = xs"
  using assms by (simp_all add: vec_ok_def vec_list_def word_le_nat_alt)

lemma AddN_ok:
  assumes ok: "vec_ok v" and al: "mallocs alloc (ele_size v)"
    and n: "unat (count v) + unat num < 2 ^ 32" "room (ele_size v) (resize_factor v) (unat (count v) + unat num)"
    and vals: "unat num \<le> length vals" "\<forall>x\<in>set (take (unat num) vals). length x = unat (ele_size v)"
    and res: "VECTOR_AddN alloc v vals num = (ret, v')"
  shows "vec_ok v' \<and> ele_size v' = ele_size v \<and> resize_factor v' = resize_factor v \<and>
    (if ret = BS_OK then vec_list v' = vec_list v @ take (unat num) vals \<and> \<not> vsorted v' else ret = BS_ERR \<and> v' = v)"
proof -
  have c: "unat (count v + num) = unat (count v) + unat num" by (rule unat_add_word) (use n(1) in simp)
  obtain r1 v1 where m: "vector_make_room alloc v (count v + num) = (r1, v1)" by (metis surj_pair)
  have g: "vec_ok v1 \<and> vec_list v1 = vec_list v \<and> v1 = v\<lparr>varray := varray v1, vsize := vsize v1\<rparr> \<and>
      (if r1 = BS_OK then count v + num \<le> vsize v1 else r1 = BS_NO_MEMORY \<and> v1 = v)"
    by (rule make_room_ok [OF ok al _ m]) (use n(2) c in simp)
  show ?thesis
  proof (cases "r1 = BS_OK")
    case False
    then show ?thesis using res m g ok by (auto simp: VECTOR_AddN_def split: if_splits)
  next
    case True
    have same: "count v1 = count v" "ele_size v1 = ele_size v" "resize_factor v1 = resize_factor v"
      using g by (metis vector.ext_inject vector.surjective vector.update_convs)+
    have d: "vec_ok v1" "vec_list v1 = vec_list v" "unat (count v) + unat num \<le> unat (vsize v1)"
      using g True c by (simp_all add: word_le_nat_alt)
    have "(unat (count v) + unat num) * unat (ele_size v) \<le> unat (vsize v1) * unat (ele_size v1)"
      using d(3) same by (simp add: mult_le_mono1)
    moreover have "unat (vsize v1) * unat (ele_size v1) < 2 ^ 32" using d(1) by (simp only: vec_ok_def)
    moreover have "unat (ele_size v) * unat num \<le> (unat (count v) + unat num) * unat (ele_size v)" by (simp add: distrib_right)
    ultimately have "unat (ele_size v) * unat num < 2 ^ 32" by linarith
    then have k: "unat (ele_size v * num) div unat (ele_size v) = unat num"
      using vec_okD(1) [OF ok] by (simp add: unat_mult_small)
    let ?c = "unat (count v)" and ?n = "unat num"
    have e: "ret = BS_OK" "v' = v1\<lparr>varray := map_option (\<lambda>a. take ?c a @ take ?n vals @ drop (?c + ?n) a) (varray v1),
        count := count v + num, vsorted := False\<rparr>"
      using res m True unfolding VECTOR_AddN_def by (auto simp: Let_def same k)
    show ?thesis
    proof (cases "varray v1")
      case None
      then have z: "count v = 0" "num = 0" "vec_list v = []" using vec_okD(6) [OF d(1)] d(2,3) same by (auto simp: vec_list_def)
      have "v' = v1\<lparr>vsorted := False\<rparr>" using e(2) None z same by (cases v1) simp
      then show ?thesis using d(1) e(1) z None same by (simp add: vec_ok_def vec_list_def)
    next
      case (Some a)
      have a: "unat (vsize v1) \<le> length a" "take ?c a = vec_list v" using vec_okD(3) [OF d(1)] Some d(2) same by (simp_all add: vec_list_def)
      let ?a = "take ?c a @ take ?n vals @ drop (?c + ?n) a"
      have v': "v' = v1\<lparr>varray := Some ?a, count := count v + num, vsorted := False\<rparr>" using e(2) Some by simp
      have p: "length (vec_list v @ take ?n vals) = unat (count v + num)" "unat (count v + num) \<le> unat (vsize v1)"
        "unat (vsize v1) \<le> length ?a" "take (unat (count v + num)) ?a = vec_list v @ take ?n vals"
        "\<forall>x\<in>set (vec_list v @ take ?n vals). length x = unat (ele_size v1)"
        using a d(3) vals vec_okD(5) [OF ok] ok same by (auto simp: c vec_ok_def)
      show ?thesis using vec_ok_upd [OF d(1) p, of False] e(1) same by (simp add: v')
    qed
  qed
qed

lemma AddBySize_ok:
  assumes ok: "vec_ok v" and al: "mallocs alloc (ele_size v)"
    and n: "unat (count v) + 1 < 2 ^ 32" "room (ele_size v) (resize_factor v) (unat (count v) + 1)"
    and res: "VECTOR_AddBySize alloc v val = (ret, v')"
  shows "vec_ok v' \<and> ele_size v' = ele_size v \<and> resize_factor v' = resize_factor v \<and>
    (if unat (ele_size v) < length val then ret = BS_OUT_OF_RANGE \<and> v' = v
     else if ret = BS_OK then vec_list v' = vec_list v @ [val @ replicate (unat (ele_size v) - length val) 0] \<and> \<not> vsorted v'
     else ret = BS_NO_MEMORY \<and> v' = v)"
proof (cases "unat (ele_size v) < length val")
  case True
  then show ?thesis using res ok by (simp add: VECTOR_AddBySize_def)
next
  case len: False
  have c: "unat (count v + 1) = unat (count v) + 1" using unat_add_word [of "count v" 1] n(1) by simp
  obtain r1 v1 where m: "vector_make_room alloc v (count v + 1) = (r1, v1)" by (metis surj_pair)
  have g: "vec_ok v1 \<and> vec_list v1 = vec_list v \<and> v1 = v\<lparr>varray := varray v1, vsize := vsize v1\<rparr> \<and>
      (if r1 = BS_OK then count v + 1 \<le> vsize v1 else r1 = BS_NO_MEMORY \<and> v1 = v)"
    by (rule make_room_ok [OF ok al _ m]) (use n(2) c in simp)
  show ?thesis
  proof (cases "r1 = BS_OK")
    case False
    then show ?thesis using res m g ok len by (auto simp: VECTOR_AddBySize_def split: if_splits)
  next
    case True
    have same: "count v1 = count v" "ele_size v1 = ele_size v" "resize_factor v1 = resize_factor v"
      using g by (metis vector.ext_inject vector.surjective vector.update_convs)+
    have d: "vec_ok v1" "vec_list v1 = vec_list v" "unat (count v) + 1 \<le> unat (vsize v1)"
      using g True c by (simp_all add: word_le_nat_alt)
    then obtain a where Some: "varray v1 = Some a" using vec_okD(6) [OF d(1)] by (cases "varray v1") auto
    have a: "unat (vsize v1) \<le> length a" "take (unat (count v)) a = vec_list v"
      using vec_okD(3) [OF d(1)] Some d(2) same by (simp_all add: vec_list_def)
    let ?node = "val @ replicate (unat (ele_size v) - length val) 0"
    have e: "ret = BS_OK" "v' = v1\<lparr>varray := Some (a[unat (count v) := ?node]), count := count v + 1, vsorted := False\<rparr>"
      using res m True len Some by (auto simp: VECTOR_AddBySize_def same)
    let ?a = "a[unat (count v) := ?node]"
    have lt: "unat (count v) < length a" using d(3) a(1) by simp
    have p: "length (vec_list v @ [?node]) = unat (count v + 1)" "unat (count v + 1) \<le> unat (vsize v1)"
      "unat (vsize v1) \<le> length ?a" "take (unat (count v + 1)) ?a = vec_list v @ [?node]"
      "\<forall>x\<in>set (vec_list v @ [?node]). length x = unat (ele_size v1)"
      using a d(3) vec_okD(5) [OF ok] ok same len lt unfolding c
      by (simp_all add: take_Suc_conv_app_nth vec_ok_def)
    show ?thesis using vec_ok_upd [OF d(1) p, of False] e(1) same len by (simp add: e(2))
  qed
qed

lemma Remove_ok:
  assumes ok: "vec_ok v"
  shows "vec_ok (VECTOR_Remove v pos) \<and> ele_size (VECTOR_Remove v pos) = ele_size v \<and> vsorted (VECTOR_Remove v pos) = vsorted v \<and>
    vec_list (VECTOR_Remove v pos) = take (unat pos) (vec_list v) @ drop (unat pos + 1) (vec_list v)"
proof -
  note d = vec_okD [OF ok]
  consider "pos \<ge> count v" | "pos < count v" "pos = count v - 1" | "pos < count v" "pos \<noteq> count v - 1" by force
  then show ?thesis
  proof cases
    case 1
    then show ?thesis using ok d(5) by (simp add: VECTOR_Remove_def word_le_nat_alt)
  next
    case 2
    then have "count v \<noteq> 0" by (cases "count v = 0") simp_all
    then have u: "unat (count v - 1) = unat (count v) - 1" "unat pos = unat (count v) - 1" "0 < unat (count v)"
      using 2(2) unat_dec_word [of "count v"] by (simp_all add: unat_gt_0)
    have r: "VECTOR_Remove v pos = v\<lparr>count := count v - 1\<rparr>" using 2 by (simp add: VECTOR_Remove_def)
    have l: "vec_list (v\<lparr>count := count v - 1\<rparr>) = take (unat pos) (vec_list v)"
      using u by (simp add: vec_list_def min_def)
    have "vec_ok (v\<lparr>count := count v - 1\<rparr>)"
      using ok u d(2) set_take_subset [of "unat pos" "vec_list v"] unfolding vec_ok_def l by (auto simp: word_le_nat_alt)
    then show ?thesis using r l u d(5) by simp
  next
    case 3
    then have lt: "unat pos < unat (count v)" by (simp add: word_less_nat_alt)
    then have u: "unat (count v - 1) = unat (count v) - 1" by (intro unat_dec_word) auto
    have "unat pos \<noteq> unat (count v) - 1" using 3(2) u by (metis word_unat_eq_iff)
    have cp: "unat (count v - pos) = unat (count v) - unat pos" using 3(1) by (simp add: unat_sub order_less_imp_le)
    then have n: "unat (count v - pos - 1) = unat (count v) - unat pos - 1" using lt by (subst unat_dec_word) auto
    have "unat (count v - pos - 1) * unat (ele_size v) \<le> unat (count v) * unat (ele_size v)" unfolding n by (intro mult_le_mono1) simp
    then have "unat (ele_size v) * unat (count v - pos - 1) < 2 ^ 32" using d(4) by (subst mult.commute) (rule order_le_less_trans)
    then have k: "unat (ele_size v * (count v - pos - 1)) div unat (ele_size v) = unat (count v) - unat pos - 1"
      using d(1) by (simp add: unat_mult_small n)
    obtain a where a: "varray v = Some a" using d(6) lt by (cases "varray v") auto
    have la: "unat (count v) \<le> length a" "take (unat (count v)) a = vec_list v" "unat (vsize v) \<le> length a"
      using d(2,3) a by (simp_all add: vec_list_def)
    let ?p = "unat pos" and ?n = "unat (count v) - unat pos - 1"
    let ?a = "take ?p a @ take ?n (drop (?p + 1) a) @ drop (?p + ?n) a"
    let ?xs = "take ?p (vec_list v) @ drop (?p + 1) (vec_list v)"
    have r: "VECTOR_Remove v pos = v\<lparr>varray := Some ?a, count := count v - 1, vsorted := vsorted v\<rparr>"
      using 3 a by (simp add: VECTOR_Remove_def Let_def k)
    have A: "length (take ?p a) = ?p" and B: "length (take ?n (drop (?p + 1) a)) = ?n" and C: "unat (count v - 1) = ?p + ?n"
      using lt la(1) u by auto
    have xs: "?xs = take ?p a @ take ?n (drop (?p + 1) a)"
      using lt by (simp add: la(2) [symmetric] drop_take min_def)
    have p1: "length ?xs = unat (count v - 1)" unfolding xs using A B C by simp
    have p2: "unat (count v - 1) \<le> unat (vsize v)" using C lt d(2) by simp
    have p3: "unat (vsize v) \<le> length ?a" using A B la(3) lt la(1) by simp
    have p4: "take (unat (count v - 1)) ?a = ?xs" unfolding xs C by (simp only: append_assoc [symmetric] A B length_append take_append) simp
    have p5: "\<forall>x\<in>set ?xs. length x = unat (ele_size v)"
      using ok set_take_subset [of ?p "vec_list v"] set_drop_subset [of "?p + 1" "vec_list v"] by (auto simp: vec_ok_def)
    note p = p1 p2 p3 p4 p5
    show ?thesis using vec_ok_upd [OF ok p, of "vsorted v"] by (simp add: r)
  qed
qed

definition find_pos :: "(elem \<Rightarrow> bool) \<Rightarrow> elem list \<Rightarrow> int \<Rightarrow> bool" where
  "find_pos P xs i \<longleftrightarrow> (if i < 0 then i = - 1 \<and> (\<forall>x\<in>set xs. \<not> P x)
     else nat i < length xs \<and> P (xs ! nat i) \<and> (\<forall>j<nat i. \<not> P (xs ! j)))"

lemma find_slow_ok:
  assumes "n \<le> length a" "\<forall>j<pos. cmp (a ! j) val \<noteq> 0"
  shows "find_pos (\<lambda>x. cmp x val = 0) (take n a) (find_slow_loop cmp a n val pos)"
  using assms
proof (induction cmp a n val pos rule: find_slow_loop.induct)
  case (1 cmp a n val pos)
  consider (no) "\<not> pos < n" | (hit) "pos < n" "cmp (a ! pos) val = 0" | (miss) "pos < n" "cmp (a ! pos) val \<noteq> 0" by blast
  then show ?case
  proof cases
    case no
    then show ?thesis using "1.prems" by (subst find_slow_loop.simps) (auto simp: find_pos_def in_set_conv_nth)
  next
    case hit
    then show ?thesis using "1.prems" by (subst find_slow_loop.simps) (auto simp: find_pos_def)
  next
    case miss
    then have "\<forall>j<pos + 1. cmp (a ! j) val \<noteq> 0" using "1.prems"(2) by (auto simp: less_Suc_eq)
    note IH = "1.IH" [OF miss "1.prems"(1) this]
    then show ?thesis using miss by (subst find_slow_loop.simps) simp
  qed
qed

lemma Find_ok:
  assumes "vec_ok v" "\<not> vsorted v"
  shows "find_pos (\<lambda>x. cmp x value = 0) (vec_list v) (VECTOR_Find v value cmp)"
  using find_slow_ok [of "unat (count v)" "vector_elems v" 0] vec_okD(2,3) [OF assms(1)] assms(2)
  by (simp add: VECTOR_Find_def vector_find_slow_def vec_list_def)

lemma Get_ok:
  assumes "vec_ok v" "idx < 2 ^ 31"
  shows "VECTOR_Get v idx = (if 0 \<le> idx \<and> idx < int (length (vec_list v)) then Some (vec_list v ! nat idx) else None)"
proof (cases "idx < 0")
  case False
  then have "(of_int idx :: UINT) = of_nat (nat idx)" by simp
  moreover have "unat (of_nat (nat idx) :: UINT) = nat idx" by (rule unat_of_nat_small) (use assms(2) False in simp)
  ultimately have i: "unat (of_int idx :: UINT) = nat idx" by simp
  have "nat idx < unat (count v) \<longleftrightarrow> idx < int (unat (count v))" using False by (intro nat_less_iff) simp
  then show ?thesis using False i vec_okD(5) [OF assms(1)] by (auto simp: VECTOR_Get_def word_le_nat_alt not_le vec_list_def)
qed (simp add: VECTOR_Get_def)

lemma sint_small: "unat (w :: 32 word) < 2 ^ 31 \<Longrightarrow> sint w = uint w"
proof -
  assume "unat w < 2 ^ 31"
  then have "uint w < 2 ^ 31" by (metis nat_less_numeral_power_cancel_iff unat_eq_nat_uint)
  moreover have "0 \<le> uint w" by simp
  ultimately have "signed_take_bit 31 (uint w) = uint w" by (intro signed_take_bit_int_eq_self) (auto intro: order_trans [of _ 0])
  then show "sint w = uint w" by (simp add: sint_uint)
qed

lemma Sort_ok:
  assumes ok: "vec_ok v" and ord: "cmp_order cmp" and sz: "unat (count v) * unat (ele_size v) < 2 ^ 31" "unat (ele_size v) < 2 ^ 31"
  shows "\<exists>v'. VECTOR_Sort cmp v = Some v' \<and> vec_ok v' \<and> vsorted v' \<and> mset (vec_list v') = mset (vec_list v) \<and>
    sorted_cmp cmp (vec_list v') \<and> count v' = count v \<and> ele_size v' = ele_size v"
proof -
  note d = vec_okD [OF ok]
  have "unat (count v) \<le> unat (count v) * unat (ele_size v)" using d(1) by simp
  then have "unat (count v) < 2 ^ 31" using sz(1) by (rule order_le_less_trans)
  then have s: "sint (count v) = int (unat (count v))" "sint (ele_size v) = int (unat (ele_size v))"
    using sz(2) by (simp_all add: sint_small)
  have "int (unat (count v)) * int (unat (ele_size v)) = int (unat (count v) * unat (ele_size v))" by simp
  also have "\<dots> < 2 ^ 31" using sz(1) by (metis of_nat_less_iff of_nat_numeral of_nat_power)
  finally have "int (unat (count v)) * int (unat (ele_size v)) < 2 ^ 31" .
  moreover have "0 < sint (ele_size v)" using d(1) unfolding s by (metis of_nat_0_less_iff)
  moreover have "sint (count v) \<le> int (length (vector_elems v))" using d(2,3) unfolding s by (metis of_nat_le_iff order_trans)
  ultimately obtain a where a: "QSORT_Do cmp (vector_elems v) (sint (count v)) (sint (ele_size v)) = Some a"
    "mset a = mset (vector_elems v)" "sorted_cmp cmp (take (unat (count v)) a)"
    "drop (unat (count v)) a = drop (unat (count v)) (vector_elems v)"
    using QSORT_Do_ok [OF ord, of "sint (ele_size v)" "sint (count v)" "vector_elems v"] unfolding s by auto
  have len: "length a = length (vector_elems v)" using a(2) by (metis size_mset)
  have "mset (take (unat (count v)) a) + mset (drop (unat (count v)) a) =
      mset (take (unat (count v)) (vector_elems v)) + mset (drop (unat (count v)) (vector_elems v))"
    using a(2) by (metis append_take_drop_id mset_append)
  then have m: "mset (take (unat (count v)) a) = mset (vec_list v)" using a(4) by (simp add: vec_list_def)
  show ?thesis
  proof (cases "varray v")
    case None
    then show ?thesis using a ok m by (auto simp: VECTOR_Sort_def vec_ok_def vec_list_def)
  next
    case (Some b)
    let ?xs = "take (unat (count v)) a"
    have p: "length ?xs = unat (count v)" "unat (count v) \<le> unat (vsize v)" "unat (vsize v) \<le> length a" "?xs = ?xs"
      "\<forall>x\<in>set ?xs. length x = unat (ele_size v)"
      using d(2,3) len ok m by (simp_all add: vec_ok_def mset_eq_setD [OF m])
    show ?thesis using vec_ok_upd [OF ok p, of True] a Some m by (simp add: VECTOR_Sort_def)
  qed
qed

lemma room_mono: "room es rf n \<Longrightarrow> m \<le> n \<Longrightarrow> room es rf m"
proof -
  assume r: "room es rf n" and le: "m \<le> n"
  have a: "m * (100 + unat rf) \<le> n * (100 + unat rf)" using le by (rule mult_le_mono1)
  have "m * (100 + unat rf) div 100 * unat es \<le> n * (100 + unat rf) div 100 * unat es" by (intro mult_le_mono1 div_le_mono le)
  with a show "room es rf m" using r unfolding room_def by (meson order_le_less_trans)
qed

lemma Find_sorted:
  assumes ok: "vec_ok v" and ord: "cmp_order cmp" and s: "vsorted v" "sorted_cmp cmp (vec_list v)" and c: "unat (count v) < 2 ^ 31"
  shows "VECTOR_Find v val cmp =
    (if vec_list v \<noteq> [] \<and> cmp val (vec_list v ! ((length (vec_list v) - 1) div 2)) = 0 then int ((length (vec_list v) - 1) div 2) else - 1)"
proof -
  note d = vec_okD [OF ok]
  have n: "sint (count v) = int (unat (count v))" using c by (simp add: sint_small)
  show ?thesis
  proof (cases "count v = 0")
    case True
    then show ?thesis
      using s(1) d(5) by (simp add: VECTOR_Find_def vector_find_fast_def BSEARCH_Do_def bsearch_loop.simps)
  next
    case False
    then have c0: "0 < unat (count v)" by (simp add: unat_gt_0)
    define mid where "mid = (unat (count v) - 1) div 2"
    have mid: "(int (unat (count v)) - 1) div 2 = int mid" using c0 by (simp add: mid_def of_nat_diff zdiv_int)
    have "vec_list v ! mid = vector_elems v ! mid" using c0 by (simp add: vec_list_def mid_def)
    moreover have "BSEARCH_Do cmp (vector_elems v) (int (unat (count v))) val =
        (if cmp val (vector_elems v ! mid) = 0 then Some (int mid) else None)"
      using BSEARCH_Do_ascending [OF ord, of "int (unat (count v))" "vector_elems v" val] s(2) c0 d(2,3) unfolding mid
      by (simp add: vec_list_def del: of_nat_unat)
    moreover have "vec_list v \<noteq> []" using d(5) c0 by auto
    ultimately show ?thesis using s(1) d(5) by (simp add: VECTOR_Find_def vector_find_fast_def n mid_def del: of_nat_unat)
  qed
qed

lemma Delete_ok:
  assumes ok: "vec_ok v" and s: "\<not> vsorted v"
  shows "vec_ok (VECTOR_Delete v val cmp) \<and> vec_list (VECTOR_Delete v val cmp) = del_first (\<lambda>x. cmp x val = 0) (vec_list v)"
proof -
  note d = vec_okD [OF ok]
  define i where "i = VECTOR_Find v val cmp"
  have f: "find_pos (\<lambda>x. cmp x val = 0) (vec_list v) i" unfolding i_def by (rule Find_ok [OF ok s])
  have del: "(\<forall>x\<in>set xs. \<not> P x) \<Longrightarrow> del_first P xs = xs" for P and xs :: "elem list" by (induction xs) auto
  have at: "k < length xs \<Longrightarrow> P (xs ! k) \<Longrightarrow> \<forall>j<k. \<not> P (xs ! j) \<Longrightarrow> del_first P xs = take k xs @ drop (k + 1) xs" for P k and xs :: "elem list"
  proof (induction xs arbitrary: k)
    case (Cons x xs)
    show ?case
    proof (cases k)
      case (Suc j)
      then show ?thesis using Cons.IH [of j] Cons.prems by fastforce
    qed (use Cons.prems in simp)
  qed simp
  show ?thesis
  proof (cases "i < 0")
    case True
    then show ?thesis using f ok del by (simp add: VECTOR_Delete_def i_def [symmetric] find_pos_def)
  next
    case False
    then have k: "nat i < length (vec_list v)" using f by (simp add: find_pos_def)
    then have "nat i < 2 ^ 32" using d(5) unat_lt2p [of "count v"] by simp
    then have "unat (of_nat (nat i) :: UINT) = nat i" by (intro unat_of_nat_small) simp
    then have u: "unat (of_int i :: UINT) = nat i" using False by simp
    have "del_first (\<lambda>x. cmp x val = 0) (vec_list v) = take (nat i) (vec_list v) @ drop (nat i + 1) (vec_list v)"
      by (rule at) (use f False in \<open>auto simp: find_pos_def\<close>)
    then show ?thesis using Remove_ok [OF ok, of "of_int i"] False u by (simp add: VECTOR_Delete_def i_def [symmetric])
  qed
qed

section \<open>Vectors of integers\<close>

lemma bytes_int_bytes [simp]: "bytes_int (int_bytes w) = w"
proof (rule bit_word_eqI)
  fix n :: nat
  assume "n < LENGTH(32)"
  then have "n < 8 \<or> (8 \<le> n \<and> n < 16) \<or> (16 \<le> n \<and> n < 24) \<or> (24 \<le> n \<and> n < 32)" by auto
  then show "bit (bytes_int (int_bytes w)) n = bit w n"
    by (elim disjE) (auto simp: bytes_int_def int_bytes_def bit_simps)
qed

lemma compare_zero: "dynamic_array_int_compare a b = 0 \<longleftrightarrow> bytes_int a = bytes_int b"
  by (simp add: dynamic_array_int_compare_def)

theorem VectorInt_is_list:
  assumes "vec_ok v" "\<not> vsorted v"
  shows "VectorInt_IsExist v w \<longleftrightarrow> w \<in> bytes_int ` set (vec_list v)"
    and "map bytes_int (vec_list (snd (VectorInt_DelByVal v w))) = remove1 w (map bytes_int (vec_list v))"
proof -
  have f: "find_pos (\<lambda>x. bytes_int x = w) (vec_list v) (VECTOR_Find v (int_bytes w) dynamic_array_int_compare)"
    using Find_ok [OF assms, of dynamic_array_int_compare "int_bytes w"] by (simp add: compare_zero)
  then show "VectorInt_IsExist v w \<longleftrightarrow> w \<in> bytes_int ` set (vec_list v)"
    unfolding VectorInt_IsExist_def find_pos_def
    by (cases "VECTOR_Find v (int_bytes w) dynamic_array_int_compare < 0") (auto intro: rev_image_eqI [OF nth_mem])
  have "map bytes_int (del_first (\<lambda>x. bytes_int x = w) xs) = remove1 w (map bytes_int xs)" for xs
    by (induction xs) auto
  moreover have "snd (VectorInt_DelByVal v w) = VECTOR_Delete v (int_bytes w) dynamic_array_int_compare"
    by (simp add: VectorInt_DelByVal_def VECTOR_Delete_def Let_def)
  ultimately show "map bytes_int (vec_list (snd (VectorInt_DelByVal v w))) = remove1 w (map bytes_int (vec_list v))"
    using Delete_ok [OF assms, of "int_bytes w" dynamic_array_int_compare] by (simp add: compare_zero)
qed

section \<open>Properties\<close>


text \<open>C38: Sorting a vector returns and sorts it; but afterwards, because the binary search turns the wrong way, the search
  finds a value only if it is the one in the middle, and otherwise reports it as missing.\<close>

theorem VECTOR_Find_after_Sort:
  assumes "vec_ok v" "cmp_order cmp" "unat (count v) * unat (ele_size v) < 2 ^ 31" "unat (ele_size v) < 2 ^ 31"
  shows "\<exists>w. VECTOR_Sort cmp v = Some w \<and> vec_ok w \<and> mset (vec_list w) = mset (vec_list v) \<and> sorted_cmp cmp (vec_list w) \<and>
    VECTOR_Find w val cmp =
      (if vec_list w \<noteq> [] \<and> cmp val (vec_list w ! ((length (vec_list w) - 1) div 2)) = 0 then int ((length (vec_list w) - 1) div 2) else - 1)"
proof -
  obtain w where w: "VECTOR_Sort cmp v = Some w" "vec_ok w" "vsorted w" "mset (vec_list w) = mset (vec_list v)"
    "sorted_cmp cmp (vec_list w)" "count w = count v" using Sort_ok [OF assms] by blast
  have "unat (count v) \<le> unat (count v) * unat (ele_size v)" using vec_okD(1) [OF assms(1)] by simp
  then have "unat (count w) < 2 ^ 31" using assms(3) unfolding w(6) by (rule order_le_less_trans)
  then show ?thesis using Find_sorted [OF w(2) assms(2) w(3,5)] w by blast
qed

text \<open>Three elements of one byte: after the sort the least of them is not found.\<close>

definition vector_example :: vector where
  "vector_example = \<lparr>varray = Some [[3], [1], [2], [0]], count = 3, vsize = 4, ele_size = 1, resize_factor = 50, vsorted = False\<rparr>"

abbreviation byte_cmp :: "elem \<Rightarrow> elem \<Rightarrow> int" where
  "byte_cmp \<equiv> \<lambda>a b. uint (hd a) - uint (hd b)"

lemma vector_example_ok: "vec_ok vector_example" "vec_list vector_example = [[3], [1], [2]]"
  by (simp_all add: vec_ok_def vector_example_def vec_list_def)


lemma vector_example_Sort:
  "VECTOR_Sort byte_cmp vector_example = Some (vector_example\<lparr>varray := Some [[1], [2], [3], [0]], vsorted := True\<rparr>)"
  by (simp add: VECTOR_Sort_def vector_example_def QSORT_Do_def qsort_loop.simps [of _ _ _ 0] qsort_piece_def CUTOFF_def
      qsort_shortsort.simps max_loop.simps cmp_at_def inb_def MEM_Swap_def)

theorem VECTOR_Find_after_Sort_witness:
  "\<exists>w. VECTOR_Sort byte_cmp vector_example = Some w \<and> vec_list w = [[1], [2], [3]] \<and> VECTOR_Find w [1] byte_cmp = - 1"
  using VECTOR_Find_after_Sort [OF vector_example_ok(1) cmp_order_diff [of "\<lambda>a. uint (hd a)"], of "[1]"] vector_example_Sort
  by (simp add: vector_example_def vec_list_def)

end
