(* ===== verification/IpAcl.thy ===== *)
theory IpAcl
  imports ListRule
begin

text \<open>
  Access lists for IP packets, \<^verbatim>\<open>acl/ip_acl.c\<close>, on the table of rule lists. A rule of a list is the address of its
  descriptor in the heap \<open>rules\<close>, because the caller changes descriptors through pointers and the free callback releases them.
  Address and port pools are addresses with a reference count; whether a pool contains an address or a port
  (\<^verbatim>\<open>AddressPool_MatchIpPool\<close>, \<^verbatim>\<open>PortPool_MatchPortPool\<close>) is asked through the arguments \<open>ip_pool\<close> and \<open>port_pool\<close>.
\<close>

section \<open>Rules\<close>

type_synonym rule_ptr = nat
type_synonym pool_ptr = nat

definition IPACL_KEY_SIP :: UINT where "IPACL_KEY_SIP = 0x01"
definition IPACL_KEY_DIP :: UINT where "IPACL_KEY_DIP = push_bit 1 0x01"
definition IPACL_KEY_SPORT :: UINT where "IPACL_KEY_SPORT = push_bit 2 0x01"
definition IPACL_KEY_DPORT :: UINT where "IPACL_KEY_DPORT = push_bit 3 0x01"
definition IPACL_KEY_PROTO :: UINT where "IPACL_KEY_PROTO = push_bit 4 0x01"
definition IPACL_KEY_POOL_SIP :: UINT where "IPACL_KEY_POOL_SIP = push_bit 5 0x01"
definition IPACL_KEY_POOL_DIP :: UINT where "IPACL_KEY_POOL_DIP = push_bit 6 0x01"
definition IPACL_KEY_POOL_SPORT :: UINT where "IPACL_KEY_POOL_SPORT = push_bit 7 0x01"
definition IPACL_KEY_POOL_DPORT :: UINT where "IPACL_KEY_POOL_DPORT = push_bit 8 0x01"

record ipacl_ipkey =
  uiIP :: UINT
  uiWildcard :: UINT

record ipacl_portkey =
  usBegin :: USHORT
  usEnd :: USHORT

record ipacl_single_key =
  stSIP :: ipacl_ipkey
  stDIP :: ipacl_ipkey
  stSPort :: ipacl_portkey
  stDPort :: ipacl_portkey

record ipacl_pool_key =
  pstSipPool :: "pool_ptr option"
  pstDipPool :: "pool_ptr option"
  pstSportPool :: "pool_ptr option"
  pstDportPool :: "pool_ptr option"

record ipacl_key =
  pools :: ipacl_pool_key
  single :: ipacl_single_key

record ipacl_rule_cfg =
  bEnable :: bool
  enAction :: bs_action
  cfg_uiKeyMask :: UINT
  stKey :: ipacl_key
  cfg_ucProto :: UCHAR

record ipacl_rule =
  stRuleCfg :: ipacl_rule_cfg
  ulMatchCount :: UINT64
  uiLatestMatchTime :: UINT

record ipacl_match_info =
  uiKeyMask :: UINT
  uiSIP :: UINT
  uiDIP :: UINT
  usSPort :: USHORT
  usDPort :: USHORT
  ucProto :: UCHAR
  acl_id :: UINT

record ipacl =
  ctrl :: "rule_ptr list_rule_ctrl"
  rules :: "rule_ptr \<rightharpoonup> ipacl_rule"
  pool_ref :: "pool_ptr \<Rightarrow> UINT"

definition zero_rule :: ipacl_rule where
  "zero_rule =
     (let ip = \<lparr>uiIP = 0, uiWildcard = 0\<rparr>; port = \<lparr>usBegin = 0, usEnd = 0\<rparr>
      in \<lparr>stRuleCfg = \<lparr>bEnable = False, enAction = BS_ACTION_UNDEF, cfg_uiKeyMask = 0,
            stKey = \<lparr>pools = \<lparr>pstSipPool = None, pstDipPool = None, pstSportPool = None, pstDportPool = None\<rparr>,
              single = \<lparr>stSIP = ip, stDIP = ip, stSPort = port, stDPort = port\<rparr>\<rparr>, cfg_ucProto = 0\<rparr>,
          ulMatchCount = 0, uiLatestMatchTime = 0\<rparr>)"

section \<open>References to pools\<close>

definition ref_add :: "UINT \<Rightarrow> pool_ptr option \<Rightarrow> (pool_ptr \<Rightarrow> UINT) \<Rightarrow> (pool_ptr \<Rightarrow> UINT)" where
  "ref_add d pool refs = (case pool of None \<Rightarrow> refs | Some p \<Rightarrow> refs(p := refs p + d))"

definition ipacl_inc_pool_ref :: "ipacl_pool_key \<Rightarrow> (pool_ptr \<Rightarrow> UINT) \<Rightarrow> (pool_ptr \<Rightarrow> UINT)" where
  "ipacl_inc_pool_ref k refs =
     (let refs = ref_add 1 (pstSipPool k) refs;
          refs = ref_add 1 (pstDipPool k) refs;
          refs = ref_add 1 (pstSportPool k) refs
      in ref_add 1 (pstDportPool k) refs)"

definition ipacl_dec_pool_ref :: "ipacl_pool_key \<Rightarrow> (pool_ptr \<Rightarrow> UINT) \<Rightarrow> (pool_ptr \<Rightarrow> UINT)" where
  "ipacl_dec_pool_ref k refs =
     (let refs = ref_add (- 1) (pstSipPool k) refs;
          refs = ref_add (- 1) (pstDipPool k) refs;
          refs = ref_add (- 1) (pstSportPool k) refs
      in ref_add (- 1) (pstDportPool k) refs)"

section \<open>Matching\<close>

definition keys_both :: "ipacl_match_info \<Rightarrow> ipacl_rule_cfg \<Rightarrow> UINT \<Rightarrow> bool" where
  "keys_both mi cfg key \<longleftrightarrow> uiKeyMask mi AND key \<noteq> 0 \<and> cfg_uiKeyMask cfg AND key \<noteq> 0"

definition ipacl_match_by_rule ::
  "(pool_ptr option \<Rightarrow> UINT \<Rightarrow> bool) \<Rightarrow> (pool_ptr option \<Rightarrow> USHORT \<Rightarrow> bool) \<Rightarrow> ipacl_match_info \<Rightarrow> ipacl_rule \<Rightarrow> bool \<times> ipacl_rule" where
  "ipacl_match_by_rule ip_pool port_pool mi rule =
     (let cfg = stRuleCfg rule; key = single (stKey cfg); pl = pools (stKey cfg)
      in if \<not> bEnable cfg then (False, rule)
         else if keys_both mi cfg IPACL_KEY_PROTO \<and> ucProto mi \<noteq> cfg_ucProto cfg then (False, rule)
         else if keys_both mi cfg IPACL_KEY_SIP \<and>
             (let mask = uiWildcard (stSIP key) in uiSIP mi AND mask \<noteq> uiIP (stSIP key) AND mask) then (False, rule)
         else if keys_both mi cfg IPACL_KEY_DIP \<and>
             (let mask = uiWildcard (stDIP key) in uiDIP mi AND mask \<noteq> uiIP (stDIP key) AND mask) then (False, rule)
         else if keys_both mi cfg IPACL_KEY_SPORT \<and> (usSPort mi < usBegin (stSPort key) \<or> usSPort mi > usEnd (stSPort key))
         then (False, rule)
         else if keys_both mi cfg IPACL_KEY_DPORT \<and> (usDPort mi < usBegin (stDPort key) \<or> usDPort mi > usEnd (stDPort key))
         then (False, rule)
         else if keys_both mi cfg IPACL_KEY_POOL_SIP \<and> \<not> ip_pool (pstSipPool pl) (uiSIP mi) then (False, rule)
         else if keys_both mi cfg IPACL_KEY_POOL_DIP \<and> \<not> ip_pool (pstDipPool pl) (uiDIP mi) then (False, rule)
         else if keys_both mi cfg IPACL_KEY_POOL_SPORT \<and> \<not> port_pool (pstSportPool pl) (usSPort mi) then (False, rule)
         else if keys_both mi cfg IPACL_KEY_POOL_DPORT \<and> \<not> port_pool (pstDportPool pl) (usDPort mi) then (False, rule)
         else (True, rule\<lparr>ulMatchCount := ulMatchCount rule + 1\<rparr>))"

text \<open>The state of the scan: the descriptors and \<^verbatim>\<open>_IPACL_MATCH_DESC_S\<close>.\<close>

record ipacl_match_desc =
  m_rules :: "rule_ptr \<rightharpoonup> ipacl_rule"
  pstMatchInfo :: ipacl_match_info
  bIsMatch :: bool
  m_enAction :: bs_action

definition ipacl_match_rule ::
  "(pool_ptr option \<Rightarrow> UINT \<Rightarrow> bool) \<Rightarrow> (pool_ptr option \<Rightarrow> USHORT \<Rightarrow> bool) \<Rightarrow> rule_ptr rule_node \<Rightarrow> ipacl_match_desc \<Rightarrow>
   bool \<times> ipacl_match_desc" where
  "ipacl_match_rule ip_pool port_pool n s =
     (case ipacl_match_by_rule ip_pool port_pool (pstMatchInfo s) (the (m_rules s (rule_data n))) of
        (is_match, rule) \<Rightarrow>
          if is_match
          then (False, s\<lparr>m_rules := (m_rules s)(rule_data n \<mapsto> rule), bIsMatch := True, m_enAction := enAction (stRuleCfg rule),
                  pstMatchInfo := (pstMatchInfo s)\<lparr>acl_id := uiRuleID n\<rparr>\<rparr>)
          else (True, s))"

definition IPACL_Match ::
  "(pool_ptr option \<Rightarrow> UINT \<Rightarrow> bool) \<Rightarrow> (pool_ptr option \<Rightarrow> USHORT \<Rightarrow> bool) \<Rightarrow> ipacl \<Rightarrow> UINT \<Rightarrow> ipacl_match_info \<Rightarrow>
   bs_action \<times> ipacl \<times> ipacl_match_info" where
  "IPACL_Match ip_pool port_pool acl lid mi =
     (let s = \<lparr>m_rules = rules acl, pstMatchInfo = mi, bIsMatch = False, m_enAction = BS_ACTION_UNDEF\<rparr>;
          s = (case ListRule_GetListByID (ctrl acl) lid of
                 None \<Rightarrow> s
               | Some l \<Rightarrow>
                   (let r = the (lists (ctrl acl) l);
                        s = RuleList_ScanRule (stRuleList r) (Some (ipacl_match_rule ip_pool port_pool)) s
                    in if \<not> bIsMatch s then s\<lparr>m_enAction := default_action r\<rparr> else s))
      in (m_enAction s, acl\<lparr>rules := m_rules s\<rparr>, pstMatchInfo s))"

section \<open>Lists and rules\<close>

definition ipacl_delete_rule :: "rule_ptr rule_node \<Rightarrow> ipacl \<Rightarrow> ipacl" where
  "ipacl_delete_rule n acl =
     acl\<lparr>pool_ref := ipacl_dec_pool_ref (pools (stKey (stRuleCfg (the (rules acl (rule_data n)))))) (pool_ref acl),
       rules := (rules acl)(rule_data n := None)\<rparr>"

definition IPACL_Create ::
  "(UINT \<Rightarrow> nat) \<Rightarrow> (UINT \<Rightarrow> (nap_hash_node \<Rightarrow> UINT) \<Rightarrow> nap_hash_node hash option) \<Rightarrow> bool \<Rightarrow> bool \<Rightarrow> bool \<Rightarrow>
   (pool_ptr \<Rightarrow> UINT) \<Rightarrow> ipacl option" where
  "IPACL_Create needbits create alloc_ctrl alloc_head alloc_bitmap refs =
     map_option (\<lambda>c. \<lparr>ctrl = c, rules = Map.empty, pool_ref = refs\<rparr>)
       (ListRule_Create needbits create alloc_ctrl alloc_head alloc_bitmap Map.empty)"

definition IPACL_Reset :: "ipacl \<Rightarrow> ipacl option" where
  "IPACL_Reset acl =
     map_option (\<lambda>(freed, c). fold ipacl_delete_rule freed (acl\<lparr>ctrl := c\<rparr>)) (ListRule_Reset (ctrl acl) True)"

text \<open>The list table is gone after a destroy; what stays is the memory of lists and descriptors and the counts of the pools.\<close>

definition IPACL_Destroy :: "ipacl \<Rightarrow> ((list_ptr \<rightharpoonup> rule_ptr list_rule_list) \<times> (rule_ptr \<rightharpoonup> ipacl_rule) \<times> (pool_ptr \<Rightarrow> UINT)) option" where
  "IPACL_Destroy acl =
     map_option (\<lambda>(freed, ls). let acl = fold ipacl_delete_rule freed acl in (ls, rules acl, pool_ref acl)) (ListRule_Destroy (ctrl acl) True)"

definition IPACL_CreateList :: "ipacl \<Rightarrow> string \<Rightarrow> list_ptr option \<Rightarrow> list_ptr option \<times> ipacl" where
  "IPACL_CreateList acl name mem = (case ListRule_CreateList (ctrl acl) name mem of (l, c) \<Rightarrow> (l, acl\<lparr>ctrl := c\<rparr>))"

definition IPACL_DestroyList :: "ipacl \<Rightarrow> list_ptr option \<Rightarrow> ipacl" where
  "IPACL_DestroyList acl l =
     (case ListRule_DestroyList (ctrl acl) l True of (freed, c) \<Rightarrow> fold ipacl_delete_rule freed (acl\<lparr>ctrl := c\<rparr>))"

definition IPACL_AddList :: "ipacl \<Rightarrow> string \<Rightarrow> list_ptr option \<Rightarrow> nap_ptr option \<Rightarrow> bool list \<Rightarrow> UINT \<times> ipacl" where
  "IPACL_AddList acl name list_mem mem al =
     (case ListRule_AddList (ctrl acl) name list_mem mem al of (lid, c) \<Rightarrow> (lid, acl\<lparr>ctrl := c\<rparr>))"

definition IPACL_DelList :: "ipacl \<Rightarrow> UINT \<Rightarrow> ipacl" where
  "IPACL_DelList acl lid =
     (case ListRule_DelListID (ctrl acl) lid True of (freed, c) \<Rightarrow> fold ipacl_delete_rule freed (acl\<lparr>ctrl := c\<rparr>))"

definition IPACL_ReplaceList :: "ipacl \<Rightarrow> UINT \<Rightarrow> list_ptr \<Rightarrow> bs_status \<times> ipacl" where
  "IPACL_ReplaceList acl lid l =
     (case ListRule_ReplaceList (ctrl acl) lid True l of
        (ret, freed, c) \<Rightarrow> (ret, fold ipacl_delete_rule freed (acl\<lparr>ctrl := c\<rparr>)))"

definition IPACL_AddListRef :: "ipacl \<Rightarrow> UINT \<Rightarrow> bs_status \<times> ipacl" where
  "IPACL_AddListRef acl lid = (case ListRule_IncListRef (ctrl acl) lid of (ret, c) \<Rightarrow> (ret, acl\<lparr>ctrl := c\<rparr>))"

definition IPACL_DelListRef :: "ipacl \<Rightarrow> UINT \<Rightarrow> bs_status \<times> ipacl" where
  "IPACL_DelListRef acl lid = (case ListRule_DecListRef (ctrl acl) lid of (ret, c) \<Rightarrow> (ret, acl\<lparr>ctrl := c\<rparr>))"

definition IPACL_ListGetRef :: "ipacl \<Rightarrow> UINT \<Rightarrow> UINT" where
  "IPACL_ListGetRef acl lid = ListRule_GetListRef (ctrl acl) lid"

definition IPACL_GetListByName :: "ipacl \<Rightarrow> string \<Rightarrow> UINT option" where
  "IPACL_GetListByName acl name = ListRule_GetListIDByName (ctrl acl) name"

definition IPACL_GetNextListID :: "ipacl \<Rightarrow> UINT \<Rightarrow> UINT" where
  "IPACL_GetNextListID acl lid = ListRule_GetNextListID (ctrl acl) lid"

definition IPACL_GetListNameByID :: "ipacl \<Rightarrow> UINT \<Rightarrow> string option" where
  "IPACL_GetListNameByID acl lid = ListRule_GetListNameByID (ctrl acl) lid"

definition IPACL_GetDefaultActionByID :: "ipacl \<Rightarrow> UINT \<Rightarrow> bs_action" where
  "IPACL_GetDefaultActionByID acl lid = ListRule_GetDefaultActionByID (ctrl acl) lid"

definition IPACL_SetDefaultActionByID :: "ipacl \<Rightarrow> UINT \<Rightarrow> bs_action \<Rightarrow> bs_status \<times> ipacl" where
  "IPACL_SetDefaultActionByID acl lid action =
     (case ListRule_SetDefaultActionByID (ctrl acl) lid action of (ret, c) \<Rightarrow> (ret, acl\<lparr>ctrl := c\<rparr>))"

text \<open>The test of the allocation is inverted in the code: a block that was allocated is dropped, and without one the null
  pointer is dereferenced, here \<open>None\<close>.\<close>

definition IPACL_AddRule2List :: "ipacl \<Rightarrow> list_ptr \<Rightarrow> UINT \<Rightarrow> ipacl_rule_cfg \<Rightarrow> rule_ptr option \<Rightarrow> (bs_status \<times> ipacl) option" where
  "IPACL_AddRule2List acl l rid cfg mem =
     (case mem of
        Some p \<Rightarrow> Some (BS_NO_MEMORY, acl\<lparr>rules := (rules acl)(p \<mapsto> zero_rule)\<rparr>)
      | None \<Rightarrow> None)"

definition IPACL_AddRule :: "ipacl \<Rightarrow> UINT \<Rightarrow> UINT \<Rightarrow> ipacl_rule_cfg \<Rightarrow> rule_ptr option \<Rightarrow> bs_status \<times> ipacl" where
  "IPACL_AddRule acl lid rid cfg mem =
     (case mem of
        None \<Rightarrow> (BS_NO_MEMORY, acl)
      | Some p \<Rightarrow>
          (let acl = acl\<lparr>rules := (rules acl)(p \<mapsto> zero_rule\<lparr>stRuleCfg := cfg\<rparr>)\<rparr>
           in case ListRule_AddRule (ctrl acl) lid rid \<lparr>uiRuleID = 0, rule_data = p\<rparr> of
                (ret, c) \<Rightarrow>
                  let acl = acl\<lparr>ctrl := c\<rparr>
                  in if BS_OK \<noteq> ret then (ret, acl\<lparr>rules := (rules acl)(p := None)\<rparr>)
                     else (BS_OK, acl\<lparr>pool_ref := ipacl_inc_pool_ref (pools (stKey cfg)) (pool_ref acl)\<rparr>)))"

definition IPACL_DelRule :: "ipacl \<Rightarrow> UINT \<Rightarrow> UINT \<Rightarrow> ipacl" where
  "IPACL_DelRule acl lid rid =
     (case ListRule_DelRule (ctrl acl) lid rid of
        (None, c) \<Rightarrow> acl\<lparr>ctrl := c\<rparr>
      | (Some n, c) \<Rightarrow>
          (let acl = acl\<lparr>ctrl := c\<rparr>
           in acl\<lparr>pool_ref := ipacl_dec_pool_ref (pools (stKey (stRuleCfg (the (rules acl (rule_data n)))))) (pool_ref acl),
                rules := (rules acl)(rule_data n := None)\<rparr>))"

definition IPACL_GetRule :: "ipacl \<Rightarrow> UINT \<Rightarrow> UINT \<Rightarrow> rule_ptr option" where
  "IPACL_GetRule acl lid rid = map_option rule_data (ListRule_GetRule (ctrl acl) lid rid)"

definition IPACL_GetLastRuleID :: "ipacl \<Rightarrow> UINT \<Rightarrow> UINT" where
  "IPACL_GetLastRuleID acl lid = (case ListRule_GetLastRule (ctrl acl) lid of None \<Rightarrow> 0 | Some n \<Rightarrow> uiRuleID n)"

definition IPACL_UpdateRule :: "ipacl \<Rightarrow> rule_ptr \<Rightarrow> ipacl_rule_cfg \<Rightarrow> ipacl" where
  "IPACL_UpdateRule acl p cfg =
     (let rule = the (rules acl p);
          refs = ipacl_dec_pool_ref (pools (stKey (stRuleCfg rule))) (pool_ref acl);
          rule = rule\<lparr>stRuleCfg := cfg\<rparr>
      in acl\<lparr>rules := (rules acl)(p \<mapsto> rule), pool_ref := ipacl_inc_pool_ref (pools (stKey (stRuleCfg rule))) refs\<rparr>)"

definition IPACL_MoveRule :: "ipacl \<Rightarrow> UINT \<Rightarrow> UINT \<Rightarrow> UINT \<Rightarrow> bs_status \<times> ipacl" where
  "IPACL_MoveRule acl lid oid nid = (case ListRule_MoveRule (ctrl acl) lid oid nid of (ret, c) \<Rightarrow> (ret, acl\<lparr>ctrl := c\<rparr>))"

definition IPACL_RebaseID :: "ipacl \<Rightarrow> UINT \<Rightarrow> UINT \<Rightarrow> bs_status \<times> ipacl" where
  "IPACL_RebaseID acl lid step = (case ListRule_ResetID (ctrl acl) lid step of (ret, c) \<Rightarrow> (ret, acl\<lparr>ctrl := c\<rparr>))"

definition IPACL_IncreaseID :: "ipacl \<Rightarrow> UINT \<Rightarrow> UINT \<Rightarrow> UINT \<Rightarrow> UINT \<Rightarrow> bs_status \<times> ipacl" where
  "IPACL_IncreaseID acl lid s e step = (case ListRule_IncreaseID (ctrl acl) lid s e step of (ret, c) \<Rightarrow> (ret, acl\<lparr>ctrl := c\<rparr>))"

definition IPACL_GetNextRuleID :: "ipacl \<Rightarrow> UINT \<Rightarrow> UINT \<Rightarrow> UINT" where
  "IPACL_GetNextRuleID acl lid cur = (case ListRule_GetNextRule (ctrl acl) lid cur of None \<Rightarrow> 0 | Some n \<Rightarrow> uiRuleID n)"

definition IPACL_GetNextRule :: "ipacl \<Rightarrow> UINT \<Rightarrow> UINT \<Rightarrow> rule_ptr option" where
  "IPACL_GetNextRule acl lid cur = map_option rule_data (ListRule_GetNextRule (ctrl acl) lid cur)"

text \<open>The callback of a scan reads the identifier and the descriptor and says whether the scan goes on.\<close>

definition IPACL_ScanRule :: "ipacl \<Rightarrow> UINT \<Rightarrow> (UINT \<Rightarrow> ipacl_rule \<Rightarrow> 's \<Rightarrow> bool \<times> 's) option \<Rightarrow> 's \<Rightarrow> 's" where
  "IPACL_ScanRule acl lid pf s =
     (case ListRule_GetListByID (ctrl acl) lid of
        None \<Rightarrow> s
      | Some l \<Rightarrow>
          RuleList_ScanRule (stRuleList (the (lists (ctrl acl) l)))
            (Some (\<lambda>n s. case pf of None \<Rightarrow> (False, s) | Some f \<Rightarrow> f (uiRuleID n) (the (rules acl (rule_data n))) s)) s)"

section \<open>Counting references\<close>

definition uses :: "pool_ptr \<Rightarrow> ipacl_pool_key \<Rightarrow> nat" where
  "uses p k = (if pstSipPool k = Some p then 1 else 0) + (if pstDipPool k = Some p then 1 else 0) +
     (if pstSportPool k = Some p then 1 else 0) + (if pstDportPool k = Some p then 1 else 0)"

abbreviation rule_pools :: "ipacl_rule \<Rightarrow> ipacl_pool_key" where
  "rule_pools r \<equiv> pools (stKey (stRuleCfg r))"

lemma ref_add_at: "ref_add d pool refs p = refs p + (if pool = Some p then d else 0)"
  by (cases pool) (auto simp: ref_add_def)

lemma inc_pool_ref_at: "ipacl_inc_pool_ref k refs p = refs p + of_nat (uses p k)"
  by (simp add: ipacl_inc_pool_ref_def Let_def ref_add_at uses_def)

lemma dec_pool_ref_at: "ipacl_dec_pool_ref k refs p = refs p - of_nat (uses p k)"
  by (simp add: ipacl_dec_pool_ref_def Let_def ref_add_at uses_def)

definition uses_of :: "pool_ptr \<Rightarrow> ipacl_rule option \<Rightarrow> nat" where
  "uses_of p x = (case x of None \<Rightarrow> 0 | Some r \<Rightarrow> uses p (rule_pools r))"

lemma uses_of_simps [simp]: "uses_of p None = 0" "uses_of p (Some r) = uses p (rule_pools r)"
  by (simp_all add: uses_of_def)

definition heap_uses :: "pool_ptr \<Rightarrow> (rule_ptr \<rightharpoonup> ipacl_rule) \<Rightarrow> nat" where
  "heap_uses p f = (\<Sum>q\<in>dom f. uses p (rule_pools (the (f q))))"

lemma heap_uses_upd:
  assumes "finite (dom f)"
  shows "heap_uses p (f(q := x)) + uses_of p (f q) = heap_uses p f + uses_of p x"
proof -
  let ?A = "insert q (dom f)"
  have h: "heap_uses p g = (\<Sum>k\<in>?A. uses_of p (g k))" if "dom g \<subseteq> ?A" for g :: "rule_ptr \<rightharpoonup> ipacl_rule"
    unfolding heap_uses_def using assms that by (intro sum.mono_neutral_cong_left) (auto simp: domIff)
  have "heap_uses p (f(q := x)) = (\<Sum>k\<in>?A. uses_of p ((f(q := x)) k))" by (rule h) (auto split: if_splits)
  moreover have "heap_uses p f = (\<Sum>k\<in>?A. uses_of p (f k))" by (rule h) auto
  moreover have "(\<Sum>k\<in>?A - {q}. uses_of p ((f(q := x)) k)) = (\<Sum>k\<in>?A - {q}. uses_of p (f k))" by (rule sum.cong) simp_all
  ultimately show ?thesis using assms by (simp add: sum.remove [of ?A q])
qed

text \<open>The counts are those of the descriptors on the heap, on top of the counts \<open>base\<close> that others hold.\<close>

definition refs_ok :: "(pool_ptr \<Rightarrow> UINT) \<Rightarrow> (rule_ptr \<rightharpoonup> ipacl_rule) \<Rightarrow> (pool_ptr \<Rightarrow> UINT) \<Rightarrow> bool" where
  "refs_ok base f refs \<longleftrightarrow> finite (dom f) \<and> (\<forall>p. refs p = base p + of_nat (heap_uses p f))"

lemma refs_ok_upd:
  assumes "refs_ok base f refs" "\<forall>p. refs' p + of_nat (uses_of p (f q)) = refs p + of_nat (uses_of p x)"
  shows "refs_ok base (f(q := x)) refs'"
proof -
  have fin: "finite (dom f)" using assms(1) by (simp add: refs_ok_def)
  have "refs' p = base p + of_nat (heap_uses p (f(q := x)))" for p
  proof -
    have "(of_nat (heap_uses p (f(q := x))) :: UINT) + of_nat (uses_of p (f q)) = of_nat (heap_uses p f) + of_nat (uses_of p x)"
      using heap_uses_upd [OF fin, of p q x] by (metis of_nat_add)
    moreover have "refs' p + of_nat (uses_of p (f q)) = base p + of_nat (heap_uses p f) + of_nat (uses_of p x)"
      using assms by (simp add: refs_ok_def)
    ultimately have "refs' p + of_nat (uses_of p (f q)) = (base p + of_nat (heap_uses p (f(q := x)))) + of_nat (uses_of p (f q))"
      by (simp only: add.assoc)
    then show ?thesis by (simp only: add_right_cancel)
  qed
  then show ?thesis using fin by (simp add: refs_ok_def)
qed

section \<open>Rules of the table and descriptors\<close>

definition ptrs :: "(UINT \<rightharpoonup> rule_ptr list_rule_list) \<Rightarrow> rule_ptr multiset" where
  "ptrs T = image_mset rule_data (rules_of T)"

definition ptrs_at :: "rule_ptr list_rule_list option \<Rightarrow> rule_ptr multiset" where
  "ptrs_at x = image_mset rule_data (rules_at x)"

lemma ptrs_at_simps [simp]: "ptrs_at None = {#}" "ptrs_at (Some r) = mset (map rule_data (stRuleList r))"
  by (simp_all add: ptrs_at_def)

lemma ptrs_upd: "ptrs (T(u := x)) + ptrs_at (T u) = ptrs T + ptrs_at x"
  unfolding ptrs_def ptrs_at_def by (simp only: image_mset_union [symmetric] rules_of_upd)

lemma ptrs_upd_sub: "ptrs_at x \<subseteq># ptrs_at (T u) \<Longrightarrow> ptrs (T(u := x)) \<subseteq># ptrs T"
  using ptrs_upd [of T u x] by (metis mset_subset_eq_add_left subset_mset.add_le_cancel_right subset_mset.add_left_mono)

lemma ptrs_upd_same: "(\<forall>r. stRuleList (f r) = stRuleList r) \<Longrightarrow> ptrs (T(u := map_option f (T u))) = ptrs T"
  using ptrs_upd [of T u "map_option f (T u)"] by (cases "T u") auto

lemma Add_ptrs: "mset (map rule_data (RuleList_Add l rid r)) = add_mset (rule_data r) (mset (map rule_data l))"
  by (simp add: RuleList_Add_def Let_def)

lemma Del_ptrs:
  "mset (map rule_data l) = mset (map rule_data (snd (RuleList_Del l rid))) +
    (case fst (RuleList_Del l rid) of None \<Rightarrow> {#} | Some n \<Rightarrow> {#rule_data n#})"
  by (cases rule: RuleList_Del_cases [of l rid]) simp_all

lemma move_scan_ptrs: "mset (map rule_data (move_scan old nid l)) \<subseteq># add_mset (rule_data old) (mset (map rule_data l))"
proof (induction l)
  case (Cons r l)
  then show ?case by (auto simp: add_mset_commute)
qed simp

lemma Move_ptrs: "mset (map rule_data (snd (RuleList_MoveRule l oid nid))) \<subseteq># mset (map rule_data l)"
proof (cases rule: RuleList_Del_cases [of l oid])
  case none
  then show ?thesis by (simp add: RuleList_MoveRule_def)
next
  case (some ys r zs)
  have "mset (map rule_data (move_scan r nid (ys @ zs))) \<subseteq># mset (map rule_data l)"
    using move_scan_ptrs [of r nid "ys @ zs"] some(1) by simp
  moreover have "mset (map rule_data (ys @ zs @ [r\<lparr>uiRuleID := nid\<rparr>])) = mset (map rule_data l)" using some(1) by simp
  ultimately show ?thesis using some(4) by (simp add: RuleList_MoveRule_def)
qed

lemma Increase_ptrs: "map rule_data (snd (RuleList_IncreaseID l s e step)) = map rule_data l"
proof -
  have "map rule_data (increase_rev s e step l) = map rule_data l" for l :: "'r rule_list"
    by (induction l) (auto simp: Let_def)
  from this [of "rev l"] show ?thesis by (simp add: RuleList_IncreaseID_def rev_map [symmetric])
qed

lemma ResetID_ptrs: "map rule_data (snd (RuleList_ResetID l step)) = map rule_data l"
proof -
  have "map rule_data (reset_id_rev step l) = map rule_data l" for l :: "'r rule_list" by (induction l) auto
  from this [of "rev l"] show ?thesis by (simp add: RuleList_ResetID_def rev_map [symmetric])
qed

text \<open>Every rule of the table has a descriptor of its own.\<close>

definition acl_ok :: "(pool_ptr \<Rightarrow> UINT) \<Rightarrow> ipacl \<Rightarrow> rule_ptr multiset \<Rightarrow> bool" where
  [inv_defs]: "acl_ok base acl P \<longleftrightarrow> refs_ok base (rules acl) (pool_ref acl) \<and> P \<subseteq># mset_set (dom (rules acl))"

lemma acl_ok_less: "acl_ok base acl Q \<Longrightarrow> P \<subseteq># Q \<Longrightarrow> acl_ok base acl P"
  using subset_mset.order_trans unfolding acl_ok_def by blast

lemma acl_ok_ctrl [simp]: "acl_ok base (acl\<lparr>ctrl := c\<rparr>) P = acl_ok base acl P"
  by (simp add: acl_ok_def)

lemma acl_ok_mem: "acl_ok base acl P \<Longrightarrow> q \<in># P \<Longrightarrow> \<exists>r. rules acl q = Some r"
  unfolding acl_ok_def refs_ok_def by (metis domD elem_mset_set mset_subset_eqD)

lemma delete_rule_ok:
  assumes ok: "acl_ok base acl (add_mset (rule_data n) P)"
  shows "acl_ok base (ipacl_delete_rule n acl) P"
proof -
  obtain r where r: "rules acl (rule_data n) = Some r" using acl_ok_mem [OF ok] by auto
  have fin: "finite (dom (rules acl))" using ok by (simp add: acl_ok_def refs_ok_def)
  have "refs_ok base ((rules acl)(rule_data n := None)) (ipacl_dec_pool_ref (rule_pools r) (pool_ref acl))"
    by (rule refs_ok_upd) (use ok r in \<open>auto simp: acl_ok_def dec_pool_ref_at\<close>)
  moreover have "P \<subseteq># mset_set (dom (rules acl) - {rule_data n})"
    using ok mset_set.remove [OF fin domI [of "rules acl", OF r]] by (simp add: acl_ok_def)
  ultimately show ?thesis by (simp add: acl_ok_def ipacl_delete_rule_def r)
qed

lemma delete_rule_ctrl [simp]: "ctrl (ipacl_delete_rule n acl) = ctrl acl"
  by (simp add: ipacl_delete_rule_def)

lemma free_rules_ctrl [simp]: "ctrl (fold ipacl_delete_rule ns acl) = ctrl acl"
  by (induction ns arbitrary: acl) simp_all

lemma free_rules_ok:
  "acl_ok base acl (mset (map rule_data ns) + P) \<Longrightarrow> acl_ok base (fold ipacl_delete_rule ns acl) P"
proof (induction ns arbitrary: acl)
  case (Cons n ns)
  then show ?case using delete_rule_ok [of base acl n "mset (map rule_data ns) + P"] by simp
qed simp

lemma new_rule_ok:
  assumes ok: "acl_ok base acl P" and q: "rules acl q = None"
    and refs: "\<forall>p. refs p = pool_ref acl p + of_nat (uses p (rule_pools r))"
  shows "acl_ok base (acl\<lparr>rules := (rules acl)(q \<mapsto> r), pool_ref := refs\<rparr>) (add_mset q P)"
proof -
  have "refs_ok base ((rules acl)(q \<mapsto> r)) refs"
    by (rule refs_ok_upd) (use assms in \<open>auto simp: acl_ok_def\<close>)
  moreover have "mset_set (insert q (dom (rules acl))) = add_mset q (mset_set (dom (rules acl)))"
    using ok q by (intro mset_set.insert) (auto simp: acl_ok_def refs_ok_def)
  ultimately show ?thesis using ok by (simp add: acl_ok_def)
qed

section \<open>What a match does\<close>

text \<open>The conditions of a rule on a packet: an enabled rule matches when every key that both name agrees.\<close>

definition rule_matches ::
  "(pool_ptr option \<Rightarrow> UINT \<Rightarrow> bool) \<Rightarrow> (pool_ptr option \<Rightarrow> USHORT \<Rightarrow> bool) \<Rightarrow> ipacl_match_info \<Rightarrow> ipacl_rule_cfg \<Rightarrow> bool" where
  "rule_matches ip_pool port_pool mi cfg \<longleftrightarrow> bEnable cfg \<and>
     (let both = keys_both mi cfg; key = single (stKey cfg); pl = pools (stKey cfg);
          same = (\<lambda>ip k. (ip XOR uiIP k) AND uiWildcard k = 0); between = (\<lambda>port k. port \<in> {usBegin k..usEnd k})
      in (both IPACL_KEY_PROTO \<longrightarrow> ucProto mi = cfg_ucProto cfg) \<and>
         (both IPACL_KEY_SIP \<longrightarrow> same (uiSIP mi) (stSIP key)) \<and> (both IPACL_KEY_DIP \<longrightarrow> same (uiDIP mi) (stDIP key)) \<and>
         (both IPACL_KEY_SPORT \<longrightarrow> between (usSPort mi) (stSPort key)) \<and>
         (both IPACL_KEY_DPORT \<longrightarrow> between (usDPort mi) (stDPort key)) \<and>
         (both IPACL_KEY_POOL_SIP \<longrightarrow> ip_pool (pstSipPool pl) (uiSIP mi)) \<and>
         (both IPACL_KEY_POOL_DIP \<longrightarrow> ip_pool (pstDipPool pl) (uiDIP mi)) \<and>
         (both IPACL_KEY_POOL_SPORT \<longrightarrow> port_pool (pstSportPool pl) (usSPort mi)) \<and>
         (both IPACL_KEY_POOL_DPORT \<longrightarrow> port_pool (pstDportPool pl) (usDPort mi)))"

lemma xor_mask_zero: "(a XOR b) AND m = 0 \<longleftrightarrow> a AND m = b AND (m :: UINT)"
  by (auto simp: bit_eq_iff bit_simps)

lemma match_by_rule:
  "ipacl_match_by_rule ip_pool port_pool mi r =
    (if rule_matches ip_pool port_pool mi (stRuleCfg r) then (True, r\<lparr>ulMatchCount := ulMatchCount r + 1\<rparr>) else (False, r))"
proof -
  have merge: "(if c then x else if d then x else y) = (if c \<or> d then x else y)" for c d and x y :: "bool \<times> ipacl_rule" by simp
  have flip: "(if c then x else y) = (if \<not> c then y else x)" for c and x y :: "bool \<times> ipacl_rule" by simp
  show ?thesis
    unfolding ipacl_match_by_rule_def rule_matches_def Let_def xor_mask_zero merge
    by (subst flip, rule if_cong [OF _ refl refl])
      (simp only: atLeastAtMost_iff not_less de_Morgan_disj de_Morgan_conj not_not imp_conv_disj conj_assoc)
qed

lemma scan_match:
  "scan_rules (ipacl_match_rule ip_pool port_pool) l s =
    (case find (\<lambda>n. rule_matches ip_pool port_pool (pstMatchInfo s) (stRuleCfg (the (m_rules s (rule_data n))))) l of
       None \<Rightarrow> s
     | Some n \<Rightarrow>
         let r = the (m_rules s (rule_data n))
         in s\<lparr>m_rules := (m_rules s)(rule_data n \<mapsto> r\<lparr>ulMatchCount := ulMatchCount r + 1\<rparr>), bIsMatch := True,
              m_enAction := enAction (stRuleCfg r), pstMatchInfo := (pstMatchInfo s)\<lparr>acl_id := uiRuleID n\<rparr>\<rparr>)"
  by (induction l) (simp_all add: ipacl_match_rule_def match_by_rule Let_def)

definition acl_verdict ::
  "(pool_ptr option \<Rightarrow> UINT \<Rightarrow> bool) \<Rightarrow> (pool_ptr option \<Rightarrow> USHORT \<Rightarrow> bool) \<Rightarrow> ipacl \<Rightarrow> rule_ptr list_rule_list option \<Rightarrow>
   ipacl_match_info \<Rightarrow> bs_action \<times> ipacl \<times> ipacl_match_info" where
  "acl_verdict ip_pool port_pool acl x mi =
     (case x of
        None \<Rightarrow> (BS_ACTION_UNDEF, acl, mi)
      | Some r \<Rightarrow>
          (case find (\<lambda>n. rule_matches ip_pool port_pool mi (stRuleCfg (the (rules acl (rule_data n))))) (stRuleList r) of
             None \<Rightarrow> (default_action r, acl, mi)
           | Some n \<Rightarrow>
               let rule = the (rules acl (rule_data n))
               in (enAction (stRuleCfg rule),
                   acl\<lparr>rules := (rules acl)(rule_data n \<mapsto> rule\<lparr>ulMatchCount := ulMatchCount rule + 1\<rparr>)\<rparr>,
                   mi\<lparr>acl_id := uiRuleID n\<rparr>)))"

lemma Match_verdict:
  assumes "lr_good (lr_pool needbits create) (ctrl acl) T"
  shows "IPACL_Match ip_pool port_pool acl lid mi = acl_verdict ip_pool port_pool acl (T lid) mi"
proof -
  define s where "s = \<lparr>m_rules = rules acl, pstMatchInfo = mi, bIsMatch = False, m_enAction = BS_ACTION_UNDEF\<rparr>"
  define g where "g r = (let s = RuleList_ScanRule (stRuleList r) (Some (ipacl_match_rule ip_pool port_pool)) s
      in if \<not> bIsMatch s then s\<lparr>m_enAction := default_action r\<rparr> else s)" for r :: "rule_ptr list_rule_list"
  have "IPACL_Match ip_pool port_pool acl lid mi =
      (let s = (case T lid of None \<Rightarrow> s | Some r \<Rightarrow> g r) in (m_enAction s, acl\<lparr>rules := m_rules s\<rparr>, pstMatchInfo s))"
    unfolding rule_pool.by_id [OF assms, symmetric] IPACL_Match_def Let_def s_def g_def by (rule refl)
  moreover have "g r = (case find (\<lambda>n. rule_matches ip_pool port_pool mi (stRuleCfg (the (rules acl (rule_data n))))) (stRuleList r) of
      None \<Rightarrow> s\<lparr>m_enAction := default_action r\<rparr>
    | Some n \<Rightarrow>
        let rule = the (rules acl (rule_data n))
        in \<lparr>m_rules = (rules acl)(rule_data n \<mapsto> rule\<lparr>ulMatchCount := ulMatchCount rule + 1\<rparr>), pstMatchInfo = mi\<lparr>acl_id := uiRuleID n\<rparr>,
             bIsMatch = True, m_enAction = enAction (stRuleCfg rule)\<rparr>)" for r
    by (simp add: g_def RuleList_ScanRule_def scan_match s_def Let_def split: option.split)
  ultimately show ?thesis
    by (simp add: acl_verdict_def s_def Let_def split: option.split)
qed

lemma verdict_ok:
  assumes ok: "acl_ok base acl P" and x: "ptrs_at x \<subseteq># P"
  shows "acl_ok base (fst (snd (acl_verdict ip_pool port_pool acl x mi))) P"
proof (cases "x = None \<or> find (\<lambda>n. rule_matches ip_pool port_pool mi (stRuleCfg (the (rules acl (rule_data n))))) (stRuleList (the x)) = None")
  case True
  then show ?thesis using ok by (auto simp: acl_verdict_def split: option.split)
next
  case False
  then obtain r n where n: "x = Some r"
    "find (\<lambda>n. rule_matches ip_pool port_pool mi (stRuleCfg (the (rules acl (rule_data n))))) (stRuleList r) = Some n" by auto
  then have "rule_data n \<in># ptrs_at x" by (auto simp: find_Some_iff)
  then obtain rule where rule: "rules acl (rule_data n) = Some rule" using acl_ok_mem [OF ok] x by (meson mset_subset_eqD)
  have "refs_ok base ((rules acl)(rule_data n \<mapsto> rule\<lparr>ulMatchCount := ulMatchCount rule + 1\<rparr>)) (pool_ref acl)"
    by (rule refs_ok_upd) (use ok rule in \<open>auto simp: acl_ok_def\<close>)
  then show ?thesis using ok n rule by (simp add: acl_verdict_def Let_def acl_ok_def insert_absorb domI)
qed

section \<open>Reachable states\<close>

text \<open>The table \<open>T\<close> is that of the list table. Memory that an operation is given is free; a list that is destroyed or put in
  place of another is one that no identifier has, and such a list has no rules, because \<^verbatim>\<open>IPACL_AddRule2List\<close> adds none.\<close>

inductive ipacl_reach ::
  "(UINT \<Rightarrow> nat) \<Rightarrow> (UINT \<Rightarrow> (nap_hash_node \<Rightarrow> UINT) \<Rightarrow> nap_hash_node hash option) \<Rightarrow> (pool_ptr \<Rightarrow> UINT) \<Rightarrow> ipacl \<Rightarrow>
   (UINT \<rightharpoonup> rule_ptr list_rule_list) \<Rightarrow> bool"
  for needbits :: "UINT \<Rightarrow> nat" and create :: "UINT \<Rightarrow> (nap_hash_node \<Rightarrow> UINT) \<Rightarrow> nap_hash_node hash option"
    and base :: "pool_ptr \<Rightarrow> UINT" where
  Create: "IPACL_Create needbits create ac ah ab base = Some acl \<Longrightarrow> ipacl_reach needbits create base acl Map.empty"
| CreateList: "ipacl_reach needbits create base acl T \<Longrightarrow> list_mem_ok mem (ctrl acl) \<Longrightarrow>
    ipacl_reach needbits create base (snd (IPACL_CreateList acl name mem)) T"
| DestroyList: "ipacl_reach needbits create base acl T \<Longrightarrow> unattached (ctrl acl) l \<Longrightarrow> stRuleList (the (lists (ctrl acl) l)) = [] \<Longrightarrow>
    ipacl_reach needbits create base (IPACL_DestroyList acl (Some l)) T"
| AddList: "ipacl_reach needbits create base acl T \<Longrightarrow> list_mem_ok list_mem (ctrl acl) \<Longrightarrow> head_mem_ok mem (ctrl acl) \<Longrightarrow>
    IPACL_AddList acl name list_mem mem al = (lid, acl') \<Longrightarrow>
    ipacl_reach needbits create base acl' (if lid = 0 then T else T(lid \<mapsto> (new_list name)\<lparr>list_id := lid\<rparr>))"
| DelList: "ipacl_reach needbits create base acl T \<Longrightarrow> ipacl_reach needbits create base (IPACL_DelList acl u) (T(u := None))"
| ReplaceList: "ipacl_reach needbits create base acl T \<Longrightarrow> unattached (ctrl acl) l \<Longrightarrow> stRuleList (the (lists (ctrl acl) l)) = [] \<Longrightarrow>
    ipacl_reach needbits create base (snd (IPACL_ReplaceList acl u l))
      (case T u of None \<Rightarrow> T
       | Some old \<Rightarrow> T(u \<mapsto> (the (lists (ctrl acl) l))\<lparr>uiRefCount := uiRefCount old, default_action := default_action old\<rparr>))"
| AddListRef: "ipacl_reach needbits create base acl T \<Longrightarrow>
    ipacl_reach needbits create base (snd (IPACL_AddListRef acl u)) (T(u := map_option (\<lambda>r. r\<lparr>uiRefCount := uiRefCount r + 1\<rparr>) (T u)))"
| DelListRef: "ipacl_reach needbits create base acl T \<Longrightarrow>
    ipacl_reach needbits create base (snd (IPACL_DelListRef acl u)) (T(u := map_option (\<lambda>r. r\<lparr>uiRefCount := uiRefCount r - 1\<rparr>) (T u)))"
| SetDefaultAction: "ipacl_reach needbits create base acl T \<Longrightarrow>
    ipacl_reach needbits create base (snd (IPACL_SetDefaultActionByID acl u a)) (T(u := map_option (\<lambda>r. r\<lparr>default_action := a\<rparr>) (T u)))"
| AddRule2List: "ipacl_reach needbits create base acl T \<Longrightarrow> (\<forall>p. mem = Some p \<longrightarrow> rules acl p = None) \<Longrightarrow>
    IPACL_AddRule2List acl l rid cfg mem = Some (ret, acl') \<Longrightarrow> ipacl_reach needbits create base acl' T"
| AddRule: "ipacl_reach needbits create base acl T \<Longrightarrow> (\<forall>p. mem = Some p \<longrightarrow> rules acl p = None) \<Longrightarrow>
    ipacl_reach needbits create base (snd (IPACL_AddRule acl u rid cfg mem))
      (if rid = 0 \<or> mem = None then T
       else T(u := map_option (\<lambda>r. r\<lparr>stRuleList := RuleList_Add (stRuleList r) rid \<lparr>uiRuleID = 0, rule_data = the mem\<rparr>\<rparr>) (T u)))"
| DelRule: "ipacl_reach needbits create base acl T \<Longrightarrow>
    ipacl_reach needbits create base (IPACL_DelRule acl u rid)
      (T(u := map_option (\<lambda>r. r\<lparr>stRuleList := snd (RuleList_Del (stRuleList r) rid)\<rparr>) (T u)))"
| UpdateRule: "ipacl_reach needbits create base acl T \<Longrightarrow> rules acl p = Some r \<Longrightarrow>
    ipacl_reach needbits create base (IPACL_UpdateRule acl p cfg) T"
| MoveRule: "ipacl_reach needbits create base acl T \<Longrightarrow>
    ipacl_reach needbits create base (snd (IPACL_MoveRule acl u oid nid))
      (T(u := map_option (\<lambda>r. r\<lparr>stRuleList := snd (RuleList_MoveRule (stRuleList r) oid nid)\<rparr>) (T u)))"
| RebaseID: "ipacl_reach needbits create base acl T \<Longrightarrow>
    ipacl_reach needbits create base (snd (IPACL_RebaseID acl u step))
      (T(u := map_option (\<lambda>r. r\<lparr>stRuleList := snd (RuleList_ResetID (stRuleList r) step)\<rparr>) (T u)))"
| IncreaseID: "ipacl_reach needbits create base acl T \<Longrightarrow>
    ipacl_reach needbits create base (snd (IPACL_IncreaseID acl u s e step))
      (T(u := map_option (\<lambda>r. r\<lparr>stRuleList := snd (RuleList_IncreaseID (stRuleList r) s e step)\<rparr>) (T u)))"
| Match: "ipacl_reach needbits create base acl T \<Longrightarrow>
    ipacl_reach needbits create base (fst (snd (IPACL_Match ip_pool port_pool acl u mi))) T"
| Reset: "ipacl_reach needbits create base acl T \<Longrightarrow> IPACL_Reset acl = Some acl' \<Longrightarrow>
    ipacl_reach needbits create base acl' (\<lambda>u. if seen (ctrl acl) u then None else T u)"

abbreviation acl_good ::
  "(UINT \<Rightarrow> nat) \<Rightarrow> (UINT \<Rightarrow> (nap_hash_node \<Rightarrow> UINT) \<Rightarrow> nap_hash_node hash option) \<Rightarrow> (pool_ptr \<Rightarrow> UINT) \<Rightarrow> ipacl \<Rightarrow>
   (UINT \<rightharpoonup> rule_ptr list_rule_list) \<Rightarrow> bool" where
  "acl_good needbits create base acl T \<equiv> lr_good (lr_pool needbits create) (ctrl acl) T \<and> acl_ok base acl (ptrs T)"

lemma table_op_good:
  assumes "acl_good needbits create base acl T"
    and "lr_good (lr_pool needbits create) c (T(u := map_option f (T u)))"
    and "\<forall>r. mset (map rule_data (stRuleList (f r))) \<subseteq># mset (map rule_data (stRuleList r))"
  shows "acl_good needbits create base (acl\<lparr>ctrl := c\<rparr>) (T(u := map_option f (T u)))"
proof -
  have "ptrs (T(u := map_option f (T u))) \<subseteq># ptrs T" by (rule ptrs_upd_sub) (use assms(3) in \<open>cases "T u"; simp\<close>)
  then show ?thesis using assms(1,2) acl_ok_less by auto
qed

lemma snd_ctrl: "snd (case x of (ret, c) \<Rightarrow> (ret, acl\<lparr>ctrl := c\<rparr>)) = acl\<lparr>ctrl := snd x\<rparr>"
  by (simp split: prod.split)

lemma freed_good:
  assumes "lr_good (lr_pool needbits create) c T'" "acl_ok base acl (ptrs T)" "mset (map rule_data freed) + ptrs T' \<subseteq># ptrs T"
  shows "acl_good needbits create base (fold ipacl_delete_rule freed (acl\<lparr>ctrl := c\<rparr>)) T'"
proof -
  have "acl_ok base (acl\<lparr>ctrl := c\<rparr>) (mset (map rule_data freed) + ptrs T')" using acl_ok_less [OF assms(2,3)] by simp
  then show ?thesis using assms(1) free_rules_ok by simp
qed

lemma DelRule_fst:
  assumes "lr_good (lr_pool needbits create) c T"
  shows "fst (ListRule_DelRule c u rid) = (case T u of None \<Rightarrow> None | Some r \<Rightarrow> fst (RuleList_Del (stRuleList r) rid))"
  unfolding rule_pool.by_id [OF assms, symmetric] ListRule_DelRule_def by (simp split: option.split)

lemma AddRule_fst:
  assumes "lr_good (lr_pool needbits create) c T"
  shows "fst (ListRule_AddRule c u rid rule) = (case T u of None \<Rightarrow> BS_NO_SUCH | Some r \<Rightarrow> if rid = 0 then BS_BAD_PARA else BS_OK)"
  unfolding rule_pool.by_id [OF assms, symmetric] ListRule_AddRule_def ListRule_AddRule2List_def by (simp split: option.split)

lemma AddRule_good:
  assumes good: "acl_good needbits create base acl T" and mem: "\<forall>p. mem = Some p \<longrightarrow> rules acl p = None"
  shows "acl_good needbits create base (snd (IPACL_AddRule acl u rid cfg mem))
      (if rid = 0 \<or> mem = None then T
       else T(u := map_option (\<lambda>r. r\<lparr>stRuleList := RuleList_Add (stRuleList r) rid \<lparr>uiRuleID = 0, rule_data = the mem\<rparr>\<rparr>) (T u)))"
proof (cases mem)
  case None
  then show ?thesis using good by (simp add: IPACL_AddRule_def)
next
  case (Some p)
  let ?rule = "\<lparr>uiRuleID = 0, rule_data = p\<rparr>"
  let ?T = "if rid = 0 then T else T(u := map_option (\<lambda>r. r\<lparr>stRuleList := RuleList_Add (stRuleList r) rid ?rule\<rparr>) (T u))"
  obtain ret c where r: "ListRule_AddRule (ctrl acl) u rid ?rule = (ret, c)" by (metis surj_pair)
  have lr: "lr_good (lr_pool needbits create) c ?T"
    using rule_pool.upd_goods(4) [OF conjunct1 [OF good], of u rid ?rule] r by simp
  have ret: "ret = (case T u of None \<Rightarrow> BS_NO_SUCH | Some r \<Rightarrow> if rid = 0 then BS_BAD_PARA else BS_OK)"
    using AddRule_fst [OF conjunct1 [OF good], of u rid ?rule] r by simp
  have p: "rules acl p = None" using mem Some by simp
  then have undo: "(rules acl)(p := None) = rules acl" by (rule fun_upd_idem)
  show ?thesis
  proof (cases "ret = BS_OK")
    case False
    then have "?T = T" using ret by (auto split: option.splits if_splits)
    then have T: "(if rid = 0 \<or> mem = None then T
       else T(u := map_option (\<lambda>r. r\<lparr>stRuleList := RuleList_Add (stRuleList r) rid \<lparr>uiRuleID = 0, rule_data = the mem\<rparr>\<rparr>) (T u))) = T"
      using Some \<open>?T = T\<close> by (cases "rid = 0") (simp_all del: fun_upd_apply)
    have e: "snd (IPACL_AddRule acl u rid cfg mem) = acl\<lparr>ctrl := c\<rparr>"
      using Some r False undo by (simp add: IPACL_AddRule_def Let_def)
    show ?thesis unfolding T e using good lr \<open>?T = T\<close> by simp
  next
    case True
    then obtain q where q: "T u = Some q" "rid \<noteq> 0" using ret by (auto split: option.splits if_splits)
    have e: "snd (IPACL_AddRule acl u rid cfg mem) = acl\<lparr>ctrl := c, rules := (rules acl)(p \<mapsto> zero_rule\<lparr>stRuleCfg := cfg\<rparr>),
        pool_ref := ipacl_inc_pool_ref (pools (stKey cfg)) (pool_ref acl)\<rparr>"
      using Some r True by (simp add: IPACL_AddRule_def Let_def)
    have "acl_ok base (acl\<lparr>rules := (rules acl)(p \<mapsto> zero_rule\<lparr>stRuleCfg := cfg\<rparr>),
        pool_ref := ipacl_inc_pool_ref (pools (stKey cfg)) (pool_ref acl)\<rparr>) (add_mset p (ptrs T))"
      by (rule new_rule_ok [OF conjunct2 [OF good] p]) (simp add: inc_pool_ref_at)
    moreover have "ptrs ?T = add_mset p (ptrs T)"
      using ptrs_upd [of T u "Some (q\<lparr>stRuleList := RuleList_Add (stRuleList q) rid ?rule\<rparr>)"] q by (simp add: Add_ptrs del: mset_map)
    ultimately show ?thesis using lr Some q e by (simp add: acl_ok_def)
  qed
qed

lemma DelRule_good:
  assumes good: "acl_good needbits create base acl T"
  shows "acl_good needbits create base (IPACL_DelRule acl u rid)
      (T(u := map_option (\<lambda>r. r\<lparr>stRuleList := snd (RuleList_Del (stRuleList r) rid)\<rparr>) (T u)))"
proof -
  let ?T = "T(u := map_option (\<lambda>r. r\<lparr>stRuleList := snd (RuleList_Del (stRuleList r) rid)\<rparr>) (T u))"
  obtain res c where r: "ListRule_DelRule (ctrl acl) u rid = (res, c)" by (metis surj_pair)
  have lr: "lr_good (lr_pool needbits create) c ?T" using rule_pool.upd_goods(5) [OF conjunct1 [OF good], of u rid] r by simp
  have res: "res = (case T u of None \<Rightarrow> None | Some r \<Rightarrow> fst (RuleList_Del (stRuleList r) rid))"
    using DelRule_fst [OF conjunct1 [OF good], of u rid] r by simp
  have "ptrs T = ptrs ?T + (case res of None \<Rightarrow> {#} | Some n \<Rightarrow> {#rule_data n#})"
  proof (cases "T u")
    case None
    then show ?thesis using res by (simp add: fun_upd_idem)
  next
    case (Some q)
    have "ptrs ?T + ptrs_at (T u) = ptrs T + mset (map rule_data (snd (RuleList_Del (stRuleList q) rid)))"
      using ptrs_upd [of T u "Some (q\<lparr>stRuleList := snd (RuleList_Del (stRuleList q) rid)\<rparr>)"] Some by simp
    then show ?thesis using Del_ptrs [of "stRuleList q" rid] Some res by (simp add: ac_simps del: mset_map)
  qed
  then have "mset (map rule_data (case res of None \<Rightarrow> [] | Some n \<Rightarrow> [n])) + ptrs ?T \<subseteq># ptrs T" by (simp split: option.split)
  then have "acl_good needbits create base (fold ipacl_delete_rule (case res of None \<Rightarrow> [] | Some n \<Rightarrow> [n]) (acl\<lparr>ctrl := c\<rparr>)) ?T"
    using freed_good [OF lr conjunct2 [OF good]] by blast
  moreover have "IPACL_DelRule acl u rid = fold ipacl_delete_rule (case res of None \<Rightarrow> [] | Some n \<Rightarrow> [n]) (acl\<lparr>ctrl := c\<rparr>)"
    using r by (simp add: IPACL_DelRule_def ipacl_delete_rule_def Let_def split: option.split)
  ultimately show ?thesis by simp
qed

lemma UpdateRule_good:
  assumes ok: "acl_ok base acl P" and r: "rules acl p = Some r"
  shows "acl_ok base (IPACL_UpdateRule acl p cfg) P"
proof -
  have "refs_ok base ((rules acl)(p \<mapsto> r\<lparr>stRuleCfg := cfg\<rparr>))
      (ipacl_inc_pool_ref (pools (stKey cfg)) (ipacl_dec_pool_ref (rule_pools r) (pool_ref acl)))"
    by (rule refs_ok_upd) (use ok r in \<open>auto simp: acl_ok_def inc_pool_ref_at dec_pool_ref_at\<close>)
  then show ?thesis using ok r by (simp add: IPACL_UpdateRule_def Let_def acl_ok_def insert_absorb domI)
qed

lemma freed_list: "ptrs_at x = mset (map rule_data (case x of None \<Rightarrow> [] | Some r \<Rightarrow> fst (RuleList_Finit True (stRuleList r))))"
  by (cases x) (simp_all add: Finit_freed)

lemma lists_good:
  assumes good: "acl_good needbits create base acl T"
  shows "acl_good needbits create base (IPACL_DelList acl u) (T(u := None))"
    and "unattached (ctrl acl) l \<Longrightarrow> stRuleList (the (lists (ctrl acl) l)) = [] \<Longrightarrow>
      acl_good needbits create base (IPACL_DestroyList acl (Some l)) T"
    and "unattached (ctrl acl) l \<Longrightarrow> stRuleList (the (lists (ctrl acl) l)) = [] \<Longrightarrow>
      acl_good needbits create base (snd (IPACL_ReplaceList acl u l))
        (case T u of None \<Rightarrow> T
         | Some old \<Rightarrow> T(u \<mapsto> (the (lists (ctrl acl) l))\<lparr>uiRefCount := uiRefCount old, default_action := default_action old\<rparr>))"
    and "IPACL_Reset acl = Some acl' \<Longrightarrow> acl_good needbits create base acl' (\<lambda>u. if seen (ctrl acl) u then None else T u)"
proof -
  note lr = conjunct1 [OF good] and ok = conjunct2 [OF good]
  note d = rule_pool.DelListID_good [OF lr, of u True]
  obtain freed c where r: "ListRule_DelListID (ctrl acl) u True = (freed, c)" by (metis surj_pair)
  have "mset (map rule_data freed) + ptrs (T(u := None)) \<subseteq># ptrs T"
    using ptrs_upd [of T u None] freed_list [of "T u"] d r by (simp add: ac_simps del: mset_map)
  then have "acl_good needbits create base (fold ipacl_delete_rule freed (acl\<lparr>ctrl := c\<rparr>)) (T(u := None))"
    using freed_good [OF conjunct1 [OF d] ok, of freed] r by (simp del: mset_map)
  then show "acl_good needbits create base (IPACL_DelList acl u) (T(u := None))" by (simp add: IPACL_DelList_def r)
  show "acl_good needbits create base (IPACL_DestroyList acl (Some l)) T"
    if "unattached (ctrl acl) l" "stRuleList (the (lists (ctrl acl) l)) = []"
    using rule_pool.other_good [OF lr, of l None] that ok
    by (simp add: IPACL_DestroyList_def ListRule_DestroyList_def)
  show "acl_good needbits create base (snd (IPACL_ReplaceList acl u l))
      (case T u of None \<Rightarrow> T
       | Some old \<Rightarrow> T(u \<mapsto> (the (lists (ctrl acl) l))\<lparr>uiRefCount := uiRefCount old, default_action := default_action old\<rparr>))"
    if l: "unattached (ctrl acl) l" "stRuleList (the (lists (ctrl acl) l)) = []"
  proof -
    obtain ret freed c where r: "ListRule_ReplaceList (ctrl acl) u True l = (ret, freed, c)" by (metis surj_pair)
    have e: "snd (IPACL_ReplaceList acl u l) = fold ipacl_delete_rule freed (acl\<lparr>ctrl := c\<rparr>)"
      using r by (simp add: IPACL_ReplaceList_def)
    note g = rule_pool.Replace_good [OF lr l(1) r]
    show ?thesis
    proof (cases "T u")
      case None
      then show ?thesis using g e good by simp
    next
      case (Some old)
      let ?new = "(the (lists (ctrl acl) l))\<lparr>uiRefCount := uiRefCount old, default_action := default_action old\<rparr>"
      have "mset (map rule_data freed) + ptrs (T(u \<mapsto> ?new)) \<subseteq># ptrs T"
        using ptrs_upd [of T u "Some ?new"] freed_list [of "T u"] g Some l(2) by (simp add: ac_simps del: mset_map)
      moreover have "lr_good (lr_pool needbits create) c (T(u \<mapsto> ?new))" using g Some by simp
      ultimately show ?thesis using freed_good [OF _ ok] unfolding e Some option.case by blast
    qed
  qed
  show "acl_good needbits create base acl' (\<lambda>u. if seen (ctrl acl) u then None else T u)" if r: "IPACL_Reset acl = Some acl'"
  proof -
    obtain freed c where f: "ListRule_Reset (ctrl acl) True = Some (freed, c)"
      "lr_good (lr_pool needbits create) c (\<lambda>v. if seen (ctrl acl) v then None else T v)"
      "mset freed + rules_of (\<lambda>v. if seen (ctrl acl) v then None else T v) = rules_of T"
      using rule_pool.Reset_good [OF lr, of True] by auto
    have "mset (map rule_data freed) + ptrs (\<lambda>v. if seen (ctrl acl) v then None else T v) = ptrs T"
      unfolding ptrs_def f(3) [symmetric] by simp
    then have "mset (map rule_data freed) + ptrs (\<lambda>v. if seen (ctrl acl) v then None else T v) \<subseteq># ptrs T" by simp
    moreover have "acl' = fold ipacl_delete_rule freed (acl\<lparr>ctrl := c\<rparr>)" using r f(1) by (simp add: IPACL_Reset_def)
    ultimately show ?thesis using freed_good [OF f(2) ok, of freed] by blast
  qed
qed

lemma ipacl_reach_good:
  assumes nb: "needs needbits" and cr: "creates_table create"
  shows "ipacl_reach needbits create base acl T \<Longrightarrow> acl_good needbits create base acl T"
proof (induction rule: ipacl_reach.induct)
  case (Create ac ah ab acl)
  then obtain c where c: "ListRule_Create needbits create ac ah ab Map.empty = Some c" "acl = \<lparr>ctrl = c, rules = Map.empty, pool_ref = base\<rparr>"
    by (auto simp: IPACL_Create_def)
  have "ptrs Map.empty = {#}" by (simp add: ptrs_def rules_of_def)
  then show ?case using Create_good [OF nb cr c(1)] c(2) by (simp add: acl_ok_def refs_ok_def heap_uses_def)
next
  case (CreateList acl T mem name)
  obtain res c where r: "ListRule_CreateList (ctrl acl) name mem = (res, c)" by (metis surj_pair)
  then show ?case using rule_pool.CreateList_good [OF conjunct1 [OF CreateList.IH] CreateList.hyps(2) r] CreateList.IH
    by (simp add: IPACL_CreateList_def)
next
  case (AddList acl T list_mem mem name al lid acl')
  obtain c where r: "ListRule_AddList (ctrl acl) name list_mem mem al = (lid, c)" "acl' = acl\<lparr>ctrl := c\<rparr>"
    using AddList.hyps(4) by (auto simp: IPACL_AddList_def split: prod.splits)
  note g = rule_pool.AddList_good [OF conjunct1 [OF AddList.IH] AddList.hyps(2-3) r(1)]
  have "ptrs (T(lid \<mapsto> (new_list name)\<lparr>list_id := lid\<rparr>)) \<subseteq># ptrs T"
    by (rule ptrs_upd_sub) (simp add: new_list_def RuleList_Init_def)
  then show ?case using g r(2) AddList.IH acl_ok_less by (auto split: if_splits)
next
  case (AddRule2List acl T mem l rid cfg ret acl')
  then obtain p where p: "rules acl p = None" "acl' = acl\<lparr>rules := (rules acl)(p \<mapsto> zero_rule)\<rparr>"
    by (auto simp: IPACL_AddRule2List_def split: option.splits)
  have "acl_ok base (acl\<lparr>rules := (rules acl)(p \<mapsto> zero_rule), pool_ref := pool_ref acl\<rparr>) (add_mset p (ptrs T))"
    by (rule new_rule_ok [OF conjunct2 [OF AddRule2List.IH] p(1)]) (simp add: zero_rule_def Let_def uses_def)
  then have "acl_ok base acl' (ptrs T)" using p(2) acl_ok_less by fastforce
  then show ?case using AddRule2List.IH p(2) by simp
next
  case (Match acl T ip_pool port_pool u mi)
  note v = Match_verdict [OF conjunct1 [OF Match.IH], of ip_pool port_pool u mi]
  have "ptrs_at (T u) \<subseteq># ptrs T"
    using ptrs_upd [of T u None] by (metis mset_subset_eq_add_right ptrs_at_simps(1) add_0_right)
  moreover have "ctrl (fst (snd (acl_verdict ip_pool port_pool acl (T u) mi))) = ctrl acl"
    by (simp add: acl_verdict_def Let_def split: option.split)
  ultimately show ?case using verdict_ok [OF conjunct2 [OF Match.IH]] Match.IH unfolding v by simp
next
  case (UpdateRule acl T p r cfg)
  have "ctrl (IPACL_UpdateRule acl p cfg) = ctrl acl" by (simp add: IPACL_UpdateRule_def Let_def)
  then show ?case using UpdateRule_good [OF conjunct2 [OF UpdateRule.IH] UpdateRule.hyps(2)] UpdateRule.IH by simp
next
  case (AddRule acl T mem u rid cfg)
  show ?case by (rule AddRule_good [OF AddRule.IH AddRule.hyps(2)])
next
  case (DelRule acl T u rid)
  show ?case by (rule DelRule_good [OF DelRule.IH])
next
  case (AddListRef acl T u)
  show ?case unfolding IPACL_AddListRef_def snd_ctrl
    by (rule table_op_good [OF AddListRef.IH rule_pool.upd_goods(1) [OF conjunct1 [OF AddListRef.IH]]]) simp
next
  case (DelListRef acl T u)
  show ?case unfolding IPACL_DelListRef_def snd_ctrl
    by (rule table_op_good [OF DelListRef.IH rule_pool.upd_goods(2) [OF conjunct1 [OF DelListRef.IH]]]) simp
next
  case (SetDefaultAction acl T u a)
  show ?case unfolding IPACL_SetDefaultActionByID_def snd_ctrl
    by (rule table_op_good [OF SetDefaultAction.IH rule_pool.upd_goods(3) [OF conjunct1 [OF SetDefaultAction.IH]]]) simp
next
  case (MoveRule acl T u oid nid)
  show ?case unfolding IPACL_MoveRule_def snd_ctrl
    by (rule table_op_good [OF MoveRule.IH rule_pool.upd_goods(8) [OF conjunct1 [OF MoveRule.IH]]])
      (simp add: Move_ptrs del: mset_map)
next
  case (RebaseID acl T u step)
  show ?case unfolding IPACL_RebaseID_def snd_ctrl
    by (rule table_op_good [OF RebaseID.IH rule_pool.upd_goods(9) [OF conjunct1 [OF RebaseID.IH]]])
      (simp add: ResetID_ptrs del: mset_map)
next
  case (IncreaseID acl T u s e step)
  show ?case unfolding IPACL_IncreaseID_def snd_ctrl
    by (rule table_op_good [OF IncreaseID.IH rule_pool.upd_goods(7) [OF conjunct1 [OF IncreaseID.IH]]])
      (simp add: Increase_ptrs del: mset_map)
next
  case (DelList acl T u)
  show ?case by (rule lists_good(1) [OF DelList.IH])
next
  case (DestroyList acl T l)
  show ?case by (rule lists_good(2) [OF DestroyList.IH DestroyList.hyps(2,3)])
next
  case (ReplaceList acl T l u)
  show ?case by (rule lists_good(3) [OF ReplaceList.IH ReplaceList.hyps(2,3)])
next
  case (Reset acl T acl')
  show ?case by (rule lists_good(4) [OF Reset.IH Reset.hyps(2)])
qed

lemma free_rules_any_ctrl:
  "rules (fold ipacl_delete_rule ns (acl\<lparr>ctrl := c\<rparr>)) = rules (fold ipacl_delete_rule ns acl) \<and>
   pool_ref (fold ipacl_delete_rule ns (acl\<lparr>ctrl := c\<rparr>)) = pool_ref (fold ipacl_delete_rule ns acl)"
proof (induction ns arbitrary: acl)
  case (Cons n ns)
  have "ipacl_delete_rule n (acl\<lparr>ctrl := c\<rparr>) = (ipacl_delete_rule n acl)\<lparr>ctrl := c\<rparr>" by (simp add: ipacl_delete_rule_def)
  then show ?case using Cons.IH by simp
qed simp

lemma Destroy_ok:
  assumes good: "acl_good needbits create base acl T"
  shows "\<exists>ls heap refs. IPACL_Destroy acl = Some (ls, heap, refs) \<and> refs_ok base heap refs"
proof -
  obtain freed c where f: "ListRule_Reset (ctrl acl) True = Some (freed, c)"
    using rule_pool.Reset_good [OF conjunct1 [OF good], of True] by blast
  have r: "IPACL_Reset acl = Some (fold ipacl_delete_rule freed (acl\<lparr>ctrl := c\<rparr>))" by (simp add: IPACL_Reset_def f)
  have "refs_ok base (rules (fold ipacl_delete_rule freed acl)) (pool_ref (fold ipacl_delete_rule freed acl))"
    using lists_good(4) [OF good r] free_rules_any_ctrl [of freed c acl] by (simp add: acl_ok_def)
  then show ?thesis
    using f by (simp add: IPACL_Destroy_def ListRule_Destroy_def ListRule_Finit_def ListRule_Reset_def Let_def)
qed

section \<open>Properties\<close>

text \<open>C39: A packet is decided by the first rule of the list, in the order of the rules, that is enabled and agrees with it on
  every key both name: its action is the answer, its identifier is reported and its counter, and nothing else, goes up. Without
  such a rule the answer is the default action of the list, without a list it is undefined, and the state is unchanged. Every
  rule the match reads is an allocated descriptor. This holds after every sequence of operations.\<close>

theorem IPACL_Match_first:
  assumes "needs needbits" "creates_table create" "ipacl_reach needbits create base acl T"
  shows "IPACL_Match ip_pool port_pool acl lid mi = acl_verdict ip_pool port_pool acl (T lid) mi \<and>
    (case T lid of None \<Rightarrow> True | Some r \<Rightarrow> \<forall>n\<in>set (stRuleList r). \<exists>rule. rules acl (rule_data n) = Some rule)"
proof
  have good: "acl_good needbits create base acl T" by (rule ipacl_reach_good [OF assms])
  show "IPACL_Match ip_pool port_pool acl lid mi = acl_verdict ip_pool port_pool acl (T lid) mi"
    by (rule Match_verdict [OF conjunct1 [OF good]])
  have "ptrs_at (T lid) \<subseteq># ptrs T" using ptrs_upd [of T lid None] by (metis mset_subset_eq_add_right ptrs_at_simps(1) add_0_right)
  then have "\<exists>rule. rules acl q = Some rule" if "q \<in># ptrs_at (T lid)" for q
    using acl_ok_mem [OF conjunct2 [OF good]] that by (meson mset_subset_eqD)
  then show "case T lid of None \<Rightarrow> True | Some r \<Rightarrow> \<forall>n\<in>set (stRuleList r). \<exists>rule. rules acl (rule_data n) = Some rule"
    by (auto split: option.split)
qed

text \<open>C40: After every sequence of operations the count of a pool is the number of keys of rules that refer to it, on top of what
  others hold, modulo the width of the counter: no operation forgets or doubles a reference. Every rule of the lists has an
  allocated descriptor of its own. A reset and a destroy return, and after the destroy the counts are those of the descriptors
  that stay allocated.\<close>

theorem IPACL_pool_refs:
  assumes "needs needbits" "creates_table create" "ipacl_reach needbits create base acl T"
  shows "(\<forall>p. pool_ref acl p = base p + of_nat (heap_uses p (rules acl))) \<and>
    ptrs T \<subseteq># mset_set (dom (rules acl)) \<and>
    (\<exists>acl'. IPACL_Reset acl = Some acl' \<and> (\<forall>p. pool_ref acl' p = base p + of_nat (heap_uses p (rules acl')))) \<and>
    (\<exists>ls heap refs. IPACL_Destroy acl = Some (ls, heap, refs) \<and> (\<forall>p. refs p = base p + of_nat (heap_uses p heap)))"
proof -
  have good: "acl_good needbits create base acl T" by (rule ipacl_reach_good [OF assms])
  obtain freed c where f: "ListRule_Reset (ctrl acl) True = Some (freed, c)"
    using rule_pool.Reset_good [OF conjunct1 [OF good], of True] by blast
  then obtain acl' where r: "IPACL_Reset acl = Some acl'" by (simp add: IPACL_Reset_def)
  then have "refs_ok base (rules acl') (pool_ref acl')" using lists_good(4) [OF good r] by (simp add: acl_ok_def)
  then show ?thesis using good r Destroy_ok [OF good] by (auto simp: acl_ok_def refs_ok_def)
qed

section \<open>An access list with one rule\<close>

definition acl_example :: ipacl where
  "acl_example = the (IPACL_Create (\<lambda>_. 31) (\<lambda>_ _. Some nap_example_table) True True True (\<lambda>_. 0))"

definition example_cfg :: ipacl_rule_cfg where
  "example_cfg = (stRuleCfg zero_rule)\<lparr>bEnable := True, enAction := BS_ACTION_DENY, cfg_uiKeyMask := IPACL_KEY_PROTO, cfg_ucProto := 6,
     stKey := \<lparr>pools = (rule_pools zero_rule)\<lparr>pstSipPool := Some 8, pstDportPool := Some 8\<rparr>, single = single (stKey (stRuleCfg zero_rule))\<rparr>\<rparr>"

definition example_packet :: ipacl_match_info where
  "example_packet = \<lparr>uiKeyMask = IPACL_KEY_PROTO, uiSIP = 0, uiDIP = 0, usSPort = 0, usDPort = 0, ucProto = 6, acl_id = 0\<rparr>"

lemma acl_example_steps:
  obtains lid acl where
    "IPACL_AddList acl_example ''acl'' (Some 5) (Some 7) [] = (lid, acl)" "lid \<noteq> 0"
    "ipacl_reach (\<lambda>_. 31) (\<lambda>_ _. Some nap_example_table) (\<lambda>_. 0) (snd (IPACL_AddRule acl lid 10 example_cfg (Some 3)))
      [lid \<mapsto> (new_list ''acl'')\<lparr>list_id := lid, stRuleList := [\<lparr>uiRuleID = 10, rule_data = 3\<rparr>]\<rparr>]"
    "rules (snd (IPACL_AddRule acl lid 10 example_cfg (Some 3))) = [3 \<mapsto> zero_rule\<lparr>stRuleCfg := example_cfg\<rparr>]"
proof -
  have cr: "creates_table (\<lambda>_ _. Some nap_example_table)" using nap_example_facts(2) by (simp add: creates_table_def)
  have e: "IPACL_Create (\<lambda>_. 31) (\<lambda>_ _. Some nap_example_table) True True True (\<lambda>_. 0) = Some acl_example"
      "acl_example = \<lparr>ctrl = listrule_example, rules = Map.empty, pool_ref = (\<lambda>_. 0)\<rparr>"
    by (simp_all add: acl_example_def IPACL_Create_def listrule_example_facts(1))
  note r0 = ipacl_reach.Create [OF e(1)]
  obtain lid acl where a: "IPACL_AddList acl_example ''acl'' (Some 5) (Some 7) [] = (lid, acl)" by (metis surj_pair)
  have m: "list_mem_ok (Some 5) (ctrl acl_example)" "head_mem_ok (Some 7) (ctrl acl_example)"
    by (simp_all add: e(2) list_mem_ok_def head_mem_ok_def listrule_example_facts)
  obtain c' where l: "ListRule_AddList (ctrl acl_example) ''acl'' (Some 5) (Some 7) [] = (lid, c')" "acl = acl_example\<lparr>ctrl := c'\<rparr>"
    using a by (auto simp: IPACL_AddList_def split: prod.splits)
  have g0: "acl_good (\<lambda>_. 31) (\<lambda>_ _. Some nap_example_table) (\<lambda>_. 0) acl_example Map.empty"
    by (rule ipacl_reach_good [OF nap_example_facts(1) cr r0])
  obtain M where M: "lr_ok (lr_pool (\<lambda>_. 31) (\<lambda>_ _. Some nap_example_table)) (ctrl acl_example) M" "lr_tab (ctrl acl_example) M = Map.empty"
    using conjunct1 [OF g0] by (auto simp: lr_good_def)
  have "\<not> no_index (hListNap (ctrl acl_example)) []"
    using rule_pool.index [OF lr_okD(1) [OF M(1)]] lr_dom [OF M(1)] M(2) by simp
  then have lid: "lid \<noteq> 0"
    using rule_pool.AddList_good [OF conjunct1 [OF g0] m l(1)] by (simp split: if_splits)
  let ?T = "[lid \<mapsto> (new_list ''acl'')\<lparr>list_id := lid\<rparr>]"
  have r1: "ipacl_reach (\<lambda>_. 31) (\<lambda>_ _. Some nap_example_table) (\<lambda>_. 0) acl ?T"
    using ipacl_reach.AddList [OF r0 m a] lid by simp
  have none: "rules acl = Map.empty" by (simp add: l(2) e(2))
  have r2: "ipacl_reach (\<lambda>_. 31) (\<lambda>_ _. Some nap_example_table) (\<lambda>_. 0) (snd (IPACL_AddRule acl lid 10 example_cfg (Some 3)))
      (?T(lid := map_option (\<lambda>r. r\<lparr>stRuleList := RuleList_Add (stRuleList r) 10 \<lparr>uiRuleID = 0, rule_data = 3\<rparr>\<rparr>) (?T lid)))"
    using ipacl_reach.AddRule [OF r1, of "Some 3" lid 10 example_cfg] none by simp
  have "RuleList_Add (stRuleList (new_list ''acl'')) 10 \<lparr>uiRuleID = 0, rule_data = (3 :: nat)\<rparr> = [\<lparr>uiRuleID = 10, rule_data = 3\<rparr>]"
    by (simp add: new_list_def RuleList_Init_def RuleList_Add_def)
  then have r3: "ipacl_reach (\<lambda>_. 31) (\<lambda>_ _. Some nap_example_table) (\<lambda>_. 0) (snd (IPACL_AddRule acl lid 10 example_cfg (Some 3)))
      [lid \<mapsto> (new_list ''acl'')\<lparr>list_id := lid, stRuleList := [\<lparr>uiRuleID = 10, rule_data = 3\<rparr>]\<rparr>]"
    using r2 by simp
  obtain ret c'' where ar: "ListRule_AddRule (ctrl acl) lid 10 \<lparr>uiRuleID = 0, rule_data = 3\<rparr> = (ret, c'')" by (metis surj_pair)
  have "ret = BS_OK"
    using AddRule_fst [OF conjunct1 [OF ipacl_reach_good [OF nap_example_facts(1) cr r1]], of lid 10 "\<lparr>uiRuleID = 0, rule_data = 3\<rparr>"] ar by simp
  then have "rules (snd (IPACL_AddRule acl lid 10 example_cfg (Some 3))) = [3 \<mapsto> zero_rule\<lparr>stRuleCfg := example_cfg\<rparr>]"
    using ar none by (simp add: IPACL_AddRule_def Let_def)
  then show ?thesis by (rule that [OF a lid r3])
qed

theorem IPACL_Match_first_witness:
  "case IPACL_AddList acl_example ''acl'' (Some 5) (Some 7) [] of
     (lid, acl) \<Rightarrow>
       case IPACL_Match (\<lambda>_ _. False) (\<lambda>_ _. False) (snd (IPACL_AddRule acl lid 10 example_cfg (Some 3))) lid example_packet of
         (action, acl', mi) \<Rightarrow> action = BS_ACTION_DENY \<and> acl_id mi = 10 \<and> map_option ulMatchCount (rules acl' 3) = Some 1"
proof -
  have cr: "creates_table (\<lambda>_ _. Some nap_example_table)" using nap_example_facts(2) by (simp add: creates_table_def)
  obtain lid acl where s: "IPACL_AddList acl_example ''acl'' (Some 5) (Some 7) [] = (lid, acl)"
    "ipacl_reach (\<lambda>_. 31) (\<lambda>_ _. Some nap_example_table) (\<lambda>_. 0) (snd (IPACL_AddRule acl lid 10 example_cfg (Some 3)))
      [lid \<mapsto> (new_list ''acl'')\<lparr>list_id := lid, stRuleList := [\<lparr>uiRuleID = 10, rule_data = 3\<rparr>]\<rparr>]"
    "rules (snd (IPACL_AddRule acl lid 10 example_cfg (Some 3))) = [3 \<mapsto> zero_rule\<lparr>stRuleCfg := example_cfg\<rparr>]"
    by (rule acl_example_steps)
  have "rule_matches (\<lambda>_ _. False) (\<lambda>_ _. False) example_packet example_cfg"
    by (simp add: rule_matches_def keys_both_def example_packet_def example_cfg_def IPACL_KEY_PROTO_def IPACL_KEY_SIP_def
        IPACL_KEY_DIP_def IPACL_KEY_SPORT_def IPACL_KEY_DPORT_def IPACL_KEY_POOL_SIP_def IPACL_KEY_POOL_DIP_def
        IPACL_KEY_POOL_SPORT_def IPACL_KEY_POOL_DPORT_def)
  then show ?thesis
    using conjunct1 [OF IPACL_Match_first [OF nap_example_facts(1) cr s(2), of "\<lambda>_ _. False" "\<lambda>_ _. False" lid example_packet]] s(1,3)
    by (simp add: acl_verdict_def Let_def zero_rule_def example_cfg_def)
qed

theorem IPACL_pool_refs_witness:
  "case IPACL_AddList acl_example ''acl'' (Some 5) (Some 7) [] of
     (lid, acl) \<Rightarrow> pool_ref (snd (IPACL_AddRule acl lid 10 example_cfg (Some 3))) 8 = 2"
proof -
  have cr: "creates_table (\<lambda>_ _. Some nap_example_table)" using nap_example_facts(2) by (simp add: creates_table_def)
  obtain lid acl where s: "IPACL_AddList acl_example ''acl'' (Some 5) (Some 7) [] = (lid, acl)"
    "ipacl_reach (\<lambda>_. 31) (\<lambda>_ _. Some nap_example_table) (\<lambda>_. 0) (snd (IPACL_AddRule acl lid 10 example_cfg (Some 3)))
      [lid \<mapsto> (new_list ''acl'')\<lparr>list_id := lid, stRuleList := [\<lparr>uiRuleID = 10, rule_data = 3\<rparr>]\<rparr>]"
    "rules (snd (IPACL_AddRule acl lid 10 example_cfg (Some 3))) = [3 \<mapsto> zero_rule\<lparr>stRuleCfg := example_cfg\<rparr>]"
    by (rule acl_example_steps)
  have "heap_uses 8 [3 \<mapsto> zero_rule\<lparr>stRuleCfg := example_cfg\<rparr>] = 2"
    by (simp add: heap_uses_def uses_def example_cfg_def zero_rule_def Let_def)
  then show ?thesis
    using conjunct1 [OF IPACL_pool_refs [OF nap_example_facts(1) cr s(2)], rule_format, of 8] s(1,3) by simp
qed

end
