(* ===== verification/Spec2Isabelle.thy ===== *)
theory Spec2Isabelle
  imports Prelude Interfaces Dll NumList RuleList IdRes SQue HStack Net DLpm Lpm DArray BinaryHeap VClock JHash Hash MapCtrl MapHash MapList Maps Acsmx CuckooHash RingQue TrieNode Trie TcpR LBitMap Nap ListRule QSort Vector IpAcl
begin

text \<open>
  This library models the data-structure core of the \<^emph>\<open>spf\<close> framework: the C files under \<^verbatim>\<open>src/lib/util\<close> with their headers
  under \<^verbatim>\<open>h/utl\<close>, the code that every other part of the repository (forwarding, access lists, the web gateway, the plugins)
  is written on. The definitions keep the names of the C functions; where a name clashes with the library or an inner loop
  needs a name of its own, a comment says which function it belongs to.

  \<^bold>\<open>The parts and their theories\<close>

  \<^item> \<^theory_text>\<open>Prelude\<close>: C's scalar types as words, the status codes of \<^verbatim>\<open>h/utl/types.h\<close>, the script of the allocator's outcomes, and
    the lemmas that several components use. \<^theory_text>\<open>Interfaces\<close>: the contracts between components as locales (queues, stacks, keyed
    tables, priority queues, searchable bags), each with what a client derives from it.
  \<^item> \<^theory_text>\<open>Dll\<close> (\<^verbatim>\<open>h/utl/dll_utl.h\<close>, \<^verbatim>\<open>dll/dll_utl.c\<close>): the intrusive doubly linked list as a heap of nodes with next, previous and
    head pointers. Its refinement lemmas justify the theories above it, where such a list is the sequence of its nodes.
  \<^item> \<^theory_text>\<open>NumList\<close> (\<^verbatim>\<open>num_list/num_list.c\<close>), \<^theory_text>\<open>RuleList\<close> (\<^verbatim>\<open>list_rule/rule_list.c\<close>), \<^theory_text>\<open>IdRes\<close> (\<^verbatim>\<open>id_res/idres_utl.c\<close>,
    \<^verbatim>\<open>fib/range_fib.c\<close>): lists and tables on that list.
  \<^item> \<^theory_text>\<open>SQue\<close> (\<^verbatim>\<open>queue/sque_utl.c\<close>, linked), \<^theory_text>\<open>RingQue\<close> (\<^verbatim>\<open>queue/que_utl.c\<close>, \<^verbatim>\<open>queue/byte_que.c\<close>, rings), \<^theory_text>\<open>HStack\<close>
    (\<^verbatim>\<open>stack/hstack_utl.c\<close>): queues and a stack.
  \<^item> \<^theory_text>\<open>QSort\<close> (\<^verbatim>\<open>array/qsort_utl.c\<close>, \<^verbatim>\<open>array/bsearch_utl.c\<close>), \<^theory_text>\<open>Vector\<close> (\<^verbatim>\<open>vector/vector_utl.c\<close>,
    \<^verbatim>\<open>dynamic_array/dynamic_array_int.c\<close>): sorting, searching, and the vector that uses them.
  \<^item> \<^theory_text>\<open>DArray\<close> (\<^verbatim>\<open>array/darray_utl.c\<close>), \<^theory_text>\<open>BinaryHeap\<close> (\<^verbatim>\<open>heap/binary_heap.c\<close>): the growing array and the heap on it.
  \<^item> \<^theory_text>\<open>Net\<close> (\<^verbatim>\<open>h/utl/net.h\<close>): prefixes and masks. \<^theory_text>\<open>DLpm\<close> (\<^verbatim>\<open>fib/lpm64b_dynamic.c\<close>) and \<^theory_text>\<open>Lpm\<close> (\<^verbatim>\<open>fib/lpm_common.c\<close>): the
    multi-level longest-prefix-match table, as the tree that its pointers form, and the recording layer above it.
  \<^item> \<^theory_text>\<open>VClock\<close> (\<^verbatim>\<open>vclock/vclock_utl.c\<close>): the hierarchical timer wheel with its time-out callbacks.
  \<^item> \<^theory_text>\<open>JHash\<close> (\<^verbatim>\<open>h/utl/jhash_utl.h\<close>), \<^theory_text>\<open>Hash\<close> (\<^verbatim>\<open>hash/hash_utl.c\<close>), \<^theory_text>\<open>CuckooHash\<close> (\<^verbatim>\<open>hash/cuckoo_hash.c\<close>): hashing.
  \<^item> \<^theory_text>\<open>MapCtrl\<close> (\<^verbatim>\<open>h/utl/map_utl.h\<close>), \<^theory_text>\<open>MapHash\<close> (\<^verbatim>\<open>map/map_utl.c\<close>), \<^theory_text>\<open>MapList\<close> (\<^verbatim>\<open>map/map_list.c\<close>): the map interface as a
    table of functions and two of its implementations; \<^theory_text>\<open>Maps\<close> compares them.
  \<^item> \<^theory_text>\<open>Acsmx\<close> (\<^verbatim>\<open>ac/ac_smx.c\<close>): the Aho-Corasick matcher. \<^theory_text>\<open>TrieNode\<close> and \<^theory_text>\<open>Trie\<close> (\<^verbatim>\<open>trie/\<close>): five tries behind one
    table of functions. \<^theory_text>\<open>TcpR\<close> (\<^verbatim>\<open>tcp/tcp_reassemble.c\<close>): the reassembly of TCP segments.
    \<^theory_text>\<open>LBitMap\<close> (\<^verbatim>\<open>largebitmap/large_bitmap.c\<close>): a bitmap of 32-bit numbers as a tree of four levels.
    \<^theory_text>\<open>Nap\<close> (\<^verbatim>\<open>nap/\<close>): a pool of nodes with identifiers, whose indices that bitmap hands out, over three stores (an array, an
    array of pointers, the hash table) behind a table of functions; the locale \<open>nap_store\<close> is the contract of the stores.
    \<^theory_text>\<open>ListRule\<close> (\<^verbatim>\<open>list_rule/list_rule.c\<close>): a table of rule lists, on that pool (through the locale \<open>node_pool\<close>) and on
    \<^theory_text>\<open>RuleList\<close>. \<^theory_text>\<open>IpAcl\<close> (\<^verbatim>\<open>acl/ip_acl.c\<close>): access lists for packets on that table, with the reference counts of the
    address and port pools that their rules name.

  \<^bold>\<open>How the code is read\<close>

  A C structure is a record, an enumeration a datatype, an operation a function from the state before to the result and the
  state after. Unsigned integers are words and wrap where the code's do; signed counters are integers where only their order
  matters. NULL is \<open>None\<close>; a pointer is an address in an explicit heap where the code follows or changes pointers (lists, tries,
  linked queues) and a position where it only names an element. Every allocation may fail: an operation takes either the
  outcome of its allocation or a script of outcomes (\<open>mem_ask\<close>, all further ones succeed). Callbacks are functions over a state
  of the client. A function whose source is not in the repository is a parameter: \<^verbatim>\<open>NUM_Rol32\<close> (\<open>rol\<close>), \<^verbatim>\<open>NUM_IS2N\<close> (\<open>is2n\<close>),
  \<^verbatim>\<open>NUM_CYCLE_INDEX_ADD\<close> (\<open>cyc\<close>), \<^verbatim>\<open>HASH_CreateInstance\<close>, \<^verbatim>\<open>NUM_NeedBits\<close> (\<open>needbits\<close>). The random numbers of \<^verbatim>\<open>RAND_Get\<close>
  (\<open>rnd\<close>, C's \<^verbatim>\<open>rand\<close>) and the mask \<^verbatim>\<open>TCP_FLAG_SYN | TCP_FLAG_FIN\<close> (\<open>syn_fin\<close>) are parameters because the theorems hold for
  any value of them; the pools of \<^theory_text>\<open>IpAcl\<close> are asked through parameters too (\<open>ip_pool\<close>,
  \<open>port_pool\<close>), because the type of the port pool is in a header that is missing; what a theorem needs of it is a named hypothesis,
  and its witness instantiates it.

  \<^bold>\<open>What the lemmas show\<close>

  Each component has an invariant (collected in \<open>inv_defs\<close>), the lemma that every operation keeps it, and the effect of every
  operation on an abstract value: a list for lists and queues, a map for tables, tries and arrays, a set for the
  bitmap, a multiset for heaps and hash
  tables, a set of routes for the prefix table, the segments of a stream for the reassembly, the ticks left for the timer wheel. The interpretations of the locales discharge
  the contracts for the code. The properties, numbered C1 and following, stand at the ends of their theories; each is followed
  by a witness at a concrete input. Loops whose bound is in the code are recursions with a measure. A loop that may run for
  ever is a \<open>partial_function\<close> over options (the firing loop of the wheel, whose callbacks may re-arm timers; the walk along the
  failure links and the queue loops of the matcher; the sift down of the heap), so that not returning is a value, and the
  theorems show that it returns in every state that the invariant admits. \<open>SQUE_Final\<close> alone has fuel, the count of the queue;
  its theorem shows that this empties it.

  \<^bold>\<open>Not modelled\<close>

  Vendored and generated code (\<^verbatim>\<open>ubpf\<close>, \<^verbatim>\<open>mybpf/*.exp.c\<close>, \<^verbatim>\<open>cjson\<close>, \<^verbatim>\<open>fastcgi\<close>, \<^verbatim>\<open>libbpf\<close>, \<^verbatim>\<open>sprintf\<close>, the AVL and red-black
  trees, the DPDK table of \<^verbatim>\<open>lpm/\<close>, \<^verbatim>\<open>spf_builder_def.h\<close>); the BSD-derived network stack; sockets, files, threads, the command
  line and the web server, which are input and output around these structures; functions whose helpers have no source in the
  repository (the string parser of the number list, the creation of hash instances); functions that only print or only free.
  Destructors of the tries are left out: \<^verbatim>\<open>trie_simple.c\<close> and \<^verbatim>\<open>trie_2bits.c\<close> leak, as the manifest's findings say.
\<close>

end
